(* ===== verification/Prelude.thy ===== *)
theory Prelude
  imports "HOL-Library.Word" "HOL-Library.Monad_Syntax"
begin

text \<open>
  What every component of the development shares: the machine types of a 64-bit iOS
  process, its byte-addressed memory, the C operations whose result the language does not
  always define, and the lemmas about them that carry the component proofs.

  The result type \<open>'a option\<close> is used in one way throughout: \<open>None\<close> is an execution whose
  behaviour C does not define (an access outside the mapped memory, pointer arithmetic that
  leaves the address space, a signed operation or a shift outside its range). A failure the
  code itself reports is a value (a \<open>bool\<close>, an error string) inside \<open>Some\<close>.
\<close>

unbundle bit_operations_syntax

named_theorems reader_simps \<open>unfolding of the parse-and-advance functions\<close>

section \<open>Machine types and memory\<close>

type_synonym byte = "8 word"
type_synonym u16 = "16 word"
type_synonym u32 = "32 word"
type_synonym u64 = "64 word"
type_synonym addr = "64 word"
type_synonym memory = "addr \<Rightarrow> byte option"

definition ptr_add :: "addr \<Rightarrow> u64 \<Rightarrow> addr option" where
  "ptr_add p n = (if unat p + unat n < 2 ^ 64 then Some (p + n) else None)"

fun load_bytes :: "memory \<Rightarrow> addr \<Rightarrow> nat \<Rightarrow> byte list option" where
  "load_bytes m p 0 = Some []"
| "load_bytes m p (Suc n) =
     do { b \<leftarrow> m p;
          q \<leftarrow> ptr_add p 1;
          bs \<leftarrow> load_bytes m q n;
          Some (b # bs) }"

fun bytes_nat :: "byte list \<Rightarrow> nat" where
  "bytes_nat [] = 0"
| "bytes_nat (b # bs) = unat b + 256 * bytes_nat bs"

definition ptr_sub :: "addr \<Rightarrow> u64 \<Rightarrow> addr option" where
  "ptr_sub p n = (if n \<le> p then Some (p - n) else None)"

definition load_le :: "nat \<Rightarrow> memory \<Rightarrow> addr \<Rightarrow> 'a::len word option" where
  "load_le n m p = map_option (\<lambda>bs. of_nat (bytes_nat bs)) (load_bytes m p n)"

text \<open>\<open>bytes_at m p bs\<close>: the bytes \<open>bs\<close> are mapped at \<open>p\<close>, and so is an end pointer.\<close>

primrec bytes_at :: "memory \<Rightarrow> addr \<Rightarrow> byte list \<Rightarrow> bool" where
  "bytes_at m p [] = True"
| "bytes_at m p (b # bs) = (m p = Some b \<and> unat p + 1 < 2 ^ 64 \<and> bytes_at m (p + 1) bs)"

text \<open>A memory that holds a list of bytes from an address on, and nothing else.\<close>

definition mem_of :: "addr \<Rightarrow> byte list \<Rightarrow> memory" where
  "mem_of base bs a = (if base \<le> a \<and> unat (a - base) < length bs
                       then Some (bs ! unat (a - base)) else None)"

text \<open>
  A result that may be undefined (\<open>None\<close>) or a failure the code reports (\<open>Some None\<close>), and the
  sequencing that passes both on.
\<close>

type_synonym 'a outcome = "'a option option"

definition and_then :: "'a outcome \<Rightarrow> ('a \<Rightarrow> 'b outcome) \<Rightarrow> 'b outcome" where
  "and_then r f = (case r of None \<Rightarrow> None | Some None \<Rightarrow> Some None | Some (Some a) \<Rightarrow> f a)"

lemma and_then_simps [simp]:
  "and_then None f = None" "and_then (Some None) f = Some None" "and_then (Some (Some a)) f = f a"
  by (simp_all add: and_then_def)

lemma and_then_bind [simp]: "and_then (do { a \<leftarrow> x; h a }) g = do { a \<leftarrow> x; and_then (h a) g }"
  by (cases x) simp_all

lemma and_then_case [simp]:
  "and_then (case x of (a, b) \<Rightarrow> h a b) g = (case x of (a, b) \<Rightarrow> and_then (h a b) g)"
  by (cases x) simp

lemma and_then_Some_Some:
  "and_then r f = Some (Some b) \<longleftrightarrow> (\<exists>a. r = Some (Some a) \<and> f a = Some (Some b))"
  by (auto simp: and_then_def split: option.splits)

section \<open>C integer operations that may be undefined\<close>

text \<open>\<open>x << s\<close> on a non-negative \<open>int\<close>: defined only for a shift below 32 and a result in range.\<close>

definition shl_int :: "u32 \<Rightarrow> nat \<Rightarrow> u32 option" where
  "shl_int x s = (if s < 32 \<and> unat x * 2 ^ s < 2 ^ 31 then Some (push_bit s x) else None)"

text \<open>Signed 64-bit addition and multiplication, undefined on overflow.\<close>

definition sadd64 :: "u64 \<Rightarrow> u64 \<Rightarrow> u64 option" where
  "sadd64 x y = (if - (2 ^ 63) \<le> sint x + sint y \<and> sint x + sint y < 2 ^ 63
                 then Some (x + y) else None)"

definition smul64 :: "u64 \<Rightarrow> u64 \<Rightarrow> u64 option" where
  "smul64 x y = (if - (2 ^ 63) \<le> sint x * sint y \<and> sint x * sint y < 2 ^ 63
                 then Some (x * y) else None)"

section \<open>Lemmas on pointers and loads\<close>

lemma ptr_add_Some: "ptr_add p n = Some q \<longleftrightarrow> unat p + unat n < 2 ^ 64 \<and> q = p + n"
  by (auto simp: ptr_add_def)

lemma ptr_add_unat: "ptr_add p n = Some q \<Longrightarrow> unat q = unat p + unat n"
  by (auto simp: ptr_add_def unat_word_ariths split: if_splits)

lemma unat_add_lt: "unat p + unat n < 2 ^ 64 \<Longrightarrow> unat (p + n :: addr) = unat p + unat n"
  by (simp add: unat_word_ariths)

lemma unat_add_of_nat: "unat p + n < 2 ^ 64 \<Longrightarrow> unat (p + of_nat n :: addr) = unat p + n"
  by (simp add: unat_word_ariths unat_of_nat)

lemma ptr_add_advances: "ptr_add p n = Some q \<Longrightarrow> n \<noteq> 0 \<Longrightarrow> unat p < unat q"
  by (auto dest: ptr_add_unat simp: unat_gt_0)

lemma load_bytes_numeral [simp]:
  "load_bytes m p (numeral k) =
     do { b \<leftarrow> m p; q \<leftarrow> ptr_add p 1; bs \<leftarrow> load_bytes m q (pred_numeral k); Some (b # bs) }"
  by (simp add: numeral_eq_Suc)

lemma load_bytes_iff: "load_bytes m p n = Some bs \<longleftrightarrow> length bs = n \<and> bytes_at m p bs"
proof (induction n arbitrary: p bs)
  case 0
  then show ?case by auto
next
  case (Suc n)
  show ?case
  proof (cases bs)
    case Nil
    then show ?thesis by (auto simp: bind_eq_Some_conv)
  next
    case (Cons b bs')
    with Suc.IH show ?thesis
      by (auto simp: bind_eq_Some_conv ptr_add_Some)
  qed
qed

lemma bytes_at_append:
  "bytes_at m p (xs @ ys) \<longleftrightarrow> bytes_at m p xs \<and> bytes_at m (p + of_nat (length xs)) ys"
proof (induction xs arbitrary: p)
  case Nil
  show ?case by simp
next
  case (Cons x xs)
  have "p + 1 + of_nat (length xs) = p + of_nat (length (x # xs))" by (simp add: add.assoc)
  with Cons.IH [of "p + 1"] show ?case by simp
qed

lemma bytes_at_end: "bytes_at m p bs \<Longrightarrow> unat p + length bs < 2 ^ 64"
proof (induction bs arbitrary: p)
  case Nil
  show ?case using unsigned_less [of p] by simp
next
  case (Cons b bs)
  then have "unat (p + 1) + length bs < 2 ^ 64" by simp
  moreover have "unat (p + 1) = unat p + 1"
    using Cons.prems unat_add_lt [of p 1] by simp
  ultimately show ?case by simp
qed

lemma bytes_at_local:
  assumes "bytes_at m p bs" and "\<And>a. unat p \<le> unat a \<Longrightarrow> unat a < unat p + length bs \<Longrightarrow> m' a = m a"
  shows "bytes_at m' p bs"
  using assms
proof (induction bs arbitrary: p)
  case Nil
  then show ?case by simp
next
  case (Cons b bs)
  from Cons.prems(1) have p1: "unat (p + 1) = unat p + 1"
    using unat_add_lt [of p 1] by simp
  have "bytes_at m' (p + 1) bs"
    using Cons.prems by (intro Cons.IH) (auto simp: p1)
  moreover have "m' p = m p" by (rule Cons.prems(2)) auto
  ultimately show ?case using Cons.prems(1) by simp
qed

lemma load_le_Some:
  "load_le n m p = Some w \<longleftrightarrow> (\<exists>bs. length bs = n \<and> bytes_at m p bs \<and> w = of_nat (bytes_nat bs))"
  by (auto simp: load_le_def load_bytes_iff)

lemma load_le_bytes:
  "bytes_at m p bs \<Longrightarrow> length bs = n \<Longrightarrow> load_le n m p = Some (of_nat (bytes_nat bs))"
  by (auto simp: load_le_Some)

lemma bytes_nat_less: "bytes_nat bs < 256 ^ length bs"
proof (induction bs)
  case Nil
  show ?case by simp
next
  case (Cons b bs)
  have "unat b < 256" using unsigned_less [of b] by simp
  with Cons.IH show ?case by simp
qed

lemma mem_of_lookup:
  assumes "unat base + length bs < 2 ^ 64" "i < length bs"
  shows "mem_of base bs (base + of_nat i) = Some (bs ! i)"
proof -
  have u: "unat (base + of_nat i) = unat base + i" using assms by (intro unat_add_of_nat) simp
  then have "base \<le> base + of_nat i" by (simp add: word_le_nat_alt)
  then show ?thesis using assms by (simp add: mem_of_def unat_of_nat)
qed

lemma bytes_at_mem_of:
  assumes "unat base + length bs < 2 ^ 64"
  shows "bytes_at (mem_of base bs) base bs"
proof -
  have "bytes_at (mem_of base bs) (base + of_nat i) (drop i bs)" if "i \<le> length bs" for i
    using that
  proof (induction "length bs - i" arbitrary: i)
    case 0
    then show ?case by simp
  next
    case (Suc n)
    then have i: "i < length bs" by simp
    have "bytes_at (mem_of base bs) (base + of_nat (Suc i)) (drop (Suc i) bs)"
      using Suc.hyps i by (intro Suc.hyps(1)) auto
    moreover have "unat (base + of_nat i) = unat base + i" using assms i by (intro unat_add_of_nat) simp
    ultimately show ?case
      using mem_of_lookup [OF assms i] i assms by (simp add: Cons_nth_drop_Suc [symmetric] add_ac)
  qed
  from this [of 0] show ?thesis by simp
qed

section \<open>Bits of low-order fields\<close>

lemma bit_imp_unat_le: "bit (x :: 'a::len word) n \<Longrightarrow> 2 ^ n \<le> unat x"
proof (rule ccontr)
  assume bit: "bit x n" and "\<not> 2 ^ n \<le> unat x"
  then have "unat x div 2 ^ n = 0" by simp
  moreover from bit have "bit (unat x) n" by (simp add: bit_unsigned_iff)
  ultimately show False by (simp add: bit_iff_odd)
qed

text \<open>A field placed above the bits of \<open>x\<close> can be added with \<open>OR\<close>.\<close>

lemma word_or_push_bit:
  fixes x y :: "'a::len word"
  assumes "unat x < 2 ^ s"
  shows "x OR push_bit s y = x + push_bit s y"
proof -
  have "x AND push_bit s y = 0"
  proof (rule bit_eqI)
    fix n
    have "\<not> bit x n" if "s \<le> n"
    proof
      assume "bit x n"
      then have "2 ^ n \<le> unat x" by (rule bit_imp_unat_le)
      moreover have "(2::nat) ^ s \<le> 2 ^ n" using that by (rule power_increasing) simp
      ultimately show False using assms by simp
    qed
    then show "bit (x AND push_bit s y) n = bit 0 n"
      by (auto simp: bit_and_iff bit_push_bit_iff)
  qed
  then show ?thesis by (rule disjunctive_add_eq_or [symmetric])
qed

lemma word_or_of_nat:
  fixes x :: "'a::len word"
  assumes "unat x < 2 ^ s"
  shows "x OR of_nat (k * 2 ^ s) = x + of_nat (k * 2 ^ s)"
  using word_or_push_bit [OF assms, of "of_nat k"] by (simp add: push_bit_eq_mult)

lemma word_or_minus_exp:
  fixes x :: "'a::len word"
  assumes "unat x < 2 ^ s"
  shows "x OR - (2 ^ s) = x - 2 ^ s"
  using word_or_push_bit [OF assms, of "-1"] by (simp add: push_bit_eq_mult)

lemma unat_push_bit_lt:
  fixes x :: "'a::len word"
  assumes "unat x * 2 ^ s < 2 ^ LENGTH('a)"
  shows "unat (push_bit s x) = unat x * 2 ^ s"
  unfolding unsigned_push_bit_eq using assms
  by (simp add: push_bit_eq_mult take_bit_nat_eq_self)

lemma unat_and_127: "unat (0x7F AND b :: byte) = unat b mod 128"
proof -
  have "0x7F AND b = take_bit 7 b"
    by (simp add: take_bit_eq_mask mask_eq_exp_minus_1 and.commute)
  then have "unat (0x7F AND b) = take_bit 7 (unat b)" by (simp only: unsigned_take_bit_eq)
  then show ?thesis by (simp add: take_bit_eq_mod)
qed

lemma and_128_eq_0: "0x80 AND b = (0 :: byte) \<longleftrightarrow> unat b < 128"
proof -
  have "0x80 AND b = 0 \<longleftrightarrow> \<not> bit b 7"
    using and_exp_eq_0_iff_not_bit [of b 7] by (simp add: and.commute)
  moreover have "bit b 7 \<longleftrightarrow> bit (unat b) 7" by (simp add: bit_unsigned_iff)
  moreover have "bit (unat b) 7 \<longleftrightarrow> \<not> unat b < 128"
  proof -
    have "unat b < 256" using unsigned_less [of b] by simp
    then have "unat b div 128 = (if unat b < 128 then 0 else 1)" by auto
    then show ?thesis by (simp add: bit_iff_odd)
  qed
  ultimately show ?thesis by blast
qed

text \<open>Conversion of a non-negative signed value.\<close>

lemma sint_nonneg:
  fixes x :: "'a::len word"
  assumes "unat x < 2 ^ (LENGTH('a) - 1)"
  shows "sint x = int (unat x)"
proof -
  let ?n = "LENGTH('a) - 1"
  have "int (unat x) < int (2 ^ ?n)" using assms by (simp only: of_nat_less_iff)
  then have lt: "int (unat x) < 2 ^ ?n" by simp
  have ge: "- (2 ^ ?n) \<le> int (unat x)"
    using order.trans [of "- (2 ^ ?n)" 0 "int (unat x)"] by simp
  have "sint x = signed_take_bit ?n (int (unat x))" by (simp only: sint_uint uint_nat One_nat_def)
  also have "\<dots> = int (unat x)" using ge lt by (rule signed_take_bit_int_eq_self)
  finally show ?thesis .
qed

lemma scast_nonneg: "unat (t :: u32) < 2 ^ 31 \<Longrightarrow> scast t = (of_nat (unat t) :: u64)"
  by (simp add: scast_eq sint_nonneg)

lemma unat_ucast_up:
  fixes x :: "'a::len word"
  assumes "LENGTH('a) \<le> LENGTH('b::len)"
  shows "unat (ucast x :: 'b word) = unat x"
proof -
  have "unat x < 2 ^ LENGTH('a)" by simp
  also have "(2::nat) ^ LENGTH('a) \<le> 2 ^ LENGTH('b)" using assms by (rule power_increasing) simp
  finally show ?thesis by (simp add: unsigned_ucast_eq take_bit_nat_eq_self)
qed

lemma unat_add_of_nat_le: "unat (x + of_nat k :: 'a::len word) \<le> unat x + k"
proof -
  have "unat (x + of_nat k) = (unat x + unat (of_nat k :: 'a word)) mod 2 ^ LENGTH('a)"
    by (simp add: unat_word_ariths)
  also have "\<dots> \<le> unat x + unat (of_nat k :: 'a word)" by (rule mod_less_eq_dividend)
  also have "\<dots> \<le> unat x + k" by (simp add: unat_of_nat)
  finally show ?thesis .
qed

section \<open>Little-endian bytes of a number\<close>

fun nat_bytes :: "nat \<Rightarrow> nat \<Rightarrow> byte list" where
  "nat_bytes 0 x = []"
| "nat_bytes (Suc n) x = of_nat (x mod 256) # nat_bytes n (x div 256)"

lemma nat_bytes_numeral [simp]:
  "nat_bytes (numeral k) x = of_nat (x mod 256) # nat_bytes (pred_numeral k) (x div 256)"
  unfolding numeral_eq_Suc [of k] by (rule nat_bytes.simps(2))

lemma length_nat_bytes: "length (nat_bytes n x) = n"
  by (induction n arbitrary: x) auto

lemma bytes_nat_of_nat_bytes: "bytes_nat (nat_bytes n x) = x mod 256 ^ n"
proof (induction n arbitrary: x)
  case 0
  show ?case by simp
next
  case (Suc n)
  have "x mod (256 * 256 ^ n) = 256 * (x div 256 mod 256 ^ n) + x mod 256"
    by (rule mod_mult2_eq)
  moreover have "unat (of_nat (x mod 256) :: byte) = x mod 256" by (simp add: unat_of_nat)
  ultimately show ?case using Suc.IH [of "x div 256"] by simp
qed

lemma of_nat_bytes_nat:
  assumes "LENGTH('a) \<le> 8 * n"
  shows "of_nat (bytes_nat (nat_bytes n x)) = (of_nat x :: 'a::len word)"
proof -
  have "(256::nat) ^ n = 2 ^ (8 * n)" by (simp add: power_mult)
  also have "\<dots> = 2 ^ (8 * n - LENGTH('a)) * 2 ^ LENGTH('a)"
    using assms by (simp flip: power_add)
  finally have "x mod 256 ^ n mod 2 ^ LENGTH('a) = x mod 2 ^ LENGTH('a)"
    by (simp add: mod_mod_cancel)
  then show ?thesis by (simp add: bytes_nat_of_nat_bytes word_of_nat_eq_iff take_bit_eq_mod)
qed

lemma sint_bounds64: "- (2 ^ 63) \<le> sint (x :: u64) \<and> sint x < 2 ^ 63"
  using sint_ge [of x] sint_lt [of x] by simp

end
