(* ===== verification/Data_Parsing.thy ===== *)
theory Data_Parsing
  imports Prelude
begin

text \<open>
  The parse-and-advance functions of
  \<^verbatim>\<open>Crashlytics/Unwind/Dwarf/FIRCLSDataParsing.c\<close>. A function
  \<open>T f(const void** cursor)\<close> of the source is a function from the memory and the cursor to
  the value and the advanced cursor. The cursor is a value here, so that the
  \<open>if (!cursor)\<close> of the by-reference parameter has nothing to test.
  The locale \<open>cursor_reader\<close> states what the DWARF readers rely on; every parser that reads
  only at its cursor is an interpretation of it.
\<close>

section \<open>Constants\<close>

definition CLS_INVALID_ADDRESS :: addr where "CLS_INVALID_ADDRESS = 0xffffffffffffffff"
definition DWARF_EXTENDED_LENGTH_FLAG :: u32 where "DWARF_EXTENDED_LENGTH_FLAG = 0xffffffff"

definition DW_EH_PE_VALUE_MASK :: byte where "DW_EH_PE_VALUE_MASK = 0x0F"
definition DW_EH_PE_RELATIVE_OFFSET_MASK :: byte where "DW_EH_PE_RELATIVE_OFFSET_MASK = 0x70"

definition DW_EH_PE_ptr :: byte where "DW_EH_PE_ptr = 0x00"
definition DW_EH_PE_uleb128 :: byte where "DW_EH_PE_uleb128 = 0x01"
definition DW_EH_PE_udata2 :: byte where "DW_EH_PE_udata2 = 0x02"
definition DW_EH_PE_udata4 :: byte where "DW_EH_PE_udata4 = 0x03"
definition DW_EH_PE_udata8 :: byte where "DW_EH_PE_udata8 = 0x04"
definition DW_EH_PE_sleb128 :: byte where "DW_EH_PE_sleb128 = 0x09"
definition DW_EH_PE_sdata2 :: byte where "DW_EH_PE_sdata2 = 0x0A"
definition DW_EH_PE_sdata4 :: byte where "DW_EH_PE_sdata4 = 0x0B"
definition DW_EH_PE_sdata8 :: byte where "DW_EH_PE_sdata8 = 0x0C"
definition DW_EH_PE_absptr :: byte where "DW_EH_PE_absptr = 0x00"
definition DW_EH_PE_pcrel :: byte where "DW_EH_PE_pcrel = 0x10"
definition DW_EH_PE_indirect :: byte where "DW_EH_PE_indirect = 0x80"
definition DW_EH_PE_omit :: byte where "DW_EH_PE_omit = 0xFF"

lemmas DW_EH_PE_defs =
  DW_EH_PE_VALUE_MASK_def DW_EH_PE_RELATIVE_OFFSET_MASK_def DW_EH_PE_ptr_def
  DW_EH_PE_uleb128_def DW_EH_PE_udata2_def DW_EH_PE_udata4_def DW_EH_PE_udata8_def
  DW_EH_PE_sleb128_def DW_EH_PE_sdata2_def DW_EH_PE_sdata4_def DW_EH_PE_sdata8_def
  DW_EH_PE_absptr_def DW_EH_PE_pcrel_def DW_EH_PE_indirect_def DW_EH_PE_omit_def

section \<open>Fixed-width values\<close>

definition FIRCLSParseUint8AndAdvance :: "memory \<Rightarrow> addr \<Rightarrow> (byte \<times> addr) option" where
  "FIRCLSParseUint8AndAdvance m cursor =
     do { tmp \<leftarrow> m cursor; cursor' \<leftarrow> ptr_add cursor 1; Some (tmp, cursor') }"

definition FIRCLSParseUint16AndAdvance :: "memory \<Rightarrow> addr \<Rightarrow> (u16 \<times> addr) option" where
  "FIRCLSParseUint16AndAdvance m cursor =
     do { tmp \<leftarrow> load_le 2 m cursor; cursor' \<leftarrow> ptr_add cursor 2; Some (tmp, cursor') }"

text \<open>A signed value keeps its bits; the caller reads it with \<open>scast\<close>.\<close>

definition FIRCLSParseInt16AndAdvance :: "memory \<Rightarrow> addr \<Rightarrow> (u16 \<times> addr) option" where
  "FIRCLSParseInt16AndAdvance m cursor =
     do { tmp \<leftarrow> load_le 2 m cursor; cursor' \<leftarrow> ptr_add cursor 2; Some (tmp, cursor') }"

definition FIRCLSParseUint32AndAdvance :: "memory \<Rightarrow> addr \<Rightarrow> (u32 \<times> addr) option" where
  "FIRCLSParseUint32AndAdvance m cursor =
     do { tmp \<leftarrow> load_le 4 m cursor; cursor' \<leftarrow> ptr_add cursor 4; Some (tmp, cursor') }"

definition FIRCLSParseInt32AndAdvance :: "memory \<Rightarrow> addr \<Rightarrow> (u32 \<times> addr) option" where
  "FIRCLSParseInt32AndAdvance m cursor =
     do { tmp \<leftarrow> load_le 4 m cursor; cursor' \<leftarrow> ptr_add cursor 4; Some (tmp, cursor') }"

definition FIRCLSParseUint64AndAdvance :: "memory \<Rightarrow> addr \<Rightarrow> (u64 \<times> addr) option" where
  "FIRCLSParseUint64AndAdvance m cursor =
     do { tmp \<leftarrow> load_le 8 m cursor; cursor' \<leftarrow> ptr_add cursor 8; Some (tmp, cursor') }"

definition FIRCLSParseInt64AndAdvance :: "memory \<Rightarrow> addr \<Rightarrow> (u64 \<times> addr) option" where
  "FIRCLSParseInt64AndAdvance m cursor =
     do { tmp \<leftarrow> load_le 8 m cursor; cursor' \<leftarrow> ptr_add cursor 8; Some (tmp, cursor') }"

definition FIRCLSParsePointerAndAdvance :: "memory \<Rightarrow> addr \<Rightarrow> (u64 \<times> addr) option" where
  "FIRCLSParsePointerAndAdvance m cursor =
     do { tmp \<leftarrow> load_le 8 m cursor; cursor' \<leftarrow> ptr_add cursor 8; Some (tmp, cursor') }"

section \<open>LEB128\<close>

text \<open>
  The loops run at most \<open>sizeof(uint64_t)\<close> times. \<open>(0x7F & byte) << shift\<close> is an \<open>int\<close>
  expression, converted to \<open>uint64_t\<close> by the assignment.
\<close>

fun uleb128_loop :: "nat \<Rightarrow> memory \<Rightarrow> addr \<Rightarrow> u64 \<Rightarrow> nat \<Rightarrow> (u64 \<times> addr) option" where
  "uleb128_loop 0 m cursor result shift = Some (result, cursor)"
| "uleb128_loop (Suc i) m cursor result shift =
     do { b \<leftarrow> m cursor;
          cursor' \<leftarrow> ptr_add cursor 1;
          t \<leftarrow> shl_int (ucast (0x7F AND b)) shift;
          let result' = result OR scast t in
          if 0x80 AND b = 0 then Some (result', cursor')
          else uleb128_loop i m cursor' result' (shift + 7) }"

definition FIRCLSParseULEB128AndAdvance :: "memory \<Rightarrow> addr \<Rightarrow> (u64 \<times> addr) option" where
  "FIRCLSParseULEB128AndAdvance m cursor = uleb128_loop 8 m cursor 0 0"

fun leb128_loop ::
    "nat \<Rightarrow> memory \<Rightarrow> addr \<Rightarrow> u64 \<Rightarrow> nat \<Rightarrow> byte \<Rightarrow> (u64 \<times> nat \<times> byte \<times> addr) option" where
  "leb128_loop 0 m cursor result shift b = Some (result, shift, b, cursor)"
| "leb128_loop (Suc i) m cursor result shift _ =
     do { b \<leftarrow> m cursor;
          cursor' \<leftarrow> ptr_add cursor 1;
          t \<leftarrow> shl_int (ucast (0x7F AND b)) shift;
          let result' = result OR scast t;
              shift' = shift + 7 in
          if 0x80 AND b = 0 then Some (result', shift', b, cursor')
          else leb128_loop i m cursor' result' shift' b }"

definition FIRCLSParseLEB128AndAdvance :: "memory \<Rightarrow> addr \<Rightarrow> (u64 \<times> addr) option" where
  "FIRCLSParseLEB128AndAdvance m cursor =
     do { (result, shift, b, cursor') \<leftarrow> leb128_loop 8 m cursor 0 0 0;
          if shift < 64 \<and> 0x40 AND b \<noteq> 0
          then do { t \<leftarrow> shl_int 1 shift; Some (result OR scast (- t), cursor') }
          else Some (result, cursor') }"

section \<open>Strings, lengths, encoded addresses\<close>

text \<open>
  \<open>strlen\<close>: the number of bytes before the first zero byte. As in \<open>load_bytes\<close>, the pointer
  one past each byte read has to exist.
\<close>

function c_strlen :: "memory \<Rightarrow> addr \<Rightarrow> nat option" where
  "c_strlen m p =
     (case m p of None \<Rightarrow> None
      | Some c \<Rightarrow> (case ptr_add p 1 of None \<Rightarrow> None
                  | Some q \<Rightarrow> if c = 0 then Some 0 else map_option Suc (c_strlen m q)))"
  by pat_completeness auto
termination
proof (relation "measure (\<lambda>(m, p). 2 ^ 64 - unat p)")
  fix m :: memory and p c q
  assume "ptr_add p 1 = Some q"
  then have "unat q = unat p + 1" and "unat q < 2 ^ 64"
    using unsigned_less [of q] by (auto dest: ptr_add_unat)
  then show "((m, q), (m, p)) \<in> measure (\<lambda>(m, p). 2 ^ 64 - unat p)" by simp
qed simp

declare c_strlen.simps [simp del]

definition FIRCLSParseStringAndAdvance :: "memory \<Rightarrow> addr \<Rightarrow> (addr \<times> addr) option" where
  "FIRCLSParseStringAndAdvance m cursor =
     do { n \<leftarrow> c_strlen m cursor;
          cursor' \<leftarrow> ptr_add cursor (of_nat n + 1);
          Some (cursor, cursor') }"

definition FIRCLSParseRecordLengthAndAdvance :: "memory \<Rightarrow> addr \<Rightarrow> (u64 \<times> addr) option" where
  "FIRCLSParseRecordLengthAndAdvance m cursor =
     do { (len, cursor') \<leftarrow> FIRCLSParseUint32AndAdvance m cursor;
          if len = DWARF_EXTENDED_LENGTH_FLAG
          then FIRCLSParseUint64AndAdvance m cursor'
          else Some (ucast len, cursor') }"

text \<open>
  The value switch of \<open>FIRCLSParseAddressWithEncodingAndAdvance\<close>: \<open>Some None\<close> is the
  \<open>default\<close> branch, which returns \<open>CLS_INVALID_ADDRESS\<close> before the cursor moves.
\<close>

definition parse_encoded_value :: "memory \<Rightarrow> addr \<Rightarrow> byte \<Rightarrow> (u64 \<times> addr) option option" where
  "parse_encoded_value m cursor encoding =
     (let e = encoding AND DW_EH_PE_VALUE_MASK in
      if e = DW_EH_PE_ptr then map_option Some (FIRCLSParsePointerAndAdvance m cursor)
      else if e = DW_EH_PE_uleb128 then map_option Some (FIRCLSParseULEB128AndAdvance m cursor)
      else if e = DW_EH_PE_udata2 then
        map_option (\<lambda>(v, q). Some (ucast v, q)) (FIRCLSParseUint16AndAdvance m cursor)
      else if e = DW_EH_PE_udata4 then
        map_option (\<lambda>(v, q). Some (ucast v, q)) (FIRCLSParseUint32AndAdvance m cursor)
      else if e = DW_EH_PE_udata8 then map_option Some (FIRCLSParseUint64AndAdvance m cursor)
      else if e = DW_EH_PE_sleb128 then map_option Some (FIRCLSParseLEB128AndAdvance m cursor)
      else if e = DW_EH_PE_sdata2 then
        map_option (\<lambda>(v, q). Some (scast v, q)) (FIRCLSParseInt16AndAdvance m cursor)
      else if e = DW_EH_PE_sdata4 then
        map_option (\<lambda>(v, q). Some (scast v, q)) (FIRCLSParseInt32AndAdvance m cursor)
      else if e = DW_EH_PE_sdata8 then map_option Some (FIRCLSParseInt64AndAdvance m cursor)
      else Some None)"

definition FIRCLSParseAddressWithEncodingAndAdvance ::
    "memory \<Rightarrow> addr \<Rightarrow> byte \<Rightarrow> (addr \<times> addr) option" where
  "FIRCLSParseAddressWithEncodingAndAdvance m cursor encoding =
     (if encoding = DW_EH_PE_omit then Some (0, cursor)
      else if cursor = 0 then Some (CLS_INVALID_ADDRESS, cursor)
      else do {
        r \<leftarrow> parse_encoded_value m cursor encoding;
        case r of None \<Rightarrow> Some (CLS_INVALID_ADDRESS, cursor)
        | Some (v, cursor') \<Rightarrow>
            let rel = encoding AND DW_EH_PE_RELATIVE_OFFSET_MASK in
            if rel \<noteq> DW_EH_PE_absptr \<and> rel \<noteq> DW_EH_PE_pcrel
            then Some (CLS_INVALID_ADDRESS, cursor')
            else do {
              a \<leftarrow> (if rel = DW_EH_PE_pcrel then sadd64 v cursor else Some v);
              if encoding AND DW_EH_PE_indirect \<noteq> 0
              then if a = 0 then Some (CLS_INVALID_ADDRESS, cursor')
                   else do { a' \<leftarrow> load_le 8 m a; Some (a', cursor') }
              else Some (a, cursor') } })"

lemmas [reader_simps] =
  FIRCLSParseUint8AndAdvance_def FIRCLSParseUint16AndAdvance_def FIRCLSParseInt16AndAdvance_def
  FIRCLSParseUint32AndAdvance_def FIRCLSParseInt32AndAdvance_def FIRCLSParseUint64AndAdvance_def
  FIRCLSParseInt64AndAdvance_def FIRCLSParsePointerAndAdvance_def

section \<open>The interface of a reader\<close>

text \<open>
  A reader moves its cursor strictly forward, and its result depends only on the bytes it
  moved over. \<open>bounded_reader\<close> adds a bound on how far it can move.
\<close>

locale cursor_reader =
  fixes parse :: "memory \<Rightarrow> addr \<Rightarrow> ('a \<times> addr) option"
  assumes advances: "parse m p = Some (v, q) \<Longrightarrow> unat p < unat q"
    and local_reads: "parse m p = Some (v, q) \<Longrightarrow>
      (\<And>a. unat p \<le> unat a \<Longrightarrow> unat a < unat q \<Longrightarrow> m' a = m a) \<Longrightarrow> parse m' p = Some (v, q)"
begin

lemma cursor_changes: "parse m p = Some (v, q) \<Longrightarrow> q \<noteq> p \<and> q \<noteq> 0"
  by (auto dest: advances)

lemma advances_le: "parse m p = Some (v, q) \<Longrightarrow> unat p \<le> unat q"
  by (drule advances) simp

text \<open>Two readers in sequence are a reader.\<close>

lemma then_reader:
  assumes next_reader: "\<And>v. cursor_reader (next_parse v)"
  shows "cursor_reader (\<lambda>m p. do { (v, q) \<leftarrow> parse m p; next_parse v m q })"
proof
  fix m p w r
  assume "do { (v, q) \<leftarrow> parse m p; next_parse v m q } = Some (w, r)"
  then obtain v q where 1: "parse m p = Some (v, q)" and 2: "next_parse v m q = Some (w, r)"
    by (auto simp: bind_eq_Some_conv)
  have pq: "unat p < unat q" using 1 by (rule advances)
  have qr: "unat q < unat r" by (rule cursor_reader.advances [OF next_reader 2])
  show "unat p < unat r" using pq qr by simp
  fix m'
  assume same: "\<And>a. unat p \<le> unat a \<Longrightarrow> unat a < unat r \<Longrightarrow> m' a = m a"
  have "parse m' p = Some (v, q)" by (rule local_reads [OF 1 same]) (use qr in auto)
  moreover have "next_parse v m' q = Some (w, r)"
    by (rule cursor_reader.local_reads [OF next_reader 2 same]) (use pq in auto)
  ultimately show "do { (v, q) \<leftarrow> parse m' p; next_parse v m' q } = Some (w, r)" by simp
qed

lemma map_reader: "cursor_reader (\<lambda>m p. map_option (\<lambda>(v, q). (f v, q)) (parse m p))"
  by unfold_locales (auto dest: advances intro: local_reads)

end

locale bounded_reader = cursor_reader +
  fixes width :: nat
  assumes bounded: "parse m p = Some (v, q) \<Longrightarrow> unat q \<le> unat p + width"
begin

lemma then_bounded:
  assumes next_reader: "\<And>v. bounded_reader (next_parse v) width'"
  shows "bounded_reader (\<lambda>m p. do { (v, q) \<leftarrow> parse m p; next_parse v m q }) (width + width')"
proof -
  have cr: "cursor_reader (next_parse v)" for v
    by (rule bounded_reader.axioms(1) [OF next_reader])
  show ?thesis
  proof (intro bounded_reader.intro bounded_reader_axioms.intro)
    show "cursor_reader (\<lambda>m p. do { (v, q) \<leftarrow> parse m p; next_parse v m q })"
      using cr by (rule then_reader)
    fix m p w r
    assume "do { (v, q) \<leftarrow> parse m p; next_parse v m q } = Some (w, r)"
    then obtain v q where 1: "parse m p = Some (v, q)" and 2: "next_parse v m q = Some (w, r)"
      by (auto simp: bind_eq_Some_conv)
    show "unat r \<le> unat p + (width + width')"
      using bounded [OF 1] bounded_reader.bounded [OF next_reader 2] by simp
  qed
qed

end

lemma load_reader:
  assumes k: "unat k = n" and n: "0 < n"
  shows "bounded_reader (\<lambda>m p. do { t \<leftarrow> load_le n m p; q \<leftarrow> ptr_add p k; Some (t, q) }) n"
proof
  fix m p v q
  assume "do { t \<leftarrow> load_le n m p; q \<leftarrow> ptr_add p k; Some (t, q) } = Some (v, q)"
  then have l: "load_le n m p = Some v" and a: "ptr_add p k = Some q"
    by (auto simp: bind_eq_Some_conv)
  have q: "unat q = unat p + n" using ptr_add_unat [OF a] k by simp
  show "unat p < unat q" "unat q \<le> unat p + n" using q n by simp_all
  fix m'
  assume same: "\<And>a. unat p \<le> unat a \<Longrightarrow> unat a < unat q \<Longrightarrow> m' a = m a"
  from l obtain bs where "length bs = n" "bytes_at m p bs" "v = of_nat (bytes_nat bs)"
    by (auto simp: load_le_Some)
  moreover have "bytes_at m' p bs"
    by (rule bytes_at_local [OF \<open>bytes_at m p bs\<close>]) (use same q \<open>length bs = n\<close> in auto)
  ultimately have "load_le n m' p = Some v" by (auto simp: load_le_Some)
  with a show "do { t \<leftarrow> load_le n m' p; q \<leftarrow> ptr_add p k; Some (t, q) } = Some (v, q)" by simp
qed

interpretation uint8: bounded_reader FIRCLSParseUint8AndAdvance 1
  by unfold_locales (auto simp: FIRCLSParseUint8AndAdvance_def bind_eq_Some_conv dest: ptr_add_unat)

interpretation uint16: bounded_reader FIRCLSParseUint16AndAdvance 2
  unfolding FIRCLSParseUint16AndAdvance_def by (rule load_reader) simp_all

interpretation int16: bounded_reader FIRCLSParseInt16AndAdvance 2
  unfolding FIRCLSParseInt16AndAdvance_def by (rule load_reader) simp_all

interpretation uint32: bounded_reader FIRCLSParseUint32AndAdvance 4
  unfolding FIRCLSParseUint32AndAdvance_def by (rule load_reader) simp_all

interpretation int32: bounded_reader FIRCLSParseInt32AndAdvance 4
  unfolding FIRCLSParseInt32AndAdvance_def by (rule load_reader) simp_all

interpretation uint64: bounded_reader FIRCLSParseUint64AndAdvance 8
  unfolding FIRCLSParseUint64AndAdvance_def by (rule load_reader) simp_all

interpretation int64: bounded_reader FIRCLSParseInt64AndAdvance 8
  unfolding FIRCLSParseInt64AndAdvance_def by (rule load_reader) simp_all

interpretation pointer: bounded_reader FIRCLSParsePointerAndAdvance 8
  unfolding FIRCLSParsePointerAndAdvance_def by (rule load_reader) simp_all

lemma uleb128_loop_moves:
  "uleb128_loop i m p r s = Some (v, q) \<Longrightarrow>
   (0 < i \<longrightarrow> unat p < unat q) \<and> unat p \<le> unat q \<and> unat q \<le> unat p + i"
proof (induction i m p r s rule: uleb128_loop.induct)
  case (1 m p r s)
  then show ?case by simp
next
  case (2 i m p r s)
  then show ?case
    by (fastforce simp: bind_eq_Some_conv Let_def split: if_splits dest: ptr_add_unat)
qed

lemma uleb128_loop_local:
  "uleb128_loop i m p r s = Some (v, q) \<Longrightarrow>
   (\<And>a. unat p \<le> unat a \<Longrightarrow> unat a < unat q \<Longrightarrow> m' a = m a) \<Longrightarrow>
   uleb128_loop i m' p r s = Some (v, q)"
proof (induction i m p r s rule: uleb128_loop.induct)
  case (1 m p r s)
  then show ?case by simp
next
  case (2 i m p r s)
  from "2.prems"(1) have "unat p < unat q" using uleb128_loop_moves by blast
  then have "m' p = m p" using "2.prems"(2) by simp
  then show ?case using "2.prems" "2.IH"
    by (fastforce simp: bind_eq_Some_conv Let_def split: if_splits dest: ptr_add_unat)
qed

interpretation uleb128: bounded_reader FIRCLSParseULEB128AndAdvance 8
  unfolding FIRCLSParseULEB128AndAdvance_def
  by unfold_locales (auto dest: uleb128_loop_moves intro: uleb128_loop_local)

lemma leb128_loop_moves:
  "leb128_loop i m p r s b0 = Some (v, t, b, q) \<Longrightarrow>
   (0 < i \<longrightarrow> unat p < unat q) \<and> unat p \<le> unat q \<and> unat q \<le> unat p + i"
proof (induction i m p r s b0 rule: leb128_loop.induct)
  case (1 m p r s b0)
  then show ?case by simp
next
  case (2 i m p r s b0)
  then show ?case
    by (fastforce simp: bind_eq_Some_conv Let_def split: if_splits dest: ptr_add_unat)
qed

lemma leb128_loop_local:
  "leb128_loop i m p r s b0 = Some (v, t, b, q) \<Longrightarrow>
   (\<And>a. unat p \<le> unat a \<Longrightarrow> unat a < unat q \<Longrightarrow> m' a = m a) \<Longrightarrow>
   leb128_loop i m' p r s b0 = Some (v, t, b, q)"
proof (induction i m p r s b0 rule: leb128_loop.induct)
  case (1 m p r s b0)
  then show ?case by simp
next
  case (2 i m p r s b0)
  from "2.prems"(1) have "unat p < unat q" using leb128_loop_moves by blast
  then have "m' p = m p" using "2.prems"(2) by simp
  then show ?case using "2.prems" "2.IH"
    by (fastforce simp: bind_eq_Some_conv Let_def split: if_splits dest: ptr_add_unat)
qed

lemma leb128_unfold:
  "FIRCLSParseLEB128AndAdvance m p = Some (v, q) \<longleftrightarrow>
   (\<exists>r s b. leb128_loop 8 m p 0 0 0 = Some (r, s, b, q) \<and>
      (if s < 64 \<and> 0x40 AND b \<noteq> 0
       then \<exists>t. shl_int 1 s = Some t \<and> v = r OR scast (- t) else v = r))"
  by (fastforce simp: FIRCLSParseLEB128AndAdvance_def bind_eq_Some_conv split: if_splits)

interpretation leb128: bounded_reader FIRCLSParseLEB128AndAdvance 8
proof
  fix m p v q
  assume parse: "FIRCLSParseLEB128AndAdvance m p = Some (v, q)"
  then obtain r s b where l: "leb128_loop 8 m p 0 0 0 = Some (r, s, b, q)"
    by (auto simp: leb128_unfold)
  show "unat p < unat q" "unat q \<le> unat p + 8" using leb128_loop_moves [OF l] by simp_all
  fix m'
  assume same: "\<And>a. unat p \<le> unat a \<Longrightarrow> unat a < unat q \<Longrightarrow> m' a = m a"
  have "leb128_loop 8 m' p 0 0 0 = Some (r, s, b, q)" by (rule leb128_loop_local [OF l same])
  then show "FIRCLSParseLEB128AndAdvance m' p = Some (v, q)"
    using parse l by (simp only: FIRCLSParseLEB128AndAdvance_def)
qed

lemma c_strlen_Some:
  "c_strlen m p = Some n \<longleftrightarrow>
   (\<exists>c q. m p = Some c \<and> ptr_add p 1 = Some q \<and>
      (if c = 0 then n = 0 else \<exists>k. c_strlen m q = Some k \<and> n = Suc k))"
  by (subst c_strlen.simps) (auto split: option.splits)

lemma c_strlen_local:
  "c_strlen m p = Some n \<Longrightarrow> (\<And>a. unat p \<le> unat a \<Longrightarrow> unat a \<le> unat p + n \<Longrightarrow> m' a = m a) \<Longrightarrow>
   unat p + n + 1 < 2 ^ 64 \<and> c_strlen m' p = Some n"
proof (induction m p arbitrary: n rule: c_strlen.induct)
  case (1 m p)
  then obtain c q where c: "m p = Some c" and q: "ptr_add p 1 = Some q"
    and rest: "if c = 0 then n = 0 else \<exists>k. c_strlen m q = Some k \<and> n = Suc k"
    by (auto simp: c_strlen_Some [of m p n])
  have c': "m' p = Some c" using "1.prems"(2) [of p] c by simp
  have uq: "unat q = unat p + 1" using ptr_add_unat [OF q] by simp
  show ?case
  proof (cases "c = 0")
    case True
    then show ?thesis
      using rest c' q uq unsigned_less [of q, where ?'a = nat] by (simp add: c_strlen_Some [of m'])
  next
    case False
    then obtain k where k: "c_strlen m q = Some k" and n: "n = Suc k" using rest by auto
    have "unat q + k + 1 < 2 ^ 64 \<and> c_strlen m' q = Some k"
      by (rule "1.IH" [OF c q False k]) (use "1.prems"(2) uq n in auto)
    then show ?thesis using c' q False uq n by (simp add: c_strlen_Some [of m' p])
  qed
qed

interpretation cstring: cursor_reader FIRCLSParseStringAndAdvance
proof
  fix m p v q
  assume "FIRCLSParseStringAndAdvance m p = Some (v, q)"
  then obtain n where n: "c_strlen m p = Some n" and a: "ptr_add p (of_nat n + 1) = Some q"
    and v: "v = p"
    by (auto simp: FIRCLSParseStringAndAdvance_def bind_eq_Some_conv)
  have "unat p + n + 1 < 2 ^ 64" using c_strlen_local [OF n, of m] by simp
  then have n1: "unat (of_nat n + 1 :: u64) = n + 1"
    by (simp add: unat_word_ariths unat_of_nat)
  have q: "unat q = unat p + n + 1" using ptr_add_unat [OF a] n1 by simp
  show "unat p < unat q" using q by simp
  fix m'
  assume same: "\<And>a. unat p \<le> unat a \<Longrightarrow> unat a < unat q \<Longrightarrow> m' a = m a"
  have "c_strlen m' p = Some n" using c_strlen_local [OF n, of m'] same q by simp
  with a v show "FIRCLSParseStringAndAdvance m' p = Some (v, q)"
    by (simp add: FIRCLSParseStringAndAdvance_def)
qed

interpretation record_length: bounded_reader FIRCLSParseRecordLengthAndAdvance 12
proof
  fix m p v q
  assume "FIRCLSParseRecordLengthAndAdvance m p = Some (v, q)"
  then obtain l c where l: "FIRCLSParseUint32AndAdvance m p = Some (l, c)"
    and rest: "if l = DWARF_EXTENDED_LENGTH_FLAG then FIRCLSParseUint64AndAdvance m c = Some (v, q)
               else v = ucast l \<and> q = c"
    by (auto simp: FIRCLSParseRecordLengthAndAdvance_def bind_eq_Some_conv split: if_splits)
  have pc: "unat p < unat c" "unat c \<le> unat p + 4"
    using uint32.advances [OF l] uint32.bounded [OF l] by simp_all
  have cq: "unat c \<le> unat q" "unat q \<le> unat c + 8"
    using rest by (auto split: if_splits dest: uint64.advances uint64.bounded)
  show "unat p < unat q" "unat q \<le> unat p + 12" using pc cq by simp_all
  fix m'
  assume same: "\<And>a. unat p \<le> unat a \<Longrightarrow> unat a < unat q \<Longrightarrow> m' a = m a"
  have l': "FIRCLSParseUint32AndAdvance m' p = Some (l, c)"
    by (rule uint32.local_reads [OF l same]) (use cq in auto)
  have "FIRCLSParseUint64AndAdvance m' c = Some (v, q)"
    if "FIRCLSParseUint64AndAdvance m c = Some (v, q)"
    by (rule uint64.local_reads [OF that same]) (use pc in auto)
  then show "FIRCLSParseRecordLengthAndAdvance m' p = Some (v, q)"
    using rest by (simp add: FIRCLSParseRecordLengthAndAdvance_def l' split: if_splits)
qed

section \<open>LEB128 against the format\<close>

text \<open>The encoders of the DWARF specification: seven bits a byte, low-order first.\<close>

fun uleb128 :: "nat \<Rightarrow> byte list" where
  "uleb128 n = (if n < 128 then [of_nat n] else of_nat (n mod 128 + 128) # uleb128 (n div 128))"

declare uleb128.simps [simp del]

function sleb128 :: "int \<Rightarrow> byte list" where
  "sleb128 v = (if -64 \<le> v \<and> v < 64 then [of_nat (nat (v mod 128))]
                else of_nat (nat (v mod 128) + 128) # sleb128 (v div 128))"
  by pat_completeness auto
termination
  by (relation "measure (\<lambda>v. nat \<bar>v\<bar>)") auto

declare sleb128.simps [simp del]

text \<open>One byte of either loop: what it adds to the result.\<close>

lemma leb_payload:
  fixes b :: byte
  assumes s: "s < 32" and r: "unat r < 2 ^ s" and fits: "(unat b mod 128) * 2 ^ s < 2 ^ 31"
  shows "\<exists>t. shl_int (ucast (0x7F AND b)) s = Some t \<and>
     (r :: u64) OR scast t = r + of_nat ((unat b mod 128) * 2 ^ s)"
proof -
  let ?k = "unat b mod 128"
  let ?x = "ucast (0x7F AND b) :: u32"
  have x: "unat ?x = ?k" by (subst unat_ucast_up) (simp_all add: unat_and_127)
  then have shl: "shl_int ?x s = Some (push_bit s ?x)"
    using s fits by (simp add: shl_int_def)
  have t: "unat (push_bit s ?x) = ?k * 2 ^ s"
    using fits x by (subst unat_push_bit_lt) simp_all
  have "scast (push_bit s ?x) = (of_nat (unat (push_bit s ?x)) :: u64)"
    using fits t by (intro scast_nonneg) simp
  also have "\<dots> = of_nat (?k * 2 ^ s)" using t by simp
  finally have "scast (push_bit s ?x) = (of_nat (?k * 2 ^ s) :: u64)" .
  with word_or_of_nat [OF r, of ?k] shl show ?thesis by simp
qed

lemma leb_payload_undefined:
  fixes b :: byte
  assumes "\<not> (s < 32 \<and> (unat b mod 128) * 2 ^ s < 2 ^ 31)"
  shows "shl_int (ucast (0x7F AND b)) s = None"
proof -
  have "unat (ucast (0x7F AND b) :: u32) = unat b mod 128"
    by (subst unat_ucast_up) (simp_all add: unat_and_127)
  with assms show ?thesis by (auto simp: shl_int_def)
qed

lemma unat_of_nat_byte [simp]: "n < 256 \<Longrightarrow> unat (of_nat n :: byte) = n"
  by (simp add: unat_of_nat)

lemma uleb128_loop_decodes:
  assumes "bytes_at m p (uleb128 n)" "n * 2 ^ s < 2 ^ 31" "s < 32" "unat r < 2 ^ s" "n < 128 ^ i"
    and "0 < i"
  shows "uleb128_loop i m p r s = Some (r + of_nat (n * 2 ^ s), p + of_nat (length (uleb128 n)))"
  using assms
proof (induction n arbitrary: i p r s rule: uleb128.induct)
  case (1 n)
  then obtain j where i: "i = Suc j" by (cases i) auto
  show ?case
  proof (cases "n < 128")
    case True
    then have enc: "uleb128 n = [of_nat n]" by (simp add: uleb128.simps)
    with "1.prems" True obtain t where
      "shl_int (ucast (0x7F AND (of_nat n :: byte))) s = Some t" "r OR scast t = r + of_nat (n * 2 ^ s)"
      using leb_payload [of s r "of_nat n"] by auto
    then show ?thesis
      using "1.prems"(1) True by (simp add: i enc ptr_add_def and_128_eq_0)
  next
    case False
    let ?b = "of_nat (n mod 128 + 128) :: byte"
    from False have enc: "uleb128 n = ?b # uleb128 (n div 128)" by (simp add: uleb128.simps)
    have b: "unat ?b = n mod 128 + 128" by (subst unat_of_nat_byte) simp_all
    have split: "n * 2 ^ s = (n mod 128) * 2 ^ s + (n div 128) * 2 ^ (s + 7)"
    proof -
      have "(a + d * 128) * 2 ^ s = a * 2 ^ s + d * 2 ^ (s + 7)" for a d :: nat
        by (simp add: power_add algebra_simps)
      from this [of "n mod 128" "n div 128"] show ?thesis by (simp only: mod_div_mult_eq)
    qed
    have rest: "(n div 128) * 2 ^ (s + 7) < 2 ^ 31" and low: "(n mod 128) * 2 ^ s < 2 ^ 31"
      using "1.prems"(2) split by simp_all
    have "1 \<le> n div 128" using False by simp
    then have "1 * 2 ^ (s + 7) \<le> (n div 128) * 2 ^ (s + 7)" by (rule mult_right_mono) simp
    then have "(2::nat) ^ (s + 7) < 2 ^ 31" using rest by (simp only: mult_1)
    then have s7: "s + 7 < 31" by (rule power_less_imp_less_exp [rotated]) simp
    have "unat ?b mod 128 = n mod 128" by (simp only: b) simp
    with leb_payload [OF "1.prems"(3,4), of ?b] low obtain t where
      t: "shl_int (ucast (0x7F AND ?b)) s = Some t" "r OR scast t = r + of_nat ((n mod 128) * 2 ^ s)"
      by auto
    have r': "unat (r + of_nat ((n mod 128) * 2 ^ s)) < 2 ^ (s + 7)"
    proof -
      have "n mod 128 \<le> 127" by simp
      then have "(n mod 128) * 2 ^ s \<le> 127 * 2 ^ s" by (rule mult_right_mono) simp
      moreover have "(2::nat) ^ (s + 7) = 128 * 2 ^ s" by (simp add: power_add)
      ultimately have "unat r + (n mod 128) * 2 ^ s < 2 ^ (s + 7)"
        using "1.prems"(4) by linarith
      then show ?thesis by (meson le_less_trans unat_add_of_nat_le)
    qed
    have j: "n div 128 < 128 ^ j" "0 < j"
      using "1.prems"(5) False by (auto simp: i less_mult_imp_div_less mult.commute intro: gr0I)
    have "uleb128_loop j m (p + 1) (r + of_nat ((n mod 128) * 2 ^ s)) (s + 7) =
        Some (r + of_nat ((n mod 128) * 2 ^ s) + of_nat ((n div 128) * 2 ^ (s + 7)),
              p + 1 + of_nat (length (uleb128 (n div 128))))"
      by (rule "1.IH" [OF False]) (use "1.prems"(1) enc rest s7 r' j in auto)
    moreover have "0x80 AND ?b \<noteq> 0" by (simp add: and_128_eq_0 b del: of_nat_add)
    ultimately show ?thesis
      using "1.prems"(1) t
      by (simp add: i enc ptr_add_def Let_def split add.assoc del: of_nat_mult)
  qed
qed

lemma uleb128_loop_wide: "0 < i \<Longrightarrow> 32 \<le> s \<Longrightarrow> uleb128_loop i m p r s = None"
  by (cases i) (auto simp: bind_eq_None_conv shl_int_def)

lemma uleb128_loop_undefined:
  assumes "bytes_at m p (uleb128 n)" "2 ^ 31 \<le> n * 2 ^ s" "s \<in> {0, 7, 14, 21, 28}" "42 \<le> 7 * i + s"
  shows "uleb128_loop i m p r s = None"
  using assms
proof (induction n arbitrary: i p r s rule: uleb128.induct)
  case (1 n)
  then obtain j where i: "i = Suc j" by (cases i) auto
  show ?case
  proof (cases "n < 128")
    case True
    then have enc: "uleb128 n = [of_nat n]" by (simp add: uleb128.simps)
    have "shl_int (ucast (0x7F AND (of_nat n :: byte))) s = None"
      by (rule leb_payload_undefined) (use True "1.prems"(2) in simp)
    then show ?thesis using "1.prems"(1) by (simp add: i enc bind_eq_None_conv)
  next
    case False
    then have enc: "uleb128 n = of_nat (n mod 128 + 128) # uleb128 (n div 128)"
      by (simp add: uleb128.simps)
    have "uleb128_loop j m (p + 1) r' (s + 7) = None" for r'
    proof (cases "s = 28")
      case True
      then show ?thesis using "1.prems"(4) i by (intro uleb128_loop_wide) auto
    next
      case False
      show ?thesis
        by (rule "1.IH" [OF \<open>\<not> n < 128\<close>])
           (use "1.prems" enc i False in \<open>auto simp: less_eq_div_iff_mult_less_eq\<close>)
    qed
    moreover have "unat (of_nat (n mod 128 + 128) :: byte) = n mod 128 + 128"
      by (subst unat_of_nat_byte) simp_all
    ultimately show ?thesis
      using "1.prems"(1)
      by (auto simp: i enc bind_eq_None_conv ptr_add_def and_128_eq_0 Let_def simp del: of_nat_add)
  qed
qed

lemma uleb128_nonempty: "0 < length (uleb128 n)"
  by (subst uleb128.simps) simp

lemma uleb128_decode:
  assumes "bytes_at m p (uleb128 n)" "n < 2 ^ 31"
  shows "FIRCLSParseULEB128AndAdvance m p = Some (of_nat n, p + of_nat (length (uleb128 n)))"
proof -
  have "uleb128_loop 8 m p 0 0 = Some (0 + of_nat (n * 2 ^ 0), p + of_nat (length (uleb128 n)))"
    using assms by (intro uleb128_loop_decodes) simp_all
  then show ?thesis by (simp add: FIRCLSParseULEB128AndAdvance_def)
qed

lemma uleb128_undefined:
  assumes "bytes_at m p (uleb128 n)" "2 ^ 31 \<le> n"
  shows "FIRCLSParseULEB128AndAdvance m p = None"
  unfolding FIRCLSParseULEB128AndAdvance_def using assms
  by (intro uleb128_loop_undefined) simp_all

text \<open>
  C1. \<open>FIRCLSParseULEB128AndAdvance\<close> on the canonical ULEB128 encoding of any number: the
  number is decoded and exactly its bytes are consumed when it is below \<open>2^31\<close>, and from
  \<open>2^31\<close> on, although the result type is \<open>uint64_t\<close>, the \<open>int\<close> shift of a payload leaves the
  range where C defines it.
\<close>

theorem FIRCLSParseULEB128AndAdvance_correct:
  assumes "bytes_at m p (uleb128 n)"
  shows "FIRCLSParseULEB128AndAdvance m p =
           (if n < 2 ^ 31 then Some (of_nat n, p + of_nat (length (uleb128 n))) else None)"
  using assms uleb128_decode uleb128_undefined by (cases "n < 2 ^ 31") (auto simp: not_less)

lemma mem_of_bytes_at_4096: "bytes_at (mem_of 4096 [0xE5, 0x8E, 0x26]) 4096 (uleb128 624485)"
  by (simp add: uleb128.simps mem_of_def)

theorem FIRCLSParseULEB128AndAdvance_correct_witness:
  "FIRCLSParseULEB128AndAdvance (mem_of 4096 [0xE5, 0x8E, 0x26]) 4096 = Some (624485, 4099)"
  using FIRCLSParseULEB128AndAdvance_correct [OF mem_of_bytes_at_4096] by (simp add: uleb128.simps)

text \<open>
  The signed format. \<open>sleb_bits v\<close> is the two's complement of \<open>v\<close> in the seven bits a byte of
  its encoding: what the loop has accumulated when it stops.
\<close>

definition sleb_bits :: "int \<Rightarrow> nat" where
  "sleb_bits v = nat (v mod 2 ^ (7 * length (sleb128 v)))"

lemma sleb128_short: "-64 \<le> v \<Longrightarrow> v < 64 \<Longrightarrow> sleb128 v = [of_nat (nat (v mod 128))]"
  by (subst sleb128.simps) (simp only: simp_thms if_True)

lemma sleb128_long:
  "\<not> (-64 \<le> v \<and> v < 64) \<Longrightarrow> sleb128 v = of_nat (nat (v mod 128) + 128) # sleb128 (v div 128)"
  by (subst sleb128.simps) (simp only: if_False)

lemma sleb128_last_sign:
  "0x40 AND last (sleb128 v) \<noteq> 0 \<longleftrightarrow> v < 0"
proof (induction v rule: sleb128.induct)
  case (1 v)
  show ?case
  proof (cases "-64 \<le> v \<and> v < 64")
    case True
    define k where "k = nat (v mod 128)"
    have "v mod 128 < 128" "0 \<le> v mod 128" by simp_all
    then have k: "k < 128" "int k = v mod 128" by (simp_all add: k_def)
    let ?b = "of_nat k :: byte"
    have "0x40 AND ?b \<noteq> 0 \<longleftrightarrow> bit ?b 6"
      using and_exp_eq_0_iff_not_bit [of ?b 6] by (simp add: and.commute)
    also have "\<dots> \<longleftrightarrow> bit (unat ?b) 6" by (simp only: bit_unsigned_iff) simp
    also have "\<dots> \<longleftrightarrow> odd (k div 64)" using k by (simp add: bit_iff_odd)
    also have "\<dots> \<longleftrightarrow> v < 0"
    proof (cases "v < 0")
      case neg: True
      then have "(v + 128) mod 128 = v + 128" using True by (intro mod_pos_pos_trivial) auto
      then have "int k = v + 128" using k by simp
      then have "k div 64 = 1" using True neg by auto
      then show ?thesis using neg by simp
    next
      case False
      then have "int k = v" using True k by simp
      then show ?thesis using True False by simp
    qed
    finally show ?thesis using True by (simp add: sleb128_short k_def del: of_nat_nat)
  next
    case False
    then have "sleb128 (v div 128) \<noteq> []" by (subst sleb128.simps) simp
    moreover have "v div 128 < 0 \<longleftrightarrow> v < 0" by presburger
    ultimately show ?thesis using 1 [OF False] False by (simp add: sleb128_long)
  qed
qed

lemma sleb_bits_short: "-64 \<le> v \<Longrightarrow> v < 64 \<Longrightarrow> sleb_bits v = nat (v mod 128)"
  by (simp add: sleb_bits_def sleb128_short)

lemma sleb_bits_long:
  assumes "\<not> (-64 \<le> v \<and> v < 64)"
  shows "sleb_bits v = nat (v mod 128) + 128 * sleb_bits (v div 128)"
proof -
  let ?K = "2 ^ (7 * length (sleb128 (v div 128))) :: int"
  have "v mod (128 * ?K) = 128 * (v div 128 mod ?K) + v mod 128"
    by (rule zmod_zmult2_eq) simp
  then show ?thesis
    using assms by (simp add: sleb_bits_def sleb128_long power_add nat_add_distrib nat_mult_distrib)
qed

lemma leb128_loop_decodes:
  assumes "bytes_at m p (sleb128 v)" "sleb_bits v * 2 ^ s < 2 ^ 31"
    "s + 7 * length (sleb128 v) \<le> 35" "unat r < 2 ^ s" "length (sleb128 v) \<le> i"
  shows "leb128_loop i m p r s b0 = Some (r + of_nat (sleb_bits v * 2 ^ s),
           s + 7 * length (sleb128 v), last (sleb128 v), p + of_nat (length (sleb128 v)))"
  using assms
proof (induction v arbitrary: i p r s b0 rule: sleb128.induct)
  case (1 v)
  define k where "k = nat (v mod 128)"
  have "v mod 128 < 128" "0 \<le> v mod 128" by simp_all
  then have k: "k < 128" by (simp add: k_def)
  have "0 < length (sleb128 v)" by (subst sleb128.simps) simp
  then obtain j where i: "i = Suc j" and s32: "s < 32"
    using "1.prems"(3,5) by (cases i) auto
  show ?case
  proof (cases "-64 \<le> v \<and> v < 64")
    case True
    then have enc: "sleb128 v = [of_nat k]" and bits: "sleb_bits v = k"
      by (simp_all add: sleb128_short sleb_bits_short k_def del: of_nat_nat)
    obtain t where
      "shl_int (ucast (0x7F AND (of_nat k :: byte))) s = Some t" "r OR scast t = r + of_nat (k * 2 ^ s)"
      using leb_payload [OF s32 "1.prems"(4), of "of_nat k"] "1.prems"(2) k bits by auto
    then show ?thesis
      using "1.prems"(1) k by (simp add: i enc bits ptr_add_def and_128_eq_0)
  next
    case False
    let ?b = "of_nat (k + 128) :: byte" and ?n = "sleb_bits (v div 128)"
    from False have enc: "sleb128 v = ?b # sleb128 (v div 128)" and bits: "sleb_bits v = k + 128 * ?n"
      by (simp_all add: sleb128_long sleb_bits_long k_def del: of_nat_nat)
    have b: "unat ?b = k + 128" using k by (subst unat_of_nat_byte) simp_all
    have split: "(k + 128 * ?n) * 2 ^ s = k * 2 ^ s + ?n * 2 ^ (s + 7)"
      by (simp add: power_add algebra_simps)
    have low: "k * 2 ^ s < 2 ^ 31" and rest: "?n * 2 ^ (s + 7) < 2 ^ 31"
      using "1.prems"(2) bits split by simp_all
    have "unat ?b mod 128 = k" using k by (simp only: b) simp
    with leb_payload [OF s32 "1.prems"(4), of ?b] low obtain t where
      t: "shl_int (ucast (0x7F AND ?b)) s = Some t" "r OR scast t = r + of_nat (k * 2 ^ s)"
      by auto
    have "k \<le> 127" using k by simp
    then have "k * 2 ^ s \<le> 127 * 2 ^ s" by (rule mult_right_mono) simp
    moreover have "(2::nat) ^ (s + 7) = 128 * 2 ^ s" by (simp add: power_add)
    ultimately have "unat r + k * 2 ^ s < 2 ^ (s + 7)" using "1.prems"(4) by linarith
    then have r': "unat (r + of_nat (k * 2 ^ s)) < 2 ^ (s + 7)"
      by (meson le_less_trans unat_add_of_nat_le)
    have "leb128_loop j m (p + 1) (r + of_nat (k * 2 ^ s)) (s + 7) ?b =
        Some (r + of_nat (k * 2 ^ s) + of_nat (?n * 2 ^ (s + 7)),
              s + 7 + 7 * length (sleb128 (v div 128)), last (sleb128 (v div 128)),
              p + 1 + of_nat (length (sleb128 (v div 128))))"
      by (rule "1.IH" [OF False]) (use "1.prems" enc rest r' i in auto)
    moreover have "0x80 AND ?b \<noteq> 0" by (simp add: and_128_eq_0 b del: of_nat_add)
    moreover have "sleb128 (v div 128) \<noteq> []" by (subst sleb128.simps) simp
    ultimately show ?thesis
      using "1.prems"(1) t
      by (simp add: i enc bits ptr_add_def Let_def split add.assoc del: of_nat_mult of_nat_add)
         (simp add: add.assoc)
  qed
qed

lemma leb128_loop_wide: "0 < i \<Longrightarrow> 32 \<le> s \<Longrightarrow> leb128_loop i m p r s b0 = None"
  by (cases i) (auto simp: bind_eq_None_conv shl_int_def)

lemma leb128_loop_undefined:
  assumes "bytes_at m p (sleb128 v)" "2 ^ 31 \<le> v * 2 ^ s \<or> v * 2 ^ s < - (2 ^ 27)"
    "s \<in> {0, 7, 14, 21, 28}" "42 \<le> 7 * i + s"
  shows "leb128_loop i m p r s b0 = None"
  using assms
proof (induction v arbitrary: i p r s b0 rule: sleb128.induct)
  case (1 v)
  define k where "k = nat (v mod 128)"
  have vm: "v mod 128 < 128" "0 \<le> v mod 128" by simp_all
  then have k: "k < 128" "int k = v mod 128" by (simp_all add: k_def)
  obtain j where i: "i = Suc j" using "1.prems"(3,4) by (cases i) auto
  show ?case
  proof (cases "-64 \<le> v \<and> v < 64")
    case True
    then have enc: "sleb128 v = [of_nat k]" by (simp add: sleb128_short k_def del: of_nat_nat)
    have "\<not> k * 2 ^ s < 2 ^ 31"
    proof (cases "v < 0")
      case neg: True
      have "(v + 128) mod 128 = v + 128" using True neg by (intro mod_pos_pos_trivial) auto
      then have "int k = v + 128" using k by simp
      then have "64 \<le> k" using True by simp
      moreover have "s = 28" using "1.prems"(2,3) True neg by auto
      ultimately show ?thesis by simp
    next
      case False
      then have "int k = v" using True k by simp
      then show ?thesis using "1.prems"(2,3) False by auto
    qed
    then have "shl_int (ucast (0x7F AND (of_nat k :: byte))) s = None"
      using k by (intro leb_payload_undefined) simp
    then show ?thesis using "1.prems"(1) by (simp add: i enc bind_eq_None_conv)
  next
    case False
    then have enc: "sleb128 v = of_nat (k + 128) # sleb128 (v div 128)"
      by (simp add: sleb128_long k_def del: of_nat_nat)
    have "leb128_loop j m (p + 1) r' (s + 7) b' = None" for r' b'
    proof (cases "s = 28")
      case True
      then show ?thesis using "1.prems"(4) i by (intro leb128_loop_wide) auto
    next
      case s28: False
      have "2 ^ 31 \<le> v div 128 * 2 ^ (s + 7) \<or> v div 128 * 2 ^ (s + 7) < - (2 ^ 27)"
        using "1.prems"(2,3) s28 by auto
      then show ?thesis
        by (intro "1.IH" [OF False]) (use "1.prems" enc i s28 in auto)
    qed
    moreover have "unat (of_nat (k + 128) :: byte) = k + 128"
      using k by (subst unat_of_nat_byte) simp_all
    ultimately show ?thesis
      using "1.prems"(1)
      by (auto simp: i enc bind_eq_None_conv ptr_add_def and_128_eq_0 Let_def simp del: of_nat_add)
  qed
qed

lemma sleb128_length: "- (64 * 128 ^ j) \<le> v \<Longrightarrow> v < 64 * 128 ^ j \<Longrightarrow> length (sleb128 v) \<le> Suc j"
proof (induction j arbitrary: v)
  case 0
  then show ?case by (simp add: sleb128_short)
next
  case (Suc j)
  then show ?case
    by (cases "-64 \<le> v \<and> v < 64") (auto simp: sleb128_short sleb128_long intro!: Suc.IH)
qed

lemma sleb128_fits:
  "- (2 ^ (7 * length (sleb128 v))) \<le> 2 * v \<and> 2 * v < 2 ^ (7 * length (sleb128 v))"
proof (induction v rule: sleb128.induct)
  case (1 v)
  show ?case
  proof (cases "-64 \<le> v \<and> v < 64")
    case True
    then show ?thesis by (simp add: sleb128_short)
  next
    case False
    define K :: int where "K = 2 ^ (7 * length (sleb128 (v div 128)))"
    have "0 < length (sleb128 (v div 128))" by (subst sleb128.simps) simp
    then obtain h where h: "K = 2 * h"
      by (auto simp: K_def gr0_conv_Suc power_add)
    have "- K \<le> 2 * (v div 128)" "2 * (v div 128) < K" using 1 [OF False] by (simp_all add: K_def)
    then have "- h \<le> v div 128" "v div 128 + 1 \<le> h" using h by simp_all
    moreover have "v = 128 * (v div 128) + v mod 128" "0 \<le> v mod 128" "v mod 128 < 128" by simp_all
    ultimately have "- (128 * K) \<le> 2 * v" "2 * v < 128 * K" using h by linarith+
    then show ?thesis using False by (simp add: sleb128_long K_def power_add)
  qed
qed

lemma sleb_bits_of_nonneg: "0 \<le> v \<Longrightarrow> int (sleb_bits v) = v"
  using sleb128_fits [of v] by (simp add: sleb_bits_def)

lemma sleb_bits_of_neg: "v < 0 \<Longrightarrow> int (sleb_bits v) = v + 2 ^ (7 * length (sleb128 v))"
proof -
  assume neg: "v < 0"
  let ?K = "2 ^ (7 * length (sleb128 v)) :: int"
  have "v mod ?K = (v + ?K) mod ?K" by simp
  also have "\<dots> = v + ?K" using sleb128_fits [of v] neg by (intro mod_pos_pos_trivial) auto
  finally show ?thesis using sleb128_fits [of v] neg by (simp add: sleb_bits_def)
qed

text \<open>Sign extension by the \<open>int\<close> expression \<open>-(1 << shift)\<close> after at most four bytes.\<close>

lemma sign_extend:
  assumes "k \<in> {1, 2, 3, 4}" and "unat r < 2 ^ (7 * k)"
  shows "\<exists>t. shl_int 1 (7 * k) = Some t \<and> (r :: u64) OR scast (- t) = r - 2 ^ (7 * k)"
proof -
  have "shl_int 1 (7 * k) = Some (2 ^ (7 * k))" and "scast (- (2 ^ (7 * k) :: u32)) = (- (2 ^ (7 * k)) :: u64)"
    using assms(1) by (auto simp: shl_int_def push_bit_eq_mult)
  then show ?thesis using word_or_minus_exp [OF assms(2)] by simp
qed

lemma leb128_decode:
  assumes enc: "bytes_at m p (sleb128 v)" and True: "- (2 ^ 27) \<le> v \<and> v < 2 ^ 31"
  shows "FIRCLSParseLEB128AndAdvance m p = Some (of_int v, p + of_nat (length (sleb128 v)))"
proof -
  let ?k = "length (sleb128 v)"
  have k5: "?k \<le> 5" using True by (intro sleb128_length [of 4, simplified]) auto
  have k4: "?k \<le> 4" if "v < 0" using True that by (intro sleb128_length [of 3, simplified]) auto
  have k0: "0 < ?k" by (subst sleb128.simps) simp
  have bits: "sleb_bits v < 2 ^ 31"
  proof (cases "v < 0")
    case neg: True
    have "(2::nat) ^ (7 * ?k) \<le> 2 ^ 28" using k4 [OF neg] by (intro power_increasing) auto
    moreover have "sleb_bits v < 2 ^ (7 * ?k)" by (simp add: sleb_bits_def nat_less_iff)
    ultimately show ?thesis by simp
  next
    case False
    then have "int (sleb_bits v) < int (2 ^ 31)" using True sleb_bits_of_nonneg [of v] by simp
    then show ?thesis by (simp only: of_nat_less_iff)
  qed
  have loop: "leb128_loop 8 m p 0 0 0 =
      Some (of_nat (sleb_bits v), 7 * ?k, last (sleb128 v), p + of_nat ?k)"
    using leb128_loop_decodes [OF enc, of 0 0 8] bits k5 by simp
  show ?thesis
  proof (cases "v < 0")
    case neg: True
    have "sleb_bits v < 2 ^ (7 * ?k)" by (simp add: sleb_bits_def nat_less_iff)
    then have "unat (of_nat (sleb_bits v) :: u64) < 2 ^ (7 * ?k)" using bits by (simp add: unat_of_nat)
    moreover have "?k = 1 \<or> ?k = 2 \<or> ?k = 3 \<or> ?k = 4" using k4 [OF neg] k0 by linarith
    then have small: "?k \<in> {1, 2, 3, 4}" by simp
    ultimately obtain t where t: "shl_int 1 (7 * ?k) = Some t"
      "of_nat (sleb_bits v) OR scast (- t) = (of_nat (sleb_bits v) - 2 ^ (7 * ?k) :: u64)"
      using sign_extend [OF small, of "of_nat (sleb_bits v)"] by blast
    have "(of_nat (sleb_bits v) :: u64) = of_int (int (sleb_bits v))" by simp
    also have "\<dots> = of_int v + 2 ^ (7 * ?k)" by (simp only: sleb_bits_of_neg [OF neg]) simp
    finally have "(of_nat (sleb_bits v) - 2 ^ (7 * ?k) :: u64) = of_int v" by simp
    then show ?thesis
      using loop t True neg k5 sleb128_last_sign [of v] by (simp add: FIRCLSParseLEB128AndAdvance_def)
  next
    case False
    have "(of_nat (sleb_bits v) :: u64) = of_int (int (sleb_bits v))" by simp
    then have "(of_nat (sleb_bits v) :: u64) = of_int v" using False sleb_bits_of_nonneg [of v] by simp
    then show ?thesis
      using loop True False sleb128_last_sign [of v] by (simp add: FIRCLSParseLEB128AndAdvance_def)
  qed
qed

lemma leb128_undefined:
  assumes "bytes_at m p (sleb128 v)" "\<not> (- (2 ^ 27) \<le> v \<and> v < 2 ^ 31)"
  shows "FIRCLSParseLEB128AndAdvance m p = None"
proof -
  have "leb128_loop 8 m p 0 0 0 = None"
    by (rule leb128_loop_undefined [OF assms(1)]) (use assms(2) in auto)
  then show ?thesis by (simp add: FIRCLSParseLEB128AndAdvance_def)
qed

text \<open>
  C2. \<open>FIRCLSParseLEB128AndAdvance\<close> on the canonical SLEB128 encoding of any integer: the
  integer is decoded, sign included, and exactly its bytes are consumed when it is in
  \<open>[-2^27, 2^31)\<close>; outside it an \<open>int\<close> shift leaves the range where C defines it, although
  the result type is \<open>int64_t\<close>.
\<close>

theorem FIRCLSParseLEB128AndAdvance_correct:
  assumes "bytes_at m p (sleb128 v)"
  shows "FIRCLSParseLEB128AndAdvance m p =
           (if - (2 ^ 27) \<le> v \<and> v < 2 ^ 31
            then Some (of_int v, p + of_nat (length (sleb128 v))) else None)"
proof (cases "- (2 ^ 27) \<le> v \<and> v < 2 ^ 31")
  case True
  then show ?thesis using leb128_decode [OF assms] by simp
next
  case False
  then show ?thesis using leb128_undefined [OF assms] by simp
qed

theorem FIRCLSParseLEB128AndAdvance_correct_witness:
  "FIRCLSParseLEB128AndAdvance (mem_of 4096 [0x80, 0x7F]) 4096 = Some (- 128, 4098)"
proof -
  have "bytes_at (mem_of 4096 [0x80, 0x7F]) 4096 (sleb128 (- 128))"
    by (simp add: sleb128_short sleb128_long mem_of_def)
  from FIRCLSParseLEB128AndAdvance_correct [OF this] show ?thesis
    by (simp add: sleb128_short sleb128_long)
qed

section \<open>Encoded addresses\<close>

text \<open>
  A program-counter-relative address in four signed bytes (\<open>DW_EH_PE_pcrel | DW_EH_PE_sdata4\<close>,
  the encoding of every iOS \<open>__eh_frame\<close>) is written as its signed distance from the field.
\<close>

lemma encoded_sdata4:
  assumes "bytes_at m p bs" "length bs = 4"
  shows "FIRCLSParseInt32AndAdvance m p = Some (of_nat (bytes_nat bs), p + 4)"
  using load_le_bytes [OF assms, where ?'a = 32] bytes_at_end [OF assms(1)] assms(2)
  by (simp add: FIRCLSParseInt32AndAdvance_def ptr_add_def)

lemma pcrel_sdata4_decode:
  assumes "bytes_at m p (nat_bytes 4 (unat (a - p)))" and "p \<noteq> 0"
    and "sint a - sint p = d" "- (2 ^ 31) \<le> d" "d < 2 ^ 31"
  shows "FIRCLSParseAddressWithEncodingAndAdvance m p (DW_EH_PE_pcrel OR DW_EH_PE_sdata4) =
           Some (a, p + 4)"
proof -
  have "(of_int d :: u64) = of_int (sint a - sint p)" by (simp only: assms(3))
  also have "\<dots> = of_int (sint a) - of_int (sint p)" by (rule of_int_diff)
  finally have d: "(of_int d :: u64) = a - p" by simp
  have "of_nat (bytes_nat (nat_bytes 4 (unat (a - p)))) = (ucast (a - p) :: u32)"
    by (subst of_nat_bytes_nat) simp_all
  also have "\<dots> = of_int d" unfolding d [symmetric] by (rule bit_word_eqI) (simp add: bit_simps)
  finally have w: "of_nat (bytes_nat (nat_bytes 4 (unat (a - p)))) = (of_int d :: u32)" .
  have "sint (of_int d :: u32) = d"
    using assms(4,5) by (simp add: signed_of_int signed_take_bit_int_eq_self)
  then have ext: "scast (of_int d :: u32) = a - p" by (simp add: scast_eq d)
  have "sint (a - p) = d"
    using assms(4,5) by (simp add: d [symmetric] signed_of_int signed_take_bit_int_eq_self)
  then have sum: "sadd64 (a - p) p = Some a"
    using sint_bounds64 [of a] assms(3) by (simp add: sadd64_def)
  show ?thesis
    using encoded_sdata4 [OF assms(1)] assms(2) w ext sum
    by (simp add: FIRCLSParseAddressWithEncodingAndAdvance_def parse_encoded_value_def DW_EH_PE_defs
        length_nat_bytes)
qed

text \<open>
  C3. A target address within the signed 32-bit distance of a mapped field, encoded as
  \<open>pcrel | sdata4\<close>, is what \<open>FIRCLSParseAddressWithEncodingAndAdvance\<close> reads back, and the
  cursor moves over the four bytes.
\<close>

theorem pcrel_sdata4_roundtrip:
  assumes "bytes_at m p (nat_bytes 4 (unat (a - p)))" and "p \<noteq> 0"
    and "sint a - sint p = d" "- (2 ^ 31) \<le> d" "d < 2 ^ 31"
  shows "FIRCLSParseAddressWithEncodingAndAdvance m p (DW_EH_PE_pcrel OR DW_EH_PE_sdata4) =
           Some (a, p + 4)"
  using assms by (rule pcrel_sdata4_decode)

theorem pcrel_sdata4_roundtrip_witness:
  "FIRCLSParseAddressWithEncodingAndAdvance (mem_of 4096 [0x80, 0xFF, 0xFF, 0xFF]) 4096 0x1B =
     Some (3968, 4100)"
proof -
  have "bytes_at (mem_of 4096 [0x80, 0xFF, 0xFF, 0xFF]) 4096 (nat_bytes 4 (unat (3968 - 4096 :: addr)))"
    by (simp add: mem_of_def)
  from pcrel_sdata4_roundtrip [OF this, of "-128"] show ?thesis
    by (simp add: DW_EH_PE_defs)
qed

end
