(* ===== verification/Thread_State.thy ===== *)
theory Thread_State
  imports Prelude
begin

text \<open>
  The register context of a thread and its accessors:
  \<^verbatim>\<open>Crashlytics/Helpers/FIRCLSThreadState.c\<close>, the register and frame-pointer functions of
  \<^verbatim>\<open>Crashlytics/Unwind/FIRCLSUnwind_arm.c\<close>, and the guarded memory read of
  \<^verbatim>\<open>Crashlytics/Helpers/FIRCLSUtility\<close>, in the ARM64 configuration (the devices an iOS app
  runs on; not arm64e, so that the SDK's \<open>arm_thread_state64\<close> accessors read and write the
  register field). A context passed by reference is a value here: every caller passes the
  address of a live object, so the NULL tests on it have nothing to test.
  The locale \<open>register_file\<close> is the interface the DWARF unwinder uses.
\<close>

section \<open>Pointers and guarded reads\<close>

definition FIRCLSIsValidPointer :: "addr \<Rightarrow> bool" where
  "FIRCLSIsValidPointer x \<longleftrightarrow> 4096 \<le> x"

text \<open>
  \<open>vm_read_overwrite\<close> copies the range when all of it is mapped and fails otherwise; \<open>None\<close>
  is the result \<open>false\<close> (no undefined behaviour is possible here).
\<close>

definition FIRCLSReadMemory :: "memory \<Rightarrow> addr \<Rightarrow> nat \<Rightarrow> byte list option" where
  "FIRCLSReadMemory m src len =
     (if \<not> FIRCLSIsValidPointer src then None else load_bytes m src len)"

definition read_word :: "memory \<Rightarrow> addr \<Rightarrow> u64 option" where
  "read_word m src = map_option (\<lambda>bs. of_nat (bytes_nat bs)) (FIRCLSReadMemory m src 8)"

section \<open>The ARM64 context\<close>

record thread_context =
  ss_x :: "nat \<Rightarrow> u64"
  ss_fp :: u64
  ss_lr :: u64
  ss_sp :: u64
  ss_pc :: u64

definition CLS_PTRAUTH_STRIP :: "u64 \<Rightarrow> u64" where
  "CLS_PTRAUTH_STRIP pointer = pointer AND 0x0000000FFFFFFFFF"

definition FIRCLSThreadContextGetPC :: "thread_context \<Rightarrow> u64" where
  "FIRCLSThreadContextGetPC registers = CLS_PTRAUTH_STRIP (ss_pc registers)"

definition FIRCLSThreadContextGetStackPointer :: "thread_context \<Rightarrow> u64" where
  "FIRCLSThreadContextGetStackPointer registers = CLS_PTRAUTH_STRIP (ss_sp registers)"

definition FIRCLSThreadContextSetStackPointer :: "thread_context \<Rightarrow> u64 \<Rightarrow> bool \<times> thread_context" where
  "FIRCLSThreadContextSetStackPointer registers value = (True, registers\<lparr>ss_sp := value\<rparr>)"

definition FIRCLSThreadContextGetLinkRegister :: "thread_context \<Rightarrow> u64" where
  "FIRCLSThreadContextGetLinkRegister registers = CLS_PTRAUTH_STRIP (ss_lr registers)"

definition FIRCLSThreadContextSetLinkRegister :: "thread_context \<Rightarrow> u64 \<Rightarrow> bool \<times> thread_context" where
  "FIRCLSThreadContextSetLinkRegister registers value = (True, registers\<lparr>ss_lr := value\<rparr>)"

definition FIRCLSThreadContextSetPC :: "thread_context \<Rightarrow> u64 \<Rightarrow> bool \<times> thread_context" where
  "FIRCLSThreadContextSetPC registers value = (True, registers\<lparr>ss_pc := value\<rparr>)"

definition FIRCLSThreadContextGetFramePointer :: "thread_context \<Rightarrow> u64" where
  "FIRCLSThreadContextGetFramePointer registers = CLS_PTRAUTH_STRIP (ss_fp registers)"

definition FIRCLSThreadContextSetFramePointer :: "thread_context \<Rightarrow> u64 \<Rightarrow> bool \<times> thread_context" where
  "FIRCLSThreadContextSetFramePointer registers value = (True, registers\<lparr>ss_fp := value\<rparr>)"

lemmas context_accessors =
  FIRCLSThreadContextGetPC_def FIRCLSThreadContextGetStackPointer_def
  FIRCLSThreadContextSetStackPointer_def FIRCLSThreadContextGetLinkRegister_def
  FIRCLSThreadContextSetLinkRegister_def FIRCLSThreadContextSetPC_def
  FIRCLSThreadContextGetFramePointer_def FIRCLSThreadContextSetFramePointer_def

section \<open>DWARF register numbers\<close>

definition CLS_DWARF_ARM64_FP :: u64 where "CLS_DWARF_ARM64_FP = 29"
definition CLS_DWARF_ARM64_LR :: u64 where "CLS_DWARF_ARM64_LR = 30"
definition CLS_DWARF_ARM64_SP :: u64 where "CLS_DWARF_ARM64_SP = 31"
definition CLS_DWARF_MAX_REGISTER_NUM :: u64 where "CLS_DWARF_MAX_REGISTER_NUM = CLS_DWARF_ARM64_SP"
definition CLS_DWARF_REG_RETURN :: u64 where "CLS_DWARF_REG_RETURN = CLS_DWARF_ARM64_LR"
definition CLS_DWARF_REG_SP :: u64 where "CLS_DWARF_REG_SP = CLS_DWARF_ARM64_SP"
definition CLS_DWARF_INVALID_REGISTER_NUM :: u64 where
  "CLS_DWARF_INVALID_REGISTER_NUM = CLS_DWARF_MAX_REGISTER_NUM + 1"

lemmas CLS_DWARF_defs =
  CLS_DWARF_ARM64_FP_def CLS_DWARF_ARM64_LR_def CLS_DWARF_ARM64_SP_def
  CLS_DWARF_MAX_REGISTER_NUM_def CLS_DWARF_REG_RETURN_def CLS_DWARF_REG_SP_def
  CLS_DWARF_INVALID_REGISTER_NUM_def

text \<open>The cases \<open>X0\<close> to \<open>X28\<close> of the two switches name register \<open>num\<close> of \<open>__x\<close>.\<close>

definition FIRCLSDwarfUnwindGetRegisterValue :: "thread_context \<Rightarrow> u64 \<Rightarrow> u64" where
  "FIRCLSDwarfUnwindGetRegisterValue registers num =
     (if num \<le> 28 then ss_x registers (unat num)
      else if num = CLS_DWARF_ARM64_FP then FIRCLSThreadContextGetFramePointer registers
      else if num = CLS_DWARF_ARM64_LR then FIRCLSThreadContextGetLinkRegister registers
      else if num = CLS_DWARF_ARM64_SP then FIRCLSThreadContextGetStackPointer registers
      else 0)"

definition FIRCLSDwarfUnwindSetRegisterValue ::
    "thread_context \<Rightarrow> u64 \<Rightarrow> u64 \<Rightarrow> bool \<times> thread_context" where
  "FIRCLSDwarfUnwindSetRegisterValue registers num value =
     (if num \<le> 28 then (True, registers\<lparr>ss_x := (ss_x registers)(unat num := value)\<rparr>)
      else if num = CLS_DWARF_ARM64_FP
      then (True, snd (FIRCLSThreadContextSetFramePointer registers value))
      else if num = CLS_DWARF_ARM64_SP
      then (True, snd (FIRCLSThreadContextSetStackPointer registers value))
      else if num = CLS_DWARF_ARM64_LR
      then (True, snd (FIRCLSThreadContextSetPC
                    (snd (FIRCLSThreadContextSetLinkRegister registers value)) value))
      else (False, registers))"

section \<open>Unwinding by link register and frame pointer\<close>

definition FIRCLSUnwindWithLRRegister :: "thread_context \<Rightarrow> bool \<times> thread_context" where
  "FIRCLSUnwindWithLRRegister registers =
     (let value = FIRCLSThreadContextGetLinkRegister registers in
      if \<not> FIRCLSIsValidPointer value then (False, registers)
      else FIRCLSThreadContextSetPC registers value)"

definition FIRCLSUnwindStackPointerFromFramePointer :: "addr \<Rightarrow> addr" where
  "FIRCLSUnwindStackPointerFromFramePointer framePtr = framePtr + 2 * 8"

definition FIRCLSUnwindWithFramePointer ::
    "memory \<Rightarrow> thread_context \<Rightarrow> bool \<Rightarrow> bool \<times> thread_context" where
  "FIRCLSUnwindWithFramePointer m registers allowScanning =
     (let (done, r1) = (if allowScanning then FIRCLSUnwindWithLRRegister registers
                        else (False, registers)) in
      if done then (True, r1)
      else
        let framePointer = FIRCLSThreadContextGetFramePointer r1 in
        case FIRCLSReadMemory m framePointer 16 of
          None \<Rightarrow> (False, r1)
        | Some bs \<Rightarrow>
            let stack0 = of_nat (bytes_nat (take 8 bs)); stack1 = of_nat (bytes_nat (drop 8 bs));
                (ok1, r2) = FIRCLSThreadContextSetPC r1 stack1 in
            if \<not> ok1 then (False, r2)
            else let (ok2, r3) = FIRCLSThreadContextSetFramePointer r2 stack0 in
            if \<not> ok2 then (False, r3)
            else FIRCLSThreadContextSetStackPointer r3
                   (FIRCLSUnwindStackPointerFromFramePointer framePointer))"

section \<open>The interface of a register file\<close>

locale register_file =
  fixes get :: "'r \<Rightarrow> u64 \<Rightarrow> u64"
    and set_reg :: "'r \<Rightarrow> u64 \<Rightarrow> u64 \<Rightarrow> bool \<times> 'r"
    and max_reg :: u64
    and stored :: "u64 \<Rightarrow> u64 \<Rightarrow> u64"
  assumes set_known: "n \<le> max_reg \<Longrightarrow> fst (set_reg r n v)"
    and set_unknown: "max_reg < n \<Longrightarrow> set_reg r n v = (False, r)"
    and get_set_same: "n \<le> max_reg \<Longrightarrow> get (snd (set_reg r n v)) n = stored n v"
    and get_set_other: "k \<noteq> n \<Longrightarrow> get (snd (set_reg r n v)) k = get r k"
    and get_unknown: "max_reg < n \<Longrightarrow> get r n = 0"
begin

text \<open>A sequence of assignments: the last one to a register counts, others are unchanged.\<close>

lemma get_fold_other:
  "k \<notin> fst ` set nvs \<Longrightarrow> get (fold (\<lambda>(n, v) r. snd (set_reg r n v)) nvs r) k = get r k"
  by (induction nvs arbitrary: r) (auto simp: get_set_other)

lemma get_fold_assigned:
  "distinct (map fst nvs) \<Longrightarrow> (n, v) \<in> set nvs \<Longrightarrow> n \<le> max_reg \<Longrightarrow>
   get (fold (\<lambda>(n, v) r. snd (set_reg r n v)) nvs r) n = stored n v"
proof (induction nvs arbitrary: r)
  case Nil
  then show ?case by simp
next
  case (Cons nv nvs)
  obtain k w where nv: "nv = (k, w)" by (cases nv)
  show ?case
  proof (cases "n = k \<and> v = w")
    case True
    then have "n \<notin> fst ` set nvs" using Cons.prems(1) nv by auto
    then show ?thesis using True nv Cons.prems(3) by (simp add: get_fold_other get_set_same)
  next
    case False
    then have "(n, v) \<in> set nvs" using Cons.prems(2) nv by auto
    then show ?thesis using Cons.IH Cons.prems(1,3) nv by simp
  qed
qed

end

definition stored_value :: "u64 \<Rightarrow> u64 \<Rightarrow> u64" where
  "stored_value n v = (if n \<le> 28 then v else CLS_PTRAUTH_STRIP v)"

lemma reg_cases:
  assumes "n \<le> (31 :: u64)"
  shows "n \<le> 28 \<or> n = 29 \<or> n = 30 \<or> n = 31"
proof -
  have "unat n \<le> 31" using assms by (simp add: word_le_nat_alt)
  then have "unat n \<le> 28 \<or> unat n = unat (29 :: u64) \<or> unat n = unat (30 :: u64) \<or> unat n = unat (31 :: u64)"
    by simp linarith
  then show ?thesis by (auto simp only: word_unat_eq_iff word_le_nat_alt) auto
qed

interpretation arm64: register_file FIRCLSDwarfUnwindGetRegisterValue
  FIRCLSDwarfUnwindSetRegisterValue CLS_DWARF_MAX_REGISTER_NUM stored_value
proof
  fix n r v
  assume "n \<le> CLS_DWARF_MAX_REGISTER_NUM"
  then have n: "n \<le> 28 \<or> n = 29 \<or> n = 30 \<or> n = 31" by (intro reg_cases) (simp add: CLS_DWARF_defs)
  show "fst (FIRCLSDwarfUnwindSetRegisterValue r n v)"
    using n by (auto simp: FIRCLSDwarfUnwindSetRegisterValue_def CLS_DWARF_defs)
  show "FIRCLSDwarfUnwindGetRegisterValue (snd (FIRCLSDwarfUnwindSetRegisterValue r n v)) n =
        stored_value n v"
    using n by (auto simp: FIRCLSDwarfUnwindSetRegisterValue_def FIRCLSDwarfUnwindGetRegisterValue_def
        stored_value_def CLS_DWARF_defs context_accessors)
next
  fix n r v
  assume "CLS_DWARF_MAX_REGISTER_NUM < n"
  then have "31 < n" by (simp add: CLS_DWARF_defs)
  moreover from this have "28 < n" by (rule le_less_trans [rotated]) simp
  ultimately have "\<not> n \<le> 28" "n \<noteq> 29" "n \<noteq> 30" "n \<noteq> 31" by auto
  then show "FIRCLSDwarfUnwindSetRegisterValue r n v = (False, r)"
    and "FIRCLSDwarfUnwindGetRegisterValue r n = 0"
    by (simp_all add: FIRCLSDwarfUnwindSetRegisterValue_def FIRCLSDwarfUnwindGetRegisterValue_def
        CLS_DWARF_defs)
next
  fix k n :: u64 and r v
  assume "k \<noteq> n"
  moreover from this have "unat k \<noteq> unat n" by (simp add: word_unat_eq_iff)
  ultimately show "FIRCLSDwarfUnwindGetRegisterValue (snd (FIRCLSDwarfUnwindSetRegisterValue r n v)) k =
        FIRCLSDwarfUnwindGetRegisterValue r k"
    by (auto simp: FIRCLSDwarfUnwindSetRegisterValue_def FIRCLSDwarfUnwindGetRegisterValue_def
        CLS_DWARF_defs context_accessors)
qed

end
