(* ===== verification/Expression_Machine.thy ===== *)
theory Expression_Machine
  imports Data_Parsing Thread_State
begin

text \<open>
  The DWARF expression evaluator:
  \<^verbatim>\<open>Crashlytics/Unwind/Dwarf/FIRCLSDwarfExpressionMachine.c\<close> and
  \<open>FIRCLSDwarfEvalulateExpression\<close> of \<^verbatim>\<open>FIRCLSDwarfUnwind.c\<close>.

  The stack is an array of 100 words and a pointer into it. The pointer is \<open>Some i\<close> for
  \<open>buffer + i\<close> and \<open>None\<close> for NULL, the value that marks an overflow or underflow and that
  compares below every object. The functions that take the machine by reference return it
  updated; a machine passed by reference is a live local object, so
  \<open>FIRCLSIsValidPointer(machine)\<close> holds.
\<close>

section \<open>The operand stack\<close>

definition CLS_DWARF_EXPRESSION_STACK_SIZE :: nat where
  "CLS_DWARF_EXPRESSION_STACK_SIZE = 100"

record expression_stack =
  stack_buffer :: "u64 list"
  stack_pointer :: "nat option"

definition FIRCLSDwarfExpressionStackInit :: expression_stack where
  "FIRCLSDwarfExpressionStackInit =
     \<lparr>stack_buffer = replicate CLS_DWARF_EXPRESSION_STACK_SIZE 0, stack_pointer = Some 0\<rparr>"

definition FIRCLSDwarfExpressionStackIsValid :: "expression_stack \<Rightarrow> bool" where
  "FIRCLSDwarfExpressionStackIsValid stack =
     (case stack_pointer stack of None \<Rightarrow> False
      | Some i \<Rightarrow> if i > CLS_DWARF_EXPRESSION_STACK_SIZE then False else True)"

definition FIRCLSDwarfExpressionStackPush ::
    "expression_stack \<Rightarrow> u64 \<Rightarrow> bool \<times> expression_stack" where
  "FIRCLSDwarfExpressionStackPush stack value =
     (if \<not> FIRCLSDwarfExpressionStackIsValid stack then (False, stack)
      else if stack_pointer stack = Some CLS_DWARF_EXPRESSION_STACK_SIZE
      then (False, stack\<lparr>stack_pointer := None\<rparr>)
      else let i = the (stack_pointer stack) in
        (True, stack\<lparr>stack_buffer := (stack_buffer stack)[i := value], stack_pointer := Some (i + 1)\<rparr>))"

definition FIRCLSDwarfExpressionStackPeek ::
    "expression_stack \<Rightarrow> u64 \<times> expression_stack" where
  "FIRCLSDwarfExpressionStackPeek stack =
     (if \<not> FIRCLSDwarfExpressionStackIsValid stack then (0, stack)
      else if stack_pointer stack = Some 0 then (0, stack\<lparr>stack_pointer := None\<rparr>)
      else (stack_buffer stack ! (the (stack_pointer stack) - 1), stack))"

definition FIRCLSDwarfExpressionStackPop ::
    "expression_stack \<Rightarrow> u64 \<times> expression_stack" where
  "FIRCLSDwarfExpressionStackPop stack =
     (if \<not> FIRCLSDwarfExpressionStackIsValid stack then (0, stack)
      else if stack_pointer stack = Some 0 then (0, stack\<lparr>stack_pointer := None\<rparr>)
      else let i = the (stack_pointer stack) - 1 in
        (stack_buffer stack ! i, stack\<lparr>stack_pointer := Some i\<rparr>))"

section \<open>The machine\<close>

record expression_machine =
  machine_stack :: expression_stack
  dataCursor :: addr
  endAddress :: addr
  machine_registers :: thread_context

text \<open>
  \<open>memset\<close> to zero; the \<open>registers\<close> pointer is assigned before it is used, so the value given
  here for it is the one assigned.
\<close>

definition zero_machine :: "thread_context \<Rightarrow> expression_machine" where
  "zero_machine regs =
     \<lparr>machine_stack = \<lparr>stack_buffer = replicate CLS_DWARF_EXPRESSION_STACK_SIZE 0, stack_pointer = None\<rparr>,
      dataCursor = 0, endAddress = 0, machine_registers = regs\<rparr>"

definition FIRCLSDwarfExpressionMachineInit ::
    "addr \<Rightarrow> thread_context \<Rightarrow> u64 \<Rightarrow> bool \<times> expression_machine" where
  "FIRCLSDwarfExpressionMachineInit cursor regs stackValue =
     (let machine = zero_machine regs in
      if \<not> FIRCLSIsValidPointer cursor then (False, machine)
      else
        let machine = machine\<lparr>dataCursor := cursor, machine_registers := regs,
                              machine_stack := FIRCLSDwarfExpressionStackInit\<rparr>;
            (ok, st) = FIRCLSDwarfExpressionStackPush (machine_stack machine) stackValue in
        (ok, machine\<lparr>machine_stack := st\<rparr>))"

definition FIRCLSDwarfExpressionMachinePrepareForExecution ::
    "memory \<Rightarrow> expression_machine \<Rightarrow> (bool \<times> expression_machine) option" where
  "FIRCLSDwarfExpressionMachinePrepareForExecution m machine =
     do { (expressionLength, cursor) \<leftarrow> FIRCLSParseULEB128AndAdvance m (dataCursor machine);
          let machine = machine\<lparr>dataCursor := cursor\<rparr> in
          if expressionLength = 0 then Some (False, machine)
          else do { e \<leftarrow> ptr_add cursor expressionLength;
                    Some (True, machine\<lparr>endAddress := e\<rparr>) } }"

definition FIRCLSDwarfExpressionMachineIsFinished :: "expression_machine \<Rightarrow> bool" where
  "FIRCLSDwarfExpressionMachineIsFinished machine =
     (if \<not> FIRCLSIsValidPointer (endAddress machine) \<or> \<not> FIRCLSIsValidPointer (dataCursor machine)
      then True
      else if \<not> FIRCLSDwarfExpressionStackIsValid (machine_stack machine) then True
      else dataCursor machine \<ge> endAddress machine)"

definition FIRCLSDwarfExpressionMachineGetResult ::
    "expression_machine \<Rightarrow> u64 option \<times> expression_machine" where
  "FIRCLSDwarfExpressionMachineGetResult machine =
     (if dataCursor machine \<noteq> endAddress machine then (None, machine)
      else let (result, st) = FIRCLSDwarfExpressionStackPeek (machine_stack machine) in
        (if FIRCLSDwarfExpressionStackIsValid st then Some result else None,
         machine\<lparr>machine_stack := st\<rparr>))"

definition FIRCLSDwarfExpressionMachineStackPop ::
    "expression_machine \<Rightarrow> u64 \<times> expression_machine" where
  "FIRCLSDwarfExpressionMachineStackPop machine =
     (let (v, st) = FIRCLSDwarfExpressionStackPop (machine_stack machine) in (v, machine\<lparr>machine_stack := st\<rparr>))"

definition FIRCLSDwarfExpressionMachineStackPush ::
    "expression_machine \<Rightarrow> u64 \<Rightarrow> bool \<times> expression_machine" where
  "FIRCLSDwarfExpressionMachineStackPush machine value =
     (let (ok, st) = FIRCLSDwarfExpressionStackPush (machine_stack machine) value in
      (ok, machine\<lparr>machine_stack := st\<rparr>))"

section \<open>Opcodes\<close>

definition DW_OP_deref :: byte where "DW_OP_deref = 0x06"
definition DW_OP_dup :: byte where "DW_OP_dup = 0x12"
definition DW_OP_swap :: byte where "DW_OP_swap = 0x16"
definition DW_OP_and :: byte where "DW_OP_and = 0x1A"
definition DW_OP_plus :: byte where "DW_OP_plus = 0x22"
definition DW_OP_plus_uconst :: byte where "DW_OP_plus_uconst = 0x23"
definition DW_OP_ne :: byte where "DW_OP_ne = 0x2E"
definition DW_OP_lit0 :: byte where "DW_OP_lit0 = 0x30"
definition DW_OP_lit31 :: byte where "DW_OP_lit31 = 0x4F"
definition DW_OP_breg0 :: byte where "DW_OP_breg0 = 0x70"
definition DW_OP_breg31 :: byte where "DW_OP_breg31 = 0x8F"
definition DW_OP_deref_size :: byte where "DW_OP_deref_size = 0x94"

lemmas DW_OP_defs =
  DW_OP_deref_def DW_OP_dup_def DW_OP_swap_def DW_OP_and_def DW_OP_plus_def DW_OP_plus_uconst_def
  DW_OP_ne_def DW_OP_lit0_def DW_OP_lit31_def DW_OP_breg0_def DW_OP_breg31_def DW_OP_deref_size_def

definition FIRCLSDwarfExpressionMachineExecute_bregN ::
    "memory \<Rightarrow> expression_machine \<Rightarrow> byte \<Rightarrow> (bool \<times> expression_machine) option" where
  "FIRCLSDwarfExpressionMachineExecute_bregN m machine opcode =
     (let regNum = opcode - DW_OP_breg0 in
      if ucast regNum > CLS_DWARF_MAX_REGISTER_NUM then Some (False, machine)
      else do {
        (offset, cursor) \<leftarrow> FIRCLSParseLEB128AndAdvance m (dataCursor machine);
        let machine = machine\<lparr>dataCursor := cursor\<rparr>;
            value = FIRCLSDwarfUnwindGetRegisterValue (machine_registers machine) (ucast regNum)
                    + offset in
        Some (FIRCLSDwarfExpressionMachineStackPush machine value) })"

definition FIRCLSDwarfExpressionMachineExecute_deref ::
    "memory \<Rightarrow> expression_machine \<Rightarrow> (bool \<times> expression_machine) option" where
  "FIRCLSDwarfExpressionMachineExecute_deref m machine =
     (let (value, machine) = FIRCLSDwarfExpressionMachineStackPop machine in
      case read_word m value of
        None \<Rightarrow> Some (False, machine)
      | Some value \<Rightarrow> Some (FIRCLSDwarfExpressionMachineStackPush machine value))"

text \<open>\<open>intptr_t += uint64_t\<close> is computed in \<open>uint64_t\<close>: it wraps.\<close>

definition FIRCLSDwarfExpressionMachineExecute_plus_uconst ::
    "memory \<Rightarrow> expression_machine \<Rightarrow> (bool \<times> expression_machine) option" where
  "FIRCLSDwarfExpressionMachineExecute_plus_uconst m machine =
     (let (value, machine) = FIRCLSDwarfExpressionMachineStackPop machine in
      do { (c, cursor) \<leftarrow> FIRCLSParseULEB128AndAdvance m (dataCursor machine);
           let machine = machine\<lparr>dataCursor := cursor\<rparr> in
           Some (FIRCLSDwarfExpressionMachineStackPush machine (value + c)) })"

definition FIRCLSDwarfExpressionMachineExecute_and ::
    "expression_machine \<Rightarrow> (bool \<times> expression_machine) option" where
  "FIRCLSDwarfExpressionMachineExecute_and machine =
     (let (value, machine) = FIRCLSDwarfExpressionMachineStackPop machine;
          (value2, machine) = FIRCLSDwarfExpressionMachineStackPop machine in
      Some (FIRCLSDwarfExpressionMachineStackPush machine (value AND value2)))"

text \<open>An addition of two \<open>intptr_t\<close>.\<close>

definition FIRCLSDwarfExpressionMachineExecute_plus ::
    "expression_machine \<Rightarrow> (bool \<times> expression_machine) option" where
  "FIRCLSDwarfExpressionMachineExecute_plus machine =
     (let (value, machine) = FIRCLSDwarfExpressionMachineStackPop machine;
          (value2, machine) = FIRCLSDwarfExpressionMachineStackPop machine in
      do { r \<leftarrow> sadd64 value value2;
           Some (FIRCLSDwarfExpressionMachineStackPush machine r) })"

definition FIRCLSDwarfExpressionMachineExecute_dup ::
    "expression_machine \<Rightarrow> (bool \<times> expression_machine) option" where
  "FIRCLSDwarfExpressionMachineExecute_dup machine =
     (let (value, st) = FIRCLSDwarfExpressionStackPeek (machine_stack machine);
          machine = machine\<lparr>machine_stack := st\<rparr> in
      Some (FIRCLSDwarfExpressionMachineStackPush machine value))"

definition FIRCLSDwarfExpressionMachineExecute_swap ::
    "expression_machine \<Rightarrow> (bool \<times> expression_machine) option" where
  "FIRCLSDwarfExpressionMachineExecute_swap machine =
     (let (valueA, machine) = FIRCLSDwarfExpressionMachineStackPop machine;
          (valueB, machine) = FIRCLSDwarfExpressionMachineStackPop machine;
          (ok, machine) = FIRCLSDwarfExpressionMachineStackPush machine valueA in
      if \<not> ok then Some (False, machine)
      else Some (FIRCLSDwarfExpressionMachineStackPush machine valueB))"

text \<open>The operand is read directly at the popped address, without \<open>FIRCLSReadMemory\<close>.\<close>

definition FIRCLSDwarfExpressionMachineExecute_deref_size ::
    "memory \<Rightarrow> expression_machine \<Rightarrow> (bool \<times> expression_machine) option" where
  "FIRCLSDwarfExpressionMachineExecute_deref_size m machine =
     (let (address, machine) = FIRCLSDwarfExpressionMachineStackPop machine in
      do { (readSize, cursor) \<leftarrow> FIRCLSParseUint8AndAdvance m (dataCursor machine);
           let machine = machine\<lparr>dataCursor := cursor\<rparr> in
           if readSize = 1 then
             do { (v, _) \<leftarrow> FIRCLSParseUint8AndAdvance m address;
                  Some (FIRCLSDwarfExpressionMachineStackPush machine (ucast v)) }
           else if readSize = 2 then
             do { (v, _) \<leftarrow> FIRCLSParseUint16AndAdvance m address;
                  Some (FIRCLSDwarfExpressionMachineStackPush machine (ucast v)) }
           else if readSize = 4 then
             do { (v, _) \<leftarrow> FIRCLSParseUint32AndAdvance m address;
                  Some (FIRCLSDwarfExpressionMachineStackPush machine (ucast v)) }
           else if readSize = 8 then
             do { (v, _) \<leftarrow> FIRCLSParseUint64AndAdvance m address;
                  Some (FIRCLSDwarfExpressionMachineStackPush machine v) }
           else Some (False, machine) })"

definition FIRCLSDwarfExpressionMachineExecute_ne ::
    "expression_machine \<Rightarrow> (bool \<times> expression_machine) option" where
  "FIRCLSDwarfExpressionMachineExecute_ne machine =
     (let (value, machine) = FIRCLSDwarfExpressionMachineStackPop machine;
          (value2, machine) = FIRCLSDwarfExpressionMachineStackPop machine in
      Some (FIRCLSDwarfExpressionMachineStackPush machine (if value \<noteq> value2 then 1 else 0)))"

definition FIRCLSDwarfExpressionMachineExecute_litN ::
    "expression_machine \<Rightarrow> byte \<Rightarrow> (bool \<times> expression_machine) option" where
  "FIRCLSDwarfExpressionMachineExecute_litN machine opcode =
     (let value = opcode - DW_OP_lit0 in
      Some (FIRCLSDwarfExpressionMachineStackPush machine (ucast value)))"

definition FIRCLSDwarfExpressionMachineExecuteNextOpcode ::
    "memory \<Rightarrow> expression_machine \<Rightarrow> (bool \<times> expression_machine) option" where
  "FIRCLSDwarfExpressionMachineExecuteNextOpcode m machine =
     do { (opcode, cursor) \<leftarrow> FIRCLSParseUint8AndAdvance m (dataCursor machine);
          let machine = machine\<lparr>dataCursor := cursor\<rparr> in
          if opcode = DW_OP_deref then FIRCLSDwarfExpressionMachineExecute_deref m machine
          else if opcode = DW_OP_dup then FIRCLSDwarfExpressionMachineExecute_dup machine
          else if opcode = DW_OP_and then FIRCLSDwarfExpressionMachineExecute_and machine
          else if opcode = DW_OP_plus then FIRCLSDwarfExpressionMachineExecute_plus machine
          else if opcode = DW_OP_swap then FIRCLSDwarfExpressionMachineExecute_swap machine
          else if opcode = DW_OP_plus_uconst
          then FIRCLSDwarfExpressionMachineExecute_plus_uconst m machine
          else if opcode = DW_OP_ne then FIRCLSDwarfExpressionMachineExecute_ne machine
          else if DW_OP_lit0 \<le> opcode \<and> opcode \<le> DW_OP_lit31
          then FIRCLSDwarfExpressionMachineExecute_litN machine opcode
          else if DW_OP_breg0 \<le> opcode \<and> opcode \<le> DW_OP_breg31
          then FIRCLSDwarfExpressionMachineExecute_bregN m machine opcode
          else if opcode = DW_OP_deref_size
          then FIRCLSDwarfExpressionMachineExecute_deref_size m machine
          else Some (False, machine) }"

lemmas execute_defs =
  FIRCLSDwarfExpressionMachineExecute_bregN_def FIRCLSDwarfExpressionMachineExecute_deref_def
  FIRCLSDwarfExpressionMachineExecute_plus_uconst_def FIRCLSDwarfExpressionMachineExecute_and_def
  FIRCLSDwarfExpressionMachineExecute_plus_def FIRCLSDwarfExpressionMachineExecute_dup_def
  FIRCLSDwarfExpressionMachineExecute_swap_def FIRCLSDwarfExpressionMachineExecute_deref_size_def
  FIRCLSDwarfExpressionMachineExecute_ne_def FIRCLSDwarfExpressionMachineExecute_litN_def

section \<open>Every opcode moves the cursor forward\<close>

lemma machine_pop_cursor [simp]:
  "dataCursor (snd (FIRCLSDwarfExpressionMachineStackPop mc)) = dataCursor mc"
  "endAddress (snd (FIRCLSDwarfExpressionMachineStackPop mc)) = endAddress mc"
  "machine_registers (snd (FIRCLSDwarfExpressionMachineStackPop mc)) = machine_registers mc"
  by (simp_all add: FIRCLSDwarfExpressionMachineStackPop_def split: prod.splits)

lemma machine_push_cursor [simp]:
  "dataCursor (snd (FIRCLSDwarfExpressionMachineStackPush mc v)) = dataCursor mc"
  "endAddress (snd (FIRCLSDwarfExpressionMachineStackPush mc v)) = endAddress mc"
  "machine_registers (snd (FIRCLSDwarfExpressionMachineStackPush mc v)) = machine_registers mc"
  by (simp_all add: FIRCLSDwarfExpressionMachineStackPush_def split: prod.splits)

text \<open>What each opcode keeps: the cursor never moves back, the end and the registers stay.\<close>

definition keeps_going :: "expression_machine \<Rightarrow> (bool \<times> expression_machine) option \<Rightarrow> bool" where
  "keeps_going mc r =
     (case r of None \<Rightarrow> True
      | Some x \<Rightarrow> unat (dataCursor mc) \<le> unat (dataCursor (snd x)) \<and>
          endAddress (snd x) = endAddress mc \<and> machine_registers (snd x) = machine_registers mc)"

lemma keeps_going_simps [simp]:
  "keeps_going mc None"
  "keeps_going mc (Some x) \<longleftrightarrow> unat (dataCursor mc) \<le> unat (dataCursor (snd x)) \<and>
     endAddress (snd x) = endAddress mc \<and> machine_registers (snd x) = machine_registers mc"
  by (simp_all add: keeps_going_def)

lemma keeps_going_bind [intro!]:
  assumes "\<And>v. r = Some v \<Longrightarrow> keeps_going mc (f v)"
  shows "keeps_going mc (do { v \<leftarrow> r; f v })"
  using assms by (cases r) auto

lemma execute_keeps_going:
  "keeps_going mc (FIRCLSDwarfExpressionMachineExecute_deref m mc)"
  "keeps_going mc (FIRCLSDwarfExpressionMachineExecute_dup mc)"
  "keeps_going mc (FIRCLSDwarfExpressionMachineExecute_and mc)"
  "keeps_going mc (FIRCLSDwarfExpressionMachineExecute_plus mc)"
  "keeps_going mc (FIRCLSDwarfExpressionMachineExecute_swap mc)"
  "keeps_going mc (FIRCLSDwarfExpressionMachineExecute_ne mc)"
  "keeps_going mc (FIRCLSDwarfExpressionMachineExecute_litN mc opcode)"
  "keeps_going mc (FIRCLSDwarfExpressionMachineExecute_plus_uconst m mc)"
  "keeps_going mc (FIRCLSDwarfExpressionMachineExecute_bregN m mc opcode)"
  by (auto simp: execute_defs Let_def case_prod_beta split: option.splits
      intro: uleb128.advances_le leb128.advances_le)

lemma execute_deref_size_keeps_going:
  "keeps_going mc (FIRCLSDwarfExpressionMachineExecute_deref_size m mc)"
proof (cases "FIRCLSParseUint8AndAdvance m (dataCursor mc)")
  case None
  then show ?thesis by (simp add: execute_defs Let_def case_prod_beta)
next
  case (Some r)
  then have "unat (dataCursor mc) \<le> unat (snd r)" by (cases r) (simp add: uint8.advances_le)
  with Some show ?thesis by (auto simp: execute_defs Let_def case_prod_beta)
qed

lemma ExecuteNextOpcode_progress:
  assumes "FIRCLSDwarfExpressionMachineExecuteNextOpcode m mc = Some (ok, mc')"
  shows "unat (dataCursor mc) < unat (dataCursor mc') \<and> endAddress mc' = endAddress mc \<and>
         machine_registers mc' = machine_registers mc"
proof -
  obtain opcode cursor where c: "FIRCLSParseUint8AndAdvance m (dataCursor mc) = Some (opcode, cursor)"
    using assms by (auto simp: FIRCLSDwarfExpressionMachineExecuteNextOpcode_def bind_eq_Some_conv)
  let ?mc = "mc\<lparr>dataCursor := cursor\<rparr>"
  have "keeps_going ?mc (Some (ok, mc'))"
    unfolding assms [symmetric] FIRCLSDwarfExpressionMachineExecuteNextOpcode_def c
    by (simp add: execute_keeps_going execute_deref_size_keeps_going Let_def del: keeps_going_simps(2))
       (auto simp: Let_def)
  then show ?thesis using uint8.advances [OF c] by auto
qed

section \<open>Evaluation\<close>

text \<open>
  The loop of \<open>FIRCLSDwarfEvalulateExpression\<close>. It terminates because every opcode moves the
  cursor forward in a bounded address space.
\<close>

function evaluate_loop ::
    "memory \<Rightarrow> expression_machine \<Rightarrow> (bool \<times> expression_machine) option" where
  "evaluate_loop m mc =
     (if FIRCLSDwarfExpressionMachineIsFinished mc then Some (True, mc)
      else case FIRCLSDwarfExpressionMachineExecuteNextOpcode m mc of
          None \<Rightarrow> None
        | Some (ok, mc') \<Rightarrow> if \<not> ok then Some (False, mc') else evaluate_loop m mc')"
  by pat_completeness auto
termination
proof (relation "measure (\<lambda>(m, mc). 2 ^ 64 - unat (dataCursor mc))")
  fix m :: memory and mc x ok mc'
  assume "FIRCLSDwarfExpressionMachineExecuteNextOpcode m mc = Some x" "(ok, mc') = x"
  then have "unat (dataCursor mc) < unat (dataCursor mc')" "unat (dataCursor mc') < 2 ^ 64"
    using ExecuteNextOpcode_progress unsigned_less [of "dataCursor mc'"] by auto
  then show "((m, mc'), (m, mc)) \<in> measure (\<lambda>(m, mc). 2 ^ 64 - unat (dataCursor mc))" by simp
qed simp

declare evaluate_loop.simps [simp del]

text \<open>
  \<open>Some None\<close> is the result \<open>false\<close>, \<open>Some (Some v)\<close> the result \<open>true\<close> with \<open>*result = v\<close>.
\<close>

definition FIRCLSDwarfEvalulateExpression ::
    "memory \<Rightarrow> addr \<Rightarrow> thread_context \<Rightarrow> u64 \<Rightarrow> u64 option option" where
  "FIRCLSDwarfEvalulateExpression m cursor regs stackValue =
     (if \<not> FIRCLSIsValidPointer cursor then Some None
      else let (ok, mc) = FIRCLSDwarfExpressionMachineInit cursor regs stackValue in
      if \<not> ok then Some None
      else do {
        (ok, mc) \<leftarrow> FIRCLSDwarfExpressionMachinePrepareForExecution m mc;
        if \<not> ok then Some None
        else do {
          (ok, mc) \<leftarrow> evaluate_loop m mc;
          if \<not> ok then Some None
          else Some (fst (FIRCLSDwarfExpressionMachineGetResult mc)) } })"

section \<open>The stack as a bounded stack\<close>

text \<open>
  The interface the opcodes use: a stack of at most \<open>cap\<close> values in which an overflow or an
  underflow leaves a state that no later operation makes valid again.
\<close>

locale bounded_stack =
  fixes push :: "'s \<Rightarrow> 'v \<Rightarrow> bool \<times> 's"
    and pop :: "'s \<Rightarrow> 'v \<times> 's"
    and peek :: "'s \<Rightarrow> 'v \<times> 's"
    and valid :: "'s \<Rightarrow> bool"
    and holds :: "'s \<Rightarrow> 'v list \<Rightarrow> bool"
    and cap :: nat
  assumes holds_valid: "holds s xs \<Longrightarrow> valid s"
    and holds_cap: "holds s xs \<Longrightarrow> length xs \<le> cap"
    and push_holds: "holds s xs \<Longrightarrow> length xs < cap \<Longrightarrow> \<exists>t. push s v = (True, t) \<and> holds t (v # xs)"
    and push_overflow: "holds s xs \<Longrightarrow> length xs = cap \<Longrightarrow> \<exists>t. push s v = (False, t) \<and> \<not> valid t"
    and push_invalid: "\<not> valid s \<Longrightarrow> push s v = (False, s)"
    and pop_holds: "holds s (x # xs) \<Longrightarrow> \<exists>t. pop s = (x, t) \<and> holds t xs"
    and pop_underflow: "holds s [] \<Longrightarrow> \<exists>v t. pop s = (v, t) \<and> \<not> valid t"
    and pop_invalid: "\<not> valid s \<Longrightarrow> \<exists>v. pop s = (v, s)"
    and peek_holds: "holds s (x # xs) \<Longrightarrow> peek s = (x, s)"
    and peek_underflow: "holds s [] \<Longrightarrow> \<exists>v t. peek s = (v, t) \<and> \<not> valid t"
begin

text \<open>Pop two values, push one: what every binary opcode does.\<close>

lemma binary_holds:
  assumes "holds s (x # y # zs)"
  obtains t u w where "pop s = (x, t)" "pop t = (y, u)" "push u v = (True, w)" "holds w (v # zs)"
proof -
  from pop_holds [OF assms] obtain t where t: "pop s = (x, t)" "holds t (y # zs)" by blast
  from pop_holds [OF t(2)] obtain u where u: "pop t = (y, u)" "holds u zs" by blast
  have "length zs < cap" using holds_cap [OF assms] by simp
  from push_holds [OF u(2) this] obtain w where "push u v = (True, w)" "holds w (v # zs)" by blast
  with t u show ?thesis by (intro that)
qed

lemma binary_underflow:
  assumes "holds s [x]"
  obtains t y u where "pop s = (x, t)" "pop t = (y, u)" "\<And>v. push u v = (False, u)"
proof -
  from pop_holds [OF assms] obtain t where t: "pop s = (x, t)" "holds t []" by blast
  from pop_underflow [OF t(2)] obtain y u where u: "pop t = (y, u)" "\<not> valid u" by blast
  with t push_invalid show ?thesis by (intro that)
qed

text \<open>Replace the top value.\<close>

lemma unary_holds:
  assumes "holds s (x # xs)"
  obtains t where "pop s = (x, t)" "\<And>v. \<exists>w. push t v = (True, w) \<and> holds w (v # xs)"
proof -
  from pop_holds [OF assms] obtain t where t: "pop s = (x, t)" "holds t xs" by blast
  have "length xs < cap" using holds_cap [OF assms] by simp
  with push_holds [OF t(2)] t(1) show ?thesis by (intro that) auto
qed

lemma push_cases:
  assumes "holds s xs"
  shows "\<exists>t. push s v = (length xs < cap, t) \<and> (length xs < cap \<longrightarrow> holds t (v # xs))"
proof (cases "length xs < cap")
  case True
  with push_holds [OF assms] show ?thesis by auto
next
  case False
  with holds_cap [OF assms] have "length xs = cap" by simp
  with push_overflow [OF assms] show ?thesis by auto
qed

end

definition stack_holds :: "expression_stack \<Rightarrow> u64 list \<Rightarrow> bool" where
  "stack_holds st xs \<longleftrightarrow>
     length (stack_buffer st) = CLS_DWARF_EXPRESSION_STACK_SIZE \<and>
     length xs \<le> CLS_DWARF_EXPRESSION_STACK_SIZE \<and>
     stack_pointer st = Some (length xs) \<and> take (length xs) (stack_buffer st) = rev xs"

lemmas expression_stack_defs =
  FIRCLSDwarfExpressionStackPush_def FIRCLSDwarfExpressionStackPop_def
  FIRCLSDwarfExpressionStackPeek_def FIRCLSDwarfExpressionStackIsValid_def

interpretation expr_stack: bounded_stack FIRCLSDwarfExpressionStackPush FIRCLSDwarfExpressionStackPop
  FIRCLSDwarfExpressionStackPeek FIRCLSDwarfExpressionStackIsValid stack_holds
  CLS_DWARF_EXPRESSION_STACK_SIZE
proof
  fix s xs v
  assume h: "stack_holds s xs"
  show "FIRCLSDwarfExpressionStackIsValid s" "length xs \<le> CLS_DWARF_EXPRESSION_STACK_SIZE"
    using h by (simp_all add: stack_holds_def expression_stack_defs)
  show "\<exists>t. FIRCLSDwarfExpressionStackPush s v = (True, t) \<and> stack_holds t (v # xs)"
    if "length xs < CLS_DWARF_EXPRESSION_STACK_SIZE"
    using h that by (auto simp: stack_holds_def expression_stack_defs Let_def take_Suc_conv_app_nth)
  show "\<exists>t. FIRCLSDwarfExpressionStackPush s v = (False, t) \<and> \<not> FIRCLSDwarfExpressionStackIsValid t"
    if "length xs = CLS_DWARF_EXPRESSION_STACK_SIZE"
    using h that by (auto simp: stack_holds_def expression_stack_defs)
next
  fix s v
  assume "\<not> FIRCLSDwarfExpressionStackIsValid s"
  then show "FIRCLSDwarfExpressionStackPush s v = (False, s)"
    and "\<exists>v. FIRCLSDwarfExpressionStackPop s = (v, s)"
    by (simp_all add: FIRCLSDwarfExpressionStackPush_def FIRCLSDwarfExpressionStackPop_def)
next
  fix s x xs
  assume h: "stack_holds s (x # xs)"
  then have "length xs < length (stack_buffer s)" "take (Suc (length xs)) (stack_buffer s) = rev xs @ [x]"
    by (simp_all add: stack_holds_def)
  then have "stack_buffer s ! length xs = x" "take (length xs) (stack_buffer s) = rev xs"
    by (auto simp: take_Suc_conv_app_nth)
  then show "\<exists>t. FIRCLSDwarfExpressionStackPop s = (x, t) \<and> stack_holds t xs"
    and "FIRCLSDwarfExpressionStackPeek s = (x, s)"
    using h by (auto simp: stack_holds_def expression_stack_defs)
next
  fix s
  assume "stack_holds s []"
  then show "\<exists>v t. FIRCLSDwarfExpressionStackPop s = (v, t) \<and> \<not> FIRCLSDwarfExpressionStackIsValid t"
    and "\<exists>v t. FIRCLSDwarfExpressionStackPeek s = (v, t) \<and> \<not> FIRCLSDwarfExpressionStackIsValid t"
    by (auto simp: stack_holds_def expression_stack_defs)
qed

lemma stack_init_holds: "stack_holds FIRCLSDwarfExpressionStackInit []"
  by (simp add: stack_holds_def FIRCLSDwarfExpressionStackInit_def)

section \<open>Expressions as operations on a list of values\<close>

text \<open>
  The specification: the operations the evaluator supports, their DWARF encoding, and their
  meaning on a stack given as a list with the top first. The meaning is \<open>Some (Some ys)\<close>,
  or \<open>Some None\<close> when the operation fails (too few values, too many values, unreadable
  memory), or \<open>None\<close> when C does not define it.
\<close>

datatype expr_op = OpDeref | OpDup | OpAnd | OpPlus | OpSwap | OpPlusUconst nat | OpNe
  | OpLit nat | OpBreg nat int | OpDerefSize nat

fun op_bytes :: "expr_op \<Rightarrow> byte list" where
  "op_bytes OpDeref = [DW_OP_deref]"
| "op_bytes OpDup = [DW_OP_dup]"
| "op_bytes OpAnd = [DW_OP_and]"
| "op_bytes OpPlus = [DW_OP_plus]"
| "op_bytes OpSwap = [DW_OP_swap]"
| "op_bytes (OpPlusUconst n) = DW_OP_plus_uconst # uleb128 n"
| "op_bytes OpNe = [DW_OP_ne]"
| "op_bytes (OpLit n) = [DW_OP_lit0 + of_nat n]"
| "op_bytes (OpBreg n i) = (DW_OP_breg0 + of_nat n) # sleb128 i"
| "op_bytes (OpDerefSize k) = [DW_OP_deref_size, of_nat k]"

fun op_ok :: "expr_op \<Rightarrow> bool" where
  "op_ok (OpPlusUconst n) = (n < 2 ^ 31)"
| "op_ok (OpLit n) = (n < 32)"
| "op_ok (OpBreg n i) = (n < 32 \<and> - (2 ^ 27) \<le> i \<and> i < 2 ^ 31)"
| "op_ok (OpDerefSize k) = (k \<in> {1, 2, 4, 8})"
| "op_ok _ = True"

definition pushed :: "u64 \<Rightarrow> u64 list \<Rightarrow> u64 list option option" where
  "pushed v xs = Some (if length xs < CLS_DWARF_EXPRESSION_STACK_SIZE then Some (v # xs) else None)"

fun op_meaning ::
    "memory \<Rightarrow> thread_context \<Rightarrow> expr_op \<Rightarrow> u64 list \<Rightarrow> u64 list option option" where
  "op_meaning m r OpDeref (x # xs) =
     (case read_word m x of None \<Rightarrow> Some None | Some v \<Rightarrow> pushed v xs)"
| "op_meaning m r OpDup (x # xs) = pushed x (x # xs)"
| "op_meaning m r OpAnd (x # y # xs) = pushed (x AND y) xs"
| "op_meaning m r OpPlus (x # y # xs) = do { v \<leftarrow> sadd64 x y; pushed v xs }"
| "op_meaning m r OpSwap (x # y # xs) = Some (Some (y # x # xs))"
| "op_meaning m r (OpPlusUconst n) (x # xs) = pushed (x + of_nat n) xs"
| "op_meaning m r OpNe (x # y # xs) = pushed (if x \<noteq> y then 1 else 0) xs"
| "op_meaning m r (OpLit n) xs = pushed (of_nat n) xs"
| "op_meaning m r (OpBreg n i) xs = pushed (FIRCLSDwarfUnwindGetRegisterValue r (of_nat n) + of_int i) xs"
| "op_meaning m r (OpDerefSize k) (x # xs) =
     do { bs \<leftarrow> load_bytes m x k; pushed (of_nat (bytes_nat bs)) xs }"
| "op_meaning m r _ _ = Some None"

fun expr_meaning ::
    "memory \<Rightarrow> thread_context \<Rightarrow> expr_op list \<Rightarrow> u64 list \<Rightarrow> u64 list option option" where
  "expr_meaning m r [] xs = Some (Some xs)"
| "expr_meaning m r (op # ops) xs =
     (case op_meaning m r op xs of None \<Rightarrow> None | Some None \<Rightarrow> Some None
      | Some (Some ys) \<Rightarrow> expr_meaning m r ops ys)"

definition expr_bytes :: "expr_op list \<Rightarrow> byte list" where
  "expr_bytes ops = concat (map op_bytes ops)"

text \<open>One step of the machine agrees with a meaning.\<close>

definition agrees ::
    "expression_machine \<Rightarrow> addr \<Rightarrow> (bool \<times> expression_machine) option \<Rightarrow> u64 list option option \<Rightarrow> bool"
  where
  "agrees mc cursor r meaning =
     (case meaning of
        None \<Rightarrow> r = None
      | Some None \<Rightarrow> (\<exists>mc'. r = Some (False, mc'))
      | Some (Some ys) \<Rightarrow> (\<exists>st. stack_holds st ys \<and>
            r = Some (True, mc\<lparr>dataCursor := cursor, machine_stack := st\<rparr>)))"

lemma agrees_push:
  assumes "stack_holds (machine_stack mc') xs"
    and "mc' = mc\<lparr>dataCursor := cursor, machine_stack := machine_stack mc'\<rparr>"
  shows "agrees mc cursor (Some (FIRCLSDwarfExpressionMachineStackPush mc' v)) (pushed v xs)"
proof -
  obtain t where t: "FIRCLSDwarfExpressionStackPush (machine_stack mc') v =
      (length xs < CLS_DWARF_EXPRESSION_STACK_SIZE, t)"
    "length xs < CLS_DWARF_EXPRESSION_STACK_SIZE \<longrightarrow> stack_holds t (v # xs)"
    using expr_stack.push_cases [OF assms(1)] by blast
  moreover have "mc'\<lparr>machine_stack := t\<rparr> = mc\<lparr>dataCursor := cursor, machine_stack := t\<rparr>"
    by (subst assms(2)) simp
  ultimately show ?thesis
    by (auto simp: agrees_def pushed_def FIRCLSDwarfExpressionMachineStackPush_def)
qed

lemmas machine_stack_ops =
  FIRCLSDwarfExpressionMachineStackPop_def FIRCLSDwarfExpressionMachineStackPush_def

lemma fetch_opcode:
  "bytes_at m p (b # bs) \<Longrightarrow> FIRCLSParseUint8AndAdvance m p = Some (b, p + 1)"
  by (auto simp: FIRCLSParseUint8AndAdvance_def ptr_add_def)

lemma agrees_fail: "agrees mc c (Some (False, mc')) (Some None)"
  by (simp add: agrees_def)

text \<open>The binary opcodes: two values popped, one pushed.\<close>

lemma execute_binary:
  fixes mc :: expression_machine
  assumes holds: "stack_holds (machine_stack mc) (x # xs)"
    and op: "\<And>u v. fst (FIRCLSDwarfExpressionStackPop u) = v \<Longrightarrow>
       FIRCLSDwarfExpressionStackPop (machine_stack mc) = (x, u) \<Longrightarrow>
       r = do { w \<leftarrow> f x v; Some (FIRCLSDwarfExpressionMachineStackPush
              (mc\<lparr>machine_stack := snd (FIRCLSDwarfExpressionStackPop u)\<rparr>) w) }"
    and zero: "f x 0 \<noteq> None"
  shows "agrees mc (dataCursor mc) r
           (case xs of [] \<Rightarrow> Some None | y # ys \<Rightarrow> do { w \<leftarrow> f x y; pushed w ys })"
proof (cases xs)
  case Nil
  from expr_stack.pop_holds [OF holds] obtain t where
    t: "FIRCLSDwarfExpressionStackPop (machine_stack mc) = (x, t)" "stack_holds t []"
    using Nil by auto
  have u: "FIRCLSDwarfExpressionStackPop t = (0, t\<lparr>stack_pointer := None\<rparr>)"
    using t(2) by (auto simp: stack_holds_def expression_stack_defs)
  from zero obtain w where "f x 0 = Some w" by blast
  then show ?thesis using op [OF refl t(1)] u
    by (simp add: Nil agrees_def FIRCLSDwarfExpressionMachineStackPush_def expression_stack_defs)
next
  case (Cons y ys)
  with holds obtain t u where t: "FIRCLSDwarfExpressionStackPop (machine_stack mc) = (x, t)"
    "FIRCLSDwarfExpressionStackPop t = (y, u)" "stack_holds u ys"
    using expr_stack.pop_holds by blast
  have "agrees mc (dataCursor mc) (Some (FIRCLSDwarfExpressionMachineStackPush
          (mc\<lparr>machine_stack := u\<rparr>) w)) (pushed w ys)" for w
    using t(3) by (intro agrees_push) simp_all
  then show ?thesis using op [OF refl t(1)] t(2)
    by (cases "f x y") (auto simp: Cons agrees_def)
qed

lemma execute_and_agrees:
  assumes "stack_holds (machine_stack mc) (x # xs)"
  shows "agrees mc (dataCursor mc) (FIRCLSDwarfExpressionMachineExecute_and mc)
           (op_meaning m rg OpAnd (x # xs))"
proof -
  have "agrees mc (dataCursor mc) (FIRCLSDwarfExpressionMachineExecute_and mc)
     (case xs of [] \<Rightarrow> Some None | y # ys \<Rightarrow> do { w \<leftarrow> Some (x AND y); pushed w ys })"
    by (rule execute_binary [OF assms])
      (auto simp: FIRCLSDwarfExpressionMachineExecute_and_def FIRCLSDwarfExpressionMachineStackPop_def
        Let_def split: prod.splits)
  then show ?thesis by (cases xs) simp_all
qed

lemma execute_plus_agrees:
  assumes "stack_holds (machine_stack mc) (x # xs)"
  shows "agrees mc (dataCursor mc) (FIRCLSDwarfExpressionMachineExecute_plus mc)
           (op_meaning m rg OpPlus (x # xs))"
proof -
  have "agrees mc (dataCursor mc) (FIRCLSDwarfExpressionMachineExecute_plus mc)
     (case xs of [] \<Rightarrow> Some None | y # ys \<Rightarrow> do { w \<leftarrow> sadd64 x y; pushed w ys })"
    by (rule execute_binary [OF assms])
      (use sint_bounds64 [of x] in \<open>auto simp: FIRCLSDwarfExpressionMachineExecute_plus_def
        FIRCLSDwarfExpressionMachineStackPop_def Let_def sadd64_def split: prod.splits\<close>)
  then show ?thesis by (cases xs) simp_all
qed

lemma execute_ne_agrees:
  assumes "stack_holds (machine_stack mc) (x # xs)"
  shows "agrees mc (dataCursor mc) (FIRCLSDwarfExpressionMachineExecute_ne mc)
           (op_meaning m rg OpNe (x # xs))"
proof -
  have "agrees mc (dataCursor mc) (FIRCLSDwarfExpressionMachineExecute_ne mc)
     (case xs of [] \<Rightarrow> Some None | y # ys \<Rightarrow> do { w \<leftarrow> Some (if x \<noteq> y then 1 else 0); pushed w ys })"
    by (rule execute_binary [OF assms])
      (auto simp: FIRCLSDwarfExpressionMachineExecute_ne_def FIRCLSDwarfExpressionMachineStackPop_def
        Let_def split: prod.splits)
  then show ?thesis by (cases xs) simp_all
qed

text \<open>The opcodes that replace or read the top value.\<close>

lemma execute_unary:
  assumes "stack_holds (machine_stack mc) (x # xs)"
  obtains t where "FIRCLSDwarfExpressionMachineStackPop mc = (x, mc\<lparr>machine_stack := t\<rparr>)"
    "\<And>c v. agrees mc c (Some (FIRCLSDwarfExpressionMachineStackPush
             (mc\<lparr>machine_stack := t, dataCursor := c\<rparr>) v)) (pushed v xs)"
proof -
  from expr_stack.pop_holds [OF assms] obtain t where
    t: "FIRCLSDwarfExpressionStackPop (machine_stack mc) = (x, t)" "stack_holds t xs" by blast
  show ?thesis
  proof (rule that)
    show "FIRCLSDwarfExpressionMachineStackPop mc = (x, mc\<lparr>machine_stack := t\<rparr>)"
      using t(1) by (simp add: FIRCLSDwarfExpressionMachineStackPop_def)
    show "agrees mc c (Some (FIRCLSDwarfExpressionMachineStackPush
             (mc\<lparr>machine_stack := t, dataCursor := c\<rparr>) v)) (pushed v xs)" for c v
      using t(2) by (intro agrees_push) simp_all
  qed
qed

lemma execute_deref_agrees:
  assumes "stack_holds (machine_stack mc) (x # xs)"
  shows "agrees mc (dataCursor mc) (FIRCLSDwarfExpressionMachineExecute_deref m mc)
           (op_meaning m rg OpDeref (x # xs))"
  using assms
proof (rule execute_unary)
  fix t
  assume t: "FIRCLSDwarfExpressionMachineStackPop mc = (x, mc\<lparr>machine_stack := t\<rparr>)"
    and p: "\<And>c v. agrees mc c (Some (FIRCLSDwarfExpressionMachineStackPush
             (mc\<lparr>machine_stack := t, dataCursor := c\<rparr>) v)) (pushed v xs)"
  show ?thesis
    using t p [of "dataCursor mc"]
    by (auto simp: FIRCLSDwarfExpressionMachineExecute_deref_def agrees_fail split: option.splits)
qed

lemma execute_plus_uconst_agrees:
  assumes "stack_holds (machine_stack mc) (x # xs)"
    and "bytes_at m (dataCursor mc) (uleb128 n)" "n < 2 ^ 31"
  shows "agrees mc (dataCursor mc + of_nat (length (uleb128 n)))
           (FIRCLSDwarfExpressionMachineExecute_plus_uconst m mc)
           (op_meaning m rg (OpPlusUconst n) (x # xs))"
  using assms(1)
proof (rule execute_unary)
  fix t
  assume t: "FIRCLSDwarfExpressionMachineStackPop mc = (x, mc\<lparr>machine_stack := t\<rparr>)"
    and p: "\<And>c v. agrees mc c (Some (FIRCLSDwarfExpressionMachineStackPush
             (mc\<lparr>machine_stack := t, dataCursor := c\<rparr>) v)) (pushed v xs)"
  show ?thesis
    using t p uleb128_decode [OF assms(2,3)]
    by (auto simp: FIRCLSDwarfExpressionMachineExecute_plus_uconst_def Let_def)
qed

lemma execute_dup_agrees:
  assumes "stack_holds (machine_stack mc) (x # xs)"
  shows "agrees mc (dataCursor mc) (FIRCLSDwarfExpressionMachineExecute_dup mc)
           (op_meaning m rg OpDup (x # xs))"
proof -
  have "agrees mc (dataCursor mc) (Some (FIRCLSDwarfExpressionMachineStackPush mc x)) (pushed x (x # xs))"
    using assms by (intro agrees_push) simp_all
  then show ?thesis
    using expr_stack.peek_holds [OF assms] by (simp add: FIRCLSDwarfExpressionMachineExecute_dup_def)
qed

lemma execute_litN_agrees:
  assumes "stack_holds (machine_stack mc) xs" "n < 32"
  shows "agrees mc (dataCursor mc) (FIRCLSDwarfExpressionMachineExecute_litN mc (DW_OP_lit0 + of_nat n))
           (op_meaning m rg (OpLit n) xs)"
proof -
  have "ucast (of_nat n :: byte) = (of_nat n :: u64)"
    using assms(2) by (simp add: word_unat_eq_iff unat_ucast_up unat_of_nat)
  moreover have "agrees mc (dataCursor mc)
      (Some (FIRCLSDwarfExpressionMachineStackPush mc (of_nat n))) (pushed (of_nat n) xs)"
    using assms by (intro agrees_push) simp_all
  ultimately show ?thesis by (simp add: FIRCLSDwarfExpressionMachineExecute_litN_def)
qed

lemma execute_bregN_agrees:
  assumes "stack_holds (machine_stack mc) xs" "n < 32"
    and "bytes_at m (dataCursor mc) (sleb128 i)" "- (2 ^ 27) \<le> i \<and> i < 2 ^ 31"
  shows "agrees mc (dataCursor mc + of_nat (length (sleb128 i)))
           (FIRCLSDwarfExpressionMachineExecute_bregN m mc (DW_OP_breg0 + of_nat n))
           (op_meaning m (machine_registers mc) (OpBreg n i) xs)"
proof -
  let ?c = "dataCursor mc + of_nat (length (sleb128 i))"
  have n: "ucast (of_nat n :: byte) = (of_nat n :: u64)"
    using assms(2) by (simp add: word_unat_eq_iff unat_ucast_up unat_of_nat)
  have "\<not> CLS_DWARF_MAX_REGISTER_NUM < of_nat n"
    using assms(2) by (simp add: CLS_DWARF_defs word_less_nat_alt unat_of_nat)
  moreover have "agrees mc ?c (Some (FIRCLSDwarfExpressionMachineStackPush (mc\<lparr>dataCursor := ?c\<rparr>) v))
      (pushed v xs)" for v
    using assms by (intro agrees_push) simp_all
  ultimately show ?thesis
    using leb128_decode [OF assms(3,4)] n
    by (simp add: FIRCLSDwarfExpressionMachineExecute_bregN_def Let_def)
qed

lemma execute_swap_agrees:
  assumes "stack_holds (machine_stack mc) (x # xs)"
  shows "agrees mc (dataCursor mc) (FIRCLSDwarfExpressionMachineExecute_swap mc)
           (op_meaning m rg OpSwap (x # xs))"
proof -
  from expr_stack.pop_holds [OF assms] obtain t where
    t: "FIRCLSDwarfExpressionStackPop (machine_stack mc) = (x, t)" "stack_holds t xs" by blast
  show ?thesis
  proof (cases xs)
    case Nil
    have "FIRCLSDwarfExpressionStackPop t = (0, t\<lparr>stack_pointer := None\<rparr>)"
      using t(2) Nil by (auto simp: stack_holds_def expression_stack_defs)
    then show ?thesis using t(1) Nil
      by (simp add: FIRCLSDwarfExpressionMachineExecute_swap_def machine_stack_ops agrees_def
          FIRCLSDwarfExpressionStackPush_def FIRCLSDwarfExpressionStackIsValid_def)
  next
    case (Cons y ys)
    with t(2) obtain u where u: "FIRCLSDwarfExpressionStackPop t = (y, u)" "stack_holds u ys"
      using expr_stack.pop_holds by blast
    have len: "Suc (length ys) < CLS_DWARF_EXPRESSION_STACK_SIZE"
      using expr_stack.holds_cap [OF assms] Cons by simp
    with expr_stack.push_holds [OF u(2), of x] obtain v where
      v: "FIRCLSDwarfExpressionStackPush u x = (True, v)" "stack_holds v (x # ys)" by auto
    with expr_stack.push_holds [OF v(2), of y] len obtain w where
      w: "FIRCLSDwarfExpressionStackPush v y = (True, w)" "stack_holds w (y # x # ys)" by auto
    from t(1) u(1) v(1) w(1) have
      "FIRCLSDwarfExpressionMachineExecute_swap mc = Some (True, mc\<lparr>machine_stack := w\<rparr>)"
      by (simp add: FIRCLSDwarfExpressionMachineExecute_swap_def machine_stack_ops)
    with w(2) show ?thesis by (auto simp: agrees_def Cons)
  qed
qed


text \<open>A read of \<open>n\<close> bytes at a wider type.\<close>

lemma load_then_advance:
  assumes "unat k = n"
  shows "do { t \<leftarrow> load_le n m p; q \<leftarrow> ptr_add p k; Some (t, q) } =
         map_option (\<lambda>bs. (of_nat (bytes_nat bs), p + k)) (load_bytes m p n)"
proof (cases "load_bytes m p n")
  case None
  then show ?thesis by (simp add: load_le_def)
next
  case (Some bs)
  then have "bytes_at m p bs" "length bs = n" by (simp_all add: load_bytes_iff)
  then have "unat p + unat k < 2 ^ 64" using bytes_at_end [of m p bs] assms by simp
  with Some show ?thesis by (simp add: load_le_def ptr_add_def)
qed

lemma ucast_bytes_nat:
  assumes "length bs = n" "8 * n \<le> LENGTH('a)" "LENGTH('a) \<le> LENGTH('b)"
  shows "ucast (of_nat (bytes_nat bs) :: 'a::len word) = (of_nat (bytes_nat bs) :: 'b::len word)"
proof -
  have "bytes_nat bs < 256 ^ n" using bytes_nat_less [of bs] assms(1) by simp
  also have "(256::nat) ^ n = 2 ^ (8 * n)" by (simp add: power_mult)
  also have "\<dots> \<le> 2 ^ LENGTH('a)" using assms(2) by (rule power_increasing) simp
  finally have a: "bytes_nat bs < 2 ^ LENGTH('a)" .
  also have "(2::nat) ^ LENGTH('a) \<le> 2 ^ LENGTH('b)" using assms(3) by (rule power_increasing) simp
  finally have "unat (of_nat (bytes_nat bs) :: 'b word) = bytes_nat bs"
    by (simp add: unat_of_nat)
  moreover have "unat (of_nat (bytes_nat bs) :: 'a word) = bytes_nat bs" using a
    by (simp add: unat_of_nat)
  ultimately show ?thesis using assms(3) by (simp add: word_unat_eq_iff unat_ucast_up)
qed

lemma parse_wide:
  assumes "parse = (\<lambda>m p. do { t \<leftarrow> load_le n m p; q \<leftarrow> ptr_add p k; Some (t, q) })"
    and "unat k = n" "8 * n \<le> LENGTH('a)" "LENGTH('a) \<le> 64"
  shows "do { (v, _) \<leftarrow> parse m p; f (ucast (v :: 'a::len word) :: u64) } =
         do { bs \<leftarrow> load_bytes m p n; f (of_nat (bytes_nat bs)) }"
proof (cases "load_bytes m p n")
  case None
  then show ?thesis by (simp add: assms(1) load_then_advance [OF assms(2)])
next
  case (Some bs)
  then have "ucast (of_nat (bytes_nat bs) :: 'a word) = (of_nat (bytes_nat bs) :: u64)"
    using assms(3,4) by (intro ucast_bytes_nat [of _ n]) (auto simp: load_bytes_iff)
  with Some show ?thesis by (simp add: assms(1) load_then_advance [OF assms(2)])
qed

lemma parse_uint8_load:
  "FIRCLSParseUint8AndAdvance = (\<lambda>m p. do { t \<leftarrow> load_le 1 m p; q \<leftarrow> ptr_add p 1; Some (t, q) })"
proof (intro ext)
  fix m p
  show "FIRCLSParseUint8AndAdvance m p = do { t \<leftarrow> load_le 1 m p; q \<leftarrow> ptr_add p 1; Some (t, q) }"
    by (cases "m p"; cases "ptr_add p 1")
       (simp_all add: FIRCLSParseUint8AndAdvance_def load_le_def)
qed

lemma execute_deref_size_agrees:
  assumes "stack_holds (machine_stack mc) (x # xs)"
    and "bytes_at m (dataCursor mc) [of_nat k]" "k \<in> {1, 2, 4, 8}"
  shows "agrees mc (dataCursor mc + 1) (FIRCLSDwarfExpressionMachineExecute_deref_size m mc)
           (op_meaning m rg (OpDerefSize k) (x # xs))"
  using assms(1)
proof (rule execute_unary)
  fix t
  assume t: "FIRCLSDwarfExpressionMachineStackPop mc = (x, mc\<lparr>machine_stack := t\<rparr>)"
    and p: "\<And>c v. agrees mc c (Some (FIRCLSDwarfExpressionMachineStackPush
             (mc\<lparr>machine_stack := t, dataCursor := c\<rparr>) v)) (pushed v xs)"
  let ?mc = "mc\<lparr>machine_stack := t, dataCursor := dataCursor mc + 1\<rparr>"
  let ?f = "\<lambda>v. Some (FIRCLSDwarfExpressionMachineStackPush ?mc v)"
  note wide =
    parse_wide [OF parse_uint8_load, where f = ?f]
    parse_wide [OF FIRCLSParseUint16AndAdvance_def [abs_def, THEN meta_eq_to_obj_eq], where f = ?f]
    parse_wide [OF FIRCLSParseUint32AndAdvance_def [abs_def, THEN meta_eq_to_obj_eq], where f = ?f]
    parse_wide [OF FIRCLSParseUint64AndAdvance_def [abs_def, THEN meta_eq_to_obj_eq], where f = ?f]
  have "FIRCLSDwarfExpressionMachineExecute_deref_size m mc =
        do { bs \<leftarrow> load_bytes m x k; ?f (of_nat (bytes_nat bs)) }"
    using assms(3) wide fetch_opcode [OF assms(2)] t
    by (auto simp: FIRCLSDwarfExpressionMachineExecute_deref_size_def simp del: load_bytes_numeral)
  then show ?thesis using p by (cases "load_bytes m x k") (simp_all add: agrees_def)
qed

text \<open>The opcode byte selects the operation.\<close>

lemma unat_opcode: "unat b0 + n < 256 \<Longrightarrow> unat (b0 + of_nat n :: byte) = unat b0 + n"
  by (simp add: unat_word_ariths unat_of_nat)

lemma lit_opcode:
  assumes "n < 32" "b = DW_OP_lit0 + of_nat n"
  shows "b \<noteq> DW_OP_deref" "b \<noteq> DW_OP_dup" "b \<noteq> DW_OP_and" "b \<noteq> DW_OP_plus" "b \<noteq> DW_OP_swap"
    "b \<noteq> DW_OP_plus_uconst" "b \<noteq> DW_OP_ne" "DW_OP_lit0 \<le> b" "b \<le> DW_OP_lit31"
proof -
  have "unat b = 48 + n" unfolding assms(2) using assms(1) by (subst unat_opcode) (simp_all add: DW_OP_defs)
  then show "b \<noteq> DW_OP_deref" "b \<noteq> DW_OP_dup" "b \<noteq> DW_OP_and" "b \<noteq> DW_OP_plus" "b \<noteq> DW_OP_swap"
    "b \<noteq> DW_OP_plus_uconst" "b \<noteq> DW_OP_ne" "DW_OP_lit0 \<le> b" "b \<le> DW_OP_lit31"
    using assms(1) by (auto simp: DW_OP_defs word_le_nat_alt)
qed

lemma breg_opcode:
  assumes "n < 32" "b = DW_OP_breg0 + of_nat n"
  shows "b \<noteq> DW_OP_deref" "b \<noteq> DW_OP_dup" "b \<noteq> DW_OP_and" "b \<noteq> DW_OP_plus" "b \<noteq> DW_OP_swap"
    "b \<noteq> DW_OP_plus_uconst" "b \<noteq> DW_OP_ne" "\<not> (DW_OP_lit0 \<le> b \<and> b \<le> DW_OP_lit31)"
    "DW_OP_breg0 \<le> b" "b \<le> DW_OP_breg31"
proof -
  have "unat b = 112 + n" unfolding assms(2) using assms(1) by (subst unat_opcode) (simp_all add: DW_OP_defs)
  then show "b \<noteq> DW_OP_deref" "b \<noteq> DW_OP_dup" "b \<noteq> DW_OP_and" "b \<noteq> DW_OP_plus" "b \<noteq> DW_OP_swap"
    "b \<noteq> DW_OP_plus_uconst" "b \<noteq> DW_OP_ne" "\<not> (DW_OP_lit0 \<le> b \<and> b \<le> DW_OP_lit31)"
    "DW_OP_breg0 \<le> b" "b \<le> DW_OP_breg31"
    using assms(1) by (auto simp: DW_OP_defs word_le_nat_alt)
qed

lemma agrees_cursor_irrelevant:
  "agrees (mc\<lparr>dataCursor := c'\<rparr>) c r meaning = agrees mc c r meaning"
  by (auto simp: agrees_def split: option.splits)

lemmas opcode_agrees =
  execute_deref_agrees execute_dup_agrees execute_and_agrees execute_plus_agrees execute_swap_agrees
  execute_ne_agrees

lemma ExecuteNextOpcode_agrees:
  assumes holds: "stack_holds (machine_stack mc) xs" "xs \<noteq> []"
    and at: "bytes_at m (dataCursor mc) (op_bytes op)" and ok: "op_ok op"
  shows "agrees mc (dataCursor mc + of_nat (length (op_bytes op)))
           (FIRCLSDwarfExpressionMachineExecuteNextOpcode m mc)
           (op_meaning m (machine_registers mc) op xs)"
proof -
  let ?mc = "mc\<lparr>dataCursor := dataCursor mc + 1\<rparr>"
  from holds(2) obtain x ys where xs: "xs = x # ys" by (cases xs) auto
  have h: "stack_holds (machine_stack ?mc) (x # ys)" using holds(1) xs by simp
  note next_def = FIRCLSDwarfExpressionMachineExecuteNextOpcode_def
  note fixed = opcode_agrees [OF h, unfolded agrees_cursor_irrelevant, where rg = "machine_registers mc"]
  have fetch: "FIRCLSParseUint8AndAdvance m (dataCursor mc) = Some (hd (op_bytes op), dataCursor mc + 1)"
  proof -
    have "op_bytes op = hd (op_bytes op) # tl (op_bytes op)" by (cases op) simp_all
    with at have "bytes_at m (dataCursor mc) (hd (op_bytes op) # tl (op_bytes op))" by simp
    then show ?thesis by (rule fetch_opcode)
  qed
  show ?thesis
  proof (cases op)
    case (OpPlusUconst n)
    then have "bytes_at m (dataCursor ?mc) (uleb128 n)" "n < 2 ^ 31" using at ok by simp_all
    note execute_plus_uconst_agrees [OF h this, unfolded agrees_cursor_irrelevant]
    with fetch_opcode [OF at [unfolded OpPlusUconst op_bytes.simps]] xs OpPlusUconst show ?thesis
      by (simp add: next_def DW_OP_defs add.assoc)
  next
    case (OpLit n)
    then have "n < 32" using ok by simp
    note execute_litN_agrees [OF h this, unfolded agrees_cursor_irrelevant]
    with fetch_opcode [OF at [unfolded OpLit op_bytes.simps]] xs OpLit lit_opcode [OF \<open>n < 32\<close> refl]
    show ?thesis by (simp add: next_def)
  next
    case (OpBreg n i)
    then have "n < 32" "bytes_at m (dataCursor ?mc) (sleb128 i)" "- (2 ^ 27) \<le> i \<and> i < 2 ^ 31"
      using at ok by simp_all
    note execute_bregN_agrees [OF h this, unfolded agrees_cursor_irrelevant]
    with fetch_opcode [OF at [unfolded OpBreg op_bytes.simps]] xs OpBreg breg_opcode [OF \<open>n < 32\<close> refl]
    show ?thesis by (auto simp: next_def add.assoc Let_def)
  next
    case (OpDerefSize k)
    then have "bytes_at m (dataCursor ?mc) [of_nat k]" "k \<in> {1, 2, 4, 8}" using at ok by simp_all
    note execute_deref_size_agrees [OF h this, unfolded agrees_cursor_irrelevant]
    with fetch_opcode [OF at [unfolded OpDerefSize op_bytes.simps]] xs OpDerefSize show ?thesis
      by (simp add: next_def DW_OP_defs add.assoc)
  qed (use fixed fetch xs in \<open>simp_all add: next_def DW_OP_defs\<close>)
qed

lemma op_meaning_nonempty:
  "op_meaning m r op xs = Some (Some ys) \<Longrightarrow> xs \<noteq> [] \<Longrightarrow> ys \<noteq> []"
  by (induction m r op xs rule: op_meaning.induct)
     (auto simp: pushed_def bind_eq_Some_conv split: option.splits if_splits)

lemma expr_meaning_nonempty:
  "expr_meaning m r ops xs = Some (Some ys) \<Longrightarrow> xs \<noteq> [] \<Longrightarrow> ys \<noteq> []"
  by (induction ops arbitrary: xs) (auto split: option.splits dest: op_meaning_nonempty)

lemma evaluate_loop_agrees:
  assumes "stack_holds (machine_stack mc) xs" "xs \<noteq> []"
    and "bytes_at m (dataCursor mc) (expr_bytes ops)" "\<forall>op \<in> set ops. op_ok op"
    and "endAddress mc = dataCursor mc + of_nat (length (expr_bytes ops))" "4096 \<le> dataCursor mc"
  shows "agrees mc (endAddress mc) (evaluate_loop m mc) (expr_meaning m (machine_registers mc) ops xs)"
  using assms
proof (induction ops arbitrary: mc xs)
  case Nil
  then have "FIRCLSDwarfExpressionMachineIsFinished mc"
    by (simp add: FIRCLSDwarfExpressionMachineIsFinished_def expr_bytes_def)
  then show ?case using Nil.prems
    by (auto simp: agrees_def expr_bytes_def evaluate_loop.simps [of m mc] intro!: exI [of _ "machine_stack mc"])
next
  case (Cons op ops)
  let ?r = "machine_registers mc" and ?c = "dataCursor mc + of_nat (length (op_bytes op))"
  have bytes: "expr_bytes (op # ops) = op_bytes op @ expr_bytes ops" by (simp add: expr_bytes_def)
  have at: "bytes_at m (dataCursor mc) (op_bytes op)" "bytes_at m ?c (expr_bytes ops)"
    using Cons.prems(3) by (simp_all add: bytes bytes_at_append)
  have ends: "unat (dataCursor mc) + length (op_bytes op) + length (expr_bytes ops) < 2 ^ 64"
    using bytes_at_end [OF Cons.prems(3)] by (simp add: bytes)
  have len: "0 < length (op_bytes op)" by (cases op) simp_all
  have c: "unat ?c = unat (dataCursor mc) + length (op_bytes op)"
    using ends by (simp add: unat_add_of_nat)
  have e: "unat (endAddress mc) = unat (dataCursor mc) + length (op_bytes op) + length (expr_bytes ops)"
    unfolding Cons.prems(5) bytes length_append using ends
    by (subst unat_add_of_nat) (simp_all del: of_nat_add)
  have "4096 \<le> unat (dataCursor mc)" using Cons.prems(6) by (simp add: word_le_nat_alt)
  then have "\<not> FIRCLSDwarfExpressionMachineIsFinished mc"
    using e len expr_stack.holds_valid [OF Cons.prems(1)]
    by (simp add: FIRCLSDwarfExpressionMachineIsFinished_def FIRCLSIsValidPointer_def word_le_nat_alt)
  then have loop: "evaluate_loop m mc =
      (case FIRCLSDwarfExpressionMachineExecuteNextOpcode m mc of None \<Rightarrow> None
       | Some (ok, mc') \<Rightarrow> if \<not> ok then Some (False, mc') else evaluate_loop m mc')"
    by (simp add: evaluate_loop.simps [of m mc])
  have step: "agrees mc ?c (FIRCLSDwarfExpressionMachineExecuteNextOpcode m mc) (op_meaning m ?r op xs)"
    using Cons.prems at by (intro ExecuteNextOpcode_agrees) simp_all
  show ?case
  proof (cases "\<exists>ys. op_meaning m ?r op xs = Some (Some ys)")
    case True
    then obtain ys st where ys: "op_meaning m ?r op xs = Some (Some ys)" "stack_holds st ys"
      and x: "FIRCLSDwarfExpressionMachineExecuteNextOpcode m mc =
              Some (True, mc\<lparr>dataCursor := ?c, machine_stack := st\<rparr>)"
      using step by (auto simp: agrees_def)
    let ?mc = "mc\<lparr>dataCursor := ?c, machine_stack := st\<rparr>"
    have "agrees ?mc (endAddress ?mc) (evaluate_loop m ?mc) (expr_meaning m (machine_registers ?mc) ops ys)"
      using ys at Cons.prems c op_meaning_nonempty [OF ys(1)]
      by (intro Cons.IH) (simp_all add: bytes add.assoc word_le_nat_alt)
    then show ?thesis using ys(1) x by (auto simp: loop agrees_def split: option.splits)
  next
    case False
    then show ?thesis using step by (auto simp: loop agrees_def split: option.splits)
  qed
qed

section \<open>Properties\<close>

text \<open>
  C4. The evaluator implements the specification: on the length-prefixed encoding of any
  non-empty expression built from the supported operations, \<open>FIRCLSDwarfEvalulateExpression\<close>
  returns the top of the specified stack, fails exactly when the specification fails, and its
  behaviour is undefined exactly when the specification says so.
\<close>

theorem FIRCLSDwarfEvalulateExpression_correct:
  assumes at: "bytes_at m p (uleb128 (length (expr_bytes ops)) @ expr_bytes ops)"
    and "ops \<noteq> []" "\<forall>op \<in> set ops. op_ok op" "length (expr_bytes ops) < 2 ^ 31" "4096 \<le> p"
  shows "FIRCLSDwarfEvalulateExpression m p regs init =
           (case expr_meaning m regs ops [init] of None \<Rightarrow> None | Some None \<Rightarrow> Some None
            | Some (Some ys) \<Rightarrow> Some (Some (hd ys)))"
proof -
  let ?k = "length (uleb128 (length (expr_bytes ops)))" and ?n = "length (expr_bytes ops)"
  let ?q = "p + of_nat ?k"
  have n: "0 < ?n"
    using assms(2) by (cases ops; cases "hd ops") (simp_all add: expr_bytes_def)
  have at': "bytes_at m p (uleb128 ?n)" "bytes_at m ?q (expr_bytes ops)"
    using at by (simp_all add: bytes_at_append)
  have ends: "unat p + ?k + ?n < 2 ^ 64" using bytes_at_end [OF at] by simp
  then have q: "unat ?q = unat p + ?k" by (intro unat_add_of_nat) simp
  from expr_stack.push_holds [OF stack_init_holds, of init] obtain st where
    st: "FIRCLSDwarfExpressionStackPush FIRCLSDwarfExpressionStackInit init = (True, st)"
      "stack_holds st [init]" by (auto simp: CLS_DWARF_EXPRESSION_STACK_SIZE_def)
  define mc where "mc = \<lparr>machine_stack = st, dataCursor = ?q, endAddress = ?q + of_nat ?n,
                        machine_registers = regs\<rparr>"
  have "(of_nat ?n :: u64) \<noteq> 0" "unat (of_nat ?n :: u64) = ?n"
    using n assms(4) by (simp_all add: word_unat_eq_iff unat_of_nat)
  then have start: "FIRCLSDwarfEvalulateExpression m p regs init =
      do { (ok, mc) \<leftarrow> evaluate_loop m mc;
           if \<not> ok then Some None
           else Some (fst (FIRCLSDwarfExpressionMachineGetResult mc)) }"
    using uleb128_decode [OF at'(1) assms(4)] st(1) assms(5) ends q
    by (simp add: FIRCLSDwarfEvalulateExpression_def FIRCLSDwarfExpressionMachineInit_def
        FIRCLSDwarfExpressionMachinePrepareForExecution_def zero_machine_def mc_def ptr_add_def
        FIRCLSIsValidPointer_def)
  have "agrees mc (endAddress mc) (evaluate_loop m mc) (expr_meaning m (machine_registers mc) ops [init])"
    using st(2) at' assms q by (intro evaluate_loop_agrees) (simp_all add: mc_def word_le_nat_alt)
  then have loop: "agrees mc (endAddress mc) (evaluate_loop m mc) (expr_meaning m regs ops [init])"
    by (simp add: mc_def)
  show ?thesis
  proof (cases "\<exists>ys. expr_meaning m regs ops [init] = Some (Some ys)")
    case True
    then obtain ys where ys: "expr_meaning m regs ops [init] = Some (Some ys)" by blast
    then obtain y zs where yz: "ys = y # zs" using expr_meaning_nonempty [OF ys] by (cases ys) auto
    with ys loop obtain s where s: "stack_holds s (y # zs)"
      "evaluate_loop m mc = Some (True, mc\<lparr>dataCursor := endAddress mc, machine_stack := s\<rparr>)"
      by (auto simp: agrees_def)
    then show ?thesis
      using ys yz expr_stack.peek_holds [OF s(1)] expr_stack.holds_valid [OF s(1)]
      by (simp add: start FIRCLSDwarfExpressionMachineGetResult_def)
  next
    case False
    then show ?thesis using loop by (auto simp: start agrees_def split: option.splits)
  qed
qed

text \<open>\<open>DW_OP_breg31 + 16, DW_OP_deref, DW_OP_lit2, DW_OP_plus\<close> with the stack pointer at 4096.\<close>

definition sample_expression :: "expr_op list" where
  "sample_expression = [OpBreg 31 16, OpDeref, OpLit 2, OpPlus]"

definition sample_registers :: thread_context where
  "sample_registers = \<lparr>ss_x = (\<lambda>_. 0), ss_fp = 0, ss_lr = 0, ss_sp = 4096, ss_pc = 0\<rparr>"

definition sample_memory :: memory where
  "sample_memory = mem_of 4096 [5, 0x8F, 16, 0x06, 0x32, 0x22, 0, 0, 0, 0, 0, 0, 0, 0, 0, 0,
                                40, 0, 0, 0, 0, 0, 0, 0]"

theorem FIRCLSDwarfEvalulateExpression_correct_witness:
  "FIRCLSDwarfEvalulateExpression sample_memory 4096 sample_registers 7 = Some (Some 42)"
proof -
  have bytes: "expr_bytes sample_expression = [0x8F, 16, 0x06, 0x32, 0x22]"
    by (simp add: expr_bytes_def sample_expression_def DW_OP_defs sleb128_short)
  have at: "bytes_at sample_memory 4096
      (uleb128 (length (expr_bytes sample_expression)) @ expr_bytes sample_expression)"
    unfolding bytes by (simp add: uleb128.simps sample_memory_def mem_of_def)
  have "expr_meaning sample_memory sample_registers sample_expression [7] = Some (Some [42, 7])"
    by (simp add: sample_expression_def sample_registers_def sample_memory_def mem_of_def
        CLS_DWARF_defs FIRCLSDwarfUnwindGetRegisterValue_def context_accessors CLS_PTRAUTH_STRIP_def
        read_word_def FIRCLSReadMemory_def FIRCLSIsValidPointer_def pushed_def sadd64_def ptr_add_def
        CLS_DWARF_EXPRESSION_STACK_SIZE_def)
  then show ?thesis
    using FIRCLSDwarfEvalulateExpression_correct [OF at, of sample_registers 7] bytes
    by (simp add: sample_expression_def)
qed

text \<open>
  Whatever the bytecode, the stack pointer stays NULL or within the buffer.
\<close>

definition stack_safe :: "expression_stack \<Rightarrow> bool" where
  "stack_safe st \<longleftrightarrow> length (stack_buffer st) = CLS_DWARF_EXPRESSION_STACK_SIZE \<and>
     (\<forall>i. stack_pointer st = Some i \<longrightarrow> i \<le> CLS_DWARF_EXPRESSION_STACK_SIZE)"

lemma stack_safe_ops:
  assumes "stack_safe st"
  shows "stack_safe (snd (FIRCLSDwarfExpressionStackPush st v))"
    and "stack_safe (snd (FIRCLSDwarfExpressionStackPop st))"
    and "stack_safe (snd (FIRCLSDwarfExpressionStackPeek st))"
  using assms by (auto simp: stack_safe_def expression_stack_defs Let_def split: option.splits)

lemma machine_safe_ops [simp]:
  assumes "stack_safe (machine_stack mc)"
  shows "stack_safe (machine_stack (snd (FIRCLSDwarfExpressionMachineStackPush mc v)))"
    and "stack_safe (machine_stack (snd (FIRCLSDwarfExpressionMachineStackPop mc)))"
  using assms stack_safe_ops by (simp_all add: machine_stack_ops case_prod_beta)

definition keeps_safe :: "(bool \<times> expression_machine) option \<Rightarrow> bool" where
  "keeps_safe r \<longleftrightarrow> (\<forall>ok mc. r = Some (ok, mc) \<longrightarrow> stack_safe (machine_stack mc))"

lemma keeps_safe_simps [simp]:
  "keeps_safe None" "keeps_safe (Some x) \<longleftrightarrow> stack_safe (machine_stack (snd x))"
  by (simp_all add: keeps_safe_def) (metis prod.collapse snd_conv)

lemma keeps_safe_bind [intro!]: "(\<And>v. keeps_safe (f v)) \<Longrightarrow> keeps_safe (do { v \<leftarrow> r; f v })"
  by (cases r) auto

lemma execute_safe:
  assumes "stack_safe (machine_stack mc)"
  shows "keeps_safe (FIRCLSDwarfExpressionMachineExecute_deref m mc)"
    and "keeps_safe (FIRCLSDwarfExpressionMachineExecute_dup mc)"
    and "keeps_safe (FIRCLSDwarfExpressionMachineExecute_and mc)"
    and "keeps_safe (FIRCLSDwarfExpressionMachineExecute_plus mc)"
    and "keeps_safe (FIRCLSDwarfExpressionMachineExecute_swap mc)"
    and "keeps_safe (FIRCLSDwarfExpressionMachineExecute_ne mc)"
    and "keeps_safe (FIRCLSDwarfExpressionMachineExecute_litN mc opcode)"
    and "keeps_safe (FIRCLSDwarfExpressionMachineExecute_plus_uconst m mc)"
    and "keeps_safe (FIRCLSDwarfExpressionMachineExecute_bregN m mc opcode)"
  using assms stack_safe_ops(3) [OF assms]
  by (simp_all add: execute_defs Let_def case_prod_beta keeps_safe_bind split: option.splits)

lemma execute_deref_size_safe:
  assumes "stack_safe (machine_stack mc)"
  shows "keeps_safe (FIRCLSDwarfExpressionMachineExecute_deref_size m mc)"
proof (cases "FIRCLSParseUint8AndAdvance m (dataCursor mc)")
  case None
  then show ?thesis by (simp add: execute_defs Let_def case_prod_beta)
next
  case (Some r)
  then show ?thesis using assms
    by (simp add: execute_defs Let_def case_prod_beta keeps_safe_bind)
qed

lemma ExecuteNextOpcode_safe:
  assumes "stack_safe (machine_stack mc)"
  shows "keeps_safe (FIRCLSDwarfExpressionMachineExecuteNextOpcode m mc)"
proof (cases "FIRCLSParseUint8AndAdvance m (dataCursor mc)")
  case None
  then show ?thesis by (simp add: FIRCLSDwarfExpressionMachineExecuteNextOpcode_def)
next
  case (Some r)
  then show ?thesis using assms
    by (simp add: FIRCLSDwarfExpressionMachineExecuteNextOpcode_def Let_def case_prod_beta
        execute_safe execute_deref_size_safe)
qed

text \<open>
  C5. Memory safety of the evaluator on arbitrary bytecode: from a machine whose stack is safe
  (the initial one is), however the evaluation ends, the stack pointer is NULL or within the
  100-word buffer, and the end address and the registers are the ones it started with. The
  evaluation itself always ends, since \<open>evaluate_loop\<close> is a total function.
\<close>

theorem evaluate_loop_stack_safe:
  assumes "stack_safe (machine_stack mc)" "evaluate_loop m mc = Some (ok, mc')"
  shows "stack_safe (machine_stack mc') \<and> endAddress mc' = endAddress mc \<and>
         machine_registers mc' = machine_registers mc"
  using assms
proof (induction m mc rule: evaluate_loop.induct)
  case (1 m mc)
  show ?case
  proof (cases "FIRCLSDwarfExpressionMachineIsFinished mc")
    case True
    then show ?thesis using "1.prems" by (simp add: evaluate_loop.simps [of m mc])
  next
    case False
    with "1.prems"(2) obtain ok1 mc1 where
      step: "FIRCLSDwarfExpressionMachineExecuteNextOpcode m mc = Some (ok1, mc1)"
      and rest: "(if \<not> ok1 then Some (False, mc1) else evaluate_loop m mc1) = Some (ok, mc')"
      by (auto simp: evaluate_loop.simps [of m mc] split: option.splits)
    have "stack_safe (machine_stack mc1)"
      using ExecuteNextOpcode_safe [OF "1.prems"(1), of m] step by simp
    then show ?thesis
      using "1.IH" [OF False step refl] rest ExecuteNextOpcode_progress [OF step]
      by (cases ok1) auto
  qed
qed

definition sample_machine :: "byte list \<Rightarrow> expression_machine" where
  "sample_machine code =
     \<lparr>machine_stack = FIRCLSDwarfExpressionStackInit, dataCursor = 4096,
      endAddress = 4096 + of_nat (length code), machine_registers = sample_registers\<rparr>"

theorem evaluate_loop_stack_safe_witness:
  "case evaluate_loop (mem_of 4096 [0x12]) (sample_machine [0x12]) of
     None \<Rightarrow> False | Some (ok, mc) \<Rightarrow> \<not> ok \<and> stack_safe (machine_stack mc)"
proof -
  have safe: "stack_safe (machine_stack (sample_machine [0x12]))"
    by (simp add: sample_machine_def stack_safe_def FIRCLSDwarfExpressionStackInit_def)
  have "\<exists>mc. evaluate_loop (mem_of 4096 [0x12]) (sample_machine [0x12]) = Some (False, mc)"
    by (simp add: evaluate_loop.simps sample_machine_def FIRCLSDwarfExpressionMachineIsFinished_def
        FIRCLSIsValidPointer_def FIRCLSDwarfExpressionStackInit_def expression_stack_defs
        FIRCLSDwarfExpressionMachineExecuteNextOpcode_def FIRCLSParseUint8AndAdvance_def mem_of_def
        ptr_add_def DW_OP_defs FIRCLSDwarfExpressionMachineExecute_dup_def machine_stack_ops)
  then obtain mc where
    "evaluate_loop (mem_of 4096 [0x12]) (sample_machine [0x12]) = Some (False, mc)" by blast
  with evaluate_loop_stack_safe [OF safe this] show ?thesis by simp
qed

text \<open>
  C6. The two memory reads differ on unmapped memory. With an unmapped address on top of the
  stack, \<open>DW_OP_deref\<close> reads through \<open>FIRCLSReadMemory\<close> and reports failure, while
  \<open>DW_OP_deref_size\<close> of any size reads the address directly, which is undefined: a corrupt
  expression can crash the crash handler.
\<close>

theorem deref_size_unguarded:
  assumes "stack_holds (machine_stack mc) (x # xs)" "m x = None"
    and "bytes_at m (dataCursor mc) [of_nat k]" "k \<in> {1, 2, 4, 8}"
  shows "(\<exists>mc'. FIRCLSDwarfExpressionMachineExecute_deref m mc = Some (False, mc')) \<and>
         FIRCLSDwarfExpressionMachineExecute_deref_size m mc = None"
proof -
  have "load_bytes m x 8 = None" using assms(2) by simp
  then have "read_word m x = None" by (simp add: read_word_def FIRCLSReadMemory_def)
  moreover have "load_bytes m x k = None" using assms(2,4) by (cases k) auto
  ultimately show ?thesis
    using execute_deref_agrees [OF assms(1), of m] execute_deref_size_agrees [OF assms(1,3,4)]
    by (simp add: agrees_def)
qed

theorem deref_size_unguarded_witness:
  "FIRCLSDwarfExpressionMachineExecute_deref_size (mem_of 4096 [8])
     (sample_machine [8]\<lparr>machine_stack := snd (FIRCLSDwarfExpressionStackPush
        FIRCLSDwarfExpressionStackInit 64)\<rparr>) = None"
proof -
  let ?mc = "sample_machine [8]\<lparr>machine_stack := snd (FIRCLSDwarfExpressionStackPush
        FIRCLSDwarfExpressionStackInit 64)\<rparr>"
  have "stack_holds (machine_stack ?mc) [64]"
    using expr_stack.push_holds [OF stack_init_holds, of 64]
    by (auto simp: CLS_DWARF_EXPRESSION_STACK_SIZE_def)
  from deref_size_unguarded [OF this, of "mem_of 4096 [8]" 8] show ?thesis
    by (simp add: mem_of_def sample_machine_def)
qed

end
