(* ===== verification/Dwarf_Records.thy ===== *)
theory Dwarf_Records
  imports Data_Parsing
begin

text \<open>
  The records of an \<open>__eh_frame\<close> section: the parsers of
  \<^verbatim>\<open>Crashlytics/Unwind/Dwarf/FIRCLSDwarfUnwind.c\<close> for a common information entry (CIE) and a
  frame description entry (FDE), on the structures of \<^verbatim>\<open>FIRCLSDwarfUnwind.h\<close>.

  A parser that fills structures by reference returns them; \<open>Some None\<close> is its result
  \<open>false\<close>, after which no caller reads the structures.
\<close>

section \<open>Structures\<close>

definition DWARF_CIE_ID_CIE_FLAG :: u32 where "DWARF_CIE_ID_CIE_FLAG = 0"

record dwarf_instructions =
  instr_length :: u32
  instr_data :: addr

record cie_record =
  cie_length :: u64
  cie_version :: byte
  cie_ehData :: u64
  cie_augmentation :: addr
  cie_pointerEncoding :: byte
  cie_lsdaEncoding :: byte
  cie_personalityEncoding :: byte
  cie_personalityFunction :: addr
  cie_codeAlignFactor :: u64
  cie_dataAlignFactor :: u64
  cie_returnAddressRegister :: u64
  cie_signalFrame :: bool
  cie_instructions :: dwarf_instructions

record fde_record =
  fde_length :: u64
  fde_cieOffset :: u64
  fde_startAddress :: addr
  fde_rangeSize :: u64
  fde_instructions :: dwarf_instructions

record cfi_record =
  cfi_cie :: cie_record
  cfi_fde :: fde_record

text \<open>\<open>memset\<close> to zero.\<close>

definition zero_cie :: cie_record where
  "zero_cie =
     \<lparr>cie_length = 0, cie_version = 0, cie_ehData = 0, cie_augmentation = 0,
      cie_pointerEncoding = 0, cie_lsdaEncoding = 0, cie_personalityEncoding = 0,
      cie_personalityFunction = 0, cie_codeAlignFactor = 0, cie_dataAlignFactor = 0,
      cie_returnAddressRegister = 0, cie_signalFrame = False,
      cie_instructions = \<lparr>instr_length = 0, instr_data = 0\<rparr>\<rparr>"

section \<open>The common information entry\<close>

text \<open>
  The characters of the augmentation string after the \<open>'z'\<close>: \<open>a\<close> is the address of the next
  one, the first argument the number of characters left.
\<close>

fun augmentation_loop ::
    "nat \<Rightarrow> memory \<Rightarrow> cie_record \<Rightarrow> addr \<Rightarrow> addr \<Rightarrow> addr \<Rightarrow> (cie_record \<times> addr) outcome" where
  "augmentation_loop 0 m record a ptr ending = Some (Some (record, ptr))"
| "augmentation_loop (Suc n) m record a ptr ending =
     do { c \<leftarrow> m a;
          and_then
            (if c = 0x4C then
               do { (e, ptr) \<leftarrow> FIRCLSParseUint8AndAdvance m ptr;
                    Some (Some (record\<lparr>cie_lsdaEncoding := e\<rparr>, ptr)) }
             else if c = 0x52 then
               do { (e, ptr) \<leftarrow> FIRCLSParseUint8AndAdvance m ptr;
                    Some (Some (record\<lparr>cie_pointerEncoding := e\<rparr>, ptr)) }
             else if c = 0x50 then
               do { (e, ptr) \<leftarrow> FIRCLSParseUint8AndAdvance m ptr;
                    (f, ptr) \<leftarrow> FIRCLSParseAddressWithEncodingAndAdvance m ptr e;
                    if f = CLS_INVALID_ADDRESS then Some None
                    else Some (Some (record\<lparr>cie_personalityEncoding := e,
                                            cie_personalityFunction := f\<rparr>, ptr)) }
             else if c = 0x53 then Some (Some (record\<lparr>cie_signalFrame := True\<rparr>, ptr))
             else Some None)
            (\<lambda>(record, ptr).
               if ptr > ending then Some None
               else augmentation_loop n m record (a + 1) ptr ending) }"

definition FIRCLSDwarfParseAndProcessAugmentation ::
    "memory \<Rightarrow> cie_record \<Rightarrow> addr \<Rightarrow> (cie_record \<times> addr) outcome" where
  "FIRCLSDwarfParseAndProcessAugmentation m record ptr =
     (if cie_augmentation record = 0 then Some None
      else do {
        c \<leftarrow> m (cie_augmentation record);
        if c = 0 then Some (Some (record, ptr))
        else if c \<noteq> 0x7A then Some None
        else do {
          stringLength \<leftarrow> c_strlen m (cie_augmentation record);
          (dataLength, ptr) \<leftarrow> FIRCLSParseULEB128AndAdvance m ptr;
          ending \<leftarrow> ptr_add ptr dataLength;
          augmentation_loop (stringLength - 1) m record (cie_augmentation record + 1) ptr ending } })"

text \<open>The \<open>switch\<close> on the version: how the return address register is written.\<close>

definition parse_return_register :: "memory \<Rightarrow> byte \<Rightarrow> addr \<Rightarrow> (u64 \<times> addr) outcome" where
  "parse_return_register m version ptr =
     (if version = 1 then
        map_option (\<lambda>(r, ptr). Some (ucast r, ptr)) (FIRCLSParseUint8AndAdvance m ptr)
      else if version = 3 then map_option Some (FIRCLSParseULEB128AndAdvance m ptr)
      else Some None)"

definition FIRCLSDwarfParseCIERecord :: "memory \<Rightarrow> addr \<Rightarrow> cie_record outcome" where
  "FIRCLSDwarfParseCIERecord m ptr =
     (if ptr = 0 then Some None
      else do {
        (len, ptr) \<leftarrow> FIRCLSParseRecordLengthAndAdvance m ptr;
        if len = 0 then Some None
        else do {
          endAddress \<leftarrow> ptr_add ptr len;
          (flag, ptr) \<leftarrow> FIRCLSParseUint32AndAdvance m ptr;
          (version, ptr) \<leftarrow> FIRCLSParseUint8AndAdvance m ptr;
          (augmentation, ptr) \<leftarrow> FIRCLSParseStringAndAdvance m ptr;
          (codeAlign, ptr) \<leftarrow> FIRCLSParseULEB128AndAdvance m ptr;
          (dataAlign, ptr) \<leftarrow> FIRCLSParseLEB128AndAdvance m ptr;
          and_then
            (parse_return_register m version ptr)
            (\<lambda>(returnRegister, ptr).
               and_then
                 (FIRCLSDwarfParseAndProcessAugmentation m
                    (zero_cie\<lparr>cie_length := len, cie_version := version,
                       cie_pointerEncoding := DW_EH_PE_absptr, cie_lsdaEncoding := DW_EH_PE_absptr,
                       cie_augmentation := augmentation, cie_codeAlignFactor := codeAlign,
                       cie_dataAlignFactor := dataAlign,
                       cie_returnAddressRegister := returnRegister\<rparr>) ptr)
                 (\<lambda>(cie, ptr).
                    Some (Some (cie\<lparr>cie_instructions :=
                       \<lparr>instr_length = ucast (endAddress - ptr), instr_data = ptr\<rparr>\<rparr>)))) } })"

definition FIRCLSDwarfCIEIsValid :: "cie_record \<Rightarrow> bool" where
  "FIRCLSDwarfCIEIsValid cie =
     (if cie_length cie = 0 then False
      else if cie_version cie \<noteq> 1 \<and> cie_version cie \<noteq> 3 then False
      else True)"

definition FIRCLSDwarfCIEHasAugmentationData :: "memory \<Rightarrow> cie_record \<Rightarrow> bool option" where
  "FIRCLSDwarfCIEHasAugmentationData m cie =
     (if cie_augmentation cie = 0 then Some False
      else do { c \<leftarrow> m (cie_augmentation cie); Some (c = 0x7A) })"

section \<open>The frame description entry\<close>

definition FIRCLSDwarfParseFDERecord ::
    "memory \<Rightarrow> bool \<Rightarrow> cie_record \<Rightarrow> addr \<Rightarrow> (fde_record \<times> cie_record) outcome" where
  "FIRCLSDwarfParseFDERecord m parseCIE cieRecord ptr =
     (if ptr = 0 then Some None
      else do {
        (len, ptr) \<leftarrow> FIRCLSParseRecordLengthAndAdvance m ptr;
        if len = 0 then Some None
        else do {
          endAddress \<leftarrow> ptr_add ptr len;
          (offset, ptr) \<leftarrow> FIRCLSParseUint32AndAdvance m ptr;
          let cieOffset = ucast offset in
          if cieOffset = 0 then Some None
          else and_then
            (if parseCIE
             then do { p1 \<leftarrow> ptr_sub ptr cieOffset;
                       ciePointer \<leftarrow> ptr_sub p1 4;
                       FIRCLSDwarfParseCIERecord m ciePointer }
             else Some (Some cieRecord))
            (\<lambda>cie.
               if \<not> FIRCLSDwarfCIEIsValid cie then Some None
               else do {
                 (startAddress, ptr) \<leftarrow>
                   FIRCLSParseAddressWithEncodingAndAdvance m ptr (cie_pointerEncoding cie);
                 if startAddress = CLS_INVALID_ADDRESS then Some None
                 else do {
                   (rangeSize, ptr) \<leftarrow> FIRCLSParseAddressWithEncodingAndAdvance m ptr
                     (cie_pointerEncoding cie AND DW_EH_PE_VALUE_MASK);
                   if rangeSize = CLS_INVALID_ADDRESS then Some None
                   else do {
                     hasData \<leftarrow> FIRCLSDwarfCIEHasAugmentationData m cie;
                     ptr \<leftarrow> (if hasData
                            then do { (n, ptr) \<leftarrow> FIRCLSParseULEB128AndAdvance m ptr;
                                      ptr_add ptr n }
                            else Some ptr);
                     Some (Some
                       (\<lparr>fde_length = len, fde_cieOffset = cieOffset, fde_startAddress = startAddress,
                         fde_rangeSize = rangeSize,
                         fde_instructions = \<lparr>instr_length = ucast (endAddress - ptr),
                                             instr_data = ptr\<rparr>\<rparr>, cie)) } } }) } })"

definition FIRCLSDwarfParseCFIFromFDERecord :: "memory \<Rightarrow> addr \<Rightarrow> cfi_record outcome" where
  "FIRCLSDwarfParseCFIFromFDERecord m ptr =
     (if ptr = 0 then Some None
      else and_then (FIRCLSDwarfParseFDERecord m True zero_cie ptr)
             (\<lambda>(fde, cie). Some (Some \<lparr>cfi_cie = cie, cfi_fde = fde\<rparr>)))"

definition FIRCLSDwarfParseCFIFromFDERecordOffset ::
    "memory \<Rightarrow> addr \<Rightarrow> u64 \<Rightarrow> cfi_record outcome" where
  "FIRCLSDwarfParseCFIFromFDERecordOffset m ehFrame fdeOffset =
     (if ehFrame = 0 \<or> fdeOffset = 0 then Some None
      else do { ptr \<leftarrow> ptr_add ehFrame fdeOffset;
                FIRCLSDwarfParseCFIFromFDERecord m ptr })"

section \<open>Reading back what an assembler writes\<close>

text \<open>Each reader on its own encoding followed by more bytes.\<close>

lemma read_uint8:
  assumes "bytes_at m q (b # rest)"
  shows "FIRCLSParseUint8AndAdvance m q = Some (b, q + 1)" "bytes_at m (q + 1) rest"
  using assms by (auto simp: FIRCLSParseUint8AndAdvance_def ptr_add_def)

lemma read_uint32:
  assumes "bytes_at m q (nat_bytes 4 n @ rest)"
  shows "FIRCLSParseUint32AndAdvance m q = Some (of_nat n, q + 4)" "bytes_at m (q + 4) rest"
proof -
  have at: "bytes_at m q (nat_bytes 4 n)" "bytes_at m (q + 4) rest"
    using assms by (simp_all add: bytes_at_append length_nat_bytes del: nat_bytes_numeral)
  then show "bytes_at m (q + 4) rest" by simp
  have "load_le 4 m q = Some (of_nat n :: u32)"
    using load_le_bytes [OF at(1) length_nat_bytes, where ?'a = 32] of_nat_bytes_nat [of 4 n, where ?'a = 32]
    by (simp del: nat_bytes_numeral)
  moreover have "ptr_add q 4 = Some (q + 4)"
    using bytes_at_end [OF at(1)] by (simp add: ptr_add_def length_nat_bytes)
  ultimately show "FIRCLSParseUint32AndAdvance m q = Some (of_nat n, q + 4)"
    by (simp add: FIRCLSParseUint32AndAdvance_def)
qed

lemma read_uleb128:
  assumes "bytes_at m q (uleb128 n @ rest)" "n < 2 ^ 31"
  shows "FIRCLSParseULEB128AndAdvance m q = Some (of_nat n, q + of_nat (length (uleb128 n)))"
    "bytes_at m (q + of_nat (length (uleb128 n))) rest"
  using assms uleb128_decode by (auto simp: bytes_at_append)

lemma read_sleb128:
  assumes "bytes_at m q (sleb128 i @ rest)" "- (2 ^ 27) \<le> i \<and> i < 2 ^ 31"
  shows "FIRCLSParseLEB128AndAdvance m q = Some (of_int i, q + of_nat (length (sleb128 i)))"
    "bytes_at m (q + of_nat (length (sleb128 i))) rest"
  using assms leb128_decode by (auto simp: bytes_at_append)

lemma c_strlen_at:
  "bytes_at m q (s @ 0 # rest) \<Longrightarrow> 0 \<notin> set s \<Longrightarrow> c_strlen m q = Some (length s)"
proof (induction s arbitrary: q)
  case Nil
  then show ?case by (simp add: c_strlen.simps [of m q] ptr_add_def)
next
  case (Cons c s)
  then show ?case by (simp add: c_strlen.simps [of m q] ptr_add_def)
qed

lemma read_string:
  assumes "bytes_at m q (s @ 0 # rest)" "0 \<notin> set s"
  shows "FIRCLSParseStringAndAdvance m q = Some (q, q + of_nat (length s) + 1)"
    "bytes_at m (q + of_nat (length s) + 1) rest"
proof -
  have ends: "unat q + length s + 1 < 2 ^ 64" using bytes_at_end [OF assms(1)] by simp
  then have "unat (of_nat (length s) + 1 :: u64) = length s + 1"
    using unat_add_of_nat [of 1 "length s"] by (simp add: add.commute)
  then have "ptr_add q (of_nat (length s) + 1) = Some (q + of_nat (length s) + 1)"
    using ends by (simp add: ptr_add_def add.assoc)
  then show "FIRCLSParseStringAndAdvance m q = Some (q, q + of_nat (length s) + 1)"
    using c_strlen_at [OF assms] by (simp add: FIRCLSParseStringAndAdvance_def)
  show "bytes_at m (q + of_nat (length s) + 1) rest"
    using assms(1) by (simp add: bytes_at_append)
qed

text \<open>The length field, and the pointer to the end of the record.\<close>

lemma read_record_length:
  assumes "bytes_at m q (nat_bytes 4 (length body) @ body)" "length body < 2 ^ 32 - 1"
  shows "FIRCLSParseRecordLengthAndAdvance m q = Some (of_nat (length body), q + 4)"
    "ptr_add (q + 4) (of_nat (length body)) = Some (q + 4 + of_nat (length body))"
    "bytes_at m (q + 4) body"
proof -
  note u = read_uint32 [OF assms(1)]
  have "unat (of_nat (length body) :: u32) = length body" using assms(2) by (simp add: unat_of_nat)
  then have "(of_nat (length body) :: u32) \<noteq> DWARF_EXTENDED_LENGTH_FLAG"
    and "ucast (of_nat (length body) :: u32) = (of_nat (length body) :: u64)"
    using assms(2) by (auto simp: DWARF_EXTENDED_LENGTH_FLAG_def word_unat_eq_iff unat_ucast_up unat_of_nat)
  then show "FIRCLSParseRecordLengthAndAdvance m q = Some (of_nat (length body), q + 4)"
    using u(1) by (simp add: FIRCLSParseRecordLengthAndAdvance_def)
  show "ptr_add (q + 4) (of_nat (length body)) = Some (q + 4 + of_nat (length body))"
    using bytes_at_end [OF u(2)] assms(2) by (simp add: ptr_add_def unat_of_nat)
  show "bytes_at m (q + 4) body" by (rule u(2))
qed

text \<open>
  A CIE as compilers write it: version 1 or 3, augmentation \<open>"zR"\<close> with the pointer encoding
  of its FDEs.
\<close>

definition return_register_bytes :: "byte \<Rightarrow> nat \<Rightarrow> byte list" where
  "return_register_bytes version ra = (if version = 1 then [of_nat ra] else uleb128 ra)"

definition cie_header :: "byte \<Rightarrow> nat \<Rightarrow> int \<Rightarrow> nat \<Rightarrow> byte \<Rightarrow> byte list" where
  "cie_header version codeAlign dataAlign ra encoding =
     nat_bytes 4 0 @ [version] @ [0x7A, 0x52, 0] @ uleb128 codeAlign @ sleb128 dataAlign @
     return_register_bytes version ra @ [1, encoding]"

definition cie_bytes :: "byte \<Rightarrow> nat \<Rightarrow> int \<Rightarrow> nat \<Rightarrow> byte \<Rightarrow> byte list \<Rightarrow> byte list" where
  "cie_bytes version codeAlign dataAlign ra encoding instrs =
     (let body = cie_header version codeAlign dataAlign ra encoding @ instrs in
      nat_bytes 4 (length body) @ body)"

definition cie_ok :: "byte \<Rightarrow> nat \<Rightarrow> int \<Rightarrow> nat \<Rightarrow> byte list \<Rightarrow> bool" where
  "cie_ok version codeAlign dataAlign ra instrs \<longleftrightarrow>
     (version = 1 \<and> ra < 256 \<or> version = 3 \<and> ra < 2 ^ 31) \<and> codeAlign < 2 ^ 31 \<and>
     - (2 ^ 27) \<le> dataAlign \<and> dataAlign < 2 ^ 31 \<and> length instrs < 2 ^ 31"

definition cie_of ::
    "addr \<Rightarrow> byte \<Rightarrow> nat \<Rightarrow> int \<Rightarrow> nat \<Rightarrow> byte \<Rightarrow> byte list \<Rightarrow> cie_record" where
  "cie_of p version codeAlign dataAlign ra encoding instrs =
     (let header = cie_header version codeAlign dataAlign ra encoding in
      zero_cie\<lparr>cie_length := of_nat (length header + length instrs), cie_version := version,
        cie_augmentation := p + 9, cie_pointerEncoding := encoding,
        cie_lsdaEncoding := DW_EH_PE_absptr, cie_codeAlignFactor := of_nat codeAlign,
        cie_dataAlignFactor := of_int dataAlign, cie_returnAddressRegister := of_nat ra,
        cie_instructions := \<lparr>instr_length = of_nat (length instrs),
                             instr_data = p + 4 + of_nat (length header)\<rparr>\<rparr>)"

lemma uleb128_length: "n < 128 ^ Suc j \<Longrightarrow> length (uleb128 n) \<le> Suc j"
proof (induction j arbitrary: n)
  case 0
  then show ?case by (simp add: uleb128.simps)
next
  case (Suc j)
  have "n div 128 < 128 ^ Suc j" using Suc.prems by (simp add: less_mult_imp_div_less mult.commute)
  with Suc.IH [of "n div 128"] show ?case by (simp add: uleb128.simps [of n])
qed

lemma cie_header_length:
  assumes "cie_ok version codeAlign dataAlign ra instrs"
  shows "0 < length (cie_header version codeAlign dataAlign ra encoding)"
    "length (cie_header version codeAlign dataAlign ra encoding) \<le> 25"
proof -
  have "length (uleb128 codeAlign) \<le> 5" "length (uleb128 ra) \<le> 5"
    using assms by (auto simp: cie_ok_def intro!: uleb128_length [of _ 4, simplified])
  moreover have "length (sleb128 dataAlign) \<le> 5"
    using assms by (intro sleb128_length [of 4, simplified]) (auto simp: cie_ok_def)
  ultimately show "0 < length (cie_header version codeAlign dataAlign ra encoding)"
    "length (cie_header version codeAlign dataAlign ra encoding) \<le> 25"
    by (auto simp: cie_header_def return_register_bytes_def length_nat_bytes simp del: nat_bytes_numeral)
qed


lemma read_return_register:
  assumes "bytes_at m q (return_register_bytes version ra @ rest)"
    and "version = 1 \<and> ra < 256 \<or> version = 3 \<and> ra < 2 ^ 31"
  shows "parse_return_register m version q =
         Some (Some (of_nat ra, q + of_nat (length (return_register_bytes version ra))))"
    "bytes_at m (q + of_nat (length (return_register_bytes version ra))) rest"
proof -
  show "bytes_at m (q + of_nat (length (return_register_bytes version ra))) rest"
    using assms(1) by (simp add: bytes_at_append)
  have "ucast (of_nat ra :: byte) = (of_nat ra :: u64)" if "ra < 256"
    using that by (simp add: word_unat_eq_iff unat_ucast_up unat_of_nat)
  then show "parse_return_register m version q =
         Some (Some (of_nat ra, q + of_nat (length (return_register_bytes version ra))))"
    using assms read_uleb128 [of m q ra rest] read_uint8 [of m q "of_nat ra" rest]
    by (auto simp: return_register_bytes_def parse_return_register_def)
qed

text \<open>The augmentation data \<open>[1, encoding]\<close> of a CIE whose string is \<open>"zR"\<close>.\<close>

lemma read_augmentation_zR:
  assumes at: "bytes_at m q ([1, encoding] @ rest)" and str: "bytes_at m a [0x7A, 0x52, 0]"
    and rec: "cie_augmentation record = a" "a \<noteq> 0" "q \<noteq> 0"
  shows "FIRCLSDwarfParseAndProcessAugmentation m record q =
           Some (Some (record\<lparr>cie_pointerEncoding := encoding\<rparr>, q + 2))"
proof -
  have len: "c_strlen m a = Some 2" using c_strlen_at [of m a "[0x7A, 0x52]" "[]"] str by simp
  have "bytes_at m q (uleb128 1 @ [encoding] @ rest)" using at by (simp add: uleb128.simps)
  from read_uleb128 [OF this] have u: "FIRCLSParseULEB128AndAdvance m q = Some (1, q + 1)"
    by (simp add: uleb128.simps)
  have e: "FIRCLSParseUint8AndAdvance m (q + 1) = Some (encoding, q + 2)" "ptr_add (q + 1) 1 = Some (q + 2)"
    using at by (auto simp: FIRCLSParseUint8AndAdvance_def ptr_add_def add.assoc)
  show ?thesis using len u e str rec
    by (simp add: FIRCLSDwarfParseAndProcessAugmentation_def)
qed

lemma cie_parse:
  assumes at: "bytes_at m p (cie_bytes version codeAlign dataAlign ra encoding instrs)"
    and ok: "cie_ok version codeAlign dataAlign ra instrs" and p: "p \<noteq> 0"
  shows "FIRCLSDwarfParseCIERecord m p =
           Some (Some (cie_of p version codeAlign dataAlign ra encoding instrs))"
proof -
  let ?header = "cie_header version codeAlign dataAlign ra encoding"
  let ?body = "?header @ instrs"
  have lens: "0 < length ?header" "length ?header \<le> 25" "length instrs < 2 ^ 31"
    using cie_header_length [OF ok] ok by (auto simp: cie_ok_def)
  then have len: "length ?body < 2 ^ 32 - 1" by simp
  note start = read_record_length [OF at [unfolded cie_bytes_def Let_def] len]
  note flag = read_uint32 [OF start(3) [unfolded cie_header_def append_assoc]]
  note ver = read_uint8 [OF flag(2) [unfolded append_Cons append_Nil]]
  have str_at: "bytes_at m (p + 4 + 4 + 1) ([0x7A, 0x52] @ 0 # uleb128 codeAlign @ sleb128 dataAlign @
      return_register_bytes version ra @ [1, encoding] @ instrs)" using ver(2) by simp
  have nonzero: "(0 :: byte) \<notin> set [0x7A, 0x52]" by simp
  note str = read_string [OF str_at nonzero]
  have code: "codeAlign < 2 ^ 31" and data: "- (2 ^ 27) \<le> dataAlign \<and> dataAlign < 2 ^ 31"
    and reg: "version = 1 \<and> ra < 256 \<or> version = 3 \<and> ra < 2 ^ 31"
    using ok by (auto simp: cie_ok_def)
  note code = read_uleb128 [OF str(2) code]
  note data = read_sleb128 [OF code(2) data]
  note reg = read_return_register [OF data(2) reg]
  define q where "q = p + 4 + 4 + 1 + of_nat (length [0x7A, 0x52 :: byte]) + 1 +
    of_nat (length (uleb128 codeAlign)) + of_nat (length (sleb128 dataAlign)) +
    of_nat (length (return_register_bytes version ra))"
  have hq: "q + 2 = p + 4 + of_nat (length ?header)"
    by (simp add: q_def cie_header_def length_nat_bytes del: nat_bytes_numeral)
  have ends: "unat p + 4 + length ?header + length instrs < 2 ^ 64"
    using bytes_at_end [OF at] by (simp add: cie_bytes_def length_nat_bytes del: nat_bytes_numeral)
  have hl: "length ?header = 10 + length (uleb128 codeAlign) + length (sleb128 dataAlign) +
      length (return_register_bytes version ra)"
    by (simp add: cie_header_def length_nat_bytes del: nat_bytes_numeral)
  have pos: "p + of_nat n \<noteq> 0" if "n \<le> 4 + length ?header" for n
    using unat_add_of_nat [of p n] ends that p by (auto simp: word_unat_eq_iff)
  have a0: "p + 4 + 4 + 1 \<noteq> 0" using pos [of 9] hl by (simp add: add.assoc)
  have "q = p + of_nat (12 + length (uleb128 codeAlign) + length (sleb128 dataAlign) +
      length (return_register_bytes version ra))" by (simp add: q_def algebra_simps)
  then have q0: "q \<noteq> 0" using hl by (simp only:) (rule pos, simp)
  have str_a: "bytes_at m (p + 4 + 4 + 1) [0x7A, 0x52, 0]" using str_at by simp
  note aug = read_augmentation_zR [OF reg(2) [folded q_def] str_a _ a0 q0]
  have "p + 4 + of_nat (length ?body) - (q + 2) = of_nat (length instrs)" by (simp add: hq)
  then have rest: "ucast (p + 4 + of_nat (length ?body) - (q + 2)) = (of_nat (length instrs) :: u32)"
    using lens(3) by (simp add: word_unat_eq_iff unat_of_nat unsigned_ucast_eq take_bit_nat_eq_self)
  have len0: "(of_nat (length ?body) :: u64) \<noteq> 0"
    using lens by (simp add: word_unat_eq_iff unat_of_nat del: of_nat_add)
  have end_header: "p + 4 + of_nat (length ?header) = q + 2" by (rule hq [symmetric])
  show ?thesis
    unfolding FIRCLSDwarfParseCIERecord_def cie_of_def Let_def end_header
    using p len0 rest start(1,2) flag(1) ver(1) str(1) code(1) data(1) reg(1) [folded q_def]
    by (simp add: aug zero_cie_def add.assoc add.commute [of 9] del: of_nat_add)
qed

text \<open>
  The FDE of a function, as compilers write it after its CIE: the distance cie_ptr to the CIE, the
  start address relative to its own field, the size, the length \<open>a\<close> of the augmentation data, and the payload: that data and the instructions.
\<close>

definition fde_header :: "nat \<Rightarrow> addr \<Rightarrow> addr \<Rightarrow> nat \<Rightarrow> nat \<Rightarrow> byte list" where
  "fde_header cieDistance f start extent a =
     nat_bytes 4 (cieDistance + 4) @ nat_bytes 4 (unat (start - (f + 8))) @ nat_bytes 4 extent @ [of_nat a]"

definition fde_bytes :: "nat \<Rightarrow> addr \<Rightarrow> addr \<Rightarrow> nat \<Rightarrow> nat \<Rightarrow> byte list \<Rightarrow> byte list" where
  "fde_bytes cieDistance f start extent a instrs =
     (let body = fde_header cieDistance f start extent a @ instrs in
      nat_bytes 4 (length body) @ body)"

definition fde_ok :: "nat \<Rightarrow> addr \<Rightarrow> addr \<Rightarrow> nat \<Rightarrow> nat \<Rightarrow> byte list \<Rightarrow> bool" where
  "fde_ok cieDistance f start extent a instrs \<longleftrightarrow>
     cieDistance < 2 ^ 31 \<and> a < 128 \<and> unat f + 17 + a < 2 ^ 64 \<and> start \<noteq> CLS_INVALID_ADDRESS \<and> extent < 2 ^ 31 \<and> length instrs < 2 ^ 31 \<and>
     - (2 ^ 31) \<le> sint start - sint (f + 8) \<and> sint start - sint (f + 8) < 2 ^ 31"

definition fde_of :: "nat \<Rightarrow> addr \<Rightarrow> addr \<Rightarrow> nat \<Rightarrow> nat \<Rightarrow> byte list \<Rightarrow> fde_record" where
  "fde_of cieDistance f start extent a instrs =
     \<lparr>fde_length = of_nat (13 + length instrs), fde_cieOffset = of_nat (cieDistance + 4),
      fde_startAddress = start, fde_rangeSize = of_nat extent,
      fde_instructions = \<lparr>instr_length = of_nat (length instrs) - of_nat a,
                          instr_data = f + 17 + of_nat a\<rparr>\<rparr>"

lemma sdata4_decode:
  assumes "bytes_at m p (nat_bytes 4 n)" "n < 2 ^ 31" "p \<noteq> 0"
  shows "FIRCLSParseAddressWithEncodingAndAdvance m p DW_EH_PE_sdata4 = Some (of_nat n, p + 4)"
proof -
  have "of_nat (bytes_nat (nat_bytes 4 n)) = (of_nat n :: u32)"
    by (rule of_nat_bytes_nat) simp
  moreover have "scast (of_nat n :: u32) = (of_nat n :: u64)"
    using assms(2) scast_nonneg [of "of_nat n"] by (simp add: unat_of_nat)
  ultimately show ?thesis
    using encoded_sdata4 [OF assms(1) length_nat_bytes] assms(3)
    by (simp add: FIRCLSParseAddressWithEncodingAndAdvance_def parse_encoded_value_def DW_EH_PE_defs
        del: nat_bytes_numeral)
qed

lemma ucast_diff_u32: "ucast (of_nat x - of_nat y :: u64) = (of_nat x - of_nat y :: u32)"
proof -
  have "ucast (of_int k :: u64) = (of_int k :: u32)" for k
    by (rule bit_word_eqI) (simp add: bit_simps)
  from this [of "int x - int y"] show ?thesis by simp
qed

lemma fde_parse:
  assumes fde_at: "bytes_at m f (fde_bytes cieDistance f start extent a instrs)"
    and ok: "fde_ok cieDistance f start extent a instrs"
    and dist: "unat f = unat c + cieDistance" "c \<noteq> 0"
    and cie: "FIRCLSDwarfParseCIERecord m c = Some (Some cie)" "FIRCLSDwarfCIEIsValid cie"
      "cie_pointerEncoding cie = DW_EH_PE_pcrel OR DW_EH_PE_sdata4"
      "FIRCLSDwarfCIEHasAugmentationData m cie = Some True"
  shows "FIRCLSDwarfParseFDERecord m True cie0 f =
           Some (Some (fde_of cieDistance f start extent a instrs, cie))"
proof -
  let ?body = "fde_header cieDistance f start extent a @ instrs"
  have len13: "length (fde_header cieDistance f start extent a) = 13"
    by (simp add: fde_header_def length_nat_bytes del: nat_bytes_numeral)
  then have len: "length ?body = 13 + length instrs" by simp
  then have small: "length ?body < 2 ^ 32 - 1" using ok by (simp add: fde_ok_def)
  have ends: "unat f + 17 + length instrs < 2 ^ 64"
    using bytes_at_end [OF fde_at] len by (simp add: fde_bytes_def Let_def length_nat_bytes del: nat_bytes_numeral)
  have pos: "f + of_nat n \<noteq> 0" "unat (f + of_nat n) = unat f + n" if "n \<le> 17" for n
    using unat_add_of_nat [of f n] ends that dist by (auto simp: word_unat_eq_iff)
  note start_at = read_record_length [OF fde_at [unfolded fde_bytes_def Let_def] small]
  note off = read_uint32 [OF start_at(3) [unfolded fde_header_def append_assoc]]
  have a128: "a < 128" and a_end: "unat f + 17 + a < 2 ^ 64" using ok by (simp_all add: fde_ok_def)
  from a128 have uleb128_a: "uleb128 a = [of_nat a]" by (simp add: uleb128.simps)
  have at: "bytes_at m (f + 8) (nat_bytes 4 (unat (start - (f + 8))))"
    "bytes_at m (f + 12) (nat_bytes 4 extent)" "bytes_at m (f + 16) (uleb128 a @ instrs)"
    using off(2) by (simp_all add: bytes_at_append length_nat_bytes add.commute uleb128_a
        del: nat_bytes_numeral)
  have start_addr: "FIRCLSParseAddressWithEncodingAndAdvance m (f + 8) (DW_EH_PE_pcrel OR DW_EH_PE_sdata4) =
      Some (start, f + 12)"
    using pcrel_sdata4_decode [OF at(1) _ refl] pos(1) [of 8] ok by (simp add: fde_ok_def add.commute)
  have r: "FIRCLSParseAddressWithEncodingAndAdvance m (f + 12) DW_EH_PE_sdata4 =
      Some (of_nat extent, f + 16)"
    using sdata4_decode [OF at(2)] pos(1) [of 12] ok by (simp add: fde_ok_def add.commute)
  have enc: "(DW_EH_PE_pcrel OR DW_EH_PE_sdata4) AND DW_EH_PE_VALUE_MASK = DW_EH_PE_sdata4"
    by (simp add: DW_EH_PE_defs)
  have u: "FIRCLSParseULEB128AndAdvance m (f + 16) = Some (of_nat a, f + 17)"
    using read_uleb128 [OF at(3)] a128 by (simp add: uleb128_a)
  have extent: "of_nat extent \<noteq> CLS_INVALID_ADDRESS"
    using ok by (auto simp: fde_ok_def CLS_INVALID_ADDRESS_def word_unat_eq_iff unat_of_nat)
  have offv: "ucast (of_nat (cieDistance + 4) :: u32) = (of_nat (cieDistance + 4) :: u64)"
    "(of_nat (cieDistance + 4) :: u64) \<noteq> 0"
    using ok by (simp_all add: fde_ok_def word_unat_eq_iff unat_ucast_up unat_of_nat del: of_nat_add)
  have "unat (of_nat (cieDistance + 4) :: u64) = cieDistance + 4"
    using ok by (simp add: fde_ok_def unat_of_nat del: of_nat_add)
  moreover have "unat (c + 4) = unat c + 4"
    using unat_add_of_nat [of c 4] dist(1) ends by simp
  moreover have "unat (f + 8) = unat f + 8" using pos(2) [of 8] by simp
  moreover have "f + 8 - of_nat (cieDistance + 4) = c + 4"
  proof -
    have "f = of_nat (unat f)" by simp
    also have "\<dots> = c + of_nat cieDistance" by (simp add: dist(1))
    finally show ?thesis by simp
  qed
  ultimately have cie_ptr: "ptr_sub (f + 8) (of_nat (cieDistance + 4)) = Some (c + 4)"
    "ptr_sub (c + 4) 4 = Some c"
    using dist(1) by (auto simp: ptr_sub_def word_le_nat_alt simp del: of_nat_add)
  have start0: "start \<noteq> CLS_INVALID_ADDRESS" using ok by (simp add: fde_ok_def)
  have len0: "(of_nat (length ?body) :: u64) \<noteq> 0"
    unfolding len using ok by (simp add: fde_ok_def word_unat_eq_iff unat_of_nat del: of_nat_add)
  have "f + 4 + of_nat (length ?body) - (f + 17 + of_nat a) = of_nat (length instrs) - of_nat a"
    by (simp add: len13)
  then have rest: "ucast (f + 4 + of_nat (length ?body) - (f + 17 + of_nat a)) =
      (of_nat (length instrs) - of_nat a :: u32)"
    by (simp only: ucast_diff_u32)
  have "ptr_add (f + 17) (of_nat a) = Some (f + 17 + of_nat a)"
    using pos(2) [of 17] a_end by (simp add: ptr_add_def unat_of_nat)
  moreover have "f \<noteq> 0" using pos(1) [of 0] by simp
  moreover have "FIRCLSParseUint32AndAdvance m (f + 4) = Some (of_nat (cieDistance + 4), f + 8)"
    using off(1) by (simp add: add.commute)
  moreover define e where "e = f + 4 + of_nat (length ?body)"
  moreover define n where "n = length ?body"
  ultimately show ?thesis
    unfolding FIRCLSDwarfParseFDERecord_def fde_of_def Let_def len [symmetric]
    using start_at(1,2) [folded n_def e_def] start_addr r u start0 extent offv cie_ptr
      len0 [folded n_def] rest [folded e_def] cie
    by (simp add: enc del: of_nat_add length_append)
qed
text \<open>An \<open>__eh_frame\<close> section of one CIE, version 1 or 3, and one FDE.\<close>

definition frame_bytes ::
    "addr \<Rightarrow> byte \<Rightarrow> nat \<Rightarrow> int \<Rightarrow> nat \<Rightarrow> byte list \<Rightarrow> addr \<Rightarrow> nat \<Rightarrow> nat \<Rightarrow> byte list \<Rightarrow> byte list" where
  "frame_bytes base version codeAlign dataAlign ra cieInstrs start extent a payload =
     (let cie = cie_bytes version codeAlign dataAlign ra (DW_EH_PE_pcrel OR DW_EH_PE_sdata4) cieInstrs in
      cie @ fde_bytes (length cie) (base + of_nat (length cie)) start extent a payload)"

lemma cie_of_props:
  assumes "bytes_at m p (cie_bytes version codeAlign dataAlign ra encoding instrs)"
    and "cie_ok version codeAlign dataAlign ra instrs"
  shows "FIRCLSDwarfCIEIsValid (cie_of p version codeAlign dataAlign ra encoding instrs)"
    "cie_pointerEncoding (cie_of p version codeAlign dataAlign ra encoding instrs) = encoding"
    "FIRCLSDwarfCIEHasAugmentationData m (cie_of p version codeAlign dataAlign ra encoding instrs) =
       Some True"
proof -
  let ?h = "cie_header version codeAlign dataAlign ra encoding"
  have len: "0 < length ?h" "length ?h \<le> 25" "length instrs < 2 ^ 31"
    using cie_header_length [OF assms(2)] assms(2) by (auto simp: cie_ok_def)
  then have "(of_nat (length ?h + length instrs) :: u64) \<noteq> 0"
    by (simp add: word_unat_eq_iff unat_of_nat del: of_nat_add)
  then show "FIRCLSDwarfCIEIsValid (cie_of p version codeAlign dataAlign ra encoding instrs)"
    using assms(2) by (auto simp: FIRCLSDwarfCIEIsValid_def cie_of_def cie_ok_def Let_def simp del: of_nat_add)
  show "cie_pointerEncoding (cie_of p version codeAlign dataAlign ra encoding instrs) = encoding"
    by (simp add: cie_of_def Let_def)
  have split: "cie_bytes version codeAlign dataAlign ra encoding instrs =
      (nat_bytes 4 (length (?h @ instrs)) @ nat_bytes 4 0 @ [version]) @
      0x7A # ([0x52, 0] @ uleb128 codeAlign @ sleb128 dataAlign @
      return_register_bytes version ra @ [1, encoding] @ instrs)"
    by (simp add: cie_bytes_def cie_header_def Let_def del: nat_bytes_numeral)
  have at: "m (p + 9) = Some 0x7A" "p + 9 \<noteq> 0"
  proof -
    have "bytes_at m (p + of_nat 9) (0x7A # ([0x52, 0] @ uleb128 codeAlign @ sleb128 dataAlign @
      return_register_bytes version ra @ [1, encoding] @ instrs))"
      using assms(1) unfolding split bytes_at_append by (simp add: length_nat_bytes del: nat_bytes_numeral)
    then show "m (p + 9) = Some 0x7A" by simp
    have "unat p + 9 < 2 ^ 64"
      using bytes_at_end [OF assms(1)] unfolding split by (simp add: length_nat_bytes del: nat_bytes_numeral)
    then show "p + 9 \<noteq> 0" using unat_add_of_nat [of p 9] by (auto simp: word_unat_eq_iff)
  qed
  then show "FIRCLSDwarfCIEHasAugmentationData m (cie_of p version codeAlign dataAlign ra encoding instrs) =
       Some True"
    by (simp add: FIRCLSDwarfCIEHasAugmentationData_def cie_of_def Let_def)
qed

lemma frame_parse:
  assumes at: "bytes_at m base (frame_bytes base version codeAlign dataAlign ra cieInstrs start extent a payload)"
    and base: "base \<noteq> 0"
    and cie_ok: "cie_ok version codeAlign dataAlign ra cieInstrs"
    and k: "k = length (cie_bytes version codeAlign dataAlign ra (DW_EH_PE_pcrel OR DW_EH_PE_sdata4) cieInstrs)"
    and fde_ok: "fde_ok k (base + of_nat k) start extent a payload"
  shows "FIRCLSDwarfParseCFIFromFDERecordOffset m base (of_nat k) =
    Some (Some \<lparr>cfi_cie = cie_of base version codeAlign dataAlign ra
                            (DW_EH_PE_pcrel OR DW_EH_PE_sdata4) cieInstrs,
                cfi_fde = fde_of k (base + of_nat k) start extent a payload\<rparr>)"
proof -
  let ?enc = "DW_EH_PE_pcrel OR DW_EH_PE_sdata4"
  have cie_at: "bytes_at m base (cie_bytes version codeAlign dataAlign ra ?enc cieInstrs)"
    and fde_at: "bytes_at m (base + of_nat k) (fde_bytes k (base + of_nat k) start extent a payload)"
    using at by (simp_all add: frame_bytes_def Let_def bytes_at_append k)
  have k31: "k < 2 ^ 31" "k \<noteq> 0" using fde_ok
    by (simp_all add: fde_ok_def k cie_bytes_def Let_def)
  have "unat base + k < 2 ^ 64" using bytes_at_end [OF cie_at] by (simp add: k)
  then have f: "unat (base + of_nat k) = unat base + k" "ptr_add base (of_nat k) = Some (base + of_nat k)"
    using k31 by (simp_all add: unat_add_of_nat ptr_add_def unat_of_nat)
  then have f0: "base + of_nat k \<noteq> 0" using base by (auto simp: word_unat_eq_iff)
  have k0: "(of_nat k :: u64) \<noteq> 0" using k31 by (simp add: word_unat_eq_iff unat_of_nat)
  note cie = cie_parse [OF cie_at cie_ok base] cie_of_props [OF cie_at cie_ok]
  show ?thesis
    using fde_parse [OF fde_at fde_ok f(1) base cie] f f0 k0 base
    by (simp add: FIRCLSDwarfParseCFIFromFDERecordOffset_def FIRCLSDwarfParseCFIFromFDERecord_def)
qed

text \<open>Where the instructions are.\<close>

lemma cie_instructions_at:
  assumes "bytes_at m p (cie_bytes version codeAlign dataAlign ra encoding instrs)"
  shows "bytes_at m (p + 4 + of_nat (length (cie_header version codeAlign dataAlign ra encoding))) instrs"
  using assms by (simp add: cie_bytes_def Let_def bytes_at_append length_nat_bytes del: nat_bytes_numeral)

lemma fde_payload_at:
  assumes "bytes_at m f (fde_bytes cieDistance f start extent a payload)"
  shows "bytes_at m (f + 17) payload"
proof -
  have "bytes_at m f ((nat_bytes 4 (13 + length payload) @ fde_header cieDistance f start extent a) @ payload)"
    using assms by (simp add: fde_bytes_def fde_header_def Let_def length_nat_bytes del: nat_bytes_numeral)
  then show ?thesis
    unfolding bytes_at_append
    by (simp add: length_nat_bytes fde_header_def add.assoc del: nat_bytes_numeral)
qed

text \<open>
  C7. Round trip of a call frame section: from the bytes a compiler writes for a CIE (version 1
  or 3, augmentation \<open>"zR"\<close>) followed by an FDE with a \<open>pcrel | sdata4\<close> start address,
  \<open>FIRCLSDwarfParseCFIFromFDERecordOffset\<close> at the offset of the FDE finds the CIE through the
  back distance and returns every field of both records; the instructions of the FDE are what is
  left of the payload after the \<open>a\<close> bytes of augmentation data.
\<close>

theorem FIRCLSDwarfParseCFI_roundtrip:
  assumes "bytes_at m base (frame_bytes base version codeAlign dataAlign ra cieInstrs start extent a payload)"
    and "base \<noteq> 0" "cie_ok version codeAlign dataAlign ra cieInstrs"
    and "k = length (cie_bytes version codeAlign dataAlign ra (DW_EH_PE_pcrel OR DW_EH_PE_sdata4) cieInstrs)"
    and "fde_ok k (base + of_nat k) start extent a payload" "a \<le> length payload"
  shows "\<exists>cfi. FIRCLSDwarfParseCFIFromFDERecordOffset m base (of_nat k) = Some (Some cfi) \<and>
    cfi_cie cfi = cie_of base version codeAlign dataAlign ra
                    (DW_EH_PE_pcrel OR DW_EH_PE_sdata4) cieInstrs \<and>
    fde_startAddress (cfi_fde cfi) = start \<and> fde_rangeSize (cfi_fde cfi) = of_nat extent \<and>
    unat (instr_length (fde_instructions (cfi_fde cfi))) = length (drop a payload) \<and>
    bytes_at m (instr_data (fde_instructions (cfi_fde cfi))) (drop a payload)"
proof -
  let ?f = "base + of_nat k"
  have fde_at: "bytes_at m ?f (fde_bytes k ?f start extent a payload)"
    using assms(1) by (simp add: frame_bytes_def Let_def bytes_at_append assms(4))
  have "bytes_at m (?f + 17) (take a payload @ drop a payload)"
    using fde_payload_at [OF fde_at] by simp
  then have "bytes_at m (?f + 17 + of_nat a) (drop a payload)"
    using assms(6) unfolding bytes_at_append by (simp add: min_absorb2)
  moreover have "unat (of_nat (length payload) - of_nat a :: u32) = length payload - a"
  proof -
    have "length payload - a < 2 ^ 32" using assms(5) by (auto simp: fde_ok_def)
    then show ?thesis using assms(6) by (simp add: unat_of_nat flip: of_nat_diff)
  qed
  ultimately show ?thesis
    using frame_parse [OF assms(1-5)] by (simp add: fde_of_def)
qed

theorem FIRCLSDwarfParseCFI_roundtrip_witness:
  "\<exists>cfi. FIRCLSDwarfParseCFIFromFDERecordOffset
      (mem_of 4096 (frame_bytes 4096 1 1 (- 8) 30 [0x0C, 31, 0] 8192 64 0 [0x41, 0x0E, 16])) 4096 20 =
      Some (Some cfi) \<and> fde_startAddress (cfi_fde cfi) = 8192 \<and>
      unat (instr_length (fde_instructions (cfi_fde cfi))) = 3"
proof -
  let ?bs = "frame_bytes 4096 1 1 (- 8) 30 [0x0C, 31, 0] 8192 64 0 [0x41, 0x0E, 16]"
  have k: "length (cie_bytes 1 1 (- 8) 30 (DW_EH_PE_pcrel OR DW_EH_PE_sdata4) [0x0C, 31, 0]) = 20"
    by (simp add: cie_bytes_def cie_header_def return_register_bytes_def uleb128.simps sleb128_short)
  have "length ?bs = 40"
    using k by (simp add: frame_bytes_def fde_bytes_def fde_header_def Let_def)
  then have "bytes_at (mem_of 4096 ?bs) 4096 ?bs" by (intro bytes_at_mem_of) simp
  from FIRCLSDwarfParseCFI_roundtrip [OF this, of 20] k show ?thesis
    by (auto simp: cie_ok_def fde_ok_def CLS_INVALID_ADDRESS_def)
qed

text \<open>
  The augmentation length of an FDE is not checked against the length of the entry: when it
  reaches past the end, the parse still succeeds and the instruction length, a difference of
  pointers cut to 32 bits, comes out as nearly \<open>2^32\<close>.
\<close>

theorem fde_augmentation_overrun:
  assumes "bytes_at m base (frame_bytes base version codeAlign dataAlign ra cieInstrs start extent a payload)"
    and "base \<noteq> 0" "cie_ok version codeAlign dataAlign ra cieInstrs"
    and "k = length (cie_bytes version codeAlign dataAlign ra (DW_EH_PE_pcrel OR DW_EH_PE_sdata4) cieInstrs)"
    and "fde_ok k (base + of_nat k) start extent a payload" "length payload < a"
  shows "\<exists>cfi. FIRCLSDwarfParseCFIFromFDERecordOffset m base (of_nat k) = Some (Some cfi) \<and>
    unat (instr_length (fde_instructions (cfi_fde cfi))) = 2 ^ 32 - (a - length payload)"
proof -
  let ?d = "a - length payload"
  have d: "0 < ?d" "?d \<le> 2 ^ 32" using assms(5,6) by (auto simp: fde_ok_def)
  have "(of_nat (2 ^ 32 - ?d) :: u32) = of_nat (2 ^ 32) - of_nat ?d" using d(2) by (rule of_nat_diff)
  then have "(- of_nat ?d :: u32) = of_nat (2 ^ 32 - ?d)" by simp
  moreover have "unat (of_nat (2 ^ 32 - ?d) :: u32) = 2 ^ 32 - ?d"
    unfolding unat_of_nat using d by simp
  ultimately have "unat (- of_nat ?d :: u32) = 2 ^ 32 - ?d" by simp
  then have "unat (of_nat (length payload) - of_nat a :: u32) = 2 ^ 32 - (a - length payload)"
    using assms(6) by (simp add: of_nat_diff)
  then show ?thesis
    using frame_parse [OF assms(1-5)] by (simp add: fde_of_def)
qed

theorem fde_augmentation_overrun_witness:
  "\<exists>cfi. FIRCLSDwarfParseCFIFromFDERecordOffset
      (mem_of 4096 (frame_bytes 4096 1 1 (- 8) 30 [0x0C, 31, 0] 8192 64 5 [0x41])) 4096 20 =
      Some (Some cfi) \<and> unat (instr_length (fde_instructions (cfi_fde cfi))) = 2 ^ 32 - 4"
proof -
  let ?bs = "frame_bytes 4096 1 1 (- 8) 30 [0x0C, 31, 0] 8192 64 5 [0x41]"
  have k: "length (cie_bytes 1 1 (- 8) 30 (DW_EH_PE_pcrel OR DW_EH_PE_sdata4) [0x0C, 31, 0]) = 20"
    by (simp add: cie_bytes_def cie_header_def return_register_bytes_def uleb128.simps sleb128_short)
  have "length ?bs = 38"
    using k by (simp add: frame_bytes_def fde_bytes_def fde_header_def Let_def)
  then have "bytes_at (mem_of 4096 ?bs) 4096 ?bs" by (intro bytes_at_mem_of) simp
  from fde_augmentation_overrun [OF this, of 20] k show ?thesis
    by (auto simp: cie_ok_def fde_ok_def CLS_INVALID_ADDRESS_def)
qed

end
