(* ===== verification/Dwarf_Instructions.thy ===== *)
theory Dwarf_Instructions
  imports Dwarf_Records Expression_Machine
begin

text \<open>
  The interpreter of DWARF call frame instructions and the computation of the caller's registers:
  the execution half of \<^verbatim>\<open>Crashlytics/Unwind/Dwarf/FIRCLSDwarfUnwind.c\<close>.

  An instruction works on the cursor, the state and the code offset it is given by reference and
  returns them updated. \<open>Some None\<close> is its result \<open>false\<close>, on which the interpreter returns
  \<open>false\<close> and its callers drop the state, a local variable of \<open>FIRCLSDwarfUnwindComputeRegisters\<close>.
\<close>

section \<open>The state\<close>

datatype register_location =
    FIRCLSDwarfRegisterUnused
  | FIRCLSDwarfRegisterInCFA
  | FIRCLSDwarfRegisterOffsetFromCFA
  | FIRCLSDwarfRegisterInRegister
  | FIRCLSDwarfRegisterAtExpression
  | FIRCLSDwarfRegisterIsExpression

record dwarf_register =
  reg_location :: register_location
  reg_value :: u64

record dwarf_state =
  cfaRegister :: u64
  cfaRegisterOffset :: u64
  cfaExpression :: addr
  spArgSize :: u32
  state_registers :: "dwarf_register list"

definition zero_state :: dwarf_state where
  "zero_state =
     \<lparr>cfaRegister = 0, cfaRegisterOffset = 0, cfaExpression = 0, spArgSize = 0,
      state_registers = replicate (unat CLS_DWARF_MAX_REGISTER_NUM + 1)
        \<lparr>reg_location = FIRCLSDwarfRegisterUnused, reg_value = 0\<rparr>\<rparr>"

text \<open>An assignment to an element of the array; outside it, undefined.\<close>

definition update_register ::
    "dwarf_state \<Rightarrow> u64 \<Rightarrow> (dwarf_register \<Rightarrow> dwarf_register) \<Rightarrow> dwarf_state option" where
  "update_register state n f =
     (if unat n < length (state_registers state)
      then Some (state\<lparr>state_registers := (state_registers state)
                         [unat n := f (state_registers state ! unat n)]\<rparr>)
      else None)"

section \<open>Opcodes\<close>

definition DW_CFA_OPCODE_MASK :: byte where "DW_CFA_OPCODE_MASK = 0xC0"
definition DW_CFA_OPERAND_MASK :: byte where "DW_CFA_OPERAND_MASK = 0x3F"
definition DW_CFA_nop :: byte where "DW_CFA_nop = 0x0"
definition DW_CFA_set_loc :: byte where "DW_CFA_set_loc = 0x1"
definition DW_CFA_advance_loc1 :: byte where "DW_CFA_advance_loc1 = 0x2"
definition DW_CFA_advance_loc2 :: byte where "DW_CFA_advance_loc2 = 0x3"
definition DW_CFA_advance_loc4 :: byte where "DW_CFA_advance_loc4 = 0x4"
definition DW_CFA_offset_extended :: byte where "DW_CFA_offset_extended = 0x5"
definition DW_CFA_restore_extended :: byte where "DW_CFA_restore_extended = 0x6"
definition DW_CFA_undefined :: byte where "DW_CFA_undefined = 0x7"
definition DW_CFA_same_value :: byte where "DW_CFA_same_value = 0x8"
definition DW_CFA_register :: byte where "DW_CFA_register = 0x9"
definition DW_CFA_remember_state :: byte where "DW_CFA_remember_state = 0xA"
definition DW_CFA_restore_state :: byte where "DW_CFA_restore_state = 0xB"
definition DW_CFA_def_cfa :: byte where "DW_CFA_def_cfa = 0xC"
definition DW_CFA_def_cfa_register :: byte where "DW_CFA_def_cfa_register = 0xD"
definition DW_CFA_def_cfa_offset :: byte where "DW_CFA_def_cfa_offset = 0xE"
definition DW_CFA_def_cfa_expression :: byte where "DW_CFA_def_cfa_expression = 0xF"
definition DW_CFA_expression :: byte where "DW_CFA_expression = 0x10"
definition DW_CFA_offset_extended_sf :: byte where "DW_CFA_offset_extended_sf = 0x11"
definition DW_CFA_def_cfa_sf :: byte where "DW_CFA_def_cfa_sf = 0x12"
definition DW_CFA_def_cfa_offset_sf :: byte where "DW_CFA_def_cfa_offset_sf = 0x13"
definition DW_CFA_val_offset :: byte where "DW_CFA_val_offset = 0x14"
definition DW_CFA_val_offset_sf :: byte where "DW_CFA_val_offset_sf = 0x15"
definition DW_CFA_val_expression :: byte where "DW_CFA_val_expression = 0x16"
definition DW_CFA_advance_loc :: byte where "DW_CFA_advance_loc = 0x40"
definition DW_CFA_offset :: byte where "DW_CFA_offset = 0x80"
definition DW_CFA_restore :: byte where "DW_CFA_restore = 0xC0"
definition DW_CFA_GNU_window_save :: byte where "DW_CFA_GNU_window_save = 0x2D"
definition DW_CFA_GNU_args_size :: byte where "DW_CFA_GNU_args_size = 0x2E"
definition DW_CFA_GNU_negative_offset_extended :: byte where
  "DW_CFA_GNU_negative_offset_extended = 0x2F"

lemmas DW_CFA_defs =
  DW_CFA_OPCODE_MASK_def DW_CFA_OPERAND_MASK_def DW_CFA_nop_def DW_CFA_set_loc_def
  DW_CFA_advance_loc1_def DW_CFA_advance_loc2_def DW_CFA_advance_loc4_def
  DW_CFA_offset_extended_def DW_CFA_restore_extended_def DW_CFA_undefined_def
  DW_CFA_same_value_def DW_CFA_register_def DW_CFA_remember_state_def DW_CFA_restore_state_def
  DW_CFA_def_cfa_def DW_CFA_def_cfa_register_def DW_CFA_def_cfa_offset_def
  DW_CFA_def_cfa_expression_def DW_CFA_expression_def DW_CFA_offset_extended_sf_def
  DW_CFA_def_cfa_sf_def DW_CFA_def_cfa_offset_sf_def DW_CFA_val_offset_def
  DW_CFA_val_offset_sf_def DW_CFA_val_expression_def DW_CFA_advance_loc_def DW_CFA_offset_def
  DW_CFA_restore_def DW_CFA_GNU_window_save_def DW_CFA_GNU_args_size_def
  DW_CFA_GNU_negative_offset_extended_def

section \<open>Instructions\<close>

text \<open>The instructions that move the code offset. \<open>*codeOffset += offset\<close> is a signed addition.\<close>

definition FIRCLSDwarfParseAndExecute_set_loc ::
    "memory \<Rightarrow> addr \<Rightarrow> cie_record \<Rightarrow> u64 \<Rightarrow> (addr \<times> u64) outcome" where
  "FIRCLSDwarfParseAndExecute_set_loc m cursor cieRecord codeOffset =
     do { (operand, cursor) \<leftarrow>
            FIRCLSParseAddressWithEncodingAndAdvance m cursor (cie_pointerEncoding cieRecord);
          Some (Some (cursor, operand)) }"

definition FIRCLSDwarfParseAndExecute_advance_loc1 ::
    "memory \<Rightarrow> addr \<Rightarrow> cie_record \<Rightarrow> u64 \<Rightarrow> (addr \<times> u64) outcome" where
  "FIRCLSDwarfParseAndExecute_advance_loc1 m cursor cieRecord codeOffset =
     do { (v, cursor) \<leftarrow> FIRCLSParseUint8AndAdvance m cursor;
          let offset = ucast v * cie_codeAlignFactor cieRecord in
          do { codeOffset \<leftarrow> sadd64 codeOffset offset;
               Some (Some (cursor, codeOffset)) } }"

definition FIRCLSDwarfParseAndExecute_advance_loc2 ::
    "memory \<Rightarrow> addr \<Rightarrow> cie_record \<Rightarrow> u64 \<Rightarrow> (addr \<times> u64) outcome" where
  "FIRCLSDwarfParseAndExecute_advance_loc2 m cursor cieRecord codeOffset =
     do { (v, cursor) \<leftarrow> FIRCLSParseUint16AndAdvance m cursor;
          let offset = ucast v * cie_codeAlignFactor cieRecord in
          do { codeOffset \<leftarrow> sadd64 codeOffset offset;
               Some (Some (cursor, codeOffset)) } }"

definition FIRCLSDwarfParseAndExecute_advance_loc4 ::
    "memory \<Rightarrow> addr \<Rightarrow> cie_record \<Rightarrow> u64 \<Rightarrow> (addr \<times> u64) outcome" where
  "FIRCLSDwarfParseAndExecute_advance_loc4 m cursor cieRecord codeOffset =
     do { (v, cursor) \<leftarrow> FIRCLSParseUint32AndAdvance m cursor;
          let offset = ucast v * cie_codeAlignFactor cieRecord in
          do { codeOffset \<leftarrow> sadd64 codeOffset offset;
               Some (Some (cursor, codeOffset)) } }"

text \<open>The instructions that define the canonical frame address (CFA).\<close>

definition FIRCLSDwarfParseAndExecute_def_cfa ::
    "memory \<Rightarrow> addr \<Rightarrow> dwarf_state \<Rightarrow> (addr \<times> dwarf_state) outcome" where
  "FIRCLSDwarfParseAndExecute_def_cfa m cursor state =
     do { (regNum, cursor) \<leftarrow> FIRCLSParseULEB128AndAdvance m cursor;
          if regNum > CLS_DWARF_MAX_REGISTER_NUM then Some None
          else do {
            (offset, cursor) \<leftarrow> FIRCLSParseULEB128AndAdvance m cursor;
            Some (Some (cursor, state\<lparr>cfaRegister := regNum, cfaRegisterOffset := offset\<rparr>)) } }"

definition FIRCLSDwarfParseAndExecute_def_cfa_register ::
    "memory \<Rightarrow> addr \<Rightarrow> dwarf_state \<Rightarrow> (addr \<times> dwarf_state) outcome" where
  "FIRCLSDwarfParseAndExecute_def_cfa_register m cursor state =
     do { (regNum, cursor) \<leftarrow> FIRCLSParseULEB128AndAdvance m cursor;
          if regNum > CLS_DWARF_MAX_REGISTER_NUM then Some None
          else Some (Some (cursor, state\<lparr>cfaRegister := regNum\<rparr>)) }"

definition FIRCLSDwarfParseAndExecute_def_cfa_offset ::
    "memory \<Rightarrow> addr \<Rightarrow> dwarf_state \<Rightarrow> (addr \<times> dwarf_state) outcome" where
  "FIRCLSDwarfParseAndExecute_def_cfa_offset m cursor state =
     do { (offset, cursor) \<leftarrow> FIRCLSParseULEB128AndAdvance m cursor;
          Some (Some (cursor, state\<lparr>cfaRegisterOffset := offset\<rparr>)) }"

definition FIRCLSDwarfParseAndExecute_def_cfa_expression ::
    "memory \<Rightarrow> addr \<Rightarrow> dwarf_state \<Rightarrow> (addr \<times> dwarf_state) outcome" where
  "FIRCLSDwarfParseAndExecute_def_cfa_expression m cursor state =
     (let state = state\<lparr>cfaRegister := CLS_DWARF_INVALID_REGISTER_NUM, cfaExpression := cursor\<rparr> in
      do { (len, cursor) \<leftarrow> FIRCLSParseULEB128AndAdvance m cursor;
           cursor \<leftarrow> ptr_add cursor len;
           Some (Some (cursor, state)) })"

text \<open>The instructions that say where the caller's value of a register is.\<close>

definition FIRCLSDwarfParseAndExecute_same_value ::
    "memory \<Rightarrow> addr \<Rightarrow> dwarf_state \<Rightarrow> (addr \<times> dwarf_state) outcome" where
  "FIRCLSDwarfParseAndExecute_same_value m cursor state =
     do { (regNum, cursor) \<leftarrow> FIRCLSParseULEB128AndAdvance m cursor;
          if regNum > CLS_DWARF_MAX_REGISTER_NUM then Some None
          else do {
            state \<leftarrow> update_register state regNum (reg_location_update (\<lambda>_. FIRCLSDwarfRegisterUnused));
            Some (Some (cursor, state)) } }"

definition FIRCLSDwarfParseAndExecute_register ::
    "memory \<Rightarrow> addr \<Rightarrow> dwarf_state \<Rightarrow> (addr \<times> dwarf_state) outcome" where
  "FIRCLSDwarfParseAndExecute_register m cursor state =
     do { (regNum, cursor) \<leftarrow> FIRCLSParseULEB128AndAdvance m cursor;
          if regNum > CLS_DWARF_MAX_REGISTER_NUM then Some None
          else do {
            (regValue, cursor) \<leftarrow> FIRCLSParseULEB128AndAdvance m cursor;
            if regValue > CLS_DWARF_MAX_REGISTER_NUM then Some None
            else do {
              state \<leftarrow> update_register state regNum
                (\<lambda>_. \<lparr>reg_location = FIRCLSDwarfRegisterInRegister, reg_value = regValue\<rparr>);
              Some (Some (cursor, state)) } } }"

definition FIRCLSDwarfParseAndExecute_expression ::
    "memory \<Rightarrow> addr \<Rightarrow> dwarf_state \<Rightarrow> (addr \<times> dwarf_state) outcome" where
  "FIRCLSDwarfParseAndExecute_expression m cursor state =
     do { (regNum, cursor) \<leftarrow> FIRCLSParseULEB128AndAdvance m cursor;
          if regNum > CLS_DWARF_MAX_REGISTER_NUM then Some None
          else do {
            state \<leftarrow> update_register state regNum
              (\<lambda>_. \<lparr>reg_location = FIRCLSDwarfRegisterAtExpression, reg_value = cursor\<rparr>);
            (len, cursor) \<leftarrow> FIRCLSParseULEB128AndAdvance m cursor;
            cursor \<leftarrow> ptr_add cursor len;
            Some (Some (cursor, state)) } }"

definition FIRCLSDwarfParseAndExecute_val_expression ::
    "memory \<Rightarrow> addr \<Rightarrow> dwarf_state \<Rightarrow> (addr \<times> dwarf_state) outcome" where
  "FIRCLSDwarfParseAndExecute_val_expression m cursor state =
     do { (regNum, cursor) \<leftarrow> FIRCLSParseULEB128AndAdvance m cursor;
          if regNum > CLS_DWARF_MAX_REGISTER_NUM then Some None
          else do {
            state \<leftarrow> update_register state regNum
              (\<lambda>_. \<lparr>reg_location = FIRCLSDwarfRegisterIsExpression, reg_value = cursor\<rparr>);
            (len, cursor) \<leftarrow> FIRCLSParseULEB128AndAdvance m cursor;
            cursor \<leftarrow> ptr_add cursor len;
            Some (Some (cursor, state)) } }"

text \<open>The product with the data alignment is computed in \<open>uint64_t\<close>: it wraps.\<close>

definition FIRCLSDwarfParseAndExecute_offset ::
    "memory \<Rightarrow> addr \<Rightarrow> cie_record \<Rightarrow> dwarf_state \<Rightarrow> byte \<Rightarrow> (addr \<times> dwarf_state) outcome" where
  "FIRCLSDwarfParseAndExecute_offset m cursor cieRecord state regNum =
     (if ucast regNum > CLS_DWARF_MAX_REGISTER_NUM then Some None
      else do {
        (v, cursor) \<leftarrow> FIRCLSParseULEB128AndAdvance m cursor;
        let offset = v * cie_dataAlignFactor cieRecord in
        do { state \<leftarrow> update_register state (ucast regNum)
               (\<lambda>_. \<lparr>reg_location = FIRCLSDwarfRegisterInCFA, reg_value = offset\<rparr>);
             Some (Some (cursor, state)) } })"

text \<open>The code offset is assigned, not advanced.\<close>

definition FIRCLSDwarfParseAndExecute_advance_loc ::
    "cie_record \<Rightarrow> byte \<Rightarrow> u64 \<Rightarrow> u64 outcome" where
  "FIRCLSDwarfParseAndExecute_advance_loc cieRecord delta codeOffset =
     do { codeOffset \<leftarrow> smul64 (ucast delta) (cie_codeAlignFactor cieRecord);
          Some (Some codeOffset) }"

definition FIRCLSDwarfParseAndExecuteInstructionWithOperand ::
    "memory \<Rightarrow> addr \<Rightarrow> byte \<Rightarrow> cie_record \<Rightarrow> dwarf_state \<Rightarrow> u64 \<Rightarrow> (addr \<times> dwarf_state \<times> u64) outcome"
  where
  "FIRCLSDwarfParseAndExecuteInstructionWithOperand m cursor instruction cieRecord state codeOffset =
     (let operand = instruction AND DW_CFA_OPERAND_MASK;
          opcode = instruction AND DW_CFA_OPCODE_MASK in
      if opcode = DW_CFA_offset then
        and_then (FIRCLSDwarfParseAndExecute_offset m cursor cieRecord state operand)
          (\<lambda>(cursor, state). Some (Some (cursor, state, codeOffset)))
      else if opcode = DW_CFA_advance_loc then
        and_then (FIRCLSDwarfParseAndExecute_advance_loc cieRecord operand codeOffset)
          (\<lambda>codeOffset. Some (Some (cursor, state, codeOffset)))
      else if opcode = DW_CFA_restore then Some None
      else Some None)"

section \<open>The interpreter\<close>

definition unimplemented_instruction :: "byte \<Rightarrow> bool" where
  "unimplemented_instruction instruction \<longleftrightarrow>
     instruction \<in> {DW_CFA_offset_extended, DW_CFA_restore_extended, DW_CFA_undefined,
       DW_CFA_remember_state, DW_CFA_restore_state, DW_CFA_offset_extended_sf, DW_CFA_def_cfa_sf,
       DW_CFA_def_cfa_offset_sf, DW_CFA_val_offset, DW_CFA_val_offset_sf, DW_CFA_GNU_window_save,
       DW_CFA_GNU_args_size, DW_CFA_GNU_negative_offset_extended}"

text \<open>The body of the loop: one instruction.\<close>

definition execute_instruction ::
    "memory \<Rightarrow> cie_record \<Rightarrow> addr \<Rightarrow> dwarf_state \<Rightarrow> u64 \<Rightarrow> (addr \<times> dwarf_state \<times> u64) outcome" where
  "execute_instruction m cie cursor state codeOffset =
     do { (instruction, cursor) \<leftarrow> FIRCLSParseUint8AndAdvance m cursor;
          let moves = (\<lambda>r. and_then r (\<lambda>(cursor, codeOffset). Some (Some (cursor, state, codeOffset))));
              changes = (\<lambda>r. and_then r (\<lambda>(cursor, state). Some (Some (cursor, state, codeOffset)))) in
          if instruction = DW_CFA_nop then Some (Some (cursor, state, codeOffset))
          else if instruction = DW_CFA_set_loc then
            moves (FIRCLSDwarfParseAndExecute_set_loc m cursor cie codeOffset)
          else if instruction = DW_CFA_advance_loc1 then
            moves (FIRCLSDwarfParseAndExecute_advance_loc1 m cursor cie codeOffset)
          else if instruction = DW_CFA_advance_loc2 then
            moves (FIRCLSDwarfParseAndExecute_advance_loc2 m cursor cie codeOffset)
          else if instruction = DW_CFA_advance_loc4 then
            moves (FIRCLSDwarfParseAndExecute_advance_loc4 m cursor cie codeOffset)
          else if instruction = DW_CFA_def_cfa then
            changes (FIRCLSDwarfParseAndExecute_def_cfa m cursor state)
          else if instruction = DW_CFA_def_cfa_register then
            changes (FIRCLSDwarfParseAndExecute_def_cfa_register m cursor state)
          else if instruction = DW_CFA_def_cfa_offset then
            changes (FIRCLSDwarfParseAndExecute_def_cfa_offset m cursor state)
          else if instruction = DW_CFA_same_value then
            changes (FIRCLSDwarfParseAndExecute_same_value m cursor state)
          else if instruction = DW_CFA_register then
            changes (FIRCLSDwarfParseAndExecute_register m cursor state)
          else if instruction = DW_CFA_def_cfa_expression then
            changes (FIRCLSDwarfParseAndExecute_def_cfa_expression m cursor state)
          else if instruction = DW_CFA_expression then
            changes (FIRCLSDwarfParseAndExecute_expression m cursor state)
          else if instruction = DW_CFA_val_expression then
            changes (FIRCLSDwarfParseAndExecute_val_expression m cursor state)
          else if unimplemented_instruction instruction then Some None
          else FIRCLSDwarfParseAndExecuteInstructionWithOperand m cursor instruction cie state
                 codeOffset }"

section \<open>Every instruction moves the cursor forward\<close>

lemma encoded_value_advances:
  "parse_encoded_value m p e = Some (Some (v, q)) \<Longrightarrow> unat p \<le> unat q"
  unfolding parse_encoded_value_def Let_def
  by (auto split: if_splits
      dest!: uint16.advances_le int16.advances_le uint32.advances_le int32.advances_le
        uint64.advances_le int64.advances_le pointer.advances_le uleb128.advances_le
        leb128.advances_le)

lemma encoded_address_advances:
  assumes "FIRCLSParseAddressWithEncodingAndAdvance m p e = Some (a, q)"
  shows "unat p \<le> unat q"
proof (cases "e = DW_EH_PE_omit \<or> p = 0")
  case True
  then show ?thesis
    using assms by (auto simp: FIRCLSParseAddressWithEncodingAndAdvance_def split: if_splits)
next
  case False
  then obtain r where r: "parse_encoded_value m p e = Some r"
    using assms by (auto simp: FIRCLSParseAddressWithEncodingAndAdvance_def bind_eq_Some_conv)
  show ?thesis
  proof (cases r)
    case None
    then show ?thesis using assms r False
      by (simp add: FIRCLSParseAddressWithEncodingAndAdvance_def)
  next
    case (Some vq)
    obtain v q' where vq: "vq = (v, q')" by (cases vq)
    have "unat p \<le> unat q'" using r Some vq by (intro encoded_value_advances [of m p e v]) simp
    moreover have "q = q'" using assms r False Some vq
      by (auto simp: FIRCLSParseAddressWithEncodingAndAdvance_def bind_eq_Some_conv Let_def
          split: if_splits)
    ultimately show ?thesis by simp
  qed
qed

text \<open>\<open>forward p r\<close>: the cursor in the result \<open>r\<close> is not before \<open>p\<close>.\<close>

definition forward :: "addr \<Rightarrow> (addr \<times> 'a) outcome \<Rightarrow> bool" where
  "forward p r \<longleftrightarrow> (\<forall>q x. r = Some (Some (q, x)) \<longrightarrow> unat p \<le> unat q)"

lemma forward_simps [simp]:
  "forward p None" "forward p (Some None)"
  "forward p (Some (Some (q, x))) \<longleftrightarrow> unat p \<le> unat q"
  by (auto simp: forward_def)

lemma forward_bind:
  assumes "\<And>v. r = Some v \<Longrightarrow> forward p (f v)"
  shows "forward p (do { v \<leftarrow> r; f v })"
  using assms by (cases r) auto

lemma forward_read:
  assumes "\<And>v q. r = Some (v, q) \<Longrightarrow> unat p \<le> unat q"
    and "\<And>v q. unat p \<le> unat q \<Longrightarrow> forward p (f v q)"
  shows "forward p (do { (v, q) \<leftarrow> r; f v q })"
  using assms by (cases r) auto

lemma forward_then:
  assumes "forward p r" "\<And>q x. unat p \<le> unat q \<Longrightarrow> forward p (f (q, x))"
  shows "forward p (and_then r f)"
proof (cases "\<exists>q x. r = Some (Some (q, x))")
  case True
  then obtain q x where r: "r = Some (Some (q, x))" by blast
  then have "unat p \<le> unat q" using assms(1) by simp
  with assms(2) r show ?thesis by simp
next
  case False
  then have "r = None \<or> r = Some None" by (metis option.exhaust surj_pair)
  then show ?thesis by auto
qed

lemma forward_if: "(b \<Longrightarrow> forward p x) \<Longrightarrow> (\<not> b \<Longrightarrow> forward p y) \<Longrightarrow> forward p (if b then x else y)"
  by simp

lemma forward_update:
  "(\<And>st'. forward p (f st')) \<Longrightarrow> forward p (do { st' \<leftarrow> update_register st n g; f st' })"
  by (cases "update_register st n g") auto

lemma forward_ptr_add:
  assumes "unat p \<le> unat c" "\<And>q. unat p \<le> unat q \<Longrightarrow> forward p (f q)"
  shows "forward p (do { q \<leftarrow> ptr_add c n; f q })"
  using assms by (cases "ptr_add c n") (auto dest: ptr_add_unat)

lemmas instruction_defs =
  FIRCLSDwarfParseAndExecute_set_loc_def FIRCLSDwarfParseAndExecute_advance_loc1_def
  FIRCLSDwarfParseAndExecute_advance_loc2_def FIRCLSDwarfParseAndExecute_advance_loc4_def
  FIRCLSDwarfParseAndExecute_def_cfa_def FIRCLSDwarfParseAndExecute_def_cfa_register_def
  FIRCLSDwarfParseAndExecute_def_cfa_offset_def FIRCLSDwarfParseAndExecute_def_cfa_expression_def
  FIRCLSDwarfParseAndExecute_same_value_def FIRCLSDwarfParseAndExecute_register_def
  FIRCLSDwarfParseAndExecute_expression_def FIRCLSDwarfParseAndExecute_val_expression_def
  FIRCLSDwarfParseAndExecute_offset_def FIRCLSDwarfParseAndExecute_advance_loc_def

lemmas readers_advance =
  uint8.advances_le uint16.advances_le uint32.advances_le uleb128.advances_le encoded_address_advances

lemma forward_moves:
  "forward p (FIRCLSDwarfParseAndExecute_set_loc m p cie off)"
  "forward p (FIRCLSDwarfParseAndExecute_advance_loc1 m p cie off)"
  "forward p (FIRCLSDwarfParseAndExecute_advance_loc2 m p cie off)"
  "forward p (FIRCLSDwarfParseAndExecute_advance_loc4 m p cie off)"
  by (auto simp: instruction_defs Let_def intro!: forward_bind forward_read dest: readers_advance)

lemma forward_uleb128:
  assumes "unat p \<le> unat c" "\<And>v q. unat p \<le> unat q \<Longrightarrow> forward p (f v q)"
  shows "forward p (do { (v, q) \<leftarrow> FIRCLSParseULEB128AndAdvance m c; f v q })"
  using assms by (cases "FIRCLSParseULEB128AndAdvance m c") (auto dest!: uleb128.advances_le)

lemma forward_changes:
  "forward p (FIRCLSDwarfParseAndExecute_def_cfa m p st)"
  "forward p (FIRCLSDwarfParseAndExecute_def_cfa_register m p st)"
  "forward p (FIRCLSDwarfParseAndExecute_def_cfa_offset m p st)"
  "forward p (FIRCLSDwarfParseAndExecute_def_cfa_expression m p st)"
  "forward p (FIRCLSDwarfParseAndExecute_same_value m p st)"
  "forward p (FIRCLSDwarfParseAndExecute_register m p st)"
  "forward p (FIRCLSDwarfParseAndExecute_expression m p st)"
  "forward p (FIRCLSDwarfParseAndExecute_val_expression m p st)"
  "forward p (FIRCLSDwarfParseAndExecute_offset m p cie st r)"
  unfolding instruction_defs Let_def
  by (intro forward_uleb128 forward_ptr_add forward_if forward_update | simp)+

lemma forward_operand:
  "forward p (FIRCLSDwarfParseAndExecuteInstructionWithOperand m p i cie st off)"
  unfolding FIRCLSDwarfParseAndExecuteInstructionWithOperand_def Let_def
  by (intro forward_if forward_then forward_changes; simp)
     (auto simp: and_then_def split: option.splits)

lemma execute_instruction_advances:
  assumes "execute_instruction m cie p st off = Some (Some (q, st', off'))"
  shows "unat p < unat q"
proof -
  obtain i c where i: "FIRCLSParseUint8AndAdvance m p = Some (i, c)"
    using assms by (auto simp: execute_instruction_def bind_eq_Some_conv)
  have "forward c (execute_instruction m cie p st off)"
    unfolding execute_instruction_def i Let_def
    by (simp only: bind.simps prod.case)
       (intro forward_if forward_then forward_moves forward_changes forward_operand; simp)
  then have "unat c \<le> unat q" using assms by simp
  then show ?thesis using uint8.advances [OF i] by simp
qed

section \<open>The loop of the interpreter\<close>

text \<open>
  It ends because every instruction moves the cursor forward in a bounded address space. The code
  offset and the offset of the program counter are compared as signed values.
\<close>

function enumerate_loop ::
    "memory \<Rightarrow> cie_record \<Rightarrow> addr \<Rightarrow> u64 \<Rightarrow> addr \<Rightarrow> dwarf_state \<Rightarrow> u64 \<Rightarrow> dwarf_state outcome" where
  "enumerate_loop m cie ending pcOffset cursor state codeOffset =
     (if cursor < ending \<and> sint codeOffset < sint pcOffset
      then (case execute_instruction m cie cursor state codeOffset of
              None \<Rightarrow> None
            | Some None \<Rightarrow> Some None
            | Some (Some (cursor', state', codeOffset')) \<Rightarrow>
                enumerate_loop m cie ending pcOffset cursor' state' codeOffset')
      else Some (Some state))"
  by pat_completeness auto
termination
proof (relation "measure (\<lambda>(m, cie, e, pc, cursor, st, off). 2 ^ 64 - unat cursor)")
  fix m :: memory and cie e and pcOffset :: u64 and cursor st off x x2 c' y st' off'
  assume "execute_instruction m cie cursor st off = Some x" "x = Some x2" "(c', y) = x2"
    "(st', off') = y"
  then have "unat cursor < unat c'" by (auto intro: execute_instruction_advances)
  moreover have "unat c' < 2 ^ 64" using unsigned_less [of c'] by simp
  ultimately show "((m, cie, e, pcOffset, c', st', off'), (m, cie, e, pcOffset, cursor, st, off))
    \<in> measure (\<lambda>(m, cie, e, pc, cursor, st, off). 2 ^ 64 - unat cursor)" by simp
qed simp

declare enumerate_loop.simps [simp del]

definition FIRCLSDwarfInstructionsEnumerate ::
    "memory \<Rightarrow> dwarf_instructions \<Rightarrow> cie_record \<Rightarrow> dwarf_state \<Rightarrow> u64 \<Rightarrow> dwarf_state outcome" where
  "FIRCLSDwarfInstructionsEnumerate m instructions cieRecord state pcOffset =
     do { ending \<leftarrow> ptr_add (instr_data instructions) (ucast (instr_length instructions));
          enumerate_loop m cieRecord ending pcOffset (instr_data instructions) state 0 }"

section \<open>The caller's registers\<close>

definition INTPTR_MAX :: u64 where "INTPTR_MAX = 0x7FFFFFFFFFFFFFFF"

definition FIRCLSDwarfCompareRegisters :: "thread_context \<Rightarrow> thread_context \<Rightarrow> u64 \<Rightarrow> bool" where
  "FIRCLSDwarfCompareRegisters a b registerNum \<longleftrightarrow>
     FIRCLSDwarfUnwindGetRegisterValue a registerNum = FIRCLSDwarfUnwindGetRegisterValue b registerNum"

definition FIRCLSDwarfGetCFA :: "memory \<Rightarrow> dwarf_state \<Rightarrow> thread_context \<Rightarrow> u64 outcome" where
  "FIRCLSDwarfGetCFA m state registers =
     (if cfaExpression state \<noteq> 0
      then FIRCLSDwarfEvalulateExpression m (cfaExpression state) registers 0
      else Some (Some (FIRCLSDwarfUnwindGetRegisterValue registers (cfaRegister state)
                       + cfaRegisterOffset state)))"

text \<open>A failure to read or to evaluate gives the value 0.\<close>

definition FIRCLSDwarfGetSavedRegister ::
    "memory \<Rightarrow> thread_context \<Rightarrow> u64 \<Rightarrow> dwarf_register \<Rightarrow> u64 option" where
  "FIRCLSDwarfGetSavedRegister m registers cfa dRegister =
     (case reg_location dRegister of
        FIRCLSDwarfRegisterInCFA \<Rightarrow>
          (case read_word m (cfa + reg_value dRegister) of None \<Rightarrow> Some 0 | Some v \<Rightarrow> Some v)
      | FIRCLSDwarfRegisterInRegister \<Rightarrow>
          Some (FIRCLSDwarfUnwindGetRegisterValue registers (reg_value dRegister))
      | FIRCLSDwarfRegisterOffsetFromCFA \<Rightarrow> Some 0
      | FIRCLSDwarfRegisterAtExpression \<Rightarrow>
          do { r \<leftarrow> FIRCLSDwarfEvalulateExpression m (reg_value dRegister) registers cfa;
               case r of None \<Rightarrow> Some 0
               | Some a \<Rightarrow> (case read_word m a of None \<Rightarrow> Some 0 | Some v \<Rightarrow> Some v) }
      | FIRCLSDwarfRegisterIsExpression \<Rightarrow>
          do { r \<leftarrow> FIRCLSDwarfEvalulateExpression m (reg_value dRegister) registers cfa;
               case r of None \<Rightarrow> Some 0 | Some v \<Rightarrow> Some v }
      | FIRCLSDwarfRegisterUnused \<Rightarrow> Some 0)"

text \<open>The loop over the registers \<open>0 .. CLS_DWARF_MAX_REGISTER_NUM\<close>, on the copy \<open>r\<close>.\<close>

fun assign_loop ::
    "memory \<Rightarrow> dwarf_state \<Rightarrow> thread_context \<Rightarrow> u64 \<Rightarrow> nat list \<Rightarrow> thread_context \<Rightarrow>
     thread_context outcome" where
  "assign_loop m state registers cfa [] r = Some (Some r)"
| "assign_loop m state registers cfa (i # is) r =
     (if length (state_registers state) \<le> i then None
      else if reg_location (state_registers state ! i) = FIRCLSDwarfRegisterUnused
      then assign_loop m state registers cfa is r
      else do {
        value \<leftarrow> FIRCLSDwarfGetSavedRegister m registers cfa (state_registers state ! i);
        let (ok, r) = FIRCLSDwarfUnwindSetRegisterValue r (of_nat i) value in
        if \<not> ok then Some None else assign_loop m state registers cfa is r })"

definition FIRCLSDwarfUnwindAssignRegisters ::
    "memory \<Rightarrow> dwarf_state \<Rightarrow> thread_context \<Rightarrow> u64 \<Rightarrow> thread_context outcome" where
  "FIRCLSDwarfUnwindAssignRegisters m state registers cfa =
     and_then
       (assign_loop m state registers cfa [0..<Suc (unat CLS_DWARF_MAX_REGISTER_NUM)] registers)
       (\<lambda>r. let (ok, r) = FIRCLSDwarfUnwindSetRegisterValue r CLS_DWARF_REG_SP cfa in
            if \<not> ok then Some None
            else if FIRCLSDwarfCompareRegisters registers r CLS_DWARF_REG_SP then Some None
            else if FIRCLSDwarfCompareRegisters registers r CLS_DWARF_REG_RETURN then Some None
            else Some (Some r))"

text \<open>The new registers; on a failure the registers passed in are left as they are.\<close>

definition FIRCLSDwarfUnwindComputeRegisters ::
    "memory \<Rightarrow> cfi_record \<Rightarrow> thread_context \<Rightarrow> thread_context outcome" where
  "FIRCLSDwarfUnwindComputeRegisters m cfi registers =
     and_then
       (FIRCLSDwarfInstructionsEnumerate m (cie_instructions (cfi_cie cfi)) (cfi_cie cfi) zero_state
          INTPTR_MAX)
       (\<lambda>state.
          let pcOffset = FIRCLSThreadContextGetPC registers - fde_startAddress (cfi_fde cfi) in
          if sint pcOffset < 0 then Some None
          else and_then
            (FIRCLSDwarfInstructionsEnumerate m (fde_instructions (cfi_fde cfi)) (cfi_cie cfi) state
               pcOffset)
            (\<lambda>state.
               and_then (FIRCLSDwarfGetCFA m state registers)
                 (\<lambda>cfa. FIRCLSDwarfUnwindAssignRegisters m state registers cfa)))"

section \<open>Call frame programs\<close>

text \<open>
  The specification: the instructions the interpreter implements, their encoding, and their
  meaning in the DWARF standard (version 4, section 6.4.2): all four advance instructions add to
  the location, and \<open>DW_CFA_def_cfa\<close> replaces the rule for the CFA, whatever it was. The meaning of
  an instruction that names a register above 31 is a failure. \<open>p\<close> is the address of the
  instruction, from which the address of an expression follows.
\<close>

datatype cfi_instr =
    CfiNop
  | CfiAdvanceLoc nat | CfiAdvanceLoc1 nat | CfiAdvanceLoc2 nat | CfiAdvanceLoc4 nat
  | CfiDefCfa nat nat | CfiDefCfaRegister nat | CfiDefCfaOffset nat
  | CfiDefCfaExpression "byte list"
  | CfiSameValue nat | CfiRegister nat nat | CfiOffset nat nat
  | CfiExpression nat "byte list" | CfiValExpression nat "byte list"

definition block_bytes :: "byte list \<Rightarrow> byte list" where
  "block_bytes code = uleb128 (length code) @ code"

fun cfi_bytes :: "cfi_instr \<Rightarrow> byte list" where
  "cfi_bytes CfiNop = [DW_CFA_nop]"
| "cfi_bytes (CfiAdvanceLoc d) = [DW_CFA_advance_loc + of_nat d]"
| "cfi_bytes (CfiAdvanceLoc1 d) = [DW_CFA_advance_loc1, of_nat d]"
| "cfi_bytes (CfiAdvanceLoc2 d) = DW_CFA_advance_loc2 # nat_bytes 2 d"
| "cfi_bytes (CfiAdvanceLoc4 d) = DW_CFA_advance_loc4 # nat_bytes 4 d"
| "cfi_bytes (CfiDefCfa r n) = DW_CFA_def_cfa # uleb128 r @ uleb128 n"
| "cfi_bytes (CfiDefCfaRegister r) = DW_CFA_def_cfa_register # uleb128 r"
| "cfi_bytes (CfiDefCfaOffset n) = DW_CFA_def_cfa_offset # uleb128 n"
| "cfi_bytes (CfiDefCfaExpression code) = DW_CFA_def_cfa_expression # block_bytes code"
| "cfi_bytes (CfiSameValue r) = DW_CFA_same_value # uleb128 r"
| "cfi_bytes (CfiRegister r s) = DW_CFA_register # uleb128 r @ uleb128 s"
| "cfi_bytes (CfiOffset r n) = (DW_CFA_offset + of_nat r) # uleb128 n"
| "cfi_bytes (CfiExpression r code) = DW_CFA_expression # uleb128 r @ block_bytes code"
| "cfi_bytes (CfiValExpression r code) = DW_CFA_val_expression # uleb128 r @ block_bytes code"

fun cfi_ok :: "cfi_instr \<Rightarrow> bool" where
  "cfi_ok CfiNop = True"
| "cfi_ok (CfiAdvanceLoc d) = (d < 64)"
| "cfi_ok (CfiAdvanceLoc1 d) = (d < 256)"
| "cfi_ok (CfiAdvanceLoc2 d) = (d < 2 ^ 16)"
| "cfi_ok (CfiAdvanceLoc4 d) = (d < 2 ^ 32)"
| "cfi_ok (CfiDefCfa r n) = (r < 2 ^ 31 \<and> n < 2 ^ 31)"
| "cfi_ok (CfiDefCfaRegister r) = (r < 2 ^ 31)"
| "cfi_ok (CfiDefCfaOffset n) = (n < 2 ^ 31)"
| "cfi_ok (CfiDefCfaExpression code) = (length code < 2 ^ 31)"
| "cfi_ok (CfiSameValue r) = (r < 2 ^ 31)"
| "cfi_ok (CfiRegister r s) = (r < 2 ^ 31 \<and> s < 2 ^ 31)"
| "cfi_ok (CfiOffset r n) = (r < 64 \<and> n < 2 ^ 31)"
| "cfi_ok (CfiExpression r code) = (r < 2 ^ 31 \<and> length code < 2 ^ 31)"
| "cfi_ok (CfiValExpression r code) = (r < 2 ^ 31 \<and> length code < 2 ^ 31)"

definition set_rule :: "nat \<Rightarrow> dwarf_register \<Rightarrow> dwarf_state \<Rightarrow> dwarf_state" where
  "set_rule r rule st = st\<lparr>state_registers := (state_registers st)[r := rule]\<rparr>"

definition advanced :: "cie_record \<Rightarrow> nat \<Rightarrow> dwarf_state \<Rightarrow> u64 \<Rightarrow> (dwarf_state \<times> u64) outcome" where
  "advanced cie d st loc =
     do { loc' \<leftarrow> sadd64 loc (of_nat d * cie_codeAlignFactor cie); Some (Some (st, loc')) }"

definition known_register :: "nat \<Rightarrow> 'a outcome \<Rightarrow> 'a outcome" where
  "known_register r x = (if r < 32 then x else Some None)"

fun cfi_meaning ::
    "cie_record \<Rightarrow> addr \<Rightarrow> cfi_instr \<Rightarrow> dwarf_state \<Rightarrow> u64 \<Rightarrow> (dwarf_state \<times> u64) outcome" where
  "cfi_meaning cie p CfiNop st loc = Some (Some (st, loc))"
| "cfi_meaning cie p (CfiAdvanceLoc d) st loc = advanced cie d st loc"
| "cfi_meaning cie p (CfiAdvanceLoc1 d) st loc = advanced cie d st loc"
| "cfi_meaning cie p (CfiAdvanceLoc2 d) st loc = advanced cie d st loc"
| "cfi_meaning cie p (CfiAdvanceLoc4 d) st loc = advanced cie d st loc"
| "cfi_meaning cie p (CfiDefCfa r n) st loc = known_register r
     (Some (Some (st\<lparr>cfaRegister := of_nat r, cfaRegisterOffset := of_nat n, cfaExpression := 0\<rparr>, loc)))"
| "cfi_meaning cie p (CfiDefCfaRegister r) st loc = known_register r
     (Some (Some (st\<lparr>cfaRegister := of_nat r\<rparr>, loc)))"
| "cfi_meaning cie p (CfiDefCfaOffset n) st loc =
     Some (Some (st\<lparr>cfaRegisterOffset := of_nat n\<rparr>, loc))"
| "cfi_meaning cie p (CfiDefCfaExpression code) st loc =
     Some (Some (st\<lparr>cfaRegister := 32, cfaExpression := p + 1\<rparr>, loc))"
| "cfi_meaning cie p (CfiSameValue r) st loc = known_register r
     (Some (Some (set_rule r ((state_registers st ! r)\<lparr>reg_location := FIRCLSDwarfRegisterUnused\<rparr>) st, loc)))"
| "cfi_meaning cie p (CfiRegister r s) st loc = known_register r (known_register s
     (Some (Some (set_rule r \<lparr>reg_location = FIRCLSDwarfRegisterInRegister,
                              reg_value = of_nat s\<rparr> st, loc))))"
| "cfi_meaning cie p (CfiOffset r n) st loc = known_register r
     (Some (Some (set_rule r \<lparr>reg_location = FIRCLSDwarfRegisterInCFA,
                              reg_value = of_nat n * cie_dataAlignFactor cie\<rparr> st, loc)))"
| "cfi_meaning cie p (CfiExpression r code) st loc = known_register r
     (Some (Some (set_rule r \<lparr>reg_location = FIRCLSDwarfRegisterAtExpression,
                              reg_value = p + 1 + of_nat (length (uleb128 r))\<rparr> st, loc)))"
| "cfi_meaning cie p (CfiValExpression r code) st loc = known_register r
     (Some (Some (set_rule r \<lparr>reg_location = FIRCLSDwarfRegisterIsExpression,
                              reg_value = p + 1 + of_nat (length (uleb128 r))\<rparr> st, loc)))"

text \<open>
  The row of the table for a location \<open>target\<close>, relative to the start of the function (section 6.4.3):
  instructions are processed as long as the location is not past \<open>target\<close>.
\<close>

fun cfi_row ::
    "cie_record \<Rightarrow> int \<Rightarrow> addr \<Rightarrow> cfi_instr list \<Rightarrow> dwarf_state \<Rightarrow> u64 \<Rightarrow> dwarf_state outcome" where
  "cfi_row cie target p [] st loc = Some (Some st)"
| "cfi_row cie target p (i # is) st loc =
     (if sint loc \<le> target
      then and_then (cfi_meaning cie p i st loc)
             (\<lambda>(st, loc). cfi_row cie target (p + of_nat (length (cfi_bytes i))) is st loc)
      else Some (Some st))"

definition cfi_program :: "cfi_instr list \<Rightarrow> byte list" where
  "cfi_program is = concat (map cfi_bytes is)"

text \<open>
  What the code needs of a program to follow the standard: \<open>DW_CFA_advance_loc\<close> is only used
  before the location has moved, and the CFA, once it is given by an expression, is not given by a
  register again. (The standard itself does not allow \<open>DW_CFA_def_cfa_register\<close> and
  \<open>DW_CFA_def_cfa_offset\<close> after an expression, but it allows \<open>DW_CFA_def_cfa\<close>.)
\<close>

fun is_advance :: "cfi_instr \<Rightarrow> bool" where
  "is_advance (CfiAdvanceLoc d) = True" | "is_advance (CfiAdvanceLoc1 d) = True"
| "is_advance (CfiAdvanceLoc2 d) = True" | "is_advance (CfiAdvanceLoc4 d) = True"
| "is_advance _ = False"

fun is_advance_loc :: "cfi_instr \<Rightarrow> bool" where
  "is_advance_loc (CfiAdvanceLoc d) = True" | "is_advance_loc _ = False"

fun is_cfa_register :: "cfi_instr \<Rightarrow> bool" where
  "is_cfa_register (CfiDefCfa r n) = True" | "is_cfa_register (CfiDefCfaRegister r) = True"
| "is_cfa_register (CfiDefCfaOffset n) = True" | "is_cfa_register _ = False"

fun is_cfa_expression :: "cfi_instr \<Rightarrow> bool" where
  "is_cfa_expression (CfiDefCfaExpression code) = True" | "is_cfa_expression _ = False"

fun in_scope :: "bool \<Rightarrow> bool \<Rightarrow> cfi_instr list \<Rightarrow> bool" where
  "in_scope moved expr [] = True"
| "in_scope moved expr (i # is) =
     ((is_advance_loc i \<longrightarrow> \<not> moved) \<and> (is_cfa_register i \<longrightarrow> \<not> expr) \<and>
      in_scope (moved \<or> is_advance i) (expr \<or> is_cfa_expression i) is)"

section \<open>One instruction agrees with its meaning\<close>

lemma unat_and_63: "unat (b AND 0x3F :: byte) = unat b mod 64"
proof -
  have "b AND 0x3F = take_bit 6 b" by (simp add: take_bit_eq_mask mask_eq_exp_minus_1)
  then have "unat (b AND 0x3F) = take_bit 6 (unat b)" by (simp only: unsigned_take_bit_eq)
  then show ?thesis by (simp add: take_bit_eq_mod)
qed

lemma unat_and_192: "unat (b AND 0xC0 :: byte) = unat b - unat b mod 64"
proof -
  have "b = (b AND 0x3F) OR (b AND 0xC0)"
  proof -
    have "(0x3F OR 0xC0 :: byte) = -1" by simp
    then show ?thesis by (metis and.right_neutral bit.conj_disj_distrib)
  qed
  moreover have "(b AND 0x3F) AND (b AND 0xC0) = 0"
  proof -
    have "(0x3F AND 0xC0 :: byte) = 0" by simp
    then show ?thesis by (metis and.assoc and.left_commute and_zero_eq)
  qed
  ultimately have "b = (b AND 0x3F) + (b AND 0xC0)"
    by (metis disjunctive_add_eq_or)
  then have "b AND 0xC0 = b - (b AND 0x3F)" by (metis add_diff_cancel_left')
  moreover have "b AND 0x3F \<le> b" by (simp add: word_le_nat_alt unat_and_63)
  ultimately show ?thesis by (simp add: unat_sub unat_and_63)
qed

text \<open>An opcode with an operand in its low six bits.\<close>

lemma operand_opcode:
  fixes b base :: byte
  assumes "base \<in> {0x40, 0x80}" "d < 64" "b = base + of_nat d"
  shows "b AND 0xC0 = base" "b AND 0x3F = of_nat d" "64 \<le> unat b"
proof -
  have u: "unat b = unat base + d"
    unfolding assms(3) using assms(1,2) by (intro unat_opcode) auto
  have "unat base mod 64 = 0" using assms(1) by auto
  then have md: "unat b mod 64 = d" using u assms(2) by auto
  show "b AND 0x3F = of_nat d" using md assms(2) by (simp add: word_unat_eq_iff unat_and_63 unat_of_nat)
  show "b AND 0xC0 = base" using md u by (simp add: word_unat_eq_iff unat_and_192)
  show "64 \<le> unat b" using u assms(1) by auto
qed

lemma operand_dispatch:
  assumes "FIRCLSParseUint8AndAdvance m p = Some (b, q)" "64 \<le> unat b"
  shows "execute_instruction m cie p st off =
         FIRCLSDwarfParseAndExecuteInstructionWithOperand m q b cie st off"
proof -
  have ne: "b \<noteq> c" if "unat c < 64" for c using assms(2) that by auto
  have "\<not> unimplemented_instruction b"
    by (simp add: unimplemented_instruction_def ne DW_CFA_defs)
  then show ?thesis
    by (simp add: execute_instruction_def assms(1) ne DW_CFA_defs)
qed


lemma update_register_known:
  "length (state_registers st) = 32 \<Longrightarrow> r < 32 \<Longrightarrow>
   update_register st (of_nat r) f = Some (set_rule r (f (state_registers st ! r)) st)"
  by (simp add: update_register_def set_rule_def unat_of_nat)

lemma max_register: "r < 2 ^ 31 \<Longrightarrow> CLS_DWARF_MAX_REGISTER_NUM < of_nat r \<longleftrightarrow> \<not> r < 32"
  by (auto simp: CLS_DWARF_defs word_less_nat_alt unat_of_nat)

text \<open>Reading a register number, an operand, and a block of code that is skipped.\<close>

lemma skip_block:
  assumes "bytes_at m q (block_bytes code @ rest)" "length code < 2 ^ 31"
  shows "do { (len, c) \<leftarrow> FIRCLSParseULEB128AndAdvance m q; c \<leftarrow> ptr_add c len; f c } =
         f (q + of_nat (length (block_bytes code)))"
proof -
  have at: "bytes_at m q (uleb128 (length code) @ code @ rest)"
    using assms(1) by (simp add: block_bytes_def)
  let ?c = "q + of_nat (length (uleb128 (length code)))"
  have "bytes_at m ?c code" using read_uleb128(2) [OF at assms(2)] by (simp add: bytes_at_append)
  then have "unat ?c + length code < 2 ^ 64" by (rule bytes_at_end)
  then have "ptr_add ?c (of_nat (length code)) = Some (?c + of_nat (length code))"
    using assms(2) by (simp add: ptr_add_def unat_of_nat)
  then show ?thesis
    using read_uleb128(1) [OF at assms(2)] by (simp add: block_bytes_def add.assoc)
qed

lemma advance_first:
  assumes "d < 64" "unat (cie_codeAlignFactor cie) < 2 ^ 31"
  shows "smul64 (ucast (of_nat d :: byte)) (cie_codeAlignFactor cie) =
         sadd64 0 (of_nat d * cie_codeAlignFactor cie)"
proof -
  have u: "ucast (of_nat d :: byte) = (of_nat d :: u64)"
    using assms(1) by (simp add: word_unat_eq_iff unat_ucast_up unat_of_nat)
  have s: "sint (of_nat d :: u64) = int d"
    using assms(1) sint_nonneg [of "of_nat d :: u64"] by (simp add: unat_of_nat)
  have c: "sint (cie_codeAlignFactor cie) = int (unat (cie_codeAlignFactor cie))"
    using assms(2) by (intro sint_nonneg) simp
  have "d * unat (cie_codeAlignFactor cie) < 64 * 2 ^ 31"
    using assms by (intro mult_strict_mono) auto
  then have "int d * int (unat (cie_codeAlignFactor cie)) < 64 * 2 ^ 31"
    by (metis of_nat_less_iff of_nat_mult of_nat_numeral of_nat_power)
  then have "int d * int (unat (cie_codeAlignFactor cie)) < 2 ^ 63" by (rule less_trans) simp
  moreover have "0 \<le> int d * int (unat (cie_codeAlignFactor cie))" by simp
  then have "- (2 ^ 63) \<le> int d * int (unat (cie_codeAlignFactor cie))" by (rule order.trans [rotated]) simp
  ultimately have "smul64 (of_nat d) (cie_codeAlignFactor cie) = Some (of_nat d * cie_codeAlignFactor cie)"
    by (simp add: smul64_def s c)
  moreover have "sadd64 0 x = Some x" for x using sint_bounds64 [of x] by (simp add: sadd64_def)
  ultimately show ?thesis by (simp add: u)
qed


text \<open>\<open>cfi_agrees\<close>: the interpreter does on an instruction what the instruction means.\<close>

definition cfi_agrees :: "memory \<Rightarrow> cie_record \<Rightarrow> addr \<Rightarrow> cfi_instr \<Rightarrow> dwarf_state \<Rightarrow> u64 \<Rightarrow> bool" where
  "cfi_agrees m cie p i st off \<longleftrightarrow>
     execute_instruction m cie p st off =
     and_then (cfi_meaning cie p i st off)
       (\<lambda>(st', off'). Some (Some (p + of_nat (length (cfi_bytes i)), st', off')))"

lemma agrees_nop: "bytes_at m p (cfi_bytes CfiNop) \<Longrightarrow> cfi_agrees m cie p CfiNop st off"
  using read_uint8(1) [of m p DW_CFA_nop "[]"]
  by (simp add: cfi_agrees_def execute_instruction_def)

lemma agrees_advance_loc:
  assumes "bytes_at m p (cfi_bytes (CfiAdvanceLoc d))" "d < 64"
    and "unat (cie_codeAlignFactor cie) < 2 ^ 31"
  shows "cfi_agrees m cie p (CfiAdvanceLoc d) st 0"
proof -
  note op = read_uint8(1) [of m p "DW_CFA_advance_loc + of_nat d" "[]"]
  note o = operand_opcode [OF _ assms(2) refl, of "0x40"]
  show ?thesis
    using assms(1) op operand_dispatch [of m p "0x40 + of_nat d" "p + 1"] o advance_first [OF assms(2,3)]
    by (auto simp: cfi_agrees_def FIRCLSDwarfParseAndExecuteInstructionWithOperand_def instruction_defs
        DW_CFA_OPERAND_MASK_def DW_CFA_OPCODE_MASK_def DW_CFA_advance_loc_def DW_CFA_offset_def
        advanced_def split: option.splits)
qed

lemma read_uint16:
  assumes "bytes_at m q (nat_bytes 2 n)"
  shows "FIRCLSParseUint16AndAdvance m q = Some (of_nat n, q + 2)"
proof -
  have "load_le 2 m q = Some (of_nat n :: u16)"
    using load_le_bytes [OF assms length_nat_bytes, where ?'a = 16] of_nat_bytes_nat [of 2 n, where ?'a = 16]
    by (simp del: nat_bytes_numeral)
  moreover have "ptr_add q 2 = Some (q + 2)"
    using bytes_at_end [OF assms] by (simp add: ptr_add_def length_nat_bytes)
  ultimately show ?thesis by (simp add: FIRCLSParseUint16AndAdvance_def)
qed

lemma ucast_of_nat_byte: "d < 256 \<Longrightarrow> ucast (of_nat d :: byte) = (of_nat d :: u64)"
  and ucast_of_nat_u16: "d < 2 ^ 16 \<Longrightarrow> ucast (of_nat d :: u16) = (of_nat d :: u64)"
  and ucast_of_nat_u32: "d < 2 ^ 32 \<Longrightarrow> ucast (of_nat d :: u32) = (of_nat d :: u64)"
  by (simp_all add: word_unat_eq_iff unat_ucast_up unat_of_nat)

lemma agrees_advance_loc1:
  assumes "bytes_at m p (cfi_bytes (CfiAdvanceLoc1 d))" "d < 256"
  shows "cfi_agrees m cie p (CfiAdvanceLoc1 d) st off"
proof -
  note op = read_uint8 [OF assms(1) [unfolded cfi_bytes.simps]]
  then show ?thesis
    using read_uint8 [OF op(2)] assms(2)
    by (simp add: cfi_agrees_def execute_instruction_def instruction_defs DW_CFA_defs advanced_def
        ucast_of_nat_byte add.assoc split: option.splits)
qed

lemma agrees_advance_loc2:
  assumes "bytes_at m p (cfi_bytes (CfiAdvanceLoc2 d))" "d < 2 ^ 16"
  shows "cfi_agrees m cie p (CfiAdvanceLoc2 d) st off"
proof -
  note op = read_uint8 [OF assms(1) [unfolded cfi_bytes.simps]]
  then show ?thesis
    using read_uint16 [OF op(2)] assms(2)
    by (simp add: cfi_agrees_def execute_instruction_def instruction_defs DW_CFA_defs advanced_def
        ucast_of_nat_u16 length_nat_bytes add.assoc split: option.splits)
qed

lemma agrees_advance_loc4:
  assumes "bytes_at m p (cfi_bytes (CfiAdvanceLoc4 d))" "d < 2 ^ 32"
  shows "cfi_agrees m cie p (CfiAdvanceLoc4 d) st off"
proof -
  note op = read_uint8 [OF assms(1) [unfolded cfi_bytes.simps]]
  then show ?thesis
    using read_uint32(1) [of m "p + 1" d "[]"] assms(2)
    by (simp add: cfi_agrees_def execute_instruction_def instruction_defs DW_CFA_defs advanced_def
        ucast_of_nat_u32 length_nat_bytes add.assoc split: option.splits)
qed

lemma agrees_def_cfa:
  assumes "bytes_at m p (cfi_bytes (CfiDefCfa r n))" "r < 2 ^ 31" "n < 2 ^ 31" "cfaExpression st = 0"
  shows "cfi_agrees m cie p (CfiDefCfa r n) st off"
proof -
  note op = read_uint8 [OF assms(1) [unfolded cfi_bytes.simps]]
  note r = read_uleb128 [OF op(2) assms(2)]
  note n = read_uleb128(1) [of m _ n "[]", simplified, OF r(2) assms(3) [simplified]]
  have "st\<lparr>cfaRegister := x, cfaRegisterOffset := y, cfaExpression := 0\<rparr> = st\<lparr>cfaRegister := x, cfaRegisterOffset := y\<rparr>" for x y
    using assms(4) by simp
  then show ?thesis
    using op(1) r(1) n max_register [OF assms(2)]
    by (simp add: cfi_agrees_def execute_instruction_def instruction_defs DW_CFA_defs
        known_register_def add.assoc)
qed

lemma agrees_def_cfa_register:
  assumes "bytes_at m p (cfi_bytes (CfiDefCfaRegister r))" "r < 2 ^ 31"
  shows "cfi_agrees m cie p (CfiDefCfaRegister r) st off"
proof -
  note op = read_uint8 [OF assms(1) [unfolded cfi_bytes.simps]]
  show ?thesis
    using op(1) read_uleb128(1) [of m "p + 1" r "[]"] op(2) assms(2) max_register [OF assms(2)]
    by (simp add: cfi_agrees_def execute_instruction_def instruction_defs DW_CFA_defs
        known_register_def add.assoc)
qed

lemma agrees_def_cfa_offset:
  assumes "bytes_at m p (cfi_bytes (CfiDefCfaOffset n))" "n < 2 ^ 31"
  shows "cfi_agrees m cie p (CfiDefCfaOffset n) st off"
proof -
  note op = read_uint8 [OF assms(1) [unfolded cfi_bytes.simps]]
  show ?thesis
    using op(1) read_uleb128(1) [of m "p + 1" n "[]"] op(2) assms(2)
    by (simp add: cfi_agrees_def execute_instruction_def instruction_defs DW_CFA_defs add.assoc)
qed

lemma agrees_def_cfa_expression:
  assumes "bytes_at m p (cfi_bytes (CfiDefCfaExpression code))" "length code < 2 ^ 31"
  shows "cfi_agrees m cie p (CfiDefCfaExpression code) st off"
proof -
  note op = read_uint8 [OF assms(1) [unfolded cfi_bytes.simps]]
  show ?thesis
    using op(1) skip_block [of m "p + 1" code "[]"] op(2) assms(2)
    by (simp add: cfi_agrees_def execute_instruction_def instruction_defs DW_CFA_defs add.assoc
        CLS_DWARF_defs)
qed

lemma agrees_same_value:
  assumes "bytes_at m p (cfi_bytes (CfiSameValue r))" "r < 2 ^ 31" "length (state_registers st) = 32"
  shows "cfi_agrees m cie p (CfiSameValue r) st off"
proof -
  note op = read_uint8 [OF assms(1) [unfolded cfi_bytes.simps]]
  show ?thesis
    using op(1) read_uleb128(1) [of m "p + 1" r "[]"] op(2) assms(2) max_register [OF assms(2)]
      update_register_known [OF assms(3)]
    by (simp add: cfi_agrees_def execute_instruction_def instruction_defs DW_CFA_defs
        known_register_def add.assoc)
qed

lemma agrees_register:
  assumes "bytes_at m p (cfi_bytes (CfiRegister r s))" "r < 2 ^ 31" "s < 2 ^ 31"
    "length (state_registers st) = 32"
  shows "cfi_agrees m cie p (CfiRegister r s) st off"
proof -
  note op = read_uint8 [OF assms(1) [unfolded cfi_bytes.simps]]
  note r = read_uleb128 [OF op(2) assms(2)]
  note s = read_uleb128(1) [of m _ s "[]", simplified, OF r(2) assms(3) [simplified]]
  show ?thesis
    using op(1) r(1) s max_register [OF assms(2)] max_register [OF assms(3)]
      update_register_known [OF assms(4)]
    by (simp add: cfi_agrees_def execute_instruction_def instruction_defs DW_CFA_defs
        known_register_def add.assoc)
qed

lemma agrees_offset:
  assumes "bytes_at m p (cfi_bytes (CfiOffset r n))" "r < 64" "n < 2 ^ 31"
    "length (state_registers st) = 32"
  shows "cfi_agrees m cie p (CfiOffset r n) st off"
proof -
  note op = read_uint8 [OF assms(1) [unfolded cfi_bytes.simps DW_CFA_offset_def]]
  note o = operand_opcode [OF _ assms(2) refl, of "0x80", simplified]
  have r: "ucast (of_nat r :: byte) = (of_nat r :: u64)" using assms(2) by (simp add: ucast_of_nat_byte)
  show ?thesis
    using operand_dispatch [OF op(1) o(3)] o read_uleb128(1) [of m "p + 1" n "[]"] op(2) assms(2,3)
      update_register_known [OF assms(4)] max_register [of r] r
    by (simp add: cfi_agrees_def FIRCLSDwarfParseAndExecuteInstructionWithOperand_def instruction_defs
        DW_CFA_OPERAND_MASK_def DW_CFA_OPCODE_MASK_def DW_CFA_offset_def known_register_def add.assoc)
qed

lemma agrees_expression:
  assumes "bytes_at m p (cfi_bytes (CfiExpression r code))" "r < 2 ^ 31" "length code < 2 ^ 31"
    "length (state_registers st) = 32"
  shows "cfi_agrees m cie p (CfiExpression r code) st off"
proof -
  note op = read_uint8 [OF assms(1) [unfolded cfi_bytes.simps]]
  note r = read_uleb128 [OF op(2) assms(2)]
  note s = skip_block [of m _ code "[]", simplified, OF r(2) assms(3) [simplified]]
  show ?thesis
    using op(1) r(1) max_register [OF assms(2)] update_register_known [OF assms(4)]
    by (simp add: s [unfolded add.assoc] cfi_agrees_def execute_instruction_def instruction_defs DW_CFA_defs
        known_register_def add.assoc)
qed

lemma agrees_val_expression:
  assumes "bytes_at m p (cfi_bytes (CfiValExpression r code))" "r < 2 ^ 31" "length code < 2 ^ 31"
    "length (state_registers st) = 32"
  shows "cfi_agrees m cie p (CfiValExpression r code) st off"
proof -
  note op = read_uint8 [OF assms(1) [unfolded cfi_bytes.simps]]
  note r = read_uleb128 [OF op(2) assms(2)]
  note s = skip_block [of m _ code "[]", simplified, OF r(2) assms(3) [simplified]]
  show ?thesis
    using op(1) r(1) max_register [OF assms(2)] update_register_known [OF assms(4)]
    by (simp add: s [unfolded add.assoc] cfi_agrees_def execute_instruction_def instruction_defs DW_CFA_defs
        known_register_def add.assoc)
qed

lemma execute_agrees:
  assumes at: "bytes_at m p (cfi_bytes i)" and ok: "cfi_ok i"
    and regs: "length (state_registers st) = 32"
    and loc: "is_advance_loc i \<Longrightarrow> off = 0 \<and> unat (cie_codeAlignFactor cie) < 2 ^ 31"
    and cfa: "is_cfa_register i \<Longrightarrow> cfaExpression st = 0"
  shows "cfi_agrees m cie p i st off"
  using assms
  by (cases i)
     (auto intro: agrees_nop agrees_advance_loc agrees_advance_loc1 agrees_advance_loc2
       agrees_advance_loc4 agrees_def_cfa agrees_def_cfa_register agrees_def_cfa_offset
       agrees_def_cfa_expression agrees_same_value agrees_register agrees_offset agrees_expression
       agrees_val_expression simp del: cfi_bytes.simps)

section \<open>Programs\<close>

lemma known_register_Some:
  "known_register r x = Some (Some y) \<longleftrightarrow> r < 32 \<and> x = Some (Some y)"
  by (auto simp: known_register_def)

lemma cfi_meaning_keeps:
  assumes "cfi_meaning cie p i st loc = Some (Some (st', loc'))"
  shows "length (state_registers st') = length (state_registers st)"
    and "\<not> is_advance i \<Longrightarrow> loc' = loc" and "\<not> is_cfa_expression i \<Longrightarrow> cfaExpression st = 0 \<Longrightarrow> cfaExpression st' = 0"
  using assms
  by (cases i; auto simp: advanced_def known_register_Some set_rule_def bind_eq_Some_conv)+

lemma cfi_bytes_nonempty: "0 < length (cfi_bytes i)"
  by (cases i) simp_all

lemma enumerate_loop_agrees:
  assumes "bytes_at m p (cfi_program is)" "\<forall>i \<in> set is. cfi_ok i" "length (state_registers st) = 32"
    and "in_scope moved expr is" "\<not> moved \<Longrightarrow> loc = 0" "\<not> expr \<Longrightarrow> cfaExpression st = 0"
    and "unat (cie_codeAlignFactor cie) < 2 ^ 31" "ending = p + of_nat (length (cfi_program is))"
  shows "enumerate_loop m cie ending pcOffset p st loc = cfi_row cie (sint pcOffset - 1) p is st loc"
  using assms
proof (induction "is" arbitrary: p st loc moved expr)
  case Nil
  then show ?case by (simp add: enumerate_loop.simps [of m cie] cfi_program_def)
next
  case (Cons i "is")
  let ?q = "p + of_nat (length (cfi_bytes i))"
  have bytes: "cfi_program (i # is) = cfi_bytes i @ cfi_program is" by (simp add: cfi_program_def)
  have at: "bytes_at m p (cfi_bytes i)" "bytes_at m ?q (cfi_program is)"
    using Cons.prems(1) by (simp_all add: bytes bytes_at_append)
  have "unat p + length (cfi_program (i # is)) < 2 ^ 64" by (rule bytes_at_end [OF Cons.prems(1)])
  then have "unat ending = unat p + length (cfi_bytes i) + length (cfi_program is)"
    unfolding Cons.prems(8) by (subst unat_add_of_nat) (simp_all add: bytes)
  then have more: "p < ending" using cfi_bytes_nonempty [of i] by (simp add: word_less_nat_alt)
  have loc: "is_advance_loc i \<Longrightarrow> loc = 0 \<and> unat (cie_codeAlignFactor cie) < 2 ^ 31"
    using Cons.prems(4,5,7) by auto
  have cfa: "is_cfa_register i \<Longrightarrow> cfaExpression st = 0" using Cons.prems(4,6) by auto
  have step: "execute_instruction m cie p st loc =
      and_then (cfi_meaning cie p i st loc) (\<lambda>(st', loc'). Some (Some (?q, st', loc')))"
    using execute_agrees [OF at(1) _ Cons.prems(3) loc cfa] Cons.prems(2) by (simp add: cfi_agrees_def)
  show ?case
  proof (cases "\<exists>st' loc'. cfi_meaning cie p i st loc = Some (Some (st', loc'))")
    case True
    then obtain st' loc' where r: "cfi_meaning cie p i st loc = Some (Some (st', loc'))" by blast
    have "enumerate_loop m cie ending pcOffset ?q st' loc' = cfi_row cie (sint pcOffset - 1) ?q is st' loc'"
    proof (rule Cons.IH)
      show "bytes_at m ?q (cfi_program is)" by (rule at(2))
      show "\<forall>i\<in>set is. cfi_ok i" using Cons.prems(2) by simp
      show "length (state_registers st') = 32" using cfi_meaning_keeps(1) [OF r] Cons.prems(3) by simp
      show "in_scope (moved \<or> is_advance i) (expr \<or> is_cfa_expression i) is" using Cons.prems(4) by simp
      show "\<not> (moved \<or> is_advance i) \<Longrightarrow> loc' = 0" using cfi_meaning_keeps(2) [OF r] Cons.prems(5) by simp
      show "\<not> (expr \<or> is_cfa_expression i) \<Longrightarrow> cfaExpression st' = 0" using cfi_meaning_keeps(3) [OF r] Cons.prems(6) by simp
      show "unat (cie_codeAlignFactor cie) < 2 ^ 31" by (rule Cons.prems(7))
      show "ending = ?q + of_nat (length (cfi_program is))" by (simp add: Cons.prems(8) bytes add.assoc)
    qed
    then show ?thesis using more step r by (simp add: enumerate_loop.simps [of m cie _ _ p])
  next
    case False
    then have "cfi_meaning cie p i st loc = None \<or> cfi_meaning cie p i st loc = Some None"
      by (metis option.exhaust surj_pair)
    then show ?thesis using more step by (auto simp: enumerate_loop.simps [of m cie _ _ p])
  qed
qed

lemma enumerate_agrees:
  assumes "bytes_at m p (cfi_program is)" "\<forall>i \<in> set is. cfi_ok i" "length (state_registers st) = 32"
    and "in_scope False (cfaExpression st \<noteq> 0) is" "unat (cie_codeAlignFactor cie) < 2 ^ 31"
    and "length (cfi_program is) < 2 ^ 32"
  shows "FIRCLSDwarfInstructionsEnumerate m
           \<lparr>instr_length = of_nat (length (cfi_program is)), instr_data = p\<rparr> cie st pcOffset =
         cfi_row cie (sint pcOffset - 1) p is st 0"
proof -
  have "unat p + length (cfi_program is) < 2 ^ 64" by (rule bytes_at_end [OF assms(1)])
  then have "ptr_add p (of_nat (length (cfi_program is))) = Some (p + of_nat (length (cfi_program is)))"
    using assms(6) by (simp add: ptr_add_def unat_of_nat)
  then show ?thesis
    using enumerate_loop_agrees [OF assms(1-4) _ _ assms(5) refl] ucast_of_nat_u32 [OF assms(6)]
    by (simp add: FIRCLSDwarfInstructionsEnumerate_def)
qed

text \<open>
  C9. On every encoded program of the instructions it supports, in the scope of the code,
  \<open>FIRCLSDwarfInstructionsEnumerate\<close> computes the row that the DWARF standard gives for the location just
  before the program counter, which is that of the call for a return address, and fails exactly when a register
  number is out of range. The scope is \<open>in_scope\<close>: \<open>DW_CFA_advance_loc\<close> is used at most as the first
  instruction that moves the location, and the CFA, once given by an expression, is not given by a register
  again. Both restrictions are defects of the code, see \<open>advance_loc_not_cumulative\<close> and
  \<open>def_cfa_keeps_expression\<close>. For the program counter of a frame that was interrupted, not called from, the row
  differs from that of the standard where the location reaches the program counter exactly.
\<close>

theorem FIRCLSDwarfInstructionsEnumerate_correct:
  assumes "bytes_at m p (cfi_program is)" "\<forall>i \<in> set is. cfi_ok i" "length (state_registers st) = 32"
    and "in_scope False (cfaExpression st \<noteq> 0) is" "unat (cie_codeAlignFactor cie) < 2 ^ 31"
    and "length (cfi_program is) < 2 ^ 32"
  shows "FIRCLSDwarfInstructionsEnumerate m
           \<lparr>instr_length = of_nat (length (cfi_program is)), instr_data = p\<rparr> cie st pcOffset =
         cfi_row cie (sint pcOffset - 1) p is st 0"
  using assms by (rule enumerate_agrees)

text \<open>
  \<open>DW_CFA_def_cfa\<close> does not replace an expression: after \<open>DW_CFA_def_cfa_expression\<close> the CFA is still
  computed by the expression, where the standard has the register and the offset.
\<close>

theorem def_cfa_keeps_expression:
  assumes "bytes_at m p (cfi_bytes (CfiDefCfa r n))" "r < 32" "n < 2 ^ 31"
  shows "execute_instruction m cie p st off =
      Some (Some (p + of_nat (length (cfi_bytes (CfiDefCfa r n))), st\<lparr>cfaRegister := of_nat r, cfaRegisterOffset := of_nat n\<rparr>, off))"
    and "cfi_meaning cie p (CfiDefCfa r n) st off =
      Some (Some (st\<lparr>cfaRegister := of_nat r, cfaRegisterOffset := of_nat n, cfaExpression := 0\<rparr>, off))"
proof -
  have r: "r < 2 ^ 31" using assms(2) by simp
  note op = read_uint8 [OF assms(1) [unfolded cfi_bytes.simps]]
  note rr = read_uleb128 [OF op(2) r]
  note n = read_uleb128(1) [of m _ n "[]", simplified, OF rr(2) assms(3) [simplified]]
  show "execute_instruction m cie p st off =
      Some (Some (p + of_nat (length (cfi_bytes (CfiDefCfa r n))), st\<lparr>cfaRegister := of_nat r, cfaRegisterOffset := of_nat n\<rparr>, off))"
    using op(1) rr(1) n max_register [OF r] assms(2)
    by (simp add: execute_instruction_def instruction_defs DW_CFA_defs known_register_def add.assoc)
qed (use assms(2) in \<open>simp add: known_register_def\<close>)

text \<open>The rules of a standard frame: FP and LR saved below the CFA, which is FP + 16.\<close>

definition standard_frame :: "cfi_instr list" where
  "standard_frame = [CfiAdvanceLoc 4, CfiDefCfa 29 16, CfiOffset 30 1, CfiOffset 29 2]"

lemma standard_frame_bytes:
  "cfi_program standard_frame = [0x44, 0x0C, 29, 16, 0x9E, 1, 0x9D, 2]"
  by (simp add: standard_frame_def cfi_program_def DW_CFA_defs uleb128.simps)

lemma standard_frame_ok:
  "\<forall>i \<in> set standard_frame. cfi_ok i" "in_scope moved expr standard_frame = (\<not> moved \<and> \<not> expr)"
  by (simp_all add: standard_frame_def)

lemma zero_state_registers [simp]: "length (state_registers zero_state) = 32"
  by (simp add: zero_state_def CLS_DWARF_defs)

lemma zero_state_expression [simp]: "cfaExpression zero_state = 0"
  by (simp add: zero_state_def)

definition sample_cie :: cie_record where
  "sample_cie = zero_cie\<lparr>cie_length := 16, cie_version := 1, cie_codeAlignFactor := 1,
                          cie_dataAlignFactor := - 8\<rparr>"

theorem FIRCLSDwarfInstructionsEnumerate_correct_witness:
  "\<exists>st. FIRCLSDwarfInstructionsEnumerate (mem_of 4096 [0x44, 0x0C, 29, 16, 0x9E, 1, 0x9D, 2])
      \<lparr>instr_length = 8, instr_data = 4096\<rparr> sample_cie zero_state 20 = Some (Some st) \<and>
      cfaRegister st = 29 \<and> cfaRegisterOffset st = 16 \<and>
      state_registers st ! 30 = \<lparr>reg_location = FIRCLSDwarfRegisterInCFA, reg_value = - 8\<rparr>"
proof -
  let ?m = "mem_of 4096 [0x44, 0x0C, 29, 16, 0x9E, 1, 0x9D, 2]"
  have "bytes_at ?m 4096 (cfi_program standard_frame)"
    unfolding standard_frame_bytes by (rule bytes_at_mem_of) simp
  from FIRCLSDwarfInstructionsEnumerate_correct [OF this standard_frame_ok(1) zero_state_registers,
      of sample_cie 20]
  show ?thesis
    by (simp add: standard_frame_ok(2) standard_frame_bytes sample_cie_def)
       (simp add: standard_frame_def advanced_def sadd64_def known_register_def set_rule_def
          sample_cie_def zero_state_def CLS_DWARF_defs)
qed

lemma sint_of_nat_small: "x < 128 \<Longrightarrow> sint (of_nat x :: u64) = int x"
  using sint_nonneg [of "of_nat x :: u64"] by (simp add: unat_of_nat)

lemma advance_loc_assigns:
  assumes at: "bytes_at m q (cfi_bytes (CfiAdvanceLoc x))" "x < 64"
    and caf: "cie_codeAlignFactor cie = 1"
  shows "execute_instruction m cie q st off = Some (Some (q + 1, st, of_nat x))"
proof -
  have mul: "smul64 (ucast (of_nat x :: byte)) 1 = Some (of_nat x)"
    using at(2) sint_of_nat_small [of x] by (simp add: smul64_def ucast_of_nat_byte)
  have b: "FIRCLSParseUint8AndAdvance m q = Some (0x40 + of_nat x, q + 1)"
    using read_uint8(1) [of m q "0x40 + of_nat x" "[]"] at(1) by (simp add: DW_CFA_advance_loc_def)
  note o = operand_opcode [OF _ at(2) refl, of "0x40", simplified]
  show ?thesis
    using operand_dispatch [OF b o(3)] o mul
    by (simp add: FIRCLSDwarfParseAndExecuteInstructionWithOperand_def instruction_defs caf
        DW_CFA_OPERAND_MASK_def DW_CFA_OPCODE_MASK_def DW_CFA_advance_loc_def DW_CFA_offset_def)
qed

text \<open>
  C10. Outside that condition the interpreter departs from the standard: \<open>DW_CFA_advance_loc\<close>
  assigns the code offset where \<open>advance_loc1\<close>, \<open>2\<close> and \<open>4\<close> add to it. After two of them, an
  instruction that the standard places after the program counter is executed, and the offset of
  the CFA is wrong.
\<close>

theorem advance_loc_not_cumulative:
  assumes at: "bytes_at m p (cfi_program [CfiAdvanceLoc d1, CfiAdvanceLoc d2, CfiDefCfaOffset n])"
    and d: "d1 < 64" "d2 < 64" "n < 2 ^ 31" and caf: "cie_codeAlignFactor cie = 1"
    and pc: "d1 < k" "d2 < k" "k \<le> d1 + d2"
  shows "cfi_row cie (int k - 1) p [CfiAdvanceLoc d1, CfiAdvanceLoc d2, CfiDefCfaOffset n] st 0 =
           Some (Some st) \<and>
         FIRCLSDwarfInstructionsEnumerate m
           \<lparr>instr_length = of_nat (3 + length (uleb128 n)), instr_data = p\<rparr> cie st (of_nat k) =
           Some (Some (st\<lparr>cfaRegisterOffset := of_nat n\<rparr>))"
proof -
  note s = sint_of_nat_small
  have k: "k < 128" using pc d by simp
  have add: "sadd64 (of_nat x) (of_nat y) = Some (of_nat (x + y))" if "x < 64" "y < 64" for x y
    using that s [of x] s [of y] by (simp add: sadd64_def)
  have add0: "sadd64 0 (of_nat y) = Some (of_nat y)" if "y < 64" for y
    using add [of 0 y] that by simp
  have dd: "sint (of_nat d1 + of_nat d2 :: u64) = int (d1 + d2)" using s [of "d1 + d2"] d by simp
  have standard: "cfi_row cie (int k - 1) p [CfiAdvanceLoc d1, CfiAdvanceLoc d2, CfiDefCfaOffset n] st 0 =
      Some (Some st)"
    using pc d s [OF k] s [of d1] dd by (simp add: advanced_def caf add add0)
  have len: "length (uleb128 n) \<le> 5" using d(3) by (intro uleb128_length [of _ 4, simplified]) simp
  have at': "bytes_at m p (cfi_bytes (CfiAdvanceLoc d1))" "bytes_at m (p + 1) (cfi_bytes (CfiAdvanceLoc d2))"
    "bytes_at m (p + 2) (cfi_bytes (CfiDefCfaOffset n))"
    using at by (simp_all add: cfi_program_def add.commute [of p])
  note adv = advance_loc_assigns [OF _ _ caf]
  let ?e = "p + of_nat (3 + length (uleb128 n))"
  have set_offset: "execute_instruction m cie (p + 2) st off =
      Some (Some (?e, st\<lparr>cfaRegisterOffset := of_nat n\<rparr>, off))" for off
    using agrees_def_cfa_offset [OF at'(3) d(3)] by (simp add: cfi_agrees_def algebra_simps)
  have u: "unat p + (3 + length (uleb128 n)) < 2 ^ 64"
    using bytes_at_end [OF at] by (simp add: cfi_program_def)
  have ends: "unat ?e = unat p + (3 + length (uleb128 n))" using u by (rule unat_add_of_nat)
  have lt: "p < ?e" "p + 1 < ?e" "p + 2 < ?e"
    using ends u unat_add_of_nat [of p 1] unat_add_of_nat [of p 2]
    by (simp_all add: word_less_nat_alt del: of_nat_add)
  have start: "ptr_add p (ucast (of_nat (3 + length (uleb128 n)) :: u32)) = Some ?e"
    using u len ucast_of_nat_u32 [of "3 + length (uleb128 n)"]
    by (simp add: ptr_add_def unat_of_nat del: of_nat_add)
  have "enumerate_loop m cie ?e (of_nat k) p st 0 = Some (Some (st\<lparr>cfaRegisterOffset := of_nat n\<rparr>))"
    using lt adv [OF at'(1) d(1)] adv [OF at'(2) d(2)] set_offset [of "of_nat d2"] pc d
      s [OF k] s [of d1] s [of d2]
    by (simp add: enumerate_loop.simps [of m cie] add.assoc del: of_nat_add)
  then show ?thesis using standard start by (simp add: FIRCLSDwarfInstructionsEnumerate_def del: of_nat_add)
qed

theorem advance_loc_not_cumulative_witness:
  "\<exists>st. FIRCLSDwarfInstructionsEnumerate (mem_of 4096 [0x48, 0x44, 0x0E, 32])
      \<lparr>instr_length = 4, instr_data = 4096\<rparr> sample_cie zero_state 10 = Some (Some st) \<and>
      cfaRegisterOffset st = 32"
proof -
  have "bytes_at (mem_of 4096 [0x48, 0x44, 0x0E, 32]) 4096
      (cfi_program [CfiAdvanceLoc 8, CfiAdvanceLoc 4, CfiDefCfaOffset 32])"
    by (simp add: cfi_program_def DW_CFA_defs uleb128.simps mem_of_def)
  from advance_loc_not_cumulative [OF this, of sample_cie 10 zero_state]
  show ?thesis by (simp add: uleb128.simps sample_cie_def)
qed

section \<open>The register rules are accessed within their array\<close>

text \<open>\<open>guarded g st\<close>: the rule array of \<open>st\<close> followed by other memory.\<close>

definition guarded :: "dwarf_register list \<Rightarrow> dwarf_state \<Rightarrow> dwarf_state" where
  "guarded g st = st\<lparr>state_registers := state_registers st @ g\<rparr>"

lemma guarded_simps [simp]:
  "guarded g st\<lparr>cfaRegister := a\<rparr> = guarded g (st\<lparr>cfaRegister := a\<rparr>)"
  "guarded g st\<lparr>cfaRegisterOffset := b\<rparr> = guarded g (st\<lparr>cfaRegisterOffset := b\<rparr>)"
  "guarded g st\<lparr>cfaExpression := c\<rparr> = guarded g (st\<lparr>cfaExpression := c\<rparr>)"
  by (simp_all add: guarded_def)

lemma update_register_guarded:
  assumes "length (state_registers st) = 32" "\<not> CLS_DWARF_MAX_REGISTER_NUM < n"
  shows "update_register (guarded g st) n f = map_option (guarded g) (update_register st n f)"
proof -
  have "unat n < 32" using assms(2) by (simp add: CLS_DWARF_defs word_less_nat_alt)
  with assms(1) show ?thesis
    by (simp add: update_register_def guarded_def nth_append list_update_append)
qed

definition lift_guard :: "dwarf_register list \<Rightarrow> (addr \<times> dwarf_state) outcome \<Rightarrow> (addr \<times> dwarf_state) outcome" where
  "lift_guard g = map_option (map_option (map_prod id (guarded g)))"

lemma lift_guard_simps [simp]:
  "lift_guard g None = None" "lift_guard g (Some None) = Some None"
  "lift_guard g (Some (Some (c, st))) = Some (Some (c, guarded g st))"
  "lift_guard g (do { x \<leftarrow> r; f x }) = do { x \<leftarrow> r; lift_guard g (f x) }"
  by (cases r; simp add: lift_guard_def)+

lemma lift_guard_case [simp]:
  "lift_guard g (case x of (a, b) \<Rightarrow> f a b) = (case x of (a, b) \<Rightarrow> lift_guard g (f a b))"
  by (cases x) simp

lemma map_option_bind_guard:
  "do { st \<leftarrow> map_option (guarded g) r; f st } = do { st \<leftarrow> r; f (guarded g st) }"
  by (cases r) simp_all

lemma changes_guarded:
  assumes "length (state_registers st) = 32"
  shows
  "FIRCLSDwarfParseAndExecute_def_cfa m p (guarded g st) = lift_guard g (FIRCLSDwarfParseAndExecute_def_cfa m p st)"
  "FIRCLSDwarfParseAndExecute_def_cfa_register m p (guarded g st) =
     lift_guard g (FIRCLSDwarfParseAndExecute_def_cfa_register m p st)"
  "FIRCLSDwarfParseAndExecute_def_cfa_offset m p (guarded g st) =
     lift_guard g (FIRCLSDwarfParseAndExecute_def_cfa_offset m p st)"
  "FIRCLSDwarfParseAndExecute_def_cfa_expression m p (guarded g st) =
     lift_guard g (FIRCLSDwarfParseAndExecute_def_cfa_expression m p st)"
  "FIRCLSDwarfParseAndExecute_same_value m p (guarded g st) =
     lift_guard g (FIRCLSDwarfParseAndExecute_same_value m p st)"
  "FIRCLSDwarfParseAndExecute_register m p (guarded g st) =
     lift_guard g (FIRCLSDwarfParseAndExecute_register m p st)"
  "FIRCLSDwarfParseAndExecute_expression m p (guarded g st) =
     lift_guard g (FIRCLSDwarfParseAndExecute_expression m p st)"
  "FIRCLSDwarfParseAndExecute_val_expression m p (guarded g st) =
     lift_guard g (FIRCLSDwarfParseAndExecute_val_expression m p st)"
  "FIRCLSDwarfParseAndExecute_offset m p cie (guarded g st) r =
     lift_guard g (FIRCLSDwarfParseAndExecute_offset m p cie st r)"
  using update_register_guarded [OF assms]
  by (auto simp: instruction_defs Let_def map_option_bind_guard case_prod_beta
      intro!: Option.bind_cong split: option.splits)

definition keeps_rules :: "nat \<Rightarrow> (addr \<times> dwarf_state) outcome \<Rightarrow> bool" where
  "keeps_rules n r \<longleftrightarrow> (\<forall>q st. r = Some (Some (q, st)) \<longrightarrow> length (state_registers st) = n)"

lemma keeps_rules_simps [simp]:
  "keeps_rules n None" "keeps_rules n (Some None)"
  "keeps_rules n (Some (Some (q, st))) \<longleftrightarrow> length (state_registers st) = n"
  by (auto simp: keeps_rules_def)

lemma keeps_rules_bind: "(\<And>v. r = Some v \<Longrightarrow> keeps_rules n (f v)) \<Longrightarrow> keeps_rules n (do { v \<leftarrow> r; f v })"
  by (cases r) auto

lemma update_register_length:
  "update_register st r g = Some st' \<Longrightarrow> length (state_registers st') = length (state_registers st)"
  by (auto simp: update_register_def split: if_splits)

lemma changes_keep_rules:
  assumes "length (state_registers st) = n"
  shows
  "keeps_rules n (FIRCLSDwarfParseAndExecute_def_cfa m p st)"
  "keeps_rules n (FIRCLSDwarfParseAndExecute_def_cfa_register m p st)"
  "keeps_rules n (FIRCLSDwarfParseAndExecute_def_cfa_offset m p st)"
  "keeps_rules n (FIRCLSDwarfParseAndExecute_def_cfa_expression m p st)"
  "keeps_rules n (FIRCLSDwarfParseAndExecute_same_value m p st)"
  "keeps_rules n (FIRCLSDwarfParseAndExecute_register m p st)"
  "keeps_rules n (FIRCLSDwarfParseAndExecute_expression m p st)"
  "keeps_rules n (FIRCLSDwarfParseAndExecute_val_expression m p st)"
  "keeps_rules n (FIRCLSDwarfParseAndExecute_offset m p cie st r)"
  using assms
  by (auto simp: instruction_defs Let_def intro!: keeps_rules_bind split: prod.splits)
     (drule update_register_length, simp)+

definition lift_guard3 ::
    "dwarf_register list \<Rightarrow> (addr \<times> dwarf_state \<times> u64) outcome \<Rightarrow> (addr \<times> dwarf_state \<times> u64) outcome" where
  "lift_guard3 g = map_option (map_option (\<lambda>(c, st, off). (c, guarded g st, off)))"

lemma lift_guard3_simps [simp]:
  "lift_guard3 g None = None" "lift_guard3 g (Some None) = Some None"
  "lift_guard3 g (Some (Some (c, st, off))) = Some (Some (c, guarded g st, off))"
  "and_then (lift_guard g r) (\<lambda>(c, st). Some (Some (c, st, off))) =
   lift_guard3 g (and_then r (\<lambda>(c, st). Some (Some (c, st, off))))"
  by (auto simp: lift_guard3_def lift_guard_def and_then_def split: option.splits)

lemma moves_guarded:
  "and_then r (\<lambda>(c, off). Some (Some (c, guarded g st, off))) =
   lift_guard3 g (and_then r (\<lambda>(c, off). Some (Some (c, st, off))))"
  by (auto simp: lift_guard3_def and_then_def split: option.splits)

lemma operand_guarded:
  assumes "length (state_registers st) = 32"
  shows "FIRCLSDwarfParseAndExecuteInstructionWithOperand m p i cie (guarded g st) off =
         lift_guard3 g (FIRCLSDwarfParseAndExecuteInstructionWithOperand m p i cie st off)"
  by (simp add: FIRCLSDwarfParseAndExecuteInstructionWithOperand_def Let_def changes_guarded [OF assms])
     (auto simp: and_then_def split: option.splits)

lemma execute_instruction_guarded:
  assumes "length (state_registers st) = 32"
  shows "execute_instruction m cie p (guarded g st) off =
         lift_guard3 g (execute_instruction m cie p st off)"
proof (cases "FIRCLSParseUint8AndAdvance m p")
  case None
  then show ?thesis by (simp add: execute_instruction_def)
next
  case (Some r)
  obtain i c where r: "r = (i, c)" by (cases r)
  show ?thesis
    unfolding execute_instruction_def Some r Let_def bind.simps prod.case
      changes_guarded [OF assms] operand_guarded [OF assms] moves_guarded lift_guard3_simps
      if_distrib [of "lift_guard3 g"] ..
qed

definition keeps_rules3 :: "nat \<Rightarrow> (addr \<times> dwarf_state \<times> u64) outcome \<Rightarrow> bool" where
  "keeps_rules3 n r \<longleftrightarrow> (\<forall>q st off. r = Some (Some (q, st, off)) \<longrightarrow> length (state_registers st) = n)"

lemma keeps_rules3_simps [simp]:
  "keeps_rules3 n None" "keeps_rules3 n (Some None)"
  "keeps_rules3 n (Some (Some (q, st, off))) \<longleftrightarrow> length (state_registers st) = n"
  by (auto simp: keeps_rules3_def)

lemma keeps_rules3_if:
  "(b \<Longrightarrow> keeps_rules3 n x) \<Longrightarrow> (\<not> b \<Longrightarrow> keeps_rules3 n y) \<Longrightarrow> keeps_rules3 n (if b then x else y)"
  by simp

lemma keeps_rules3_change:
  "keeps_rules n r \<Longrightarrow> keeps_rules3 n (and_then r (\<lambda>(c, st). Some (Some (c, st, off))))"
  by (auto simp: keeps_rules_def keeps_rules3_def and_then_def split: option.splits)

lemma keeps_rules3_move:
  "length (state_registers st) = n \<Longrightarrow>
   keeps_rules3 n (and_then r (\<lambda>(c, off). Some (Some (c, st, off))))"
  by (auto simp: keeps_rules3_def and_then_def split: option.splits)

lemma keeps_rules3_loc:
  "length (state_registers st) = n \<Longrightarrow> keeps_rules3 n (and_then r (\<lambda>off. Some (Some (c, st, off))))"
  by (auto simp: keeps_rules3_def and_then_def split: option.splits)

lemma execute_instruction_keeps_rules:
  assumes "length (state_registers st) = n"
  shows "keeps_rules3 n (execute_instruction m cie p st off)"
proof (cases "FIRCLSParseUint8AndAdvance m p")
  case None
  then show ?thesis by (simp add: execute_instruction_def)
next
  case (Some r)
  obtain i c where r: "r = (i, c)" by (cases r)
  show ?thesis
    unfolding execute_instruction_def Some r Let_def bind.simps prod.case
      FIRCLSDwarfParseAndExecuteInstructionWithOperand_def
    by (intro keeps_rules3_if keeps_rules3_change keeps_rules3_move keeps_rules3_loc
          changes_keep_rules assms; simp add: assms)
qed

lemma enumerate_loop_guarded:
  assumes "length (state_registers st) = 32"
  shows "enumerate_loop m cie ending pcOffset p (guarded g st) off =
         map_option (map_option (guarded g)) (enumerate_loop m cie ending pcOffset p st off)"
  using assms
proof (induction m cie ending pcOffset p st off rule: enumerate_loop.induct)
  case (1 m cie ending pcOffset p st off)
  note unfold = enumerate_loop.simps [of m cie ending pcOffset p]
  show ?case
  proof (cases "p < ending \<and> sint off < sint pcOffset")
    case False
    then show ?thesis by (auto simp: unfold)
  next
    case True
    note step = execute_instruction_guarded [OF "1.prems", of m cie p g off]
    show ?thesis
    proof (cases "\<exists>q st' off'. execute_instruction m cie p st off = Some (Some (q, st', off'))")
      case False
      then have "execute_instruction m cie p st off = None \<or> execute_instruction m cie p st off = Some None"
        by (metis option.exhaust prod.exhaust)
      then show ?thesis using True step by (auto simp: unfold)
    next
      case ex: True
      then obtain q st' off' where x: "execute_instruction m cie p st off = Some (Some (q, st', off'))"
        by blast
      have "length (state_registers st') = 32"
        using execute_instruction_keeps_rules [OF "1.prems", of m cie p off] x by simp
      with "1.IH" [OF True x refl refl refl] show ?thesis using True step x by (simp add: unfold)
    qed
  qed
qed

text \<open>
  C11. Memory safety of the interpreter on arbitrary bytes: the rules of registers are read and
  written within their array of 32. Whatever memory \<open>g\<close> follows the array, an execution is the
  same with it, and leaves it as it is.
\<close>

theorem rules_within_array:
  assumes "length (state_registers st) = 32"
  shows "FIRCLSDwarfInstructionsEnumerate m instructions cie (guarded g st) pcOffset =
         map_option (map_option (guarded g))
           (FIRCLSDwarfInstructionsEnumerate m instructions cie st pcOffset)"
  using enumerate_loop_guarded [OF assms]
  by (cases "ptr_add (instr_data instructions) (ucast (instr_length instructions))")
     (simp_all add: FIRCLSDwarfInstructionsEnumerate_def)

theorem rules_within_array_witness:
  "FIRCLSDwarfInstructionsEnumerate (mem_of 4096 [0xBF, 1]) \<lparr>instr_length = 2, instr_data = 4096\<rparr>
     sample_cie (guarded [\<lparr>reg_location = FIRCLSDwarfRegisterUnused, reg_value = 7\<rparr>] zero_state) 8 =
   Some None"
proof -
  have "FIRCLSDwarfInstructionsEnumerate (mem_of 4096 [0xBF, 1]) \<lparr>instr_length = 2, instr_data = 4096\<rparr>
      sample_cie zero_state 8 = Some None"
    by (simp add: FIRCLSDwarfInstructionsEnumerate_def ptr_add_def enumerate_loop.simps
        execute_instruction_def FIRCLSParseUint8AndAdvance_def mem_of_def DW_CFA_defs
        unimplemented_instruction_def FIRCLSDwarfParseAndExecuteInstructionWithOperand_def
        FIRCLSDwarfParseAndExecute_offset_def CLS_DWARF_defs)
  then show ?thesis using rules_within_array [OF zero_state_registers] by simp
qed

section \<open>The assignment of the caller's registers\<close>

text \<open>The assignments the loop makes, in order.\<close>

definition assigned :: "dwarf_state \<Rightarrow> (nat \<Rightarrow> u64) \<Rightarrow> nat list \<Rightarrow> (u64 \<times> u64) list" where
  "assigned st value is =
     map (\<lambda>i. (of_nat i, value i))
       (filter (\<lambda>i. reg_location (state_registers st ! i) \<noteq> FIRCLSDwarfRegisterUnused) is)"

lemma assign_loop_fold:
  assumes "length (state_registers st) = 32" "\<forall>i \<in> set is. i < 32"
    and "\<forall>i \<in> set is. reg_location (state_registers st ! i) \<noteq> FIRCLSDwarfRegisterUnused \<longrightarrow>
           FIRCLSDwarfGetSavedRegister m registers cfa (state_registers st ! i) = Some (value i)"
  shows "assign_loop m st registers cfa is r =
         Some (Some (fold (\<lambda>(n, v) r. snd (FIRCLSDwarfUnwindSetRegisterValue r n v))
                       (assigned st value is) r))"
  using assms(2,3)
proof (induction "is" arbitrary: r)
  case Nil
  then show ?case by (simp add: assigned_def)
next
  case (Cons i "is")
  have i: "i < 32" using Cons.prems(1) by simp
  then have "of_nat i \<le> CLS_DWARF_MAX_REGISTER_NUM"
    by (simp add: CLS_DWARF_defs word_le_nat_alt unat_of_nat)
  then have ok: "fst (FIRCLSDwarfUnwindSetRegisterValue r (of_nat i) v)" for v
    by (rule arm64.set_known)
  have "FIRCLSDwarfUnwindSetRegisterValue r (of_nat i) v =
      (True, snd (FIRCLSDwarfUnwindSetRegisterValue r (of_nat i) v))" for v
    using ok [of v] by (metis prod.collapse)
  then show ?case
    using Cons i assms(1)
    by (cases "reg_location (state_registers st ! i) = FIRCLSDwarfRegisterUnused")
       (simp_all add: assigned_def split_beta ok)
qed

lemma assign_loop_Some:
  assumes "assign_loop m st registers cfa is r = Some (Some r')"
    and "i \<in> set is" "reg_location (state_registers st ! i) \<noteq> FIRCLSDwarfRegisterUnused"
  shows "FIRCLSDwarfGetSavedRegister m registers cfa (state_registers st ! i) \<noteq> None"
  using assms
proof (induction "is" arbitrary: r)
  case Nil
  then show ?case by simp
next
  case (Cons j "is")
  show ?case
  proof (cases "j = i")
    case True
    then show ?thesis using Cons.prems(1,3) by (auto simp: bind_eq_Some_conv split: if_splits)
  next
    case False
    then show ?thesis using Cons by (auto simp: bind_eq_Some_conv case_prod_beta split: if_splits)
  qed
qed

text \<open>The value of a register after the assignment, from its rule.\<close>

definition caller_value ::
    "memory \<Rightarrow> dwarf_state \<Rightarrow> thread_context \<Rightarrow> u64 \<Rightarrow> nat \<Rightarrow> u64" where
  "caller_value m st registers cfa n =
     (if n = 31 then CLS_PTRAUTH_STRIP cfa
      else if reg_location (state_registers st ! n) = FIRCLSDwarfRegisterUnused
      then FIRCLSDwarfUnwindGetRegisterValue registers (of_nat n)
      else stored_value (of_nat n)
             (the (FIRCLSDwarfGetSavedRegister m registers cfa (state_registers st ! n))))"

lemma assigned_registers:
  assumes len: "length (state_registers st) = 32"
    and vals: "\<forall>i < 32. reg_location (state_registers st ! i) \<noteq> FIRCLSDwarfRegisterUnused \<longrightarrow>
      FIRCLSDwarfGetSavedRegister m registers cfa (state_registers st ! i) \<noteq> None"
    and n: "n < 32"
    and new: "new = snd (FIRCLSDwarfUnwindSetRegisterValue
      (fold (\<lambda>(n, v) r. snd (FIRCLSDwarfUnwindSetRegisterValue r n v))
         (assigned st (\<lambda>i. the (FIRCLSDwarfGetSavedRegister m registers cfa (state_registers st ! i)))
            [0..<32]) registers) CLS_DWARF_REG_SP cfa)"
  shows "FIRCLSDwarfUnwindGetRegisterValue new (of_nat n) = caller_value m st registers cfa n"
proof -
  define asg where "asg = assigned st
    (\<lambda>i. the (FIRCLSDwarfGetSavedRegister m registers cfa (state_registers st ! i))) [0..<32]"
  let ?f = "fold (\<lambda>(n, v) r. snd (FIRCLSDwarfUnwindSetRegisterValue r n v)) asg registers"
  have inj: "of_nat i = (of_nat j :: u64) \<longleftrightarrow> i = j" if "i < 32" "j < 32" for i j
    using that by (simp add: word_unat_eq_iff unat_of_nat)
  have le: "of_nat n \<le> CLS_DWARF_MAX_REGISTER_NUM"
    using n by (simp add: CLS_DWARF_defs word_le_nat_alt unat_of_nat)
  show ?thesis
  proof (cases "n = 31")
    case True
    then have "of_nat n = CLS_DWARF_REG_SP" by (simp add: CLS_DWARF_defs)
    then show ?thesis using arm64.get_set_same [OF le, of ?f cfa] True
      by (simp add: new caller_value_def stored_value_def asg_def CLS_DWARF_defs)
  next
    case False
    then have "of_nat n \<noteq> CLS_DWARF_REG_SP"
      using n inj [of n 31] by (simp add: CLS_DWARF_defs)
    then have g: "FIRCLSDwarfUnwindGetRegisterValue new (of_nat n) =
        FIRCLSDwarfUnwindGetRegisterValue ?f (of_nat n)"
      by (simp add: new asg_def arm64.get_set_other)
    show ?thesis
    proof (cases "reg_location (state_registers st ! n) = FIRCLSDwarfRegisterUnused")
      case unused: True
      have "of_nat n \<notin> fst ` set asg" using n unused inj by (auto simp: asg_def assigned_def)
      then show ?thesis using g unused False by (simp add: arm64.get_fold_other caller_value_def)
    next
      case used: False
      have "distinct (map fst asg)"
        by (auto simp: asg_def assigned_def distinct_map inj_on_def inj)
      moreover have "(of_nat n, the (FIRCLSDwarfGetSavedRegister m registers cfa (state_registers st ! n)))
          \<in> set asg" using n used by (auto simp: asg_def assigned_def)
      ultimately show ?thesis using g used False le by (simp add: arm64.get_fold_assigned caller_value_def)
    qed
  qed
qed


lemma assign_registers_cases:
  assumes len: "length (state_registers st) = 32"
    and vals: "\<forall>i < 32. reg_location (state_registers st ! i) \<noteq> FIRCLSDwarfRegisterUnused \<longrightarrow>
      FIRCLSDwarfGetSavedRegister m registers cfa (state_registers st ! i) \<noteq> None"
  obtains new where
    "\<And>n. n < 32 \<Longrightarrow> FIRCLSDwarfUnwindGetRegisterValue new (of_nat n) = caller_value m st registers cfa n"
    "FIRCLSDwarfUnwindAssignRegisters m st registers cfa =
       (if FIRCLSDwarfCompareRegisters registers new CLS_DWARF_REG_SP \<or>
           FIRCLSDwarfCompareRegisters registers new CLS_DWARF_REG_RETURN
        then Some None else Some (Some new))"
proof -
  let ?val = "\<lambda>i. the (FIRCLSDwarfGetSavedRegister m registers cfa (state_registers st ! i))"
  let ?r = "fold (\<lambda>(n, v) r. snd (FIRCLSDwarfUnwindSetRegisterValue r n v))
         (assigned st ?val [0..<32]) registers"
  define new where "new = snd (FIRCLSDwarfUnwindSetRegisterValue ?r CLS_DWARF_REG_SP cfa)"
  have "assign_loop m st registers cfa [0..<32] registers = Some (Some ?r)"
    using vals by (intro assign_loop_fold [OF len]) auto
  moreover have "Suc (unat CLS_DWARF_MAX_REGISTER_NUM) = 32" by (simp add: CLS_DWARF_defs)
  moreover have "FIRCLSDwarfUnwindSetRegisterValue ?r CLS_DWARF_REG_SP cfa = (True, new)"
    using arm64.set_known [of CLS_DWARF_REG_SP ?r cfa]
    by (simp add: new_def prod_eq_iff CLS_DWARF_defs)
  ultimately have "FIRCLSDwarfUnwindAssignRegisters m st registers cfa =
       (if FIRCLSDwarfCompareRegisters registers new CLS_DWARF_REG_SP \<or>
           FIRCLSDwarfCompareRegisters registers new CLS_DWARF_REG_RETURN
        then Some None else Some (Some new))"
    by (simp add: FIRCLSDwarfUnwindAssignRegisters_def del: upt.simps)
  then show ?thesis using assigned_registers [OF len vals _ new_def] by (intro that)
qed

text \<open>
  C12. When \<open>FIRCLSDwarfUnwindAssignRegisters\<close> succeeds, every register of the new context is the
  one its rule gives (the CFA for the stack pointer, the callee's value for a register without a
  rule), and both the stack pointer and the return address differ from the callee's, so that
  repeated unwinding cannot stay in place.
\<close>

theorem FIRCLSDwarfUnwindAssignRegisters_correct:
  assumes "length (state_registers st) = 32"
    and "FIRCLSDwarfUnwindAssignRegisters m st registers cfa = Some (Some new)"
  shows "(\<forall>n < 32. FIRCLSDwarfUnwindGetRegisterValue new (of_nat n) = caller_value m st registers cfa n) \<and>
    FIRCLSDwarfUnwindGetRegisterValue new 31 \<noteq> FIRCLSDwarfUnwindGetRegisterValue registers 31 \<and>
    FIRCLSDwarfUnwindGetRegisterValue new 30 \<noteq> FIRCLSDwarfUnwindGetRegisterValue registers 30"
proof -
  have "Suc (unat CLS_DWARF_MAX_REGISTER_NUM) = 32" by (simp add: CLS_DWARF_defs)
  then obtain r' where "assign_loop m st registers cfa [0..<32] registers = Some (Some r')"
    using assms(2) by (auto simp: FIRCLSDwarfUnwindAssignRegisters_def and_then_Some_Some simp del: upt.simps)
  then have "\<forall>i < 32. reg_location (state_registers st ! i) \<noteq> FIRCLSDwarfRegisterUnused \<longrightarrow>
      FIRCLSDwarfGetSavedRegister m registers cfa (state_registers st ! i) \<noteq> None"
    using assign_loop_Some by (metis atLeastLessThan_iff atLeastLessThan_upt zero_le)
  from assign_registers_cases [OF assms(1) this] obtain new' where
    "\<And>n. n < 32 \<Longrightarrow> FIRCLSDwarfUnwindGetRegisterValue new' (of_nat n) = caller_value m st registers cfa n"
    "FIRCLSDwarfUnwindAssignRegisters m st registers cfa =
       (if FIRCLSDwarfCompareRegisters registers new' CLS_DWARF_REG_SP \<or>
           FIRCLSDwarfCompareRegisters registers new' CLS_DWARF_REG_RETURN
        then Some None else Some (Some new'))" by blast
  then show ?thesis using assms(2)
    by (auto simp: FIRCLSDwarfCompareRegisters_def CLS_DWARF_defs split: if_splits)
qed

definition saved_frame :: memory where
  "saved_frame = mem_of 8192 [0, 0x30, 0, 0, 0, 0, 0, 0, 0, 0x50, 0, 0, 0, 0, 0, 0]"

definition sample_callee :: thread_context where
  "sample_callee = \<lparr>ss_x = (\<lambda>_. 0), ss_fp = 8192, ss_lr = 64, ss_sp = 8000, ss_pc = 16404\<rparr>"

theorem FIRCLSDwarfUnwindAssignRegisters_correct_witness:
  "\<exists>new. FIRCLSDwarfUnwindAssignRegisters saved_frame
      (set_rule 30 \<lparr>reg_location = FIRCLSDwarfRegisterInCFA, reg_value = - 8\<rparr> zero_state)
      sample_callee 8208 = Some (Some new) \<and> FIRCLSDwarfUnwindGetRegisterValue new 30 = 0x5000"
proof -
  let ?st = "set_rule 30 \<lparr>reg_location = FIRCLSDwarfRegisterInCFA, reg_value = - 8\<rparr> zero_state"
  have len: "length (state_registers ?st) = 32" by (simp add: set_rule_def)
  have saved: "FIRCLSDwarfGetSavedRegister saved_frame sample_callee 8208 (state_registers ?st ! 30) = Some 0x5000"
    by (simp add: FIRCLSDwarfGetSavedRegister_def set_rule_def read_word_def FIRCLSReadMemory_def
        FIRCLSIsValidPointer_def saved_frame_def mem_of_def ptr_add_def)
  have unused: "reg_location (state_registers ?st ! i) = FIRCLSDwarfRegisterUnused" if "i < 32" "i \<noteq> 30" for i
    using that by (simp add: set_rule_def zero_state_def CLS_DWARF_defs)
  have "\<forall>i < 32. reg_location (state_registers ?st ! i) \<noteq> FIRCLSDwarfRegisterUnused \<longrightarrow>
      FIRCLSDwarfGetSavedRegister saved_frame sample_callee 8208 (state_registers ?st ! i) \<noteq> None"
    using saved unused by (metis option.distinct(1))
  from assign_registers_cases [OF len this] obtain new where
    v: "\<And>n. n < 32 \<Longrightarrow> FIRCLSDwarfUnwindGetRegisterValue new (of_nat n) =
          caller_value saved_frame ?st sample_callee 8208 n" and
    a: "FIRCLSDwarfUnwindAssignRegisters saved_frame ?st sample_callee 8208 =
       (if FIRCLSDwarfCompareRegisters sample_callee new CLS_DWARF_REG_SP \<or>
           FIRCLSDwarfCompareRegisters sample_callee new CLS_DWARF_REG_RETURN
        then Some None else Some (Some new))" by blast
  have "reg_location (state_registers ?st ! 30) \<noteq> FIRCLSDwarfRegisterUnused" by (simp add: set_rule_def)
  then have lr: "FIRCLSDwarfUnwindGetRegisterValue new 30 = 0x5000"
    using v [of 30] saved by (simp add: caller_value_def stored_value_def CLS_PTRAUTH_STRIP_def)
  have sp: "FIRCLSDwarfUnwindGetRegisterValue new 31 = 8208"
    using v [of 31] by (simp add: caller_value_def CLS_PTRAUTH_STRIP_def)
  have old: "FIRCLSDwarfUnwindGetRegisterValue sample_callee 31 = 8000"
    "FIRCLSDwarfUnwindGetRegisterValue sample_callee 30 = 64"
    by (simp_all add: sample_callee_def FIRCLSDwarfUnwindGetRegisterValue_def context_accessors
        CLS_PTRAUTH_STRIP_def CLS_DWARF_defs)
  have "FIRCLSDwarfUnwindAssignRegisters saved_frame ?st sample_callee 8208 = Some (Some new)"
    using a lr sp old by (simp add: FIRCLSDwarfCompareRegisters_def CLS_DWARF_defs)
  with FIRCLSDwarfUnwindAssignRegisters_correct [OF len this] lr show ?thesis by auto
qed

section \<open>Unwinding a standard frame\<close>

text \<open>The state after the instructions of \<open>standard_frame\<close>, past its prologue.\<close>

definition standard_state :: dwarf_state where
  "standard_state =
     set_rule 29 \<lparr>reg_location = FIRCLSDwarfRegisterInCFA, reg_value = - 16\<rparr>
       (set_rule 30 \<lparr>reg_location = FIRCLSDwarfRegisterInCFA, reg_value = - 8\<rparr>
         (zero_state\<lparr>cfaRegister := 29, cfaRegisterOffset := 16\<rparr>))"

lemma standard_run:
  assumes "cie_codeAlignFactor cie = 1" "cie_dataAlignFactor cie = - 8" "4 < sint pcOffset"
  shows "cfi_row cie (sint INTPTR_MAX - 1) p [CfiDefCfa 31 0] zero_state 0 =
           Some (Some (zero_state\<lparr>cfaRegister := 31, cfaRegisterOffset := 0\<rparr>))"
    and "cfi_row cie (sint pcOffset - 1) q standard_frame (zero_state\<lparr>cfaRegister := 31, cfaRegisterOffset := 0\<rparr>) 0 =
           Some (Some standard_state)"
proof -
  show "cfi_row cie (sint INTPTR_MAX - 1) p [CfiDefCfa 31 0] zero_state 0 =
           Some (Some (zero_state\<lparr>cfaRegister := 31, cfaRegisterOffset := 0\<rparr>))"
    by (simp add: INTPTR_MAX_def known_register_def zero_state_def)
  have "0 < sint pcOffset" using assms(3) by simp
  then show "cfi_row cie (sint pcOffset - 1) q standard_frame (zero_state\<lparr>cfaRegister := 31, cfaRegisterOffset := 0\<rparr>) 0 =
           Some (Some standard_state)"
    using assms
    by (simp add: standard_frame_def standard_state_def advanced_def sadd64_def known_register_def
        set_rule_def zero_state_def)
qed

lemma standard_state_rules:
  "length (state_registers standard_state) = 32" "cfaExpression standard_state = 0"
  "cfaRegister standard_state = 29" "cfaRegisterOffset standard_state = 16"
  "state_registers standard_state ! 30 = \<lparr>reg_location = FIRCLSDwarfRegisterInCFA, reg_value = - 8\<rparr>"
  "state_registers standard_state ! 29 = \<lparr>reg_location = FIRCLSDwarfRegisterInCFA, reg_value = - 16\<rparr>"
  "i < 32 \<Longrightarrow> i \<noteq> 29 \<Longrightarrow> i \<noteq> 30 \<Longrightarrow>
     reg_location (state_registers standard_state ! i) = FIRCLSDwarfRegisterUnused"
  by (auto simp: standard_state_def set_rule_def zero_state_def CLS_DWARF_defs nth_list_update)

lemma read_frame:
  assumes "FIRCLSReadMemory m fp 16 = Some bs"
  shows "read_word m fp = Some (of_nat (bytes_nat (take 8 bs)))"
    "read_word m (fp + 8) = Some (of_nat (bytes_nat (drop 8 bs)))" "length bs = 16"
proof -
  have fp: "4096 \<le> fp" and len: "length bs = 16" and at: "bytes_at m fp (take 8 bs @ drop 8 bs)"
    using assms by (auto simp: FIRCLSReadMemory_def FIRCLSIsValidPointer_def load_bytes_iff
        simp del: load_bytes_numeral split: if_splits)
  have parts: "load_bytes m fp 8 = Some (take 8 bs)" "load_bytes m (fp + 8) 8 = Some (drop 8 bs)"
    using at len unfolding bytes_at_append load_bytes_iff by (simp_all add: min_absorb2)
  have "unat (fp + 8) = unat fp + 8"
    using bytes_at_end [OF at] len unat_add_of_nat [of fp 8] by simp
  then have "4096 \<le> fp + 8" using fp by (simp add: word_le_nat_alt)
  then show "read_word m fp = Some (of_nat (bytes_nat (take 8 bs)))"
    "read_word m (fp + 8) = Some (of_nat (bytes_nat (drop 8 bs)))"
    using fp parts by (simp_all add: read_word_def FIRCLSReadMemory_def FIRCLSIsValidPointer_def
        del: load_bytes_numeral)
  show "length bs = 16" by (rule len)
qed

text \<open>The registers a standard frame gives, written out.\<close>

lemma standard_assign:
  assumes read: "FIRCLSReadMemory m fp 16 = Some bs"
    and caller: "caller = registers
          \<lparr>ss_fp := of_nat (bytes_nat (take 8 bs)), ss_lr := of_nat (bytes_nat (drop 8 bs)),
           ss_pc := of_nat (bytes_nat (drop 8 bs)), ss_sp := fp + 16\<rparr>"
    and sp: "FIRCLSThreadContextGetStackPointer registers \<noteq> FIRCLSThreadContextGetStackPointer caller"
    and lr: "FIRCLSThreadContextGetLinkRegister registers \<noteq> FIRCLSThreadContextGetLinkRegister caller"
  shows "FIRCLSDwarfUnwindAssignRegisters m standard_state registers (fp + 16) = Some (Some caller)"
proof -
  let ?val = "\<lambda>i :: nat. if i = 29 then of_nat (bytes_nat (take 8 bs)) else of_nat (bytes_nat (drop 8 bs))"
  have saved: "FIRCLSDwarfGetSavedRegister m registers (fp + 16) (state_registers standard_state ! i) =
      Some (?val i)" if "i = 29 \<or> i = 30" for i
    using that read_frame [OF read]
    by (auto simp: FIRCLSDwarfGetSavedRegister_def standard_state_rules add.commute)
  have range32: "[0..<32] = [0..<29] @ [29, 30, 31 :: nat]" by (simp add: upt_rec)
  have "filter (\<lambda>i. reg_location (state_registers standard_state ! i) \<noteq> FIRCLSDwarfRegisterUnused) [0..<29] = []"
    by (simp add: standard_state_rules filter_empty_conv)
  then have asg: "assigned standard_state ?val [0..<32] = [(29, ?val 29), (30, ?val 30)]"
    unfolding assigned_def range32 by (simp add: standard_state_rules del: upt_Suc)
  have "assign_loop m standard_state registers (fp + 16) [0..<32] registers = Some (Some
     (fold (\<lambda>(n, v) r. snd (FIRCLSDwarfUnwindSetRegisterValue r n v)) (assigned standard_state ?val [0..<32])
        registers))"
    using saved standard_state_rules(1,7) by (intro assign_loop_fold) force+
  then have loop: "assign_loop m standard_state registers (fp + 16)
      [0..<Suc (unat CLS_DWARF_MAX_REGISTER_NUM)] registers = Some (Some (registers
          \<lparr>ss_fp := of_nat (bytes_nat (take 8 bs)), ss_lr := of_nat (bytes_nat (drop 8 bs)),
           ss_pc := of_nat (bytes_nat (drop 8 bs))\<rparr>))"
    unfolding asg by (simp add: FIRCLSDwarfUnwindSetRegisterValue_def CLS_DWARF_defs context_accessors
        del: upt_Suc)
  show ?thesis
    unfolding FIRCLSDwarfUnwindAssignRegisters_def loop using sp lr
    by (simp add: caller FIRCLSDwarfUnwindSetRegisterValue_def CLS_DWARF_defs
        FIRCLSDwarfCompareRegisters_def FIRCLSDwarfUnwindGetRegisterValue_def context_accessors)
qed

lemma standard_compute:
  assumes cfi: "cfi_cie cfi = cie_of base 1 1 (- 8) 30 enc (cfi_program [CfiDefCfa 31 0])"
    "fde_startAddress (cfi_fde cfi) = start"
    "fde_instructions (cfi_fde cfi) = \<lparr>instr_length = 8, instr_data = q\<rparr>"
    and at: "bytes_at m base (cie_bytes 1 1 (- 8) 30 enc (cfi_program [CfiDefCfa 31 0]))"
      "bytes_at m q (cfi_program standard_frame)"
    and pc: "4 < sint (FIRCLSThreadContextGetPC registers - start)"
    and assign: "FIRCLSDwarfUnwindAssignRegisters m standard_state registers
      (FIRCLSThreadContextGetFramePointer registers + 16) = Some (Some caller)"
  shows "FIRCLSDwarfUnwindComputeRegisters m cfi registers = Some (Some caller)"
proof -
  let ?cie = "cfi_cie cfi"
  have cie: "cie_codeAlignFactor ?cie = 1" "cie_dataAlignFactor ?cie = - 8"
    "cie_instructions ?cie = \<lparr>instr_length = of_nat (length (cfi_program [CfiDefCfa 31 0])),
       instr_data = base + 4 + of_nat (length (cie_header 1 1 (- 8) 30 enc))\<rparr>"
    by (simp_all add: cfi cie_of_def Let_def)
  note run = standard_run [OF cie(1,2) pc]
  have "FIRCLSDwarfInstructionsEnumerate m (cie_instructions ?cie) ?cie zero_state INTPTR_MAX =
      Some (Some (zero_state\<lparr>cfaRegister := 31, cfaRegisterOffset := 0\<rparr>))"
    unfolding cie(3) run(1) [symmetric, of "base + 4 + of_nat (length (cie_header 1 1 (- 8) 30 enc))"]
    using cie_instructions_at [OF at(1)]
    by (intro enumerate_agrees) (simp_all add: cie cfi_program_def uleb128.simps)
  moreover have "FIRCLSDwarfInstructionsEnumerate m \<lparr>instr_length = of_nat (length (cfi_program standard_frame)),
      instr_data = q\<rparr> ?cie (zero_state\<lparr>cfaRegister := 31, cfaRegisterOffset := 0\<rparr>)
      (FIRCLSThreadContextGetPC registers - start) = Some (Some standard_state)"
    unfolding run(2) [symmetric, of q]
    using at(2) standard_frame_ok by (intro enumerate_agrees) (simp_all add: cie standard_frame_bytes)
  moreover have "\<not> sint (FIRCLSThreadContextGetPC registers - start) < 0" using pc by simp
  moreover have "FIRCLSDwarfGetCFA m standard_state registers =
      Some (Some (FIRCLSThreadContextGetFramePointer registers + 16))"
    by (simp add: FIRCLSDwarfGetCFA_def standard_state_rules FIRCLSDwarfUnwindGetRegisterValue_def
        CLS_DWARF_defs)
  ultimately show ?thesis
    using assign by (simp add: FIRCLSDwarfUnwindComputeRegisters_def cfi standard_frame_bytes)
qed

end
