(* ===== verification/Compact_Unwind.thy ===== *)
theory Compact_Unwind
  imports Dwarf_Instructions
begin

text \<open>
  The lookup of a program counter in a compact unwind section and the unwinding step its encoding
  asks for: \<^verbatim>\<open>Crashlytics/Unwind/Compact/FIRCLSCompactUnwind.c\<close> and
  \<open>FIRCLSCompactUnwindComputeRegisters\<close> of \<^verbatim>\<open>Crashlytics/Unwind/FIRCLSUnwind_arm.c\<close>.

  The layout of the section is in \<^verbatim>\<open>mach-o/compact_unwind_encoding.h\<close>, a header of Apple's SDK that
  is not part of the repository. What the code uses of it is a parameter of the model: the record
  \<open>unwind_sdk\<close> has one field for each constant and macro, and one for each structure member the
  code reads, a function from the memory and the address of the structure to the value.
\<close>

section \<open>What the SDK header provides\<close>

record section_header =
  header_version :: u32
  commonEncodingsArraySectionOffset :: u32
  commonEncodingsArrayCount :: u32
  indexSectionOffset :: u32
  indexCount :: u32

record index_entry =
  entry_functionOffset :: u32
  secondLevelPagesSectionOffset :: u32

record unwind_sdk =
  UNWIND_SECTION_VERSION :: u32
  UNWIND_SECOND_LEVEL_REGULAR :: u32
  UNWIND_SECOND_LEVEL_COMPRESSED :: u32
  UNWIND_ARM64_MODE_MASK :: u32
  UNWIND_ARM64_MODE_FRAMELESS :: u32
  UNWIND_ARM64_MODE_DWARF :: u32
  UNWIND_ARM64_MODE_FRAME :: u32
  UNWIND_ARM64_DWARF_SECTION_OFFSET :: u32
  FUNC_OFFSET :: "u32 \<Rightarrow> u32"
  ENCODING_INDEX :: "u32 \<Rightarrow> u32"
  header_size :: nat
  header_of :: "byte list \<Rightarrow> section_header"
  index_entry_size :: u64
  index_entry_at :: "memory \<Rightarrow> addr \<Rightarrow> index_entry option"
  functionOffset_at :: "memory \<Rightarrow> addr \<Rightarrow> u32 option"
  entryPageOffset_at :: "memory \<Rightarrow> addr \<Rightarrow> u16 option"
  entryCount_at :: "memory \<Rightarrow> addr \<Rightarrow> u16 option"
  encodingsPageOffset_at :: "memory \<Rightarrow> addr \<Rightarrow> u16 option"

section \<open>The context\<close>

record compact_context =
  unwindInfo :: addr
  ehFrame :: addr
  loadAddress :: addr
  unwindHeader :: section_header
  indexHeader :: index_entry
  firstLevelNextFunctionOffset :: u32

record compact_result =
  result_encoding :: u32
  functionStart :: addr
  functionEnd :: addr

definition zero_index_entry :: index_entry where
  "zero_index_entry = \<lparr>entry_functionOffset = 0, secondLevelPagesSectionOffset = 0\<rparr>"

definition FIRCLSCompactUnwindInit ::
    "unwind_sdk \<Rightarrow> memory \<Rightarrow> addr \<Rightarrow> addr \<Rightarrow> addr \<Rightarrow> compact_context option" where
  "FIRCLSCompactUnwindInit sdk m info eh load =
     (if \<not> FIRCLSIsValidPointer info then None
      else if \<not> FIRCLSIsValidPointer load then None
      else case FIRCLSReadMemory m info (header_size sdk) of
        None \<Rightarrow> None
      | Some bs \<Rightarrow>
          let header = header_of sdk bs in
          if header_version header \<noteq> UNWIND_SECTION_VERSION sdk then None
          else Some \<lparr>unwindInfo = info, ehFrame = eh, loadAddress = load, unwindHeader = header,
                     indexHeader = zero_index_entry, firstLevelNextFunctionOffset = 0\<rparr>)"

definition FIRCLSCompactUnwindGetIndexData :: "compact_context \<Rightarrow> addr" where
  "FIRCLSCompactUnwindGetIndexData ctx =
     unwindInfo ctx + ucast (indexSectionOffset (unwindHeader ctx))"

definition FIRCLSCompactUnwindGetCommonEncodings :: "compact_context \<Rightarrow> addr" where
  "FIRCLSCompactUnwindGetCommonEncodings ctx =
     unwindInfo ctx + ucast (commonEncodingsArraySectionOffset (unwindHeader ctx))"

definition FIRCLSCompactUnwindGetSecondLevelData :: "compact_context \<Rightarrow> addr" where
  "FIRCLSCompactUnwindGetSecondLevelData ctx =
     unwindInfo ctx + ucast (secondLevelPagesSectionOffset (indexHeader ctx))"

definition FIRCLSCompactUnwindGetIndexFunctionOffset :: "compact_context \<Rightarrow> addr" where
  "FIRCLSCompactUnwindGetIndexFunctionOffset ctx =
     loadAddress ctx + ucast (entry_functionOffset (indexHeader ctx))"

definition FIRCLSCompactUnwindGetTargetAddress :: "compact_context \<Rightarrow> addr \<Rightarrow> addr" where
  "FIRCLSCompactUnwindGetTargetAddress ctx pc =
     (let offset = FIRCLSCompactUnwindGetIndexFunctionOffset ctx in
      if pc \<le> offset then 0 else pc - offset)"

section \<open>The first level\<close>

text \<open>The address of element \<open>i\<close> of an array at \<open>p\<close>.\<close>

definition element_at :: "addr \<Rightarrow> u64 \<Rightarrow> nat \<Rightarrow> addr option" where
  "element_at p width i = ptr_add p (of_nat i * width)"

text \<open>The loop, from \<open>index\<close> on; the first argument is the number of iterations left.\<close>

fun first_level_loop ::
    "nat \<Rightarrow> unwind_sdk \<Rightarrow> memory \<Rightarrow> addr \<Rightarrow> addr \<Rightarrow> compact_context \<Rightarrow> nat \<Rightarrow> compact_context outcome"
  where
  "first_level_loop 0 sdk m entries address ctx index = Some None"
| "first_level_loop (Suc n) sdk m entries address ctx index =
     do { p \<leftarrow> element_at entries (index_entry_size sdk) index;
          v \<leftarrow> functionOffset_at sdk m p;
          q \<leftarrow> element_at entries (index_entry_size sdk) (index + 1);
          nextValue \<leftarrow> functionOffset_at sdk m q;
          if ucast v \<le> address \<and> address < ucast nextValue
          then do { e \<leftarrow> index_entry_at sdk m p;
                    Some (Some (ctx\<lparr>firstLevelNextFunctionOffset := nextValue, indexHeader := e\<rparr>)) }
          else first_level_loop n sdk m entries address ctx (index + 1) }"

definition FIRCLSCompactUnwindLookupFirstLevel ::
    "unwind_sdk \<Rightarrow> memory \<Rightarrow> compact_context \<Rightarrow> addr \<Rightarrow> compact_context outcome" where
  "FIRCLSCompactUnwindLookupFirstLevel sdk m ctx address =
     (let count = unat (indexCount (unwindHeader ctx)) in
      if count < 2 then Some None
      else if address < loadAddress ctx then Some None
      else let entries = FIRCLSCompactUnwindGetIndexData ctx in
        if entries = 0 then Some None
        else first_level_loop (count - 1) sdk m entries (address - loadAddress ctx) ctx 0)"

section \<open>The second level\<close>

definition FIRCLSCompactUnwindGetSecondLevelPageKind :: "memory \<Rightarrow> compact_context \<Rightarrow> u32 option" where
  "FIRCLSCompactUnwindGetSecondLevelPageKind m ctx =
     load_le 4 m (FIRCLSCompactUnwindGetSecondLevelData ctx)"

definition FIRCLSCompactUnwindLookupSecondLevelRegular ::
    "compact_context \<Rightarrow> addr \<Rightarrow> compact_result outcome" where
  "FIRCLSCompactUnwindLookupSecondLevelRegular ctx pc = Some None"

text \<open>\<open>array[i]\<close> for an array of \<open>uint32_t\<close>.\<close>

definition array_u32 :: "memory \<Rightarrow> addr \<Rightarrow> nat \<Rightarrow> u32 option" where
  "array_u32 m p i = do { q \<leftarrow> element_at p 4 i; load_le 4 m q }"

text \<open>
  The binary search. The indices are below \<open>2^17\<close>, so the \<open>uint32_t\<close> arithmetic on them is that
  of natural numbers.
\<close>

function search_loop ::
    "unwind_sdk \<Rightarrow> memory \<Rightarrow> addr \<Rightarrow> nat \<Rightarrow> addr \<Rightarrow> nat \<Rightarrow> nat \<Rightarrow> nat outcome" where
  "search_loop sdk m entryArray entryCount address index highIndex =
     (if index < highIndex then
        let midIndex = (index + highIndex) div 2 in
        (case array_u32 m entryArray midIndex of
           None \<Rightarrow> None
         | Some e \<Rightarrow>
             if ucast (FUNC_OFFSET sdk e) > address
             then (if highIndex = midIndex then Some None
                   else search_loop sdk m entryArray entryCount address index midIndex)
             else if midIndex = entryCount - 1 then Some None
             else (case array_u32 m entryArray (midIndex + 1) of
                     None \<Rightarrow> None
                   | Some e' \<Rightarrow>
                       if ucast (FUNC_OFFSET sdk e') > address then Some (Some midIndex)
                       else search_loop sdk m entryArray entryCount address (midIndex + 1) highIndex))
      else Some (if index < entryCount then Some index else None))"
  by pat_completeness auto
termination
  by (relation "measure (\<lambda>(sdk, m, p, n, a, index, high). high - index)") auto

declare search_loop.simps [simp del]

definition FIRCLSCompactUnwindBinarySearchSecondLevel ::
    "unwind_sdk \<Rightarrow> memory \<Rightarrow> addr \<Rightarrow> u16 \<Rightarrow> addr \<Rightarrow> nat outcome" where
  "FIRCLSCompactUnwindBinarySearchSecondLevel sdk m address entryCount entryArray =
     (if entryArray = 0 then Some None
      else if entryCount = 0 then Some None
      else if address = 0 then Some None
      else search_loop sdk m entryArray (unat entryCount) address 0 (unat entryCount))"

text \<open>The encoding an entry of the page at \<open>ptr\<close> refers to: a common one or one of the page.\<close>

definition entry_encoding ::
    "unwind_sdk \<Rightarrow> memory \<Rightarrow> compact_context \<Rightarrow> addr \<Rightarrow> u32 \<Rightarrow> u32 option" where
  "entry_encoding sdk m ctx ptr entry =
     (let encodingIndex = ENCODING_INDEX sdk entry;
          common = commonEncodingsArrayCount (unwindHeader ctx) in
      if encodingIndex < common
      then array_u32 m (FIRCLSCompactUnwindGetCommonEncodings ctx) (unat encodingIndex)
      else do { encodingsPageOffset \<leftarrow> encodingsPageOffset_at sdk m ptr;
                encodings \<leftarrow> ptr_add ptr (ucast encodingsPageOffset);
                array_u32 m encodings (unat (encodingIndex - common)) })"

text \<open>
  The end of the function is the start of the next one, or the end of the page for the last one;
  the sum of the two offsets is computed in \<open>uint32_t\<close>.
\<close>

definition FIRCLSCompactUnwindLookupSecondLevelCompressed ::
    "unwind_sdk \<Rightarrow> memory \<Rightarrow> compact_context \<Rightarrow> addr \<Rightarrow> compact_result outcome" where
  "FIRCLSCompactUnwindLookupSecondLevelCompressed sdk m ctx pc =
     (let ptr = FIRCLSCompactUnwindGetSecondLevelData ctx in
      if ptr = 0 then Some None
      else do {
        let targetAddress = FIRCLSCompactUnwindGetTargetAddress ctx pc;
        entryPageOffset \<leftarrow> entryPageOffset_at sdk m ptr;
        entryArray \<leftarrow> ptr_add ptr (ucast entryPageOffset);
        entryCount \<leftarrow> entryCount_at sdk m ptr;
        and_then
          (FIRCLSCompactUnwindBinarySearchSecondLevel sdk m targetAddress entryCount entryArray)
          (\<lambda>index. do {
             entry \<leftarrow> array_u32 m entryArray index;
             let start = ucast (FUNC_OFFSET sdk entry) + FIRCLSCompactUnwindGetIndexFunctionOffset ctx;
             ending \<leftarrow>
               (if index < unat entryCount - 1
                then do { e' \<leftarrow> array_u32 m entryArray (index + 1);
                          Some (loadAddress ctx + ucast (FUNC_OFFSET sdk e'
                                  + entry_functionOffset (indexHeader ctx))) }
                else Some (loadAddress ctx + ucast (firstLevelNextFunctionOffset ctx)));
             if pc < start \<or> pc \<ge> ending then Some None
             else do {
               encoding \<leftarrow> entry_encoding sdk m ctx ptr entry;
               if encoding = 0 then Some None
               else Some (Some \<lparr>result_encoding = encoding, functionStart = start,
                                functionEnd = ending\<rparr>) } }) })"

definition FIRCLSCompactUnwindLookupSecondLevel ::
    "unwind_sdk \<Rightarrow> memory \<Rightarrow> compact_context \<Rightarrow> addr \<Rightarrow> compact_result outcome" where
  "FIRCLSCompactUnwindLookupSecondLevel sdk m ctx pc =
     do { kind \<leftarrow> FIRCLSCompactUnwindGetSecondLevelPageKind m ctx;
          if kind = UNWIND_SECOND_LEVEL_REGULAR sdk
          then FIRCLSCompactUnwindLookupSecondLevelRegular ctx pc
          else if kind = UNWIND_SECOND_LEVEL_COMPRESSED sdk
          then FIRCLSCompactUnwindLookupSecondLevelCompressed sdk m ctx pc
          else Some None }"

text \<open>The result is the context, which the first level updates, and the encoding found.\<close>

definition FIRCLSCompactUnwindLookup ::
    "unwind_sdk \<Rightarrow> memory \<Rightarrow> compact_context \<Rightarrow> addr \<Rightarrow> (compact_context \<times> compact_result) outcome" where
  "FIRCLSCompactUnwindLookup sdk m ctx pc =
     and_then (FIRCLSCompactUnwindLookupFirstLevel sdk m ctx pc)
       (\<lambda>ctx. and_then (FIRCLSCompactUnwindLookupSecondLevel sdk m ctx pc)
                (\<lambda>result. Some (Some (ctx, result))))"

section \<open>Unwinding\<close>

definition FIRCLSCompactUnwindDwarfFrame ::
    "memory \<Rightarrow> compact_context \<Rightarrow> u64 \<Rightarrow> thread_context \<Rightarrow> thread_context outcome" where
  "FIRCLSCompactUnwindDwarfFrame m ctx dwarfOffset registers =
     and_then (FIRCLSDwarfParseCFIFromFDERecordOffset m (ehFrame ctx) dwarfOffset)
       (\<lambda>record. FIRCLSDwarfUnwindComputeRegisters m record registers)"

text \<open>A register function's result \<open>(ok, registers)\<close> as an outcome.\<close>

definition registers_outcome :: "bool \<times> thread_context \<Rightarrow> thread_context outcome" where
  "registers_outcome r = (if fst r then Some (Some (snd r)) else Some None)"

definition FIRCLSCompactUnwindComputeRegisters ::
    "unwind_sdk \<Rightarrow> memory \<Rightarrow> compact_context \<Rightarrow> compact_result \<Rightarrow> thread_context \<Rightarrow>
     thread_context outcome" where
  "FIRCLSCompactUnwindComputeRegisters sdk m ctx result registers =
     (let mode = result_encoding result AND UNWIND_ARM64_MODE_MASK sdk in
      if mode = UNWIND_ARM64_MODE_FRAMELESS sdk
      then registers_outcome (FIRCLSUnwindWithLRRegister registers)
      else if mode = UNWIND_ARM64_MODE_DWARF sdk
      then FIRCLSCompactUnwindDwarfFrame m ctx
             (ucast (result_encoding result AND UNWIND_ARM64_DWARF_SECTION_OFFSET sdk)) registers
      else if mode = UNWIND_ARM64_MODE_FRAME sdk
      then registers_outcome (FIRCLSUnwindWithFramePointer m registers False)
      else Some None)"

definition FIRCLSCompactUnwindLookupAndCompute ::
    "unwind_sdk \<Rightarrow> memory \<Rightarrow> compact_context \<Rightarrow> thread_context \<Rightarrow> thread_context outcome" where
  "FIRCLSCompactUnwindLookupAndCompute sdk m ctx registers =
     (let pc = FIRCLSThreadContextGetPC registers in
      if pc < loadAddress ctx then Some None
      else and_then (FIRCLSCompactUnwindLookup sdk m ctx pc)
             (\<lambda>(ctx, result). FIRCLSCompactUnwindComputeRegisters sdk m ctx result registers))"

section \<open>The search finds the interval of an address\<close>

text \<open>The index of the interval of a sorted table that contains a value.\<close>

definition interval_index :: "nat list \<Rightarrow> nat \<Rightarrow> nat" where
  "interval_index fs a = length (takeWhile (\<lambda>x. x \<le> a) fs) - 1"

lemma interval_index_eq:
  assumes "sorted fs" "i + 1 < length fs" "fs ! i \<le> a" "a < fs ! (i + 1)"
  shows "interval_index fs a = i"
proof -
  have "x \<le> a" if "x \<in> set (take (i + 1) fs)" for x
  proof -
    from that obtain k where "x = fs ! k" "k \<le> i" "k < length fs"
      by (auto simp: in_set_conv_nth)
    moreover have "fs ! k \<le> fs ! i" using assms calculation by (intro sorted_nth_mono) auto
    ultimately show ?thesis using assms(3) by simp
  qed
  moreover have "fs = take (i + 1) fs @ fs ! (i + 1) # drop (i + 2) fs"
    using assms(2) by (simp add: Cons_nth_drop_Suc)
  ultimately have "takeWhile (\<lambda>x. x \<le> a) fs = take (i + 1) fs"
    using assms(4) by (metis append.right_neutral not_le takeWhile.simps(2) takeWhile_append2)
  then show ?thesis using assms(2) by (simp add: interval_index_def)
qed

lemma interval_index_below:
  assumes "\<forall>x \<in> set fs. a < x"
  shows "interval_index fs a = 0"
  using assms by (cases fs) (auto simp: interval_index_def)

text \<open>The entries of a page, and the function offsets in them.\<close>

definition entries_at :: "memory \<Rightarrow> addr \<Rightarrow> u32 list \<Rightarrow> bool" where
  "entries_at m p es \<longleftrightarrow> (\<forall>i < length es. array_u32 m p i = Some (es ! i))"

definition offsets_of :: "unwind_sdk \<Rightarrow> u32 list \<Rightarrow> nat list" where
  "offsets_of sdk es = map (\<lambda>e. unat (FUNC_OFFSET sdk e)) es"

lemma offset_less: "ucast (x :: u32) > (a :: u64) \<longleftrightarrow> unat a < unat x"
  by (simp add: word_less_nat_alt unat_ucast_up)

lemma search_below:
  assumes "entries_at m p es" "\<forall>x \<in> set (offsets_of sdk es). unat a < x"
    and "high \<le> length es" "es \<noteq> []"
  shows "search_loop sdk m p (length es) a 0 high = Some (Some 0)"
  using assms(3)
proof (induction high rule: less_induct)
  case (less high)
  show ?case
  proof (cases "high = 0")
    case True
    then show ?thesis using assms(4) by (simp add: search_loop.simps [of sdk m p _ a])
  next
    case False
    then have mid: "high div 2 < high" "high div 2 < length es" using less.prems by auto
    then have "array_u32 m p (high div 2) = Some (es ! (high div 2))"
      using assms(1) by (simp add: entries_at_def)
    moreover have "unat a < unat (FUNC_OFFSET sdk (es ! (high div 2)))"
      using assms(2) mid(2) by (auto simp: offsets_of_def)
    moreover have "search_loop sdk m p (length es) a 0 (high div 2) = Some (Some 0)"
      using less.IH [OF mid(1)] mid(2) by simp
    ultimately show ?thesis
      using False mid(1) by (simp add: search_loop.simps [of sdk m p _ a _ high] offset_less)
  qed
qed

lemma search_within:
  assumes "entries_at m p es" "sorted (offsets_of sdk es)"
    and "fs = offsets_of sdk es" "index < high" "high \<le> length es" "fs ! index \<le> unat a"
    and "high < length es \<longrightarrow> unat a < fs ! high"
  shows "fs ! (length es - 1) \<le> unat a \<and> search_loop sdk m p (length es) a index high = Some None \<or>
    (\<exists>i. i + 1 < length es \<and> fs ! i \<le> unat a \<and> unat a < fs ! (i + 1) \<and>
         search_loop sdk m p (length es) a index high = Some (Some i))"
  using assms(4-7)
proof (induction "high - index" arbitrary: index high rule: less_induct)
  case less
  let ?mid = "(index + high) div 2"
  have mid: "index \<le> ?mid" "?mid < high" "?mid < length es" using less.prems by auto
  have fs: "fs ! k = unat (FUNC_OFFSET sdk (es ! k))" "array_u32 m p k = Some (es ! k)"
    if "k < length es" for k
    using that assms(1,3) by (simp_all add: offsets_of_def entries_at_def)
  note unfold = search_loop.simps [of sdk m p _ a index high] offset_less
  consider "unat a < fs ! ?mid" | "fs ! ?mid \<le> unat a" "?mid = length es - 1"
    | "fs ! ?mid \<le> unat a" "?mid + 1 < length es" "unat a < fs ! (?mid + 1)"
    | "fs ! ?mid \<le> unat a" "?mid + 1 < length es" "fs ! (?mid + 1) \<le> unat a"
    using mid(3) by linarith
  then show ?case
  proof cases
    case 1
    have "index \<noteq> ?mid" using 1 less.prems(3) by auto
    then have "index < ?mid" using mid(1) by simp
    then have "fs ! (length es - 1) \<le> unat a \<and> search_loop sdk m p (length es) a index ?mid = Some None \<or>
      (\<exists>i. i + 1 < length es \<and> fs ! i \<le> unat a \<and> unat a < fs ! (i + 1) \<and>
         search_loop sdk m p (length es) a index ?mid = Some (Some i))"
      using less.prems mid 1 by (intro less.hyps) auto
    then show ?thesis using 1 less.prems(1) mid fs [OF mid(3)] by (simp add: unfold)
  next
    case 2
    then show ?thesis using less.prems(1) mid fs [OF mid(3)] by (auto simp: unfold)
  next
    case 3
    then have "search_loop sdk m p (length es) a index high = Some (Some ?mid)"
      using less.prems(1) mid fs [OF mid(3)] fs [OF 3(2)] by (auto simp: unfold Let_def)
    then show ?thesis using 3 by blast
  next
    case 4
    have "?mid + 1 < high"
    proof (rule ccontr)
      assume "\<not> ?mid + 1 < high"
      then have "high = ?mid + 1" using mid by simp
      then show False using less.prems(4) 4 by auto
    qed
    then have "fs ! (length es - 1) \<le> unat a \<and> search_loop sdk m p (length es) a (?mid + 1) high = Some None \<or>
      (\<exists>i. i + 1 < length es \<and> fs ! i \<le> unat a \<and> unat a < fs ! (i + 1) \<and>
         search_loop sdk m p (length es) a (?mid + 1) high = Some (Some i))"
      using less.prems mid 4 by (intro less.hyps) auto
    moreover have "search_loop sdk m p (length es) a index high =
        search_loop sdk m p (length es) a (?mid + 1) high"
      using 4 less.prems(1) mid fs [OF mid(3)] fs [OF 4(2)] by (auto simp: unfold Let_def)
    ultimately show ?thesis by simp
  qed
qed


lemma search_total:
  assumes "entries_at m p es" "sorted (offsets_of sdk es)" "es \<noteq> []" "fs = offsets_of sdk es"
  shows "search_loop sdk m p (length es) a 0 (length es) =
    Some (if last fs \<le> unat a then None else Some (interval_index fs (unat a)))"
proof -
  have len: "length fs = length es" "fs \<noteq> []" using assms(3,4) by (auto simp: offsets_of_def)
  have pos: "0 < length es" and last: "last fs = fs ! (length es - 1)"
    using assms(3) len by (simp_all add: last_conv_nth)
  show ?thesis
  proof (cases "unat a < fs ! 0")
    case True
    have below: "\<forall>x \<in> set fs. unat a < x"
    proof
      fix x assume "x \<in> set fs"
      then obtain k where k: "x = fs ! k" "k < length fs" by (auto simp: in_set_conv_nth)
      have "fs ! 0 \<le> fs ! k" using assms(2,4) k(2) by (intro sorted_nth_mono) auto
      then show "unat a < x" using True k by simp
    qed
    then have "unat a < last fs" using len(2) by simp
    then show ?thesis
      using search_below [OF assms(1) _ order_refl assms(3)] below interval_index_below [OF below]
      by (simp add: assms(4))
  next
    case False
    have "fs ! (length es - 1) \<le> unat a \<and> search_loop sdk m p (length es) a 0 (length es) = Some None \<or>
      (\<exists>i. i + 1 < length es \<and> fs ! i \<le> unat a \<and> unat a < fs ! (i + 1) \<and>
           search_loop sdk m p (length es) a 0 (length es) = Some (Some i))"
      using False pos by (intro search_within [OF assms(1,2,4)]) auto
    then show ?thesis
    proof
      assume "fs ! (length es - 1) \<le> unat a \<and> search_loop sdk m p (length es) a 0 (length es) = Some None"
      then show ?thesis by (simp add: last)
    next
      assume "\<exists>i. i + 1 < length es \<and> fs ! i \<le> unat a \<and> unat a < fs ! (i + 1) \<and>
           search_loop sdk m p (length es) a 0 (length es) = Some (Some i)"
      then obtain i where i: "i + 1 < length es" "fs ! i \<le> unat a" "unat a < fs ! (i + 1)"
        "search_loop sdk m p (length es) a 0 (length es) = Some (Some i)" by blast
      have "fs ! (i + 1) \<le> fs ! (length es - 1)"
        using i(1) len assms(2,4) by (intro sorted_nth_mono) auto
      then have "\<not> last fs \<le> unat a" unfolding last using i(3) by simp
      then show ?thesis using i interval_index_eq [of fs i] assms(2,4) len by simp
    qed
  qed
qed

text \<open>
  C14. On a page of entries whose function offsets are sorted, the binary search of the second
  level is total and reads no entry outside the page. An address between the first and the last entry is found:
  the index is that of the entry \<open>i\<close> with \<open>fs ! i \<le> a < fs ! (i + 1)\<close>. Below the first entry the result is
  index 0, which the caller rejects by the bounds of the function. The address 0 and every address from the last
  entry on are reported as not found, although the caller has code for the end of the last function
  (\<open>last_function_not_found\<close>).
\<close>

theorem FIRCLSCompactUnwindBinarySearchSecondLevel_correct:
  assumes "entries_at m p es" "sorted (offsets_of sdk es)" "es \<noteq> []" "length es < 2 ^ 16" "p \<noteq> 0"
  shows "(a \<noteq> 0 \<and> i + 1 < length es \<and> offsets_of sdk es ! i \<le> unat a \<and> unat a < offsets_of sdk es ! (i + 1) \<longrightarrow>
      FIRCLSCompactUnwindBinarySearchSecondLevel sdk m a (of_nat (length es)) p = Some (Some i)) \<and>
    (a \<noteq> 0 \<and> unat a < hd (offsets_of sdk es) \<longrightarrow>
      FIRCLSCompactUnwindBinarySearchSecondLevel sdk m a (of_nat (length es)) p = Some (Some 0)) \<and>
    (a = 0 \<or> last (offsets_of sdk es) \<le> unat a \<longrightarrow>
      FIRCLSCompactUnwindBinarySearchSecondLevel sdk m a (of_nat (length es)) p = Some None)"
proof -
  let ?fs = "offsets_of sdk es"
  have len: "length ?fs = length es" "?fs \<noteq> []" using assms(3) by (simp_all add: offsets_of_def)
  have "unat (of_nat (length es) :: u16) = length es" using assms(4) by (simp add: unat_of_nat)
  moreover from this have "(of_nat (length es) :: u16) \<noteq> 0" using assms(3) by auto
  ultimately have search: "FIRCLSCompactUnwindBinarySearchSecondLevel sdk m a (of_nat (length es)) p =
    Some (if a = 0 \<or> last ?fs \<le> unat a then None else Some (interval_index ?fs (unat a)))"
    using search_total [OF assms(1-3) refl] assms(5)
    by (simp add: FIRCLSCompactUnwindBinarySearchSecondLevel_def)
  have "interval_index ?fs (unat a) = i" "\<not> last ?fs \<le> unat a"
    if "i + 1 < length es" "?fs ! i \<le> unat a" "unat a < ?fs ! (i + 1)"
  proof -
    show "interval_index ?fs (unat a) = i" using interval_index_eq [of ?fs i "unat a"] that assms(2) len by simp
    have "?fs ! (i + 1) \<le> last ?fs" using that(1) len assms(2) by (simp add: last_conv_nth sorted_nth_mono)
    then show "\<not> last ?fs \<le> unat a" using that(3) by simp
  qed
  moreover have "interval_index ?fs (unat a) = 0" "\<not> last ?fs \<le> unat a" if "unat a < hd ?fs"
  proof -
    have "unat a < x" if "x \<in> set ?fs" for x using that \<open>unat a < hd ?fs\<close> assms(2) len(2) by (cases ?fs) auto
    then show "interval_index ?fs (unat a) = 0" "\<not> last ?fs \<le> unat a"
      using interval_index_below [of ?fs "unat a"] len(2) by (simp_all add: not_le)
  qed
  ultimately show ?thesis by (simp add: search)
qed


text \<open>The header's values in Apple's SDK, for the witnesses.\<close>

definition sample_sdk :: unwind_sdk where
  "sample_sdk =
     \<lparr>UNWIND_SECTION_VERSION = 1, UNWIND_SECOND_LEVEL_REGULAR = 2, UNWIND_SECOND_LEVEL_COMPRESSED = 3,
      UNWIND_ARM64_MODE_MASK = 0x0F000000, UNWIND_ARM64_MODE_FRAMELESS = 0x02000000,
      UNWIND_ARM64_MODE_DWARF = 0x03000000, UNWIND_ARM64_MODE_FRAME = 0x04000000,
      UNWIND_ARM64_DWARF_SECTION_OFFSET = 0x00FFFFFF,
      FUNC_OFFSET = (\<lambda>e. e AND 0x00FFFFFF), ENCODING_INDEX = (\<lambda>e. drop_bit 24 e),
      header_size = 28,
      header_of = (\<lambda>bs. \<lparr>header_version = of_nat (bytes_nat (take 4 bs)),
        commonEncodingsArraySectionOffset = of_nat (bytes_nat (take 4 (drop 4 bs))),
        commonEncodingsArrayCount = of_nat (bytes_nat (take 4 (drop 8 bs))),
        indexSectionOffset = of_nat (bytes_nat (take 4 (drop 20 bs))),
        indexCount = of_nat (bytes_nat (take 4 (drop 24 bs)))\<rparr>),
      index_entry_size = 12,
      index_entry_at = (\<lambda>m p. do { v \<leftarrow> load_le 4 m p; q \<leftarrow> ptr_add p 4; s \<leftarrow> load_le 4 m q;
        Some \<lparr>entry_functionOffset = v, secondLevelPagesSectionOffset = s\<rparr> }),
      functionOffset_at = (\<lambda>m p. load_le 4 m p),
      entryPageOffset_at = (\<lambda>m p. do { q \<leftarrow> ptr_add p 4; load_le 2 m q }),
      entryCount_at = (\<lambda>m p. do { q \<leftarrow> ptr_add p 6; load_le 2 m q }),
      encodingsPageOffset_at = (\<lambda>m p. do { q \<leftarrow> ptr_add p 8; load_le 2 m q })\<rparr>"

lemma nat_bytes_u32: "of_nat (bytes_nat (nat_bytes 4 (unat e))) = (e :: u32)"
  by (subst of_nat_bytes_nat) simp_all

lemma entries_at_bytes:
  assumes "bytes_at m p (concat (map (\<lambda>e. nat_bytes 4 (unat e)) es))"
  shows "entries_at m p es"
  unfolding entries_at_def
proof (intro allI impI)
  fix i
  assume i: "i < length es"
  have len: "length (concat (map (\<lambda>e. nat_bytes 4 (unat e)) xs)) = 4 * length xs" for xs :: "u32 list"
    by (induction xs) (simp_all add: length_nat_bytes del: nat_bytes_numeral)
  have "es = take i es @ es ! i # drop (Suc i) es" using i by (simp add: Cons_nth_drop_Suc)
  then have "bytes_at m p (concat (map (\<lambda>e. nat_bytes 4 (unat e)) (take i es @ es ! i # drop (Suc i) es)))"
    using assms by simp
  then have "bytes_at m (p + of_nat (4 * i)) (nat_bytes 4 (unat (es ! i)))"
    using i unfolding map_append concat_append bytes_at_append list.map concat.simps len
    by (simp add: min_absorb2 del: nat_bytes_numeral)
  then have "load_le 4 m (p + of_nat (4 * i)) = Some (es ! i)"
    using load_le_bytes [OF _ length_nat_bytes, where ?'a = 32] nat_bytes_u32 [of "es ! i"]
    by (simp del: nat_bytes_numeral)
  moreover have "unat p + 4 * i < 2 ^ 64"
    using bytes_at_end [OF assms, unfolded len] i by simp
  then have "ptr_add p (of_nat (4 * i)) = Some (p + of_nat (4 * i))"
    by (simp only: ptr_add_def unat_of_nat) simp
  then have "ptr_add p (of_nat i * 4) = Some (p + of_nat (4 * i))" by (simp add: mult.commute)
  ultimately show "array_u32 m p i = Some (es ! i)" by (simp add: array_u32_def element_at_def)
qed

theorem FIRCLSCompactUnwindBinarySearchSecondLevel_correct_witness:
  "FIRCLSCompactUnwindBinarySearchSecondLevel sample_sdk (mem_of 4096 [16, 0, 0, 0, 32, 0, 0, 1, 64, 0, 0, 0])
     50 3 4096 = Some (Some 1)"
proof -
  let ?m = "mem_of 4096 [16, 0, 0, 0, 32, 0, 0, 1, 64, 0, 0, 0]" and ?es = "[16, 0x01000020, 64] :: u32 list"
  have "bytes_at ?m 4096 (concat (map (\<lambda>e. nat_bytes 4 (unat e)) ?es))"
    by (simp add: mem_of_def)
  then have "entries_at ?m 4096 ?es" by (rule entries_at_bytes)
  moreover have "offsets_of sample_sdk ?es = [16, 32, 64]"
    by (simp add: offsets_of_def sample_sdk_def)
  ultimately show ?thesis
    using FIRCLSCompactUnwindBinarySearchSecondLevel_correct [of ?m 4096 ?es sample_sdk 50 1] by simp
qed

section \<open>A compressed page\<close>

text \<open>
  The page of the context in memory: its header, its sorted entries \<open>es\<close>, and addresses that do
  not wrap: every function lies below \<open>2^32\<close> bytes from the load address.
\<close>

definition page_in_memory :: "unwind_sdk \<Rightarrow> memory \<Rightarrow> compact_context \<Rightarrow> addr \<Rightarrow> u32 list \<Rightarrow> bool" where
  "page_in_memory sdk m ctx p es \<longleftrightarrow>
     (let ptr = FIRCLSCompactUnwindGetSecondLevelData ctx in
      ptr \<noteq> 0 \<and> p \<noteq> 0 \<and>
      do { o' \<leftarrow> entryPageOffset_at sdk m ptr; ptr_add ptr (ucast o') } = Some p \<and>
      entryCount_at sdk m ptr = Some (of_nat (length es)) \<and> es \<noteq> [] \<and> length es < 2 ^ 16 \<and>
      entries_at m p es \<and> sorted (offsets_of sdk es) \<and>
      unat (loadAddress ctx) + 2 ^ 32 < 2 ^ 64 \<and>
      list_all (\<lambda>x. x + unat (entry_functionOffset (indexHeader ctx)) < 2 ^ 32) (offsets_of sdk es))"

definition page_base :: "compact_context \<Rightarrow> nat" where
  "page_base ctx = unat (loadAddress ctx) + unat (entry_functionOffset (indexHeader ctx))"

text \<open>
  The functions of the page: each with its entry, from its offset to that of the next function, the last one to
  the first function of the next page.
\<close>

definition page_functions :: "unwind_sdk \<Rightarrow> compact_context \<Rightarrow> u32 list \<Rightarrow> (nat \<times> nat \<times> u32) list" where
  "page_functions sdk ctx es =
     (let starts = map (\<lambda>x. page_base ctx + x) (offsets_of sdk es);
          page_end = unat (loadAddress ctx) + unat (firstLevelNextFunctionOffset ctx) in
      zip starts (zip (tl starts @ [page_end]) es))"

text \<open>What the lookup of \<open>pc\<close> in the page should give: the function that contains it, with its encoding.\<close>

definition page_lookup ::
    "unwind_sdk \<Rightarrow> memory \<Rightarrow> compact_context \<Rightarrow> u32 list \<Rightarrow> addr \<Rightarrow> compact_result outcome" where
  "page_lookup sdk m ctx es pc =
     (case find (\<lambda>(s, e, entry). s \<le> unat pc \<and> unat pc < e) (page_functions sdk ctx es) of
        None \<Rightarrow> Some None
      | Some (s, e, entry) \<Rightarrow> do {
          enc \<leftarrow> entry_encoding sdk m ctx (FIRCLSCompactUnwindGetSecondLevelData ctx) entry;
          if enc = 0 then Some None
          else Some (Some \<lparr>result_encoding = enc, functionStart = of_nat s, functionEnd = of_nat e\<rparr>) })"

text \<open>What the code finds: it searches by the index of the interval, and only below the last entry.\<close>

definition indexed_lookup ::
    "unwind_sdk \<Rightarrow> memory \<Rightarrow> compact_context \<Rightarrow> u32 list \<Rightarrow> addr \<Rightarrow> compact_result outcome" where
  "indexed_lookup sdk m ctx es pc =
     (let fs = offsets_of sdk es; base = page_base ctx; i = interval_index fs (unat pc - base) in
      if unat pc \<le> base \<or> unat pc < base + hd fs \<or> base + last fs \<le> unat pc then Some None
      else do { enc \<leftarrow> entry_encoding sdk m ctx (FIRCLSCompactUnwindGetSecondLevelData ctx) (es ! i);
                if enc = 0 then Some None
                else Some (Some \<lparr>result_encoding = enc, functionStart = of_nat (base + fs ! i),
                                 functionEnd = of_nat (base + fs ! (i + 1))\<rparr>) })"

lemma interval_index_bounds:
  assumes "sorted fs" "fs \<noteq> []" "hd fs \<le> a" "a < last fs"
  shows "interval_index fs a + 1 < length fs" "fs ! interval_index fs a \<le> a"
    "a < fs ! (interval_index fs a + 1)"
proof -
  let ?t = "takeWhile (\<lambda>x. x \<le> a) fs"
  have "?t \<noteq> []" using assms(2,3) by (cases fs) auto
  moreover have "?t \<noteq> fs" using assms(2,4) by (metis last_in_set not_le takeWhile_eq_all_conv)
  then have "length ?t < length fs"
    by (metis length_takeWhile_le nat_less_le takeWhile_eq_take take_all_iff order_refl)
  ultimately have n: "interval_index fs a + 1 = length ?t" "length ?t < length fs"
    by (auto simp: interval_index_def)
  then show "interval_index fs a + 1 < length fs" by simp
  show "a < fs ! (interval_index fs a + 1)" using nth_length_takeWhile [OF n(2)] n(1) by simp
  have "?t ! interval_index fs a \<in> set ?t" using n by (intro nth_mem) simp
  then have "?t ! interval_index fs a \<le> a" by (auto dest: set_takeWhileD)
  then show "fs ! interval_index fs a \<le> a" using n by (simp add: takeWhile_nth)
qed

text \<open>The two ends of a function of the page do not wrap.\<close>

lemma page_addresses:
  assumes page: "page_in_memory sdk m ctx p es" and fs: "fs = offsets_of sdk es"
  shows "unat (FIRCLSCompactUnwindGetIndexFunctionOffset ctx) = page_base ctx"
    and "i < length es \<Longrightarrow>
      ucast (FUNC_OFFSET sdk (es ! i)) + FIRCLSCompactUnwindGetIndexFunctionOffset ctx =
      of_nat (page_base ctx + fs ! i)"
    and "i < length es \<Longrightarrow>
      loadAddress ctx + ucast (FUNC_OFFSET sdk (es ! i) + entry_functionOffset (indexHeader ctx)) =
      of_nat (page_base ctx + fs ! i)"
    and "i < length es \<Longrightarrow> page_base ctx + fs ! i < 2 ^ 64"
proof -
  let ?fo = "entry_functionOffset (indexHeader ctx)"
  have load: "unat (loadAddress ctx) + 2 ^ 32 < 2 ^ 64" using page by (simp add: page_in_memory_def Let_def)
  have "unat ?fo < 2 ^ 32" using unsigned_less [of ?fo] by simp
  then show base: "unat (FIRCLSCompactUnwindGetIndexFunctionOffset ctx) = page_base ctx"
    using load unat_add_lt [of "loadAddress ctx" "ucast ?fo"]
    by (simp add: FIRCLSCompactUnwindGetIndexFunctionOffset_def page_base_def unat_ucast_up)
  assume i: "i < length es"
  have fsi: "fs ! i = unat (FUNC_OFFSET sdk (es ! i))" using i by (simp add: fs offsets_of_def)
  have lt: "fs ! i + unat ?fo < 2 ^ 32"
    using page i by (auto simp: page_in_memory_def Let_def fs list_all_length offsets_of_def)
  then show bound: "page_base ctx + fs ! i < 2 ^ 64" using load by (simp add: page_base_def)
  have u: "ucast x = (of_nat (unat x) :: u64)" for x :: u32 by simp
  have w: "x = of_nat (unat x)" for x :: u64 by simp
  show "ucast (FUNC_OFFSET sdk (es ! i)) + FIRCLSCompactUnwindGetIndexFunctionOffset ctx =
      of_nat (page_base ctx + fs ! i)"
    by (subst w [of "FIRCLSCompactUnwindGetIndexFunctionOffset ctx"]) (simp add: base fsi)
  have "unat (FUNC_OFFSET sdk (es ! i) + ?fo) = fs ! i + unat ?fo"
    using lt fsi by (simp add: unat_word_ariths)
  then have "ucast (FUNC_OFFSET sdk (es ! i) + ?fo) = (of_nat (fs ! i + unat ?fo) :: u64)"
    by (metis u)
  then show "loadAddress ctx + ucast (FUNC_OFFSET sdk (es ! i) + ?fo) = of_nat (page_base ctx + fs ! i)"
    by (simp add: page_base_def)
qed

lemma second_level_correct:
  assumes page: "page_in_memory sdk m ctx p es"
  shows "FIRCLSCompactUnwindLookupSecondLevelCompressed sdk m ctx pc = indexed_lookup sdk m ctx es pc"
proof -
  define fs base ptr where "fs = offsets_of sdk es" and "base = page_base ctx"
    and "ptr = FIRCLSCompactUnwindGetSecondLevelData ctx"
  define t where "t = FIRCLSCompactUnwindGetTargetAddress ctx pc"
  note addr = page_addresses [OF page fs_def, folded base_def]
  have p: "ptr \<noteq> 0" "p \<noteq> 0" "es \<noteq> []" "length es < 2 ^ 16" "entries_at m p es" "sorted fs"
    "entryCount_at sdk m ptr = Some (of_nat (length es))"
    using page by (simp_all add: page_in_memory_def Let_def fs_def ptr_def)
  obtain o' where o': "entryPageOffset_at sdk m ptr = Some o'" "ptr_add ptr (ucast o') = Some p"
    using page by (auto simp: page_in_memory_def Let_def ptr_def bind_eq_Some_conv)
  have len: "length fs = length es" "fs \<noteq> []" using p(3) by (auto simp: fs_def offsets_of_def)
  have n: "unat (of_nat (length es) :: u16) = length es" using p(4) by (simp add: unat_of_nat)
  have t0: "t = 0 \<longleftrightarrow> unat pc \<le> base" and t: "unat t = unat pc - base"
    using addr(1) by (auto simp: t_def FIRCLSCompactUnwindGetTargetAddress_def Let_def word_le_nat_alt
        base_def unat_sub word_unat_eq_iff)
  have search: "FIRCLSCompactUnwindBinarySearchSecondLevel sdk m t (of_nat (length es)) p =
    Some (if t = 0 \<or> last fs \<le> unat t then None else Some (interval_index fs (unat t)))"
    using search_total [OF p(5) _ p(3) refl, of sdk t] p n
    by (auto simp: FIRCLSCompactUnwindBinarySearchSecondLevel_def fs_def)
  have entry: "array_u32 m p i = Some (es ! i)" if "i < length es" for i
    using p(5) that by (simp add: entries_at_def)
  note unfold = FIRCLSCompactUnwindLookupSecondLevelCompressed_def indexed_lookup_def Let_def
    ptr_def [symmetric] t_def [symmetric] fs_def [symmetric] base_def [symmetric]
  let ?i = "interval_index fs (unat pc - base)"
  have start: "ucast (FUNC_OFFSET sdk (es ! i)) + FIRCLSCompactUnwindGetIndexFunctionOffset ctx =
      (of_nat (base + fs ! i) :: u64)" "unat (of_nat (base + fs ! i) :: u64) = base + fs ! i"
    if "i < length es" for i using addr(2,4) that by (simp_all add: unat_of_nat del: of_nat_add)
  note ending = addr(3)
  consider (out) "unat pc \<le> base \<or> base + last fs \<le> unat pc"
    | (low) "base < unat pc" "unat pc < base + last fs" "unat pc < base + hd fs"
    | (inside) "base < unat pc" "unat pc < base + last fs" "base + hd fs \<le> unat pc" by linarith
  then show ?thesis
  proof cases
    case out
    then have "t = 0 \<or> last fs \<le> unat t" using t t0 by auto
    then have "FIRCLSCompactUnwindBinarySearchSecondLevel sdk m t (of_nat (length es)) p = Some None"
      using search by simp
    moreover from out have "unat pc \<le> base \<or> unat pc < base + hd fs \<or> base + last fs \<le> unat pc" by blast
    ultimately show ?thesis using p o' by (simp add: unfold del: of_nat_add)
  next
    case low
    then have "\<forall>x \<in> set fs. unat pc - base < x"
      using p(6) len(2) by (cases fs) auto
    then have i: "?i = 0" by (rule interval_index_below)
    have s: "FIRCLSCompactUnwindBinarySearchSecondLevel sdk m t (of_nat (length es)) p = Some (Some 0)"
      using search low t t0 i by auto
    have n0: "0 < length es" using p(3) by simp
    have "pc < of_nat (base + fs ! 0)"
      using low(3) start(2) [OF n0] len(2) by (simp add: word_less_nat_alt hd_conv_nth del: of_nat_add)
    then show ?thesis
      using p o' s low entry [OF n0] start(1) [OF n0] entry [of 1] n
      by (auto simp: unfold bind_eq_Some_conv simp del: of_nat_add split: if_splits)
  next
    case inside
    define i where "i = ?i"
    have b: "i + 1 < length es" "fs ! i \<le> unat pc - base" "unat pc - base < fs ! (i + 1)"
      using interval_index_bounds [OF p(6) len(2), of "unat pc - base"] inside len by (auto simp: i_def)
    then have i: "i < length es" "i < length es - 1" by simp_all
    have s: "FIRCLSCompactUnwindBinarySearchSecondLevel sdk m t (of_nat (length es)) p = Some (Some i)"
      using search inside t t0 by (auto simp: i_def)
    have "\<not> pc < of_nat (base + fs ! i)" "\<not> of_nat (base + fs ! (i + 1)) \<le> pc"
      using b inside start(2) [OF i(1)] start(2) [OF b(1)]
      by (auto simp: word_less_nat_alt word_le_nat_alt simp del: of_nat_add)
    moreover have "\<not> (unat pc \<le> base \<or> unat pc < base + hd fs \<or> base + last fs \<le> unat pc)"
      using inside by auto
    ultimately show ?thesis
      unfolding unfold i_def [symmetric]
      using p o' s i(2) by (simp add: entry [OF i(1)] entry [OF b(1)] start(1) [OF i(1)] ending [OF b(1)] n
        del: of_nat_add One_nat_def cong: if_cong)
  qed
qed

lemma find_unique:
  assumes "i < length xs" "P (xs ! i)" "\<And>j. j < length xs \<Longrightarrow> P (xs ! j) \<Longrightarrow> j = i"
  shows "find P xs = Some (xs ! i)"
proof -
  have "\<not> P (xs ! j)" if "j < i" for j
  proof
    assume "P (xs ! j)"
    then have "j = i" using assms(1) assms(3) [of j] that by simp
    then show False using that by simp
  qed
  then have "i < length xs \<and> P (xs ! i) \<and> xs ! i = xs ! i \<and> (\<forall>j < i. \<not> P (xs ! j))" using assms(1,2) by simp
  then show ?thesis unfolding find_Some_iff by (intro exI [of _ i])
qed

lemma length_page_functions: "length (page_functions sdk ctx es) = length es"
  by (cases es) (simp_all add: page_functions_def Let_def offsets_of_def)

lemma page_functions_nth:
  assumes "i < length es"
  shows "page_functions sdk ctx es ! i = (page_base ctx + offsets_of sdk es ! i,
    if i + 1 < length es then page_base ctx + offsets_of sdk es ! (i + 1)
    else unat (loadAddress ctx) + unat (firstLevelNextFunctionOffset ctx), es ! i)"
proof -
  define starts where "starts = map (\<lambda>x. page_base ctx + x) (offsets_of sdk es)"
  define page_end where "page_end = unat (loadAddress ctx) + unat (firstLevelNextFunctionOffset ctx)"
  have len: "length starts = length es" by (simp add: starts_def offsets_of_def)
  have start: "starts ! k = page_base ctx + offsets_of sdk es ! k" if "k < length es" for k
    using that by (simp add: starts_def offsets_of_def)
  have "(tl starts @ [page_end]) ! i = (if i + 1 < length es then starts ! (i + 1) else page_end)"
    using assms len by (auto simp: nth_append nth_tl)
  then show ?thesis using assms len start unfolding page_functions_def Let_def starts_def [symmetric] page_end_def [symmetric] by simp
qed

text \<open>Below the last entry the two lookups agree.\<close>

lemma indexed_page_lookup:
  assumes "sorted (offsets_of sdk es)" "es \<noteq> []" "page_base ctx < unat pc" "unat pc < page_base ctx + last (offsets_of sdk es)"
  shows "indexed_lookup sdk m ctx es pc = page_lookup sdk m ctx es pc"
proof -
  let ?fs = "offsets_of sdk es" and ?b = "page_base ctx"
  let ?P = "\<lambda>(s, e, entry). s \<le> unat pc \<and> unat pc < e" and ?F = "page_functions sdk ctx es"
  have len: "length ?fs = length es" "?fs \<noteq> []" using assms(2) by (simp_all add: offsets_of_def)
  have mono: "?fs ! i \<le> ?fs ! j" if "i \<le> j" "j < length es" for i j
    using that assms(1) len(1) by (simp add: sorted_nth_mono)
  have last: "last ?fs = ?fs ! (length es - 1)" using len by (simp add: last_conv_nth)
  have in_last: "j + 1 < length es" if "j < length es" "?P (?F ! j)" for j
  proof (rule ccontr)
    assume "\<not> j + 1 < length es"
    then have "j = length es - 1" using that(1) by simp
    then have "last ?fs = ?fs ! j" using last by simp
    then show False using that(2) assms(4) unfolding page_functions_nth [OF that(1)] by simp
  qed
  show ?thesis
  proof (cases "unat pc < ?b + hd ?fs")
    case True
    have none: "\<not> ?P (?F ! j)" if "j < length es" for j
      using True mono [of 0 j] that len unfolding page_functions_nth [OF that] by (simp add: hd_conv_nth)
    have "\<not> (\<exists>x. x \<in> set ?F \<and> ?P x)"
    proof
      assume "\<exists>x. x \<in> set ?F \<and> ?P x"
      then obtain x where x: "x \<in> set ?F" "?P x" by blast
      from x(1) obtain j where "j < length es" "?F ! j = x" unfolding in_set_conv_nth length_page_functions by blast
      then show False using none [of j] x(2) by simp
    qed
    then have "find ?P ?F = None" unfolding find_None_iff .
    then have "page_lookup sdk m ctx es pc = Some None" unfolding page_lookup_def by (simp only: option.case)
    then show ?thesis using True unfolding indexed_lookup_def Let_def by (simp only: simp_thms if_True)
  next
    case False
    define i where "i = interval_index ?fs (unat pc - ?b)"
    have i: "i + 1 < length es" "?fs ! i \<le> unat pc - ?b" "unat pc - ?b < ?fs ! (i + 1)"
      using interval_index_bounds [OF assms(1) len(2), of "unat pc - ?b"] False assms(3,4) len(1) by (auto simp: i_def)
    have at: "?F ! i = (?b + ?fs ! i, ?b + ?fs ! (i + 1), es ! i)" using page_functions_nth [of i es] i(1) by simp
    have "find ?P ?F = Some (?F ! i)"
    proof (rule find_unique)
      show "i < length ?F" using i(1) by (simp add: length_page_functions)
      show "?P (?F ! i)" using i assms(3) unfolding at by auto
      fix j assume "j < length ?F" "?P (?F ! j)"
      then have j: "j < length es" "?P (?F ! j)" by (simp_all only: length_page_functions)
      then have b: "?fs ! j \<le> unat pc - ?b" "unat pc - ?b < ?fs ! (j + 1)"
        using in_last [OF j] j(2) assms(3) unfolding page_functions_nth [OF j(1)] by auto
      show "j = i"
      proof (rule ccontr)
        assume "j \<noteq> i"
        then have "j + 1 \<le> i \<or> i + 1 \<le> j" by linarith
        then show False using mono [of "j + 1" i] mono [of "i + 1" j] b i j(1) by linarith
      qed
    qed
    then have "page_lookup sdk m ctx es pc = do {
        enc \<leftarrow> entry_encoding sdk m ctx (FIRCLSCompactUnwindGetSecondLevelData ctx) (es ! i);
        if enc = 0 then Some None
        else Some (Some \<lparr>result_encoding = enc, functionStart = of_nat (?b + ?fs ! i), functionEnd = of_nat (?b + ?fs ! (i + 1))\<rparr>) }"
      unfolding page_lookup_def at by (simp only: option.case prod.case)
    moreover have "\<not> (unat pc \<le> ?b \<or> unat pc < ?b + hd ?fs \<or> ?b + last ?fs \<le> unat pc)" using False assms(3,4) by linarith
    ultimately show ?thesis unfolding indexed_lookup_def Let_def i_def [symmetric] by (simp only: if_False)
  qed
qed

text \<open>
  C15. On a compressed page in memory whose entries are sorted, the second-level lookup of a program counter
  returns the encoding and the bounds of the function of the page that contains it, if it lies behind the start of
  the page and before its last function; it fails where no function contains it or the encoding is 0. The lookup
  also fails for a program counter at the start of the page, and for every one from the start of the last function
  on, which the specification finds: a defect of the code, since lines 250 to 258 handle the last function.
\<close>

theorem FIRCLSCompactUnwindLookupSecondLevelCompressed_correct:
  assumes "page_in_memory sdk m ctx p es"
  shows "(page_base ctx < unat pc \<and> unat pc < page_base ctx + last (offsets_of sdk es) \<longrightarrow>
      FIRCLSCompactUnwindLookupSecondLevelCompressed sdk m ctx pc = page_lookup sdk m ctx es pc) \<and>
    (unat pc \<le> page_base ctx \<or> page_base ctx + last (offsets_of sdk es) \<le> unat pc \<longrightarrow>
      FIRCLSCompactUnwindLookupSecondLevelCompressed sdk m ctx pc = Some None)"
proof -
  have "sorted (offsets_of sdk es)" "es \<noteq> []" using assms by (simp_all add: page_in_memory_def Let_def)
  then have "FIRCLSCompactUnwindLookupSecondLevelCompressed sdk m ctx pc = page_lookup sdk m ctx es pc"
    if "page_base ctx < unat pc" "unat pc < page_base ctx + last (offsets_of sdk es)"
    using that indexed_page_lookup unfolding second_level_correct [OF assms] by blast
  then show ?thesis by (simp add: second_level_correct [OF assms] indexed_lookup_def Let_def)
qed

definition sample_page :: memory where
  "sample_page = mem_of 4096 [3, 0, 0, 0, 12, 0, 3, 0, 24, 0, 1, 0,
     16, 0, 0, 0, 32, 0, 0, 0, 64, 0, 0, 0, 0, 0, 0, 4]"

definition sample_context :: compact_context where
  "sample_context = \<lparr>unwindInfo = 4096, ehFrame = 0, loadAddress = 0x10000,
     unwindHeader = \<lparr>header_version = 1, commonEncodingsArraySectionOffset = 0,
       commonEncodingsArrayCount = 0, indexSectionOffset = 0, indexCount = 2\<rparr>,
     indexHeader = \<lparr>entry_functionOffset = 0x100, secondLevelPagesSectionOffset = 0\<rparr>,
     firstLevelNextFunctionOffset = 0x200\<rparr>"

lemma sample_page_in_memory: "page_in_memory sample_sdk sample_page sample_context 4108 [16, 32, 64]"
proof -
  have "bytes_at sample_page 4108 (concat (map (\<lambda>e. nat_bytes 4 (unat e)) ([16, 32, 64] :: u32 list)))"
    by (simp add: sample_page_def mem_of_def)
  then have "entries_at sample_page 4108 [16, 32, 64]" by (rule entries_at_bytes)
  then show ?thesis
    by (simp add: page_in_memory_def FIRCLSCompactUnwindGetSecondLevelData_def sample_context_def
        sample_sdk_def ptr_add_def load_le_def sample_page_def mem_of_def offsets_of_def)
qed

theorem FIRCLSCompactUnwindLookupSecondLevelCompressed_correct_witness:
  "FIRCLSCompactUnwindLookupSecondLevelCompressed sample_sdk sample_page sample_context 0x10128 =
     Some (Some \<lparr>result_encoding = 0x04000000, functionStart = 0x10120, functionEnd = 0x10140\<rparr>)"
  using FIRCLSCompactUnwindLookupSecondLevelCompressed_correct [OF sample_page_in_memory, of "0x10128"]
  by (simp add: page_lookup_def page_functions_def page_base_def offsets_of_def sample_sdk_def
      entry_encoding_def sample_context_def FIRCLSCompactUnwindGetSecondLevelData_def ptr_add_def
      load_le_def sample_page_def mem_of_def array_u32_def element_at_def)

text \<open>
  The last function of a page is never found: although the code computes its end from the
  next page, the binary search has already failed. A program counter anywhere from its start to
  the end of the page is reported as having no unwind information.
\<close>

theorem last_function_not_found:
  assumes "page_in_memory sdk m ctx p es"
    and "page_base ctx + last (offsets_of sdk es) \<le> unat pc"
  shows "FIRCLSCompactUnwindLookupSecondLevelCompressed sdk m ctx pc = Some None"
  unfolding second_level_correct [OF assms(1)] using assms(2) by (simp add: indexed_lookup_def Let_def)

theorem last_function_not_found_witness:
  "FIRCLSCompactUnwindLookupSecondLevelCompressed sample_sdk sample_page sample_context 0x10148 =
     Some None"
  by (rule last_function_not_found [OF sample_page_in_memory])
     (simp add: page_base_def offsets_of_def sample_sdk_def sample_context_def)

section \<open>The first level\<close>

text \<open>The index in memory: the offsets \<open>gs\<close>, the last of which ends the last page.\<close>

definition index_in_memory ::
    "unwind_sdk \<Rightarrow> memory \<Rightarrow> compact_context \<Rightarrow> index_entry list \<Rightarrow> nat list \<Rightarrow> bool" where
  "index_in_memory sdk m ctx es gs \<longleftrightarrow>
     (let entries = FIRCLSCompactUnwindGetIndexData ctx in
      entries \<noteq> 0 \<and> gs = map (\<lambda>e. unat (entry_functionOffset e)) es \<and>
      length es = unat (indexCount (unwindHeader ctx)) \<and>
      (\<forall>i < length es. do { q \<leftarrow> element_at entries (index_entry_size sdk) i;
                            functionOffset_at sdk m q } = Some (entry_functionOffset (es ! i)) \<and>
                       do { q \<leftarrow> element_at entries (index_entry_size sdk) i;
                            index_entry_at sdk m q } = Some (es ! i)) \<and>
      sorted gs)"

lemma first_level_loop_skip:
  assumes index: "index_in_memory sdk m ctx es gs" and n: "n + k + 1 = length es"
    and entries: "entries = FIRCLSCompactUnwindGetIndexData ctx"
  shows "first_level_loop n sdk m entries a ctx k =
    (if \<exists>i. k \<le> i \<and> i + 1 < length es \<and> gs ! i \<le> unat a \<and> unat a < gs ! (i + 1)
     then Some (Some (ctx\<lparr>firstLevelNextFunctionOffset :=
                            entry_functionOffset (es ! (interval_index gs (unat a) + 1)),
                          indexHeader := es ! interval_index gs (unat a)\<rparr>))
     else Some None)"
  using n
proof (induction n arbitrary: k)
  case 0
  then show ?case by auto
next
  case (Suc n)
  have gs: "gs ! i = unat (entry_functionOffset (es ! i))" if "i < length es" for i
    using index that by (simp add: index_in_memory_def Let_def)
  have k: "k < length es" "k + 1 < length es" using Suc.prems by auto
  have idx: "\<exists>q. element_at entries (index_entry_size sdk) i = Some q \<and>
      functionOffset_at sdk m q = Some (entry_functionOffset (es ! i)) \<and>
      index_entry_at sdk m q = Some (es ! i)" if "i < length es" for i
    using index that unfolding index_in_memory_def Let_def entries [symmetric]
    by (auto simp: bind_eq_Some_conv)
  obtain q q' where q: "element_at entries (index_entry_size sdk) k = Some q"
      "functionOffset_at sdk m q = Some (entry_functionOffset (es ! k))"
      "index_entry_at sdk m q = Some (es ! k)"
    and q': "element_at entries (index_entry_size sdk) (k + 1) = Some q'"
      "functionOffset_at sdk m q' = Some (entry_functionOffset (es ! (k + 1)))"
    using idx [OF k(1)] idx [OF k(2)] by blast
  have le: "ucast (x :: u32) \<le> a \<longleftrightarrow> unat x \<le> unat a" "a < ucast x \<longleftrightarrow> unat a < unat x" for x
    by (simp_all add: word_le_nat_alt word_less_nat_alt unat_ucast_up)
  show ?case
  proof (cases "gs ! k \<le> unat a \<and> unat a < gs ! (k + 1)")
    case True
    have "interval_index gs (unat a) = k"
      using True k index by (intro interval_index_eq) (auto simp: index_in_memory_def Let_def)
    moreover have "\<exists>i. k \<le> i \<and> i + 1 < length es \<and> gs ! i \<le> unat a \<and> unat a < gs ! (i + 1)"
      using True k by blast
    ultimately show ?thesis using True q q' gs [OF k(1)] gs [OF k(2)] by (simp add: le)
  next
    case False
    have "(\<exists>i. k \<le> i \<and> i + 1 < length es \<and> gs ! i \<le> unat a \<and> unat a < gs ! (i + 1)) \<longleftrightarrow>
          (\<exists>i. k + 1 \<le> i \<and> i + 1 < length es \<and> gs ! i \<le> unat a \<and> unat a < gs ! (i + 1))"
      using False by (metis Suc_eq_plus1 Suc_leD not_less_eq_eq order_antisym_conv)
    moreover have "first_level_loop (Suc n) sdk m entries a ctx k =
        first_level_loop n sdk m entries a ctx (k + 1)"
      using False q q' gs [OF k(1)] gs [OF k(2)] by (auto simp: le)
    moreover have "n + (k + 1) + 1 = length es" using Suc.prems by simp
    ultimately show ?thesis using Suc.IH [of "k + 1"] by presburger
  qed
qed


text \<open>
  C17. With a sorted index in memory, \<open>FIRCLSCompactUnwindLookupFirstLevel\<close> selects the one page
  whose interval contains the program counter, and records its entry and the start of the next
  page; it fails when the counter is outside the index.
\<close>

theorem FIRCLSCompactUnwindLookupFirstLevel_correct:
  assumes index: "index_in_memory sdk m ctx es gs" and two: "2 \<le> length es"
  shows "FIRCLSCompactUnwindLookupFirstLevel sdk m ctx pc =
    (let a = unat pc - unat (loadAddress ctx); i = interval_index gs a in
     if unat pc < unat (loadAddress ctx) \<or> a < hd gs \<or> last gs \<le> a then Some None
     else Some (Some (ctx\<lparr>firstLevelNextFunctionOffset := entry_functionOffset (es ! (i + 1)),
                          indexHeader := es ! i\<rparr>)))"
proof (cases "pc < loadAddress ctx")
  case True
  then show ?thesis
    by (auto simp: FIRCLSCompactUnwindLookupFirstLevel_def Let_def word_less_nat_alt)
next
  case False
  let ?a = "pc - loadAddress ctx"
  have a: "unat ?a = unat pc - unat (loadAddress ctx)" using False by (simp add: unat_sub word_le_nat_alt not_less)
  have gs: "gs \<noteq> []" "sorted gs" "length gs = length es" "length es = unat (indexCount (unwindHeader ctx))"
    "FIRCLSCompactUnwindGetIndexData ctx \<noteq> 0"
    using index two by (auto simp: index_in_memory_def Let_def)
  have within: "(\<exists>i. 0 \<le> i \<and> i + 1 < length es \<and> gs ! i \<le> unat ?a \<and> unat ?a < gs ! (i + 1)) \<longleftrightarrow>
      hd gs \<le> unat ?a \<and> unat ?a < last gs"
  proof
    assume "\<exists>i. 0 \<le> i \<and> i + 1 < length es \<and> gs ! i \<le> unat ?a \<and> unat ?a < gs ! (i + 1)"
    then obtain i where i: "i + 1 < length gs" "gs ! i \<le> unat ?a" "unat ?a < gs ! (i + 1)"
      using gs(3) by auto
    have "gs ! 0 \<le> gs ! i" "gs ! (i + 1) \<le> gs ! (length gs - 1)"
      using i(1) gs(2) by (auto intro!: sorted_nth_mono)
    then show "hd gs \<le> unat ?a \<and> unat ?a < last gs"
      using i gs(1) by (simp add: hd_conv_nth last_conv_nth)
  next
    assume "hd gs \<le> unat ?a \<and> unat ?a < last gs"
    then show "\<exists>i. 0 \<le> i \<and> i + 1 < length es \<and> gs ! i \<le> unat ?a \<and> unat ?a < gs ! (i + 1)"
      using interval_index_bounds [OF gs(2,1)] gs(3) by auto
  qed
  have "FIRCLSCompactUnwindLookupFirstLevel sdk m ctx pc =
      first_level_loop (length es - 1) sdk m (FIRCLSCompactUnwindGetIndexData ctx) ?a ctx 0"
    using False two gs by (simp add: FIRCLSCompactUnwindLookupFirstLevel_def Let_def)
  also have "\<dots> = (if hd gs \<le> unat ?a \<and> unat ?a < last gs
     then Some (Some (ctx\<lparr>firstLevelNextFunctionOffset :=
                            entry_functionOffset (es ! (interval_index gs (unat ?a) + 1)),
                          indexHeader := es ! interval_index gs (unat ?a)\<rparr>))
     else Some None)"
    unfolding within [symmetric] using two by (intro first_level_loop_skip [OF index _ refl]) simp
  finally show ?thesis using False by (auto simp: a Let_def word_less_nat_alt)
qed

definition sample_index :: memory where
  "sample_index = mem_of 4096 [0, 1, 0, 0, 28, 0, 0, 0, 0, 0, 0, 0,
                               0, 2, 0, 0, 0, 0, 0, 0, 0, 0, 0, 0]"

theorem FIRCLSCompactUnwindLookupFirstLevel_correct_witness:
  "FIRCLSCompactUnwindLookupFirstLevel sample_sdk sample_index sample_context 0x10128 =
     Some (Some (sample_context\<lparr>firstLevelNextFunctionOffset := 0x200,
       indexHeader := \<lparr>entry_functionOffset = 0x100, secondLevelPagesSectionOffset = 28\<rparr>\<rparr>))"
proof -
  let ?es = "[\<lparr>entry_functionOffset = 0x100, secondLevelPagesSectionOffset = 28\<rparr>,
              \<lparr>entry_functionOffset = 0x200, secondLevelPagesSectionOffset = 0\<rparr>]"
  have "index_in_memory sample_sdk sample_index sample_context ?es [0x100, 0x200]"
    by (simp add: index_in_memory_def FIRCLSCompactUnwindGetIndexData_def sample_context_def
        sample_sdk_def less_Suc_eq element_at_def ptr_add_def load_le_def sample_index_def mem_of_def)
  from FIRCLSCompactUnwindLookupFirstLevel_correct [OF this, where pc = "0x10128"] show ?thesis
    by (simp add: sample_context_def interval_index_def Let_def)
qed

end
