(* ===== verification/Unwind.thy ===== *)
theory Unwind
  imports Compact_Unwind
begin

text \<open>
  The stack walk of a crash report: the table of loaded images of
  \<^verbatim>\<open>Crashlytics/Components/FIRCLSBinaryImage.m\<close>, the choice of an unwinding strategy for each frame
  in \<^verbatim>\<open>Crashlytics/Unwind/FIRCLSUnwind.c\<close>, and the loop of
  \<^verbatim>\<open>Crashlytics/Components/FIRCLSProcess.c\<close> that records a thread's program counters.

  The context, the table and its entries are live objects, so that the NULL and pointer tests on
  them have nothing to test. The image table is modelled at rest: the compare-and-exchange that
  claims an entry finds the value the comparison before it found.
\<close>

section \<open>The image table\<close>

record image_node =
  node_baseAddress :: addr
  node_size :: u64
  node_ehFrame :: addr
  node_unwindInfo :: addr
  node_crashInfo :: addr

record image_table =
  table_initialized :: bool
  table_nodes :: "image_node list"

definition CLS_BINARY_IMAGE_RUNTIME_NODE_COUNT :: nat where
  "CLS_BINARY_IMAGE_RUNTIME_NODE_COUNT = 1024"

definition zero_node :: image_node where
  "zero_node = \<lparr>node_baseAddress = 0, node_size = 0, node_ehFrame = 0, node_unwindInfo = 0,
                node_crashInfo = 0\<rparr>"

definition contains_address :: "image_node \<Rightarrow> addr \<Rightarrow> bool" where
  "contains_address node address \<longleftrightarrow>
     node_baseAddress node \<le> address \<and> address < node_baseAddress node + node_size node"

fun find_loop :: "addr \<Rightarrow> image_node list \<Rightarrow> image_node option" where
  "find_loop address [] = None"
| "find_loop address (node # nodes) =
     (if contains_address node address then Some node else find_loop address nodes)"

definition FIRCLSBinaryImageSafeFindImageForAddress :: "image_table \<Rightarrow> addr \<Rightarrow> image_node option" where
  "FIRCLSBinaryImageSafeFindImageForAddress images address =
     (if \<not> table_initialized images then None
      else if address = 0 then None
      else find_loop address (table_nodes images))"

definition FIRCLSBinaryImageSafeHasUnwindInfo :: "image_node \<Rightarrow> bool" where
  "FIRCLSBinaryImageSafeHasUnwindInfo img = FIRCLSIsValidPointer (node_unwindInfo img)"

fun store_loop :: "addr \<Rightarrow> image_node \<Rightarrow> image_node list \<Rightarrow> image_node list" where
  "store_loop searchAddress details [] = []"
| "store_loop searchAddress details (node # nodes) =
     (if node_baseAddress node \<noteq> searchAddress then node # store_loop searchAddress details nodes
      else details # nodes)"

definition FIRCLSBinaryImageStoreNode :: "bool \<Rightarrow> image_node \<Rightarrow> image_table \<Rightarrow> image_table" where
  "FIRCLSBinaryImageStoreNode added details images =
     (let searchAddress = (if added then 0 else node_baseAddress details);
          details = (if added then details else zero_node\<lparr>node_baseAddress := searchAddress\<rparr>) in
      images\<lparr>table_nodes := store_loop searchAddress details (table_nodes images)\<rparr>)"

section \<open>The unwind context\<close>

definition FIRCLSUnwindMaxFrames :: u32 where "FIRCLSUnwindMaxFrames = 100000"

definition FIRCLSUnwindInfiniteRecursionCountThreshold :: u32 where
  "FIRCLSUnwindInfiniteRecursionCountThreshold = 10"

text \<open>
  The \<open>compactUnwindState\<close> of the struct is initialised before each use and not read after it, so
  it is a local value of \<open>FIRCLSUnwindWithCompactUnwindInfo\<close> here.
\<close>

record unwind_context =
  unwind_registers :: thread_context
  frameCount :: u32
  lastFramePC :: u64
  repeatCount :: u32

definition FIRCLSUnwindInit :: "thread_context \<Rightarrow> unwind_context" where
  "FIRCLSUnwindInit threadContext =
     \<lparr>unwind_registers = threadContext, frameCount = 0, lastFramePC = 0, repeatCount = 0\<rparr>"

definition FIRCLSUnwindGetPC :: "unwind_context \<Rightarrow> u64" where
  "FIRCLSUnwindGetPC ctx = FIRCLSThreadContextGetPC (unwind_registers ctx)"

definition FIRCLSUnwindGetStackPointer :: "unwind_context \<Rightarrow> u64" where
  "FIRCLSUnwindGetStackPointer ctx = FIRCLSThreadContextGetStackPointer (unwind_registers ctx)"

definition FIRCLSUnwindGetFramePointer :: "unwind_context \<Rightarrow> u64" where
  "FIRCLSUnwindGetFramePointer ctx = FIRCLSThreadContextGetFramePointer (unwind_registers ctx)"

definition FIRCLSUnwindGetFrameRepeatCount :: "unwind_context \<Rightarrow> u32" where
  "FIRCLSUnwindGetFrameRepeatCount ctx = repeatCount ctx"

definition FIRCLSUnwindContextHasValidPCAndSP :: "unwind_context \<Rightarrow> bool" where
  "FIRCLSUnwindContextHasValidPCAndSP ctx \<longleftrightarrow>
     FIRCLSIsValidPointer (FIRCLSUnwindGetPC ctx) \<and>
     FIRCLSIsValidPointer (FIRCLSUnwindGetStackPointer ctx)"

section \<open>One frame\<close>

text \<open>
  What an unwinding step reads beside the context: the SDK's section layout, the memory of the
  process and the image table.
\<close>

record unwind_world =
  world_sdk :: unwind_sdk
  world_memory :: memory
  world_images :: image_table

text \<open>The new registers, or \<open>Some None\<close> for \<open>false\<close>, which leaves the registers as they are.\<close>

definition FIRCLSUnwindWithCompactUnwindInfo ::
    "unwind_world \<Rightarrow> thread_context \<Rightarrow> thread_context outcome" where
  "FIRCLSUnwindWithCompactUnwindInfo w registers =
     (let pc = FIRCLSThreadContextGetPC registers in
      case FIRCLSBinaryImageSafeFindImageForAddress (world_images w) pc of
        None \<Rightarrow> Some None
      | Some img \<Rightarrow>
          if \<not> FIRCLSBinaryImageSafeHasUnwindInfo img then Some None
          else (case FIRCLSCompactUnwindInit (world_sdk w) (world_memory w) (node_unwindInfo img)
                       (node_ehFrame img) (node_baseAddress img) of
                  None \<Rightarrow> Some None
                | Some state \<Rightarrow>
                    FIRCLSCompactUnwindLookupAndCompute (world_sdk w) (world_memory w) state registers))"

definition FIRCLSUnwindNextFrameUsingAllStrategies ::
    "unwind_world \<Rightarrow> unwind_context \<Rightarrow> (bool \<times> unwind_context) option" where
  "FIRCLSUnwindNextFrameUsingAllStrategies w ctx =
     (if FIRCLSUnwindMaxFrames \<le> frameCount ctx then Some (False, ctx)
      else
        let pc = FIRCLSUnwindGetPC ctx;
            (pc, ok, registers) =
              (if 0 < frameCount ctx
               then (pc - 1, FIRCLSThreadContextSetPC (unwind_registers ctx) (pc - 1))
               else (pc, True, unwind_registers ctx));
            ctx = ctx\<lparr>unwind_registers := registers\<rparr> in
        if \<not> ok then Some (False, ctx)
        else if \<not> FIRCLSIsValidPointer pc then Some (False, ctx)
        else if frameCount ctx = 0 then Some (True, ctx)
        else do {
          compact \<leftarrow> FIRCLSUnwindWithCompactUnwindInfo w registers;
          case compact of
            Some registers \<Rightarrow> Some (True, ctx\<lparr>unwind_registers := registers\<rparr>)
          | None \<Rightarrow>
              if FIRCLSUnwindGetFramePointer ctx = 0
              then let (ok, registers) = FIRCLSThreadContextSetPC registers 0 in
                   Some (ok, ctx\<lparr>unwind_registers := registers\<rparr>)
              else let (ok, registers) =
                         FIRCLSUnwindWithFramePointer (world_memory w) registers (frameCount ctx = 1) in
                   Some (ok, ctx\<lparr>unwind_registers := registers\<rparr>) })"

definition FIRCLSUnwindNextFrame ::
    "unwind_world \<Rightarrow> unwind_context \<Rightarrow> (bool \<times> unwind_context) option" where
  "FIRCLSUnwindNextFrame w ctx =
     (if \<not> FIRCLSUnwindContextHasValidPCAndSP ctx then Some (False, ctx)
      else do {
        (ok, ctx) \<leftarrow> FIRCLSUnwindNextFrameUsingAllStrategies w ctx;
        if \<not> ok then Some (False, ctx)
        else
          let pc = FIRCLSUnwindGetPC ctx; sp = FIRCLSUnwindGetStackPointer ctx in
          if \<not> FIRCLSIsValidPointer pc then Some (False, ctx)
          else if \<not> FIRCLSIsValidPointer sp then Some (False, ctx)
          else
            let ctx = (if lastFramePC ctx = pc then ctx\<lparr>repeatCount := repeatCount ctx + 1\<rparr>
                       else ctx\<lparr>repeatCount := 0\<rparr>) in
            Some (True, ctx\<lparr>frameCount := frameCount ctx + 1, lastFramePC := pc\<rparr>) })"

section \<open>Scanning the stack for a return address\<close>

definition FIRCLSUnwindIsAddressExecutable :: "image_table \<Rightarrow> addr \<Rightarrow> bool" where
  "FIRCLSUnwindIsAddressExecutable images address \<longleftrightarrow>
     FIRCLSBinaryImageSafeFindImageForAddress images address \<noteq> None"

text \<open>One value of the stack: \<open>Some r\<close> returns \<open>r\<close>, \<open>None\<close> goes on to the next one.\<close>

definition check_stack_value :: "image_table \<Rightarrow> memory \<Rightarrow> addr \<Rightarrow> addr outcome" where
  "check_stack_value images m start =
     (if FIRCLSIsValidPointer start
      then case read_word m start of
             None \<Rightarrow> Some None
           | Some address \<Rightarrow>
               if FIRCLSUnwindIsAddressExecutable images address then Some (Some address) else None
      else None)"

text \<open>
  The arguments of the log call in front of the check are evaluated whatever the log level is, so
  \<open>start\<close> is read through the pointer first. \<open>None\<close> is also the loop that never ends, which an
  \<open>end\<close> at the top of the address space makes possible. The result is \<open>foundAddress\<close>, with
  \<open>Some None\<close> for \<open>false\<close>.
\<close>

partial_function (option) FIRCLSUnwindFirstExecutableAddress ::
    "image_table \<Rightarrow> memory \<Rightarrow> addr \<Rightarrow> addr \<Rightarrow> addr outcome" where
  "FIRCLSUnwindFirstExecutableAddress images m start ending =
     do { logged \<leftarrow> (load_le 8 m start :: u64 option);
          (case check_stack_value images m start of
             Some r \<Rightarrow> Some r
           | None \<Rightarrow> if start + 8 < ending
                     then FIRCLSUnwindFirstExecutableAddress images m (start + 8) ending
                     else Some None) }"

section \<open>A walk ends\<close>

text \<open>
  The steps of a walk: \<open>unwinding step c cs\<close> holds when successful steps from \<open>c\<close> on give the
  contexts \<open>cs\<close> and the next one reports \<open>false\<close>.
\<close>

inductive unwinding :: "('c \<Rightarrow> (bool \<times> 'c) option) \<Rightarrow> 'c \<Rightarrow> 'c list \<Rightarrow> bool" for step where
  stop: "step c = Some (False, c') \<Longrightarrow> unwinding step c []"
| frame: "step c = Some (True, c') \<Longrightarrow> unwinding step c' cs \<Longrightarrow> unwinding step c (c' # cs)"

inductive_cases unwinding_NilE: "unwinding step c []"
inductive_cases unwinding_ConsE: "unwinding step c (c' # cs)"

text \<open>What bounds a walk: a successful step counts, and there is no step from the limit on.\<close>

locale counted_step =
  fixes step :: "'c \<Rightarrow> (bool \<times> 'c) option"
    and count :: "'c \<Rightarrow> nat"
    and limit :: nat
  assumes counts: "step c = Some (True, c') \<Longrightarrow> count c' = Suc (count c) \<and> count c < limit"
begin

lemma walk_length: "unwinding step c cs \<Longrightarrow> length cs \<le> limit - count c"
proof (induction rule: unwinding.induct)
  case (stop c c')
  then show ?case by simp
next
  case (frame c c' cs)
  with counts [OF frame.hyps(1)] show ?case by simp linarith
qed

lemma walk_counts: "unwinding step c cs \<Longrightarrow> i < length cs \<Longrightarrow> count (cs ! i) = count c + Suc i"
proof (induction arbitrary: i rule: unwinding.induct)
  case (stop c c')
  then show ?case by simp
next
  case (frame c c' cs)
  with counts [OF frame.hyps(1)] show ?case by (cases i) simp_all
qed

lemma walk_unique: "unwinding step c cs \<Longrightarrow> unwinding step c ds \<Longrightarrow> cs = ds"
proof (induction arbitrary: ds rule: unwinding.induct)
  case (stop c c')
  from stop.prems stop.hyps show ?case by cases auto
next
  case (frame c c' cs)
  from frame.prems frame.hyps(1) obtain es where "ds = c' # es" "unwinding step c' es"
    by cases auto
  then show ?case using frame.IH by simp
qed

text \<open>A walk exists unless it meets a step whose behaviour is undefined.\<close>

lemma walk_exists:
  assumes defined: "\<And>c. good c \<Longrightarrow> step c \<noteq> None"
    and kept: "\<And>c c'. good c \<Longrightarrow> step c = Some (True, c') \<Longrightarrow> good c'"
  shows "good c \<Longrightarrow> \<exists>cs. unwinding step c cs"
proof (induction "limit - count c" arbitrary: c rule: less_induct)
  case less
  obtain ok c' where step: "step c = Some (ok, c')" using defined [OF less.prems] by auto
  show ?case
  proof (cases ok)
    case True
    with step have ok_step: "step c = Some (True, c')" by simp
    have "\<exists>cs. unwinding step c' cs"
      using counts [OF ok_step] kept [OF less.prems ok_step] by (intro less.hyps) auto
    with ok_step show ?thesis by (blast intro: unwinding.frame)
  next
    case False
    with step show ?thesis by (auto intro: unwinding.stop)
  qed
qed

end

lemmas next_frame_defs =
  FIRCLSUnwindNextFrame_def FIRCLSUnwindNextFrameUsingAllStrategies_def Let_def

lemma all_strategies_keeps:
  assumes "FIRCLSUnwindNextFrameUsingAllStrategies w ctx = Some (ok, ctx')"
  shows "frameCount ctx' = frameCount ctx \<and> lastFramePC ctx' = lastFramePC ctx \<and>
         repeatCount ctx' = repeatCount ctx \<and> (ok \<longrightarrow> frameCount ctx < FIRCLSUnwindMaxFrames)"
  using assms
  by (auto simp: FIRCLSUnwindNextFrameUsingAllStrategies_def Let_def bind_eq_Some_conv not_le
      split: if_splits option.splits prod.splits)

lemma next_frame_success:
  assumes "FIRCLSUnwindNextFrame w ctx = Some (True, ctx')"
  shows "frameCount ctx' = frameCount ctx + 1 \<and> frameCount ctx < FIRCLSUnwindMaxFrames \<and>
         FIRCLSUnwindContextHasValidPCAndSP ctx \<and> FIRCLSUnwindContextHasValidPCAndSP ctx' \<and>
         lastFramePC ctx' = FIRCLSUnwindGetPC ctx' \<and>
         repeatCount ctx' = (if lastFramePC ctx = FIRCLSUnwindGetPC ctx' then repeatCount ctx + 1 else 0)"
proof -
  have valid: "FIRCLSUnwindContextHasValidPCAndSP ctx"
    using assms by (simp add: FIRCLSUnwindNextFrame_def split: if_splits)
  with assms obtain ok c where step: "FIRCLSUnwindNextFrameUsingAllStrategies w ctx = Some (ok, c)"
    by (auto simp: FIRCLSUnwindNextFrame_def bind_eq_Some_conv)
  note kept = all_strategies_keeps [OF step]
  from assms valid step have "ok" and pc: "FIRCLSIsValidPointer (FIRCLSUnwindGetPC c)"
    and sp: "FIRCLSIsValidPointer (FIRCLSUnwindGetStackPointer c)"
    and ctx': "ctx' = (if lastFramePC c = FIRCLSUnwindGetPC c then c\<lparr>repeatCount := repeatCount c + 1\<rparr>
                       else c\<lparr>repeatCount := 0\<rparr>)\<lparr>frameCount := frameCount c + 1, lastFramePC := FIRCLSUnwindGetPC c\<rparr>"
    by (simp_all add: FIRCLSUnwindNextFrame_def Let_def split: if_splits)
  then show ?thesis
    using kept valid by (simp add: FIRCLSUnwindContextHasValidPCAndSP_def FIRCLSUnwindGetPC_def
        FIRCLSUnwindGetStackPointer_def)
qed

lemma frameCount_Suc:
  "frameCount ctx < FIRCLSUnwindMaxFrames \<Longrightarrow> unat (frameCount ctx + 1) = Suc (unat (frameCount ctx))"
  by (simp add: FIRCLSUnwindMaxFrames_def word_less_nat_alt unat_word_ariths)

interpretation frames: counted_step "FIRCLSUnwindNextFrame w" "\<lambda>ctx. unat (frameCount ctx)"
    "unat FIRCLSUnwindMaxFrames" for w
  by unfold_locales
    (use next_frame_success frameCount_Suc in \<open>fastforce simp: word_less_nat_alt\<close>)

section \<open>Recording a thread\<close>

datatype internal_log_level =
    FIRCLSInternalLogLevelUnknown
  | FIRCLSInternalLogLevelDebug
  | FIRCLSInternalLogLevelInfo
  | FIRCLSInternalLogLevelWarn
  | FIRCLSInternalLogLevelError

text \<open>
  The locals of the loop, the log level it changes and, for the JSON array the code writes to the
  report file, the list of its entries.
\<close>

record thread_report =
  stacktrace :: "u64 list"
  repeatedPC :: u64
  repeatedPCCount :: u32
  logLevel :: internal_log_level

definition record_frame ::
    "internal_log_level \<Rightarrow> unwind_context \<Rightarrow> thread_report \<Rightarrow> thread_report" where
  "record_frame level ctx r =
     (let pc = FIRCLSUnwindGetPC ctx; frameCount = FIRCLSUnwindGetFrameRepeatCount ctx in
      if repeatedPC r = pc \<and> repeatedPC r \<noteq> 0 then r\<lparr>repeatedPCCount := frameCount\<rparr>
      else if FIRCLSUnwindInfiniteRecursionCountThreshold \<le> frameCount \<and> repeatedPC r = 0
      then r\<lparr>repeatedPC := pc, logLevel := FIRCLSInternalLogLevelWarn\<rparr>
      else let r = (if repeatedPC r \<noteq> 0 then r\<lparr>logLevel := level\<rparr> else r) in
           r\<lparr>stacktrace := stacktrace r @ [pc]\<rparr>)"

function record_loop ::
    "unwind_world \<Rightarrow> internal_log_level \<Rightarrow> unwind_context \<Rightarrow> thread_report \<Rightarrow> thread_report option"
  where
  "record_loop w level ctx r =
     (case FIRCLSUnwindNextFrame w ctx of
        None \<Rightarrow> None
      | Some (ok, ctx') \<Rightarrow>
          if ok then record_loop w level ctx' (record_frame level ctx' r) else Some r)"
  by pat_completeness auto

termination
proof (relation "measure (\<lambda>(w, level, ctx, r). unat FIRCLSUnwindMaxFrames - unat (frameCount ctx))")
  fix w level ctx r p ok ctx'
  assume "FIRCLSUnwindNextFrame w ctx = Some p" "(ok, ctx') = p" ok
  then have "FIRCLSUnwindNextFrame w ctx = Some (True, ctx')" by auto
  from frames.counts [OF this]
  show "((w, level, ctx', record_frame level ctx' r), w, level, ctx, r) \<in>
        measure (\<lambda>(w, level, ctx, r). unat FIRCLSUnwindMaxFrames - unat (frameCount ctx))"
    by simp linarith
qed simp

declare record_loop.simps [simp del]

definition record_stacktrace ::
    "unwind_world \<Rightarrow> internal_log_level \<Rightarrow> thread_context \<Rightarrow> thread_report option" where
  "record_stacktrace w level ctx =
     do { r \<leftarrow> record_loop w level (FIRCLSUnwindInit ctx)
                 \<lparr>stacktrace = [], repeatedPC = 0, repeatedPCCount = 0, logLevel = level\<rparr>;
          Some (r\<lparr>logLevel := level\<rparr>) }"

lemma record_loop_walk:
  "unwinding (FIRCLSUnwindNextFrame w) ctx cs \<Longrightarrow> record_loop w level ctx r = Some (fold (record_frame level) cs r)"
proof (induction arbitrary: r rule: unwinding.induct)
  case (stop c c')
  then show ?case by (simp add: record_loop.simps [of w level c])
next
  case (frame c c' cs)
  then show ?case by (simp add: record_loop.simps [of w level c])
qed

text \<open>The specification: a program counter with the number of times it has just been repeated.\<close>

fun repeats :: "u64 \<Rightarrow> nat \<Rightarrow> u64 list \<Rightarrow> (u64 \<times> nat) list" where
  "repeats l n [] = []"
| "repeats l n (p # ps) = (let k = (if l = p then Suc n else 0) in (p, k) # repeats p k ps)"

text \<open>
  The first program counter that repeats ten times is suppressed from then on, wherever it comes
  up again; the count reported is that of its last occurrence.
\<close>

definition report_of :: "u64 list \<Rightarrow> u64 list \<times> u64 \<times> nat" where
  "report_of pcs =
     (let rs = repeats 0 0 pcs; short = (\<lambda>(p, k). k < (10 :: nat)) in
      case dropWhile short rs of
        [] \<Rightarrow> (pcs, 0, 0)
      | (p, k) # rest \<Rightarrow>
          (map fst (takeWhile short rs) @ filter (\<lambda>q. q \<noteq> p) (map fst rest), p,
           last (0 # map snd (filter (\<lambda>(q, k). q = p) rest))))"

lemma walk_repeats:
  assumes "unwinding (FIRCLSUnwindNextFrame w) ctx cs" "lastFramePC ctx = l" "unat (repeatCount ctx) = n"
    and "n + unat FIRCLSUnwindMaxFrames \<le> unat (frameCount ctx) + 1000000"
  shows "map (\<lambda>c. (FIRCLSUnwindGetPC c, unat (repeatCount c))) cs = repeats l n (map FIRCLSUnwindGetPC cs)"
  using assms
proof (induction arbitrary: l n rule: unwinding.induct)
  case (stop c c')
  then show ?case by simp
next
  case (frame c c' cs)
  note ok = next_frame_success [OF frame.hyps(1)]
  have fc: "unat (frameCount c') = Suc (unat (frameCount c))" using ok frameCount_Suc [of c] by simp
  let ?k = "if l = FIRCLSUnwindGetPC c' then Suc n else 0"
  have "unat (frameCount c) < 100000" using ok by (simp add: FIRCLSUnwindMaxFrames_def word_less_nat_alt)
  then have "unat (repeatCount c + 1) = Suc n"
    using frame.prems(2,3) by (simp add: FIRCLSUnwindMaxFrames_def unat_word_ariths)
  then have k: "unat (repeatCount c') = ?k" using ok frame.prems(1) by simp
  have "map (\<lambda>c. (FIRCLSUnwindGetPC c, unat (repeatCount c))) cs =
      repeats (FIRCLSUnwindGetPC c') ?k (map FIRCLSUnwindGetPC cs)"
    using ok k fc frame.prems(3) by (intro frame.IH) (auto simp: FIRCLSUnwindMaxFrames_def)
  then show ?case using k by (simp add: Let_def)
qed

lemma record_suppressed:
  assumes "repeatedPC r = p" "p \<noteq> 0"
  shows "fold (record_frame level) cs r =
    r\<lparr>stacktrace := stacktrace r @ filter (\<lambda>q. q \<noteq> p) (map FIRCLSUnwindGetPC cs),
      repeatedPCCount := last (repeatedPCCount r # map repeatCount (filter (\<lambda>c. FIRCLSUnwindGetPC c = p) cs)),
      logLevel := (if filter (\<lambda>c. FIRCLSUnwindGetPC c \<noteq> p) cs = [] then logLevel r else level)\<rparr>"
  using assms
proof (induction cs arbitrary: r)
  case Nil
  then show ?case by simp
next
  case (Cons c cs)
  show ?case
  proof (cases "FIRCLSUnwindGetPC c = p")
    case True
    with Cons.prems have "record_frame level c r = r\<lparr>repeatedPCCount := repeatCount c\<rparr>"
      by (simp add: record_frame_def FIRCLSUnwindGetFrameRepeatCount_def)
    then show ?thesis using True Cons.prems by (simp add: Cons.IH)
  next
    case False
    with Cons.prems have "record_frame level c r =
        r\<lparr>logLevel := level, stacktrace := stacktrace r @ [FIRCLSUnwindGetPC c]\<rparr>"
      by (auto simp: record_frame_def Let_def)
    then show ?thesis using False Cons.prems by (simp add: Cons.IH)
  qed
qed

lemma record_short:
  assumes "repeatedPC r = 0" "\<forall>c \<in> set cs. unat (repeatCount c) < 10"
  shows "fold (record_frame level) cs r = r\<lparr>stacktrace := stacktrace r @ map FIRCLSUnwindGetPC cs\<rparr>"
  using assms
proof (induction cs arbitrary: r)
  case Nil
  then show ?case by simp
next
  case (Cons c cs)
  from Cons.prems have "record_frame level c r = r\<lparr>stacktrace := stacktrace r @ [FIRCLSUnwindGetPC c]\<rparr>"
    by (simp add: record_frame_def Let_def FIRCLSUnwindGetFrameRepeatCount_def
        FIRCLSUnwindInfiniteRecursionCountThreshold_def word_le_nat_alt)
  then show ?case using Cons by simp
qed

lemma map_map_fst: "map (\<lambda>c. (f c, g c)) cs = rs \<Longrightarrow> map f cs = map fst rs \<and> map g cs = map snd rs"
  by auto

lemma last_map_unat:
  "unat (last (0 # map repeatCount cs)) = last (0 # map (unat \<circ> repeatCount) cs)"
  by (induction cs rule: rev_induct) auto

lemma record_correct:
  assumes walk: "map (\<lambda>c. (FIRCLSUnwindGetPC c, unat (repeatCount c))) cs =
      repeats 0 0 (map FIRCLSUnwindGetPC cs)"
    and valid: "\<forall>c \<in> set cs. FIRCLSUnwindGetPC c \<noteq> 0"
    and r: "r = fold (record_frame level) cs
      \<lparr>stacktrace = [], repeatedPC = 0, repeatedPCCount = 0, logLevel = level\<rparr>"
  shows "(stacktrace r, repeatedPC r, unat (repeatedPCCount r)) = report_of (map FIRCLSUnwindGetPC cs)"
proof -
  let ?pk = "\<lambda>c. (FIRCLSUnwindGetPC c, unat (repeatCount c))"
  let ?short = "\<lambda>(p :: u64, k). k < (10 :: nat)" and ?sc = "\<lambda>c. unat (repeatCount c) < 10"
  define rs where "rs = map ?pk cs"
  have sc: "?short \<circ> ?pk = ?sc" by auto
  have drop: "dropWhile ?short rs = map ?pk (dropWhile ?sc cs)"
    and take: "takeWhile ?short rs = map ?pk (takeWhile ?sc cs)"
    by (simp_all add: rs_def dropWhile_map takeWhile_map sc)
  have fsts: "map FIRCLSUnwindGetPC cs = map fst rs" by (simp add: rs_def)
  show ?thesis
  proof (cases "dropWhile ?sc cs")
    case Nil
    then have "\<forall>c \<in> set cs. ?sc c" by simp
    then have "fold (record_frame level) cs
        \<lparr>stacktrace = [], repeatedPC = 0, repeatedPCCount = 0, logLevel = level\<rparr> =
        \<lparr>stacktrace = map FIRCLSUnwindGetPC cs, repeatedPC = 0, repeatedPCCount = 0, logLevel = level\<rparr>"
      using record_short [of _ cs level] by simp
    moreover have "dropWhile ?short rs = []" unfolding drop Nil by simp
    ultimately show ?thesis
      using r walk by (simp add: report_of_def Let_def rs_def [symmetric] del: dropWhile_eq_Nil_conv)
  next
    case (Cons c rest)
    let ?p = "FIRCLSUnwindGetPC c"
    have cs: "cs = takeWhile ?sc cs @ c # rest" using Cons by (metis takeWhile_dropWhile_id)
    have "c \<in> set cs" by (subst cs) simp
    with valid have p: "?p \<noteq> 0" by blast
    have long: "\<not> ?sc c" using Cons hd_dropWhile [of ?sc cs] by simp
    have "fold (record_frame level) (takeWhile ?sc cs)
        \<lparr>stacktrace = [], repeatedPC = 0, repeatedPCCount = 0, logLevel = level\<rparr> =
        \<lparr>stacktrace = map FIRCLSUnwindGetPC (takeWhile ?sc cs), repeatedPC = 0, repeatedPCCount = 0,
         logLevel = level\<rparr>"
      by (subst record_short) (auto dest: set_takeWhileD)
    moreover have "record_frame level c \<lparr>stacktrace = xs, repeatedPC = 0, repeatedPCCount = 0, logLevel = level\<rparr> =
        \<lparr>stacktrace = xs, repeatedPC = ?p, repeatedPCCount = 0, logLevel = FIRCLSInternalLogLevelWarn\<rparr>" for xs
      using long p by (simp add: record_frame_def FIRCLSUnwindGetFrameRepeatCount_def
          FIRCLSUnwindInfiniteRecursionCountThreshold_def word_le_nat_alt)
    ultimately have fold: "r = fold (record_frame level) rest
        \<lparr>stacktrace = map FIRCLSUnwindGetPC (takeWhile ?sc cs), repeatedPC = ?p, repeatedPCCount = 0,
         logLevel = FIRCLSInternalLogLevelWarn\<rparr>"
      unfolding r by (subst cs) simp
    have counts: "map snd (filter (\<lambda>(q, k). q = ?p) (map ?pk rest)) =
        map (unat \<circ> repeatCount) (filter (\<lambda>c. FIRCLSUnwindGetPC c = ?p) rest)"
      by (induction rest) auto
    have count: "unat (last (0 # map repeatCount (filter (\<lambda>c. FIRCLSUnwindGetPC c = ?p) rest))) =
        last (0 # map snd (filter (\<lambda>(q, k). q = ?p) (map ?pk rest)))"
      unfolding counts by (rule last_map_unat)
    show ?thesis
      using drop take Cons p walk
      by (simp add: report_of_def Let_def rs_def [symmetric] fold record_suppressed count comp_def
          del: last.simps)
  qed
qed

lemma init_repeat: "lastFramePC (FIRCLSUnwindInit tc) = 0" "repeatCount (FIRCLSUnwindInit tc) = 0"
  "frameCount (FIRCLSUnwindInit tc) = 0"
  by (simp_all add: FIRCLSUnwindInit_def)

lemma walk_valid:
  "unwinding (FIRCLSUnwindNextFrame w) ctx cs \<Longrightarrow> c \<in> set cs \<Longrightarrow>
   FIRCLSUnwindContextHasValidPCAndSP c \<and> lastFramePC c = FIRCLSUnwindGetPC c"
  by (induction rule: unwinding.induct) (auto dest: next_frame_success)

lemma valid_pc_nonzero: "FIRCLSUnwindContextHasValidPCAndSP c \<Longrightarrow> FIRCLSUnwindGetPC c \<noteq> 0"
  by (auto simp: FIRCLSUnwindContextHasValidPCAndSP_def FIRCLSIsValidPointer_def)

lemma record_stacktrace_walk:
  assumes "unwinding (FIRCLSUnwindNextFrame w) (FIRCLSUnwindInit tc) cs"
  shows "\<exists>r. record_stacktrace w level tc = Some r \<and> logLevel r = level \<and>
    (stacktrace r, repeatedPC r, unat (repeatedPCCount r)) = report_of (map FIRCLSUnwindGetPC cs)"
proof -
  have "map (\<lambda>c. (FIRCLSUnwindGetPC c, unat (repeatCount c))) cs = repeats 0 0 (map FIRCLSUnwindGetPC cs)"
    using assms by (intro walk_repeats) (auto simp: init_repeat FIRCLSUnwindMaxFrames_def)
  moreover have "\<forall>c \<in> set cs. FIRCLSUnwindGetPC c \<noteq> 0"
    using walk_valid [OF assms] valid_pc_nonzero by blast
  ultimately show ?thesis
    using record_correct [OF _ _ refl, of cs level] record_loop_walk [OF assms, of level]
    by (simp add: record_stacktrace_def)
qed

section \<open>The image table as a map from addresses to images\<close>

definition free_entry :: "image_node list \<Rightarrow> bool" where
  "free_entry nodes \<longleftrightarrow> (\<exists>n \<in> set nodes. node_baseAddress n = 0)"

definition unloaded :: "image_node \<Rightarrow> image_node" where
  "unloaded d = zero_node\<lparr>node_baseAddress := node_baseAddress d\<rparr>"

lemma unloaded_simps [simp]:
  "node_baseAddress (unloaded d) = node_baseAddress d" "\<not> contains_address (unloaded d) a"
  "\<not> contains_address zero_node a"
  by (auto simp: unloaded_def zero_node_def contains_address_def)

lemma store_loop_first:
  "\<forall>n \<in> set xs. node_baseAddress n \<noteq> s \<Longrightarrow> node_baseAddress z = s \<Longrightarrow>
   store_loop s d (xs @ z # ys) = xs @ d # ys"
  by (induction xs) auto

lemma find_loop_append:
  "find_loop a (xs @ ys) = (case find_loop a xs of None \<Rightarrow> find_loop a ys | Some n \<Rightarrow> Some n)"
  by (induction xs) auto

lemma find_loop_None: "find_loop a xs = None \<longleftrightarrow> (\<forall>n \<in> set xs. \<not> contains_address n a)"
  by (induction xs) auto

lemma first_free:
  assumes "free_entry nodes"
  obtains xs z ys where "nodes = xs @ z # ys" "node_baseAddress z = 0" "\<forall>n \<in> set xs. node_baseAddress n \<noteq> 0"
  using assms split_list_first_prop [of nodes "\<lambda>n. node_baseAddress n = 0"] by (auto simp: free_entry_def)

lemma store_node_simps [simp]:
  "table_nodes (FIRCLSBinaryImageStoreNode True d t) = store_loop 0 d (table_nodes t)"
  "table_nodes (FIRCLSBinaryImageStoreNode False d t) =
     store_loop (node_baseAddress d) (unloaded d) (table_nodes t)"
  "table_initialized (FIRCLSBinaryImageStoreNode added d t) = table_initialized t"
  by (simp_all add: FIRCLSBinaryImageStoreNode_def unloaded_def Let_def)

definition sample_image :: image_node where
  "sample_image = \<lparr>node_baseAddress = 0x100000000, node_size = 0x4000, node_ehFrame = 0x100002000,
                   node_unwindInfo = 0x100003000, node_crashInfo = 0\<rparr>"

definition empty_table :: image_table where
  "empty_table = \<lparr>table_initialized = True,
                  table_nodes = replicate CLS_BINARY_IMAGE_RUNTIME_NODE_COUNT zero_node\<rparr>"

lemma empty_table_ok: "free_entry (table_nodes empty_table)" "table_initialized empty_table"
  "n \<in> set (table_nodes empty_table) \<Longrightarrow> n = zero_node"
  by (auto simp: free_entry_def empty_table_def CLS_BINARY_IMAGE_RUNTIME_NODE_COUNT_def
      zero_node_def)

lemma sample_image_contains: "contains_address sample_image 0x100000010"
  by (simp add: contains_address_def sample_image_def)

text \<open>
  A history of the dynamic loader, each event a load or an unload of an image, and the images that are
  registered after it, by their base address.
\<close>

type_synonym image_event = "bool \<times> image_node"

fun registered :: "image_event \<Rightarrow> (addr \<rightharpoonup> image_node) \<Rightarrow> (addr \<rightharpoonup> image_node)" where
  "registered (added, d) images = (if added then images(node_baseAddress d \<mapsto> d) else images(node_baseAddress d := None))"

definition registry :: "image_event list \<Rightarrow> (addr \<rightharpoonup> image_node)" where
  "registry h = fold registered h Map.empty"

definition table_after :: "image_event list \<Rightarrow> image_table" where
  "table_after h = fold (\<lambda>(added, d). FIRCLSBinaryImageStoreNode added d) h empty_table"

text \<open>
  The histories the table follows: an image is loaded at an address where none is registered, and no base address
  is unloaded twice. \<open>gone\<close> are the addresses that have been unloaded.
\<close>

fun history_ok :: "(addr \<rightharpoonup> image_node) \<Rightarrow> addr set \<Rightarrow> image_event list \<Rightarrow> bool" where
  "history_ok images gone [] = True"
| "history_ok images gone ((added, d) # h) =
     (node_baseAddress d \<noteq> 0 \<and>
      (if added then images (node_baseAddress d) = None else node_baseAddress d \<notin> gone) \<and>
      history_ok (registered (added, d) images) (if added then gone else insert (node_baseAddress d) gone) h)"

definition tracks :: "(addr \<rightharpoonup> image_node) \<Rightarrow> addr set \<Rightarrow> nat \<Rightarrow> image_table \<Rightarrow> bool" where
  "tracks images gone k t \<longleftrightarrow> table_initialized t \<and>
     (\<exists>xs. table_nodes t = xs @ replicate k zero_node \<and>
        (\<forall>n \<in> set xs. node_baseAddress n \<noteq> 0 \<and> (\<forall>a. contains_address n a \<longrightarrow> images (node_baseAddress n) = Some n)) \<and>
        (\<forall>b d. images b = Some d \<longrightarrow> d \<in> set xs \<and> node_baseAddress d = b) \<and>
        (\<forall>b. b \<notin> gone \<longrightarrow> filter (\<lambda>n. node_baseAddress n = b) xs = (case images b of None \<Rightarrow> [] | Some d \<Rightarrow> [d])))"

lemma tracksI:
  assumes "table_initialized t" "table_nodes t = xs @ replicate k zero_node"
    "\<And>n. n \<in> set xs \<Longrightarrow> node_baseAddress n \<noteq> 0"
    "\<And>n a. n \<in> set xs \<Longrightarrow> contains_address n a \<Longrightarrow> images (node_baseAddress n) = Some n"
    "\<And>b d. images b = Some d \<Longrightarrow> d \<in> set xs \<and> node_baseAddress d = b"
    "\<And>b. b \<notin> gone \<Longrightarrow> filter (\<lambda>n. node_baseAddress n = b) xs = (case images b of None \<Rightarrow> [] | Some d \<Rightarrow> [d])"
  shows "tracks images gone k t"
  unfolding tracks_def using assms by blast

lemma tracksE:
  assumes "tracks images gone k t"
  obtains xs where "table_initialized t" "table_nodes t = xs @ replicate k zero_node"
    "\<And>n. n \<in> set xs \<Longrightarrow> node_baseAddress n \<noteq> 0"
    "\<And>n a. n \<in> set xs \<Longrightarrow> contains_address n a \<Longrightarrow> images (node_baseAddress n) = Some n"
    "\<And>b d. images b = Some d \<Longrightarrow> d \<in> set xs \<and> node_baseAddress d = b"
    "\<And>b. b \<notin> gone \<Longrightarrow> filter (\<lambda>n. node_baseAddress n = b) xs = (case images b of None \<Rightarrow> [] | Some d \<Rightarrow> [d])"
  using assms unfolding tracks_def by blast

lemma store_loop_absent: "\<forall>n \<in> set xs. node_baseAddress n \<noteq> s \<Longrightarrow> store_loop s d (xs @ ys) = xs @ store_loop s d ys"
  by (induction xs) auto

lemma tracks_load:
  assumes t: "tracks images gone (Suc k) t" and d: "node_baseAddress d \<noteq> 0" "images (node_baseAddress d) = None"
  shows "tracks (images(node_baseAddress d \<mapsto> d)) gone k (FIRCLSBinaryImageStoreNode True d t)"
proof -
  let ?b = "node_baseAddress d"
  from t obtain xs where xs: "table_initialized t" "table_nodes t = xs @ replicate (Suc k) zero_node"
      "\<And>n. n \<in> set xs \<Longrightarrow> node_baseAddress n \<noteq> 0"
      "\<And>n a. n \<in> set xs \<Longrightarrow> contains_address n a \<Longrightarrow> images (node_baseAddress n) = Some n"
      "\<And>b d. images b = Some d \<Longrightarrow> d \<in> set xs \<and> node_baseAddress d = b"
      "\<And>b. b \<notin> gone \<Longrightarrow> filter (\<lambda>n. node_baseAddress n = b) xs = (case images b of None \<Rightarrow> [] | Some d \<Rightarrow> [d])"
    by (rule tracksE) blast
  have stored: "store_loop 0 d (xs @ zero_node # replicate k zero_node) = xs @ d # replicate k zero_node"
    using xs(3) by (intro store_loop_first) (simp_all add: zero_node_def)
  show ?thesis
  proof (rule tracksI)
    show "table_initialized (FIRCLSBinaryImageStoreNode True d t)" using xs(1) by simp
    show "table_nodes (FIRCLSBinaryImageStoreNode True d t) = (xs @ [d]) @ replicate k zero_node"
      using xs(2) stored by simp
    show "node_baseAddress n \<noteq> 0" if "n \<in> set (xs @ [d])" for n using that xs(3) d(1) by auto
    show "(images(?b \<mapsto> d)) (node_baseAddress n) = Some n" if "n \<in> set (xs @ [d])" "contains_address n a" for n a
    proof (cases "n = d")
      case False
      then have "images (node_baseAddress n) = Some n" using that xs(4) by simp
      then show ?thesis using d(2) by (cases "node_baseAddress n = ?b") simp_all
    qed simp
    show "e \<in> set (xs @ [d]) \<and> node_baseAddress e = b" if "(images(?b \<mapsto> d)) b = Some e" for b e
      using that xs(5) [of b e] by (cases "b = ?b") simp_all
    show "filter (\<lambda>n. node_baseAddress n = b) (xs @ [d]) = (case (images(?b \<mapsto> d)) b of None \<Rightarrow> [] | Some e \<Rightarrow> [e])"
      if "b \<notin> gone" for b using xs(6) [OF that] d(2) by (cases "b = ?b") simp_all
  qed
qed

lemma tracks_unload:
  assumes t: "tracks images gone k t" and d: "node_baseAddress d \<noteq> 0" "node_baseAddress d \<notin> gone"
  shows "tracks (images(node_baseAddress d := None)) (insert (node_baseAddress d) gone) k (FIRCLSBinaryImageStoreNode False d t)"
proof -
  let ?b = "node_baseAddress d" and ?Z = "replicate k zero_node"
  from t obtain xs where xs: "table_initialized t" "table_nodes t = xs @ ?Z"
      "\<And>n. n \<in> set xs \<Longrightarrow> node_baseAddress n \<noteq> 0"
      "\<And>n a. n \<in> set xs \<Longrightarrow> contains_address n a \<Longrightarrow> images (node_baseAddress n) = Some n"
      "\<And>b d. images b = Some d \<Longrightarrow> d \<in> set xs \<and> node_baseAddress d = b"
      "\<And>b. b \<notin> gone \<Longrightarrow> filter (\<lambda>n. node_baseAddress n = b) xs = (case images b of None \<Rightarrow> [] | Some d \<Rightarrow> [d])"
    by (rule tracksE) blast
  have zeros: "store_loop ?b (unloaded d) ?Z = ?Z" using d(1) by (induction k) (simp_all add: zero_node_def)
  have "\<exists>ys. store_loop ?b (unloaded d) (xs @ ?Z) = ys @ ?Z \<and>
      (\<forall>n \<in> set ys. n \<in> set xs \<and> node_baseAddress n \<noteq> ?b \<or> n = unloaded d) \<and>
      (\<forall>n \<in> set xs. node_baseAddress n \<noteq> ?b \<longrightarrow> n \<in> set ys) \<and>
      (\<forall>b. b \<noteq> ?b \<longrightarrow> filter (\<lambda>n. node_baseAddress n = b) ys = filter (\<lambda>n. node_baseAddress n = b) xs)"
  proof (cases "images ?b")
    case None
    then have "filter (\<lambda>n. node_baseAddress n = ?b) xs = []" using xs(6) [OF d(2)] by simp
    then have no: "\<forall>n \<in> set xs. node_baseAddress n \<noteq> ?b" by (simp add: filter_empty_conv)
    show ?thesis using store_loop_absent [OF no, of "unloaded d" ?Z] zeros no by (intro exI [of _ xs]) simp
  next
    case (Some e)
    then have one: "filter (\<lambda>n. node_baseAddress n = ?b) xs = [e]" using xs(6) [OF d(2)] by simp
    then obtain us vs where uv: "xs = us @ e # vs" "\<forall>n \<in> set us. node_baseAddress n \<noteq> ?b" "node_baseAddress e = ?b"
        "filter (\<lambda>n. node_baseAddress n = ?b) vs = []"
      unfolding filter_eq_Cons_iff by fastforce
    then have vs: "\<forall>n \<in> set vs. node_baseAddress n \<noteq> ?b" by (simp add: filter_empty_conv)
    have "store_loop ?b (unloaded d) (us @ e # (vs @ ?Z)) = us @ unloaded d # (vs @ ?Z)"
      using uv(2,3) by (rule store_loop_first)
    then show ?thesis using uv(2,3) vs unfolding uv(1) by - (rule exI [of _ "us @ unloaded d # vs"], simp, blast)
  qed
  then obtain ys where zs: "store_loop ?b (unloaded d) (xs @ ?Z) = ys @ ?Z"
      "\<forall>n \<in> set ys. n \<in> set xs \<and> node_baseAddress n \<noteq> ?b \<or> n = unloaded d"
      "\<forall>n \<in> set xs. node_baseAddress n \<noteq> ?b \<longrightarrow> n \<in> set ys"
      "\<forall>b. b \<noteq> ?b \<longrightarrow> filter (\<lambda>n. node_baseAddress n = b) ys = filter (\<lambda>n. node_baseAddress n = b) xs"
    by (elim exE conjE) (rule that; assumption)
  note ys = zs(1) zs(2) [rule_format] zs(3) [rule_format] zs(4) [rule_format]
  show ?thesis
  proof (rule tracksI)
    show "table_initialized (FIRCLSBinaryImageStoreNode False d t)" using xs(1) by simp
    show "table_nodes (FIRCLSBinaryImageStoreNode False d t) = ys @ ?Z" using xs(2) ys(1) by simp
    show "node_baseAddress n \<noteq> 0" if "n \<in> set ys" for n using ys(2) [OF that] xs(3) [of n] d(1) by auto
    show "(images(?b := None)) (node_baseAddress n) = Some n" if "n \<in> set ys" "contains_address n a" for n a
      using ys(2) [OF that(1)] xs(4) [of n a] that(2) by auto
    show "e \<in> set ys \<and> node_baseAddress e = b" if "(images(?b := None)) b = Some e" for b e
      using that xs(5) [of b e] ys(3) [of e] by (cases "b = ?b") auto
    show "filter (\<lambda>n. node_baseAddress n = b) ys = (case (images(?b := None)) b of None \<Rightarrow> [] | Some e \<Rightarrow> [e])"
      if "b \<notin> insert ?b gone" for b using xs(6) [of b] ys(4) [of b] that by simp
  qed
qed

lemma tracks_history:
  assumes "history_ok images gone h" "tracks images gone k t" "length (filter fst h) \<le> k"
  shows "\<exists>gone' k'. tracks (fold registered h images) gone' k' (fold (\<lambda>(added, d). FIRCLSBinaryImageStoreNode added d) h t)"
  using assms
proof (induction h arbitrary: images gone k t)
  case Nil
  then show ?case by auto
next
  case (Cons e h)
  obtain added d where e: "e = (added, d)" by (cases e)
  let ?t = "FIRCLSBinaryImageStoreNode added d t"
  have ok: "node_baseAddress d \<noteq> 0" "if added then images (node_baseAddress d) = None else node_baseAddress d \<notin> gone"
    "history_ok (registered e images) (if added then gone else insert (node_baseAddress d) gone) h"
    using Cons.prems(1) unfolding e history_ok.simps by blast+
  have "\<exists>j. tracks (registered e images) (if added then gone else insert (node_baseAddress d) gone) j ?t \<and> length (filter fst h) \<le> j"
  proof (cases added)
    case True
    have "length (filter fst h) < k" using Cons.prems(3) True by (simp add: e)
    then obtain j where j: "k = Suc j" "length (filter fst h) \<le> j" by (cases k) simp_all
    have "tracks (images(node_baseAddress d \<mapsto> d)) gone j (FIRCLSBinaryImageStoreNode True d t)"
      using Cons.prems(2) ok(1,2) True unfolding j(1) by (intro tracks_load) simp_all
    then show ?thesis using j(2) True unfolding e registered.simps by (intro exI [of _ j] conjI) (simp_all only: if_True)
  next
    case False
    have "tracks (images(node_baseAddress d := None)) (insert (node_baseAddress d) gone) k (FIRCLSBinaryImageStoreNode False d t)"
      using Cons.prems(2) ok(1,2) False by (intro tracks_unload) simp_all
    moreover have "length (filter fst h) \<le> k" using Cons.prems(3) e False by simp
    ultimately show ?thesis using False unfolding e registered.simps by (intro exI [of _ k] conjI) (simp_all only: if_False)
  qed
  then obtain j where "tracks (registered e images) (if added then gone else insert (node_baseAddress d) gone) j ?t"
      "length (filter fst h) \<le> j" by blast
  from Cons.IH [OF ok(3) this] show ?case unfolding e fold.simps comp_def prod.case .
qed

lemma find_loop_Some: "find_loop a ns = Some d \<Longrightarrow> d \<in> set ns \<and> contains_address d a"
  by (induction ns) (auto split: if_splits)

text \<open>
  C18. The table is the registry of the loaded images, through every history of up to 1024 loads in which
  no image is loaded over a registered one and no base address is unloaded twice: after it, the image found for an
  address is the registered image that contains it, and none is found where no registered image does. A second
  unload of an address is outside, because of the defect \<open>reload_unload_stays_loaded\<close> shows.
\<close>

theorem image_table_correct:
  assumes "history_ok Map.empty {} h" "length (filter fst h) \<le> CLS_BINARY_IMAGE_RUNTIME_NODE_COUNT"
    and "\<And>c e. registry h (node_baseAddress c) = Some c \<Longrightarrow> registry h (node_baseAddress e) = Some e \<Longrightarrow>
      contains_address c a \<Longrightarrow> contains_address e a \<Longrightarrow> c = e"
  shows "FIRCLSBinaryImageSafeFindImageForAddress (table_after h) a = Some d \<longleftrightarrow>
    a \<noteq> 0 \<and> registry h (node_baseAddress d) = Some d \<and> contains_address d a"
proof -
  have "tracks Map.empty {} CLS_BINARY_IMAGE_RUNTIME_NODE_COUNT empty_table"
    by (rule tracksI [where xs = "[]"]) (simp_all add: empty_table_def)
  from tracks_history [OF assms(1) this assms(2)] obtain gone k where
    "tracks (registry h) gone k (table_after h)" unfolding registry_def table_after_def by blast
  then obtain xs where xs: "table_initialized (table_after h)" "table_nodes (table_after h) = xs @ replicate k zero_node"
      "\<And>n a. n \<in> set xs \<Longrightarrow> contains_address n a \<Longrightarrow> registry h (node_baseAddress n) = Some n"
      "\<And>b d. registry h b = Some d \<Longrightarrow> d \<in> set xs \<and> node_baseAddress d = b"
    by (rule tracksE) blast
  have none: "find_loop a (replicate k zero_node) = None" by (induction k) simp_all
  have found: "FIRCLSBinaryImageSafeFindImageForAddress (table_after h) a = (if a = 0 then None else find_loop a xs)"
    using xs(1,2) none by (simp add: FIRCLSBinaryImageSafeFindImageForAddress_def find_loop_append split: option.splits)
  have "find_loop a xs = Some d \<longleftrightarrow> registry h (node_baseAddress d) = Some d \<and> contains_address d a"
  proof
    assume "find_loop a xs = Some d"
    then show "registry h (node_baseAddress d) = Some d \<and> contains_address d a" using find_loop_Some xs(3) by blast
  next
    assume d: "registry h (node_baseAddress d) = Some d \<and> contains_address d a"
    then have "find_loop a xs \<noteq> None" using xs(4) find_loop_None by blast
    then obtain e where e: "find_loop a xs = Some e" by blast
    then have "registry h (node_baseAddress e) = Some e" "contains_address e a" using find_loop_Some xs(3) by blast+
    then have "e = d" using d assms(3) by blast
    then show "find_loop a xs = Some d" using e by simp
  qed
  then show ?thesis by (simp add: found)
qed

text \<open>Two images, the first of which is unloaded and loaded again.\<close>

definition second_image :: image_node where
  "second_image = sample_image\<lparr>node_baseAddress := 0x200000000\<rparr>"

theorem image_table_correct_witness:
  "FIRCLSBinaryImageSafeFindImageForAddress
     (table_after [(True, sample_image), (True, second_image), (False, sample_image), (True, sample_image)]) 0x100000010 =
     Some sample_image"
proof -
  let ?h = "[(True, sample_image), (True, second_image), (False, sample_image), (True, sample_image)]"
  have r: "registry ?h = [0x200000000 \<mapsto> second_image, 0x100000000 \<mapsto> sample_image]"
    by (auto simp: registry_def second_image_def sample_image_def)
  have "\<not> contains_address second_image 0x100000010" by (simp add: contains_address_def second_image_def sample_image_def)
  then have uniq: "c = e" if "registry ?h (node_baseAddress c) = Some c" "registry ?h (node_baseAddress e) = Some e"
      "contains_address c 0x100000010" "contains_address e 0x100000010" for c e
    using that unfolding r by (auto split: if_splits)
  have hist: "history_ok Map.empty {} ?h" by (simp add: second_image_def sample_image_def)
  have len: "length (filter fst ?h) \<le> CLS_BINARY_IMAGE_RUNTIME_NODE_COUNT" by (simp add: CLS_BINARY_IMAGE_RUNTIME_NODE_COUNT_def)
  have "FIRCLSBinaryImageSafeFindImageForAddress (table_after ?h) 0x100000010 = Some sample_image \<longleftrightarrow>
      (0x100000010 :: addr) \<noteq> 0 \<and> registry ?h (node_baseAddress sample_image) = Some sample_image \<and>
      contains_address sample_image 0x100000010" by (rule image_table_correct [OF hist len uniq])
  moreover have "registry ?h (node_baseAddress sample_image) = Some sample_image" unfolding r by (simp add: sample_image_def)
  ultimately show ?thesis using sample_image_contains by (simp del: One_nat_def)
qed

text \<open>
  An image that is unloaded, loaded again at the same address and unloaded again stays in the
  table. The entry cleared by the first unload keeps its base address, so the second unload clears
  that entry once more and not the one the second load has filled.
\<close>

theorem reload_unload_stays_loaded:
  assumes nodes: "table_nodes t = xs @ zero_node # ys" "table_initialized t"
    and free: "free_entry ys"
    and fresh: "\<forall>n \<in> set xs. node_baseAddress n \<noteq> 0 \<and> node_baseAddress n \<noteq> node_baseAddress d"
    and d: "node_baseAddress d \<noteq> 0" "contains_address d a"
    and a: "\<forall>n \<in> set (table_nodes t). \<not> contains_address n a"
  shows "FIRCLSBinaryImageSafeFindImageForAddress
      (fold (\<lambda>added. FIRCLSBinaryImageStoreNode added d) [True, False, True, False] t) a = Some d"
proof -
  from free obtain us z vs where ys: "ys = us @ z # vs" "node_baseAddress z = 0"
    "\<forall>n \<in> set us. node_baseAddress n \<noteq> 0" by (rule first_free)
  let ?b = "node_baseAddress d"
  have s1: "store_loop 0 d (xs @ zero_node # ys) = xs @ d # ys"
    using fresh by (intro store_loop_first) (auto simp: zero_node_def)
  have s2: "store_loop ?b (unloaded d) (xs @ d # ys) = xs @ unloaded d # ys"
    using fresh by (intro store_loop_first) auto
  have s3: "store_loop 0 d (xs @ unloaded d # ys) = xs @ unloaded d # us @ d # vs"
    using fresh ys d store_loop_first [of "xs @ unloaded d # us" 0 z d vs] by auto
  have s4: "store_loop ?b (unloaded d) (xs @ unloaded d # us @ d # vs) = xs @ unloaded d # us @ d # vs"
    using fresh by (intro store_loop_first) auto
  have "a \<noteq> 0" using d by (auto simp: contains_address_def)
  have "find_loop a xs = None" "find_loop a us = None" using a nodes ys by (auto simp: find_loop_None)
  then show ?thesis
    using nodes d \<open>a \<noteq> 0\<close>
    by (simp add: s1 s2 s3 s4 FIRCLSBinaryImageSafeFindImageForAddress_def find_loop_append)
qed

theorem reload_unload_stays_loaded_witness:
  "FIRCLSBinaryImageSafeFindImageForAddress
     (fold (\<lambda>added. FIRCLSBinaryImageStoreNode added sample_image) [True, False, True, False] empty_table)
     0x100000010 = Some sample_image"
proof (rule reload_unload_stays_loaded [of empty_table "[]" "replicate 1023 zero_node"])
  have "(1024::nat) = Suc 1023" by simp
  then show "table_nodes empty_table = [] @ zero_node # replicate 1023 zero_node"
    by (simp only: empty_table_def CLS_BINARY_IMAGE_RUNTIME_NODE_COUNT_def image_table.simps
        replicate_Suc append_Nil)
  show "free_entry (replicate 1023 zero_node)" by (simp add: free_entry_def zero_node_def)
  show "\<forall>n \<in> set (table_nodes empty_table). \<not> contains_address n 0x100000010"
    by (auto dest: empty_table_ok(3))
  show "node_baseAddress sample_image \<noteq> 0" by (simp add: sample_image_def)
qed (simp_all add: sample_image_contains empty_table_ok)

section \<open>The walk of a stack\<close>

text \<open>
  C20. What every walk keeps: it visits at most \<open>FIRCLSUnwindMaxFrames\<close> frames, the frame at
  position \<open>i\<close> has the count \<open>i + 1\<close>, a program counter and a stack pointer that are valid, its
  program counter as the last one seen, and the number of times that program counter has just been
  repeated. A walk is determined by the registers it starts from.
\<close>

theorem walk_invariant:
  assumes "unwinding (FIRCLSUnwindNextFrame w) (FIRCLSUnwindInit registers) cs"
  shows "length cs \<le> unat FIRCLSUnwindMaxFrames \<and>
    (\<forall>i < length cs. unat (frameCount (cs ! i)) = i + 1 \<and>
       FIRCLSUnwindContextHasValidPCAndSP (cs ! i) \<and>
       lastFramePC (cs ! i) = FIRCLSUnwindGetPC (cs ! i) \<and>
       unat (repeatCount (cs ! i)) = snd (repeats 0 0 (map FIRCLSUnwindGetPC cs) ! i)) \<and>
    (\<forall>ds. unwinding (FIRCLSUnwindNextFrame w) (FIRCLSUnwindInit registers) ds \<longrightarrow> ds = cs)"
proof (intro conjI allI impI)
  show "length cs \<le> unat FIRCLSUnwindMaxFrames"
    using frames.walk_length [OF assms] by simp
  fix i assume i: "i < length cs"
  show "unat (frameCount (cs ! i)) = i + 1"
    using frames.walk_counts [OF assms i] by (simp add: init_repeat)
  show "FIRCLSUnwindContextHasValidPCAndSP (cs ! i)" "lastFramePC (cs ! i) = FIRCLSUnwindGetPC (cs ! i)"
    using walk_valid [OF assms nth_mem [OF i]] by auto
  have "map (\<lambda>c. (FIRCLSUnwindGetPC c, unat (repeatCount c))) cs = repeats 0 0 (map FIRCLSUnwindGetPC cs)"
    using assms by (intro walk_repeats) (auto simp: init_repeat FIRCLSUnwindMaxFrames_def)
  from this [symmetric] show "unat (repeatCount (cs ! i)) = snd (repeats 0 0 (map FIRCLSUnwindGetPC cs) ! i)"
    using i by simp
next
  fix ds assume "unwinding (FIRCLSUnwindNextFrame w) (FIRCLSUnwindInit registers) ds"
  then show "ds = cs" using frames.walk_unique assms by blast
qed

text \<open>
  The stack as a chain of frame records, each the caller's frame pointer and a return address:
  \<open>rets\<close> are the return addresses from the frame pointer \<open>fp\<close> on, up to a frame pointer of zero.
\<close>

primrec frame_chain :: "memory \<Rightarrow> addr \<Rightarrow> u64 list \<Rightarrow> bool" where
  "frame_chain m fp [] \<longleftrightarrow> CLS_PTRAUTH_STRIP fp = 0"
| "frame_chain m fp (ret # rets) \<longleftrightarrow>
     (\<exists>bs. FIRCLSReadMemory m (CLS_PTRAUTH_STRIP fp) 16 = Some bs \<and>
        CLS_PTRAUTH_STRIP (of_nat (bytes_nat (drop 8 bs))) = ret \<and> 4096 < ret \<and>
        FIRCLSIsValidPointer (CLS_PTRAUTH_STRIP (CLS_PTRAUTH_STRIP fp + 16)) \<and>
        frame_chain m (of_nat (bytes_nat (take 8 bs))) rets)"

definition no_unwind_info :: "unwind_world \<Rightarrow> bool" where
  "no_unwind_info w \<longleftrightarrow> (\<forall>a img. FIRCLSBinaryImageSafeFindImageForAddress (world_images w) a = Some img \<longrightarrow>
     \<not> FIRCLSBinaryImageSafeHasUnwindInfo img)"

lemma no_compact_unwind: "no_unwind_info w \<Longrightarrow> FIRCLSUnwindWithCompactUnwindInfo w registers = Some None"
  by (auto simp: no_unwind_info_def FIRCLSUnwindWithCompactUnwindInfo_def Let_def split: option.splits)

lemma all_strategies_defined:
  "no_unwind_info w \<Longrightarrow> FIRCLSUnwindNextFrameUsingAllStrategies w ctx \<noteq> None"
  by (simp add: FIRCLSUnwindNextFrameUsingAllStrategies_def Let_def no_compact_unwind split_beta
      del: not_None_eq)

lemma next_frame_defined:
  assumes "no_unwind_info w"
  shows "FIRCLSUnwindNextFrame w ctx \<noteq> None"
proof -
  obtain ok c where "FIRCLSUnwindNextFrameUsingAllStrategies w ctx = Some (ok, c)"
    using all_strategies_defined [OF assms, of ctx] by auto
  then show ?thesis by (simp add: FIRCLSUnwindNextFrame_def Let_def del: not_None_eq)
qed

lemma valid_pred: "4096 < (pc :: u64) \<Longrightarrow> FIRCLSIsValidPointer (pc - 1)"
  unfolding FIRCLSIsValidPointer_def word_le_nat_alt word_less_nat_alt by (simp add: unat_sub_if')

definition set_registers :: "thread_context \<Rightarrow> unwind_context \<Rightarrow> unwind_context" where
  "set_registers r ctx = ctx\<lparr>unwind_registers := r\<rparr>"

definition counted :: "unwind_context \<Rightarrow> unwind_context" where
  "counted ctx =
     (let pc = FIRCLSUnwindGetPC ctx in
      ctx\<lparr>repeatCount := (if lastFramePC ctx = pc then repeatCount ctx + 1 else 0),
          frameCount := frameCount ctx + 1, lastFramePC := pc\<rparr>)"

lemma next_frame_steps:
  assumes "FIRCLSUnwindContextHasValidPCAndSP ctx"
    and "FIRCLSUnwindNextFrameUsingAllStrategies w ctx = Some (True, ctx')"
    and "FIRCLSUnwindContextHasValidPCAndSP ctx'"
  shows "FIRCLSUnwindNextFrame w ctx = Some (True, counted ctx')"
  using assms by (simp add: FIRCLSUnwindNextFrame_def FIRCLSUnwindContextHasValidPCAndSP_def Let_def counted_def)

lemma counted_simps [simp]:
  "unwind_registers (counted ctx) = unwind_registers ctx" "frameCount (counted ctx) = frameCount ctx + 1"
  by (simp_all add: counted_def Let_def)

lemma unfold_getters:
  "FIRCLSUnwindGetPC ctx = CLS_PTRAUTH_STRIP (ss_pc (unwind_registers ctx))"
  "FIRCLSUnwindGetStackPointer ctx = CLS_PTRAUTH_STRIP (ss_sp (unwind_registers ctx))"
  "FIRCLSUnwindGetFramePointer ctx = CLS_PTRAUTH_STRIP (ss_fp (unwind_registers ctx))"
  by (simp_all add: FIRCLSUnwindGetPC_def FIRCLSUnwindGetStackPointer_def FIRCLSUnwindGetFramePointer_def
      context_accessors)

lemma chain_step:
  assumes w: "no_unwind_info w" and chain: "frame_chain (world_memory w) (ss_fp (unwind_registers ctx)) (ret # rets)"
    and valid: "FIRCLSUnwindContextHasValidPCAndSP ctx" "4096 < FIRCLSUnwindGetPC ctx"
    and count: "1 < frameCount ctx" "frameCount ctx < FIRCLSUnwindMaxFrames"
  shows "\<exists>ctx'. FIRCLSUnwindNextFrame w ctx = Some (True, ctx') \<and> FIRCLSUnwindGetPC ctx' = ret \<and>
    FIRCLSUnwindContextHasValidPCAndSP ctx' \<and> frameCount ctx' = frameCount ctx + 1 \<and>
    frame_chain (world_memory w) (ss_fp (unwind_registers ctx')) rets"
proof -
  let ?fp = "CLS_PTRAUTH_STRIP (ss_fp (unwind_registers ctx))"
  from chain obtain bs where bs: "FIRCLSReadMemory (world_memory w) ?fp 16 = Some bs"
    and ret: "CLS_PTRAUTH_STRIP (of_nat (bytes_nat (drop 8 bs))) = ret" "4096 < ret"
    and sp: "FIRCLSIsValidPointer (CLS_PTRAUTH_STRIP (?fp + 16))"
    and rest: "frame_chain (world_memory w) (of_nat (bytes_nat (take 8 bs))) rets" by auto
  from bs have fp: "?fp \<noteq> 0" by (auto simp: FIRCLSReadMemory_def FIRCLSIsValidPointer_def split: if_splits)
  define regs where "regs = (unwind_registers ctx)\<lparr>ss_pc := of_nat (bytes_nat (drop 8 bs)),
     ss_fp := of_nat (bytes_nat (take 8 bs)), ss_sp := ?fp + 16\<rparr>"
  have c: "0 < frameCount ctx" "frameCount ctx \<noteq> 1" "\<not> FIRCLSUnwindMaxFrames \<le> frameCount ctx"
    using count by (auto simp: not_le word_less_nat_alt)
  have "FIRCLSUnwindNextFrameUsingAllStrategies w ctx = Some (True, ctx\<lparr>unwind_registers := regs\<rparr>)"
    using c fp bs valid_pred [OF valid(2)] w
    by (simp add: FIRCLSUnwindNextFrameUsingAllStrategies_def Let_def no_compact_unwind unfold_getters
        FIRCLSUnwindWithFramePointer_def context_accessors FIRCLSUnwindStackPointerFromFramePointer_def regs_def)
  moreover have "FIRCLSUnwindContextHasValidPCAndSP (ctx\<lparr>unwind_registers := regs\<rparr>)"
    using ret sp by (simp add: FIRCLSUnwindContextHasValidPCAndSP_def unfold_getters regs_def
        FIRCLSIsValidPointer_def)
  ultimately have "FIRCLSUnwindNextFrame w ctx = Some (True, counted (ctx\<lparr>unwind_registers := regs\<rparr>))"
    using valid(1) by (rule next_frame_steps [rotated])
  then show ?thesis
    using ret sp rest by (simp add: FIRCLSUnwindContextHasValidPCAndSP_def unfold_getters regs_def
        FIRCLSIsValidPointer_def)
qed

lemma chain_end:
  assumes w: "no_unwind_info w" and fp: "CLS_PTRAUTH_STRIP (ss_fp (unwind_registers ctx)) = 0"
    and "0 < frameCount ctx"
  shows "\<exists>ctx'. FIRCLSUnwindNextFrame w ctx = Some (False, ctx')"
  using assms
  by (auto simp: FIRCLSUnwindNextFrame_def FIRCLSUnwindNextFrameUsingAllStrategies_def Let_def
      no_compact_unwind unfold_getters context_accessors FIRCLSIsValidPointer_def CLS_PTRAUTH_STRIP_def)

lemma walk_chain:
  assumes "no_unwind_info w" "frame_chain (world_memory w) (ss_fp (unwind_registers ctx)) rets"
    and "FIRCLSUnwindContextHasValidPCAndSP ctx" "4096 < FIRCLSUnwindGetPC ctx"
    and "1 < frameCount ctx" "unat (frameCount ctx) + length rets \<le> unat FIRCLSUnwindMaxFrames"
  shows "\<exists>cs. unwinding (FIRCLSUnwindNextFrame w) ctx cs \<and> map FIRCLSUnwindGetPC cs = rets"
  using assms(2-)
proof (induction rets arbitrary: ctx)
  case Nil
  moreover from Nil.prems have "0 < frameCount ctx" by (auto simp: word_less_nat_alt)
  ultimately show ?case using chain_end [OF assms(1), of ctx] by (auto intro: unwinding.stop)
next
  case (Cons ret rets)
  have lt: "frameCount ctx < FIRCLSUnwindMaxFrames" using Cons.prems by (simp add: word_less_nat_alt)
  with Cons.prems obtain ctx' where step: "FIRCLSUnwindNextFrame w ctx = Some (True, ctx')"
    "FIRCLSUnwindGetPC ctx' = ret" "FIRCLSUnwindContextHasValidPCAndSP ctx'"
    "frameCount ctx' = frameCount ctx + 1" "frame_chain (world_memory w) (ss_fp (unwind_registers ctx')) rets"
    using chain_step [OF assms(1)] by blast
  have "\<exists>cs. unwinding (FIRCLSUnwindNextFrame w) ctx' cs \<and> map FIRCLSUnwindGetPC cs = rets"
    using step Cons.prems lt frameCount_Suc [OF lt] by (intro Cons.IH) (auto simp: word_less_nat_alt)
  then obtain cs where "unwinding (FIRCLSUnwindNextFrame w) ctx' cs" "map FIRCLSUnwindGetPC cs = rets"
    by blast
  then show ?case using step by (intro exI [of _ "ctx' # cs"]) (auto intro: unwinding.frame)
qed

lemma repeats_length: "length (repeats l n pcs) = length pcs"
  by (induction l n pcs rule: repeats.induct) auto

lemma report_of_length: "length (fst (report_of pcs)) \<le> length pcs"
proof -
  let ?s = "\<lambda>(p :: u64, k). k < (10 :: nat)" and ?rs = "repeats 0 0 pcs"
  show ?thesis
  proof (cases "dropWhile ?s ?rs")
    case Nil
    then show ?thesis unfolding report_of_def Let_def Nil by simp
  next
    case (Cons pk rest)
    have "length ?rs = length (takeWhile ?s ?rs) + length (dropWhile ?s ?rs)"
      by (metis length_append takeWhile_dropWhile_id)
    then have "length pcs = length (takeWhile ?s ?rs) + Suc (length rest)"
      by (simp add: repeats_length Cons)
    then show ?thesis unfolding report_of_def Let_def Cons by (simp add: split_beta le_SucI)
  qed
qed

lemma walk_from_init:
  assumes w: "no_unwind_info w" and chain: "frame_chain (world_memory w) (ss_fp registers) rets"
    and fp: "FIRCLSThreadContextGetFramePointer registers \<noteq> 0"
    and pc: "4096 < FIRCLSThreadContextGetPC registers"
    and lr: "4096 < FIRCLSThreadContextGetLinkRegister registers"
    and sp: "FIRCLSIsValidPointer (FIRCLSThreadContextGetStackPointer registers)"
    and short: "length rets + 2 \<le> unat FIRCLSUnwindMaxFrames"
  shows "\<exists>cs. unwinding (FIRCLSUnwindNextFrame w) (FIRCLSUnwindInit registers) cs \<and>
    map FIRCLSUnwindGetPC cs =
      FIRCLSThreadContextGetPC registers # FIRCLSThreadContextGetLinkRegister registers # rets"
proof -
  let ?i = "FIRCLSUnwindInit registers"
  define c1 where "c1 = counted ?i"
  define r1 where "r1 = registers\<lparr>ss_pc := FIRCLSThreadContextGetLinkRegister registers\<rparr>"
  define c2 where "c2 = counted (c1\<lparr>unwind_registers := r1\<rparr>)"
  have max: "\<not> FIRCLSUnwindMaxFrames \<le> 0" "\<not> FIRCLSUnwindMaxFrames \<le> 1"
    by (simp_all add: FIRCLSUnwindMaxFrames_def word_le_nat_alt)
  have less: "4096 < x \<Longrightarrow> FIRCLSIsValidPointer x" for x by (simp add: FIRCLSIsValidPointer_def)
  have regs: "unwind_registers c1 = registers" "unwind_registers ?i = registers" "frameCount c1 = 1"
    by (simp_all add: c1_def FIRCLSUnwindInit_def)
  have valid: "FIRCLSUnwindContextHasValidPCAndSP ?i" "FIRCLSUnwindContextHasValidPCAndSP c1"
    using pc sp less regs by (simp_all add: FIRCLSUnwindContextHasValidPCAndSP_def FIRCLSUnwindGetPC_def
        FIRCLSUnwindGetStackPointer_def)
  have "FIRCLSUnwindNextFrameUsingAllStrategies w ?i = Some (True, ?i)"
    using max pc less regs by (simp add: FIRCLSUnwindNextFrameUsingAllStrategies_def Let_def init_repeat
        FIRCLSUnwindGetPC_def FIRCLSUnwindInit_def)
  then have s1: "FIRCLSUnwindNextFrame w ?i = Some (True, c1)"
    unfolding c1_def by (intro next_frame_steps valid)
  have strip: "CLS_PTRAUTH_STRIP (CLS_PTRAUTH_STRIP x) = CLS_PTRAUTH_STRIP x" for x
    by (simp add: CLS_PTRAUTH_STRIP_def and.assoc)
  have pc1: "FIRCLSIsValidPointer (FIRCLSUnwindGetPC c1 - 1)"
    using pc regs by (intro valid_pred) (simp add: FIRCLSUnwindGetPC_def)
  have "FIRCLSUnwindNextFrameUsingAllStrategies w c1 = Some (True, c1\<lparr>unwind_registers := r1\<rparr>)"
    using w max regs pc1 fp less [OF lr]
    by (simp add: FIRCLSUnwindNextFrameUsingAllStrategies_def Let_def no_compact_unwind
        FIRCLSUnwindGetFramePointer_def FIRCLSUnwindWithFramePointer_def FIRCLSUnwindWithLRRegister_def
        context_accessors r1_def)
  moreover have valid2: "FIRCLSUnwindContextHasValidPCAndSP (c1\<lparr>unwind_registers := r1\<rparr>)"
    using lr sp by (simp add: FIRCLSUnwindContextHasValidPCAndSP_def unfold_getters r1_def strip
        context_accessors less)
  ultimately have s2: "FIRCLSUnwindNextFrame w c1 = Some (True, c2)"
    unfolding c2_def by (intro next_frame_steps valid)
  have c2: "FIRCLSUnwindGetPC c2 = FIRCLSThreadContextGetLinkRegister registers" "frameCount c2 = 2"
    "ss_fp (unwind_registers c2) = ss_fp registers" "FIRCLSUnwindContextHasValidPCAndSP c2"
    using regs valid2 by (simp_all add: c2_def unfold_getters r1_def context_accessors strip
        FIRCLSUnwindContextHasValidPCAndSP_def)
  then obtain cs where "unwinding (FIRCLSUnwindNextFrame w) c2 cs" "map FIRCLSUnwindGetPC cs = rets"
    using walk_chain [OF w, of c2 rets] chain lr short by auto
  then show ?thesis
    using s1 s2 c2 regs by (intro exI [of _ "c1 # c2 # cs"])
      (auto intro!: unwinding.frame simp: FIRCLSUnwindGetPC_def [of c1])
qed

text \<open>No program counter comes eleven times in a row.\<close>

definition no_long_run :: "u64 list \<Rightarrow> bool" where
  "no_long_run pcs \<longleftrightarrow> (\<forall>i. i + 10 < length pcs \<longrightarrow> (\<exists>j \<le> 10. pcs ! (i + j) \<noteq> pcs ! i))"

lemma repeats_bound: "i < length ps \<Longrightarrow> snd (repeats l n ps ! i) \<le> n + i + 1"
proof (induction ps arbitrary: l n i)
  case (Cons p ps)
  let ?k = "if l = p then Suc n else 0"
  show ?case
  proof (cases i)
    case (Suc i')
    then have "snd (repeats p ?k ps ! i') \<le> ?k + i' + 1" using Cons by auto
    then show ?thesis using Suc by (auto simp: Let_def split: if_splits)
  qed (simp add: Let_def)
qed simp

lemma repeats_run:
  "i < length ps \<Longrightarrow> j \<le> snd (repeats l n ps ! i) \<Longrightarrow> j \<le> i + 1 \<Longrightarrow> (l # ps) ! (i + 1 - j) = ps ! i"
proof (induction ps arbitrary: l n i j)
  case (Cons p ps)
  let ?k = "if l = p then Suc n else 0"
  show ?case
  proof (cases i)
    case 0
    then show ?thesis using Cons.prems by (cases j) (auto simp: Let_def split: if_splits)
  next
    case (Suc i')
    have i': "i' < length ps" and jk: "j \<le> snd (repeats p ?k ps ! i')" using Cons.prems Suc by (simp_all add: Let_def)
    show ?thesis
    proof (cases "j \<le> i' + 1")
      case True
      have "(l # p # ps) ! (i + 1 - j) = (p # ps) ! (i' + 1 - j)" using True Suc by (simp add: Suc_diff_le)
      then show ?thesis using Cons.IH [OF i' jk True] Suc by simp
    next
      case False
      then have j: "j = i' + 2" using Cons.prems(3) Suc by simp
      have "snd (repeats p ?k ps ! i') \<le> ?k + i' + 1" by (rule repeats_bound [OF i'])
      then have "l = p" using jk j by (auto split: if_splits)
      moreover have "(p # ps) ! (i' + 1 - (i' + 1)) = ps ! i'" using j jk by (intro Cons.IH [OF i', where l = p and n = ?k]) simp_all
      ultimately show ?thesis using Suc j by simp
    qed
  qed
qed simp

lemma report_of_all:
  assumes "no_long_run pcs" "0 \<notin> set pcs"
  shows "report_of pcs = (pcs, 0, 0)"
proof -
  have short: "snd (repeats 0 0 pcs ! i) < 10" if i: "i < length pcs" for i
  proof (rule ccontr)
    assume "\<not> snd (repeats 0 0 pcs ! i) < 10"
    then have ten: "10 \<le> snd (repeats 0 0 pcs ! i)" by simp
    have "i + 1 > snd (repeats 0 0 pcs ! i)"
    proof (rule ccontr)
      assume "\<not> i + 1 > snd (repeats 0 0 pcs ! i)"
      then have "(0 # pcs) ! (i + 1 - (i + 1)) = pcs ! i" by (intro repeats_run [OF i, where l = 0 and n = 0]) simp_all
      then have "pcs ! i = 0" by simp
      then show False using assms(2) i nth_mem by metis
    qed
    then have "i - 10 + 10 < length pcs" "10 \<le> i" using i ten by simp_all
    then obtain j where j: "j \<le> 10" "pcs ! (i - 10 + j) \<noteq> pcs ! (i - 10)" using assms(1) unfolding no_long_run_def by blast
    have at: "pcs ! (i - m) = pcs ! i" if "m \<le> 10" for m
    proof -
      have "(0 # pcs) ! (i + 1 - m) = pcs ! i" using that ten \<open>10 \<le> i\<close> by (intro repeats_run [OF i, where l = 0 and n = 0]) simp_all
      moreover have "i + 1 - m = Suc (i - m)" using that \<open>10 \<le> i\<close> by simp
      ultimately show ?thesis by simp
    qed
    have "i - 10 + j = i - (10 - j)" using j(1) \<open>10 \<le> i\<close> by simp
    then show False using j at [of "10 - j"] at [of 10] by simp
  qed
  have "dropWhile (\<lambda>(p, k). k < (10 :: nat)) (repeats 0 0 pcs) = []"
    unfolding dropWhile_eq_Nil_conv all_set_conv_all_nth repeats_length using short by (simp add: split_beta)
  then show ?thesis by (simp add: report_of_def Let_def del: dropWhile_eq_Nil_conv)
qed

text \<open>
  C21. The stack of a thread in frame-pointer code. Where no image has unwind information, a thread
  whose frame pointer heads a chain of frame records is recorded as the program counter, the link register and then
  the return addresses of the chain: with all of them if none comes eleven times in a row, and in any case with
  the suppression of \<open>report_of\<close>.
\<close>

theorem frame_pointer_walk_correct:
  assumes "no_unwind_info w" "frame_chain (world_memory w) (ss_fp registers) rets"
    and "FIRCLSThreadContextGetFramePointer registers \<noteq> 0"
    and "4096 < FIRCLSThreadContextGetPC registers" "4096 < FIRCLSThreadContextGetLinkRegister registers"
    and "FIRCLSIsValidPointer (FIRCLSThreadContextGetStackPointer registers)"
    and "length rets + 2 \<le> unat FIRCLSUnwindMaxFrames"
    and pcs: "pcs = FIRCLSThreadContextGetPC registers # FIRCLSThreadContextGetLinkRegister registers # rets"
  shows "\<exists>r. record_stacktrace w level registers = Some r \<and> logLevel r = level \<and>
    (stacktrace r, repeatedPC r, unat (repeatedPCCount r)) = report_of pcs \<and>
    (no_long_run pcs \<longrightarrow> stacktrace r = pcs \<and> repeatedPC r = 0 \<and> repeatedPCCount r = 0)"
proof -
  have "\<exists>cs. unwinding (FIRCLSUnwindNextFrame w) (FIRCLSUnwindInit registers) cs \<and> map FIRCLSUnwindGetPC cs = pcs"
    unfolding pcs by (rule walk_from_init [OF assms(1-7)])
  then obtain cs where cs: "unwinding (FIRCLSUnwindNextFrame w) (FIRCLSUnwindInit registers) cs" "map FIRCLSUnwindGetPC cs = pcs" by blast
  obtain r where r: "record_stacktrace w level registers = Some r" "logLevel r = level"
      "(stacktrace r, repeatedPC r, unat (repeatedPCCount r)) = report_of pcs"
    using record_stacktrace_walk [OF cs(1), of level] unfolding cs(2) by blast
  have "0 \<notin> set pcs" using walk_valid [OF cs(1)] valid_pc_nonzero unfolding cs(2) [symmetric] by auto
  then have all: "report_of pcs = (pcs, 0, 0)" if "no_long_run pcs" using report_of_all that by blast
  have "stacktrace r = pcs \<and> repeatedPC r = 0 \<and> repeatedPCCount r = 0" if "no_long_run pcs"
    using r(3) unfolding all [OF that] by (simp only: prod.inject unat_eq_0)
  then show ?thesis using r by (intro exI [of _ r] conjI impI) simp_all
qed

text \<open>
  C22. The report of any walk: the entries, the suppressed program counter and its count are those
  of \<open>report_of\<close> on the program counters of the frames, and the log level is restored. There are
  at most \<open>FIRCLSUnwindMaxFrames\<close> entries.
\<close>

theorem record_stacktrace_correct:
  assumes "unwinding (FIRCLSUnwindNextFrame w) (FIRCLSUnwindInit registers) cs"
  shows "\<exists>r. record_stacktrace w level registers = Some r \<and> logLevel r = level \<and>
    (stacktrace r, repeatedPC r, unat (repeatedPCCount r)) = report_of (map FIRCLSUnwindGetPC cs) \<and>
    length (stacktrace r) \<le> unat FIRCLSUnwindMaxFrames"
proof -
  obtain r where r: "record_stacktrace w level registers = Some r" "logLevel r = level"
    "(stacktrace r, repeatedPC r, unat (repeatedPCCount r)) = report_of (map FIRCLSUnwindGetPC cs)"
    using record_stacktrace_walk [OF assms, of level] by blast
  have "stacktrace r = fst (report_of (map FIRCLSUnwindGetPC cs))" by (simp flip: r(3))
  moreover have "length cs \<le> unat FIRCLSUnwindMaxFrames"
    using frames.walk_length [OF assms] by simp
  ultimately show ?thesis using r report_of_length [of "map FIRCLSUnwindGetPC cs"] by auto
qed

text \<open>
  C23. Recording a thread ends with a report whenever no step of the walk is undefined; without
  unwind information, where only frame pointers and guarded reads are used, that is always.
\<close>

theorem record_stacktrace_total:
  assumes "no_unwind_info w"
  shows "\<exists>r. record_stacktrace w level registers = Some r"
proof -
  obtain cs where "unwinding (FIRCLSUnwindNextFrame w) (FIRCLSUnwindInit registers) cs"
    using frames.walk_exists [of "\<lambda>_. True" w] next_frame_defined [OF assms] by blast
  then show ?thesis using record_stacktrace_walk by blast
qed

lemma strip_id: "unat x < 2 ^ 36 \<Longrightarrow> CLS_PTRAUTH_STRIP x = x"
proof -
  assume "unat x < 2 ^ 36"
  then have "take_bit 36 x = x" by (simp add: word_unat_eq_iff unsigned_take_bit_eq take_bit_nat_eq_self)
  moreover have "(0x0000000FFFFFFFFF :: u64) = mask 36" by (simp add: mask_eq_exp_minus_1)
  ultimately show ?thesis by (simp only: CLS_PTRAUTH_STRIP_def take_bit_eq_mask)
qed

text \<open>The frame records of a stack, one above the other.\<close>

definition frame_record :: "u64 \<Rightarrow> u64 \<Rightarrow> byte list" where
  "frame_record caller ret = nat_bytes 8 (unat caller) @ nat_bytes 8 (unat ret)"

fun stack_bytes :: "addr \<Rightarrow> u64 list \<Rightarrow> byte list" where
  "stack_bytes fp [] = []"
| "stack_bytes fp (ret # rets) =
     frame_record (if rets = [] then 0 else fp + 16) ret @ stack_bytes (fp + 16) rets"

lemma frame_record_length [simp]: "length (frame_record caller ret) = 16"
  by (simp add: frame_record_def length_nat_bytes del: nat_bytes_numeral)

lemma nat_bytes_u64: "of_nat (bytes_nat (nat_bytes 8 (unat x))) = (x :: u64)"
  by (subst of_nat_bytes_nat) simp_all

lemma stack_bytes_length: "length (stack_bytes fp rets) = 16 * length rets"
  by (induction fp rets rule: stack_bytes.induct) auto

lemma frame_record_reads:
  "of_nat (bytes_nat (take 8 (frame_record caller ret))) = caller"
  "of_nat (bytes_nat (drop 8 (frame_record caller ret))) = ret"
  by (simp_all add: frame_record_def length_nat_bytes nat_bytes_u64 del: nat_bytes_numeral)

lemma frame_chain_stack:
  "rets \<noteq> [] \<Longrightarrow> bytes_at m fp (stack_bytes fp rets) \<Longrightarrow> 4096 \<le> unat fp \<Longrightarrow>
   unat fp + 16 * length rets < 2 ^ 36 \<Longrightarrow> \<forall>r \<in> set rets. 4096 < unat r \<and> unat r < 2 ^ 36 \<Longrightarrow>
   frame_chain m fp rets"
proof (induction fp rets rule: stack_bytes.induct)
  case (1 fp)
  then show ?case by simp
next
  case (2 fp ret rets)
  let ?next = "if rets = [] then 0 else fp + 16"
  let ?bs = "frame_record ?next ret"
  have next_fp: "unat (fp + 16) = unat fp + 16"
    using "2.prems"(4) unat_add_lt [of fp 16] by simp
  have strip: "CLS_PTRAUTH_STRIP fp = fp" "CLS_PTRAUTH_STRIP (fp + 16) = fp + 16" "CLS_PTRAUTH_STRIP ret = ret"
    using "2.prems" next_fp by (auto intro!: strip_id)
  have here: "bytes_at m fp ?bs" and above: "bytes_at m (fp + 16) (stack_bytes (fp + 16) rets)"
    using "2.prems"(2) by (simp_all add: bytes_at_append)
  have valid: "FIRCLSIsValidPointer fp" "FIRCLSIsValidPointer (fp + 16)"
    using "2.prems"(3) next_fp by (simp_all add: FIRCLSIsValidPointer_def word_le_nat_alt)
  have read: "FIRCLSReadMemory m fp 16 = Some ?bs"
    using load_bytes_iff [of m fp 16 ?bs] here valid by (simp only: FIRCLSReadMemory_def) simp
  have "frame_chain m ?next rets"
  proof (cases "rets = []")
    case True
    then show ?thesis by (simp add: CLS_PTRAUTH_STRIP_def)
  next
    case False
    then show ?thesis using "2.prems" next_fp above by (simp add: "2.IH")
  qed
  then show ?case
    using read strip valid "2.prems"(5) by (simp add: frame_record_reads word_less_nat_alt)
qed

definition sample_world :: "addr \<Rightarrow> u64 list \<Rightarrow> unwind_world" where
  "sample_world fp rets =
     \<lparr>world_sdk = sample_sdk, world_memory = mem_of fp (stack_bytes fp rets), world_images = empty_table\<rparr>"

definition sample_thread :: "addr \<Rightarrow> u64 \<Rightarrow> thread_context" where
  "sample_thread fp pc = \<lparr>ss_x = (\<lambda>_. 0), ss_fp = fp, ss_lr = pc, ss_sp = fp, ss_pc = pc\<rparr>"

lemma sample_no_unwind_info: "no_unwind_info (sample_world fp rets)"
proof -
  have "find_loop a (table_nodes empty_table) = None" for a
    by (auto simp: find_loop_None dest!: empty_table_ok(3))
  then show ?thesis
    by (simp add: no_unwind_info_def sample_world_def FIRCLSBinaryImageSafeFindImageForAddress_def)
qed

lemma sample_walk:
  assumes "rets \<noteq> []" "4096 \<le> unat fp" "unat fp + 16 * length rets < 2 ^ 36" "length rets \<le> 99998"
    and "\<forall>r \<in> set (pc # rets). 4096 < unat r \<and> unat r < 2 ^ 36"
  shows "frame_chain (world_memory (sample_world fp rets)) (ss_fp (sample_thread fp pc)) rets"
    and "FIRCLSThreadContextGetFramePointer (sample_thread fp pc) = fp"
    and "FIRCLSThreadContextGetPC (sample_thread fp pc) = pc"
    and "FIRCLSThreadContextGetLinkRegister (sample_thread fp pc) = pc"
    and "FIRCLSThreadContextGetStackPointer (sample_thread fp pc) = fp"
    and "\<exists>cs. unwinding (FIRCLSUnwindNextFrame (sample_world fp rets)) (FIRCLSUnwindInit (sample_thread fp pc)) cs \<and>
      map FIRCLSUnwindGetPC cs = pc # pc # rets"
proof -
  have "bytes_at (mem_of fp (stack_bytes fp rets)) fp (stack_bytes fp rets)"
    using assms by (intro bytes_at_mem_of) (simp add: stack_bytes_length)
  then show chain: "frame_chain (world_memory (sample_world fp rets)) (ss_fp (sample_thread fp pc)) rets"
    using assms by (simp add: sample_world_def sample_thread_def frame_chain_stack)
  have "unat fp < 2 ^ 36" using assms by simp
  then show gets: "FIRCLSThreadContextGetFramePointer (sample_thread fp pc) = fp"
    "FIRCLSThreadContextGetPC (sample_thread fp pc) = pc"
    "FIRCLSThreadContextGetLinkRegister (sample_thread fp pc) = pc"
    "FIRCLSThreadContextGetStackPointer (sample_thread fp pc) = fp"
    using assms(5) by (simp_all add: sample_thread_def context_accessors strip_id)
  have "fp \<noteq> 0" "FIRCLSIsValidPointer fp" "4096 < pc"
    using assms by (auto simp: FIRCLSIsValidPointer_def word_le_nat_alt word_less_nat_alt)
  then show "\<exists>cs. unwinding (FIRCLSUnwindNextFrame (sample_world fp rets)) (FIRCLSUnwindInit (sample_thread fp pc)) cs \<and>
      map FIRCLSUnwindGetPC cs = pc # pc # rets"
    using walk_from_init [OF sample_no_unwind_info chain] gets assms(4)
    by (simp add: FIRCLSUnwindMaxFrames_def)
qed

lemmas sample_facts = sample_walk [of "[0x5000, 0x6000]" "0x4000" "0x7000"]

theorem walk_invariant_witness:
  "\<exists>cs. unwinding (FIRCLSUnwindNextFrame (sample_world 0x4000 [0x5000, 0x6000]))
      (FIRCLSUnwindInit (sample_thread 0x4000 0x7000)) cs \<and>
    map FIRCLSUnwindGetPC cs = [0x7000, 0x7000, 0x5000, 0x6000] \<and> unat (frameCount (cs ! 3)) = 4 \<and>
    unat (repeatCount (cs ! 1)) = 1 \<and> FIRCLSUnwindContextHasValidPCAndSP (cs ! 3)"
proof -
  obtain cs where walk: "unwinding (FIRCLSUnwindNextFrame (sample_world 0x4000 [0x5000, 0x6000]))
      (FIRCLSUnwindInit (sample_thread 0x4000 0x7000)) cs"
    and pcs: "map FIRCLSUnwindGetPC cs = [0x7000, 0x7000, 0x5000, 0x6000]"
    using sample_facts(6) by auto
  from pcs have "length (map FIRCLSUnwindGetPC cs) = 4" by simp
  then have len: "length cs = 4" by simp
  have "\<forall>i < length cs. unat (frameCount (cs ! i)) = i + 1 \<and> FIRCLSUnwindContextHasValidPCAndSP (cs ! i) \<and>
      unat (repeatCount (cs ! i)) = snd (repeats 0 0 [0x7000, 0x7000, 0x5000, 0x6000] ! i)"
    using walk_invariant [OF walk] unfolding pcs by blast
  then have "unat (frameCount (cs ! 3)) = 4" "unat (repeatCount (cs ! 1)) = 1" "FIRCLSUnwindContextHasValidPCAndSP (cs ! 3)"
    using len by (simp_all add: Let_def)
  then show ?thesis using walk pcs by (intro exI [of _ cs] conjI)
qed

theorem frame_pointer_walk_correct_witness:
  "\<exists>r. record_stacktrace (sample_world 0x4000 [0x5000, 0x6000]) FIRCLSInternalLogLevelDebug
      (sample_thread 0x4000 0x7000) = Some r \<and> stacktrace r = [0x7000, 0x7000, 0x5000, 0x6000] \<and>
    repeatedPC r = 0"
proof -
  let ?w = "sample_world 0x4000 [0x5000, 0x6000]" and ?r = "sample_thread 0x4000 0x7000"
  have "no_long_run [0x7000, 0x7000, 0x5000, 0x6000]" by (simp add: no_long_run_def)
  then show ?thesis
    using frame_pointer_walk_correct [of ?w ?r "[0x5000, 0x6000]" "[0x7000, 0x7000, 0x5000, 0x6000]" FIRCLSInternalLogLevelDebug]
      sample_facts sample_no_unwind_info
    by (auto simp: FIRCLSIsValidPointer_def FIRCLSUnwindMaxFrames_def)
qed

theorem record_stacktrace_correct_witness:
  "\<exists>r. record_stacktrace (sample_world 0x4000 [0x5000, 0x6000]) FIRCLSInternalLogLevelInfo
      (sample_thread 0x4000 0x7000) = Some r \<and> length (stacktrace r) \<le> unat FIRCLSUnwindMaxFrames"
proof -
  obtain cs where "unwinding (FIRCLSUnwindNextFrame (sample_world 0x4000 [0x5000, 0x6000]))
      (FIRCLSUnwindInit (sample_thread 0x4000 0x7000)) cs"
    using sample_facts(6) by auto
  from record_stacktrace_correct [OF this] show ?thesis by blast
qed

theorem record_stacktrace_total_witness:
  "\<exists>r. record_stacktrace (sample_world 0x4000 []) FIRCLSInternalLogLevelInfo (sample_thread 0x4000 0x7000) = Some r"
  by (rule record_stacktrace_total [OF sample_no_unwind_info])

section \<open>Suppression forgets\<close>

lemma repeats_replicate:
  "repeats p k (replicate n p @ ps) = map (\<lambda>i. (p, k + Suc i)) [0..<n] @ repeats p (k + n) ps"
proof (induction n arbitrary: k)
  case 0
  show ?case by simp
next
  case (Suc n)
  have "map (\<lambda>i. (p, Suc k + Suc i)) [0..<n] = map (\<lambda>i. (p, k + Suc i)) [1..<Suc n]"
    unfolding One_nat_def map_Suc_upt [symmetric] by simp
  then show ?case using Suc [of "Suc k"] by (simp add: upt_conv_Cons Let_def del: upt_Suc)
qed

lemma span_at:
  assumes "\<forall>x \<in> set xs. P x" "\<not> P y"
  shows "takeWhile P (xs @ y # ys) = xs" "dropWhile P (xs @ y # ys) = y # ys"
  using assms by (simp_all add: takeWhile_append dropWhile_append)

lemma report_of_recursion:
  assumes "p \<noteq> 0" "p \<noteq> q" "11 < n"
  shows "report_of (replicate n p @ [q, p]) = (replicate 10 p @ [q], p, 0)"
proof -
  let ?f = "\<lambda>i. (p, Suc i)" and ?short = "\<lambda>(p :: u64, k). k < (10 :: nat)"
  obtain k where n: "n = Suc (10 + k)" using assms(3) less_imp_Suc_add [of 11 n] by fastforce
  let ?xs = "(p, 0) # map ?f [0..<9]" and ?ys = "map ?f [10..<10 + k] @ [(q, 0), (p, 0)]"
  have upt: "[0..<10 + k] = [0..<9] @ 9 # [10..<10 + k]"
    using upt_add_eq_append [of 0 9 "Suc k"] upt_conv_Cons [of 9 "10 + k"] by simp
  have "repeats 0 0 (p # ps) = (p, 0) # repeats p 0 ps" for ps using assms(1) by (simp add: Let_def)
  moreover have "repeats p k [q, p] = [(q, 0), (p, 0)]" for k using assms(2) by (simp add: Let_def)
  ultimately have "repeats 0 0 (replicate n p @ [q, p]) = (p, 0) # map ?f [0..<10 + k] @ [(q, 0), (p, 0)]"
    unfolding n replicate_Suc append_Cons by (simp only: repeats_replicate add_0)
  then have rs: "repeats 0 0 (replicate n p @ [q, p]) = ?xs @ (p, 10) # ?ys" by (simp only: upt) simp
  have "\<forall>x \<in> set ?xs. ?short x" "\<not> ?short (p, 10)" by auto
  note span = span_at [of ?xs ?short "(p, 10)" ?ys, OF this]
  have "map fst ?xs = replicate 10 p" by (simp add: comp_def map_replicate_const numeral_eq_Suc)
  moreover have "filter (\<lambda>x. x \<noteq> p) (map fst ?ys) = [q]" using assms(2) by (auto simp: filter_empty_conv)
  moreover have "last (0 # map snd (filter (\<lambda>(x, k). x = p) ?ys)) = 0" by simp
  ultimately show ?thesis
    unfolding report_of_def Let_def rs span by (simp only: list.case prod.case)
qed

text \<open>
  The suppression of a recursion forgets how long it was. When the walk leaves the recursion
  through another function and comes once more to the repeated program counter, the entry is
  dropped and the count reported for the recursion is that of the last visit, zero.
\<close>

theorem recursion_count_forgotten:
  assumes "unwinding (FIRCLSUnwindNextFrame w) (FIRCLSUnwindInit registers) cs"
    and "map FIRCLSUnwindGetPC cs = replicate n p @ [q, p]" "11 < n" "p \<noteq> q"
  shows "\<exists>r. record_stacktrace w level registers = Some r \<and>
    stacktrace r = replicate 10 p @ [q] \<and> repeatedPC r = p \<and> repeatedPCCount r = 0"
proof -
  from assms(2) have "p \<in> FIRCLSUnwindGetPC ` set cs" by (simp flip: set_map)
  then have "p \<noteq> 0" using walk_valid [OF assms(1)] valid_pc_nonzero by auto
  then have "report_of (map FIRCLSUnwindGetPC cs) = (replicate 10 p @ [q], p, 0)"
    using assms report_of_recursion by simp
  then show ?thesis using record_stacktrace_walk [OF assms(1), of level] by (auto simp: unat_eq_0)
qed

theorem recursion_count_forgotten_witness:
  "\<exists>r. record_stacktrace (sample_world 0x4000 (replicate 10 0x7000 @ [0x6000, 0x7000]))
      FIRCLSInternalLogLevelInfo (sample_thread 0x4000 0x7000) = Some r \<and> repeatedPCCount r = 0"
proof -
  let ?rets = "replicate 10 (0x7000 :: u64) @ [0x6000, 0x7000]"
  have "(0x7000 :: u64) # 0x7000 # ?rets = replicate 12 0x7000 @ [0x6000, 0x7000]"
    by (simp add: numeral_eq_Suc)
  then obtain cs where walk: "unwinding (FIRCLSUnwindNextFrame (sample_world 0x4000 ?rets))
      (FIRCLSUnwindInit (sample_thread 0x4000 0x7000)) cs"
    and "map FIRCLSUnwindGetPC cs = replicate 12 0x7000 @ [0x6000, 0x7000]"
    using sample_walk(6) [of ?rets "0x4000" "0x7000"] by auto
  from recursion_count_forgotten [OF this] show ?thesis by auto
qed

section \<open>The scan of a stack\<close>

lemma load_le_value:
  assumes "bytes_at m p (nat_bytes 8 (unat v) @ bs)"
  shows "load_le 8 m p = Some (v :: u64)" "FIRCLSIsValidPointer p \<Longrightarrow> read_word m p = Some v"
proof -
  have at: "bytes_at m p (nat_bytes 8 (unat v))" using assms unfolding bytes_at_append by (rule conjunct1)
  then have "load_bytes m p 8 = Some (nat_bytes 8 (unat v))"
    unfolding load_bytes_iff by (simp only: length_nat_bytes simp_thms)
  then show "load_le 8 m p = Some v" "FIRCLSIsValidPointer p \<Longrightarrow> read_word m p = Some v"
    by (simp_all only: load_le_def read_word_def FIRCLSReadMemory_def not_True_eq_False if_False
        option.map nat_bytes_u64)
qed

text \<open>
  C25. The scan of a stack returns the first of its values that lies in an image, and \<open>false\<close>
  when there is none, for a range that is mapped and does not reach the end of the address space.
\<close>

theorem FIRCLSUnwindFirstExecutableAddress_correct:
  assumes "bytes_at m start (concat (map (\<lambda>v. nat_bytes 8 (unat v)) vs))" "vs \<noteq> []"
    and "4096 \<le> unat start" "unat start + 8 * length vs < 2 ^ 64"
  shows "FIRCLSUnwindFirstExecutableAddress images m start (start + of_nat (8 * length vs)) =
    Some (find (FIRCLSUnwindIsAddressExecutable images) vs)"
  using assms
proof (induction vs arbitrary: start)
  case Nil
  then show ?case by simp
next
  case (Cons v vs)
  note [simp del] = nat_bytes_numeral load_bytes_numeral
  have at: "bytes_at m start (nat_bytes 8 (unat v) @ concat (map (\<lambda>v. nat_bytes 8 (unat v)) vs))"
    using Cons.prems(1) by simp
  then have above: "bytes_at m (start + 8) (concat (map (\<lambda>v. nat_bytes 8 (unat v)) vs))"
    unfolding bytes_at_append length_nat_bytes by simp
  have valid: "FIRCLSIsValidPointer start"
    using Cons.prems(3) by (simp add: FIRCLSIsValidPointer_def word_le_nat_alt)
  have next8: "unat (start + 8) = unat start + 8" using Cons.prems(4) unat_add_lt [of start 8] by simp
  have ending: "start + of_nat (8 * length (v # vs)) = start + 8 + of_nat (8 * length vs)" by simp
  have "unat (start + of_nat (8 * length (v # vs))) = unat start + 8 * length (v # vs)"
    using Cons.prems(4) by (intro unat_add_of_nat) simp
  then have more: "start + 8 < start + of_nat (8 * length (v # vs)) \<longleftrightarrow> vs \<noteq> []"
    unfolding word_less_nat_alt next8 by auto
  have check: "check_stack_value images m start =
      (if FIRCLSUnwindIsAddressExecutable images v then Some (Some v) else None)"
    using valid load_le_value(2) [OF at valid] by (simp add: check_stack_value_def)
  have rest: "vs \<noteq> [] \<Longrightarrow> FIRCLSUnwindFirstExecutableAddress images m (start + 8)
      (start + of_nat (8 * length (v # vs))) = Some (find (FIRCLSUnwindIsAddressExecutable images) vs)"
    unfolding ending using Cons.prems(3,4) next8 above by (intro Cons.IH) auto
  show ?case
    using rest more
    by (subst FIRCLSUnwindFirstExecutableAddress.simps)
       (simp add: check load_le_value(1) [OF at] del: of_nat_mult of_nat_add of_nat_Suc length_Cons)
qed

theorem FIRCLSUnwindFirstExecutableAddress_correct_witness:
  "FIRCLSUnwindFirstExecutableAddress (FIRCLSBinaryImageStoreNode True sample_image empty_table)
     (mem_of 0x4000 (concat (map (\<lambda>v. nat_bytes 8 (unat v)) [5 :: u64, 0x100000010]))) 0x4000 0x4010 =
   Some (Some 0x100000010)"
proof -
  let ?t = "FIRCLSBinaryImageStoreNode True sample_image empty_table"
  let ?vs = "[5 :: u64, 0x100000010]" and ?b = "\<lambda>vs. concat (map (\<lambda>v. nat_bytes 8 (unat (v :: u64))) vs)"
  have "store_loop 0 sample_image (replicate 1024 zero_node) = sample_image # replicate 1023 zero_node"
    using store_loop_first [of "[]" 0 zero_node sample_image "replicate 1023 zero_node"]
    by (simp add: zero_node_def flip: replicate_Suc)
  then have nodes: "table_nodes ?t = sample_image # replicate 1023 zero_node"
    by (simp add: empty_table_def CLS_BINARY_IMAGE_RUNTIME_NODE_COUNT_def)
  have "find_loop a (replicate 1023 zero_node) = None" for a by (auto simp: find_loop_None)
  then have exec: "\<not> FIRCLSUnwindIsAddressExecutable ?t 5" "FIRCLSUnwindIsAddressExecutable ?t 0x100000010"
    using nodes sample_image_contains empty_table_ok(2)
    by (simp_all add: FIRCLSUnwindIsAddressExecutable_def FIRCLSBinaryImageSafeFindImageForAddress_def
        contains_address_def sample_image_def)
  have "bytes_at (mem_of 0x4000 (?b ?vs)) 0x4000 (?b ?vs)"
    by (rule bytes_at_mem_of) (simp add: length_nat_bytes del: nat_bytes_numeral)
  from FIRCLSUnwindFirstExecutableAddress_correct [OF this, of ?t] show ?thesis
    using exec by (simp del: nat_bytes_numeral)
qed

end
