(* ===== verification/Pb_Common.thy ===== *)
theory Pb_Common
  imports Prelude
begin

text \<open>
  The descriptors of message fields and the iterator over them: \<^verbatim>\<open>nanopb/pb.h\<close> and
  \<^verbatim>\<open>nanopb/pb_common.c\<close>, in the configuration of the pod (\<open>PB_FIELD_32BIT\<close>, \<open>PB_ENABLE_MALLOC\<close>, no
  packed structures, 64-bit pointers). Descriptors lie in the memory of the process as the compiler
  lays out \<open>pb_field_t\<close>: a tag, a type byte with three bytes of padding, four 32-bit numbers and a
  pointer, 32 bytes in all.
\<close>

section \<open>Field types\<close>

definition PB_LTYPE_BOOL :: byte where "PB_LTYPE_BOOL = 0x00"
definition PB_LTYPE_VARINT :: byte where "PB_LTYPE_VARINT = 0x01"
definition PB_LTYPE_UVARINT :: byte where "PB_LTYPE_UVARINT = 0x02"
definition PB_LTYPE_SVARINT :: byte where "PB_LTYPE_SVARINT = 0x03"
definition PB_LTYPE_FIXED32 :: byte where "PB_LTYPE_FIXED32 = 0x04"
definition PB_LTYPE_FIXED64 :: byte where "PB_LTYPE_FIXED64 = 0x05"
definition PB_LTYPE_LAST_PACKABLE :: byte where "PB_LTYPE_LAST_PACKABLE = 0x05"
definition PB_LTYPE_BYTES :: byte where "PB_LTYPE_BYTES = 0x06"
definition PB_LTYPE_STRING :: byte where "PB_LTYPE_STRING = 0x07"
definition PB_LTYPE_SUBMESSAGE :: byte where "PB_LTYPE_SUBMESSAGE = 0x08"
definition PB_LTYPE_EXTENSION :: byte where "PB_LTYPE_EXTENSION = 0x09"
definition PB_LTYPE_FIXED_LENGTH_BYTES :: byte where "PB_LTYPE_FIXED_LENGTH_BYTES = 0x0A"
definition PB_LTYPES_COUNT :: byte where "PB_LTYPES_COUNT = 0x0B"
definition PB_LTYPE_MASK :: byte where "PB_LTYPE_MASK = 0x0F"
definition PB_HTYPE_REQUIRED :: byte where "PB_HTYPE_REQUIRED = 0x00"
definition PB_HTYPE_OPTIONAL :: byte where "PB_HTYPE_OPTIONAL = 0x10"
definition PB_HTYPE_REPEATED :: byte where "PB_HTYPE_REPEATED = 0x20"
definition PB_HTYPE_ONEOF :: byte where "PB_HTYPE_ONEOF = 0x30"
definition PB_HTYPE_MASK :: byte where "PB_HTYPE_MASK = 0x30"
definition PB_ATYPE_STATIC :: byte where "PB_ATYPE_STATIC = 0x00"
definition PB_ATYPE_POINTER :: byte where "PB_ATYPE_POINTER = 0x80"
definition PB_ATYPE_CALLBACK :: byte where "PB_ATYPE_CALLBACK = 0x40"
definition PB_ATYPE_MASK :: byte where "PB_ATYPE_MASK = 0xC0"
definition PB_ATYPE :: "byte \<Rightarrow> byte" where "PB_ATYPE x = x AND PB_ATYPE_MASK"
definition PB_HTYPE :: "byte \<Rightarrow> byte" where "PB_HTYPE x = x AND PB_HTYPE_MASK"
definition PB_LTYPE :: "byte \<Rightarrow> byte" where "PB_LTYPE x = x AND PB_LTYPE_MASK"
definition PB_SIZE_MAX :: u32 where "PB_SIZE_MAX = 0xFFFFFFFF"

lemmas PB_LTYPE_defs =
  PB_LTYPE_BOOL_def PB_LTYPE_VARINT_def PB_LTYPE_UVARINT_def PB_LTYPE_SVARINT_def
  PB_LTYPE_FIXED32_def PB_LTYPE_FIXED64_def PB_LTYPE_LAST_PACKABLE_def PB_LTYPE_BYTES_def
  PB_LTYPE_STRING_def PB_LTYPE_SUBMESSAGE_def PB_LTYPE_EXTENSION_def
  PB_LTYPE_FIXED_LENGTH_BYTES_def PB_LTYPES_COUNT_def PB_LTYPE_MASK_def PB_LTYPE_def
lemmas PB_HTYPE_defs =
  PB_HTYPE_REQUIRED_def PB_HTYPE_OPTIONAL_def PB_HTYPE_REPEATED_def PB_HTYPE_ONEOF_def
  PB_HTYPE_MASK_def PB_HTYPE_def
lemmas PB_ATYPE_defs =
  PB_ATYPE_STATIC_def PB_ATYPE_POINTER_def PB_ATYPE_CALLBACK_def PB_ATYPE_MASK_def PB_ATYPE_def

section \<open>Descriptors\<close>

record pb_field =
  field_tag :: u32
  field_type :: byte
  data_offset :: u32
  size_offset :: u32
  data_size :: u32
  array_size :: u32
  field_ptr :: addr

definition sizeof_pb_field :: u64 where "sizeof_pb_field = 32"
definition sizeof_pointer :: u64 where "sizeof_pointer = 8"

text \<open>The structure at an address.\<close>

definition field_at :: "memory \<Rightarrow> addr \<Rightarrow> pb_field option" where
  "field_at m p =
     do { tag \<leftarrow> load_le 4 m p;
          ty \<leftarrow> load_le 1 m (p + 4);
          offset \<leftarrow> load_le 4 m (p + 8);
          soffset \<leftarrow> load_le 4 m (p + 12);
          dsize \<leftarrow> load_le 4 m (p + 16);
          asize \<leftarrow> load_le 4 m (p + 20);
          ptr \<leftarrow> load_le 8 m (p + 24);
          Some \<lparr>field_tag = tag, field_type = ty, data_offset = offset, size_offset = soffset,
                data_size = dsize, array_size = asize, field_ptr = ptr\<rparr> }"

text \<open>The addition of a signed 32-bit offset to a pointer.\<close>

definition ptr_sadd :: "addr \<Rightarrow> u32 \<Rightarrow> addr option" where
  "ptr_sadd p d =
     (if 0 \<le> int (unat p) + sint d \<and> int (unat p) + sint d < 2 ^ 64 then Some (p + scast d) else None)"

section \<open>The iterator\<close>

record pb_field_iter =
  iter_start :: addr
  iter_pos :: addr
  required_field_index :: u32
  dest_struct :: addr
  iter_pData :: addr
  iter_pSize :: addr

definition pb_field_iter_begin :: "memory \<Rightarrow> addr \<Rightarrow> addr \<Rightarrow> (bool \<times> pb_field_iter) option" where
  "pb_field_iter_begin m descr dest =
     do { f \<leftarrow> field_at m descr;
          (data, sz) \<leftarrow>
            (if dest = 0 then Some (0, 0)
             else do { data \<leftarrow> ptr_add dest (ucast (data_offset f));
                       sz \<leftarrow> ptr_sadd data (size_offset f);
                       Some (data, sz) });
          Some (field_tag f \<noteq> 0,
                \<lparr>iter_start = descr, iter_pos = descr, required_field_index = 0, dest_struct = dest,
                 iter_pData = data, iter_pSize = sz\<rparr>) }"

text \<open>The size of a field in the message structure.\<close>

definition prev_size :: "pb_field \<Rightarrow> u64" where
  "prev_size prev_field =
     (if PB_ATYPE (field_type prev_field) = PB_ATYPE_STATIC \<and>
         PB_HTYPE (field_type prev_field) = PB_HTYPE_REPEATED
      then ucast (data_size prev_field) * ucast (array_size prev_field)
      else if PB_ATYPE (field_type prev_field) = PB_ATYPE_POINTER then sizeof_pointer
      else ucast (data_size prev_field))"

definition pb_field_iter_next :: "memory \<Rightarrow> pb_field_iter \<Rightarrow> (bool \<times> pb_field_iter) option" where
  "pb_field_iter_next m iter =
     do { prev_field \<leftarrow> field_at m (iter_pos iter);
          if field_tag prev_field = 0 then Some (False, iter)
          else do {
            pos \<leftarrow> ptr_add (iter_pos iter) sizeof_pb_field;
            f \<leftarrow> field_at m pos;
            if field_tag f = 0
            then do { (_, iter) \<leftarrow> pb_field_iter_begin m (iter_start iter) (dest_struct iter);
                      Some (False, iter) }
            else if PB_HTYPE (field_type prev_field) = PB_HTYPE_ONEOF \<and>
                    PB_HTYPE (field_type f) = PB_HTYPE_ONEOF \<and> data_offset f = PB_SIZE_MAX
            then Some (True, iter\<lparr>iter_pos := pos\<rparr>)
            else do {
              let index =
                  (if PB_HTYPE (field_type prev_field) = PB_HTYPE_REQUIRED
                   then required_field_index iter + 1 else required_field_index iter);
              p1 \<leftarrow> ptr_add (iter_pData iter) (prev_size prev_field);
              data \<leftarrow> ptr_add p1 (ucast (data_offset f));
              sz \<leftarrow> ptr_sadd data (size_offset f);
              Some (True, iter\<lparr>iter_pos := pos, required_field_index := index,
                               iter_pData := data, iter_pSize := sz\<rparr>) } } }"

text \<open>The search goes round until it comes back to the field it started from.\<close>

partial_function (option) find_loop_from ::
    "memory \<Rightarrow> u32 \<Rightarrow> addr \<Rightarrow> pb_field_iter \<Rightarrow> (bool \<times> pb_field_iter) option" where
  "find_loop_from m tag start iter =
     do { f \<leftarrow> field_at m (iter_pos iter);
          if field_tag f = tag \<and> PB_LTYPE (field_type f) \<noteq> PB_LTYPE_EXTENSION
          then Some (True, iter)
          else do {
            (_, iter) \<leftarrow> pb_field_iter_next m iter;
            if iter_pos iter \<noteq> start then find_loop_from m tag start iter
            else Some (False, iter) } }"

definition pb_field_iter_find :: "memory \<Rightarrow> pb_field_iter \<Rightarrow> u32 \<Rightarrow> (bool \<times> pb_field_iter) option" where
  "pb_field_iter_find m iter tag = find_loop_from m tag (iter_pos iter) iter"

section \<open>The iterator walks an array of fields\<close>

text \<open>An array of descriptors in memory, closed by one with tag 0.\<close>

definition fields_in :: "memory \<Rightarrow> addr \<Rightarrow> pb_field list \<Rightarrow> bool" where
  "fields_in m p fs \<longleftrightarrow>
     unat p + 32 * Suc (length fs) < 2 ^ 64 \<and>
     (\<forall>i < length fs. field_at m (p + of_nat (32 * i)) = Some (fs ! i) \<and> field_tag (fs ! i) \<noteq> 0) \<and>
     (\<exists>t. field_at m (p + of_nat (32 * length fs)) = Some t \<and> field_tag t = 0)"

text \<open>
  Where a message structure at \<open>dest\<close> has the data of field \<open>i\<close> and the size or presence flag that
  belongs to it: the offsets count from the end of the field before, and the members of a union,
  after the first, stay where it is.
\<close>

definition slot_size :: "pb_field \<Rightarrow> nat" where
  "slot_size f =
     (if PB_ATYPE (field_type f) = PB_ATYPE_STATIC \<and> PB_HTYPE (field_type f) = PB_HTYPE_REPEATED
      then unat (data_size f) * unat (array_size f)
      else if PB_ATYPE (field_type f) = PB_ATYPE_POINTER then 8 else unat (data_size f))"

definition union_member :: "pb_field \<Rightarrow> pb_field \<Rightarrow> bool" where
  "union_member prev f \<longleftrightarrow>
     PB_HTYPE (field_type prev) = PB_HTYPE_ONEOF \<and> PB_HTYPE (field_type f) = PB_HTYPE_ONEOF \<and>
     data_offset f = PB_SIZE_MAX"

fun place :: "nat \<Rightarrow> pb_field list \<Rightarrow> nat \<Rightarrow> nat \<times> int" where
  "place dest fs 0 =
     (let d = dest + unat (data_offset (fs ! 0)) in (d, int d + sint (size_offset (fs ! 0))))"
| "place dest fs (Suc i) =
     (if union_member (fs ! i) (fs ! Suc i) then place dest fs i
      else let d = fst (place dest fs i) + slot_size (fs ! i) + unat (data_offset (fs ! Suc i)) in
           (d, int d + sint (size_offset (fs ! Suc i))))"

definition layout_ok :: "addr \<Rightarrow> pb_field list \<Rightarrow> bool" where
  "layout_ok dest fs \<longleftrightarrow> dest \<noteq> 0 \<and>
     (\<forall>i < length fs. fst (place (unat dest) fs i) < 2 ^ 64 \<and>
        0 \<le> snd (place (unat dest) fs i) \<and> snd (place (unat dest) fs i) < 2 ^ 64)"

definition iterator_at :: "addr \<Rightarrow> addr \<Rightarrow> pb_field list \<Rightarrow> nat \<Rightarrow> pb_field_iter" where
  "iterator_at start dest fs i =
     \<lparr>iter_start = start, iter_pos = start + of_nat (32 * i),
      required_field_index =
        of_nat (length (filter (\<lambda>f. PB_HTYPE (field_type f) = PB_HTYPE_REQUIRED) (take i fs))),
      dest_struct = dest, iter_pData = of_nat (fst (place (unat dest) fs i)),
      iter_pSize = of_int (snd (place (unat dest) fs i))\<rparr>"

lemma ptr_add_nat:
  "n + unat k < 2 ^ 64 \<Longrightarrow> ptr_add (of_nat n) k = Some (of_nat (n + unat k))"
  by (simp add: ptr_add_def unat_of_nat)

lemma ptr_sadd_nat:
  assumes "n < 2 ^ 64" "0 \<le> int n + sint d" "int n + sint d < 2 ^ 64"
  shows "ptr_sadd (of_nat n) d = Some (of_int (int n + sint d))"
proof -
  have u: "unat (of_nat n :: addr) = n" using unat_add_of_nat [of 0 n] assms(1) by simp
  have s: "(of_nat n :: addr) + scast d = of_int (int n + sint d)"
    unfolding of_int_add scast_eq of_int_of_nat_eq ..
  show ?thesis unfolding ptr_sadd_def u s using assms(2,3) by (simp only: simp_thms if_True)
qed

lemma unat_prev_size: "unat (prev_size f) = slot_size f"
proof -
  have "unat x < 2 ^ 32" for x :: u32 using unsigned_less [of x] by simp
  then have "unat (data_size f) * unat (array_size f) < 2 ^ 32 * 2 ^ 32"
    by (intro mult_strict_mono) auto
  then show ?thesis
    by (simp add: prev_size_def slot_size_def sizeof_pointer_def unat_ucast_up unat_word_ariths)
qed

lemma fields_in_nth:
  "fields_in m p fs \<Longrightarrow> i < length fs \<Longrightarrow> field_at m (p + of_nat (32 * i)) = Some (fs ! i)"
  "fields_in m p fs \<Longrightarrow> i < length fs \<Longrightarrow> field_tag (fs ! i) \<noteq> 0"
  unfolding fields_in_def by blast+

lemma layout_nth:
  assumes "layout_ok dest fs" "i < length fs"
  shows "fst (place (unat dest) fs i) < 2 ^ 64" "0 \<le> snd (place (unat dest) fs i)"
    "snd (place (unat dest) fs i) < 2 ^ 64"
  using assms unfolding layout_ok_def by blast+

lemma begin_at:
  assumes "fields_in m start fs" "layout_ok dest fs" "fs \<noteq> []"
  shows "pb_field_iter_begin m start dest = Some (True, iterator_at start dest fs 0)"
proof -
  have n: "0 < length fs" using assms(3) by simp
  have f0: "field_at m start = Some (fs ! 0)" using fields_in_nth(1) [OF assms(1) n] by simp
  have f0': "field_tag (fs ! 0) \<noteq> 0" by (rule fields_in_nth(2) [OF assms(1) n])
  let ?d = "unat dest + unat (data_offset (fs ! 0))"
  have "dest \<noteq> 0" using assms(2) by (simp add: layout_ok_def)
  have ok: "?d < 2 ^ 64" "0 \<le> int ?d + sint (size_offset (fs ! 0))"
    "int ?d + sint (size_offset (fs ! 0)) < 2 ^ 64"
    using layout_nth [OF assms(2) n] by (simp_all only: place.simps Let_def fst_conv snd_conv)
  define data :: addr where "data = of_nat ?d"
  define sz :: addr where "sz = of_int (int ?d + sint (size_offset (fs ! 0)))"
  have "ptr_add dest (ucast (data_offset (fs ! 0))) = Some data"
    using ptr_add_nat [of "unat dest" "ucast (data_offset (fs ! 0))"] ok
    by (simp add: unat_ucast_up data_def)
  moreover have "ptr_sadd data (size_offset (fs ! 0)) = Some sz"
    unfolding data_def sz_def using ok by (intro ptr_sadd_nat)
  moreover have "iterator_at start dest fs 0 = \<lparr>iter_start = start, iter_pos = start,
      required_field_index = 0, dest_struct = dest, iter_pData = data, iter_pSize = sz\<rparr>"
    unfolding iterator_at_def place.simps Let_def fst_conv snd_conv data_def [symmetric] sz_def [symmetric]
    by simp
  ultimately show ?thesis
    using f0 f0' \<open>dest \<noteq> 0\<close> by (simp add: pb_field_iter_begin_def)
qed

lemma next_at:
  assumes fields: "fields_in m start fs" and layout: "layout_ok dest fs" and i: "i < length fs"
  shows "pb_field_iter_next m (iterator_at start dest fs i) =
    Some (Suc i < length fs, iterator_at start dest fs (Suc i mod length fs))"
proof -
  let ?p = "\<lambda>i. start + of_nat (32 * i)"
  have fi: "field_at m (?p i) = Some (fs ! i)" "field_tag (fs ! i) \<noteq> 0" using fields i by (auto simp: fields_in_def)
  have step: "ptr_add (?p i) sizeof_pb_field = Some (?p (Suc i))"
  proof -
    have "unat (?p i) = unat start + 32 * i" using fields i by (intro unat_add_of_nat) (simp add: fields_in_def)
    moreover have "unat (32 :: u64) = 32" by simp
    moreover have "?p (Suc i) = ?p i + 32" by simp
    moreover have "unat start + 32 * i + 32 < 2 ^ 64" using fields i by (simp add: fields_in_def)
    ultimately show ?thesis unfolding ptr_add_def sizeof_pb_field_def by (simp only: if_True)
  qed
  show ?thesis
  proof (cases "Suc i < length fs")
    case False
    with i have last: "Suc i = length fs" by simp
    then obtain t where "field_at m (?p (Suc i)) = Some t" "field_tag t = 0"
      using fields by (auto simp: fields_in_def)
    moreover have "fs \<noteq> []" using i by auto
    ultimately show ?thesis
      using fi step last begin_at [OF fields layout]
      by (simp add: pb_field_iter_next_def iterator_at_def [of _ _ _ i])
  next
    case True
    have fs: "field_at m (?p (Suc i)) = Some (fs ! Suc i)" "field_tag (fs ! Suc i) \<noteq> 0"
      using fields True by (auto simp: fields_in_def)
    have mod: "Suc i mod length fs = Suc i" using True by simp
    have take: "take (Suc i) fs = take i fs @ [fs ! i]" using i by (simp add: take_Suc_conv_app_nth)
    show ?thesis
    proof (cases "union_member (fs ! i) (fs ! Suc i)")
      case union: True
      then have "PB_HTYPE (field_type (fs ! i)) \<noteq> PB_HTYPE_REQUIRED"
        by (simp add: union_member_def PB_HTYPE_ONEOF_def PB_HTYPE_REQUIRED_def)
      then show ?thesis
        using fi fs step union True mod take
        by (simp add: pb_field_iter_next_def iterator_at_def union_member_def)
    next
      case False
      let ?f = "fs ! i" and ?g = "fs ! Suc i"
      define d where "d = fst (place (unat dest) fs i)"
      define e where "e = d + slot_size ?f + unat (data_offset ?g)"
      have place: "place (unat dest) fs (Suc i) = (e, int e + sint (size_offset ?g))"
        using False by (simp add: d_def e_def Let_def)
      have e: "e < 2 ^ 64" "0 \<le> int e + sint (size_offset ?g)" "int e + sint (size_offset ?g) < 2 ^ 64"
        using layout True place by (auto simp: layout_ok_def dest!: spec [of _ "Suc i"])
      let ?p1 = "d + slot_size ?f" and ?s = "int e + sint (size_offset ?g)"
      define pd p1 pe ps :: addr where ptrs: "pd = of_nat d" "p1 = of_nat ?p1" "pe = of_nat e" "ps = of_int ?s"
      have "ptr_add pd (prev_size ?f) = Some p1"
        unfolding ptrs using e ptr_add_nat [of d "prev_size ?f"]
        by (simp add: e_def unat_prev_size del: of_nat_add)
      moreover have "ptr_add p1 (ucast (data_offset ?g)) = Some pe"
        unfolding ptrs using e ptr_add_nat [of "d + slot_size ?f" "ucast (data_offset ?g)"]
        by (simp add: e_def unat_ucast_up del: of_nat_add)
      moreover have "ptr_sadd pe (size_offset ?g) = Some ps"
        unfolding ptrs using e by (intro ptr_sadd_nat)
      moreover have "iterator_at start dest fs (Suc i) = (iterator_at start dest fs i)
          \<lparr>iter_pos := ?p (Suc i), iter_pData := pe, iter_pSize := ps,
           required_field_index := (if PB_HTYPE (field_type ?f) = PB_HTYPE_REQUIRED
             then required_field_index (iterator_at start dest fs i) + 1
             else required_field_index (iterator_at start dest fs i))\<rparr>"
        unfolding iterator_at_def place take ptrs by simp
      moreover have "iter_pData (iterator_at start dest fs i) = pd" by (simp add: iterator_at_def d_def ptrs)
      moreover have "iter_pos (iterator_at start dest fs i) = ?p i" by (simp add: iterator_at_def)
      moreover have "\<not> (PB_HTYPE (field_type ?f) = PB_HTYPE_ONEOF \<and> PB_HTYPE (field_type ?g) = PB_HTYPE_ONEOF \<and>
          data_offset ?g = PB_SIZE_MAX)" using False by (simp add: union_member_def)
      ultimately show ?thesis
        using fi fs step True
        unfolding pb_field_iter_next_def mod
        by (simp only: bind.bind_lunit Let_def if_False) (simp del: of_nat_mult of_nat_Suc)
    qed
  qed
qed

text \<open>
  C26. The iterator walks the fields in order. On a descriptor array and a structure that lies in
  the address space, \<open>pb_field_iter_begin\<close> is at field 0, and \<open>pb_field_iter_next\<close> goes from every
  field to the next one, with the data and size pointers of the layout and the count of required
  fields before it; after the last field it reports \<open>false\<close> and is at field 0 again.
\<close>

theorem pb_field_iter_walk:
  assumes "fields_in m start fs" "layout_ok dest fs" "fs \<noteq> []"
  shows "pb_field_iter_begin m start dest = Some (True, iterator_at start dest fs 0) \<and>
    (\<forall>i < length fs. pb_field_iter_next m (iterator_at start dest fs i) =
       Some (Suc i < length fs, iterator_at start dest fs (Suc i mod length fs)))"
  using begin_at [OF assms] next_at [OF assms(1,2)] by simp

definition wanted :: "u32 \<Rightarrow> pb_field \<Rightarrow> bool" where
  "wanted tag f \<longleftrightarrow> field_tag f = tag \<and> PB_LTYPE (field_type f) \<noteq> PB_LTYPE_EXTENSION"

lemma position_injective:
  assumes "fields_in m start fs" "i < length fs" "j < length fs"
  shows "iter_pos (iterator_at start dest fs i) = iter_pos (iterator_at start dest fs j) \<longleftrightarrow> i = j"
proof -
  have "unat (start + of_nat (32 * k)) = unat start + 32 * k" if "k < length fs" for k
    using assms(1) that by (intro unat_add_of_nat) (simp add: fields_in_def)
  then have "unat (start + of_nat (32 * i)) = unat (start + of_nat (32 * j)) \<longleftrightarrow> i = j"
    using assms(2,3) by simp
  then show ?thesis unfolding iterator_at_def pb_field_iter.simps word_unat_eq_iff .
qed

lemma find_loop_at:
  assumes fields: "fields_in m start fs" and layout: "layout_ok dest fs" and i: "i < length fs"
  shows "k < length fs \<Longrightarrow>
    find_loop_from m tag (iter_pos (iterator_at start dest fs i))
      (iterator_at start dest fs ((i + k) mod length fs)) =
    Some (case find (\<lambda>j. wanted tag (fs ! j)) (map (\<lambda>k. (i + k) mod length fs) [k..<length fs]) of
            Some j \<Rightarrow> (True, iterator_at start dest fs j)
          | None \<Rightarrow> (False, iterator_at start dest fs i))"
proof (induction "length fs - k" arbitrary: k)
  case 0
  then show ?case by simp
next
  case (Suc n)
  let ?N = "length fs" and ?it = "iterator_at start dest fs"
  let ?j = "(i + k) mod ?N"
  have j: "?j < ?N" using i by (intro mod_less_divisor) linarith
  have at: "field_at m (iter_pos (?it ?j)) = Some (fs ! ?j)"
    using fields_in_nth(1) [OF fields j] by (simp add: iterator_at_def)
  have upt: "[k..<?N] = k # [Suc k..<?N]" using Suc.prems by (rule upt_conv_Cons)
  have succ: "Suc ?j mod ?N = (i + Suc k) mod ?N" by (simp add: mod_Suc_eq)
  show ?case
  proof (cases "wanted tag (fs ! ?j)")
    case True
    then show ?thesis using at upt by (subst find_loop_from.simps) (simp add: wanted_def)
  next
    case False
    let ?rest = "if iter_pos (?it ((i + Suc k) mod ?N)) \<noteq> iter_pos (?it i)
      then find_loop_from m tag (iter_pos (?it i)) (?it ((i + Suc k) mod ?N))
      else Some (False, ?it ((i + Suc k) mod ?N))"
    have step: "find_loop_from m tag (iter_pos (?it i)) (?it ?j) = ?rest"
      using at False next_at [OF fields layout j] unfolding succ
      by (subst find_loop_from.simps) (auto simp: wanted_def)
    have wraps: "(i + Suc k) mod ?N = i \<longleftrightarrow> Suc k = ?N"
    proof
      assume "(i + Suc k) mod ?N = i"
      then have "?N dvd Suc k" using i by (metis add_diff_cancel_left' mod_eq_dvd_iff_nat le_add1 mod_mod_trivial)
      then show "Suc k = ?N" using Suc.prems by (auto dest: dvd_imp_le)
    next
      assume "Suc k = ?N"
      then show "(i + Suc k) mod ?N = i" using i by (simp only: mod_add_self2 mod_less)
    qed
    have pos: "iter_pos (?it ((i + Suc k) mod ?N)) = iter_pos (?it i) \<longleftrightarrow> Suc k = ?N"
      using position_injective [OF fields mod_less_divisor i] i wraps by fastforce
    show ?thesis
    proof (cases "Suc k = ?N")
      case True
      then show ?thesis using step pos wraps upt False by simp
    next
      case notlast: False
      then have "Suc k < ?N" using Suc.prems by simp
      moreover have "n = ?N - Suc k" using Suc.hyps(2) by linarith
      ultimately show ?thesis using step pos notlast upt False Suc.hyps(1) [of "Suc k"] by simp
    qed
  qed
qed

text \<open>
  C27. The search for a tag goes once round the fields, from the current one on: it returns, at the
  first field with the tag that is not an extension placeholder, and with \<open>false\<close> where it began
  when there is none.
\<close>

theorem pb_field_iter_find_correct:
  assumes "fields_in m start fs" "layout_ok dest fs" "i < length fs"
  shows "pb_field_iter_find m (iterator_at start dest fs i) tag =
    Some (case find (\<lambda>j. wanted tag (fs ! j)) ([i..<length fs] @ [0..<i]) of
            Some j \<Rightarrow> (True, iterator_at start dest fs j)
          | None \<Rightarrow> (False, iterator_at start dest fs i))"
proof -
  let ?N = "length fs"
  have "map (\<lambda>k. (i + k) mod ?N) [0..<?N - i] = [i..<?N]"
    using assms(3) by (auto intro: nth_equalityI)
  moreover have "map (\<lambda>k. (i + k) mod ?N) [?N - i..<?N] = [0..<i]"
  proof (rule nth_equalityI)
    fix k assume "k < length (map (\<lambda>k. (i + k) mod ?N) [?N - i..<?N])"
    then have k: "k < i" using assms(3) by simp
    then have "(i + (?N - i + k)) mod ?N = k" using assms(3) by simp
    then show "map (\<lambda>k. (i + k) mod ?N) [?N - i..<?N] ! k = [0..<i] ! k" using k assms(3) by simp
  qed (use assms(3) in simp)
  moreover have "[0..<?N] = [0..<?N - i] @ [?N - i..<?N]"
    using upt_add_eq_append [of 0 "?N - i" i] assms(3) by simp
  ultimately have order: "map (\<lambda>k. (i + k) mod ?N) [0..<?N] = [i..<?N] @ [0..<i]" by simp
  have "0 < ?N" using assms(3) by linarith
  from find_loop_at [OF assms this, of tag] show ?thesis
    using assms(3) unfolding pb_field_iter_find_def order by simp
qed

section \<open>Descriptors as bytes\<close>

definition field_bytes :: "pb_field \<Rightarrow> byte list" where
  "field_bytes f =
     nat_bytes 4 (unat (field_tag f)) @ [field_type f, 0, 0, 0] @ nat_bytes 4 (unat (data_offset f)) @
     nat_bytes 4 (unat (size_offset f)) @ nat_bytes 4 (unat (data_size f)) @
     nat_bytes 4 (unat (array_size f)) @ nat_bytes 8 (unat (field_ptr f))"

lemma load_le_nat_bytes:
  assumes "bytes_at m p (nat_bytes n (unat (x :: 'a::len word)) @ bs)" "LENGTH('a) \<le> 8 * n"
  shows "load_le n m p = Some x" "bytes_at m (p + of_nat n) bs"
proof -
  have at: "bytes_at m p (nat_bytes n (unat x))" "bytes_at m (p + of_nat n) bs"
    using assms(1) by (simp_all add: bytes_at_append length_nat_bytes)
  show "load_le n m p = Some x"
    unfolding load_le_bytes [OF at(1) length_nat_bytes] of_nat_bytes_nat [OF assms(2)] by simp
  show "bytes_at m (p + of_nat n) bs" by (rule at(2))
qed

lemma field_bytes_length: "length (field_bytes f) = 32"
  by (simp add: field_bytes_def length_nat_bytes del: nat_bytes_numeral)

lemma field_at_bytes:
  assumes "bytes_at m p (field_bytes f)"
  shows "field_at m p = Some f"
proof -
  note [simp del] = nat_bytes_numeral load_bytes_numeral
  let ?rest = "nat_bytes 4 (unat (data_offset f)) @
     nat_bytes 4 (unat (size_offset f)) @ nat_bytes 4 (unat (data_size f)) @
     nat_bytes 4 (unat (array_size f)) @ nat_bytes 8 (unat (field_ptr f)) @ []"
  have "bytes_at m p (nat_bytes 4 (unat (field_tag f)) @ [field_type f, 0, 0, 0] @ ?rest)"
    using assms by (simp add: field_bytes_def)
  from load_le_nat_bytes [OF this] have tag: "load_le 4 m p = Some (field_tag f)"
    and r1: "bytes_at m (p + 4) ([field_type f, 0, 0, 0] @ ?rest)" by simp_all
  then have "bytes_at m (p + 4) [field_type f]" by simp
  then have ty: "load_le 1 m (p + 4) = Some (field_type f)"
    by (subst load_le_bytes [of _ _ "[field_type f]"]) simp_all
  have r2: "bytes_at m (p + 8) ?rest" using r1 unfolding bytes_at_append by (simp add: add.assoc)
  from load_le_nat_bytes [OF r2] have o1: "load_le 4 m (p + 8) = Some (data_offset f)"
    and r3: "bytes_at m (p + 12) (nat_bytes 4 (unat (size_offset f)) @ nat_bytes 4 (unat (data_size f)) @
     nat_bytes 4 (unat (array_size f)) @ nat_bytes 8 (unat (field_ptr f)) @ [])" by (simp_all add: add.assoc)
  from load_le_nat_bytes [OF r3] have o2: "load_le 4 m (p + 12) = Some (size_offset f)"
    and r4: "bytes_at m (p + 16) (nat_bytes 4 (unat (data_size f)) @
     nat_bytes 4 (unat (array_size f)) @ nat_bytes 8 (unat (field_ptr f)) @ [])" by (simp_all add: add.assoc)
  from load_le_nat_bytes [OF r4] have o3: "load_le 4 m (p + 16) = Some (data_size f)"
    and r5: "bytes_at m (p + 20) (nat_bytes 4 (unat (array_size f)) @ nat_bytes 8 (unat (field_ptr f)) @ [])"
    by (simp_all add: add.assoc)
  from load_le_nat_bytes [OF r5] have o4: "load_le 4 m (p + 20) = Some (array_size f)"
    and r6: "bytes_at m (p + 24) (nat_bytes 8 (unat (field_ptr f)) @ [])" by (simp_all add: add.assoc)
  from load_le_nat_bytes [OF r6] have o5: "load_le 8 m (p + 24) = Some (field_ptr f)" by simp
  show ?thesis unfolding field_at_def tag ty o1 o2 o3 o4 o5 by simp
qed

definition PB_LAST_FIELD :: pb_field where
  "PB_LAST_FIELD = \<lparr>field_tag = 0, field_type = 0, data_offset = 0, size_offset = 0, data_size = 0,
                    array_size = 0, field_ptr = 0\<rparr>"

definition descriptor_bytes :: "pb_field list \<Rightarrow> byte list" where
  "descriptor_bytes fs = concat (map field_bytes (fs @ [PB_LAST_FIELD]))"

lemma concat_fields_length: "length (concat (map field_bytes fs)) = 32 * length fs"
  by (induction fs) (auto simp: field_bytes_length)

lemma bytes_at_nth_field:
  "bytes_at m p (concat (map field_bytes fs)) \<Longrightarrow> i < length fs \<Longrightarrow>
   field_at m (p + of_nat (32 * i)) = Some (fs ! i)"
proof (induction fs arbitrary: p i)
  case Nil
  then show ?case by simp
next
  case (Cons f fs)
  then have f: "bytes_at m p (field_bytes f)" "bytes_at m (p + 32) (concat (map field_bytes fs))"
    by (simp_all add: bytes_at_append field_bytes_length)
  show ?case
  proof (cases i)
    case 0
    then show ?thesis using f field_at_bytes by simp
  next
    case (Suc j)
    then show ?thesis using Cons.IH [OF f(2), of j] Cons.prems(2) by (simp add: add.assoc)
  qed
qed

lemma fields_in_bytes:
  assumes "bytes_at m p (descriptor_bytes fs)" "\<forall>f \<in> set fs. field_tag f \<noteq> 0"
  shows "fields_in m p fs"
proof -
  have "unat p + 32 * Suc (length fs) < 2 ^ 64"
    using bytes_at_end [OF assms(1)] by (simp add: descriptor_bytes_def concat_fields_length field_bytes_length)
  moreover have "field_at m (p + of_nat (32 * i)) = Some ((fs @ [PB_LAST_FIELD]) ! i)"
    if "i \<le> length fs" for i
    using assms(1) that unfolding descriptor_bytes_def by (intro bytes_at_nth_field) auto
  ultimately show ?thesis
    using assms(2) unfolding fields_in_def by (fastforce simp: nth_append PB_LAST_FIELD_def)
qed

text \<open>A message with a required \<open>int32\<close>, an optional one with its flag and a repeated one.\<close>

definition sample_fields :: "pb_field list" where
  "sample_fields =
     [\<lparr>field_tag = 1, field_type = 0x01, data_offset = 0, size_offset = 0, data_size = 4,
       array_size = 0, field_ptr = 0\<rparr>,
      \<lparr>field_tag = 2, field_type = 0x11, data_offset = 4, size_offset = - 4, data_size = 4,
       array_size = 0, field_ptr = 0\<rparr>,
      \<lparr>field_tag = 5, field_type = 0x21, data_offset = 4, size_offset = - 4, data_size = 4,
       array_size = 3, field_ptr = 0\<rparr>]"

lemma sample_fields_in: "fields_in (mem_of 0x1000 (descriptor_bytes sample_fields)) 0x1000 sample_fields"
proof (rule fields_in_bytes)
  show "bytes_at (mem_of 0x1000 (descriptor_bytes sample_fields)) 0x1000 (descriptor_bytes sample_fields)"
    by (rule bytes_at_mem_of)
      (simp add: descriptor_bytes_def concat_fields_length field_bytes_length sample_fields_def)
qed (auto simp: sample_fields_def)

lemma sample_layout: "layout_ok 0x8000 sample_fields"
proof -
  have "unat (0x8000 :: addr) = 0x8000" by simp
  then show ?thesis
    unfolding layout_ok_def
    by (simp add: sample_fields_def All_less_Suc union_member_def slot_size_def PB_HTYPE_defs
        PB_ATYPE_defs PB_SIZE_MAX_def Let_def)
qed

theorem pb_field_iter_walk_witness:
  "pb_field_iter_next (mem_of 0x1000 (descriptor_bytes sample_fields)) (iterator_at 0x1000 0x8000 sample_fields 1) =
     Some (True, iterator_at 0x1000 0x8000 sample_fields 2)"
proof -
  have "length sample_fields = 3" "sample_fields \<noteq> []" by (simp_all add: sample_fields_def)
  then show ?thesis
    using pb_field_iter_walk [OF sample_fields_in sample_layout] by (simp flip: numeral_2_eq_2)
qed

theorem pb_field_iter_find_correct_witness:
  "pb_field_iter_find (mem_of 0x1000 (descriptor_bytes sample_fields)) (iterator_at 0x1000 0x8000 sample_fields 1) 1 =
     Some (True, iterator_at 0x1000 0x8000 sample_fields 0) \<and>
   pb_field_iter_find (mem_of 0x1000 (descriptor_bytes sample_fields)) (iterator_at 0x1000 0x8000 sample_fields 1) 3 =
     Some (False, iterator_at 0x1000 0x8000 sample_fields 1)"
proof -
  have n: "length sample_fields = 3" by (simp add: sample_fields_def)
  have w: "wanted tag (sample_fields ! 0) \<longleftrightarrow> tag = 1" "wanted tag (sample_fields ! 1) \<longleftrightarrow> tag = 2"
    "wanted tag (sample_fields ! 2) \<longleftrightarrow> tag = 5" for tag
    by (auto simp: wanted_def sample_fields_def PB_LTYPE_defs)
  have upt: "[1..<3] @ [0..<1] = [1, 2, 0 :: nat]" by (simp add: upt_rec)
  note find = pb_field_iter_find_correct [OF sample_fields_in sample_layout, of 1, unfolded n upt]
  show ?thesis using find [of 1] find [of 3] w by simp
qed

end
