(* ===== verification/Pb_Encode.thy ===== *)
theory Pb_Encode
  imports Pb_Common
begin

text \<open>
  The encoder of \<^verbatim>\<open>nanopb/pb_encode.c\<close>. It reads a message structure and its descriptors, which it
  does not change, and writes to a stream. The two are separate objects here: the memory that is
  read is a field of the environment, and the memory of the output buffer is part of the state.

  What the library calls through function pointers is a parameter of the model: the callback of a
  user-defined stream, of a callback field and of an extension, fields of the environment that take
  the address of the function.

  A result \<open>None\<close> is undefined behaviour, or a nesting of messages deeper than the fuel of
  \<open>pb_encode\<close>; a result \<open>Some (ok, stream, out)\<close> has the returned \<open>bool\<close> and the new state.
\<close>

section \<open>Streams\<close>

datatype write_callback = NoCallback | BufWrite | UserWrite addr

record ostream =
  os_callback :: write_callback
  os_state :: addr
  os_max_size :: u64
  os_bytes_written :: u64
  os_errmsg :: "string option"

type_synonym io = "(bool \<times> ostream \<times> memory) option"

record encoder_env =
  env_memory :: memory
  call_write :: "addr \<Rightarrow> ostream \<Rightarrow> memory \<Rightarrow> byte list \<Rightarrow> io"
  call_encode :: "addr \<Rightarrow> ostream \<Rightarrow> memory \<Rightarrow> addr \<Rightarrow> addr \<Rightarrow> io"
  call_ext_encode :: "addr \<Rightarrow> ostream \<Rightarrow> memory \<Rightarrow> addr \<Rightarrow> io"

definition and_ok :: "io \<Rightarrow> (ostream \<Rightarrow> memory \<Rightarrow> io) \<Rightarrow> io" where
  "and_ok r f = do { (ok, s, out) \<leftarrow> r; if ok then f s out else Some (False, s, out) }"

definition PB_RETURN_ERROR :: "ostream \<Rightarrow> memory \<Rightarrow> string \<Rightarrow> io" where
  "PB_RETURN_ERROR s out msg =
     Some (False, s\<lparr>os_errmsg := (case os_errmsg s of None \<Rightarrow> Some msg | Some e \<Rightarrow> Some e)\<rparr>, out)"

text \<open>A buffer handed to \<open>pb_write\<close>: an array of the caller, or a pointer into the message.\<close>

datatype write_source = LocalArray "byte list" | MessageAt addr

definition source_bytes :: "encoder_env \<Rightarrow> write_source \<Rightarrow> nat \<Rightarrow> byte list option" where
  "source_bytes e src n =
     (case src of
        LocalArray bs \<Rightarrow> if n \<le> length bs then Some (take n bs) else None
      | MessageAt p \<Rightarrow> load_bytes (env_memory e) p n)"

fun store_bytes :: "memory \<Rightarrow> addr \<Rightarrow> byte list \<Rightarrow> memory option" where
  "store_bytes out p [] = Some out"
| "store_bytes out p (b # bs) =
     (if out p = None then None
      else do { q \<leftarrow> ptr_add p 1; store_bytes (out(p \<mapsto> b)) q bs })"

definition buf_write :: "ostream \<Rightarrow> memory \<Rightarrow> byte list \<Rightarrow> io" where
  "buf_write s out bs =
     do { next_dest \<leftarrow> ptr_add (os_state s) (of_nat (length bs));
          out \<leftarrow> store_bytes out (os_state s) bs;
          Some (True, s\<lparr>os_state := next_dest\<rparr>, out) }"

definition pb_ostream_from_buffer :: "addr \<Rightarrow> u64 \<Rightarrow> ostream" where
  "pb_ostream_from_buffer buf bufsize =
     \<lparr>os_callback = BufWrite, os_state = buf, os_max_size = bufsize, os_bytes_written = 0,
      os_errmsg = None\<rparr>"

definition PB_OSTREAM_SIZING :: ostream where
  "PB_OSTREAM_SIZING =
     \<lparr>os_callback = NoCallback, os_state = 0, os_max_size = 0, os_bytes_written = 0, os_errmsg = None\<rparr>"

definition call_callback :: "encoder_env \<Rightarrow> ostream \<Rightarrow> memory \<Rightarrow> byte list \<Rightarrow> io" where
  "call_callback e s out bs =
     (case os_callback s of
        NoCallback \<Rightarrow> None
      | BufWrite \<Rightarrow> buf_write s out bs
      | UserWrite f \<Rightarrow> call_write e f s out bs)"

definition pb_write :: "encoder_env \<Rightarrow> ostream \<Rightarrow> memory \<Rightarrow> write_source \<Rightarrow> u64 \<Rightarrow> io" where
  "pb_write e s out src count =
     (if 0 < count \<and> os_callback s \<noteq> NoCallback
      then if os_bytes_written s + count < os_bytes_written s \<or>
              os_max_size s < os_bytes_written s + count
           then PB_RETURN_ERROR s out ''stream full''
           else do {
             bs \<leftarrow> source_bytes e src (unat count);
             (ok, s, out) \<leftarrow> call_callback e s out bs;
             if \<not> ok then PB_RETURN_ERROR s out ''io error''
             else Some (True, s\<lparr>os_bytes_written := os_bytes_written s + count\<rparr>, out) }
      else Some (True, s\<lparr>os_bytes_written := os_bytes_written s + count\<rparr>, out))"

section \<open>Numbers\<close>

text \<open>
  The loop over the seven-bit groups of a varint, which fills an array of ten bytes; the writing
  of an eleventh would be undefined.
\<close>

function varint_loop :: "u64 \<Rightarrow> byte list \<Rightarrow> byte list option" where
  "varint_loop v buffer =
     (if v = 0 then Some buffer
      else if length buffer < 10
      then varint_loop (drop_bit 7 v) (buffer @ [ucast (v AND 0x7F) OR 0x80])
      else None)"
  by pat_completeness auto
termination
  by (relation "measure (\<lambda>(v, buffer). 10 - length buffer)") auto

declare varint_loop.simps [simp del]

definition pb_encode_varint :: "encoder_env \<Rightarrow> ostream \<Rightarrow> memory \<Rightarrow> u64 \<Rightarrow> io" where
  "pb_encode_varint e s out v =
     (if v \<le> 0x7F then pb_write e s out (LocalArray [ucast v]) 1
      else do {
        buffer \<leftarrow> varint_loop v [];
        let i = length buffer;
        let buffer = buffer[i - 1 := (buffer ! (i - 1)) AND 0x7F];
        pb_write e s out (LocalArray buffer) (of_nat i) })"

definition pb_encode_svarint :: "encoder_env \<Rightarrow> ostream \<Rightarrow> memory \<Rightarrow> u64 \<Rightarrow> io" where
  "pb_encode_svarint e s out v =
     (let zigzagged = (if sint v < 0 then NOT (push_bit 1 v) else push_bit 1 v) in
      pb_encode_varint e s out zigzagged)"

definition pb_encode_fixed32 :: "encoder_env \<Rightarrow> ostream \<Rightarrow> memory \<Rightarrow> addr \<Rightarrow> io" where
  "pb_encode_fixed32 e s out p =
     do { v \<leftarrow> (load_le 4 (env_memory e) p :: u32 option);
          pb_write e s out
            (LocalArray [ucast (v AND 0xFF), ucast (drop_bit 8 v AND 0xFF),
                         ucast (drop_bit 16 v AND 0xFF), ucast (drop_bit 24 v AND 0xFF)]) 4 }"

definition pb_encode_fixed64 :: "encoder_env \<Rightarrow> ostream \<Rightarrow> memory \<Rightarrow> addr \<Rightarrow> io" where
  "pb_encode_fixed64 e s out p =
     do { v \<leftarrow> (load_le 8 (env_memory e) p :: u64 option);
          pb_write e s out
            (LocalArray [ucast (v AND 0xFF), ucast (drop_bit 8 v AND 0xFF),
                         ucast (drop_bit 16 v AND 0xFF), ucast (drop_bit 24 v AND 0xFF),
                         ucast (drop_bit 32 v AND 0xFF), ucast (drop_bit 40 v AND 0xFF),
                         ucast (drop_bit 48 v AND 0xFF), ucast (drop_bit 56 v AND 0xFF)]) 8 }"

section \<open>Tags, strings\<close>

definition PB_WT_VARINT :: u64 where "PB_WT_VARINT = 0"
definition PB_WT_64BIT :: u64 where "PB_WT_64BIT = 1"
definition PB_WT_STRING :: u64 where "PB_WT_STRING = 2"
definition PB_WT_32BIT :: u64 where "PB_WT_32BIT = 5"

definition pb_encode_tag :: "encoder_env \<Rightarrow> ostream \<Rightarrow> memory \<Rightarrow> u64 \<Rightarrow> u32 \<Rightarrow> io" where
  "pb_encode_tag e s out wiretype field_number =
     pb_encode_varint e s out (push_bit 3 (ucast field_number) OR wiretype)"

definition pb_encode_tag_for_field :: "encoder_env \<Rightarrow> ostream \<Rightarrow> memory \<Rightarrow> pb_field \<Rightarrow> io" where
  "pb_encode_tag_for_field e s out f =
     (let t = PB_LTYPE (field_type f) in
      if t = PB_LTYPE_BOOL \<or> t = PB_LTYPE_VARINT \<or> t = PB_LTYPE_UVARINT \<or> t = PB_LTYPE_SVARINT
      then pb_encode_tag e s out PB_WT_VARINT (field_tag f)
      else if t = PB_LTYPE_FIXED32 then pb_encode_tag e s out PB_WT_32BIT (field_tag f)
      else if t = PB_LTYPE_FIXED64 then pb_encode_tag e s out PB_WT_64BIT (field_tag f)
      else if t = PB_LTYPE_BYTES \<or> t = PB_LTYPE_STRING \<or> t = PB_LTYPE_SUBMESSAGE \<or>
              t = PB_LTYPE_FIXED_LENGTH_BYTES
      then pb_encode_tag e s out PB_WT_STRING (field_tag f)
      else PB_RETURN_ERROR s out ''invalid field type'')"

definition pb_encode_string :: "encoder_env \<Rightarrow> ostream \<Rightarrow> memory \<Rightarrow> addr \<Rightarrow> u64 \<Rightarrow> io" where
  "pb_encode_string e s out buffer n =
     and_ok (pb_encode_varint e s out n) (\<lambda>s out. pb_write e s out (MessageAt buffer) n)"

section \<open>Encoders of one value\<close>

text \<open>
  \<open>enc\<close> stands for \<open>pb_encode\<close> in what follows: the encoding of a submessage with the descriptors
  and the structure at the two addresses.
\<close>

type_synonym message_encoder = "ostream \<Rightarrow> memory \<Rightarrow> addr \<Rightarrow> addr \<Rightarrow> io"

definition pb_encode_submessage ::
    "encoder_env \<Rightarrow> message_encoder \<Rightarrow> ostream \<Rightarrow> memory \<Rightarrow> addr \<Rightarrow> addr \<Rightarrow> io" where
  "pb_encode_submessage e enc s out descr src_struct =
     do { (ok, substream, out) \<leftarrow> enc PB_OSTREAM_SIZING out descr src_struct;
          if \<not> ok then Some (False, s\<lparr>os_errmsg := os_errmsg substream\<rparr>, out)
          else
            let n = os_bytes_written substream in
            and_ok (pb_encode_varint e s out n)
              (\<lambda>s out.
                 if os_callback s = NoCallback then pb_write e s out (LocalArray []) n
                 else if os_max_size s < os_bytes_written s + n
                 then PB_RETURN_ERROR s out ''stream full''
                 else do {
                   (status, substream, out) \<leftarrow>
                     enc \<lparr>os_callback = os_callback s, os_state = os_state s, os_max_size = n,
                          os_bytes_written = 0, os_errmsg = None\<rparr> out descr src_struct;
                   let s = s\<lparr>os_bytes_written := os_bytes_written s + os_bytes_written substream,
                             os_state := os_state substream, os_errmsg := os_errmsg substream\<rparr>;
                   if os_bytes_written substream \<noteq> n
                   then PB_RETURN_ERROR s out ''submsg size changed''
                   else Some (status, s, out) }) }"

definition safe_read_bool :: "memory \<Rightarrow> addr \<Rightarrow> bool option" where
  "safe_read_bool m p = do { b \<leftarrow> m p; Some (b \<noteq> 0) }"

definition pb_enc_bool :: "encoder_env \<Rightarrow> ostream \<Rightarrow> memory \<Rightarrow> addr \<Rightarrow> io" where
  "pb_enc_bool e s out src =
     do { b \<leftarrow> safe_read_bool (env_memory e) src;
          pb_encode_varint e s out (if b then 1 else 0) }"

text \<open>An integer of one, two, four or eight bytes, with its sign or without.\<close>

definition load_signed :: "memory \<Rightarrow> addr \<Rightarrow> u32 \<Rightarrow> u64 outcome" where
  "load_signed m p n =
     (if n = 1 then map_option (\<lambda>x. Some (scast (x :: byte))) (load_le 1 m p)
      else if n = 2 then map_option (\<lambda>x. Some (scast (x :: u16))) (load_le 2 m p)
      else if n = 4 then map_option (\<lambda>x. Some (scast (x :: u32))) (load_le 4 m p)
      else if n = 8 then map_option Some (load_le 8 m p)
      else Some None)"

definition load_unsigned :: "memory \<Rightarrow> addr \<Rightarrow> u32 \<Rightarrow> u64 outcome" where
  "load_unsigned m p n =
     (if n = 1 then map_option (\<lambda>x. Some (ucast (x :: byte))) (load_le 1 m p)
      else if n = 2 then map_option (\<lambda>x. Some (ucast (x :: u16))) (load_le 2 m p)
      else if n = 4 then map_option (\<lambda>x. Some (ucast (x :: u32))) (load_le 4 m p)
      else if n = 8 then map_option Some (load_le 8 m p)
      else Some None)"

definition pb_enc_varint :: "encoder_env \<Rightarrow> ostream \<Rightarrow> memory \<Rightarrow> pb_field \<Rightarrow> addr \<Rightarrow> io" where
  "pb_enc_varint e s out f src =
     do { r \<leftarrow> load_signed (env_memory e) src (data_size f);
          case r of None \<Rightarrow> PB_RETURN_ERROR s out ''invalid data_size''
          | Some v \<Rightarrow> pb_encode_varint e s out v }"

definition pb_enc_uvarint :: "encoder_env \<Rightarrow> ostream \<Rightarrow> memory \<Rightarrow> pb_field \<Rightarrow> addr \<Rightarrow> io" where
  "pb_enc_uvarint e s out f src =
     do { r \<leftarrow> load_unsigned (env_memory e) src (data_size f);
          case r of None \<Rightarrow> PB_RETURN_ERROR s out ''invalid data_size''
          | Some v \<Rightarrow> pb_encode_varint e s out v }"

definition pb_enc_svarint :: "encoder_env \<Rightarrow> ostream \<Rightarrow> memory \<Rightarrow> pb_field \<Rightarrow> addr \<Rightarrow> io" where
  "pb_enc_svarint e s out f src =
     do { r \<leftarrow> load_signed (env_memory e) src (data_size f);
          case r of None \<Rightarrow> PB_RETURN_ERROR s out ''invalid data_size''
          | Some v \<Rightarrow> pb_encode_svarint e s out v }"

definition pb_enc_fixed64 :: "encoder_env \<Rightarrow> ostream \<Rightarrow> memory \<Rightarrow> addr \<Rightarrow> io" where
  "pb_enc_fixed64 e s out src = pb_encode_fixed64 e s out src"

definition pb_enc_fixed32 :: "encoder_env \<Rightarrow> ostream \<Rightarrow> memory \<Rightarrow> addr \<Rightarrow> io" where
  "pb_enc_fixed32 e s out src = pb_encode_fixed32 e s out src"

text \<open>In a \<open>pb_bytes_array_t\<close> the bytes follow the 32-bit size.\<close>

definition offsetof_bytes :: u64 where "offsetof_bytes = 4"

definition pb_enc_bytes :: "encoder_env \<Rightarrow> ostream \<Rightarrow> memory \<Rightarrow> pb_field \<Rightarrow> addr \<Rightarrow> io" where
  "pb_enc_bytes e s out f src =
     (if src = 0 then pb_encode_string e s out 0 0
      else do {
        n \<leftarrow> (load_le 4 (env_memory e) src :: u32 option);
        if PB_ATYPE (field_type f) = PB_ATYPE_STATIC \<and> ucast (data_size f) - offsetof_bytes < ucast n
        then PB_RETURN_ERROR s out ''bytes size exceeded''
        else do { p \<leftarrow> ptr_add src offsetof_bytes;
                  pb_encode_string e s out p (ucast n) } })"

text \<open>The length of a string, at most \<open>n\<close>.\<close>

fun string_length :: "nat \<Rightarrow> memory \<Rightarrow> addr \<Rightarrow> nat option" where
  "string_length 0 m p = Some 0"
| "string_length (Suc n) m p =
     do { c \<leftarrow> m p;
          if c \<noteq> 0 then do { q \<leftarrow> ptr_add p 1; k \<leftarrow> string_length n m q; Some (Suc k) }
          else Some 0 }"

definition pb_enc_string :: "encoder_env \<Rightarrow> ostream \<Rightarrow> memory \<Rightarrow> pb_field \<Rightarrow> addr \<Rightarrow> io" where
  "pb_enc_string e s out f src =
     (let max_size = (if PB_ATYPE (field_type f) = PB_ATYPE_POINTER then 2 ^ 64 - 1
                      else unat (data_size f)) in
      do { n \<leftarrow> (if src = 0 then Some 0 else string_length max_size (env_memory e) src);
           pb_encode_string e s out src (of_nat n) })"

definition pb_enc_submessage ::
    "encoder_env \<Rightarrow> message_encoder \<Rightarrow> ostream \<Rightarrow> memory \<Rightarrow> pb_field \<Rightarrow> addr \<Rightarrow> io" where
  "pb_enc_submessage e enc s out f src =
     (if field_ptr f = 0 then PB_RETURN_ERROR s out ''invalid field descriptor''
      else pb_encode_submessage e enc s out (field_ptr f) src)"

definition pb_enc_fixed_length_bytes :: "encoder_env \<Rightarrow> ostream \<Rightarrow> memory \<Rightarrow> pb_field \<Rightarrow> addr \<Rightarrow> io" where
  "pb_enc_fixed_length_bytes e s out f src = pb_encode_string e s out src (ucast (data_size f))"

datatype pb_encoder = EncBool | EncVarint | EncUvarint | EncSvarint | EncFixed32 | EncFixed64
  | EncBytes | EncString | EncSubmessage | EncNull | EncFixedLengthBytes

definition PB_ENCODERS :: "pb_encoder list" where
  "PB_ENCODERS = [EncBool, EncVarint, EncUvarint, EncSvarint, EncFixed32, EncFixed64, EncBytes,
                  EncString, EncSubmessage, EncNull, EncFixedLengthBytes]"

fun call_encoder ::
    "encoder_env \<Rightarrow> message_encoder \<Rightarrow> pb_encoder \<Rightarrow> ostream \<Rightarrow> memory \<Rightarrow> pb_field \<Rightarrow> addr \<Rightarrow> io" where
  "call_encoder e enc EncBool s out f src = pb_enc_bool e s out src"
| "call_encoder e enc EncVarint s out f src = pb_enc_varint e s out f src"
| "call_encoder e enc EncUvarint s out f src = pb_enc_uvarint e s out f src"
| "call_encoder e enc EncSvarint s out f src = pb_enc_svarint e s out f src"
| "call_encoder e enc EncFixed32 s out f src = pb_enc_fixed32 e s out src"
| "call_encoder e enc EncFixed64 s out f src = pb_enc_fixed64 e s out src"
| "call_encoder e enc EncBytes s out f src = pb_enc_bytes e s out f src"
| "call_encoder e enc EncString s out f src = pb_enc_string e s out f src"
| "call_encoder e enc EncSubmessage s out f src = pb_enc_submessage e enc s out f src"
| "call_encoder e enc EncNull s out f src = None"
| "call_encoder e enc EncFixedLengthBytes s out f src = pb_enc_fixed_length_bytes e s out f src"

section \<open>Arrays\<close>

text \<open>The two loops over the entries; \<open>n\<close> is the number left.\<close>

fun packed_loop ::
    "nat \<Rightarrow> encoder_env \<Rightarrow> message_encoder \<Rightarrow> pb_encoder \<Rightarrow> ostream \<Rightarrow> memory \<Rightarrow> pb_field \<Rightarrow> addr \<Rightarrow> io" where
  "packed_loop 0 e enc func s out f p = Some (True, s, out)"
| "packed_loop (Suc n) e enc func s out f p =
     and_ok (call_encoder e enc func s out f p)
       (\<lambda>s out. do { q \<leftarrow> ptr_add p (ucast (data_size f)); packed_loop n e enc func s out f q })"

fun unpacked_loop ::
    "nat \<Rightarrow> encoder_env \<Rightarrow> message_encoder \<Rightarrow> pb_encoder \<Rightarrow> ostream \<Rightarrow> memory \<Rightarrow> pb_field \<Rightarrow> addr \<Rightarrow> io" where
  "unpacked_loop 0 e enc func s out f p = Some (True, s, out)"
| "unpacked_loop (Suc n) e enc func s out f p =
     and_ok (pb_encode_tag_for_field e s out f)
       (\<lambda>s out. do {
          src \<leftarrow> (if PB_ATYPE (field_type f) = PB_ATYPE_POINTER \<and>
                    (PB_LTYPE (field_type f) = PB_LTYPE_STRING \<or> PB_LTYPE (field_type f) = PB_LTYPE_BYTES)
                 then load_le 8 (env_memory e) p else Some p);
          and_ok (call_encoder e enc func s out f src)
            (\<lambda>s out. do { q \<leftarrow> ptr_add p (ucast (data_size f)); unpacked_loop n e enc func s out f q }) })"

definition packed_size ::
    "encoder_env \<Rightarrow> message_encoder \<Rightarrow> pb_encoder \<Rightarrow> memory \<Rightarrow> pb_field \<Rightarrow> addr \<Rightarrow> u64 \<Rightarrow>
     (bool \<times> u64 \<times> memory) option" where
  "packed_size e enc func out f pData count =
     (if PB_LTYPE (field_type f) = PB_LTYPE_FIXED32 then Some (True, 4 * count, out)
      else if PB_LTYPE (field_type f) = PB_LTYPE_FIXED64 then Some (True, 8 * count, out)
      else do { (ok, sizestream, out) \<leftarrow>
                  packed_loop (unat count) e enc func PB_OSTREAM_SIZING out f pData;
                Some (ok, os_bytes_written sizestream, out) })"

definition encode_packed ::
    "encoder_env \<Rightarrow> message_encoder \<Rightarrow> ostream \<Rightarrow> memory \<Rightarrow> pb_field \<Rightarrow> addr \<Rightarrow> u64 \<Rightarrow> pb_encoder \<Rightarrow> io" where
  "encode_packed e enc s out f pData count func =
     and_ok (pb_encode_tag e s out PB_WT_STRING (field_tag f))
       (\<lambda>s out. do {
          (ok, n, out) \<leftarrow> packed_size e enc func out f pData count;
          if \<not> ok then Some (False, s, out)
          else and_ok (pb_encode_varint e s out n)
            (\<lambda>s out. if os_callback s = NoCallback then pb_write e s out (LocalArray []) n
                     else packed_loop (unat count) e enc func s out f pData) })"

definition encode_array ::
    "encoder_env \<Rightarrow> message_encoder \<Rightarrow> ostream \<Rightarrow> memory \<Rightarrow> pb_field \<Rightarrow> addr \<Rightarrow> u64 \<Rightarrow> pb_encoder \<Rightarrow> io" where
  "encode_array e enc s out f pData count func =
     (if count = 0 then Some (True, s, out)
      else if PB_ATYPE (field_type f) \<noteq> PB_ATYPE_POINTER \<and> ucast (array_size f) < count
      then PB_RETURN_ERROR s out ''array max size exceeded''
      else if PB_LTYPE (field_type f) \<le> PB_LTYPE_LAST_PACKABLE
      then encode_packed e enc s out f pData count func
      else unpacked_loop (unat count) e enc func s out f pData)"

section \<open>The default value of a proto3 field\<close>

text \<open>The comparison of \<open>n\<close> bytes with zero, up to the first that differs.\<close>

fun all_zero :: "nat \<Rightarrow> memory \<Rightarrow> addr \<Rightarrow> bool option" where
  "all_zero 0 m p = Some True"
| "all_zero (Suc n) m p =
     do { b \<leftarrow> m p;
          if b \<noteq> 0 then Some False else do { q \<leftarrow> ptr_add p 1; all_zero n m q } }"

text \<open>The walk over the fields of a submessage; \<open>chk\<close> stands for \<open>pb_check_proto3_default_value\<close>.\<close>

partial_function (option) check_loop ::
    "memory \<Rightarrow> (pb_field \<Rightarrow> addr \<Rightarrow> bool option) \<Rightarrow> pb_field_iter \<Rightarrow> bool option" where
  "check_loop m chk iter =
     do { f \<leftarrow> field_at m (iter_pos iter);
          zero \<leftarrow> chk f (iter_pData iter);
          if \<not> zero then Some False
          else do {
            (more, iter) \<leftarrow> pb_field_iter_next m iter;
            if more then check_loop m chk iter else Some True } }"

definition check_submessage ::
    "memory \<Rightarrow> (pb_field \<Rightarrow> addr \<Rightarrow> bool option) \<Rightarrow> pb_field \<Rightarrow> addr \<Rightarrow> bool option" where
  "check_submessage m chk f pData =
     do { (nonempty, iter) \<leftarrow> pb_field_iter_begin m (field_ptr f) pData;
          if nonempty then check_loop m chk iter else Some True }"

text \<open>What follows the tests of \<open>PB_HTYPE\<close>: the value of a singular field.\<close>

definition check_singular ::
    "memory \<Rightarrow> (pb_field \<Rightarrow> addr \<Rightarrow> bool option) \<Rightarrow> pb_field \<Rightarrow> addr \<Rightarrow> bool option" where
  "check_singular m chk f pData =
     (let ty = field_type f in
      if PB_ATYPE ty = PB_ATYPE_STATIC \<and> PB_LTYPE ty = PB_LTYPE_BYTES
      then do { n \<leftarrow> (load_le 4 m pData :: u32 option); Some (n = 0) }
      else if PB_ATYPE ty = PB_ATYPE_STATIC \<and> PB_LTYPE ty = PB_LTYPE_STRING
      then do { c \<leftarrow> m pData; Some (c = 0) }
      else if PB_ATYPE ty = PB_ATYPE_STATIC \<and> PB_LTYPE ty = PB_LTYPE_FIXED_LENGTH_BYTES
      then Some (data_size f = 0)
      else if PB_ATYPE ty = PB_ATYPE_STATIC \<and> PB_LTYPE ty = PB_LTYPE_SUBMESSAGE
      then check_submessage m chk f pData
      else if PB_ATYPE ty = PB_ATYPE_POINTER \<and> PB_LTYPE_LAST_PACKABLE < PB_LTYPE ty
      then do { p \<leftarrow> (load_le 8 m pData :: addr option); Some (p = 0) }
      else all_zero (unat (data_size f)) m pData)"

text \<open>The fuel bounds the depth of submessages.\<close>

fun pb_check_proto3_default_value :: "nat \<Rightarrow> memory \<Rightarrow> pb_field \<Rightarrow> addr \<Rightarrow> bool option" where
  "pb_check_proto3_default_value 0 m f pData = None"
| "pb_check_proto3_default_value (Suc n) m f pData =
     (let ty = field_type f in
      do { pSize \<leftarrow> ptr_sadd pData (size_offset f);
           if PB_HTYPE ty = PB_HTYPE_REQUIRED then Some False
           else if PB_HTYPE ty = PB_HTYPE_REPEATED \<and> size_offset f \<noteq> 0
           then do { count \<leftarrow> (load_le 4 m pSize :: u32 option); Some (count = 0) }
           else if PB_HTYPE ty = PB_HTYPE_REPEATED \<and> PB_ATYPE ty = PB_ATYPE_STATIC then Some False
           else if PB_HTYPE ty = PB_HTYPE_ONEOF
           then do { which \<leftarrow> (load_le 4 m pSize :: u32 option); Some (which = 0) }
           else if PB_HTYPE ty = PB_HTYPE_OPTIONAL \<and> size_offset f \<noteq> 0
           then do { has \<leftarrow> safe_read_bool m pSize; Some (\<not> has) }
           else check_singular m (pb_check_proto3_default_value n m) f pData })"

section \<open>Fields\<close>

definition encode_basic_field ::
    "encoder_env \<Rightarrow> message_encoder \<Rightarrow> (pb_field \<Rightarrow> addr \<Rightarrow> bool option) \<Rightarrow>
     ostream \<Rightarrow> memory \<Rightarrow> pb_field \<Rightarrow> addr \<Rightarrow> io" where
  "encode_basic_field e enc chk s out f pData =
     (let ty = field_type f; m = env_memory e in
      if \<not> unat (PB_LTYPE ty) < length PB_ENCODERS then None
      else do {
        let func = PB_ENCODERS ! unat (PB_LTYPE ty);
        pSize \<leftarrow> (if size_offset f \<noteq> 0 then map_option Some (ptr_sadd pData (size_offset f))
                  else Some None);
        implicit_has \<leftarrow> (if size_offset f \<noteq> 0 then Some False
                         else if PB_HTYPE ty = PB_HTYPE_OPTIONAL then map_option Not (chk f pData)
                         else Some True);
        pData \<leftarrow> (if PB_ATYPE ty = PB_ATYPE_POINTER then load_le 8 m pData else Some pData);
        let implicit_has = (if PB_ATYPE ty = PB_ATYPE_POINTER then pData \<noteq> 0 else implicit_has);
        if PB_HTYPE ty = PB_HTYPE_REQUIRED
        then if pData = 0 then PB_RETURN_ERROR s out ''missing required field''
             else and_ok (pb_encode_tag_for_field e s out f)
                    (\<lambda>s out. call_encoder e enc func s out f pData)
        else if PB_HTYPE ty = PB_HTYPE_OPTIONAL
        then do {
          has \<leftarrow> (case pSize of None \<Rightarrow> Some implicit_has | Some p \<Rightarrow> safe_read_bool m p);
          if has then and_ok (pb_encode_tag_for_field e s out f)
                        (\<lambda>s out. call_encoder e enc func s out f pData)
          else Some (True, s, out) }
        else if PB_HTYPE ty = PB_HTYPE_REPEATED
        then do {
          count \<leftarrow> (case pSize of None \<Rightarrow> Some (array_size f) | Some p \<Rightarrow> load_le 4 m p);
          encode_array e enc s out f pData (ucast count) func }
        else do {
          which \<leftarrow> (case pSize of None \<Rightarrow> None | Some p \<Rightarrow> load_le 4 m p);
          if which = field_tag f
          then and_ok (pb_encode_tag_for_field e s out f)
                 (\<lambda>s out. call_encoder e enc func s out f pData)
          else Some (True, s, out) } })"

text \<open>
  A \<open>pb_callback_t\<close> holds the function pointer and, after it, the argument, whose address is
  passed on.
\<close>

definition encode_callback_field ::
    "encoder_env \<Rightarrow> ostream \<Rightarrow> memory \<Rightarrow> addr \<Rightarrow> addr \<Rightarrow> io" where
  "encode_callback_field e s out pos pData =
     do { func \<leftarrow> load_le 8 (env_memory e) pData;
          if func = 0 then Some (True, s, out)
          else do {
            arg \<leftarrow> ptr_add pData 8;
            (ok, s, out) \<leftarrow> call_encode e func s out pos arg;
            if \<not> ok then PB_RETURN_ERROR s out ''callback error'' else Some (True, s, out) } }"

definition encode_field ::
    "encoder_env \<Rightarrow> message_encoder \<Rightarrow> (pb_field \<Rightarrow> addr \<Rightarrow> bool option) \<Rightarrow>
     ostream \<Rightarrow> memory \<Rightarrow> addr \<Rightarrow> addr \<Rightarrow> io" where
  "encode_field e enc chk s out pos pData =
     do { f \<leftarrow> field_at (env_memory e) pos;
          if PB_ATYPE (field_type f) = PB_ATYPE_STATIC \<or> PB_ATYPE (field_type f) = PB_ATYPE_POINTER
          then encode_basic_field e enc chk s out f pData
          else if PB_ATYPE (field_type f) = PB_ATYPE_CALLBACK
          then encode_callback_field e s out pos pData
          else PB_RETURN_ERROR s out ''invalid field type'' }"

section \<open>Extensions\<close>

text \<open>
  A \<open>pb_extension_t\<close> holds the pointers \<open>type\<close>, \<open>dest\<close> and \<open>next\<close>; a \<open>pb_extension_type_t\<close> the
  functions \<open>decode\<close> and \<open>encode\<close> and the pointer \<open>arg\<close>.
\<close>

definition default_extension_encoder ::
    "encoder_env \<Rightarrow> message_encoder \<Rightarrow> (pb_field \<Rightarrow> addr \<Rightarrow> bool option) \<Rightarrow>
     ostream \<Rightarrow> memory \<Rightarrow> addr \<Rightarrow> io" where
  "default_extension_encoder e enc chk s out ext =
     do { ty \<leftarrow> load_le 8 (env_memory e) ext;
          pos \<leftarrow> load_le 8 (env_memory e) (ty + 16);
          f \<leftarrow> field_at (env_memory e) pos;
          if PB_ATYPE (field_type f) = PB_ATYPE_POINTER
          then do { p \<leftarrow> ptr_add ext 8; encode_field e enc chk s out pos p }
          else do { dest \<leftarrow> load_le 8 (env_memory e) (ext + 8);
                    encode_field e enc chk s out pos dest } }"

definition encode_one_extension ::
    "encoder_env \<Rightarrow> message_encoder \<Rightarrow> (pb_field \<Rightarrow> addr \<Rightarrow> bool option) \<Rightarrow>
     ostream \<Rightarrow> memory \<Rightarrow> addr \<Rightarrow> io" where
  "encode_one_extension e enc chk s out ext =
     do { ty \<leftarrow> load_le 8 (env_memory e) ext;
          func \<leftarrow> load_le 8 (env_memory e) (ty + 8);
          if func \<noteq> 0 then call_ext_encode e func s out ext
          else default_extension_encoder e enc chk s out ext }"

text \<open>
  The walk along the list of extensions, which a cycle in the list would not end: the fuel bounds
  its length.
\<close>

fun extension_loop ::
    "nat \<Rightarrow> encoder_env \<Rightarrow> message_encoder \<Rightarrow> (pb_field \<Rightarrow> addr \<Rightarrow> bool option) \<Rightarrow>
     ostream \<Rightarrow> memory \<Rightarrow> addr \<Rightarrow> io" where
  "extension_loop 0 e enc chk s out ext = (if ext = 0 then Some (True, s, out) else None)"
| "extension_loop (Suc n) e enc chk s out ext =
     (if ext = 0 then Some (True, s, out)
      else and_ok (encode_one_extension e enc chk s out ext)
        (\<lambda>s out. do { nxt \<leftarrow> load_le 8 (env_memory e) (ext + 16);
                      extension_loop n e enc chk s out nxt }))"

definition encode_extension_field ::
    "nat \<Rightarrow> encoder_env \<Rightarrow> message_encoder \<Rightarrow> (pb_field \<Rightarrow> addr \<Rightarrow> bool option) \<Rightarrow>
     ostream \<Rightarrow> memory \<Rightarrow> addr \<Rightarrow> io" where
  "encode_extension_field n e enc chk s out pData =
     do { ext \<leftarrow> load_le 8 (env_memory e) pData; extension_loop n e enc chk s out ext }"

section \<open>Messages\<close>

definition encode_one ::
    "nat \<Rightarrow> encoder_env \<Rightarrow> message_encoder \<Rightarrow> (pb_field \<Rightarrow> addr \<Rightarrow> bool option) \<Rightarrow>
     ostream \<Rightarrow> memory \<Rightarrow> pb_field_iter \<Rightarrow> io" where
  "encode_one n e enc chk s out iter =
     do { f \<leftarrow> field_at (env_memory e) (iter_pos iter);
          if PB_LTYPE (field_type f) = PB_LTYPE_EXTENSION
          then encode_extension_field n e enc chk s out (iter_pData iter)
          else encode_field e enc chk s out (iter_pos iter) (iter_pData iter) }"

text \<open>The walk over the fields, which ends as the position in the descriptor array grows.\<close>

partial_function (option) encode_loop ::
    "nat \<Rightarrow> encoder_env \<Rightarrow> message_encoder \<Rightarrow> (pb_field \<Rightarrow> addr \<Rightarrow> bool option) \<Rightarrow>
     ostream \<Rightarrow> memory \<Rightarrow> pb_field_iter \<Rightarrow> io" where
  "encode_loop n e enc chk s out iter =
     do { (ok, s, out) \<leftarrow> encode_one n e enc chk s out iter;
          if \<not> ok then Some (False, s, out)
          else do {
            (more, iter) \<leftarrow> pb_field_iter_next (env_memory e) iter;
            if more then encode_loop n e enc chk s out iter else Some (True, s, out) } }"

text \<open>The fuel bounds the depth of submessages and the number of extensions of a field.\<close>

fun pb_encode :: "nat \<Rightarrow> encoder_env \<Rightarrow> message_encoder" where
  "pb_encode 0 e s out descr src_struct = None"
| "pb_encode (Suc n) e s out descr src_struct =
     do { (nonempty, iter) \<leftarrow> pb_field_iter_begin (env_memory e) descr src_struct;
          if \<not> nonempty then Some (True, s, out)
          else encode_loop n e (pb_encode n e) (pb_check_proto3_default_value n (env_memory e)) s out iter }"

definition pb_encode_delimited :: "nat \<Rightarrow> encoder_env \<Rightarrow> message_encoder" where
  "pb_encode_delimited n e s out descr src_struct =
     pb_encode_submessage e (pb_encode n e) s out descr src_struct"

definition pb_encode_nullterminated :: "nat \<Rightarrow> encoder_env \<Rightarrow> message_encoder" where
  "pb_encode_nullterminated n e s out descr src_struct =
     and_ok (pb_encode n e s out descr src_struct) (\<lambda>s out. pb_write e s out (LocalArray [0]) 1)"

text \<open>The size is stored through a pointer only on success; it is a value here.\<close>

definition pb_get_encoded_size ::
    "nat \<Rightarrow> encoder_env \<Rightarrow> memory \<Rightarrow> addr \<Rightarrow> addr \<Rightarrow> (u64 option \<times> memory) option" where
  "pb_get_encoded_size n e out descr src_struct =
     do { (ok, stream, out) \<leftarrow> pb_encode n e PB_OSTREAM_SIZING out descr src_struct;
          Some (if ok then Some (os_bytes_written stream) else None, out) }"

lemma pb_field_iter_next_grows:
  "pb_field_iter_next m it = Some (True, it') \<Longrightarrow> unat (iter_pos it) < unat (iter_pos it')"
  by (auto simp: pb_field_iter_next_def bind_eq_Some_conv Let_def sizeof_pb_field_def
      dest!: ptr_add_unat split: if_splits)

lemma encode_loop_and_ok:
  "encode_loop n e enc chk s out iter =
     and_ok (encode_one n e enc chk s out iter)
       (\<lambda>s out. do {
          (more, iter) \<leftarrow> pb_field_iter_next (env_memory e) iter;
          if more then encode_loop n e enc chk s out iter else Some (True, s, out) })"
  by (subst encode_loop.simps, cases "encode_one n e enc chk s out iter") (auto simp: and_ok_def)

section \<open>What every step of the encoder keeps\<close>

text \<open>
  A property of functions on streams, which the encoder has when its parts have it. The laws are
  those of the ways the code composes its steps: a result that ends the step, one step after
  another, a write, a submessage, a packed array, and the error after a callback.
\<close>

locale encoder_property =
  fixes good :: "encoder_env \<Rightarrow> (ostream \<Rightarrow> memory \<Rightarrow> io) \<Rightarrow> bool"
  assumes finished: "good e (\<lambda>s out. Some (True, s, out))"
    and undefined: "good e (\<lambda>s out. None)"
    and failed: "good e (\<lambda>s out. PB_RETURN_ERROR s out msg)"
    and sequence: "good e f \<Longrightarrow> good e g \<Longrightarrow> good e (\<lambda>s out. and_ok (f s out) g)"
    and written: "good e (\<lambda>s out. pb_write e s out src k)"
    and submessage: "(\<And>descr p. good e (\<lambda>s out. enc s out descr p)) \<Longrightarrow>
      good e (\<lambda>s out. pb_encode_submessage e enc s out descr p)"
    and packed: "func = PB_ENCODERS ! unat (PB_LTYPE (field_type fld)) \<Longrightarrow>
      PB_LTYPE (field_type fld) \<le> PB_LTYPE_LAST_PACKABLE \<Longrightarrow>
      (\<And>p. good e (\<lambda>s out. call_encoder e enc func s out fld p)) \<Longrightarrow>
      good e (\<lambda>s out. encode_packed e enc s out fld p count func)"
    and reported: "good e f \<Longrightarrow>
      good e (\<lambda>s out. do { (ok, s, out) \<leftarrow> f s out;
                           if \<not> ok then PB_RETURN_ERROR s out msg else Some (True, s, out) })"
begin

lemma bind: "(\<And>v. x = Some v \<Longrightarrow> good e (f v)) \<Longrightarrow> good e (\<lambda>s out. do { v \<leftarrow> x; f v s out })"
  by (cases x) (simp_all add: undefined)

lemma branch:
  "(b \<Longrightarrow> good e f) \<Longrightarrow> (\<not> b \<Longrightarrow> good e g) \<Longrightarrow> good e (\<lambda>s out. if b then f s out else g s out)"
  by (cases b) simp_all

lemma reported_value: "good e f \<Longrightarrow> (\<And>v. good e (g v)) \<Longrightarrow>
   good e (\<lambda>s out. case x of None \<Rightarrow> f s out | Some v \<Rightarrow> g v s out)"
  by (cases x) simp_all

lemmas steps = finished undefined failed written bind branch reported_value sequence

lemma varint: "good e (\<lambda>s out. pb_encode_varint e s out v)"
  unfolding pb_encode_varint_def Let_def by (intro steps)

lemma svarint: "good e (\<lambda>s out. pb_encode_svarint e s out v)"
  unfolding pb_encode_svarint_def Let_def by (rule varint)

lemma tag: "good e (\<lambda>s out. pb_encode_tag_for_field e s out fld)"
  unfolding pb_encode_tag_for_field_def pb_encode_tag_def Let_def by (intro steps varint)

lemma str: "good e (\<lambda>s out. pb_encode_string e s out p k)"
  unfolding pb_encode_string_def by (intro steps varint)

lemma encoder:
  assumes "\<And>descr p. good e (\<lambda>s out. enc s out descr p)"
  shows "good e (\<lambda>s out. call_encoder e enc func s out fld src)"
  by (cases func; simp only: call_encoder.simps pb_enc_bool_def pb_enc_varint_def pb_enc_uvarint_def
      pb_enc_svarint_def pb_enc_fixed32_def pb_enc_fixed64_def pb_encode_fixed32_def
      pb_encode_fixed64_def pb_enc_bytes_def pb_enc_string_def pb_enc_submessage_def
      pb_enc_fixed_length_bytes_def Let_def; intro steps varint svarint str submessage assms)

lemma unpacked:
  assumes "\<And>p. good e (\<lambda>s out. call_encoder e enc func s out fld p)"
  shows "good e (\<lambda>s out. unpacked_loop k e enc func s out fld p)"
proof (induction k arbitrary: p)
  case 0
  show ?case by (simp add: finished)
next
  case (Suc k)
  show ?case unfolding unpacked_loop.simps by (intro steps tag assms Suc)
qed

lemma array:
  assumes "\<And>descr p. good e (\<lambda>s out. enc s out descr p)"
    and "func = PB_ENCODERS ! unat (PB_LTYPE (field_type fld))"
  shows "good e (\<lambda>s out. encode_array e enc s out fld p count func)"
  unfolding encode_array_def by (intro steps packed unpacked encoder assms)

lemma basic_field:
  assumes "\<And>descr p. good e (\<lambda>s out. enc s out descr p)"
  shows "good e (\<lambda>s out. encode_basic_field e enc chk s out fld p)"
  unfolding encode_basic_field_def Let_def by (intro steps tag array encoder assms refl)

lemma field:
  assumes "\<And>descr p. good e (\<lambda>s out. enc s out descr p)"
    and "\<And>func pos arg. good e (\<lambda>s out. call_encode e func s out pos arg)"
  shows "good e (\<lambda>s out. encode_field e enc chk s out pos p)"
  unfolding encode_field_def encode_callback_field_def
  by (intro steps reported basic_field assms)

lemma extensions:
  assumes "\<And>descr p. good e (\<lambda>s out. enc s out descr p)"
    and "\<And>func pos arg. good e (\<lambda>s out. call_encode e func s out pos arg)"
    and "\<And>func ext. good e (\<lambda>s out. call_ext_encode e func s out ext)"
  shows "good e (\<lambda>s out. extension_loop k e enc chk s out ext)"
proof (induction k arbitrary: ext)
  case 0
  show ?case unfolding extension_loop.simps by (intro steps)
next
  case (Suc k)
  show ?case
    unfolding extension_loop.simps encode_one_extension_def default_extension_encoder_def
    by (intro steps field assms Suc)
qed

lemma one:
  assumes "\<And>descr p. good e (\<lambda>s out. enc s out descr p)"
    and "\<And>func pos arg. good e (\<lambda>s out. call_encode e func s out pos arg)"
    and "\<And>func ext. good e (\<lambda>s out. call_ext_encode e func s out ext)"
  shows "good e (\<lambda>s out. encode_one k e enc chk s out iter)"
  unfolding encode_one_def encode_extension_field_def by (intro steps field extensions assms)

lemma loop:
  assumes "\<And>descr p. good e (\<lambda>s out. enc s out descr p)"
    and "\<And>func pos arg. good e (\<lambda>s out. call_encode e func s out pos arg)"
    and "\<And>func ext. good e (\<lambda>s out. call_ext_encode e func s out ext)"
  shows "good e (\<lambda>s out. encode_loop k e enc chk s out iter)"
proof (induction "2 ^ 64 - unat (iter_pos iter)" arbitrary: iter rule: less_induct)
  case less
  have rest: "good e (\<lambda>s out. encode_loop k e enc chk s out (snd v))"
    if "pb_field_iter_next (env_memory e) iter = Some v" "fst v" for v
  proof (rule less)
    have "pb_field_iter_next (env_memory e) iter = Some (True, snd v)"
      using that by (cases v) simp
    from pb_field_iter_next_grows [OF this]
    moreover have "unat (iter_pos (snd v)) < 2 ^ 64" using unsigned_less [of "iter_pos (snd v)"] by simp
    ultimately show "2 ^ 64 - unat (iter_pos (snd v)) < 2 ^ 64 - unat (iter_pos iter)" by simp
  qed
  have "good e (\<lambda>s out. do {
      (more, iter) \<leftarrow> pb_field_iter_next (env_memory e) iter;
      if more then encode_loop k e enc chk s out iter else Some (True, s, out) })"
    unfolding case_prod_beta by (intro steps rest)
  from sequence [OF one [OF assms] this] show ?case
    by (subst encode_loop_and_ok)
qed

lemma message:
  assumes "\<And>func pos arg. good e (\<lambda>s out. call_encode e func s out pos arg)"
    and "\<And>func ext. good e (\<lambda>s out. call_ext_encode e func s out ext)"
  shows "good e (\<lambda>s out. pb_encode n e s out descr p)"
proof (induction n arbitrary: descr p)
  case 0
  show ?case by (simp add: undefined)
next
  case (Suc n)
  show ?case unfolding pb_encode.simps case_prod_beta by (intro steps loop assms Suc)
qed

end

end
