(* ===== verification/Pb_Encode_Bounds.thy ===== *)
theory Pb_Encode_Bounds
  imports Pb_Encode
begin

text \<open>
  Where the encoder of \<^verbatim>\<open>nanopb/pb_encode.c\<close> writes: the interpretation of the interface
  \<open>encoder_property\<close> at the property that a step writes only a run of bytes at the position of its
  stream, and at the property that two runs on one message count the same number of bytes.
\<close>

section \<open>The encoder stays in its buffer\<close>

text \<open>
  \<open>within s out ok s' out'\<close>: the step from \<open>s\<close> and \<open>out\<close> to \<open>s'\<close> and \<open>out'\<close> wrote a run of bytes
  where the stream stood, counted them, and touched nothing else; a step that succeeded kept the
  count under the limit. A sizing stream writes nothing.
\<close>

definition advanced :: "ostream \<Rightarrow> memory \<Rightarrow> ostream \<Rightarrow> memory \<Rightarrow> nat \<Rightarrow> bool" where
  "advanced s out s' out' k \<longleftrightarrow>
     unat (os_state s') = unat (os_state s) + k \<and>
     unat (os_bytes_written s') = unat (os_bytes_written s) + k \<and> dom out' = dom out \<and>
     (\<forall>a. out' a \<noteq> out a \<longrightarrow> unat (os_state s) \<le> unat a \<and> unat a < unat (os_state s) + k)"

definition within :: "ostream \<Rightarrow> memory \<Rightarrow> bool \<Rightarrow> ostream \<Rightarrow> memory \<Rightarrow> bool" where
  "within s out ok s' out' \<longleftrightarrow>
     (case os_callback s of
        NoCallback \<Rightarrow> os_callback s' = NoCallback \<and> os_state s' = os_state s \<and> out' = out
      | BufWrite \<Rightarrow>
          os_bytes_written s \<le> os_state s \<longrightarrow>
          os_callback s' = BufWrite \<and> os_max_size s' = os_max_size s \<and>
          (\<exists>k. advanced s out s' out' k) \<and>
          (ok \<longrightarrow> os_bytes_written s \<le> os_max_size s \<longrightarrow> os_bytes_written s' \<le> os_max_size s)
      | UserWrite f \<Rightarrow> True)"

definition confined :: "encoder_env \<Rightarrow> (ostream \<Rightarrow> memory \<Rightarrow> io) \<Rightarrow> bool" where
  "confined e f \<longleftrightarrow> (\<forall>s out ok s' out'. f s out = Some (ok, s', out') \<longrightarrow> within s out ok s' out')"

lemma advanced_refl: "advanced s out s out 0"
  by (simp add: advanced_def)

lemma advanced_trans:
  assumes "advanced s out s1 out1 j" "advanced s1 out1 s2 out2 k"
  shows "advanced s out s2 out2 (j + k)"
proof -
  have "unat (os_state s) \<le> unat a \<and> unat a < unat (os_state s) + (j + k)" if "out2 a \<noteq> out a" for a
  proof (cases "out1 a = out a")
    case True
    then have "out2 a \<noteq> out1 a" using that by simp
    then have "unat (os_state s1) \<le> unat a \<and> unat a < unat (os_state s1) + k"
      using assms(2) by (simp add: advanced_def)
    then show ?thesis using assms(1) by (simp add: advanced_def)
  next
    case False
    then have "unat (os_state s) \<le> unat a \<and> unat a < unat (os_state s) + j"
      using assms(1) by (simp add: advanced_def)
    then show ?thesis by simp
  qed
  then show ?thesis using assms by (simp add: advanced_def)
qed

lemma within_same:
  assumes "os_callback s' = os_callback s" "os_state s' = os_state s" "os_max_size s' = os_max_size s"
    "os_bytes_written s' = os_bytes_written s"
  shows "within s out ok s' out"
proof -
  have "advanced s out s' out 0" using assms by (simp add: advanced_def)
  then show ?thesis using assms by (auto simp: within_def split: write_callback.split)
qed

lemma within_trans:
  assumes "within s out True s1 out1" "within s1 out1 ok s2 out2"
  shows "within s out ok s2 out2"
proof (cases "os_callback s")
  case NoCallback
  then show ?thesis using assms by (simp add: within_def)
next
  case UserWrite
  then show ?thesis by (simp add: within_def)
next
  case BufWrite
  show ?thesis unfolding within_def BufWrite write_callback.case
  proof (rule impI)
    assume le: "os_bytes_written s \<le> os_state s"
    from le assms(1) BufWrite obtain j where 1: "os_callback s1 = BufWrite" "os_max_size s1 = os_max_size s"
      "advanced s out s1 out1 j" "os_bytes_written s \<le> os_max_size s \<longrightarrow> os_bytes_written s1 \<le> os_max_size s"
      by (auto simp: within_def)
    have "os_bytes_written s1 \<le> os_state s1"
      using 1(3) le by (simp add: advanced_def word_le_nat_alt)
    with assms(2) 1 obtain k where 2: "os_callback s2 = BufWrite" "os_max_size s2 = os_max_size s"
      "advanced s1 out1 s2 out2 k"
      "ok \<longrightarrow> os_bytes_written s1 \<le> os_max_size s \<longrightarrow> os_bytes_written s2 \<le> os_max_size s"
      by (auto simp: within_def)
    show "os_callback s2 = BufWrite \<and> os_max_size s2 = os_max_size s \<and> (\<exists>k. advanced s out s2 out2 k) \<and>
      (ok \<longrightarrow> os_bytes_written s \<le> os_max_size s \<longrightarrow> os_bytes_written s2 \<le> os_max_size s)"
      using 1 2 advanced_trans by blast
  qed
qed

lemma store_bytes_frame:
  "store_bytes out p bs = Some out' \<Longrightarrow> dom out' = dom out \<and>
   (\<forall>a. out' a \<noteq> out a \<longrightarrow> unat p \<le> unat a \<and> unat a < unat p + length bs)"
proof (induction bs arbitrary: out p)
  case Nil
  then show ?case by simp
next
  case (Cons b bs)
  then obtain q where q: "ptr_add p 1 = Some q" "out p \<noteq> None" "store_bytes (out(p \<mapsto> b)) q bs = Some out'"
    by (auto simp: bind_eq_Some_conv split: if_splits)
  have qn: "unat q = unat p + 1" using ptr_add_unat [OF q(1)] by simp
  from Cons.IH [OF q(3)] have IH: "dom out' = insert p (dom out)"
    "\<And>a. out' a \<noteq> (out(p \<mapsto> b)) a \<Longrightarrow> unat q \<le> unat a \<and> unat a < unat q + length bs"
    by auto
  have "unat p \<le> unat a \<and> unat a < unat p + length (b # bs)" if "out' a \<noteq> out a" for a
  proof (cases "a = p")
    case False
    then show ?thesis using IH(2) [of a] that qn by simp
  qed simp
  moreover have "dom out' = dom out" using IH(1) q(2) by auto
  ultimately show ?case by blast
qed

lemma within_error: "within s out ok (s\<lparr>os_errmsg := m\<rparr>) out"
  by (rule within_same) simp_all

lemma confined_write: "confined e (\<lambda>s out. pb_write e s out src k)"
  unfolding confined_def
proof (intro allI impI)
  fix s out ok s' out' assume w: "pb_write e s out src k = Some (ok, s', out')"
  show "within s out ok s' out'"
  proof (cases "os_callback s")
    case NoCallback
    then show ?thesis using w by (auto simp: pb_write_def within_def)
  next
    case UserWrite
    then show ?thesis by (simp add: within_def)
  next
    case BufWrite
    consider "k = 0" | "0 < k" "os_bytes_written s + k < os_bytes_written s \<or> os_max_size s < os_bytes_written s + k"
      | bs next_dest where "0 < k" "os_bytes_written s \<le> os_bytes_written s + k"
        "os_bytes_written s + k \<le> os_max_size s" "source_bytes e src (unat k) = Some bs"
        "ptr_add (os_state s) (of_nat (length bs)) = Some next_dest"
        "store_bytes out (os_state s) bs = Some out'" "ok"
        "s' = s\<lparr>os_state := next_dest, os_bytes_written := os_bytes_written s + k\<rparr>"
      using w BufWrite
      by (auto simp: pb_write_def call_callback_def buf_write_def bind_eq_Some_conv not_less word_gt_0
          split: if_splits)
    then show ?thesis
    proof cases
      case 1
      then show ?thesis using w by (simp add: pb_write_def within_same)
    next
      case 2
      then show ?thesis using w BufWrite by (auto simp: pb_write_def PB_RETURN_ERROR_def intro: within_error)
    next
      case 3
      have len: "length bs = unat k"
        using 3(4) by (auto simp: source_bytes_def load_bytes_iff split: write_source.splits if_splits)
      have "unat next_dest = unat (os_state s) + unat k" using ptr_add_unat [OF 3(5)] len by simp
      moreover have "unat (os_bytes_written s + k) = unat (os_bytes_written s) + unat k"
        using 3(2) by (metis unat_plus_simple)
      ultimately have "advanced s out s' out' (unat k)"
        using store_bytes_frame [OF 3(6)] 3(8) len by (simp add: advanced_def)
      then show ?thesis using 3 BufWrite by (auto simp: within_def)
    qed
  qed
qed

lemma confined_sequence:
  assumes "confined e f" "confined e g"
  shows "confined e (\<lambda>s out. and_ok (f s out) g)"
  unfolding confined_def
proof (intro allI impI)
  fix s out ok s' out' assume "and_ok (f s out) g = Some (ok, s', out')"
  then obtain ok1 s1 out1 where f: "f s out = Some (ok1, s1, out1)"
    and g: "if ok1 then g s1 out1 = Some (ok, s', out') else ok = False \<and> s' = s1 \<and> out' = out1"
    by (auto simp: and_ok_def bind_eq_Some_conv split: if_splits)
  show "within s out ok s' out'"
    using assms f g within_trans [of s out s1 out1 ok s' out']
    by (cases ok1) (auto simp: confined_def)
qed

lemma confined_trivial:
  "confined e (\<lambda>s out. Some (True, s, out))" "confined e (\<lambda>s out. None)"
  "confined e (\<lambda>s out. PB_RETURN_ERROR s out msg)"
  by (auto simp: confined_def PB_RETURN_ERROR_def intro!: within_same)

lemma confined_prefix:
  assumes "confined e f" "f PB_OSTREAM_SIZING out = Some (ok, z, out')"
  shows "out' = out" "os_callback z = NoCallback"
  using assms unfolding confined_def by (fastforce simp: within_def PB_OSTREAM_SIZING_def)+

lemma confined_varint: "confined e (\<lambda>s out. pb_encode_varint e s out v)"
proof -
  show ?thesis
    unfolding pb_encode_varint_def Let_def
    by (cases "v \<le> 0x7F"; cases "varint_loop v []") (simp_all add: confined_write confined_trivial)
qed

lemma within_substream:
  assumes "os_callback s = BufWrite"
    and "within \<lparr>os_callback = BufWrite, os_state = os_state s, os_max_size = n, os_bytes_written = 0,
                 os_errmsg = None\<rparr> out status sub out'"
    and "ok \<longrightarrow> os_bytes_written sub = n \<and> os_bytes_written s + n \<le> os_max_size s"
  shows "within s out ok (s\<lparr>os_bytes_written := os_bytes_written s + os_bytes_written sub,
                            os_state := os_state sub, os_errmsg := m\<rparr>) out'"
proof -
  from assms(2) obtain k where sub: "advanced \<lparr>os_callback = BufWrite, os_state = os_state s, os_max_size = n,
      os_bytes_written = 0, os_errmsg = None\<rparr> out sub out' k"
    by (auto simp: within_def)
  have "unat (os_bytes_written s + os_bytes_written sub) = unat (os_bytes_written s) + k"
    if "os_bytes_written s \<le> os_state s"
  proof -
    have "unat (os_bytes_written s) + k \<le> unat (os_state sub)"
      using that sub by (simp add: advanced_def word_le_nat_alt)
    also have "\<dots> < 2 ^ 64" using unsigned_less [of "os_state sub"] by simp
    finally show ?thesis using sub unat_add_lt [of "os_bytes_written s" "os_bytes_written sub"]
      by (simp add: advanced_def)
  qed
  then have "advanced s out (s\<lparr>os_bytes_written := os_bytes_written s + os_bytes_written sub,
      os_state := os_state sub, os_errmsg := m\<rparr>) out' k" if "os_bytes_written s \<le> os_state s"
    using sub that by (simp add: advanced_def)
  then show ?thesis using assms(1,3) by (auto simp: within_def)
qed

lemma confined_submessage:
  assumes "\<And>descr p. confined e (\<lambda>s out. enc s out descr p)"
  shows "confined e (\<lambda>s out. pb_encode_submessage e enc s out descr p)"
  unfolding confined_def
proof (intro allI impI)
  fix s out ok s' out'
  assume run: "pb_encode_submessage e enc s out descr p = Some (ok, s', out')"
  then obtain ok1 z out1 where z: "enc PB_OSTREAM_SIZING out descr p = Some (ok1, z, out1)"
    by (auto simp: pb_encode_submessage_def bind_eq_Some_conv)
  note z' = confined_prefix [OF assms z]
  let ?n = "os_bytes_written z"
  let ?body = "\<lambda>s out.
      if os_callback s = NoCallback then pb_write e s out (LocalArray []) ?n
      else if os_max_size s < os_bytes_written s + ?n then PB_RETURN_ERROR s out ''stream full''
      else do {
        (status, substream, out) \<leftarrow>
          enc \<lparr>os_callback = os_callback s, os_state = os_state s, os_max_size = ?n,
               os_bytes_written = 0, os_errmsg = None\<rparr> out descr p;
        let s = s\<lparr>os_bytes_written := os_bytes_written s + os_bytes_written substream,
                  os_state := os_state substream, os_errmsg := os_errmsg substream\<rparr>;
        if os_bytes_written substream \<noteq> ?n then PB_RETURN_ERROR s out ''submsg size changed''
        else Some (status, s, out) }"
  have body: "confined e ?body"
    unfolding confined_def
  proof (intro allI impI)
    fix s out ok s' out' assume run: "?body s out = Some (ok, s', out')"
    show "within s out ok s' out'"
    proof (cases "os_callback s")
      case NoCallback
      then show ?thesis using run confined_write [of e "LocalArray []" ?n] by (simp add: confined_def)
    next
      case UserWrite
      then show ?thesis by (simp add: within_def)
    next
      case BufWrite
      show ?thesis
      proof (cases "os_max_size s < os_bytes_written s + ?n")
        case True
        then show ?thesis using run BufWrite by (auto simp: PB_RETURN_ERROR_def intro: within_error)
      next
        case False
        let ?sub = "\<lparr>os_callback = BufWrite, os_state = os_state s, os_max_size = ?n,
               os_bytes_written = 0, os_errmsg = None\<rparr>"
        from False run BufWrite obtain status sub out2 where
          sub: "enc ?sub out descr p = Some (status, sub, out2)" and
          rest: "out' = out2" "ok \<longrightarrow> os_bytes_written sub = ?n"
            "s' = s\<lparr>os_bytes_written := os_bytes_written s + os_bytes_written sub,
                    os_state := os_state sub, os_errmsg := os_errmsg s'\<rparr>"
          by (auto simp: bind_eq_Some_conv PB_RETURN_ERROR_def Let_def split: if_splits)
        have "within ?sub out status sub out2" using assms sub by (auto simp: confined_def)
        then show ?thesis using within_substream [OF BufWrite, of ?n out status sub out2 ok "os_errmsg s'"] False rest
          by (simp add: not_less)
      qed
    qed
  qed
  show "within s out ok s' out'"
  proof (cases ok1)
    case False
    then show ?thesis using run z z' by (auto simp: pb_encode_submessage_def intro: within_error)
  next
    case True
    then have "and_ok (pb_encode_varint e s out ?n) ?body = Some (ok, s', out')"
      using run z z' by (simp add: pb_encode_submessage_def Let_def)
    then show ?thesis using confined_sequence [OF confined_varint body]
      unfolding confined_def by blast
  qed
qed

lemma confined_packed_loop:
  assumes "\<And>p. confined e (\<lambda>s out. call_encoder e enc func s out fld p)"
  shows "confined e (\<lambda>s out. packed_loop k e enc func s out fld p)"
proof (induction k arbitrary: p)
  case 0
  show ?case by (simp add: confined_trivial)
next
  case (Suc k)
  have "confined e (\<lambda>s out. do { q \<leftarrow> ptr_add p (ucast (data_size fld)); packed_loop k e enc func s out fld q })"
    using Suc by (cases "ptr_add p (ucast (data_size fld))") (simp_all add: confined_trivial)
  from confined_sequence [OF assms this] show ?case by simp
qed

lemma confined_packed:
  assumes "\<And>p. confined e (\<lambda>s out. call_encoder e enc func s out fld p)"
  shows "confined e (\<lambda>s out. encode_packed e enc s out fld p count func)"
proof -
  have size: "out' = out" if "packed_size e enc func out fld p count = Some (ok, n, out')" for out ok n out'
    using that confined_prefix(1) [OF confined_packed_loop [OF assms]]
    by (auto simp: packed_size_def bind_eq_Some_conv split: if_splits)
  have "confined e (\<lambda>s out. do {
          (ok, n, out) \<leftarrow> packed_size e enc func out fld p count;
          if \<not> ok then Some (False, s, out)
          else and_ok (pb_encode_varint e s out n)
            (\<lambda>s out. if os_callback s = NoCallback then pb_write e s out (LocalArray []) n
                     else packed_loop (unat count) e enc func s out fld p) })" (is "confined e ?f")
    unfolding confined_def
  proof (intro allI impI)
    fix s out ok s' out' assume run: "?f s out = Some (ok, s', out')"
    then obtain ok1 n out1 where n: "packed_size e enc func out fld p count = Some (ok1, n, out1)"
      by (auto simp: bind_eq_Some_conv)
    have "confined e (\<lambda>s out. if os_callback s = NoCallback then pb_write e s out (LocalArray []) n
                     else packed_loop (unat count) e enc func s out fld p)"
      using confined_write confined_packed_loop [OF assms] unfolding confined_def by auto
    from confined_sequence [OF confined_varint this]
    show "within s out ok s' out'"
      using run n size [OF n] by (cases ok1) (auto simp: confined_def intro: within_same)
  qed
  from confined_sequence [OF _ this] show ?thesis
    unfolding encode_packed_def pb_encode_tag_def using confined_varint by blast
qed

lemma confined_reported:
  assumes "confined e f"
  shows "confined e (\<lambda>s out. do { (ok, s, out) \<leftarrow> f s out;
           if \<not> ok then PB_RETURN_ERROR s out msg else Some (True, s, out) })"
  unfolding confined_def
proof (intro allI impI)
  fix s out ok s' out'
  assume "do { (ok, s, out) \<leftarrow> f s out;
           if \<not> ok then PB_RETURN_ERROR s out msg else Some (True, s, out) } = Some (ok, s', out')"
  then obtain s1 where f: "f s out = Some (ok, s1, out')"
    and s': "s' = s1 \<or> s' = s1\<lparr>os_errmsg := case os_errmsg s1 of None \<Rightarrow> Some msg | Some x \<Rightarrow> Some x\<rparr>"
    by (auto simp: bind_eq_Some_conv PB_RETURN_ERROR_def split: if_splits)
  have "within s out ok s1 out'" using assms f by (simp add: confined_def)
  then show "within s out ok s' out'"
    using s' by (auto simp: within_def advanced_def split: write_callback.splits)
qed

interpretation containment: encoder_property confined
proof unfold_locales
  fix e f g assume "confined e f" "confined e g"
  then show "confined e (\<lambda>s out. and_ok (f s out) g)" by (rule confined_sequence)
next
  fix e :: encoder_env and enc :: message_encoder and descr p
  assume "\<And>descr p. confined e (\<lambda>s out. enc s out descr p)"
  then show "confined e (\<lambda>s out. pb_encode_submessage e enc s out descr p)" by (rule confined_submessage)
next
  fix e :: encoder_env and enc :: message_encoder and func fld p count
  assume "\<And>p. confined e (\<lambda>s out. call_encoder e enc func s out fld p)"
  then show "confined e (\<lambda>s out. encode_packed e enc s out fld p count func)" by (rule confined_packed)
next
  fix e f msg assume "confined e f"
  then show "confined e (\<lambda>s out. do { (ok, s, out) \<leftarrow> f s out;
      if \<not> ok then PB_RETURN_ERROR s out msg else Some (True, s, out) })" by (rule confined_reported)
qed (simp_all add: confined_trivial confined_write)

section \<open>A sizing stream counts what a buffer receives\<close>

text \<open>
  \<open>agreeing e f\<close>: two runs of \<open>f\<close> that succeed, each on a sizing stream or on a buffer, add the
  same number to the count of their stream.
\<close>

definition plain :: "ostream \<Rightarrow> bool" where
  "plain s \<longleftrightarrow> os_callback s = NoCallback \<or> os_callback s = BufWrite"

definition agreeing :: "encoder_env \<Rightarrow> (ostream \<Rightarrow> memory \<Rightarrow> io) \<Rightarrow> bool" where
  "agreeing e f \<longleftrightarrow>
     (\<forall>s out ok s' out'. plain s \<longrightarrow> f s out = Some (ok, s', out') \<longrightarrow> os_callback s' = os_callback s) \<and>
     (\<exists>d. \<forall>s out s' out'. plain s \<longrightarrow> f s out = Some (True, s', out') \<longrightarrow>
        os_bytes_written s' = os_bytes_written s + d)"

lemma agreeingI:
  assumes "\<And>s out ok s' out'. plain s \<Longrightarrow> f s out = Some (ok, s', out') \<Longrightarrow> os_callback s' = os_callback s"
    and "\<And>s out s' out'. plain s \<Longrightarrow> f s out = Some (True, s', out') \<Longrightarrow>
      os_bytes_written s' = os_bytes_written s + d"
  shows "agreeing e f"
  using assms unfolding agreeing_def by blast

lemma agreeingE:
  assumes "agreeing e f"
  obtains d where "\<And>s out ok s' out'. plain s \<Longrightarrow> f s out = Some (ok, s', out') \<Longrightarrow> os_callback s' = os_callback s"
    and "\<And>s out s' out'. plain s \<Longrightarrow> f s out = Some (True, s', out') \<Longrightarrow>
      os_bytes_written s' = os_bytes_written s + d"
  using assms unfolding agreeing_def by blast

lemma agreeing_write_by:
  "plain s \<Longrightarrow> pb_write e s out src k = Some (ok, s', out') \<Longrightarrow> os_callback s' = os_callback s"
  "plain s \<Longrightarrow> pb_write e s out src k = Some (True, s', out') \<Longrightarrow>
     os_bytes_written s' = os_bytes_written s + k"
  by (auto simp: pb_write_def call_callback_def buf_write_def plain_def PB_RETURN_ERROR_def
      bind_eq_Some_conv split: if_splits)

lemma agreeing_write: "agreeing e (\<lambda>s out. pb_write e s out src k)"
  by (rule agreeingI) (auto dest: agreeing_write_by)

lemma agreeing_sequence:
  assumes "agreeing e f" "agreeing e g"
  shows "agreeing e (\<lambda>s out. and_ok (f s out) g)"
proof -
  from assms(1) obtain d1 where f: "\<And>s out ok s' out'. plain s \<Longrightarrow> f s out = Some (ok, s', out') \<Longrightarrow> os_callback s' = os_callback s"
    "\<And>s out s' out'. plain s \<Longrightarrow> f s out = Some (True, s', out') \<Longrightarrow> os_bytes_written s' = os_bytes_written s + d1"
    by (rule agreeingE) blast
  from assms(2) obtain d2 where g: "\<And>s out ok s' out'. plain s \<Longrightarrow> g s out = Some (ok, s', out') \<Longrightarrow> os_callback s' = os_callback s"
    "\<And>s out s' out'. plain s \<Longrightarrow> g s out = Some (True, s', out') \<Longrightarrow> os_bytes_written s' = os_bytes_written s + d2"
    by (rule agreeingE) blast
  show ?thesis
  proof (rule agreeingI [where d = "d1 + d2"])
    fix s out ok s' out' assume p: "plain s" and "and_ok (f s out) g = Some (ok, s', out')"
    then obtain ok1 s1 out1 where 1: "f s out = Some (ok1, s1, out1)"
      "if ok1 then g s1 out1 = Some (ok, s', out') else s' = s1"
      by (auto simp: and_ok_def bind_eq_Some_conv split: if_splits)
    then have c: "os_callback s1 = os_callback s" using f(1) p by blast
    then have "plain s1" using p by (simp add: plain_def)
    then show "os_callback s' = os_callback s" using 1(2) c g(1) by (auto split: if_splits)
  next
    fix s out s' out' assume p: "plain s" and "and_ok (f s out) g = Some (True, s', out')"
    then obtain s1 out1 where 1: "f s out = Some (True, s1, out1)" "g s1 out1 = Some (True, s', out')"
      by (auto simp: and_ok_def bind_eq_Some_conv split: if_splits)
    have "plain s1" using f(1) [OF p 1(1)] p by (simp add: plain_def)
    then show "os_bytes_written s' = os_bytes_written s + (d1 + d2)"
      using f(2) [OF p 1(1)] g(2) [OF _ 1(2)] by simp
  qed
qed

lemma agreeing_trivial:
  "agreeing e (\<lambda>s out. Some (True, s, out))" "agreeing e (\<lambda>s out. None)"
  "agreeing e (\<lambda>s out. PB_RETURN_ERROR s out msg)"
  by (rule agreeingI [where d = 0]; simp add: PB_RETURN_ERROR_def; auto)+

lemma agreeing_varint: "agreeing e (\<lambda>s out. pb_encode_varint e s out v)"
  unfolding pb_encode_varint_def Let_def
  by (cases "v \<le> 0x7F"; cases "varint_loop v []") (simp_all add: agreeing_write agreeing_trivial)

lemma sizing_stream [simp]: "plain PB_OSTREAM_SIZING" "os_bytes_written PB_OSTREAM_SIZING = 0"
  "os_callback PB_OSTREAM_SIZING = NoCallback" "os_errmsg PB_OSTREAM_SIZING = None"
  by (simp_all add: plain_def PB_OSTREAM_SIZING_def)

text \<open>
  The shape that submessages and packed arrays share: a step that yields a size \<open>n\<close>, the same on
  every run that succeeds, then the size and a body that counts \<open>n\<close>.
\<close>

lemma agreeing_sized:
  assumes run: "\<And>out v out'. r out = Some (True, v, out') \<Longrightarrow> measured v = d"
    and body: "agreeing e (body d)"
    and stop: "\<And>v s. os_callback (stop v s) = os_callback s"
  shows "agreeing e (\<lambda>s out. do {
      (ok, v, out) \<leftarrow> r out;
      if \<not> ok then Some (False, stop v s, out)
      else and_ok (pb_encode_varint e s out (measured v)) (body (measured v)) })" (is "agreeing e ?f")
proof -
  have "agreeing e (\<lambda>s out. and_ok (pb_encode_varint e s out d) (body d))"
    by (rule agreeing_sequence [OF agreeing_varint body])
  then obtain d2 where 2: "\<And>s out ok s' out'. plain s \<Longrightarrow>
      and_ok (pb_encode_varint e s out d) (body d) = Some (ok, s', out') \<Longrightarrow> os_callback s' = os_callback s"
    "\<And>s out s' out'. plain s \<Longrightarrow> and_ok (pb_encode_varint e s out d) (body d) = Some (True, s', out') \<Longrightarrow>
      os_bytes_written s' = os_bytes_written s + d2"
    by (rule agreeingE) blast
  have runs: "\<exists>out1. (ok \<longrightarrow> and_ok (pb_encode_varint e s out1 d) (body d) = Some (True, s', out')) \<and>
      (\<not> ok \<longrightarrow> os_callback s' = os_callback s \<or> and_ok (pb_encode_varint e s out1 d) (body d) = Some (False, s', out'))"
    if "?f s out = Some (ok, s', out')" for s out ok s' out'
  proof -
    from that obtain ok1 v out1 where 1: "r out = Some (ok1, v, out1)"
      "(if \<not> ok1 then Some (False, stop v s, out1)
        else and_ok (pb_encode_varint e s out1 (measured v)) (body (measured v))) = Some (ok, s', out')"
      by (auto simp: bind_eq_Some_conv)
    show ?thesis
    proof (cases ok1)
      case True
      then show ?thesis using 1 run [of out v out1] by (cases ok) auto
    next
      case False
      then show ?thesis using 1 stop by auto
    qed
  qed
  show ?thesis
  proof (rule agreeingI [where d = d2])
    fix s out ok s' out' assume "plain s" and "?f s out = Some (ok, s', out')"
    then show "os_callback s' = os_callback s" using runs 2(1) by (cases ok) blast+
  next
    fix s out s' out' assume "plain s" and "?f s out = Some (True, s', out')"
    then show "os_bytes_written s' = os_bytes_written s + d2" using runs 2(2) by blast
  qed
qed

lemma agreeing_submessage:
  assumes "\<And>descr p. agreeing e (\<lambda>s out. enc s out descr p)"
  shows "agreeing e (\<lambda>s out. pb_encode_submessage e enc s out descr p)"
proof -
  from assms [of descr p] obtain d where
    enc: "\<And>s out s' out'. plain s \<Longrightarrow> enc s out descr p = Some (True, s', out') \<Longrightarrow> os_bytes_written s' = os_bytes_written s + d"
    by (rule agreeingE) blast
  show ?thesis
    unfolding pb_encode_submessage_def Let_def
  proof (rule agreeing_sized [where d = d])
    show "os_bytes_written z = d" if "enc PB_OSTREAM_SIZING out descr p = Some (True, z, out')" for out z out'
      using enc [OF _ that] by simp
    let ?body = "\<lambda>s out.
      if os_callback s = NoCallback then pb_write e s out (LocalArray []) d
      else if os_max_size s < os_bytes_written s + d then PB_RETURN_ERROR s out ''stream full''
      else do {
        (status, substream, out) \<leftarrow>
          enc \<lparr>os_callback = os_callback s, os_state = os_state s, os_max_size = d,
               os_bytes_written = 0, os_errmsg = None\<rparr> out descr p;
        if os_bytes_written substream \<noteq> d
        then PB_RETURN_ERROR (s\<lparr>os_bytes_written := os_bytes_written s + os_bytes_written substream,
                  os_state := os_state substream, os_errmsg := os_errmsg substream\<rparr>) out ''submsg size changed''
        else Some (status, s\<lparr>os_bytes_written := os_bytes_written s + os_bytes_written substream,
                  os_state := os_state substream, os_errmsg := os_errmsg substream\<rparr>, out) }"
    show "agreeing e ?body"
    proof (rule agreeingI [where d = d])
      fix s out ok s' out' assume "plain s" "?body s out = Some (ok, s', out')"
      then show "os_callback s' = os_callback s"
        by (auto simp: bind_eq_Some_conv PB_RETURN_ERROR_def dest: agreeing_write_by split: if_splits)
    next
      fix s out s' out' assume "plain s" "?body s out = Some (True, s', out')"
      then show "os_bytes_written s' = os_bytes_written s + d"
        by (auto simp: bind_eq_Some_conv PB_RETURN_ERROR_def dest: agreeing_write_by split: if_splits)
    qed
  qed simp
qed

lemma packed_loop_step:
  "(\<lambda>s out. packed_loop (Suc k) e enc func s out fld p) =
   (\<lambda>s out. and_ok (call_encoder e enc func s out fld p)
      (\<lambda>s out. do { q \<leftarrow> ptr_add p (ucast (data_size fld)); packed_loop k e enc func s out fld q }))"
  by simp

lemma agreeing_packed_loop:
  assumes "\<And>p. agreeing e (\<lambda>s out. call_encoder e enc func s out fld p)"
  shows "agreeing e (\<lambda>s out. packed_loop k e enc func s out fld p)"
proof (induction k arbitrary: p)
  case 0
  show ?case by (simp add: agreeing_trivial)
next
  case (Suc k)
  have "agreeing e (\<lambda>s out. do { q \<leftarrow> ptr_add p (ucast (data_size fld)); packed_loop k e enc func s out fld q })"
    using Suc by (cases "ptr_add p (ucast (data_size fld))") (simp_all add: agreeing_trivial)
  from agreeing_sequence [OF assms this] show ?case unfolding packed_loop_step .
qed

text \<open>Values of a fixed width count their width.\<close>

lemma fixed_width_step:
  assumes "func = EncFixed32 \<and> w = 4 \<or> func = EncFixed64 \<and> w = 8"
    and "plain s" "call_encoder e enc func s out fld p = Some (True, s', out')"
  shows "os_bytes_written s' = os_bytes_written s + w" "plain s'"
proof -
  have "\<exists>bs. pb_write e s out (LocalArray bs) w = Some (True, s', out')"
    using assms(1,3)
    by (auto simp: pb_enc_fixed32_def pb_enc_fixed64_def pb_encode_fixed32_def pb_encode_fixed64_def
        bind_eq_Some_conv simp del: load_bytes_numeral)
  then obtain bs where bs: "pb_write e s out (LocalArray bs) w = Some (True, s', out')" ..
  show "os_bytes_written s' = os_bytes_written s + w" by (rule agreeing_write_by(2) [OF assms(2) bs])
  show "plain s'" using agreeing_write_by(1) [OF assms(2) bs] assms(2) by (simp add: plain_def)
qed

lemma fixed_width_loop:
  assumes w: "func = EncFixed32 \<and> w = 4 \<or> func = EncFixed64 \<and> w = 8"
  shows "plain s \<Longrightarrow> packed_loop k e enc func s out fld p = Some (True, s', out') \<Longrightarrow>
    os_bytes_written s' = os_bytes_written s + w * of_nat k"
proof (induction k arbitrary: s out p)
  case 0
  then show ?case by simp
next
  case (Suc k)
  from Suc.prems(2) obtain s1 out1 q where 1: "call_encoder e enc func s out fld p = Some (True, s1, out1)"
    "packed_loop k e enc func s1 out1 fld q = Some (True, s', out')"
    by (auto simp: and_ok_def bind_eq_Some_conv split: if_splits)
  note step = fixed_width_step [OF w Suc.prems(1) 1(1)]
  show ?case using Suc.IH [OF step(2) 1(2)] step(1) by (simp add: algebra_simps)
qed

lemma agreeing_packed:
  assumes func: "func = PB_ENCODERS ! unat (PB_LTYPE (field_type fld))"
    and call: "\<And>p. agreeing e (\<lambda>s out. call_encoder e enc func s out fld p)"
  shows "agreeing e (\<lambda>s out. encode_packed e enc s out fld p count func)"
proof -
  let ?loop = "\<lambda>s out. packed_loop (unat count) e enc func s out fld p"
  have "\<exists>d. (\<forall>s out s' out'. plain s \<longrightarrow> ?loop s out = Some (True, s', out') \<longrightarrow>
        os_bytes_written s' = os_bytes_written s + d) \<and>
      (\<forall>out n out'. packed_size e enc func out fld p count = Some (True, n, out') \<longrightarrow> n = d)"
  proof -
    consider "PB_LTYPE (field_type fld) = PB_LTYPE_FIXED32" | "PB_LTYPE (field_type fld) = PB_LTYPE_FIXED64"
      | "PB_LTYPE (field_type fld) \<noteq> PB_LTYPE_FIXED32" "PB_LTYPE (field_type fld) \<noteq> PB_LTYPE_FIXED64"
      by blast
    then show ?thesis
    proof cases
      case 1
      then have "func = EncFixed32"
        unfolding func PB_LTYPE_FIXED32_def by (simp add: PB_ENCODERS_def)
      then have "os_bytes_written s' = os_bytes_written s + 4 * count"
        if "plain s" "?loop s out = Some (True, s', out')" for s out s' out'
        using fixed_width_loop [of func 4, OF _ that] by simp
      then show ?thesis using 1 by (intro exI [of _ "4 * count"]) (auto simp: packed_size_def)
    next
      case 2
      then have "func = EncFixed64"
        unfolding func PB_LTYPE_FIXED64_def by (simp add: PB_ENCODERS_def)
      then have "os_bytes_written s' = os_bytes_written s + 8 * count"
        if "plain s" "?loop s out = Some (True, s', out')" for s out s' out'
        using fixed_width_loop [of func 8, OF _ that] by simp
      then show ?thesis using 2
        by (intro exI [of _ "8 * count"]) (auto simp: packed_size_def PB_LTYPE_FIXED32_def PB_LTYPE_FIXED64_def)
    next
      case 3
      from agreeing_packed_loop [OF call] obtain d where
        d: "\<And>s out s' out'. plain s \<Longrightarrow> ?loop s out = Some (True, s', out') \<Longrightarrow> os_bytes_written s' = os_bytes_written s + d"
        by (rule agreeingE) blast
      have "n = d" if "packed_size e enc func out fld p count = Some (True, n, out')" for out n out'
      proof -
        from that 3 obtain z where "?loop PB_OSTREAM_SIZING out = Some (True, z, out')" "n = os_bytes_written z"
          by (auto simp: packed_size_def bind_eq_Some_conv)
        then show ?thesis using d [OF sizing_stream(1)] by simp
      qed
      then show ?thesis using d by blast
    qed
  qed
  then obtain d where d: "\<And>s out s' out'. plain s \<Longrightarrow> ?loop s out = Some (True, s', out') \<Longrightarrow>
      os_bytes_written s' = os_bytes_written s + d"
    "\<And>out n out'. packed_size e enc func out fld p count = Some (True, n, out') \<Longrightarrow> n = d"
    by blast
  have cb: "os_callback s' = os_callback s" if "plain s" "?loop s out = Some (ok, s', out')" for s out ok s' out'
    using agreeing_packed_loop [OF call, of "unat count" p] that unfolding agreeing_def by blast
  have "agreeing e (\<lambda>s out. if os_callback s = NoCallback then pb_write e s out (LocalArray []) d else ?loop s out)"
    by (rule agreeingI [where d = d]) (auto dest: agreeing_write_by d(1) cb split: if_splits)
  from agreeing_sized [of "\<lambda>out. packed_size e enc func out fld p count" "\<lambda>n. n" d e
      "\<lambda>n s out. if os_callback s = NoCallback then pb_write e s out (LocalArray []) n else ?loop s out"
      "\<lambda>n s. s", OF d(2) this]
  have "agreeing e (\<lambda>s out. do {
      (ok, n, out) \<leftarrow> packed_size e enc func out fld p count;
      if \<not> ok then Some (False, s, out)
      else and_ok (pb_encode_varint e s out n)
        (\<lambda>s out. if os_callback s = NoCallback then pb_write e s out (LocalArray []) n else ?loop s out) })"
    by simp
  from agreeing_sequence [OF agreeing_varint this] show ?thesis
    unfolding encode_packed_def pb_encode_tag_def .
qed

lemma agreeing_reported:
  assumes "agreeing e f"
  shows "agreeing e (\<lambda>s out. do { (ok, s, out) \<leftarrow> f s out;
           if \<not> ok then PB_RETURN_ERROR s out msg else Some (True, s, out) })"
proof -
  from assms obtain d where
    f: "\<And>s out ok s' out'. plain s \<Longrightarrow> f s out = Some (ok, s', out') \<Longrightarrow> os_callback s' = os_callback s"
    "\<And>s out s' out'. plain s \<Longrightarrow> f s out = Some (True, s', out') \<Longrightarrow> os_bytes_written s' = os_bytes_written s + d"
    by (rule agreeingE) blast
  show ?thesis
    by (rule agreeingI [where d = d])
      (auto simp: bind_eq_Some_conv PB_RETURN_ERROR_def dest: f split: if_splits)
qed

interpretation agreement: encoder_property agreeing
proof unfold_locales
  fix e f g assume "agreeing e f" "agreeing e g"
  then show "agreeing e (\<lambda>s out. and_ok (f s out) g)" by (rule agreeing_sequence)
next
  fix e :: encoder_env and enc :: message_encoder and descr p
  assume "\<And>descr p. agreeing e (\<lambda>s out. enc s out descr p)"
  then show "agreeing e (\<lambda>s out. pb_encode_submessage e enc s out descr p)" by (rule agreeing_submessage)
next
  fix e :: encoder_env and enc :: message_encoder and func fld p count
  assume "func = PB_ENCODERS ! unat (PB_LTYPE (field_type fld))"
    "\<And>p. agreeing e (\<lambda>s out. call_encoder e enc func s out fld p)"
  then show "agreeing e (\<lambda>s out. encode_packed e enc s out fld p count func)" by (rule agreeing_packed)
next
  fix e f msg assume "agreeing e f"
  then show "agreeing e (\<lambda>s out. do { (ok, s, out) \<leftarrow> f s out;
      if \<not> ok then PB_RETURN_ERROR s out msg else Some (True, s, out) })" by (rule agreeing_reported)
qed (simp_all add: agreeing_trivial agreeing_write)

end
