(* ===== verification/Pb_Wire.thy ===== *)
theory Pb_Wire
  imports Pb_Encode_Bounds
begin

text \<open>
  What the encoder of \<^verbatim>\<open>nanopb/pb_encode.c\<close> writes: the protocol buffers wire format as functions
  from values to bytes, the content of a message structure as a list of tagged values, and the
  refinement between them and \<open>pb_encode\<close>.
\<close>

section \<open>Varints\<close>

text \<open>The base-128 digits of a number, the least significant first, with the high bit on all but the last.\<close>

fun base128 :: "nat \<Rightarrow> byte list" where
  "base128 n = (if n < 128 then [of_nat n] else of_nat (n mod 128 + 128) # base128 (n div 128))"

fun base128_value :: "byte list \<Rightarrow> nat" where
  "base128_value [] = 0"
| "base128_value (b # bs) = unat b mod 128 + 128 * base128_value bs"

fun marked :: "nat \<Rightarrow> byte list" where
  "marked n = (if n = 0 then [] else of_nat (n mod 128 + 128) # marked (n div 128))"

declare base128.simps [simp del] marked.simps [simp del]

lemma marked_eq_base128:
  "0 < n \<Longrightarrow> base128 n = (marked n)[length (marked n) - 1 := marked n ! (length (marked n) - 1) AND 0x7F]"
proof (induction n rule: marked.induct)
  case (1 n)
  show ?case
  proof (cases "n < 128")
    case True
    have "(of_nat (n mod 128 + 128) :: byte) AND 0x7F = of_nat n"
    proof (rule word_unat_eq_iff [THEN iffD2])
      have "unat (0x7F AND (of_nat (n mod 128 + 128) :: byte)) = n"
        unfolding unat_and_127 using True by (simp add: unat_of_nat del: of_nat_add)
      then show "unat ((of_nat (n mod 128 + 128) :: byte) AND 0x7F) = unat (of_nat n :: byte)"
        using True by (simp add: unat_of_nat and.commute del: of_nat_add)
    qed
    moreover have "marked n = [of_nat (n mod 128 + 128)]"
      using True 1(2) by (simp add: marked.simps [of n] marked.simps [of 0])
    ultimately show ?thesis using True by (simp add: base128.simps [of n])
  next
    case False
    then have "0 < n div 128" by (simp add: div_greater_zero_iff)
    moreover from this have "marked (n div 128) \<noteq> []" by (subst marked.simps) simp
    ultimately show ?thesis
      using 1(1) [OF _ \<open>0 < n div 128\<close>] False
      by (auto simp: base128.simps [of n] marked.simps [of n] nth_Cons neq_Nil_conv split: nat.split)
  qed
qed

lemma length_marked: "n < 128 ^ k \<Longrightarrow> length (marked n) \<le> k"
proof (induction k arbitrary: n)
  case 0
  then show ?case by (simp add: marked.simps)
next
  case (Suc k)
  then have "n div 128 < 128 ^ k" by (intro less_mult_imp_div_less) (simp add: mult.commute)
  then show ?case using Suc.IH [of "n div 128"] by (simp add: marked.simps [of n])
qed

lemma marked_byte: "(ucast (v AND 0x7F) :: byte) OR 0x80 = of_nat (unat (v :: u64) mod 128 + 128)"
proof -
  have m: "v AND 0x7F = take_bit 7 v" by (simp add: take_bit_eq_mask mask_eq_exp_minus_1)
  have "unat (ucast (v AND 0x7F) :: byte) = unat v mod 128"
  proof -
    have "unat (take_bit 7 v) = unat v mod 128" by (simp only: unsigned_take_bit_eq) (simp add: take_bit_eq_mod)
    moreover have "unat v mod 128 < 2 ^ 8" using mod_less_divisor [of 128 "unat v"] by simp
    ultimately show ?thesis unfolding m
      by (simp only: unsigned_ucast_eq) (simp add: take_bit_nat_eq_self)
  qed
  then have u: "ucast (v AND 0x7F) = (of_nat (unat v mod 128) :: byte)"
    by (metis of_nat_unat ucast_id)
  have "(of_nat (unat v mod 128) :: byte) OR push_bit 7 1 = of_nat (unat v mod 128) + push_bit 7 1"
    by (rule word_or_push_bit) (simp add: unat_of_nat)
  then show ?thesis unfolding u by simp
qed

lemma varint_loop_marked:
  "length buffer + length (marked (unat v)) \<le> 10 \<Longrightarrow> varint_loop v buffer = Some (buffer @ marked (unat v))"
proof (induction v buffer rule: varint_loop.induct)
  case (1 v buffer)
  show ?case
  proof (cases "v = 0")
    case True
    then show ?thesis by (subst varint_loop.simps) (simp add: marked.simps)
  next
    case False
    then have m: "marked (unat v) = of_nat (unat v mod 128 + 128) # marked (unat v div 128)"
      by (simp add: marked.simps [of "unat v"] unat_eq_zero)
    have d: "unat (drop_bit 7 v) = unat v div 128" by (simp add: drop_bit_eq_div unat_div)
    have "varint_loop v buffer = varint_loop (drop_bit 7 v) (buffer @ [ucast (v AND 0x7F) OR 0x80])"
      using 1(2) False m by (subst varint_loop.simps) simp
    also have "\<dots> = Some ((buffer @ [ucast (v AND 0x7F) OR 0x80]) @ marked (unat (drop_bit 7 v)))"
      using 1(2) False m by (intro 1(1)) (simp_all add: d)
    finally show ?thesis unfolding d marked_byte by (simp add: m)
  qed
qed

lemma length_base128: "n < 128 ^ k \<Longrightarrow> 0 < k \<Longrightarrow> length (base128 n) \<le> k"
proof (cases "n = 0")
  case False
  assume "n < 128 ^ k"
  then show ?thesis using length_marked marked_eq_base128 [of n] False by simp
qed (simp add: base128.simps)

lemma base128_value_of: "base128_value (base128 n) = n"
proof (induction n rule: base128.induct)
  case (1 n)
  have u: "unat (of_nat k :: byte) = k" if "k < 256" for k
    using that by (simp add: unat_of_nat)
  show ?case
  proof (cases "n < 128")
    case True
    then show ?thesis by (simp add: base128.simps u)
  next
    case False
    have "n mod 128 < 128" by simp
    then have "unat (of_nat (n mod 128 + 128) :: byte) mod 128 = n mod 128"
      using u [of "n mod 128 + 128"] by simp
    then show ?thesis using 1 False by (simp add: base128.simps [of n] del: of_nat_add)
  qed
qed

lemma unat_less_base128: "unat (v :: u64) < 128 ^ 10"
proof -
  have "unat v < 2 ^ 64" using unsigned_less [of v] by simp
  also have "(2 :: nat) ^ 64 \<le> 128 ^ 10" by simp
  finally show ?thesis .
qed

lemma varint_writes:
  "pb_encode_varint e s out v =
     pb_write e s out (LocalArray (base128 (unat v))) (of_nat (length (base128 (unat v))))"
proof (cases "v \<le> 0x7F")
  case True
  then have "unat v < 128" by (simp add: word_le_nat_alt)
  then have "base128 (unat v) = [ucast v]"
    by (simp add: base128.simps)
  then show ?thesis using True by (simp add: pb_encode_varint_def)
next
  case False
  then have "0 < unat v" by (simp add: word_le_nat_alt)
  from marked_eq_base128 [OF this] False varint_loop_marked [of "[]" v] length_marked [OF unat_less_base128]
  show ?thesis by (simp add: pb_encode_varint_def Let_def)
qed

lemma length_varint: "length (base128 (unat (v :: u64))) \<le> 10"
  by (rule length_base128 [OF unat_less_base128]) simp

text \<open>
  C28. \<open>pb_encode_varint\<close> writes the base-128 representation of the number, in one to ten bytes
  that never overrun its buffer of ten, and the representation reads back as the number.
\<close>

theorem pb_encode_varint_correct:
  "pb_encode_varint e s out v =
     pb_write e s out (LocalArray (base128 (unat v))) (of_nat (length (base128 (unat v)))) \<and>
   length (base128 (unat v)) \<in> {1..10} \<and> base128_value (base128 (unat v)) = unat v"
proof -
  have "base128 (unat v) \<noteq> []" by (simp add: base128.simps)
  then show ?thesis
    using varint_writes length_varint base128_value_of by (simp add: Suc_le_eq)
qed

text \<open>
  C29. The zigzag code of \<open>pb_encode_svarint\<close>: the number that is encoded is twice the magnitude,
  less one for a negative number, and the inverse transformation of the wire format gives back the
  signed number, at the two ends of the range too.
\<close>

theorem pb_encode_svarint_correct:
  "\<exists>z. pb_encode_svarint e s out v = pb_encode_varint e s out z \<and>
     int (unat z) = (if sint v < 0 then - 2 * sint v - 1 else 2 * sint v) \<and>
     (if odd (unat z) then NOT (drop_bit 1 z) else drop_bit 1 z) = v"
proof -
  define k :: int where "k = (if sint v < 0 then - 2 * sint v - 1 else 2 * sint v)"
  define z :: u64 where "z = of_int k"
  have r: "- (2 ^ 63) \<le> sint v" "sint v < 2 ^ 63"
    using sint_greater_eq [of v] sint_less [of v] by simp_all
  have v: "of_int (sint v) = v" by simp
  have "push_bit 1 v = of_int (2 * sint v)" by (simp add: push_bit_eq_mult)
  then have z: "(if sint v < 0 then NOT (push_bit 1 v) else push_bit 1 v) = z"
    by (simp add: z_def k_def not_eq_complement)
  have u: "uint z = k"
    using r by (simp add: z_def k_def unsigned_of_int take_bit_int_eq_self)
  then have n: "int (unat z) = k" by simp
  have "drop_bit 1 z = of_int (k div 2)"
    by (simp add: drop_bit_eq_div word_div_def u)
  moreover have "odd (unat z) \<longleftrightarrow> sint v < 0"
  proof -
    have "odd (unat z) \<longleftrightarrow> odd k" using n by (metis even_of_nat)
    then show ?thesis by (simp add: k_def)
  qed
  moreover have "NOT (of_int (k div 2)) = v" if "sint v < 0"
  proof -
    have "k div 2 = - sint v - 1" using that by (simp add: k_def)
    then show ?thesis by (simp add: not_eq_complement)
  qed
  moreover have "of_int (k div 2) = v" if "\<not> sint v < 0" using that by (simp add: k_def)
  ultimately have "(if odd (unat z) then NOT (drop_bit 1 z) else drop_bit 1 z) = v" by simp
  then show ?thesis
    using n z by (intro exI [of _ z]) (simp add: pb_encode_svarint_def k_def)
qed

section \<open>Steps that emit given bytes\<close>

definition put :: "memory \<Rightarrow> addr \<Rightarrow> byte list \<Rightarrow> memory" where
  "put out p bs a =
     (if unat p \<le> unat a \<and> unat a < unat p + length bs then Some (bs ! (unat a - unat p)) else out a)"

text \<open>The stream has no error yet, and \<open>k\<close> more bytes fit: into the count, and into a buffer.\<close>

definition has_room :: "ostream \<Rightarrow> memory \<Rightarrow> nat \<Rightarrow> bool" where
  "has_room s out k \<longleftrightarrow>
     os_errmsg s = None \<and>
     (case os_callback s of
        NoCallback \<Rightarrow> unat (os_bytes_written s) + k < 2 ^ 64
      | BufWrite \<Rightarrow> unat (os_bytes_written s) + k \<le> unat (os_max_size s) \<and>
          unat (os_state s) + k < 2 ^ 64 \<and> (\<forall>i < k. out (os_state s + of_nat i) \<noteq> None)
      | UserWrite f \<Rightarrow> False)"

definition emit :: "ostream \<Rightarrow> memory \<Rightarrow> byte list \<Rightarrow> io" where
  "emit s out bs =
     Some (True,
       s\<lparr>os_state := (if os_callback s = NoCallback then os_state s else os_state s + of_nat (length bs)),
         os_bytes_written := os_bytes_written s + of_nat (length bs)\<rparr>,
       (if os_callback s = NoCallback then out else put out (os_state s) bs))"

definition emits :: "(ostream \<Rightarrow> memory \<Rightarrow> io) \<Rightarrow> byte list \<Rightarrow> bool" where
  "emits f bs \<longleftrightarrow> (\<forall>s out. has_room s out (length bs) \<longrightarrow> f s out = emit s out bs)"

lemma emitsD: "emits f bs \<Longrightarrow> has_room s out (length bs) \<Longrightarrow> f s out = emit s out bs"
  by (simp add: emits_def)

lemma put_Nil [simp]: "put out p [] = out"
  by (rule ext) (auto simp: put_def)

lemma store_bytes_put:
  "unat p + length bs < 2 ^ 64 \<Longrightarrow> (\<forall>i < length bs. out (p + of_nat i) \<noteq> None) \<Longrightarrow>
   store_bytes out p bs = Some (put out p bs)"
proof (induction bs arbitrary: out p)
  case Nil
  then show ?case by simp
next
  case (Cons b bs)
  have p1: "unat (p + 1) = unat p + 1" using unat_add_lt [of p 1] Cons.prems(1) by simp
  then have q: "ptr_add p 1 = Some (p + 1)" using Cons.prems(1) by (simp add: ptr_add_def)
  have "out (p + 1 + of_nat i) \<noteq> None" if "i < length bs" for i
    using Cons.prems(2) [rule_format, of "Suc i"] that by (simp add: add.assoc)
  then have "store_bytes (out(p \<mapsto> b)) (p + 1) bs = Some (put (out(p \<mapsto> b)) (p + 1) bs)"
    using Cons.prems(1) p1 by (intro Cons.IH) auto
  moreover have "out p \<noteq> None" using Cons.prems(2) [rule_format, of 0] by simp
  moreover have "put (out(p \<mapsto> b)) (p + 1) bs = put out p (b # bs)"
  proof (rule ext)
    fix a
    consider "a = p" | "unat a < unat p" | "unat p < unat a"
      by (metis linorder_neqE_nat word_unat_eq_iff)
    then show "put (out(p \<mapsto> b)) (p + 1) bs a = put out p (b # bs) a"
    proof cases
      case 3
      then have "unat a - unat p = Suc (unat a - unat (p + 1))" using p1 by simp
      then show ?thesis using 3 p1 by (auto simp: put_def)
    qed (auto simp: put_def p1)
  qed
  ultimately show ?case using q by simp
qed

lemma put_append:
  assumes "unat p + length (xs @ ys) < 2 ^ 64"
  shows "put (put out p xs) (p + of_nat (length xs)) ys = put out p (xs @ ys)"
proof (rule ext)
  fix a
  have "unat (p + of_nat (length xs)) = unat p + length xs"
    using assms by (intro unat_add_of_nat) simp
  then show "put (put out p xs) (p + of_nat (length xs)) ys a = put out p (xs @ ys) a"
    by (auto simp: put_def nth_append)
qed

lemma has_room_less: "has_room s out k \<Longrightarrow> j \<le> k \<Longrightarrow> has_room s out j"
  by (auto simp: has_room_def split: write_callback.splits)

lemma less_exp: "unat (x :: u64) < 2 ^ 64"
  using unsigned_less [of x] by simp

lemma has_room_count: "has_room s out k \<Longrightarrow> unat (os_bytes_written s) + k < 2 ^ 64"
  using less_exp [of "os_max_size s"] by (auto simp: has_room_def split: write_callback.splits)

lemma emits_write:
  assumes "source_bytes e src (unat k) = Some bs" and "unat k = length bs"
  shows "emits (\<lambda>s out. pb_write e s out src k) bs"
  unfolding emits_def
proof (intro allI impI)
  fix s out assume room: "has_room s out (length bs)"
  have k: "k = of_nat (length bs)" using assms(2) by (metis of_nat_unat ucast_id)
  show "pb_write e s out src k = emit s out bs"
  proof (cases "bs = []")
    case True
    then show ?thesis using k by (simp add: pb_write_def emit_def)
  next
    case False
    then have pos: "0 < k" using assms(2) by (simp add: word_gt_0 flip: unat_eq_zero)
    show ?thesis
    proof (cases "os_callback s")
      case NoCallback
      then show ?thesis using k by (simp add: pb_write_def emit_def)
    next
      case UserWrite
      then show ?thesis using room by (simp add: has_room_def)
    next
      case BufWrite
      then have buf: "unat (os_bytes_written s) + length bs \<le> unat (os_max_size s)"
        "unat (os_state s) + length bs < 2 ^ 64" "\<forall>i < length bs. out (os_state s + of_nat i) \<noteq> None"
        using room by (auto simp: has_room_def)
      have "unat (os_bytes_written s + k) = unat (os_bytes_written s) + length bs"
        using has_room_count [OF room] assms(2) by (intro trans [OF unat_add_lt]) auto
      then have "\<not> os_bytes_written s + k < os_bytes_written s" "\<not> os_max_size s < os_bytes_written s + k"
        using buf(1) by (simp_all add: word_less_nat_alt)
      moreover have "ptr_add (os_state s) k = Some (os_state s + k)"
        using buf(2) assms(2) by (simp add: ptr_add_def)
      ultimately show ?thesis
        using BufWrite pos assms(1) store_bytes_put [OF buf(2,3)] k
        by (simp add: pb_write_def call_callback_def buf_write_def emit_def)
    qed
  qed
qed

lemma emits_nothing: "emits (\<lambda>s out. Some (True, s, out)) []"
  by (simp add: emits_def emit_def)

lemma emits_sequence:
  assumes "emits f bs" "emits g cs"
  shows "emits (\<lambda>s out. and_ok (f s out) g) (bs @ cs)"
  unfolding emits_def
proof (intro allI impI)
  fix s out assume room: "has_room s out (length (bs @ cs))"
  then have f: "f s out = emit s out bs" by (intro emitsD [OF assms(1)]) (auto intro: has_room_less)
  have count: "unat (os_bytes_written s + of_nat (length bs)) = unat (os_bytes_written s) + length bs"
    using has_room_count [OF room] by (intro unat_add_of_nat) simp
  show "and_ok (f s out) g = emit s out (bs @ cs)"
  proof (cases "os_callback s")
    case NoCallback
    define s1 where "s1 = s\<lparr>os_bytes_written := os_bytes_written s + of_nat (length bs)\<rparr>"
    have "has_room s1 out (length cs)"
      using room NoCallback count by (simp add: has_room_def s1_def)
    from emitsD [OF assms(2) this] show ?thesis
      using NoCallback unfolding f by (simp add: emit_def and_ok_def s1_def add.assoc)
  next
    case UserWrite
    then show ?thesis using room by (simp add: has_room_def)
  next
    case BufWrite
    define s1 where "s1 = s\<lparr>os_state := os_state s + of_nat (length bs),
      os_bytes_written := os_bytes_written s + of_nat (length bs)\<rparr>"
    have buf: "unat (os_state s) + length (bs @ cs) < 2 ^ 64"
      "\<And>i. i < length (bs @ cs) \<Longrightarrow> out (os_state s + of_nat i) \<noteq> None"
      using room BufWrite by (auto simp: has_room_def)
    have st: "unat (os_state s + of_nat (length bs)) = unat (os_state s) + length bs"
      using buf(1) by (intro unat_add_of_nat) simp
    have "put out (os_state s) bs (os_state s + of_nat (length bs) + of_nat i) \<noteq> None" if "i < length cs" for i
      using buf(2) [of "length bs + i"] that by (auto simp: put_def add.assoc)
    then have "has_room s1 (put out (os_state s) bs) (length cs)"
      using room BufWrite count st by (simp add: has_room_def s1_def)
    from emitsD [OF assms(2) this] show ?thesis
      using BufWrite put_append [OF buf(1)] unfolding f
      by (simp add: emit_def and_ok_def s1_def add.assoc)
  qed
qed

lemma emits_varint: "emits (\<lambda>s out. pb_encode_varint e s out v) (base128 (unat v))"
proof -
  have "length (base128 (unat v)) \<le> 10" by (rule length_varint)
  then have "unat (of_nat (length (base128 (unat v))) :: u64) = length (base128 (unat v))"
    using unat_add_of_nat [of 0 "length (base128 (unat v))"] by simp
  then show ?thesis
    unfolding varint_writes by (intro emits_write) (simp_all add: source_bytes_def)
qed

section \<open>The wire format\<close>

datatype wire_value = Varint u64 | Fixed32 "byte list" | Fixed64 "byte list" | Delimited "byte list"

fun wire_type :: "wire_value \<Rightarrow> nat" where
  "wire_type (Varint v) = 0"
| "wire_type (Fixed32 bs) = 5"
| "wire_type (Fixed64 bs) = 1"
| "wire_type (Delimited bs) = 2"

fun payload :: "wire_value \<Rightarrow> byte list" where
  "payload (Varint v) = base128 (unat v)"
| "payload (Fixed32 bs) = bs"
| "payload (Fixed64 bs) = bs"
| "payload (Delimited bs) = base128 (length bs) @ bs"

definition tag_bytes :: "u32 \<Rightarrow> nat \<Rightarrow> byte list" where
  "tag_bytes tag w = base128 (8 * unat tag + w)"

definition wire_bytes :: "(u32 \<times> wire_value) list \<Rightarrow> byte list" where
  "wire_bytes rs = concat (map (\<lambda>(tag, v). tag_bytes tag (wire_type v) @ payload v) rs)"

section \<open>The value of a field\<close>

definition zigzag :: "u64 \<Rightarrow> u64" where
  "zigzag v = of_int (if sint v < 0 then - 2 * sint v - 1 else 2 * sint v)"

fun c_string :: "nat \<Rightarrow> memory \<Rightarrow> addr \<Rightarrow> byte list option" where
  "c_string 0 m p = Some []"
| "c_string (Suc n) m p =
     do { c \<leftarrow> m p;
          if c = 0 then Some []
          else do { q \<leftarrow> ptr_add p 1; cs \<leftarrow> c_string n m q; Some (c # cs) } }"

definition string_limit :: "pb_field \<Rightarrow> nat" where
  "string_limit f = (if PB_ATYPE (field_type f) = PB_ATYPE_POINTER then 2 ^ 64 - 1 else unat (data_size f))"

text \<open>\<open>sub\<close> gives the bytes of a submessage.\<close>

definition value_at :: "(addr \<Rightarrow> addr \<Rightarrow> byte list option) \<Rightarrow> memory \<Rightarrow> pb_field \<Rightarrow> addr \<Rightarrow> wire_value option" where
  "value_at sub m f p =
     (let t = PB_LTYPE (field_type f) in
      if t = PB_LTYPE_BOOL then do { b \<leftarrow> m p; Some (Varint (if b = 0 then 0 else 1)) }
      else if t = PB_LTYPE_VARINT
      then do { r \<leftarrow> load_signed m p (data_size f); v \<leftarrow> r; Some (Varint v) }
      else if t = PB_LTYPE_UVARINT
      then do { r \<leftarrow> load_unsigned m p (data_size f); v \<leftarrow> r; Some (Varint v) }
      else if t = PB_LTYPE_SVARINT
      then do { r \<leftarrow> load_signed m p (data_size f); v \<leftarrow> r; Some (Varint (zigzag v)) }
      else if t = PB_LTYPE_FIXED32 then map_option Fixed32 (load_bytes m p 4)
      else if t = PB_LTYPE_FIXED64 then map_option Fixed64 (load_bytes m p 8)
      else if t = PB_LTYPE_BYTES
      then if p = 0 then Some (Delimited [])
           else do { n \<leftarrow> (load_le 4 m p :: u32 option);
                     if PB_ATYPE (field_type f) = PB_ATYPE_STATIC \<and> ucast (data_size f) - 4 < (ucast n :: u64)
                     then None
                     else do { q \<leftarrow> ptr_add p 4; map_option Delimited (load_bytes m q (unat n)) } }
      else if t = PB_LTYPE_STRING
      then if p = 0 then Some (Delimited []) else map_option Delimited (c_string (string_limit f) m p)
      else if t = PB_LTYPE_SUBMESSAGE
      then if field_ptr f = 0 then None else map_option Delimited (sub (field_ptr f) p)
      else if t = PB_LTYPE_FIXED_LENGTH_BYTES
      then map_option Delimited (load_bytes m p (unat (data_size f)))
      else None)"

lemma emits_tag:
  assumes "w < 8"
  shows "emits (\<lambda>s out. pb_encode_tag e s out (of_nat w) tag) (tag_bytes tag w)"
proof -
  define x :: u64 where "x = of_nat w"
  define y :: u64 where "y = push_bit 3 (ucast tag)"
  have x: "unat x = w" using unat_add_of_nat [of 0 w] assms by (simp add: x_def)
  have t: "unat tag < 2 ^ 32" using unsigned_less [of tag] by simp
  have "unat y = unat (ucast tag :: u64) * 2 ^ 3"
    unfolding y_def by (rule unat_push_bit_lt) (use t in \<open>simp add: unat_ucast_up\<close>)
  then have y: "unat y = 8 * unat tag" by (simp add: unat_ucast_up)
  have "y OR x = x + y"
    using word_or_push_bit [of x 3 "ucast tag"] assms x unfolding y_def by (simp add: or.commute)
  moreover have "unat (x + y) = unat x + unat y"
    using x y t assms by (intro unat_add_lt) simp
  ultimately have "unat (y OR x) = 8 * unat tag + w" using x y by simp
  then show ?thesis
    using emits_varint [of e "y OR x"] unfolding pb_encode_tag_def tag_bytes_def x_def y_def by simp
qed

lemma emits_submessage:
  assumes "emits (\<lambda>s out. enc s out descr p) bs"
  shows "emits (\<lambda>s out. pb_encode_submessage e enc s out descr p) (base128 (length bs) @ bs)"
  unfolding emits_def
proof (intro allI impI)
  fix s out assume room: "has_room s out (length (base128 (length bs) @ bs))"
  then have len: "length bs < 2 ^ 64" using has_room_count [OF room] by simp
  define n :: u64 where "n = of_nat (length bs)"
  have n: "unat n = length bs" using unat_add_of_nat [of 0 "length bs"] len by (simp add: n_def)
  have "has_room PB_OSTREAM_SIZING out (length bs)" using len by (simp add: has_room_def)
  from emitsD [OF assms this] have size: "enc PB_OSTREAM_SIZING out descr p =
      Some (True, PB_OSTREAM_SIZING\<lparr>os_bytes_written := n\<rparr>, out)"
    by (simp add: emit_def n_def)
  let ?body = "\<lambda>s out.
      if os_callback s = NoCallback then pb_write e s out (LocalArray []) n
      else if os_max_size s < os_bytes_written s + n then PB_RETURN_ERROR s out ''stream full''
      else do {
        (status, substream, out) \<leftarrow>
          enc \<lparr>os_callback = os_callback s, os_state = os_state s, os_max_size = n,
               os_bytes_written = 0, os_errmsg = None\<rparr> out descr p;
        let s = s\<lparr>os_bytes_written := os_bytes_written s + os_bytes_written substream,
                  os_state := os_state substream, os_errmsg := os_errmsg substream\<rparr>;
        if os_bytes_written substream \<noteq> n then PB_RETURN_ERROR s out ''submsg size changed''
        else Some (status, s, out) }"
  have "emits ?body bs"
    unfolding emits_def
  proof (intro allI impI)
    fix s out assume room: "has_room s out (length bs)"
    show "?body s out = emit s out bs"
    proof (cases "os_callback s")
      case NoCallback
      then show ?thesis by (simp add: pb_write_def emit_def n_def)
    next
      case UserWrite
      then show ?thesis using room by (simp add: has_room_def)
    next
      case BufWrite
      have "unat (os_bytes_written s + n) = unat (os_bytes_written s) + length bs"
        using has_room_count [OF room] n by (intro trans [OF unat_add_lt]) auto
      then have "\<not> os_max_size s < os_bytes_written s + n"
        using room BufWrite by (simp add: has_room_def word_less_nat_alt)
      moreover have "has_room \<lparr>os_callback = BufWrite, os_state = os_state s, os_max_size = n,
               os_bytes_written = 0, os_errmsg = None\<rparr> out (length bs)"
        using room BufWrite n by (simp add: has_room_def)
      from emitsD [OF assms this] have "enc \<lparr>os_callback = BufWrite, os_state = os_state s, os_max_size = n,
               os_bytes_written = 0, os_errmsg = None\<rparr> out descr p =
          Some (True, \<lparr>os_callback = BufWrite, os_state = os_state s + n, os_max_size = n,
               os_bytes_written = n, os_errmsg = None\<rparr>, put out (os_state s) bs)"
        by (simp add: emit_def n_def)
      moreover have "os_errmsg s = None" using room by (simp add: has_room_def)
      ultimately show ?thesis
        using BufWrite by (cases s) (simp add: emit_def n_def)
    qed
  qed
  from emitsD [OF emits_sequence [OF emits_varint [of e n] this] ] room
  show "pb_encode_submessage e enc s out descr p = emit s out (base128 (length bs) @ bs)"
    using size n by (simp add: pb_encode_submessage_def Let_def cong: if_cong)
qed

lemma c_string_bytes_at: "c_string k m p = Some cs \<Longrightarrow> bytes_at m p cs \<and> string_length k m p = Some (length cs)"
proof (induction k arbitrary: p cs)
  case 0
  then show ?case by simp
next
  case (Suc k)
  then show ?case
    by (auto simp: bind_eq_Some_conv ptr_add_Some split: if_splits)
qed

lemma bytes_nat_nth: "i < length bs \<Longrightarrow> bytes_nat bs div 256 ^ i mod 256 = unat (bs ! i)"
proof (induction bs arbitrary: i)
  case Nil
  then show ?case by simp
next
  case (Cons b bs)
  have b: "unat b < 256" using unsigned_less [of b] by simp
  show ?case
  proof (cases i)
    case 0
    then show ?thesis using b by simp
  next
    case (Suc j)
    have "bytes_nat (b # bs) div 256 ^ Suc j = bytes_nat (b # bs) div 256 div 256 ^ j"
      by (simp only: power_Suc div_mult2_eq)
    also have "bytes_nat (b # bs) div 256 = bytes_nat bs" using b by simp
    finally show ?thesis using Cons Suc by simp
  qed
qed

lemma extract_byte:
  fixes v :: "'a::len word"
  assumes "unat v = bytes_nat bs" "i < length bs"
  shows "(ucast (drop_bit (8 * i) v AND 0xFF) :: byte) = bs ! i"
proof (rule word_unat_eq_iff [THEN iffD2])
  have "drop_bit (8 * i) v AND 0xFF = take_bit 8 (drop_bit (8 * i) v)"
    by (simp add: take_bit_eq_mask mask_eq_exp_minus_1)
  moreover have "unat (take_bit 8 (drop_bit (8 * i) v)) = bytes_nat bs div 256 ^ i mod 256"
    by (simp only: unsigned_take_bit_eq unsigned_drop_bit_eq)
      (simp add: assms(1) [symmetric] take_bit_eq_mod drop_bit_eq_div power_mult take_bit_nat_eq_self)
  ultimately show "unat (ucast (drop_bit (8 * i) v AND 0xFF) :: byte) = unat (bs ! i)"
    using bytes_nat_nth [OF assms(2)] by (simp only: unsigned_ucast_eq) (simp add: take_bit_nat_eq_self)
qed

lemma emits_string:
  assumes "bytes_at (env_memory e) p bs" "unat k = length bs"
  shows "emits (\<lambda>s out. pb_encode_string e s out p k) (base128 (length bs) @ bs)"
proof -
  have "source_bytes e (MessageAt p) (unat k) = Some bs"
    using assms by (simp add: source_bytes_def load_bytes_iff)
  from emits_sequence [OF emits_varint [of e k] emits_write [OF this assms(2)]] assms(2) show ?thesis
    unfolding pb_encode_string_def by simp
qed

lemma emits_fixed32:
  assumes "bytes_at (env_memory e) p bs" "length bs = 4"
  shows "emits (\<lambda>s out. pb_encode_fixed32 e s out p) bs"
proof -
  define v :: u32 where "v = of_nat (bytes_nat bs)"
  have v: "unat v = bytes_nat bs"
    using bytes_nat_less [of bs] assms(2) by (simp add: v_def unat_of_nat)
  have "load_le 4 (env_memory e) p = Some v" unfolding v_def by (rule load_le_bytes [OF assms])
  moreover have "[ucast (v AND 0xFF), ucast (drop_bit 8 v AND 0xFF), ucast (drop_bit 16 v AND 0xFF),
      ucast (drop_bit 24 v AND 0xFF)] = bs"
  proof (rule nth_equalityI)
    fix i assume "i < length [ucast (v AND 0xFF), ucast (drop_bit 8 v AND 0xFF), ucast (drop_bit 16 v AND 0xFF),
      ucast (drop_bit 24 v AND 0xFF) :: byte]"
    then have "i \<in> {0, 1, 2, 3}" by auto
    then show "[ucast (v AND 0xFF), ucast (drop_bit 8 v AND 0xFF), ucast (drop_bit 16 v AND 0xFF),
      ucast (drop_bit 24 v AND 0xFF)] ! i = bs ! i"
      using extract_byte [OF v, of i] assms(2) by auto
  qed (simp add: assms(2))
  ultimately show ?thesis
    unfolding pb_encode_fixed32_def using emits_write [of e "LocalArray bs" 4 bs] assms(2)
    by (simp add: source_bytes_def)
qed

lemma emits_fixed64:
  assumes "bytes_at (env_memory e) p bs" "length bs = 8"
  shows "emits (\<lambda>s out. pb_encode_fixed64 e s out p) bs"
proof -
  define v :: u64 where "v = of_nat (bytes_nat bs)"
  have v: "unat v = bytes_nat bs"
    using bytes_nat_less [of bs] assms(2) by (simp add: v_def unat_of_nat)
  have "load_le 8 (env_memory e) p = Some v" unfolding v_def by (rule load_le_bytes [OF assms])
  moreover have "[ucast (v AND 0xFF), ucast (drop_bit 8 v AND 0xFF), ucast (drop_bit 16 v AND 0xFF),
      ucast (drop_bit 24 v AND 0xFF), ucast (drop_bit 32 v AND 0xFF), ucast (drop_bit 40 v AND 0xFF),
      ucast (drop_bit 48 v AND 0xFF), ucast (drop_bit 56 v AND 0xFF)] = bs" (is "?bs = bs")
  proof (rule nth_equalityI)
    fix i assume "i < length ?bs"
    then have "i \<in> {0, 1, 2, 3, 4, 5, 6, 7}" by auto
    then show "?bs ! i = bs ! i" using extract_byte [OF v, of i] assms(2) by auto
  qed (simp add: assms(2))
  ultimately show ?thesis
    unfolding pb_encode_fixed64_def using emits_write [of e "LocalArray bs" 8 bs] assms(2)
    by (simp add: source_bytes_def)
qed

lemma svarint_zigzag: "pb_encode_svarint e s out v = pb_encode_varint e s out (zigzag v)"
  by (simp add: pb_encode_svarint_def zigzag_def push_bit_eq_mult not_eq_complement mult.commute)

lemma ltype_constants:
  "PB_LTYPE_BOOL = 0" "PB_LTYPE_VARINT = 1" "PB_LTYPE_UVARINT = 2" "PB_LTYPE_SVARINT = 3"
  "PB_LTYPE_FIXED32 = 4" "PB_LTYPE_FIXED64 = 5" "PB_LTYPE_BYTES = 6" "PB_LTYPE_STRING = 7"
  "PB_LTYPE_SUBMESSAGE = 8" "PB_LTYPE_EXTENSION = 9" "PB_LTYPE_FIXED_LENGTH_BYTES = 10"
  by (simp_all add: PB_LTYPE_BOOL_def PB_LTYPE_VARINT_def PB_LTYPE_UVARINT_def PB_LTYPE_SVARINT_def
      PB_LTYPE_FIXED32_def PB_LTYPE_FIXED64_def PB_LTYPE_BYTES_def PB_LTYPE_STRING_def
      PB_LTYPE_SUBMESSAGE_def PB_LTYPE_EXTENSION_def PB_LTYPE_FIXED_LENGTH_BYTES_def)

lemma encoder_constants:
  "PB_ENCODERS ! unat PB_LTYPE_BOOL = EncBool" "PB_ENCODERS ! unat PB_LTYPE_VARINT = EncVarint"
  "PB_ENCODERS ! unat PB_LTYPE_UVARINT = EncUvarint" "PB_ENCODERS ! unat PB_LTYPE_SVARINT = EncSvarint"
  "PB_ENCODERS ! unat PB_LTYPE_FIXED32 = EncFixed32" "PB_ENCODERS ! unat PB_LTYPE_FIXED64 = EncFixed64"
  "PB_ENCODERS ! unat PB_LTYPE_BYTES = EncBytes" "PB_ENCODERS ! unat PB_LTYPE_STRING = EncString"
  "PB_ENCODERS ! unat PB_LTYPE_SUBMESSAGE = EncSubmessage"
  "PB_ENCODERS ! unat PB_LTYPE_FIXED_LENGTH_BYTES = EncFixedLengthBytes"
  by (simp_all add: ltype_constants PB_ENCODERS_def)

text \<open>What \<open>value_at\<close> reads, by the type of the field.\<close>

lemma value_at_cases:
  assumes "value_at sub m f p = Some v"
  obtains (bool) b where "PB_LTYPE (field_type f) = PB_LTYPE_BOOL" "m p = Some b" "v = Varint (if b = 0 then 0 else 1)"
  | (varint) x where "PB_LTYPE (field_type f) = PB_LTYPE_VARINT" "load_signed m p (data_size f) = Some (Some x)" "v = Varint x"
  | (uvarint) x where "PB_LTYPE (field_type f) = PB_LTYPE_UVARINT" "load_unsigned m p (data_size f) = Some (Some x)" "v = Varint x"
  | (svarint) x where "PB_LTYPE (field_type f) = PB_LTYPE_SVARINT" "load_signed m p (data_size f) = Some (Some x)" "v = Varint (zigzag x)"
  | (fixed32) bs where "PB_LTYPE (field_type f) = PB_LTYPE_FIXED32" "load_bytes m p 4 = Some bs" "v = Fixed32 bs"
  | (fixed64) bs where "PB_LTYPE (field_type f) = PB_LTYPE_FIXED64" "load_bytes m p 8 = Some bs" "v = Fixed64 bs"
  | (no_bytes) "PB_LTYPE (field_type f) = PB_LTYPE_BYTES" "p = 0" "v = Delimited []"
  | (bytes) n q bs where "PB_LTYPE (field_type f) = PB_LTYPE_BYTES" "p \<noteq> 0" "load_le 4 m p = Some (n :: u32)"
      "\<not> (PB_ATYPE (field_type f) = PB_ATYPE_STATIC \<and> ucast (data_size f) - 4 < (ucast n :: u64))"
      "ptr_add p 4 = Some q" "load_bytes m q (unat n) = Some bs" "v = Delimited bs"
  | (no_string) "PB_LTYPE (field_type f) = PB_LTYPE_STRING" "p = 0" "v = Delimited []"
  | (string) bs where "PB_LTYPE (field_type f) = PB_LTYPE_STRING" "p \<noteq> 0" "c_string (string_limit f) m p = Some bs" "v = Delimited bs"
  | (submessage) bs where "PB_LTYPE (field_type f) = PB_LTYPE_SUBMESSAGE" "field_ptr f \<noteq> 0" "sub (field_ptr f) p = Some bs" "v = Delimited bs"
  | (fixed_length) bs where "PB_LTYPE (field_type f) = PB_LTYPE_FIXED_LENGTH_BYTES" "load_bytes m p (unat (data_size f)) = Some bs" "v = Delimited bs"
proof -
  let ?t = "PB_LTYPE (field_type f)"
  have none: "?t \<in> {PB_LTYPE_BOOL, PB_LTYPE_VARINT, PB_LTYPE_UVARINT, PB_LTYPE_SVARINT, PB_LTYPE_FIXED32,
      PB_LTYPE_FIXED64, PB_LTYPE_BYTES, PB_LTYPE_STRING, PB_LTYPE_SUBMESSAGE, PB_LTYPE_FIXED_LENGTH_BYTES}"
  proof (rule ccontr)
    assume "\<not> ?thesis"
    then have "value_at sub m f p = None" by (simp add: value_at_def)
    then show False using assms by simp
  qed
  then consider "?t = PB_LTYPE_BOOL" | "?t = PB_LTYPE_VARINT" | "?t = PB_LTYPE_UVARINT" | "?t = PB_LTYPE_SVARINT" | "?t = PB_LTYPE_FIXED32" | "?t = PB_LTYPE_FIXED64" | "?t = PB_LTYPE_BYTES" | "?t = PB_LTYPE_STRING" | "?t = PB_LTYPE_SUBMESSAGE" | "?t = PB_LTYPE_FIXED_LENGTH_BYTES"
    by blast
  then show thesis
  proof cases
    case 1
    with assms show ?thesis
      by (auto simp: value_at_def ltype_constants bind_eq_Some_conv simp del: load_bytes_numeral
          intro: bool split: if_splits)
  next
    case 2
    with assms show ?thesis
      by (auto simp: value_at_def ltype_constants bind_eq_Some_conv simp del: load_bytes_numeral
          intro: varint split: if_splits)
  next
    case 3
    with assms show ?thesis
      by (auto simp: value_at_def ltype_constants bind_eq_Some_conv simp del: load_bytes_numeral
          intro: uvarint split: if_splits)
  next
    case 4
    with assms show ?thesis
      by (auto simp: value_at_def ltype_constants bind_eq_Some_conv simp del: load_bytes_numeral
          intro: svarint split: if_splits)
  next
    case 5
    with assms show ?thesis
      by (auto simp: value_at_def ltype_constants bind_eq_Some_conv simp del: load_bytes_numeral
          intro: fixed32 split: if_splits)
  next
    case 6
    with assms show ?thesis
      by (auto simp: value_at_def ltype_constants bind_eq_Some_conv simp del: load_bytes_numeral
          intro: fixed64 split: if_splits)
  next
    case 7
    with assms show ?thesis
      by (auto simp: value_at_def ltype_constants bind_eq_Some_conv simp del: load_bytes_numeral
          intro: no_bytes bytes split: if_splits)
  next
    case 8
    with assms show ?thesis
      by (auto simp: value_at_def ltype_constants bind_eq_Some_conv simp del: load_bytes_numeral
          intro: no_string string split: if_splits)
  next
    case 9
    with assms show ?thesis
      by (auto simp: value_at_def ltype_constants bind_eq_Some_conv simp del: load_bytes_numeral
          intro: submessage split: if_splits)
  next
    case 10
    with assms show ?thesis
      by (auto simp: value_at_def ltype_constants bind_eq_Some_conv simp del: load_bytes_numeral
          intro: fixed_length split: if_splits)
  qed
qed

lemma emits_value:
  assumes v: "value_at sub (env_memory e) f p = Some v"
    and sub: "\<And>descr p bs. sub descr p = Some bs \<Longrightarrow> emits (\<lambda>s out. enc s out descr p) bs"
  shows "emits (\<lambda>s out. call_encoder e enc (PB_ENCODERS ! unat (PB_LTYPE (field_type f))) s out f p) (payload v)"
  using v
proof (cases rule: value_at_cases)
  case (bool b)
  then show ?thesis
    using emits_varint [of e "if b \<noteq> 0 then 1 else 0"]
    by (auto simp: encoder_constants pb_enc_bool_def safe_read_bool_def)
next
  case (varint x)
  then show ?thesis using emits_varint [of e x] by (simp add: encoder_constants pb_enc_varint_def)
next
  case (uvarint x)
  then show ?thesis using emits_varint [of e x] by (simp add: encoder_constants pb_enc_uvarint_def)
next
  case (svarint x)
  then show ?thesis
    using emits_varint [of e "zigzag x"] by (simp add: encoder_constants pb_enc_svarint_def svarint_zigzag)
next
  case (fixed32 bs)
  then have "bytes_at (env_memory e) p bs" "length bs = 4" by (simp_all only: load_bytes_iff)
  from emits_fixed32 [OF this] fixed32 show ?thesis
    by (simp add: encoder_constants pb_enc_fixed32_def del: load_bytes_numeral)
next
  case (fixed64 bs)
  then have "bytes_at (env_memory e) p bs" "length bs = 8" by (simp_all only: load_bytes_iff)
  from emits_fixed64 [OF this] fixed64 show ?thesis
    by (simp add: encoder_constants pb_enc_fixed64_def del: load_bytes_numeral)
next
  case no_bytes
  then show ?thesis
    using emits_string [of e 0 "[]" 0] by (simp add: encoder_constants pb_enc_bytes_def)
next
  case (bytes n q bs)
  then have "bytes_at (env_memory e) q bs" "unat (ucast n :: u64) = length bs"
    by (simp_all add: load_bytes_iff unat_ucast_up)
  from emits_string [OF this] bytes show ?thesis
    by (simp add: encoder_constants pb_enc_bytes_def offsetof_bytes_def if_not_P [OF bytes(4)]
        del: load_bytes_numeral)
next
  case no_string
  then show ?thesis
    using emits_string [of e 0 "[]" 0] by (simp add: encoder_constants pb_enc_string_def)
next
  case (string bs)
  note cs = c_string_bytes_at [OF string(3)]
  then have "unat (of_nat (length bs) :: u64) = length bs"
    using bytes_at_end [of "env_memory e" p bs] unat_add_of_nat [of 0 "length bs"] by simp
  from emits_string [OF conjunct1 [OF cs] this] cs string show ?thesis
    by (simp add: encoder_constants pb_enc_string_def string_limit_def)
next
  case (submessage bs)
  then show ?thesis
    using emits_submessage [of enc "field_ptr f" p bs e] sub [OF submessage(3)] by (simp add: encoder_constants pb_enc_submessage_def)
next
  case (fixed_length bs)
  then have "bytes_at (env_memory e) p bs" "unat (ucast (data_size f) :: u64) = length bs"
    by (simp_all add: load_bytes_iff unat_ucast_up)
  from emits_string [OF this] fixed_length show ?thesis
    by (simp add: encoder_constants pb_enc_fixed_length_bytes_def)
qed

lemma emits_tag_for_field:
  assumes "value_at sub m f p = Some v"
  shows "emits (\<lambda>s out. pb_encode_tag_for_field e s out f) (tag_bytes (field_tag f) (wire_type v))"
proof -
  note tags = emits_tag [of 0 e "field_tag f"] emits_tag [of 1 e "field_tag f"]
    emits_tag [of 2 e "field_tag f"] emits_tag [of 5 e "field_tag f"]
  from assms show ?thesis
    by (cases rule: value_at_cases)
      (use tags in \<open>simp_all add: pb_encode_tag_for_field_def ltype_constants
        PB_WT_VARINT_def PB_WT_64BIT_def PB_WT_STRING_def PB_WT_32BIT_def\<close>)
qed

section \<open>The content of a message\<close>

text \<open>The address of the value of an array entry: the arrays of strings and of bytes that are
  allocated hold pointers.\<close>

definition entry_data :: "memory \<Rightarrow> pb_field \<Rightarrow> addr \<Rightarrow> addr option" where
  "entry_data m f p =
     (if PB_ATYPE (field_type f) = PB_ATYPE_POINTER \<and>
         (PB_LTYPE (field_type f) = PB_LTYPE_STRING \<or> PB_LTYPE (field_type f) = PB_LTYPE_BYTES)
      then load_le 8 m p else Some p)"

fun entry_values ::
    "(addr \<Rightarrow> addr option) \<Rightarrow> (addr \<Rightarrow> wire_value option) \<Rightarrow> u64 \<Rightarrow> nat \<Rightarrow> addr \<Rightarrow> wire_value list option" where
  "entry_values data val w 0 p = Some []"
| "entry_values data val w (Suc k) p =
     do { src \<leftarrow> data p; v \<leftarrow> val src; q \<leftarrow> ptr_add p w;
          vs \<leftarrow> entry_values data val w k q; Some (v # vs) }"

definition singular :: "pb_field \<Rightarrow> wire_value option \<Rightarrow> (u32 \<times> wire_value) list option" where
  "singular f r = map_option (\<lambda>v. [(field_tag f, v)]) r"

definition repeated ::
    "(addr \<Rightarrow> addr \<Rightarrow> byte list option) \<Rightarrow> memory \<Rightarrow> pb_field \<Rightarrow> addr \<Rightarrow> u32 \<Rightarrow>
     (u32 \<times> wire_value) list option" where
  "repeated sub m f p count =
     (if count = 0 then Some []
      else if PB_ATYPE (field_type f) \<noteq> PB_ATYPE_POINTER \<and> array_size f < count then None
      else if PB_LTYPE (field_type f) \<le> PB_LTYPE_LAST_PACKABLE
      then map_option (\<lambda>vs. [(field_tag f, Delimited (concat (map payload vs)))])
             (entry_values Some (value_at sub m f) (ucast (data_size f)) (unat count) p)
      else map_option (map (Pair (field_tag f)))
             (entry_values (entry_data m f) (value_at sub m f) (ucast (data_size f)) (unat count) p))"

text \<open>
  The tagged values of a field whose slot is at \<open>p\<close>, where \<open>flag\<close> is the address of its count or
  presence flag, when it has one, and \<open>data\<close> that of its value.
\<close>

definition basic_view ::
    "(addr \<Rightarrow> addr \<Rightarrow> byte list option) \<Rightarrow> (pb_field \<Rightarrow> addr \<Rightarrow> bool option) \<Rightarrow> memory \<Rightarrow> pb_field \<Rightarrow> addr \<Rightarrow>
     addr option \<Rightarrow> addr \<Rightarrow> (u32 \<times> wire_value) list option" where
  "basic_view sub chk m f p flag data =
     (let h = PB_HTYPE (field_type f); pointer = (PB_ATYPE (field_type f) = PB_ATYPE_POINTER) in
      if h = PB_HTYPE_REQUIRED
      then if data = 0 then None else singular f (value_at sub m f data)
      else if h = PB_HTYPE_OPTIONAL
      then do {
        has \<leftarrow> (case flag of Some q \<Rightarrow> map_option (\<lambda>b. b \<noteq> 0) (m q)
                | None \<Rightarrow> map_option (\<lambda>zero. if pointer then data \<noteq> 0 else \<not> zero) (chk f p));
        if has then singular f (value_at sub m f data) else Some [] }
      else if h = PB_HTYPE_REPEATED
      then do {
        count \<leftarrow> (case flag of Some q \<Rightarrow> load_le 4 m q | None \<Rightarrow> Some (array_size f));
        repeated sub m f data count }
      else do {
        which \<leftarrow> (case flag of Some q \<Rightarrow> load_le 4 m q | None \<Rightarrow> None);
        if which = field_tag f then singular f (value_at sub m f data) else Some [] })"

text \<open>
  A callback or an extension that is set has no value here, as its bytes are the choice of a user
  function.
\<close>

definition field_view ::
    "(addr \<Rightarrow> addr \<Rightarrow> byte list option) \<Rightarrow> (pb_field \<Rightarrow> addr \<Rightarrow> bool option) \<Rightarrow> memory \<Rightarrow> pb_field \<Rightarrow> addr \<Rightarrow>
     (u32 \<times> wire_value) list option" where
  "field_view sub chk m f p =
     (let ty = field_type f; pointer = (PB_ATYPE ty = PB_ATYPE_POINTER) in
      if PB_LTYPE ty = PB_LTYPE_EXTENSION \<or> PB_ATYPE ty = PB_ATYPE_CALLBACK
      then do { q \<leftarrow> (load_le 8 m p :: addr option); if q = 0 then Some [] else None }
      else if PB_ATYPE ty \<noteq> PB_ATYPE_STATIC \<and> \<not> pointer \<or> length PB_ENCODERS \<le> unat (PB_LTYPE ty)
      then None
      else do {
        flag \<leftarrow> (if size_offset f \<noteq> 0 then map_option Some (ptr_sadd p (size_offset f)) else Some None);
        data \<leftarrow> (if pointer then load_le 8 m p else Some p);
        basic_view sub chk m f p flag data })"

text \<open>The positions of the descriptors of a message, with the addresses of the data.\<close>

partial_function (option) fields_from :: "memory \<Rightarrow> pb_field_iter \<Rightarrow> (addr \<times> addr) list option" where
  "fields_from m iter =
     do { (more, iter') \<leftarrow> pb_field_iter_next m iter;
          if more then do { rest \<leftarrow> fields_from m iter'; Some ((iter_pos iter, iter_pData iter) # rest) }
          else Some [(iter_pos iter, iter_pData iter)] }"

definition message_fields :: "memory \<Rightarrow> addr \<Rightarrow> addr \<Rightarrow> (addr \<times> addr) list option" where
  "message_fields m descr src =
     do { (nonempty, iter) \<leftarrow> pb_field_iter_begin m descr src;
          if nonempty then fields_from m iter else Some [] }"

fun collect :: "(addr \<times> addr \<Rightarrow> 'a list option) \<Rightarrow> (addr \<times> addr) list \<Rightarrow> 'a list option" where
  "collect view [] = Some []"
| "collect view (x # xs) = do { ys \<leftarrow> view x; zs \<leftarrow> collect view xs; Some (ys @ zs) }"

text \<open>The view of a field of the message.\<close>

definition view_of ::
    "(addr \<Rightarrow> addr \<Rightarrow> byte list option) \<Rightarrow> (pb_field \<Rightarrow> addr \<Rightarrow> bool option) \<Rightarrow> memory \<Rightarrow> addr \<times> addr \<Rightarrow>
     (u32 \<times> wire_value) list option" where
  "view_of sub chk m = (\<lambda>(pos, p). do { f \<leftarrow> field_at m pos; field_view sub chk m f p })"

fun message_view :: "nat \<Rightarrow> memory \<Rightarrow> addr \<Rightarrow> addr \<Rightarrow> (u32 \<times> wire_value) list option" where
  "message_view 0 m descr src = None"
| "message_view (Suc n) m descr src =
     do { fields \<leftarrow> message_fields m descr src;
          collect (view_of (\<lambda>d q. map_option wire_bytes (message_view n m d q))
             (pb_check_proto3_default_value n m) m) fields }"

section \<open>The encoder writes the content of the message\<close>

lemma wire_bytes_simps [simp]:
  "wire_bytes [] = []"
  "wire_bytes ((tag, v) # rs) = tag_bytes tag (wire_type v) @ payload v @ wire_bytes rs"
  "wire_bytes (rs @ rs') = wire_bytes rs @ wire_bytes rs'"
  by (simp_all add: wire_bytes_def)

lemma emits_value_record:
  assumes v: "value_at sub (env_memory e) f p = Some v"
    and sub: "\<And>descr p bs. sub descr p = Some bs \<Longrightarrow> emits (\<lambda>s out. enc s out descr p) bs"
  shows "emits (\<lambda>s out. and_ok (pb_encode_tag_for_field e s out f)
     (\<lambda>s out. call_encoder e enc (PB_ENCODERS ! unat (PB_LTYPE (field_type f))) s out f p))
     (wire_bytes [(field_tag f, v)])"
  using emits_sequence [OF emits_tag_for_field [OF v] emits_value [OF v sub]] by simp

lemma emits_unpacked_loop:
  assumes sub: "\<And>descr p bs. sub descr p = Some bs \<Longrightarrow> emits (\<lambda>s out. enc s out descr p) bs"
  shows "entry_values (entry_data (env_memory e) f) (value_at sub (env_memory e) f) (ucast (data_size f)) k p = Some vs \<Longrightarrow>
    emits (\<lambda>s out. unpacked_loop k e enc (PB_ENCODERS ! unat (PB_LTYPE (field_type f))) s out f p)
      (wire_bytes (map (Pair (field_tag f)) vs))"
proof (induction k arbitrary: p vs)
  case 0
  then show ?case by (simp add: emits_nothing)
next
  case (Suc k)
  then obtain src v q vs' where 1: "entry_data (env_memory e) f p = Some src"
    "value_at sub (env_memory e) f src = Some v" "ptr_add p (ucast (data_size f)) = Some q"
    "entry_values (entry_data (env_memory e) f) (value_at sub (env_memory e) f) (ucast (data_size f)) k q = Some vs'"
    "vs = v # vs'"
    by (auto simp: bind_eq_Some_conv)
  let ?call = "\<lambda>s out. call_encoder e enc (PB_ENCODERS ! unat (PB_LTYPE (field_type f))) s out f src"
  let ?rest = "\<lambda>s out. unpacked_loop k e enc (PB_ENCODERS ! unat (PB_LTYPE (field_type f))) s out f q"
  have "emits (\<lambda>s out. and_ok (pb_encode_tag_for_field e s out f) (\<lambda>s out. and_ok (?call s out) ?rest))
    (tag_bytes (field_tag f) (wire_type v) @ payload v @ wire_bytes (map (Pair (field_tag f)) vs'))"
    by (intro emits_sequence emits_tag_for_field [OF 1(2)] emits_value [OF 1(2) sub] Suc.IH [OF 1(4)])
  then show ?case using 1 by (simp add: entry_data_def cong: if_cong)
qed

lemma emits_packed_loop:
  assumes sub: "\<And>descr p bs. sub descr p = Some bs \<Longrightarrow> emits (\<lambda>s out. enc s out descr p) bs"
  shows "entry_values Some (value_at sub (env_memory e) f) (ucast (data_size f)) k p = Some vs \<Longrightarrow>
    emits (\<lambda>s out. packed_loop k e enc (PB_ENCODERS ! unat (PB_LTYPE (field_type f))) s out f p)
      (concat (map payload vs))"
proof (induction k arbitrary: p vs)
  case 0
  then show ?case by (simp add: emits_nothing)
next
  case (Suc k)
  then obtain v q vs' where 1: "value_at sub (env_memory e) f p = Some v"
    "ptr_add p (ucast (data_size f)) = Some q"
    "entry_values Some (value_at sub (env_memory e) f) (ucast (data_size f)) k q = Some vs'" "vs = v # vs'"
    by (auto simp: bind_eq_Some_conv)
  from emits_sequence [OF emits_value [OF 1(1) sub] Suc.IH [OF 1(3)]] 1 show ?case by simp
qed

lemma entry_widths:
  "entry_values Some (value_at sub m f) w k p = Some vs \<Longrightarrow>
   PB_LTYPE (field_type f) = PB_LTYPE_FIXED32 \<and> x = 4 \<or> PB_LTYPE (field_type f) = PB_LTYPE_FIXED64 \<and> x = 8 \<Longrightarrow>
   length (concat (map payload vs)) = x * k"
proof (induction k arbitrary: p vs)
  case 0
  then show ?case by simp
next
  case (Suc k)
  then obtain v q vs' where 1: "value_at sub m f p = Some v"
    "entry_values Some (value_at sub m f) w k q = Some vs'" "vs = v # vs'"
    by (auto simp: bind_eq_Some_conv)
  have "length (payload v) = x"
    using Suc.prems(2) 1(1)
    by (auto simp: value_at_def ltype_constants load_bytes_iff simp del: load_bytes_numeral)
  then show ?case using Suc.IH [OF 1(2) Suc.prems(2)] 1(3) by simp
qed

lemma emits_packed:
  assumes sub: "\<And>descr p bs. sub descr p = Some bs \<Longrightarrow> emits (\<lambda>s out. enc s out descr p) bs"
    and vs: "entry_values Some (value_at sub (env_memory e) f) (ucast (data_size f)) (unat count) p = Some vs"
    and count: "unat count < 2 ^ 32"
  shows "emits (\<lambda>s out. encode_packed e enc s out f p count (PB_ENCODERS ! unat (PB_LTYPE (field_type f))))
    (wire_bytes [(field_tag f, Delimited (concat (map payload vs)))])"
proof -
  let ?bs = "concat (map payload vs)" and ?func = "PB_ENCODERS ! unat (PB_LTYPE (field_type f))"
  let ?loop = "\<lambda>s out. packed_loop (unat count) e enc ?func s out f p"
  note loop = emits_packed_loop [OF sub vs]
  have measured: "packed_size e enc ?func out f p count = Some (True, of_nat (length ?bs), out)"
    if "length ?bs < 2 ^ 64" for out
  proof -
    consider (four) "PB_LTYPE (field_type f) = PB_LTYPE_FIXED32" | (eight) "PB_LTYPE (field_type f) = PB_LTYPE_FIXED64"
      | (other) "PB_LTYPE (field_type f) \<noteq> PB_LTYPE_FIXED32" "PB_LTYPE (field_type f) \<noteq> PB_LTYPE_FIXED64"
      by blast
    then show ?thesis
    proof cases
      case four
      then have "length ?bs = 4 * unat count" using entry_widths [OF vs] by blast
      then show ?thesis using four by (simp add: packed_size_def)
    next
      case eight
      then have "length ?bs = 8 * unat count" using entry_widths [OF vs] by blast
      then show ?thesis using eight by (simp add: packed_size_def ltype_constants)
    next
      case other
      have "has_room PB_OSTREAM_SIZING out (length ?bs)" using that by (simp add: has_room_def)
      from emitsD [OF loop this] other show ?thesis
        by (simp add: packed_size_def emit_def)
    qed
  qed
  define n :: u64 where "n = of_nat (length ?bs)"
  have n: "unat n = length ?bs" if "length ?bs < 2 ^ 64"
    using unat_add_of_nat [of 0 "length ?bs"] that by (simp add: n_def)
  let ?body = "\<lambda>s out. if os_callback s = NoCallback then pb_write e s out (LocalArray []) n else ?loop s out"
  have body: "emits ?body ?bs"
    unfolding emits_def
  proof (intro allI impI)
    fix s out assume "has_room s out (length ?bs)"
    then show "?body s out = emit s out ?bs"
      using emitsD [OF loop] by (simp add: pb_write_def emit_def n_def)
  qed
  let ?rest = "\<lambda>s out. do {
     (ok, n, out) \<leftarrow> packed_size e enc ?func out f p count;
     if \<not> ok then Some (False, s, out)
     else and_ok (pb_encode_varint e s out n)
       (\<lambda>s out. if os_callback s = NoCallback then pb_write e s out (LocalArray []) n else ?loop s out) }"
  have "emits ?rest (base128 (length ?bs) @ ?bs)"
    unfolding emits_def
  proof (intro allI impI)
    fix s out assume room: "has_room s out (length (base128 (length ?bs) @ ?bs))"
    then have len: "length ?bs < 2 ^ 64" using has_room_count [OF room] by simp
    from emitsD [OF emits_sequence [OF emits_varint [of e n] body]] room
    show "?rest s out = emit s out (base128 (length ?bs) @ ?bs)"
      unfolding measured [OF len] n [OF len] by (simp add: n_def cong: if_cong)
  qed
  moreover have "emits (\<lambda>s out. pb_encode_tag e s out PB_WT_STRING (field_tag f)) (tag_bytes (field_tag f) 2)"
    using emits_tag [of 2 e "field_tag f"] by (simp add: PB_WT_STRING_def)
  ultimately have "emits (\<lambda>s out. and_ok (pb_encode_tag e s out PB_WT_STRING (field_tag f)) ?rest)
    (tag_bytes (field_tag f) 2 @ base128 (length ?bs) @ ?bs)"
    by (intro emits_sequence)
  then show ?thesis unfolding encode_packed_def by simp
qed

lemma emits_array:
  assumes sub: "\<And>descr p bs. sub descr p = Some bs \<Longrightarrow> emits (\<lambda>s out. enc s out descr p) bs"
    and rs: "repeated sub (env_memory e) f p count = Some rs"
  shows "emits (\<lambda>s out. encode_array e enc s out f p (ucast count) (PB_ENCODERS ! unat (PB_LTYPE (field_type f))))
    (wire_bytes rs)"
proof -
  have u: "unat (ucast x :: u64) = unat x" for x :: u32 by (simp add: unat_ucast_up)
  have zero: "(ucast count :: u64) = 0 \<longleftrightarrow> count = 0" using u [of count] by (metis unat_0 unat_eq_zero)
  have less: "ucast (array_size f) < (ucast count :: u64) \<longleftrightarrow> array_size f < count"
    by (simp add: word_less_nat_alt u)
  have c: "unat (ucast count :: u64) < 2 ^ 32" unfolding u using unsigned_less [of count] by simp
  consider "count = 0" "rs = []"
    | vs where "count \<noteq> 0" "\<not> (PB_ATYPE (field_type f) \<noteq> PB_ATYPE_POINTER \<and> array_size f < count)"
      "PB_LTYPE (field_type f) \<le> PB_LTYPE_LAST_PACKABLE" "rs = [(field_tag f, Delimited (concat (map payload vs)))]"
      "entry_values Some (value_at sub (env_memory e) f) (ucast (data_size f)) (unat count) p = Some vs"
    | vs where "count \<noteq> 0" "\<not> (PB_ATYPE (field_type f) \<noteq> PB_ATYPE_POINTER \<and> array_size f < count)"
      "\<not> PB_LTYPE (field_type f) \<le> PB_LTYPE_LAST_PACKABLE" "rs = map (Pair (field_tag f)) vs"
      "entry_values (entry_data (env_memory e) f) (value_at sub (env_memory e) f) (ucast (data_size f)) (unat count) p = Some vs"
    using rs unfolding repeated_def by (auto split: if_splits)
  then show ?thesis
  proof cases
    case 1
    then show ?thesis by (simp add: encode_array_def emits_nothing)
  next
    case 2
    then show ?thesis
      using emits_packed [OF sub, where f = f and p = p and vs = vs and count = "ucast count"] c unfolding encode_array_def zero less if_not_P [OF 2(1)] if_not_P [OF 2(2)]
      by (simp add: u)
  next
    case 3
    then show ?thesis
      using emits_unpacked_loop [OF sub 3(5)] unfolding encode_array_def zero less if_not_P [OF 3(1)] if_not_P [OF 3(2)]
      by (simp add: u)
  qed
qed

lemma emits_basic_field:
  assumes sub: "\<And>descr p bs. sub descr p = Some bs \<Longrightarrow> emits (\<lambda>s out. enc s out descr p) bs"
    and rs: "field_view sub chk (env_memory e) f p = Some rs"
    and atype: "PB_ATYPE (field_type f) = PB_ATYPE_STATIC \<or> PB_ATYPE (field_type f) = PB_ATYPE_POINTER"
    and ltype: "PB_LTYPE (field_type f) \<noteq> PB_LTYPE_EXTENSION" "unat (PB_LTYPE (field_type f)) < length PB_ENCODERS"
  shows "emits (\<lambda>s out. encode_basic_field e enc chk s out f p) (wire_bytes rs)"
proof -
  let ?m = "env_memory e" and ?ty = "field_type f"
  let ?pointer = "PB_ATYPE ?ty = PB_ATYPE_POINTER"
  have cb: "PB_ATYPE ?ty \<noteq> PB_ATYPE_CALLBACK"
    using atype by (auto simp: PB_ATYPE_STATIC_def PB_ATYPE_POINTER_def PB_ATYPE_CALLBACK_def)
  have "field_view sub chk ?m f p = do {
      flag \<leftarrow> (if size_offset f \<noteq> 0 then map_option Some (ptr_sadd p (size_offset f)) else Some None);
      data \<leftarrow> (if ?pointer then load_le 8 ?m p else Some p);
      basic_view sub chk ?m f p flag data }"
    using ltype cb atype by (auto simp: field_view_def)
  with rs obtain flag data where
    flag: "(if size_offset f \<noteq> 0 then map_option Some (ptr_sadd p (size_offset f)) else Some None) = Some flag"
    and data: "(if ?pointer then load_le 8 ?m p else Some p) = Some data"
    and view: "basic_view sub chk ?m f p flag data = Some rs"
    by (simp only: bind_eq_Some_conv) blast
  let ?call = "\<lambda>s out. and_ok (pb_encode_tag_for_field e s out f)
     (\<lambda>s out. call_encoder e enc (PB_ENCODERS ! unat (PB_LTYPE ?ty)) s out f data)"
  have single: "emits ?call (wire_bytes rs)" if "singular f (value_at sub ?m f data) = Some rs"
    using that emits_value_record [OF _ sub] by (auto simp: singular_def)
  note htypes = PB_HTYPE_REQUIRED_def PB_HTYPE_OPTIONAL_def PB_HTYPE_REPEATED_def
  have known: "\<not> \<not> unat (PB_LTYPE ?ty) < length PB_ENCODERS" using ltype by simp
  note code = encode_basic_field_def [of e enc chk _ _ f p, unfolded Let_def, unfolded if_not_P [OF known]
      flag data bind.bind_lunit]
  consider (required) "PB_HTYPE ?ty = PB_HTYPE_REQUIRED" | (optional) "PB_HTYPE ?ty = PB_HTYPE_OPTIONAL"
    | (repeated) "PB_HTYPE ?ty = PB_HTYPE_REPEATED"
    | (oneof) "PB_HTYPE ?ty \<noteq> PB_HTYPE_REQUIRED" "PB_HTYPE ?ty \<noteq> PB_HTYPE_OPTIONAL"
      "PB_HTYPE ?ty \<noteq> PB_HTYPE_REPEATED"
    by blast
  then show ?thesis
  proof cases
    case required
    then have "data \<noteq> 0" "singular f (value_at sub ?m f data) = Some rs"
      using view by (auto simp: basic_view_def split: if_splits)
    then show ?thesis
      using single required unfolding code by (simp add: htypes)
  next
    case optional
    then have "\<exists>has implicit. (if has then singular f (value_at sub ?m f data) else Some []) = Some rs \<and>
        (if size_offset f \<noteq> 0 then Some False else map_option Not (chk f p)) = Some implicit \<and>
        (case flag of None \<Rightarrow> Some (if ?pointer then data \<noteq> 0 else implicit) | Some q \<Rightarrow> safe_read_bool ?m q) = Some has"
      using view flag
      by (auto simp: basic_view_def htypes safe_read_bool_def bind_eq_Some_conv split: option.splits if_splits)
    then obtain has implicit where has: "(if has then singular f (value_at sub ?m f data) else Some []) = Some rs"
        "(if size_offset f \<noteq> 0 then Some False else map_option Not (chk f p)) = Some implicit"
        "(case flag of None \<Rightarrow> Some (if ?pointer then data \<noteq> 0 else implicit) | Some q \<Rightarrow> safe_read_bool ?m q) = Some has"
      by blast
    have distinct: "PB_HTYPE_OPTIONAL \<noteq> PB_HTYPE_REQUIRED" by (simp add: htypes)
    show ?thesis
      using single has(1) emits_nothing
      unfolding code optional if_not_P [OF distinct] if_P [OF refl] has(2) bind.bind_lunit has(3)
      by (cases has) simp_all
  next
    case repeated
    then obtain count where count: "(case flag of Some q \<Rightarrow> load_le 4 ?m q | None \<Rightarrow> Some (array_size f)) = Some count"
      "repeated sub ?m f data count = Some rs"
      using view by (auto simp: basic_view_def htypes bind_eq_Some_conv)
    have distinct: "PB_HTYPE_REPEATED \<noteq> PB_HTYPE_REQUIRED" "PB_HTYPE_REPEATED \<noteq> PB_HTYPE_OPTIONAL"
      by (simp_all add: htypes)
    have implicit: "(if size_offset f \<noteq> 0 then Some False else Some True) = Some (size_offset f = 0)" by simp
    show ?thesis
      using emits_array [OF sub count(2)]
      unfolding code repeated if_not_P [OF distinct(1)] if_not_P [OF distinct(2)] if_P [OF refl] implicit
        bind.bind_lunit count(1) .
  next
    case oneof
    then obtain which where which: "(case flag of Some q \<Rightarrow> load_le 4 ?m q | None \<Rightarrow> None) = Some which"
      "(if which = field_tag f then singular f (value_at sub ?m f data) else Some []) = Some rs"
      using view by (auto simp: basic_view_def bind_eq_Some_conv)
    have implicit: "(if size_offset f \<noteq> 0 then Some False else Some True) = Some (size_offset f = 0)" by simp
    show ?thesis
      using single which(2) emits_nothing
      unfolding code if_not_P [OF oneof(1)] if_not_P [OF oneof(2)] if_not_P [OF oneof(3)] implicit
        bind.bind_lunit which(1)
      by (cases "which = field_tag f") simp_all
  qed
qed

lemma emits_one:
  assumes sub: "\<And>descr p bs. sub descr p = Some bs \<Longrightarrow> emits (\<lambda>s out. enc s out descr p) bs"
    and f: "field_at (env_memory e) (iter_pos iter) = Some f"
    and rs: "field_view sub chk (env_memory e) f (iter_pData iter) = Some rs"
  shows "emits (\<lambda>s out. encode_one n e enc chk s out iter) (wire_bytes rs)"
proof -
  let ?ty = "field_type f" and ?m = "env_memory e" and ?p = "iter_pData iter"
  consider (extension) "PB_LTYPE ?ty = PB_LTYPE_EXTENSION"
    | (callback) "PB_LTYPE ?ty \<noteq> PB_LTYPE_EXTENSION" "PB_ATYPE ?ty = PB_ATYPE_CALLBACK"
    | (basic) "PB_LTYPE ?ty \<noteq> PB_LTYPE_EXTENSION" "PB_ATYPE ?ty \<noteq> PB_ATYPE_CALLBACK"
    by blast
  then show ?thesis
  proof cases
    case extension
    then have "load_le 8 ?m ?p = Some (0 :: addr)" "rs = []"
      using rs by (auto simp: field_view_def bind_eq_Some_conv split: if_splits)
    then show ?thesis
      using extension f emits_nothing
      by (cases n) (simp_all add: encode_one_def encode_extension_field_def)
  next
    case callback
    then have "load_le 8 ?m ?p = Some (0 :: addr)" "rs = []"
      using rs by (auto simp: field_view_def bind_eq_Some_conv split: if_splits)
    then show ?thesis
      using callback f emits_nothing
      by (simp add: encode_one_def encode_field_def encode_callback_field_def
          PB_ATYPE_STATIC_def PB_ATYPE_POINTER_def PB_ATYPE_CALLBACK_def)
  next
    case basic
    then have atype: "PB_ATYPE ?ty = PB_ATYPE_STATIC \<or> PB_ATYPE ?ty = PB_ATYPE_POINTER"
      and l: "unat (PB_LTYPE ?ty) < length PB_ENCODERS"
      using rs by (auto simp: field_view_def Let_def split: if_splits)
    show ?thesis
      using emits_basic_field [OF sub rs atype basic(1) l] basic(1) f atype
      by (simp add: encode_one_def encode_field_def)
  qed
qed

lemma emits_loop:
  assumes sub: "\<And>descr p bs. sub descr p = Some bs \<Longrightarrow> emits (\<lambda>s out. enc s out descr p) bs"
  shows "fields_from (env_memory e) iter = Some fps \<Longrightarrow>
    collect (view_of sub chk (env_memory e)) fps = Some rs \<Longrightarrow>
    emits (\<lambda>s out. encode_loop n e enc chk s out iter) (wire_bytes rs)"
proof (induction fps arbitrary: iter rs)
  case Nil
  have "fields_from (env_memory e) iter \<noteq> Some []"
    by (subst fields_from.simps) (auto simp: bind_eq_Some_conv split: if_splits)
  then show ?case using Nil.prems by simp
next
  case (Cons fp fps)
  from Cons.prems(1) obtain more iter' where
    step: "pb_field_iter_next (env_memory e) iter = Some (more, iter')" "fp = (iter_pos iter, iter_pData iter)"
    "if more then fields_from (env_memory e) iter' = Some fps else fps = []"
    by (subst (asm) fields_from.simps) (auto simp: bind_eq_Some_conv split: if_splits)
  from Cons.prems(2) step(2) obtain f ys zs where
    view: "field_at (env_memory e) (iter_pos iter) = Some f"
    "field_view sub chk (env_memory e) f (iter_pData iter) = Some ys"
    "collect (view_of sub chk (env_memory e)) fps = Some zs" "rs = ys @ zs"
    by (auto simp: bind_eq_Some_conv view_of_def)
  have "emits (\<lambda>s out. do { (more, iter) \<leftarrow> pb_field_iter_next (env_memory e) iter;
          if more then encode_loop n e enc chk s out iter else Some (True, s, out) }) (wire_bytes zs)"
    using step view(3) Cons.IH emits_nothing by (cases more) auto
  from emits_sequence [OF emits_one [OF sub view(1,2)] this] show ?case
    unfolding view(4) wire_bytes_simps by (subst encode_loop_and_ok)
qed

lemma emits_message:
  "message_view n (env_memory e) descr src = Some rs \<Longrightarrow>
   emits (\<lambda>s out. pb_encode n e s out descr src) (wire_bytes rs)"
proof (induction n arbitrary: descr src rs)
  case 0
  then show ?case by simp
next
  case (Suc n)
  let ?sub = "\<lambda>d q. map_option wire_bytes (message_view n (env_memory e) d q)"
  have sub: "emits (\<lambda>s out. pb_encode n e s out d q) bs" if "?sub d q = Some bs" for d q bs
    using that Suc.IH by auto
  from Suc.prems obtain nonempty iter fps where 1:
    "pb_field_iter_begin (env_memory e) descr src = Some (nonempty, iter)"
    "(if nonempty then fields_from (env_memory e) iter else Some []) = Some fps"
    "collect (view_of ?sub (pb_check_proto3_default_value n (env_memory e)) (env_memory e)) fps = Some rs"
    by (auto simp: message_fields_def bind_eq_Some_conv view_of_def)
  show ?case
  proof (cases nonempty)
    case True
    then show ?thesis
      using 1 emits_loop [of ?sub "pb_encode n e" e iter fps "pb_check_proto3_default_value n (env_memory e)" rs n, OF sub]
      by simp
  next
    case False
    then show ?thesis using 1 emits_nothing by simp
  qed
qed

text \<open>
  C30. \<open>pb_encode\<close> writes the wire format of the message. When the structure has the content \<open>rs\<close>
  (the tagged values of its fields, in the order of the descriptors, submessages and packed arrays
  as delimited values) and the stream has the room, the encoding succeeds, the buffer receives the
  bytes of \<open>rs\<close> at its position and nothing else changes; a sizing stream counts their number.
\<close>

theorem pb_encode_correct:
  assumes "message_view n (env_memory e) descr src = Some rs"
    and "has_room s out (length (wire_bytes rs))"
  shows "pb_encode n e s out descr src = emit s out (wire_bytes rs)"
  by (rule emitsD [OF emits_message [OF assms(1)] assms(2)])

text \<open>
  C31. The encoder stays in the buffer. On a stream over \<open>bufsize\<close> bytes at \<open>buf\<close>, whatever the
  message, the bytes that \<open>pb_encode\<close> changes are the first \<open>bytes_written\<close> from \<open>buf\<close> on, and when
  it returns \<open>true\<close> these are at most \<open>bufsize\<close>. The user functions that the message names are only
  assumed to keep to the run of bytes they report themselves.
\<close>

theorem pb_encode_stays_in_buffer:
  assumes "\<And>func pos arg. confined e (\<lambda>s out. call_encode e func s out pos arg)"
    and "\<And>func ext. confined e (\<lambda>s out. call_ext_encode e func s out ext)"
    and "pb_encode n e (pb_ostream_from_buffer buf bufsize) out descr src = Some (ok, s, out')"
  shows "(\<forall>a. out' a \<noteq> out a \<longrightarrow> unat buf \<le> unat a \<and> unat a < unat buf + unat (os_bytes_written s)) \<and>
    dom out' = dom out \<and> os_state s = buf + os_bytes_written s \<and>
    (ok \<longrightarrow> os_bytes_written s \<le> bufsize)"
proof -
  have "confined e (\<lambda>s out. pb_encode n e s out descr src)"
    using assms(1,2) by (rule containment.message)
  then have "within (pb_ostream_from_buffer buf bufsize) out ok s out'"
    using assms(3) by (simp add: confined_def)
  then obtain k where k: "advanced (pb_ostream_from_buffer buf bufsize) out s out' k"
    "ok \<longrightarrow> os_bytes_written s \<le> bufsize"
    by (auto simp: within_def pb_ostream_from_buffer_def)
  then have "unat (os_state s) = unat buf + unat (os_bytes_written s)"
    by (simp add: advanced_def pb_ostream_from_buffer_def)
  then have "os_state s = buf + os_bytes_written s"
    using unat_add_lt [of buf "os_bytes_written s"] less_exp [of "os_state s"] by (simp add: word_unat_eq_iff)
  then show ?thesis using k by (simp add: advanced_def pb_ostream_from_buffer_def)
qed

text \<open>
  C32. \<open>pb_get_encoded_size\<close> is exact: when it returns a size and \<open>pb_encode\<close> on a buffer returns
  \<open>true\<close> for the same message, then it has written exactly that many bytes, so that a shorter
  buffer is never enough. The user functions are assumed to add the same number to both streams.
\<close>

theorem pb_get_encoded_size_correct:
  assumes "\<And>func pos arg. confined e (\<lambda>s out. call_encode e func s out pos arg)"
    and "\<And>func ext. confined e (\<lambda>s out. call_ext_encode e func s out ext)"
    and "\<And>func pos arg. agreeing e (\<lambda>s out. call_encode e func s out pos arg)"
    and "\<And>func ext. agreeing e (\<lambda>s out. call_ext_encode e func s out ext)"
    and "pb_get_encoded_size n e out descr src = Some (Some sz, out1)"
    and "pb_encode n e (pb_ostream_from_buffer buf bufsize) out2 descr src = Some (True, s, out3)"
  shows "os_bytes_written s = sz \<and> sz \<le> bufsize \<and> out1 = out"
proof -
  have conf: "confined e (\<lambda>s out. pb_encode n e s out descr src)"
    using assms(1,2) by (rule containment.message)
  have "agreeing e (\<lambda>s out. pb_encode n e s out descr src)"
    using assms(3,4) by (rule agreement.message)
  then obtain d where d: "\<And>s out s' out'. plain s \<Longrightarrow> pb_encode n e s out descr src = Some (True, s', out') \<Longrightarrow>
      os_bytes_written s' = os_bytes_written s + d"
    by (rule agreeingE) blast
  from assms(5) obtain z where z: "pb_encode n e PB_OSTREAM_SIZING out descr src = Some (True, z, out1)"
    "sz = os_bytes_written z"
    by (auto simp: pb_get_encoded_size_def bind_eq_Some_conv split: if_splits)
  have "os_bytes_written s = sz"
    using d [OF _ z(1)] d [OF _ assms(6)] z(2) by (simp add: plain_def pb_ostream_from_buffer_def)
  moreover have "os_bytes_written s \<le> bufsize"
  proof -
    have "within (pb_ostream_from_buffer buf bufsize) out2 True s out3"
      using conf assms(6) by (simp add: confined_def)
    then show ?thesis by (simp add: within_def pb_ostream_from_buffer_def)
  qed
  moreover have "out1 = out" by (rule confined_prefix(1) [OF conf z(1)])
  ultimately show ?thesis by simp
qed

section \<open>A message in memory\<close>

lemma fields_from_at:
  assumes "fields_in m start fs" "layout_ok dest fs"
  shows "i < length fs \<Longrightarrow> fields_from m (iterator_at start dest fs i) =
    Some (map (\<lambda>j. (iter_pos (iterator_at start dest fs j), iter_pData (iterator_at start dest fs j))) [i..<length fs])"
proof (induction "length fs - i" arbitrary: i)
  case 0
  then show ?case by simp
next
  case (Suc k)
  have step: "pb_field_iter_next m (iterator_at start dest fs i) =
      Some (Suc i < length fs, iterator_at start dest fs (Suc i mod length fs))"
    by (rule next_at [OF assms Suc.prems])
  have upt: "[i..<length fs] = i # [Suc i..<length fs]" using Suc.prems by (rule upt_conv_Cons)
  show ?case
  proof (cases "Suc i < length fs")
    case True
    then show ?thesis using step upt Suc.hyps by (subst fields_from.simps) simp
  next
    case False
    then show ?thesis using step upt by (subst fields_from.simps) simp
  qed
qed

lemma message_fields_at:
  assumes "fields_in m start fs" "layout_ok dest fs" "fs \<noteq> []"
  shows "message_fields m start dest = Some (map (\<lambda>j. (iter_pos (iterator_at start dest fs j),
    iter_pData (iterator_at start dest fs j))) [0..<length fs])"
  using begin_at [OF assms] fields_from_at [OF assms(1,2), of 0] assms(3)
  by (simp add: message_fields_def)

text \<open>
  The example of the format's documentation: a message whose field 3 is a submessage with the
  number 150 in field 1. The descriptors are followed by the structure.
\<close>

definition inner_field :: pb_field where
  "inner_field = \<lparr>field_tag = 1, field_type = 0x01, data_offset = 0, size_offset = 0, data_size = 4,
     array_size = 0, field_ptr = 0\<rparr>"

definition outer_field :: pb_field where
  "outer_field = \<lparr>field_tag = 3, field_type = 0x08, data_offset = 0, size_offset = 0, data_size = 4,
     array_size = 0, field_ptr = 0x1040\<rparr>"

definition message_memory :: memory where
  "message_memory = mem_of 0x1000
     (descriptor_bytes [outer_field] @ descriptor_bytes [inner_field] @ [150, 0, 0, 0])"

definition message_env :: encoder_env where
  "message_env = \<lparr>env_memory = message_memory, call_write = (\<lambda>f s out bs. None),
     call_encode = (\<lambda>f s out pos arg. None), call_ext_encode = (\<lambda>f s out ext. None)\<rparr>"

lemma message_parts:
  "fields_in message_memory 0x1000 [outer_field]" "fields_in message_memory 0x1040 [inner_field]"
  "bytes_at message_memory 0x1080 [150, 0, 0, 0]"
proof -
  have len: "length (descriptor_bytes [f]) = 64" for f
    by (simp add: descriptor_bytes_def field_bytes_length)
  have "bytes_at message_memory 0x1000
    (descriptor_bytes [outer_field] @ descriptor_bytes [inner_field] @ [150, 0, 0, 0])"
    unfolding message_memory_def by (rule bytes_at_mem_of) (simp add: len)
  then have at: "bytes_at message_memory 0x1000 (descriptor_bytes [outer_field])"
    "bytes_at message_memory 0x1040 (descriptor_bytes [inner_field])"
    "bytes_at message_memory 0x1080 [150, 0, 0, 0]"
    by (simp_all only: bytes_at_append len) (simp_all add: add.assoc)
  show "fields_in message_memory 0x1000 [outer_field]"
    by (rule fields_in_bytes [OF at(1)]) (simp add: outer_field_def)
  show "fields_in message_memory 0x1040 [inner_field]"
    by (rule fields_in_bytes [OF at(2)]) (simp add: inner_field_def)
  show "bytes_at message_memory 0x1080 [150, 0, 0, 0]" by (rule at(3))
qed

lemma message_layout: "layout_ok 0x1080 [outer_field]" "layout_ok 0x1080 [inner_field]"
  by (simp_all add: layout_ok_def outer_field_def inner_field_def Let_def)

lemma message_field_at:
  "field_at message_memory 0x1000 = Some outer_field" "field_at message_memory 0x1040 = Some inner_field"
  using fields_in_nth(1) [OF message_parts(1), of 0] fields_in_nth(1) [OF message_parts(2), of 0] by simp_all

lemma message_iteration:
  "message_fields message_memory 0x1000 0x1080 = Some [(0x1000, 0x1080)]"
  "message_fields message_memory 0x1040 0x1080 = Some [(0x1040, 0x1080)]"
  using message_fields_at [OF message_parts(1) message_layout(1)]
    message_fields_at [OF message_parts(2) message_layout(2)]
  by (simp_all add: iterator_at_def outer_field_def inner_field_def)

lemma message_number: "load_signed message_memory 0x1080 4 = Some (Some 150)"
proof -
  have "load_le 4 message_memory 0x1080 = Some (of_nat (bytes_nat [150, 0, 0, 0]) :: u32)"
    by (rule load_le_bytes [OF message_parts(3)]) simp
  then have "load_le 4 message_memory 0x1080 = Some (150 :: u32)" by (simp del: load_bytes_numeral)
  moreover have "scast (150 :: u32) = (150 :: u64)" using scast_nonneg [of 150] by simp
  ultimately show ?thesis by (simp add: load_signed_def del: load_bytes_numeral)
qed

lemma base128_small: "n < 128 \<Longrightarrow> base128 n = [of_nat n]"
  by (simp add: base128.simps)

lemma base128_150: "base128 150 = [0x96, 0x01]"
  by (subst base128.simps) (simp add: base128_small)

lemma inner_content: "message_view 1 message_memory 0x1040 0x1080 = Some [(1, Varint 150)]"
proof -
  have "field_view sub chk message_memory inner_field 0x1080 = Some [(1, Varint 150)]" for sub chk
    using message_number
    by (simp add: field_view_def basic_view_def value_at_def singular_def inner_field_def PB_LTYPE_defs
        PB_ATYPE_defs PB_HTYPE_defs PB_ENCODERS_def)
  then show ?thesis
    unfolding One_nat_def message_view.simps message_iteration
    by (simp add: view_of_def message_field_at)
qed

lemma inner_bytes: "wire_bytes [(1, Varint 150)] = [0x08, 0x96, 0x01]"
  by (simp add: base128_150 tag_bytes_def base128_small)

lemma message_content:
  "message_view 2 message_memory 0x1000 0x1080 = Some [(3, Delimited [0x08, 0x96, 0x01])]"
proof -
  have view: "field_view sub chk message_memory outer_field 0x1080 =
      map_option (\<lambda>bs. [(3, Delimited bs)]) (sub 0x1040 0x1080)" for sub chk
    by (cases "sub 0x1040 0x1080")
      (simp_all add: field_view_def basic_view_def value_at_def singular_def outer_field_def PB_LTYPE_defs
        PB_ATYPE_defs PB_HTYPE_defs PB_ENCODERS_def)
  have "message_view (Suc 1) message_memory 0x1000 0x1080 = Some [(3, Delimited [0x08, 0x96, 0x01])]"
    unfolding message_view.simps(2) message_iteration bind.bind_lunit collect.simps view_of_def prod.case
      message_field_at view inner_content option.map inner_bytes by simp
  then show ?thesis unfolding numeral_2_eq_2 One_nat_def .
qed

lemma message_bytes:
  "wire_bytes [(3, Delimited [0x08, 0x96, 0x01])] = [0x1A, 0x03, 0x08, 0x96, 0x01]"
  by (simp add: tag_bytes_def base128_small)

lemma message_env_content:
  "message_view 2 (env_memory message_env) 0x1000 0x1080 = Some [(3, Delimited [0x08, 0x96, 0x01])]"
  by (simp only: message_env_def encoder_env.simps message_content)

lemma message_room:
  "has_room (pb_ostream_from_buffer 0x8000 16) (mem_of 0x8000 (replicate 16 0))
     (length (wire_bytes [(3, Delimited [0x08, 0x96, 0x01])]))"
proof -
  have "mem_of 0x8000 (replicate 16 0) (0x8000 + of_nat i) \<noteq> None" if "i < 5" for i
    using mem_of_lookup [of "0x8000" "replicate 16 0" i] that by simp
  then show ?thesis unfolding message_bytes by (simp add: has_room_def pb_ostream_from_buffer_def)
qed

definition message_stream :: ostream where
  "message_stream = \<lparr>os_callback = BufWrite, os_state = 0x8005, os_max_size = 16, os_bytes_written = 5,
                     os_errmsg = None\<rparr>"

lemma message_emitted:
  "emit (pb_ostream_from_buffer 0x8000 16) out (wire_bytes [(3, Delimited [0x08, 0x96, 0x01])]) =
     Some (True, message_stream, put out 0x8000 [0x1A, 0x03, 0x08, 0x96, 0x01])"
  unfolding message_bytes by (simp add: emit_def pb_ostream_from_buffer_def message_stream_def)

lemma message_run:
  "pb_encode 2 message_env (pb_ostream_from_buffer 0x8000 16) (mem_of 0x8000 (replicate 16 0)) 0x1000 0x1080 =
     Some (True, message_stream, put (mem_of 0x8000 (replicate 16 0)) 0x8000 [0x1A, 0x03, 0x08, 0x96, 0x01])"
  by (rule trans [OF emitsD [OF emits_message [OF message_env_content] message_room] message_emitted])

lemma message_size:
  "pb_get_encoded_size 2 message_env Map.empty 0x1000 0x1080 = Some (Some 5, Map.empty)"
proof -
  have "has_room PB_OSTREAM_SIZING Map.empty (length (wire_bytes [(3, Delimited [0x08, 0x96, 0x01])]))"
    unfolding message_bytes by (simp add: has_room_def)
  from emitsD [OF emits_message [OF message_env_content] this] show ?thesis
    unfolding message_bytes by (simp add: pb_get_encoded_size_def emit_def)
qed

theorem pb_encode_correct_witness:
  "pb_encode 2 message_env (pb_ostream_from_buffer 0x8000 16) (mem_of 0x8000 (replicate 16 0)) 0x1000 0x1080 =
     Some (True, message_stream, put (mem_of 0x8000 (replicate 16 0)) 0x8000 [0x1A, 0x03, 0x08, 0x96, 0x01])"
  by (rule trans [OF pb_encode_correct [OF message_env_content message_room] message_emitted])

lemma message_env_functions:
  "confined message_env (\<lambda>s out. call_encode message_env func s out pos arg)"
  "confined message_env (\<lambda>s out. call_ext_encode message_env func s out ext)"
  "agreeing message_env (\<lambda>s out. call_encode message_env func s out pos arg)"
  "agreeing message_env (\<lambda>s out. call_ext_encode message_env func s out ext)"
  by (simp_all add: message_env_def confined_trivial agreeing_trivial)

theorem pb_encode_stays_in_buffer_witness:
  "put (mem_of 0x8000 (replicate 16 0)) 0x8000 [0x1A, 0x03, 0x08, 0x96, 0x01] 0x8005 =
     mem_of 0x8000 (replicate 16 0) 0x8005"
proof -
  have "unat (os_bytes_written message_stream) = 5" by (simp add: message_stream_def)
  then show ?thesis
    using pb_encode_stays_in_buffer [OF message_env_functions(1,2) message_run]
    by (auto dest: spec [of _ "0x8005"])
qed

theorem pb_get_encoded_size_correct_witness:
  "os_bytes_written message_stream = 5 \<and> (5 :: u64) \<le> 16"
  using pb_get_encoded_size_correct [OF message_env_functions message_size message_run] by simp

section \<open>Where the code is narrower than its comments\<close>

text \<open>
  The proto3 default test looks at \<open>data_size\<close> bytes of an allocated number's slot, not at the
  eight bytes of the pointer: one byte, for a \<open>bool\<close>, so that a pointer whose low byte is zero
  counts as absent.
\<close>

lemma default_of_pointer:
  assumes "PB_ATYPE (field_type f) = PB_ATYPE_POINTER" "PB_HTYPE (field_type f) = PB_HTYPE_OPTIONAL"
    and "PB_LTYPE (field_type f) = PB_LTYPE_BOOL" "size_offset f = 0" "data_size f = 1"
    and "m p = Some 0" "unat p + 1 < 2 ^ 64"
  shows "pb_check_proto3_default_value (Suc n) m f p = Some True"
proof -
  have "ptr_sadd p 0 = Some p" 
    using unsigned_less [of p] by (simp add: ptr_sadd_def)
  moreover have "ptr_add p 1 = Some (p + 1)" using assms(7) by (simp add: ptr_add_def)
  ultimately show ?thesis
    using assms by (simp add: check_singular_def PB_HTYPE_REQUIRED_def PB_HTYPE_OPTIONAL_def PB_HTYPE_REPEATED_def
        PB_HTYPE_ONEOF_def PB_ATYPE_STATIC_def PB_ATYPE_POINTER_def PB_LTYPE_BOOL_def PB_LTYPE_LAST_PACKABLE_def)
qed

text \<open>An allocated array whose pointer is null and whose count is not zero is read through the null pointer.\<close>

lemma null_array:
  assumes ty: "PB_ATYPE (field_type f) = PB_ATYPE_POINTER" "PB_HTYPE (field_type f) = PB_HTYPE_REPEATED"
      "PB_LTYPE (field_type f) = PB_LTYPE_VARINT" "data_size f = 4"
    and null: "load_le 8 (env_memory e) p = Some (0 :: addr)" "env_memory e 0 = None"
    and count: "size_offset f \<noteq> 0" "ptr_sadd p (size_offset f) = Some q"
      "load_le 4 (env_memory e) q = Some (k :: u32)" "k \<noteq> 0"
  shows "encode_basic_field e enc chk s out f p \<noteq> Some (True, s', out')"
proof
  assume run: "encode_basic_field e enc chk s out f p = Some (True, s', out')"
  have k: "(ucast k :: u64) \<noteq> 0" "unat (ucast k :: u64) = Suc (unat k - 1)"
  proof -
    have "unat (ucast k :: u64) = unat k" by (simp add: unat_ucast_up)
    moreover have "0 < unat k" using count(4) by (simp add: unat_gt_0)
    ultimately show "(ucast k :: u64) \<noteq> 0" "unat (ucast k :: u64) = Suc (unat k - 1)" by auto
  qed
  have "load_signed (env_memory e) 0 4 = None"
    using null(2) by (simp add: load_signed_def load_le_def)
  then have none: "packed_size e enc EncVarint out f 0 (ucast k) = None" for out
    using ty k by (simp add: packed_size_def ltype_constants pb_enc_varint_def and_ok_def)
  have "encode_basic_field e enc chk s out f p = encode_array e enc s out f 0 (ucast k) EncVarint"
    using ty null(1) count
    by (simp add: encode_basic_field_def PB_HTYPE_REPEATED_def PB_HTYPE_REQUIRED_def PB_HTYPE_OPTIONAL_def
        PB_LTYPE_VARINT_def PB_ENCODERS_def)
  also have "\<dots> = and_ok (pb_encode_tag e s out PB_WT_STRING (field_tag f)) (\<lambda>s out. None)"
    using ty k none by (simp add: encode_array_def encode_packed_def PB_LTYPE_VARINT_def PB_LTYPE_LAST_PACKABLE_def)
  finally show False
    using run by (cases "pb_encode_tag e s out PB_WT_STRING (field_tag f)") (auto simp: and_ok_def split: if_splits)
qed

lemma length_base128_step: "128 \<le> n \<Longrightarrow> length (base128 n) = Suc (length (base128 (n div 128)))"
  by (subst base128.simps) simp

text \<open>
  A message whose only field is a callback field, with the function \<open>func\<close> in the structure at \<open>p\<close>; \<open>arg\<close> is
  the address of its argument.
\<close>

definition callback_message :: "memory \<Rightarrow> addr \<Rightarrow> addr \<Rightarrow> pb_field \<Rightarrow> addr \<Rightarrow> addr \<Rightarrow> bool" where
  "callback_message m descr p f func arg \<longleftrightarrow>
     fields_in m descr [f] \<and> layout_ok p [f] \<and> PB_ATYPE (field_type f) = PB_ATYPE_CALLBACK \<and>
     PB_LTYPE (field_type f) \<noteq> PB_LTYPE_EXTENSION \<and>
     (let data = iter_pData (iterator_at descr p [f] 0) in load_le 8 m data = Some func \<and> ptr_add data 8 = Some arg) \<and> func \<noteq> 0"

lemma encode_callback_message:
  assumes "callback_message (env_memory e) descr p f func arg"
  shows "pb_encode (Suc k) e s out descr p =
    do { (ok, s, out) \<leftarrow> call_encode e func s out descr arg;
         if ok then Some (True, s, out) else PB_RETURN_ERROR s out ''callback error'' }"
proof -
  let ?m = "env_memory e" and ?it = "iterator_at descr p [f] 0"
  have parts: "fields_in ?m descr [f]" "layout_ok p [f]" using assms by (simp_all add: callback_message_def)
  have start: "pb_field_iter_begin ?m descr p = Some (True, ?it)" by (rule begin_at [OF parts]) simp
  have nxt: "pb_field_iter_next ?m ?it = Some (False, ?it)" using next_at [OF parts, of 0] by simp
  have pos: "iter_pos ?it = descr" by (simp add: iterator_at_def)
  have f: "field_at ?m descr = Some f" using fields_in_nth(1) [OF parts(1), of 0] by simp
  have types: "PB_ATYPE (field_type f) \<noteq> PB_ATYPE_STATIC" "PB_ATYPE (field_type f) \<noteq> PB_ATYPE_POINTER"
    using assms by (simp_all add: callback_message_def PB_ATYPE_defs)
  have one: "encode_one k e enc chk s out ?it =
      do { (ok, s, out) \<leftarrow> call_encode e func s out descr arg;
           if \<not> ok then PB_RETURN_ERROR s out ''callback error'' else Some (True, s, out) }" for enc chk
    using assms types f
    by (simp add: encode_one_def pos encode_field_def encode_callback_field_def callback_message_def Let_def)
  show ?thesis
    by (cases "call_encode e func s out descr arg")
      (auto simp: start encode_loop_and_ok one nxt and_ok_def PB_RETURN_ERROR_def)
qed

text \<open>
  What the function does: it claims \<open>n\<close> bytes to a stream that only sizes, and writes \<open>bs\<close> to any other.
\<close>

definition claims :: "encoder_env \<Rightarrow> addr \<Rightarrow> u64 \<Rightarrow> byte list \<Rightarrow> bool" where
  "claims e func n bs \<longleftrightarrow> (\<forall>s out pos arg. call_encode e func s out pos arg =
     (if os_callback s = NoCallback then pb_write e s out (LocalArray []) n
      else pb_write e s out (LocalArray bs) (of_nat (length bs))))"

lemma has_room_put: "has_room s out k \<Longrightarrow> has_room s (put out q bs) k"
  by (auto simp: has_room_def put_def split: write_callback.splits)

text \<open>
  C33. The guard of \<open>pb_encode_submessage\<close> adds the size to the count without the test for overflow that
  \<open>pb_write\<close> makes. Where the function of a callback field claims a size \<open>n\<close> near \<open>2 ^ 64\<close> to the sizing stream,
  so that the sum wraps and passes the guard, whatever it then writes is stored, past the limit of the stream;
  the change of the size is found and reported only after that.
\<close>

theorem submessage_size_wraps:
  assumes "callback_message (env_memory e) descr p f func arg" "claims e func n bs"
    and s: "os_callback s = BufWrite" "os_errmsg s = None" and k: "k = length (base128 (unat n))"
    and fits: "unat (os_bytes_written s) + k \<le> unat (os_max_size s)"
    and wraps: "2 ^ 64 \<le> unat (os_bytes_written s) + k + unat n" "unat (os_bytes_written s) + k + unat n \<le> 2 ^ 64 + unat (os_max_size s)"
    and beyond: "unat (os_max_size s) < unat (os_bytes_written s) + k + length bs" "length bs < unat n"
      "unat (os_bytes_written s) + k + length bs < 2 ^ 64"
    and mapped: "unat (os_state s) + k + length bs < 2 ^ 64" "\<And>i. i < k + length bs \<Longrightarrow> out (os_state s + of_nat i) \<noteq> None"
  shows "\<exists>s' out'. pb_encode_submessage e (pb_encode (Suc d) e) s out descr p = Some (False, s', out') \<and>
    os_errmsg s' = Some ''submsg size changed'' \<and> os_max_size s' = os_max_size s \<and> os_max_size s < os_bytes_written s' \<and>
    (\<forall>i < length bs. out' (os_state s + of_nat (k + i)) = Some (bs ! i))"
proof -
  let ?cs = "base128 (unat n)" and ?w = "os_bytes_written s + of_nat k"
  let ?s1 = "s\<lparr>os_state := os_state s + of_nat k, os_bytes_written := ?w\<rparr>" and ?o1 = "put out (os_state s) ?cs"
  let ?sub = "\<lparr>os_callback = BufWrite, os_state = os_state s + of_nat k, os_max_size = n, os_bytes_written = 0, os_errmsg = None\<rparr>"
  note run = encode_callback_message [OF assms(1)]
  have calls: "call_encode e func s out pos arg = (if os_callback s = NoCallback then pb_write e s out (LocalArray []) n
      else pb_write e s out (LocalArray bs) (of_nat (length bs)))" for s out pos arg
    using assms(2) unfolding claims_def by blast
  have sizing: "pb_encode (Suc d) e PB_OSTREAM_SIZING out descr p = Some (True, PB_OSTREAM_SIZING\<lparr>os_bytes_written := n\<rparr>, out)"
    unfolding run calls by (simp add: pb_write_def PB_OSTREAM_SIZING_def)
  have "has_room s out (length ?cs)" using s fits mapped k by (simp add: has_room_def)
  from emitsD [OF emits_varint this] have varint: "pb_encode_varint e s out n = Some (True, ?s1, ?o1)"
    using s(1) by (simp add: emit_def k)
  have uk: "unat (of_nat k :: u64) = k" using mapped(1) by (simp add: unat_of_nat)
  have uw: "unat ?w = unat (os_bytes_written s) + k" using beyond(3) by (subst unat_add_of_nat) simp_all
  have "unat (?w + n) = unat ?w + unat n - 2 ^ 64"
  proof -
    have "unat (?w + n) = (unat ?w + unat n) mod 2 ^ 64" by (simp add: unat_word_ariths)
    also have "\<dots> = (unat ?w + unat n - 2 ^ 64) mod 2 ^ 64" using wraps(1) uw by (simp add: mod_if)
    also have "\<dots> = unat ?w + unat n - 2 ^ 64" using less_exp [of ?w] less_exp [of n] by simp
    finally show ?thesis .
  qed
  then have guard: "\<not> os_max_size s < ?w + n" using wraps(2) uw by (simp add: word_less_nat_alt)
  have ub: "unat (of_nat (length bs) :: u64) = length bs" using mapped(1) by (simp add: unat_of_nat)
  have state: "unat (os_state s + of_nat k) = unat (os_state s) + k" using mapped(1) by (subst unat_add_of_nat) simp_all
  have "?o1 (os_state s + of_nat k + of_nat i) \<noteq> None" if "i < length bs" for i
    using mapped(2) [of "k + i"] that by (simp add: put_def add.assoc)
  then have "has_room ?sub ?o1 (length bs)" using beyond(2) mapped(1) state by (simp add: has_room_def)
  from emitsD [OF emits_write this] have written: "pb_write e ?sub ?o1 (LocalArray bs) (of_nat (length bs)) =
      Some (True, ?sub\<lparr>os_state := os_state s + of_nat k + of_nat (length bs), os_bytes_written := of_nat (length bs)\<rparr>, put ?o1 (os_state s + of_nat k) bs)"
    using ub by (simp add: source_bytes_def emit_def)
  have second: "pb_encode (Suc d) e ?sub ?o1 descr p =
      Some (True, ?sub\<lparr>os_state := os_state s + of_nat k + of_nat (length bs), os_bytes_written := of_nat (length bs)\<rparr>, put ?o1 (os_state s + of_nat k) bs)"
    unfolding run calls using written by simp
  have "(of_nat (length bs) :: u64) \<noteq> n" using beyond(2) ub by (metis less_irrefl)
  then have result: "pb_encode_submessage e (pb_encode (Suc d) e) s out descr p =
      Some (False, s\<lparr>os_bytes_written := ?w + of_nat (length bs), os_state := os_state s + of_nat k + of_nat (length bs),
        os_errmsg := Some ''submsg size changed''\<rparr>, put ?o1 (os_state s + of_nat k) bs)"
    unfolding pb_encode_submessage_def sizing using varint guard s second
    by (simp add: and_ok_def PB_RETURN_ERROR_def PB_OSTREAM_SIZING_def del: pb_encode.simps)
  have "unat (?w + of_nat (length bs)) = unat (os_bytes_written s) + k + length bs"
    using uw beyond(3) by (subst unat_add_of_nat) simp_all
  then have "os_max_size s < ?w + of_nat (length bs)" using beyond(1) by (simp add: word_less_nat_alt)
  moreover have "put ?o1 (os_state s + of_nat k) bs (os_state s + of_nat (k + i)) = Some (bs ! i)" if "i < length bs" for i
  proof -
    have "unat (os_state s + of_nat (k + i)) = unat (os_state s) + (k + i)" using that mapped(1) by (intro unat_add_of_nat) simp
    then show ?thesis using that state by (simp add: put_def)
  qed
  ultimately show ?thesis using result by simp
qed

text \<open>A claim of \<open>2 ^ 64 - 8\<close> bytes to a buffer of 16, and 32 bytes written.\<close>

definition callback_field :: pb_field where
  "callback_field = \<lparr>field_tag = 1, field_type = 0x46, data_offset = 0, size_offset = 0, data_size = 16,
     array_size = 0, field_ptr = 0\<rparr>"

definition claiming_env :: encoder_env where
  "claiming_env = \<lparr>env_memory = mem_of 0x1000 (descriptor_bytes [callback_field] @ nat_bytes 8 0x77 @ replicate 8 0),
     call_write = (\<lambda>f s out bs. None),
     call_encode = (\<lambda>f s out pos arg.
       if os_callback s = NoCallback then pb_write message_env s out (LocalArray []) (- 8)
       else pb_write message_env s out (LocalArray (replicate 32 1)) 32),
     call_ext_encode = (\<lambda>f s out ext. None)\<rparr>"

lemma claiming_message: "callback_message (env_memory claiming_env) 0x1000 0x1040 callback_field 0x77 0x1048"
proof -
  let ?m = "env_memory claiming_env"
  have len: "length (descriptor_bytes [callback_field]) = 64" by (simp add: descriptor_bytes_def field_bytes_length)
  have "bytes_at ?m 0x1000 (descriptor_bytes [callback_field] @ nat_bytes 8 0x77 @ replicate 8 0)"
    unfolding claiming_env_def encoder_env.simps by (rule bytes_at_mem_of) (simp add: len)
  then have at: "bytes_at ?m 0x1000 (descriptor_bytes [callback_field])" "bytes_at ?m 0x1040 (nat_bytes 8 0x77)"
    by (simp_all only: bytes_at_append len) simp_all
  have "fields_in ?m 0x1000 [callback_field]" by (rule fields_in_bytes [OF at(1)]) (simp add: callback_field_def)
  moreover have "load_le 8 ?m 0x1040 = Some (0x77 :: addr)"
    using load_le_bytes [OF at(2) length_nat_bytes, where ?'a = 64] of_nat_bytes_nat [of 8 "0x77", where ?'a = 64]
    by (simp del: nat_bytes_numeral)
  moreover have "layout_ok 0x1040 [callback_field]" by (simp add: layout_ok_def callback_field_def Let_def)
  moreover have "iter_pData (iterator_at 0x1000 0x1040 [callback_field] 0) = 0x1040"
    by (simp add: iterator_at_def callback_field_def)
  ultimately show ?thesis
    by (simp add: callback_message_def Let_def ptr_add_def) (simp add: callback_field_def PB_ATYPE_defs PB_LTYPE_defs)
qed

lemma claiming_claims: "claims claiming_env 0x77 (- 8) (replicate 32 1)"
  by (simp add: claims_def claiming_env_def message_env_def pb_write_def source_bytes_def call_callback_def
      cong: write_callback.case_cong)

theorem submessage_size_wraps_witness:
  "\<exists>s out. pb_encode_submessage claiming_env (pb_encode (Suc 0) claiming_env) (pb_ostream_from_buffer 0x8000 16)
       (mem_of 0x8000 (replicate 64 0)) 0x1000 0x1040 = Some (False, s, out) \<and>
     os_max_size s = 16 \<and> 16 < os_bytes_written s \<and> out 0x8029 = Some 1"
proof -
  let ?n = "- 8 :: u64" and ?out = "mem_of 0x8000 (replicate 64 0)" and ?s = "pb_ostream_from_buffer 0x8000 16"
  have n: "unat ?n = 18446744073709551608" by simp
  have "length (base128 18446744073709551608) = 10" by (simp add: length_base128_step base128_small)
  then have k: "10 = length (base128 (unat ?n))" unfolding n by simp
  have mapped: "?out (0x8000 + of_nat i) \<noteq> None" if "i < 42" for i
    using mem_of_lookup [of "0x8000" "replicate 64 0" i] that by simp
  have "\<exists>s' out'. pb_encode_submessage claiming_env (pb_encode (Suc 0) claiming_env) ?s ?out 0x1000 0x1040 = Some (False, s', out') \<and>
    os_errmsg s' = Some ''submsg size changed'' \<and> os_max_size s' = os_max_size ?s \<and> os_max_size ?s < os_bytes_written s' \<and>
    (\<forall>i < length (replicate 32 (1 :: byte)). out' (os_state ?s + of_nat (10 + i)) = Some (replicate 32 1 ! i))"
    by (rule submessage_size_wraps [OF claiming_message claiming_claims _ _ k])
      (simp_all only: n, simp_all add: pb_ostream_from_buffer_def mapped)
  then obtain s' out' where r: "pb_encode_submessage claiming_env (pb_encode (Suc 0) claiming_env) ?s ?out 0x1000 0x1040 = Some (False, s', out')"
      "os_max_size s' = 16" "16 < os_bytes_written s'" "\<forall>i < 32. out' (0x8000 + of_nat (10 + i)) = Some (replicate 32 1 ! i)"
    by (auto simp: pb_ostream_from_buffer_def)
  from r(4) have "out' (0x8000 + of_nat (10 + 31)) = Some (replicate 32 1 ! 31)" by (rule allE [of _ 31]) simp
  then have "out' 0x8029 = Some 1" by (simp add: nth_replicate)
  then show ?thesis using r(1-3) by blast
qed

end
