(* ===== verification/Pb_Decode.thy ===== *)
theory Pb_Decode
  imports Pb_Encode
begin

text \<open>
  The decoder of \<^verbatim>\<open>nanopb/pb_decode.c\<close>: input streams, varints, tags, substreams, and the decoders of
  single values. The input buffer and the message lie in one memory, which the decoder changes.

  A result \<open>None\<close> is undefined behaviour; in a result \<open>Some (r, stream, memory)\<close>, \<open>r\<close> is \<open>None\<close> when the
  function returns \<open>false\<close>, and \<open>Some\<close> of what it stores through its pointer arguments when it returns
  \<open>true\<close>.
\<close>

section \<open>Streams\<close>

datatype read_callback = BufRead | UserRead addr

record istream =
  is_callback :: read_callback
  is_state :: addr
  is_bytes_left :: u64
  is_errmsg :: "string option"

type_synonym 'a parsed = "('a option \<times> istream \<times> memory) option"

text \<open>
  The functions the library calls but does not contain: a user's input, the decoders of callback
  fields and of extensions, and the allocator. Two locals of the decoder have their address taken,
  so they lie in memory: the counter of a fixed-count array, at \<open>fixed_count_at n\<close> in the call of
  \<open>pb_decode_noinit\<close> with fuel \<open>n\<close>, and the copy of a scalar for a callback, at \<open>value_buffer\<close>.
\<close>

record decoder_env =
  call_read :: "addr \<Rightarrow> istream \<Rightarrow> memory \<Rightarrow> u64 \<Rightarrow> (bool \<times> istream \<times> memory \<times> byte list) option"
  call_decode :: "addr \<Rightarrow> istream \<Rightarrow> memory \<Rightarrow> addr \<Rightarrow> addr \<Rightarrow> unit parsed"
  call_ext_decode :: "addr \<Rightarrow> istream \<Rightarrow> memory \<Rightarrow> addr \<Rightarrow> u32 \<Rightarrow> u64 \<Rightarrow> unit parsed"
  pb_realloc :: "memory \<Rightarrow> addr \<Rightarrow> u64 \<Rightarrow> (addr \<times> memory) option"
  pb_free :: "memory \<Rightarrow> addr \<Rightarrow> memory option"
  fixed_count_at :: "nat \<Rightarrow> addr"
  value_buffer :: addr

definition and_read :: "'a parsed \<Rightarrow> ('a \<Rightarrow> istream \<Rightarrow> memory \<Rightarrow> 'b parsed) \<Rightarrow> 'b parsed" where
  "and_read r f = do { (v, s, m) \<leftarrow> r; case v of None \<Rightarrow> Some (None, s, m) | Some v \<Rightarrow> f v s m }"

definition read_error :: "istream \<Rightarrow> memory \<Rightarrow> string \<Rightarrow> 'a parsed" where
  "read_error s m msg =
     Some (None, s\<lparr>is_errmsg := (case is_errmsg s of None \<Rightarrow> Some msg | Some e \<Rightarrow> Some e)\<rparr>, m)"

text \<open>
  Where a read goes: nowhere (a null pointer), to an array of the caller, whose bytes are the value of
  the read, or to the message.
\<close>

datatype read_dest = Discard | LocalBuffer | Into addr

fun copy_loop :: "nat \<Rightarrow> memory \<Rightarrow> addr \<Rightarrow> addr \<Rightarrow> memory option" where
  "copy_loop 0 m dst src = Some m"
| "copy_loop (Suc n) m dst src =
     do { b \<leftarrow> m src;
          m \<leftarrow> store_bytes m dst [b];
          dst \<leftarrow> ptr_add dst 1; src \<leftarrow> ptr_add src 1;
          copy_loop n m dst src }"

definition buf_read ::
    "istream \<Rightarrow> memory \<Rightarrow> read_dest \<Rightarrow> u64 \<Rightarrow> (bool \<times> istream \<times> memory \<times> byte list) option" where
  "buf_read s m dest count =
     do { st \<leftarrow> ptr_add (is_state s) count;
          let s' = s\<lparr>is_state := st\<rparr>;
          case dest of
            Discard \<Rightarrow> Some (True, s', m, [])
          | LocalBuffer \<Rightarrow> do { bs \<leftarrow> load_bytes m (is_state s) (unat count); Some (True, s', m, bs) }
          | Into p \<Rightarrow> do { m \<leftarrow> copy_loop (unat count) m p (is_state s); Some (True, s', m, []) } }"

text \<open>A user's function fills the buffer it is given with as many bytes as it is asked for.\<close>

definition user_read ::
    "decoder_env \<Rightarrow> addr \<Rightarrow> istream \<Rightarrow> memory \<Rightarrow> read_dest \<Rightarrow> u64 \<Rightarrow>
     (bool \<times> istream \<times> memory \<times> byte list) option" where
  "user_read e f s m dest count =
     do { (ok, s, m, bs) \<leftarrow> call_read e f s m count;
          if ok \<and> length bs \<noteq> unat count then None
          else case dest of
            Into p \<Rightarrow> do { m \<leftarrow> store_bytes m p bs; Some (ok, s, m, []) }
          | _ \<Rightarrow> Some (ok, s, m, bs) }"

definition stream_callback ::
    "decoder_env \<Rightarrow> istream \<Rightarrow> memory \<Rightarrow> read_dest \<Rightarrow> u64 \<Rightarrow>
     (bool \<times> istream \<times> memory \<times> byte list) option" where
  "stream_callback e s m dest count =
     (case is_callback s of BufRead \<Rightarrow> buf_read s m dest count
      | UserRead f \<Rightarrow> user_read e f s m dest count)"

text \<open>The part of \<open>pb_read\<close> after the skipping of input.\<close>

definition read_into :: "decoder_env \<Rightarrow> istream \<Rightarrow> memory \<Rightarrow> read_dest \<Rightarrow> u64 \<Rightarrow> byte list parsed" where
  "read_into e s m dest count =
     (if count = 0 then Some (Some [], s, m)
      else if is_bytes_left s < count then read_error s m ''end-of-stream''
      else do {
        (ok, s, m, bs) \<leftarrow> stream_callback e s m dest count;
        if \<not> ok then read_error s m ''io error''
        else Some (Some bs, s\<lparr>is_bytes_left := is_bytes_left s - count\<rparr>, m) })"

function skip_loop :: "decoder_env \<Rightarrow> istream \<Rightarrow> memory \<Rightarrow> u64 \<Rightarrow> byte list parsed" where
  "skip_loop e s m count =
     (if 16 < count
      then do {
        (r, s, m) \<leftarrow> read_into e s m LocalBuffer 16;
        if r = None then Some (None, s, m) else skip_loop e s m (count - 16) }
      else read_into e s m LocalBuffer count)"
  by pat_completeness auto
termination
  by (relation "measure (\<lambda>(e, s, m, count). unat count)") (auto simp: unat_sub word_less_nat_alt word_le_nat_alt)

declare skip_loop.simps [simp del]

definition pb_read :: "decoder_env \<Rightarrow> istream \<Rightarrow> memory \<Rightarrow> read_dest \<Rightarrow> u64 \<Rightarrow> byte list parsed" where
  "pb_read e s m dest count =
     (if count = 0 then Some (Some [], s, m)
      else if dest = Discard \<and> is_callback s \<noteq> BufRead then skip_loop e s m count
      else read_into e s m dest count)"

definition pb_readbyte :: "decoder_env \<Rightarrow> istream \<Rightarrow> memory \<Rightarrow> byte parsed" where
  "pb_readbyte e s m =
     (if is_bytes_left s = 0 then read_error s m ''end-of-stream''
      else do {
        (ok, s, m, bs) \<leftarrow> stream_callback e s m LocalBuffer 1;
        if \<not> ok then read_error s m ''io error''
        else Some (Some (hd bs), s\<lparr>is_bytes_left := is_bytes_left s - 1\<rparr>, m) })"

definition pb_istream_from_buffer :: "addr \<Rightarrow> u64 \<Rightarrow> istream" where
  "pb_istream_from_buffer buf bufsize =
     \<lparr>is_callback = BufRead, is_state = buf, is_bytes_left = bufsize, is_errmsg = None\<rparr>"

section \<open>Varints\<close>

text \<open>\<open>bitpos\<close> is a \<open>uint_fast8_t\<close>, eight bits wide on the platform: it wraps.\<close>

partial_function (option) varint32_loop ::
    "decoder_env \<Rightarrow> byte \<Rightarrow> u32 \<Rightarrow> istream \<Rightarrow> memory \<Rightarrow> u32 parsed" where
  "varint32_loop e bitpos result s m =
     do { (r, s, m) \<leftarrow> pb_readbyte e s m;
          case r of None \<Rightarrow> Some (None, s, m)
          | Some b \<Rightarrow>
              if 32 \<le> bitpos \<and> b AND 0x7F \<noteq> 0 \<and>
                 (drop_bit 31 result = 0 \<or> b \<noteq> (if bitpos < 63 then 0xFF else 0x01))
              then read_error s m ''varint overflow''
              else
                let result = (if 32 \<le> bitpos then result
                              else result OR push_bit (unat bitpos) (ucast (b AND 0x7F)));
                    bitpos = bitpos + 7 in
                if b AND 0x80 \<noteq> 0 then varint32_loop e bitpos result s m
                else if bitpos = 35 \<and> b AND 0x70 \<noteq> 0 then read_error s m ''varint overflow''
                else Some (Some result, s, m) }"

text \<open>The value, and whether the end of the stream was met before the first byte.\<close>

definition pb_decode_varint32_eof ::
    "decoder_env \<Rightarrow> istream \<Rightarrow> memory \<Rightarrow> ((u32 option \<times> bool) \<times> istream \<times> memory) option" where
  "pb_decode_varint32_eof e s m =
     do { (r, s, m) \<leftarrow> pb_readbyte e s m;
          case r of None \<Rightarrow> Some ((None, is_bytes_left s = 0), s, m)
          | Some b \<Rightarrow>
              if b AND 0x80 = 0 then Some ((Some (ucast b), False), s, m)
              else do { (r, s, m) \<leftarrow> varint32_loop e 7 (ucast (b AND 0x7F)) s m;
                        Some ((r, False), s, m) } }"

definition pb_decode_varint32 :: "decoder_env \<Rightarrow> istream \<Rightarrow> memory \<Rightarrow> u32 parsed" where
  "pb_decode_varint32 e s m = do { ((r, eof), s, m) \<leftarrow> pb_decode_varint32_eof e s m; Some (r, s, m) }"

function varint64_loop :: "decoder_env \<Rightarrow> nat \<Rightarrow> u64 \<Rightarrow> istream \<Rightarrow> memory \<Rightarrow> u64 parsed" where
  "varint64_loop e bitpos result s m =
     (if 64 \<le> bitpos then read_error s m ''varint overflow''
      else do {
        (r, s, m) \<leftarrow> pb_readbyte e s m;
        case r of None \<Rightarrow> Some (None, s, m)
        | Some b \<Rightarrow>
            let result = result OR push_bit bitpos (ucast (b AND 0x7F)) in
            if b AND 0x80 \<noteq> 0 then varint64_loop e (bitpos + 7) result s m
            else Some (Some result, s, m) })"
  by pat_completeness auto
termination by (relation "measure (\<lambda>(e, bitpos, result, s, m). 64 - bitpos)") auto

declare varint64_loop.simps [simp del]

definition pb_decode_varint :: "decoder_env \<Rightarrow> istream \<Rightarrow> memory \<Rightarrow> u64 parsed" where
  "pb_decode_varint e s m = varint64_loop e 0 0 s m"

partial_function (option) pb_skip_varint :: "decoder_env \<Rightarrow> istream \<Rightarrow> memory \<Rightarrow> unit parsed" where
  "pb_skip_varint e s m =
     do { (r, s, m) \<leftarrow> pb_read e s m LocalBuffer 1;
          case r of None \<Rightarrow> Some (None, s, m)
          | Some bs \<Rightarrow> if hd bs AND 0x80 \<noteq> 0 then pb_skip_varint e s m else Some (Some (), s, m) }"

definition pb_skip_string :: "decoder_env \<Rightarrow> istream \<Rightarrow> memory \<Rightarrow> unit parsed" where
  "pb_skip_string e s m =
     and_read (pb_decode_varint32 e s m)
       (\<lambda>n s m. and_read (pb_read e s m Discard (ucast n)) (\<lambda>_ s m. Some (Some (), s, m)))"

section \<open>Tags\<close>

text \<open>The wire type and the tag, and the end of the message.\<close>

definition pb_decode_tag ::
    "decoder_env \<Rightarrow> istream \<Rightarrow> memory \<Rightarrow> (((u64 \<times> u32) option \<times> bool) \<times> istream \<times> memory) option" where
  "pb_decode_tag e s m =
     do { ((r, eof), s, m) \<leftarrow> pb_decode_varint32_eof e s m;
          case r of None \<Rightarrow> Some ((None, eof), s, m)
          | Some temp \<Rightarrow>
              if temp = 0 then Some ((None, True), s, m)
              else Some ((Some (ucast (temp AND 7), drop_bit 3 temp), eof), s, m) }"

definition pb_skip_field :: "decoder_env \<Rightarrow> istream \<Rightarrow> memory \<Rightarrow> u64 \<Rightarrow> unit parsed" where
  "pb_skip_field e s m wire_type =
     (if wire_type = PB_WT_VARINT then pb_skip_varint e s m
      else if wire_type = PB_WT_64BIT
      then and_read (pb_read e s m Discard 8) (\<lambda>_ s m. Some (Some (), s, m))
      else if wire_type = PB_WT_STRING then pb_skip_string e s m
      else if wire_type = PB_WT_32BIT
      then and_read (pb_read e s m Discard 4) (\<lambda>_ s m. Some (Some (), s, m))
      else read_error s m ''invalid wire_type'')"

text \<open>The bytes of a varint, at most \<open>n\<close>.\<close>

fun raw_varint :: "nat \<Rightarrow> decoder_env \<Rightarrow> istream \<Rightarrow> memory \<Rightarrow> byte list parsed" where
  "raw_varint 0 e s m = Some (None, s, m)"
| "raw_varint (Suc n) e s m =
     and_read (pb_read e s m LocalBuffer 1)
       (\<lambda>bs s m. if hd bs AND 0x80 \<noteq> 0
                  then and_read (raw_varint n e s m) (\<lambda>rest s m. Some (Some (hd bs # rest), s, m))
                  else Some (Some [hd bs], s, m))"

definition read_raw_value :: "decoder_env \<Rightarrow> istream \<Rightarrow> memory \<Rightarrow> u64 \<Rightarrow> nat \<Rightarrow> byte list parsed" where
  "read_raw_value e s m wire_type max_size =
     (if wire_type = PB_WT_VARINT then raw_varint max_size e s m
      else if wire_type = PB_WT_64BIT then pb_read e s m LocalBuffer 8
      else if wire_type = PB_WT_32BIT then pb_read e s m LocalBuffer 4
      else read_error s m ''invalid wire_type'')"

section \<open>Substreams\<close>

definition pb_make_string_substream :: "decoder_env \<Rightarrow> istream \<Rightarrow> memory \<Rightarrow> istream parsed" where
  "pb_make_string_substream e s m =
     and_read (pb_decode_varint32 e s m)
       (\<lambda>n s m. if is_bytes_left s < ucast n then read_error s m ''parent stream too short''
                 else Some (Some (s\<lparr>is_bytes_left := ucast n\<rparr>),
                            s\<lparr>is_bytes_left := is_bytes_left s - ucast n\<rparr>, m))"

text \<open>The rest of the substream is skipped; a failure there leaves the stream as it was.\<close>

definition pb_close_string_substream :: "decoder_env \<Rightarrow> istream \<Rightarrow> istream \<Rightarrow> memory \<Rightarrow> unit parsed" where
  "pb_close_string_substream e s sub m =
     do { (r, sub, m) \<leftarrow> (if is_bytes_left sub \<noteq> 0 then pb_read e sub m Discard (is_bytes_left sub)
                          else Some (Some [], sub, m));
          if r = None then Some (None, s, m)
          else Some (Some (), s\<lparr>is_state := is_state sub, is_errmsg := is_errmsg sub\<rparr>, m) }"

section \<open>Decoders of one value\<close>

definition store_le :: "nat \<Rightarrow> memory \<Rightarrow> addr \<Rightarrow> 'a::len word \<Rightarrow> memory option" where
  "store_le n m p v = store_bytes m p (nat_bytes n (unat v))"

definition pb_decode_svarint :: "decoder_env \<Rightarrow> istream \<Rightarrow> memory \<Rightarrow> u64 parsed" where
  "pb_decode_svarint e s m =
     and_read (pb_decode_varint e s m)
       (\<lambda>v s m. Some (Some (if v AND 1 \<noteq> 0 then NOT (drop_bit 1 v) else drop_bit 1 v), s, m))"

definition pb_decode_fixed32 :: "decoder_env \<Rightarrow> istream \<Rightarrow> memory \<Rightarrow> addr \<Rightarrow> unit parsed" where
  "pb_decode_fixed32 e s m dest =
     and_read (pb_read e s m LocalBuffer 4)
       (\<lambda>bs s m. do {
          m \<leftarrow> store_le 4 m dest
                 ((ucast (bs ! 0) :: u32) OR push_bit 8 (ucast (bs ! 1)) OR push_bit 16 (ucast (bs ! 2)) OR
                  push_bit 24 (ucast (bs ! 3)));
          Some (Some (), s, m) })"

definition pb_decode_fixed64 :: "decoder_env \<Rightarrow> istream \<Rightarrow> memory \<Rightarrow> addr \<Rightarrow> unit parsed" where
  "pb_decode_fixed64 e s m dest =
     and_read (pb_read e s m LocalBuffer 8)
       (\<lambda>bs s m. do {
          m \<leftarrow> store_le 8 m dest
                 ((ucast (bs ! 0) :: u64) OR push_bit 8 (ucast (bs ! 1)) OR push_bit 16 (ucast (bs ! 2)) OR
                  push_bit 24 (ucast (bs ! 3)) OR push_bit 32 (ucast (bs ! 4)) OR push_bit 40 (ucast (bs ! 5)) OR
                  push_bit 48 (ucast (bs ! 6)) OR push_bit 56 (ucast (bs ! 7)));
          Some (Some (), s, m) })"

definition pb_dec_bool :: "decoder_env \<Rightarrow> istream \<Rightarrow> memory \<Rightarrow> addr \<Rightarrow> unit parsed" where
  "pb_dec_bool e s m dest =
     and_read (pb_decode_varint32 e s m)
       (\<lambda>v s m. do { m \<leftarrow> store_bytes m dest [if v \<noteq> 0 then 1 else 0]; Some (Some (), s, m) })"

definition pb_decode_bool :: "decoder_env \<Rightarrow> istream \<Rightarrow> memory \<Rightarrow> addr \<Rightarrow> unit parsed" where
  "pb_decode_bool e s m dest = pb_dec_bool e s m dest"

text \<open>A number cut to one, two, four or eight bytes and stored, and what it reads back as.\<close>

definition store_signed :: "memory \<Rightarrow> addr \<Rightarrow> u32 \<Rightarrow> u64 \<Rightarrow> (u64 \<times> memory) outcome" where
  "store_signed m p n v =
     (if n = 8 then map_option (\<lambda>m. Some (v, m)) (store_le 8 m p v)
      else if n = 4 then map_option (\<lambda>m. Some (scast (ucast v :: u32), m)) (store_le 4 m p (ucast v :: u32))
      else if n = 2 then map_option (\<lambda>m. Some (scast (ucast v :: u16), m)) (store_le 2 m p (ucast v :: u16))
      else if n = 1 then map_option (\<lambda>m. Some (scast (ucast v :: byte), m)) (store_le 1 m p (ucast v :: byte))
      else Some None)"

definition store_unsigned :: "memory \<Rightarrow> addr \<Rightarrow> u32 \<Rightarrow> u64 \<Rightarrow> (u64 \<times> memory) outcome" where
  "store_unsigned m p n v =
     (if n = 8 then map_option (\<lambda>m. Some (v, m)) (store_le 8 m p v)
      else if n = 4 then map_option (\<lambda>m. Some (ucast (ucast v :: u32), m)) (store_le 4 m p (ucast v :: u32))
      else if n = 2 then map_option (\<lambda>m. Some (ucast (ucast v :: u16), m)) (store_le 2 m p (ucast v :: u16))
      else if n = 1 then map_option (\<lambda>m. Some (ucast (ucast v :: byte), m)) (store_le 1 m p (ucast v :: byte))
      else Some None)"

definition clamp_check :: "istream \<Rightarrow> memory \<Rightarrow> u64 \<Rightarrow> (u64 \<times> memory) outcome \<Rightarrow> unit parsed" where
  "clamp_check s m v r =
     do { r \<leftarrow> r;
          case r of None \<Rightarrow> read_error s m ''invalid data_size''
          | Some (clamped, m) \<Rightarrow>
              if clamped \<noteq> v then read_error s m ''integer too large'' else Some (Some (), s, m) }"

definition pb_dec_varint :: "decoder_env \<Rightarrow> istream \<Rightarrow> memory \<Rightarrow> pb_field \<Rightarrow> addr \<Rightarrow> unit parsed" where
  "pb_dec_varint e s m f dest =
     and_read (pb_decode_varint e s m)
       (\<lambda>v s m. let svalue = (if data_size f = 8 then v else scast (ucast v :: u32)) in
                 clamp_check s m svalue (store_signed m dest (data_size f) svalue))"

definition pb_dec_uvarint :: "decoder_env \<Rightarrow> istream \<Rightarrow> memory \<Rightarrow> pb_field \<Rightarrow> addr \<Rightarrow> unit parsed" where
  "pb_dec_uvarint e s m f dest =
     and_read (pb_decode_varint e s m)
       (\<lambda>v s m. clamp_check s m v (store_unsigned m dest (data_size f) v))"

definition pb_dec_svarint :: "decoder_env \<Rightarrow> istream \<Rightarrow> memory \<Rightarrow> pb_field \<Rightarrow> addr \<Rightarrow> unit parsed" where
  "pb_dec_svarint e s m f dest =
     and_read (pb_decode_svarint e s m)
       (\<lambda>v s m. clamp_check s m v (store_signed m dest (data_size f) v))"

definition pb_dec_fixed32 :: "decoder_env \<Rightarrow> istream \<Rightarrow> memory \<Rightarrow> addr \<Rightarrow> unit parsed" where
  "pb_dec_fixed32 e s m dest = pb_decode_fixed32 e s m dest"

definition pb_dec_fixed64 :: "decoder_env \<Rightarrow> istream \<Rightarrow> memory \<Rightarrow> addr \<Rightarrow> unit parsed" where
  "pb_dec_fixed64 e s m dest = pb_decode_fixed64 e s m dest"

definition allocate_field ::
    "decoder_env \<Rightarrow> istream \<Rightarrow> memory \<Rightarrow> addr \<Rightarrow> u64 \<Rightarrow> u64 \<Rightarrow> unit parsed" where
  "allocate_field e s m pData elem_size elems =
     do { ptr \<leftarrow> load_le 8 m pData;
          if elem_size = 0 \<or> elems = 0 then read_error s m ''invalid size''
          else if (0x100000000 \<le> elem_size \<or> 0x100000000 \<le> elems) \<and> (- 1) div elems < elem_size
          then read_error s m ''size too large''
          else do {
            (ptr, m) \<leftarrow> pb_realloc e m ptr (elems * elem_size);
            if ptr = 0 then read_error s m ''realloc failed''
            else do { m \<leftarrow> store_le 8 m pData ptr; Some (Some (), s, m) } } }"

definition pb_dec_bytes :: "decoder_env \<Rightarrow> istream \<Rightarrow> memory \<Rightarrow> pb_field \<Rightarrow> addr \<Rightarrow> unit parsed" where
  "pb_dec_bytes e s m f dest =
     and_read (pb_decode_varint32 e s m)
       (\<lambda>n s m.
          let alloc_size = ucast n + offsetof_bytes in
          if PB_SIZE_MAX < n then read_error s m ''bytes overflow''
          else if alloc_size < ucast n then read_error s m ''size too large''
          else
            and_read
              (if PB_ATYPE (field_type f) = PB_ATYPE_POINTER
               then if is_bytes_left s < ucast n then read_error s m ''end-of-stream''
                    else and_read (allocate_field e s m dest alloc_size 1)
                           (\<lambda>_ s m. do { p \<leftarrow> load_le 8 m dest; Some (Some p, s, m) })
               else if ucast (data_size f) < alloc_size then read_error s m ''bytes overflow''
               else Some (Some dest, s, m))
              (\<lambda>bdest s m. do {
                 m \<leftarrow> store_le 4 m bdest n;
                 p \<leftarrow> ptr_add bdest offsetof_bytes;
                 and_read (pb_read e s m (Into p) (ucast n)) (\<lambda>_ s m. Some (Some (), s, m)) }))"

definition pb_dec_string :: "decoder_env \<Rightarrow> istream \<Rightarrow> memory \<Rightarrow> pb_field \<Rightarrow> addr \<Rightarrow> unit parsed" where
  "pb_dec_string e s m f dest =
     and_read (pb_decode_varint32 e s m)
       (\<lambda>n s m.
          let alloc_size = ucast (n + 1) in
          if alloc_size < (ucast n :: u64) then read_error s m ''size too large''
          else
            and_read
              (if PB_ATYPE (field_type f) = PB_ATYPE_POINTER
               then if is_bytes_left s < ucast n then read_error s m ''end-of-stream''
                    else and_read (allocate_field e s m dest alloc_size 1)
                           (\<lambda>_ s m. do { p \<leftarrow> load_le 8 m dest; Some (Some p, s, m) })
               else if ucast (data_size f) < alloc_size then read_error s m ''string overflow''
               else Some (Some dest, s, m))
              (\<lambda>dest s m. do {
                 (r, s, m) \<leftarrow> pb_read e s m (Into dest) (ucast n);
                 q \<leftarrow> ptr_add dest (ucast n);
                 m \<leftarrow> store_bytes m q [0];
                 Some (map_option (\<lambda>_. ()) r, s, m) }))"

definition pb_dec_fixed_length_bytes ::
    "decoder_env \<Rightarrow> istream \<Rightarrow> memory \<Rightarrow> pb_field \<Rightarrow> addr \<Rightarrow> unit parsed" where
  "pb_dec_fixed_length_bytes e s m f dest =
     and_read (pb_decode_varint32 e s m)
       (\<lambda>n s m.
          if PB_SIZE_MAX < n then read_error s m ''bytes overflow''
          else if n = 0
          then do { m \<leftarrow> store_bytes m dest (replicate (unat (data_size f)) 0); Some (Some (), s, m) }
          else if n \<noteq> data_size f then read_error s m ''incorrect fixed length bytes size''
          else and_read (pb_read e s m (Into dest) (ucast (data_size f))) (\<lambda>_ s m. Some (Some (), s, m)))"

end
