(* ===== verification/Pb_Decode_Values.thy ===== *)
theory Pb_Decode_Values
  imports Pb_Decode Pb_Wire
begin

text \<open>
  The decoders of \<^verbatim>\<open>nanopb/pb_decode.c\<close> against the wire format of \<open>Pb_Wire\<close>: what the encoder writes
  for a value is read back as the value, and unknown fields are skipped to their end.
\<close>

section \<open>Steps that read given bytes\<close>

text \<open>The stream is a buffer that holds \<open>bs\<close> at its position.\<close>

definition holds :: "istream \<Rightarrow> memory \<Rightarrow> byte list \<Rightarrow> bool" where
  "holds s m bs \<longleftrightarrow>
     is_callback s = BufRead \<and> bytes_at m (is_state s) bs \<and> length bs \<le> unat (is_bytes_left s)"

definition skipped :: "istream \<Rightarrow> nat \<Rightarrow> istream" where
  "skipped s k = s\<lparr>is_state := is_state s + of_nat k, is_bytes_left := is_bytes_left s - of_nat k\<rparr>"

definition reads :: "(istream \<Rightarrow> memory \<Rightarrow> 'a parsed) \<Rightarrow> byte list \<Rightarrow> 'a \<Rightarrow> bool" where
  "reads f bs v \<longleftrightarrow> (\<forall>s m. holds s m bs \<longrightarrow> f s m = Some (Some v, skipped s (length bs), m))"

lemma readsD: "reads f bs v \<Longrightarrow> holds s m bs \<Longrightarrow> f s m = Some (Some v, skipped s (length bs), m)"
  by (simp add: reads_def)

lemma skipped_0 [simp]: "skipped s 0 = s"
  by (simp add: skipped_def)

lemma skipped_skipped [simp]: "skipped (skipped s j) k = skipped s (j + k)"
  by (simp add: skipped_def add.assoc diff_diff_eq)

lemma skipped_callback [simp]: "is_callback (skipped s k) = is_callback s"
  by (simp add: skipped_def)

lemma unat_left_skipped: "k \<le> unat (is_bytes_left s) \<Longrightarrow> unat (is_bytes_left (skipped s k)) = unat (is_bytes_left s) - k"
proof -
  assume k: "k \<le> unat (is_bytes_left s)"
  then have u: "unat (of_nat k :: u64) = k"
    using less_exp [of "is_bytes_left s"] unat_add_of_nat [of 0 k] by simp
  then have "(of_nat k :: u64) \<le> is_bytes_left s" using k by (simp add: word_le_nat_alt)
  then show ?thesis using u by (simp add: skipped_def unat_sub)
qed

lemma holds_append:
  "holds s m (xs @ ys) \<longleftrightarrow> holds s m xs \<and> holds (skipped s (length xs)) m ys"
proof (cases "length xs \<le> unat (is_bytes_left s)")
  case True
  from unat_left_skipped [OF this] show ?thesis
    using True by (auto simp: holds_def bytes_at_append skipped_def)
next
  case False
  then show ?thesis by (auto simp: holds_def)
qed

lemma reads_sequence:
  assumes "reads f xs v" "reads (g v) ys w"
  shows "reads (\<lambda>s m. and_read (f s m) g) (xs @ ys) w"
  unfolding reads_def
proof (intro allI impI)
  fix s m assume "holds s m (xs @ ys)"
  then show "and_read (f s m) g = Some (Some w, skipped s (length (xs @ ys)), m)"
    using readsD [OF assms(1), of s m] readsD [OF assms(2), of "skipped s (length xs)" m]
    by (simp add: holds_append and_read_def)
qed

lemma reads_value: "reads (\<lambda>s m. Some (Some v, s, m)) [] v"
  by (simp add: reads_def)

lemma reads_map: "reads f bs v \<Longrightarrow> reads (\<lambda>s m. and_read (f s m) (\<lambda>v s m. Some (Some (g v), s, m))) bs (g v)"
  using reads_sequence [of f bs v "\<lambda>v s m. Some (Some (g v), s, m)" "[]" "g v"] by (simp add: reads_value)

lemma reads_byte: "reads (pb_readbyte e) [b] b"
  unfolding reads_def
proof (intro allI impI)
  fix s m assume h: "holds s m [b]"
  then have left: "is_bytes_left s \<noteq> 0" by (auto simp: holds_def)
  have "ptr_add (is_state s) 1 = Some (is_state s + 1)" "load_bytes m (is_state s) (unat (1 :: u64)) = Some [b]"
    using h by (auto simp: holds_def ptr_add_def load_bytes_iff)
  then show "pb_readbyte e s m = Some (Some b, skipped s (length [b]), m)"
    using h left by (simp add: holds_def pb_readbyte_def stream_callback_def buf_read_def skipped_def)
qed

lemma holds_ptr:
  assumes "holds s m bs"
  shows "unat (of_nat (length bs) :: u64) = length bs"
    and "ptr_add (is_state s) (of_nat (length bs)) = Some (is_state s + of_nat (length bs))"
    and "load_bytes m (is_state s) (length bs) = Some bs"
    and "\<not> is_bytes_left s < of_nat (length bs)"
    and "bs \<noteq> [] \<Longrightarrow> of_nat (length bs) \<noteq> (0 :: u64)"
proof -
  have b: "bytes_at m (is_state s) bs" "length bs \<le> unat (is_bytes_left s)"
    using assms by (auto simp: holds_def)
  show u: "unat (of_nat (length bs) :: u64) = length bs"
    using b(2) less_exp [of "is_bytes_left s"] unat_add_of_nat [of 0 "length bs"] by simp
  show "ptr_add (is_state s) (of_nat (length bs)) = Some (is_state s + of_nat (length bs))"
    using bytes_at_end [OF b(1)] u by (simp add: ptr_add_def)
  show "load_bytes m (is_state s) (length bs) = Some bs" using b(1) by (simp add: load_bytes_iff)
  show "\<not> is_bytes_left s < of_nat (length bs)" using b(2) u by (simp add: word_less_nat_alt)
  show "of_nat (length bs) \<noteq> (0 :: u64)" if "bs \<noteq> []" using u that by (metis unat_0 length_0_conv)
qed

lemma reads_local:
  assumes "unat k = length bs"
  shows "reads (\<lambda>s m. pb_read e s m LocalBuffer k) bs bs"
  unfolding reads_def
proof (intro allI impI)
  fix s m assume h: "holds s m bs"
  have k: "k = of_nat (length bs)" using assms by (metis of_nat_unat ucast_id)
  show "pb_read e s m LocalBuffer k = Some (Some bs, skipped s (length bs), m)"
    using holds_ptr [OF h] h unfolding k
    by (cases "bs = []")
      (simp_all add: holds_def pb_read_def read_into_def stream_callback_def buf_read_def skipped_def)
qed

lemma reads_discard:
  assumes "unat k = length bs"
  shows "reads (\<lambda>s m. pb_read e s m Discard k) bs []"
  unfolding reads_def
proof (intro allI impI)
  fix s m assume h: "holds s m bs"
  have k: "k = of_nat (length bs)" using assms by (metis of_nat_unat ucast_id)
  show "pb_read e s m Discard k = Some (Some [], skipped s (length bs), m)"
    using holds_ptr [OF h] h unfolding k
    by (cases "bs = []")
      (simp_all add: holds_def pb_read_def read_into_def stream_callback_def buf_read_def skipped_def)
qed

section \<open>Varints read back\<close>

lemma digit_bits:
  assumes "n < 2 ^ 64" "unat (b :: byte) mod 128 = n div 128 ^ k mod 128" "7 * k < LENGTH('a::len)"
  shows "(of_nat (n mod 128 ^ k) :: 'a word) OR push_bit (7 * k) (ucast (b AND 0x7F)) = of_nat (n mod 128 ^ Suc k)"
proof -
  let ?d = "n div 128 ^ k mod 128"
  have p: "(128 :: nat) ^ k = 2 ^ (7 * k)" by (simp add: power_mult)
  have "unat (of_nat (n mod 128 ^ k) :: 'a word) \<le> n mod 128 ^ k" using unat_add_of_nat_le [of 0 "n mod 128 ^ k"] by simp
  also have "\<dots> < 2 ^ (7 * k)" unfolding p by simp
  finally have lt: "unat (of_nat (n mod 128 ^ k) :: 'a word) < 2 ^ (7 * k)" .
  have "unat (b AND 0x7F) = ?d" using unat_and_127 [of b] assms(2) by (simp add: and.commute)
  then have d: "(ucast (b AND 0x7F) :: 'a word) = of_nat ?d" by (metis of_nat_unat)
  have "(of_nat (n mod 128 ^ k) :: 'a word) OR push_bit (7 * k) (ucast (b AND 0x7F)) =
      of_nat (n mod 128 ^ k) + push_bit (7 * k) (of_nat ?d)"
    unfolding d by (rule word_or_push_bit [OF lt])
  also have "\<dots> = of_nat (n mod 128 ^ k + 128 ^ k * ?d)"
    by (simp add: push_bit_eq_mult p mult.commute)
  also have "n mod 128 ^ k + 128 ^ k * ?d = n mod 128 ^ Suc k"
    using mod_mult2_eq [of n "128 ^ k" 128] by (simp add: mult.commute)
  finally show ?thesis .
qed

lemma last_digit:
  assumes "n div 128 ^ k < 128"
  shows "unat (of_nat (n div 128 ^ k) :: byte) mod 128 = n div 128 ^ k mod 128"
    "(of_nat (n div 128 ^ k) :: byte) AND 0x80 = 0" "n mod 128 ^ Suc k = n"
proof -
  have u: "unat (of_nat (n div 128 ^ k) :: byte) = n div 128 ^ k" using assms by (simp add: unat_of_nat)
  then show "unat (of_nat (n div 128 ^ k) :: byte) mod 128 = n div 128 ^ k mod 128" by simp
  show "(of_nat (n div 128 ^ k) :: byte) AND 0x80 = 0"
    by (subst and.commute) (simp only: and_128_eq_0 u assms)
  have "n < 128 * 128 ^ k" using assms by (simp add: div_less_iff_less_mult)
  then show "n mod 128 ^ Suc k = n" by simp
qed

lemma inner_digit:
  assumes "128 \<le> n div 128 ^ k"
  shows "unat (of_nat (n div 128 ^ k mod 128 + 128) :: byte) mod 128 = n div 128 ^ k mod 128"
    "(of_nat (n div 128 ^ k mod 128 + 128) :: byte) AND 0x80 \<noteq> 0" "128 ^ Suc k \<le> n"
proof -
  have "n div 128 ^ k mod 128 < 128" by simp
  then have u: "unat (of_nat (n div 128 ^ k mod 128 + 128) :: byte) = n div 128 ^ k mod 128 + 128"
    by (simp add: unat_of_nat del: of_nat_add)
  then show "unat (of_nat (n div 128 ^ k mod 128 + 128) :: byte) mod 128 = n div 128 ^ k mod 128"
    by (simp del: of_nat_add)
  show "(of_nat (n div 128 ^ k mod 128 + 128) :: byte) AND 0x80 \<noteq> 0"
    using and_128_eq_0 [of "of_nat (n div 128 ^ k mod 128 + 128)"] u by (simp add: and.commute del: of_nat_add)
  show "128 ^ Suc k \<le> n" using assms by (simp add: less_eq_div_iff_mult_less_eq)
qed

lemma reads_after_byte: "reads (g b) bs w \<Longrightarrow> reads (\<lambda>s m. and_read (pb_readbyte e s m) g) (b # bs) w"
  using reads_sequence [of "pb_readbyte e" "[b]" b g bs w] by (simp add: reads_byte)

lemma varint64_loop_reads:
  assumes n: "n < 2 ^ 64"
  shows "k \<le> 9 \<Longrightarrow> reads (varint64_loop e (7 * k) (of_nat (n mod 128 ^ k))) (base128 (n div 128 ^ k)) (of_nat n)"
proof (induction "10 - k" arbitrary: k)
  case 0
  then show ?case by simp
next
  case (Suc j)
  have lt: "7 * k < LENGTH(64)" using Suc.prems by simp
  let ?step = "\<lambda>(b :: byte) s m. let result = of_nat (n mod 128 ^ k) OR push_bit (7 * k) (ucast (b AND 0x7F)) in
      if b AND 0x80 \<noteq> 0 then varint64_loop e (7 * k + 7) result s m else Some (Some result, s, m)"
  have loop: "varint64_loop e (7 * k) (of_nat (n mod 128 ^ k)) = (\<lambda>s m. and_read (pb_readbyte e s m) ?step)"
  proof (rule ext, rule ext)
    fix s m
    show "varint64_loop e (7 * k) (of_nat (n mod 128 ^ k)) s m = and_read (pb_readbyte e s m) ?step"
      using Suc.prems by (subst varint64_loop.simps, cases "pb_readbyte e s m")
        (auto simp: and_read_def Let_def split: option.split)
  qed
  show ?case
  proof (cases "n div 128 ^ k < 128")
    case True
    note d = last_digit [OF True]
    have "reads (?step (of_nat (n div 128 ^ k))) [] (of_nat n)"
      unfolding Let_def digit_bits [OF n d(1) lt] d(2,3) by (simp add: reads_value)
    then have "reads (\<lambda>s m. and_read (pb_readbyte e s m) ?step) [of_nat (n div 128 ^ k)] (of_nat n)"
      by (rule reads_after_byte)
    then show ?thesis using True unfolding loop by (simp add: base128.simps)
  next
    case False
    then have ge: "128 \<le> n div 128 ^ k" by simp
    note d = inner_digit [OF ge]
    have "(128 :: nat) ^ Suc k < 128 ^ 10"
      using d(3) n by (rule order.strict_trans1 [OF _ order.strict_trans]) simp
    then have "Suc k < 10" by (simp only: power_strict_increasing_iff rel_simps)
    then have "reads (varint64_loop e (7 * Suc k) (of_nat (n mod 128 ^ Suc k))) (base128 (n div 128 ^ Suc k)) (of_nat n)"
      using Suc.hyps by (intro Suc.hyps(1)) auto
    then have "reads (?step (of_nat (n div 128 ^ k mod 128 + 128))) (base128 (n div 128 ^ Suc k)) (of_nat n)"
      using digit_bits [OF n d(1) lt] d(2) by (simp add: add.commute del: of_nat_add power_Suc)
    then have "reads (\<lambda>s m. and_read (pb_readbyte e s m) ?step)
        (of_nat (n div 128 ^ k mod 128 + 128) # base128 (n div 128 ^ Suc k)) (of_nat n)"
      by (rule reads_after_byte)
    moreover have "base128 (n div 128 ^ k) =
        of_nat (n div 128 ^ k mod 128 + 128) # base128 (n div 128 ^ Suc k)"
      using False unfolding power_Suc2 div_mult2_eq by (subst base128.simps) simp
    ultimately show ?thesis unfolding loop by simp
  qed
qed

lemma reads_varint: "reads (pb_decode_varint e) (base128 (unat v)) v"
proof -
  have "reads (varint64_loop e (7 * 0) (of_nat (unat v mod 128 ^ 0))) (base128 (unat v div 128 ^ 0)) (of_nat (unat v))"
    by (rule varint64_loop_reads) (use less_exp [of v] in simp_all)
  moreover have "pb_decode_varint e = varint64_loop e 0 0" by (intro ext) (simp add: pb_decode_varint_def)
  ultimately show ?thesis by simp
qed

lemma high_bits:
  assumes "r < 128"
  shows "(of_nat r :: byte) AND 0x70 = 0 \<longleftrightarrow> r < 16"
proof -
  have "\<forall>r \<in> set [0..<128]. ((of_nat r :: byte) AND 0x70 = 0) = (r < 16)" by code_simp
  then show ?thesis using assms by simp
qed

definition varint32_step :: "decoder_env \<Rightarrow> byte \<Rightarrow> u32 \<Rightarrow> byte \<Rightarrow> istream \<Rightarrow> memory \<Rightarrow> u32 parsed" where
  "varint32_step e bitpos result b s m =
     (if 32 \<le> bitpos \<and> b AND 0x7F \<noteq> 0 \<and>
         (drop_bit 31 result = 0 \<or> b \<noteq> (if bitpos < 63 then 0xFF else 0x01))
      then read_error s m ''varint overflow''
      else
        let result = (if 32 \<le> bitpos then result
                      else result OR push_bit (unat bitpos) (ucast (b AND 0x7F)));
            bitpos = bitpos + 7 in
        if b AND 0x80 \<noteq> 0 then varint32_loop e bitpos result s m
        else if bitpos = 35 \<and> b AND 0x70 \<noteq> 0 then read_error s m ''varint overflow''
        else Some (Some result, s, m))"

lemma varint32_loop_step:
  "varint32_loop e bitpos result = (\<lambda>s m. and_read (pb_readbyte e s m) (varint32_step e bitpos result))"
proof (rule ext, rule ext)
  fix s m
  show "varint32_loop e bitpos result s m = and_read (pb_readbyte e s m) (varint32_step e bitpos result)"
    by (subst varint32_loop.simps, cases "pb_readbyte e s m")
      (auto simp: and_read_def varint32_step_def split: option.split)
qed

lemma bitpos_small:
  assumes "k \<le> 4"
  shows "\<not> 32 \<le> (of_nat (7 * k) :: byte)" "unat (of_nat (7 * k) :: byte) = 7 * k"
    "(of_nat (7 * k) :: byte) + 7 = of_nat (7 * Suc k)" "(of_nat (7 * Suc k) :: byte) = 35 \<longleftrightarrow> k = 4"
proof -
  have "k \<in> {0, 1, 2, 3, 4}" using assms by auto
  then show "\<not> 32 \<le> (of_nat (7 * k) :: byte)" "unat (of_nat (7 * k) :: byte) = 7 * k"
    "(of_nat (7 * k) :: byte) + 7 = of_nat (7 * Suc k)" "(of_nat (7 * Suc k) :: byte) = 35 \<longleftrightarrow> k = 4"
    by auto
qed

lemma bitpos_large:
  assumes "5 \<le> k" "k \<le> 9"
  shows "32 \<le> (of_nat (7 * k) :: byte)" "(of_nat (7 * k) :: byte) + 7 = of_nat (7 * Suc k)"
    "(of_nat (7 * k) :: byte) < 63 \<longleftrightarrow> k < 9" "(of_nat (7 * Suc k) :: byte) \<noteq> 35"
proof -
  have "k \<in> {5, 6, 7, 8, 9}" using assms by auto
  then show "32 \<le> (of_nat (7 * k) :: byte)" "(of_nat (7 * k) :: byte) + 7 = of_nat (7 * Suc k)"
    "(of_nat (7 * k) :: byte) < 63 \<longleftrightarrow> k < 9" "(of_nat (7 * Suc k) :: byte) \<noteq> 35"
    by auto
qed

text \<open>The two kinds of steps of the first five bytes, and the step of a byte behind them.\<close>

lemma varint32_step_inner:
  assumes "n < 2 ^ 64" "k \<le> 4" "128 \<le> n div 128 ^ k"
  shows "varint32_step e (of_nat (7 * k)) (of_nat (n mod 128 ^ k)) (of_nat (n div 128 ^ k mod 128 + 128)) =
    varint32_loop e (of_nat (7 * Suc k)) (of_nat (n mod 128 ^ Suc k))"
proof -
  have lt: "7 * k < LENGTH(32)" using assms(2) by simp
  note d = inner_digit [OF assms(3)] and b = bitpos_small [OF assms(2)]
  show ?thesis
    unfolding varint32_step_def Let_def b(2,3) digit_bits [OF assms(1) d(1) lt]
    using d(2) b(1) by (intro ext) (simp del: of_nat_add of_nat_mult of_nat_Suc power_Suc)
qed

lemma varint32_step_last:
  assumes "n < 2 ^ 64" "k \<le> 4" "n div 128 ^ k < 128"
  shows "varint32_step e (of_nat (7 * k)) (of_nat (n mod 128 ^ k)) (of_nat (n div 128 ^ k)) s m =
    (if n < 2 ^ 32 then Some (Some (of_nat n), s, m) else read_error s m ''varint overflow'')"
proof -
  have lt: "7 * k < LENGTH(32)" using assms(2) by simp
  note d = last_digit [OF assms(3)] and b = bitpos_small [OF assms(2)]
  have high: "(of_nat (n div 128 ^ k) :: byte) AND 0x70 = 0 \<longleftrightarrow> n div 128 ^ k < 16" by (rule high_bits [OF assms(3)])
  have "n < 2 ^ 32 \<longleftrightarrow> \<not> (k = 4 \<and> \<not> n div 128 ^ k < 16)"
  proof (cases "k = 4")
    case True
    then show ?thesis by (simp add: div_less_iff_less_mult)
  next
    case False
    then have "k \<in> {0, 1, 2, 3}" using assms(2) by auto
    then show ?thesis using assms(3) by (auto simp: div_less_iff_less_mult)
  qed
  moreover obtain r where r: "n div 128 ^ k = r" by simp
  ultimately show ?thesis
    unfolding varint32_step_def Let_def b(2,3,4) digit_bits [OF assms(1) d(1) lt] d(3)
    using d(2) b(1) high unfolding r by (auto simp del: of_nat_add of_nat_mult of_nat_Suc power_Suc)
qed

text \<open>Steps that end with an error on the given bytes.\<close>

definition rejects :: "(istream \<Rightarrow> memory \<Rightarrow> 'a parsed) \<Rightarrow> byte list \<Rightarrow> string \<Rightarrow> bool" where
  "rejects f bs msg \<longleftrightarrow>
     (\<forall>s m. holds s m bs \<longrightarrow> (\<exists>j \<le> length bs. f s m = read_error (skipped s j) m msg))"

lemma rejects_after_byte:
  assumes "rejects (g b) bs msg"
  shows "rejects (\<lambda>s m. and_read (pb_readbyte e s m) g) (b # bs) msg"
  unfolding rejects_def
proof (intro allI impI)
  fix s m assume "holds s m (b # bs)"
  then have h: "holds s m [b]" "holds (skipped s 1) m bs" using holds_append [of s m "[b]" bs] by simp_all
  from assms h(2) obtain j where "j \<le> length bs" "g b (skipped s 1) m = read_error (skipped (skipped s 1) j) m msg"
    unfolding rejects_def by blast
  then show "\<exists>j \<le> length (b # bs). and_read (pb_readbyte e s m) g = read_error (skipped s j) m msg"
    using readsD [OF reads_byte h(1)] by (intro exI [of _ "Suc j"]) (simp add: and_read_def)
qed

lemma rejects_at_once: "(\<And>s m. f s m = read_error s m msg) \<Longrightarrow> rejects f bs msg"
  by (auto simp: rejects_def intro!: exI [of _ 0])

text \<open>The five bytes of a number that does not fit in 35 bits lead to the bytes behind them.\<close>

lemma varint32_long:
  assumes after: "\<And>g b bs. P (g b) bs \<Longrightarrow> P (\<lambda>s m. and_read (pb_readbyte e s m) g) (b # bs)"
    and n: "n < 2 ^ 64" "2 ^ 35 \<le> n"
    and tail: "P (varint32_loop e (of_nat (7 * 5)) (of_nat (n mod 128 ^ 5))) (base128 (n div 128 ^ 5))"
  shows "k \<le> 5 \<Longrightarrow> P (varint32_loop e (of_nat (7 * k)) (of_nat (n mod 128 ^ k))) (base128 (n div 128 ^ k))"
proof (induction "5 - k" arbitrary: k)
  case 0
  then show ?case using tail by simp
next
  case (Suc j)
  then have k: "k \<le> 4" by simp
  have "128 ^ k * 128 \<le> n"
  proof -
    have "(128 :: nat) ^ Suc k \<le> 128 ^ 5" using k by (intro power_increasing) auto
    then show ?thesis using n(2) by (simp add: mult.commute)
  qed
  then have ge: "128 \<le> n div 128 ^ k" by (simp add: less_eq_div_iff_mult_less_eq mult.commute)
  have "P (varint32_loop e (of_nat (7 * Suc k)) (of_nat (n mod 128 ^ Suc k))) (base128 (n div 128 ^ Suc k))"
    using Suc.hyps k by (intro Suc.hyps(1)) auto
  then have "P (varint32_step e (of_nat (7 * k)) (of_nat (n mod 128 ^ k)) (of_nat (n div 128 ^ k mod 128 + 128)))
      (base128 (n div 128 ^ Suc k))"
    unfolding varint32_step_inner [OF n(1) k ge] .
  from after [where g = "varint32_step e (of_nat (7 * k)) (of_nat (n mod 128 ^ k))", OF this] show ?case
    using ge unfolding varint32_loop_step [of e "of_nat (7 * k)"]
    by (subst base128.simps) (simp only: power_Suc2 div_mult2_eq not_less [symmetric] if_False)
qed

lemma varint32_short:
  "n < 2 ^ 32 \<Longrightarrow> k \<le> 4 \<Longrightarrow>
   reads (varint32_loop e (of_nat (7 * k)) (of_nat (n mod 128 ^ k))) (base128 (n div 128 ^ k)) (of_nat n)"
proof (induction "5 - k" arbitrary: k)
  case 0
  then show ?case by simp
next
  case (Suc j)
  have n: "n < 2 ^ 64" using Suc.prems(1) by simp
  show ?case
  proof (cases "n div 128 ^ k < 128")
    case True
    have "reads (varint32_step e (of_nat (7 * k)) (of_nat (n mod 128 ^ k)) (of_nat (n div 128 ^ k))) [] (of_nat n)"
      using varint32_step_last [OF n Suc.prems(2) True] Suc.prems(1) by (simp add: reads_def)
    from reads_after_byte [where g = "varint32_step e (of_nat (7 * k)) (of_nat (n mod 128 ^ k))", OF this] show ?thesis
      using True unfolding varint32_loop_step [of e "of_nat (7 * k)"] by (subst base128.simps) simp
  next
    case False
    then have ge: "128 \<le> n div 128 ^ k" by simp
    have "(128 :: nat) ^ Suc k < 128 ^ 5"
      using inner_digit(3) [OF ge] Suc.prems(1) by (rule order.strict_trans1 [OF _ order.strict_trans]) simp
    then have "Suc k < 5" by (simp only: power_strict_increasing_iff rel_simps)
    then have "reads (varint32_loop e (of_nat (7 * Suc k)) (of_nat (n mod 128 ^ Suc k))) (base128 (n div 128 ^ Suc k)) (of_nat n)"
      using Suc.hyps Suc.prems(1) by (intro Suc.hyps(1)) auto
    then have "reads (varint32_step e (of_nat (7 * k)) (of_nat (n mod 128 ^ k)) (of_nat (n div 128 ^ k mod 128 + 128)))
        (base128 (n div 128 ^ Suc k)) (of_nat n)"
      unfolding varint32_step_inner [OF n Suc.prems(2) ge] .
    from reads_after_byte [where g = "varint32_step e (of_nat (7 * k)) (of_nat (n mod 128 ^ k))", OF this] show ?thesis
      using ge unfolding varint32_loop_step [of e "of_nat (7 * k)"]
      by (subst base128.simps) (simp only: power_Suc2 div_mult2_eq not_less [symmetric] if_False)
  qed
qed

lemma varint32_step_large:
  assumes "5 \<le> k" "k \<le> 9"
  shows "varint32_step e (of_nat (7 * k)) res b s m =
    (if b AND 0x7F \<noteq> 0 \<and> (drop_bit 31 res = 0 \<or> b \<noteq> (if k < 9 then 0xFF else 0x01))
     then read_error s m ''varint overflow''
     else if b AND 0x80 \<noteq> 0 then varint32_loop e (of_nat (7 * Suc k)) res s m
     else Some (Some res, s, m))"
  unfolding varint32_step_def Let_def bitpos_large(2,3) [OF assms]
  using bitpos_large(1,4) [OF assms] by (simp del: of_nat_mult of_nat_Suc)

lemma varint32_sign_extension:
  assumes res: "drop_bit 31 res \<noteq> 0"
  shows "5 \<le> k \<Longrightarrow> k \<le> 9 \<Longrightarrow> reads (varint32_loop e (of_nat (7 * k)) res) (base128 (2 ^ (64 - 7 * k) - 1)) res"
proof (induction "9 - k" arbitrary: k)
  case 0
  then have k: "k = 9" by simp
  have "reads (varint32_step e (of_nat (7 * k)) res 1) [] res"
    using varint32_step_large [of k e res 1] res k by (simp add: reads_def)
  from reads_after_byte [where g = "varint32_step e (of_nat (7 * k)) res", OF this] show ?case
    using k unfolding varint32_loop_step [of e "of_nat (7 * k)"] by (simp add: base128_small)
next
  case (Suc j)
  then have k: "k < 9" by simp
  define x where "x = (2 :: nat) ^ (64 - 7 * Suc k) - 1"
  have p: "(2 :: nat) ^ (64 - 7 * k) = 128 * 2 ^ (64 - 7 * Suc k)"
  proof -
    have "64 - 7 * k = 7 + (64 - 7 * Suc k)" using k by simp
    then show ?thesis by (simp only: power_add) simp
  qed
  have pos: "(1 :: nat) \<le> 2 ^ (64 - 7 * Suc k)" by simp
  have val: "(2 :: nat) ^ (64 - 7 * k) - 1 = 128 * x + 127"
    unfolding p x_def using pos by (simp only: diff_mult_distrib2)
  have "1 \<le> x"
  proof -
    have "(2 :: nat) ^ 1 \<le> 2 ^ (64 - 7 * Suc k)" using k by (intro power_increasing) auto
    then show ?thesis unfolding x_def by simp
  qed
  then have bytes: "base128 (128 * x + 127) = 0xFF # base128 x"
    by (subst base128.simps) simp
  have "reads (varint32_loop e (of_nat (7 * Suc k)) res) (base128 x) res"
    unfolding x_def using Suc k by (intro Suc.hyps(1)) auto
  then have "reads (varint32_step e (of_nat (7 * k)) res 0xFF) (base128 x) res"
    using varint32_step_large [of k e res "0xFF"] res k Suc.prems by (simp add: reads_def del: of_nat_mult of_nat_Suc)
  from reads_after_byte [where g = "varint32_step e (of_nat (7 * k)) res", OF this] show ?case
    unfolding varint32_loop_step [of e "of_nat (7 * k)"] val bytes .
qed

lemma varint32_overflow:
  "5 \<le> k \<Longrightarrow> k \<le> 9 \<Longrightarrow> 0 < r \<Longrightarrow> r < 2 ^ (63 - 7 * k) \<Longrightarrow>
   rejects (varint32_loop e (of_nat (7 * k)) res) (base128 r) ''varint overflow''"
proof (induction "9 - k" arbitrary: k r)
  case 0
  then show ?case by simp
next
  case (Suc j)
  then have k: "k < 9" by simp
  show ?case
  proof (cases "r < 128")
    case True
    then have u: "unat (of_nat r :: byte) = r" by (simp add: unat_of_nat)
    then have "unat ((of_nat r :: byte) AND 0x7F) = r"
      using unat_and_127 [of "of_nat r"] True by (simp add: and.commute)
    then have "(of_nat r :: byte) AND 0x7F \<noteq> 0" using Suc.prems(3) by (metis unat_0 less_irrefl)
    moreover have "(of_nat r :: byte) \<noteq> 0xFF"
    proof
      assume "(of_nat r :: byte) = 0xFF"
      then have "r = unat (0xFF :: byte)" using u by simp
      then show False using True by simp
    qed
    ultimately have "rejects (varint32_step e (of_nat (7 * k)) res (of_nat r)) [] ''varint overflow''"
      using varint32_step_large [of k e res "of_nat r"] k Suc.prems(1) by (intro rejects_at_once) simp
    from rejects_after_byte [where g = "varint32_step e (of_nat (7 * k)) res", OF this] show ?thesis
      using True unfolding varint32_loop_step [of e "of_nat (7 * k)"] by (simp add: base128_small)
  next
    case False
    let ?b = "of_nat (r mod 128 + 128) :: byte"
    have hi: "?b AND 0x80 \<noteq> 0" using inner_digit(2) [of r 0] False by simp
    have "r div 128 < 2 ^ (63 - 7 * Suc k)"
    proof -
      have "63 - 7 * k = 7 + (63 - 7 * Suc k)" using k by simp
      then have "r < 128 * 2 ^ (63 - 7 * Suc k)" using Suc.prems(4) by (simp only: power_add) simp
      then show ?thesis by (simp add: div_less_iff_less_mult mult.commute)
    qed
    moreover have "0 < r div 128" using False by (simp add: div_greater_zero_iff)
    ultimately have "rejects (varint32_loop e (of_nat (7 * Suc k)) res) (base128 (r div 128)) ''varint overflow''"
      using Suc.hyps k Suc.prems(1) by (intro Suc.hyps(1)) auto
    then have "rejects (varint32_step e (of_nat (7 * k)) res ?b) (base128 (r div 128)) ''varint overflow''"
      unfolding rejects_def varint32_step_large [OF Suc.prems(1,2)] using hi by (auto intro!: exI [of _ 0])
    from rejects_after_byte [where g = "varint32_step e (of_nat (7 * k)) res", OF this] show ?thesis
      using False unfolding varint32_loop_step [of e "of_nat (7 * k)"] by (subst base128.simps) simp
  qed
qed

lemma varint32_first:
  "pb_decode_varint32 e = (\<lambda>s m. and_read (pb_readbyte e s m)
     (\<lambda>b s m. if b AND 0x80 = 0 then Some (Some (ucast b), s, m)
               else varint32_loop e 7 (ucast (b AND 0x7F)) s m))"
proof (rule ext, rule ext)
  fix s m
  show "pb_decode_varint32 e s m = and_read (pb_readbyte e s m)
     (\<lambda>b s m. if b AND 0x80 = 0 then Some (Some (ucast b), s, m)
               else varint32_loop e 7 (ucast (b AND 0x7F)) s m)"
  proof (cases "pb_readbyte e s m")
    case None
    then show ?thesis by (simp add: pb_decode_varint32_def pb_decode_varint32_eof_def and_read_def)
  next
    case (Some r)
    obtain v s1 m1 where r: "r = (v, s1, m1)" by (cases r)
    show ?thesis
      unfolding pb_decode_varint32_def pb_decode_varint32_eof_def and_read_def Some r
      by (cases v; cases "varint32_loop e 7 (ucast (the v AND 0x7F)) s1 m1") auto
  qed
qed

lemma varint32_begin:
  assumes after: "\<And>g b bs. P (g b) bs \<Longrightarrow> P (\<lambda>s m. and_read (pb_readbyte e s m) g) (b # bs)"
    and n: "n < 2 ^ 64" "128 \<le> n"
    and tail: "P (varint32_loop e (of_nat (7 * 1)) (of_nat (n mod 128 ^ 1))) (base128 (n div 128 ^ 1))"
  shows "P (pb_decode_varint32 e) (base128 n)"
proof -
  let ?b = "of_nat (n mod 128 + 128) :: byte"
  let ?g = "\<lambda>(b :: byte) s m. if b AND 0x80 = 0 then Some (Some (ucast b :: u32), s, m)
      else varint32_loop e 7 (ucast (b AND 0x7F)) s m"
  have d: "unat ?b mod 128 = n div 128 ^ 0 mod 128" "?b AND 0x80 \<noteq> 0"
    using inner_digit [of n 0] n(2) by simp_all
  have "(of_nat (n mod 128 ^ 0) :: u32) OR push_bit (7 * 0) (ucast (?b AND 0x7F)) = of_nat (n mod 128 ^ Suc 0)"
    by (rule digit_bits [OF n(1) d(1)]) simp
  then have "?g ?b = varint32_loop e (of_nat (7 * 1)) (of_nat (n mod 128 ^ 1))"
    using d(2) by (intro ext) (simp del: of_nat_add)
  then have "P (?g ?b) (base128 (n div 128))" using tail by simp
  from after [where g = ?g, OF this] n(2) show ?thesis
    unfolding varint32_first by (subst base128.simps) simp
qed

lemma reads_varint32: "reads (pb_decode_varint32 e) (base128 (unat w)) w"
proof (cases "unat w < 128")
  case True
  have "reads (\<lambda>s m. if (of_nat (unat w) :: byte) AND 0x80 = 0 then Some (Some (ucast (of_nat (unat w) :: byte)), s, m)
               else varint32_loop e 7 (ucast ((of_nat (unat w) :: byte) AND 0x7F)) s m) [] w"
  proof -
    have "(of_nat (unat w) :: byte) AND 0x80 = 0" using last_digit(2) [of "unat w" 0] True by simp
    moreover have "ucast (of_nat (unat w) :: byte) = w"
    proof -
      have "unat (of_nat (unat w) :: byte) = unat w" using True by (simp only: unat_of_nat) simp
      then show ?thesis by (metis of_nat_unat ucast_id)
    qed
    ultimately show ?thesis by (simp add: reads_value)
  qed
  from reads_after_byte [where g = "\<lambda>b s m. if b AND 0x80 = 0 then Some (Some (ucast b), s, m)
      else varint32_loop e 7 (ucast (b AND 0x7F)) s m", OF this] True show ?thesis
    unfolding varint32_first by (simp add: base128_small)
next
  case False
  have n: "unat w < 2 ^ 32" using unsigned_less [of w] by simp
  have "reads (varint32_loop e (of_nat (7 * 1)) (of_nat (unat w mod 128 ^ 1))) (base128 (unat w div 128 ^ 1)) (of_nat (unat w))"
    by (rule varint32_short [OF n]) simp
  then have "reads (pb_decode_varint32 e) (base128 (unat w)) (of_nat (unat w))"
    using n False
    by (intro varint32_begin [where P = "\<lambda>f bs. reads f bs (of_nat (unat w))"] reads_after_byte) simp_all
  then show ?thesis by simp
qed

lemma reads_varint32_negative:
  assumes "0xFFFFFFFF80000000 \<le> (v :: u64)"
  shows "reads (pb_decode_varint32 e) (base128 (unat v)) (ucast v)"
proof -
  define n where "n = unat v"
  have n: "n < 2 ^ 64" "2 ^ 64 - 2 ^ 31 \<le> n"
    using less_exp [of v] assms by (simp_all add: n_def word_le_nat_alt)
  define res :: u32 where "res = of_nat (n mod 128 ^ 5)"
  have low: "res = of_nat n"
  proof -
    have "n mod 128 ^ 5 mod 2 ^ 32 = n mod 2 ^ 32" by (rule mod_mod_cancel) (simp add: dvd_def)
    then show ?thesis unfolding res_def by (simp add: word_of_nat_eq_iff take_bit_eq_mod)
  qed
  have r: "n div 128 ^ 5 = 2 ^ (64 - 7 * 5) - 1"
  proof -
    have "n div 128 ^ 5 = 2 ^ 29 - 1" using n by (intro div_nat_eqI) simp_all
    then show ?thesis by simp
  qed
  have "drop_bit 31 res \<noteq> 0"
  proof -
    have "unat res = n mod 2 ^ 32" unfolding low by (simp add: unat_of_nat)
    also have "\<dots> = n - (2 ^ 64 - 2 ^ 32)"
    proof -
      have "n = (n - (2 ^ 64 - 2 ^ 32)) + 2 ^ 32 * (2 ^ 32 - 1)" using n by simp
      then have "n mod 2 ^ 32 = (n - (2 ^ 64 - 2 ^ 32)) mod 2 ^ 32" by (metis mod_mult_self2)
      also have "\<dots> = n - (2 ^ 64 - 2 ^ 32)" using n by simp
      finally show ?thesis .
    qed
    finally have "2 ^ 31 \<le> unat res" using n by simp
    then have "unat (drop_bit 31 res) \<noteq> 0" by (simp add: drop_bit_eq_div unat_div)
    then show ?thesis by (metis unat_0)
  qed
  then have "reads (varint32_loop e (of_nat (7 * 5)) (of_nat (n mod 128 ^ 5))) (base128 (n div 128 ^ 5)) res"
    unfolding r res_def [symmetric] by (rule varint32_sign_extension) simp_all
  then have "reads (varint32_loop e (of_nat (7 * 1)) (of_nat (n mod 128 ^ 1))) (base128 (n div 128 ^ 1)) res"
    using n(2) by (intro varint32_long [where k = 1 and P = "\<lambda>f bs. reads f bs res", OF reads_after_byte n(1)]) simp_all
  then have "reads (pb_decode_varint32 e) (base128 n) res"
    using n(2) by (intro varint32_begin [where P = "\<lambda>f bs. reads f bs res", OF reads_after_byte n(1)]) simp_all
  then show ?thesis unfolding low n_def by simp
qed

lemma varint32_five:
  "2 ^ 32 \<le> n \<Longrightarrow> n < 2 ^ 35 \<Longrightarrow> k \<le> 4 \<Longrightarrow>
   rejects (varint32_loop e (of_nat (7 * k)) (of_nat (n mod 128 ^ k))) (base128 (n div 128 ^ k)) ''varint overflow''"
proof (induction "5 - k" arbitrary: k)
  case 0
  then show ?case by simp
next
  case (Suc j)
  have n: "n < 2 ^ 64" using Suc.prems(2) by simp
  show ?case
  proof (cases "n div 128 ^ k < 128")
    case True
    have "rejects (varint32_step e (of_nat (7 * k)) (of_nat (n mod 128 ^ k)) (of_nat (n div 128 ^ k))) [] ''varint overflow''"
      using Suc.prems(1) by (intro rejects_at_once) (simp only: varint32_step_last [OF n Suc.prems(3) True] not_less [symmetric] if_False)
    from rejects_after_byte [where g = "varint32_step e (of_nat (7 * k)) (of_nat (n mod 128 ^ k))", OF this] show ?thesis
      using True unfolding varint32_loop_step [of e "of_nat (7 * k)"] by (subst base128.simps) simp
  next
    case False
    then have ge: "128 \<le> n div 128 ^ k" by simp
    have "(128 :: nat) ^ Suc k < 128 ^ 5"
    proof (rule order.strict_trans1 [OF inner_digit(3) [OF ge]])
      have "(2 :: nat) ^ 35 = 128 ^ 5" by simp
      with Suc.prems(2) show "n < 128 ^ 5" by (simp only:)
    qed
    then have "Suc k < 5" by (simp only: power_strict_increasing_iff rel_simps)
    then have "rejects (varint32_loop e (of_nat (7 * Suc k)) (of_nat (n mod 128 ^ Suc k))) (base128 (n div 128 ^ Suc k)) ''varint overflow''"
      using Suc.hyps Suc.prems(1,2) by (intro Suc.hyps(1)) auto
    then have "rejects (varint32_step e (of_nat (7 * k)) (of_nat (n mod 128 ^ k)) (of_nat (n div 128 ^ k mod 128 + 128)))
        (base128 (n div 128 ^ Suc k)) ''varint overflow''"
      using varint32_step_inner [OF n Suc.prems(3) ge] by simp
    from rejects_after_byte [where g = "varint32_step e (of_nat (7 * k)) (of_nat (n mod 128 ^ k))", OF this] show ?thesis
      using ge unfolding varint32_loop_step [of e "of_nat (7 * k)"]
      by (subst base128.simps) (simp add: power_Suc2 div_mult2_eq del: power_Suc)
  qed
qed

lemma rejects_varint32:
  assumes "0x100000000 \<le> (v :: u64)" "v < 0x8000000000000000"
  shows "rejects (pb_decode_varint32 e) (base128 (unat v)) ''varint overflow''"
proof -
  define n where "n = unat v"
  have n: "n < 2 ^ 63" "2 ^ 32 \<le> n" "n < 2 ^ 64"
    using less_exp [of v] assms by (simp_all add: n_def word_le_nat_alt word_less_nat_alt)
  have "rejects (varint32_loop e (of_nat (7 * 1)) (of_nat (n mod 128 ^ 1))) (base128 (n div 128 ^ 1)) ''varint overflow''"
  proof (cases "2 ^ 35 \<le> n")
    case True
    have "n div 128 ^ 5 < 2 ^ (63 - 7 * 5)" using n(1) by (simp add: div_less_iff_less_mult)
    moreover have "0 < n div 128 ^ 5" using True by (simp add: div_greater_zero_iff)
    ultimately have "rejects (varint32_loop e (of_nat (7 * 5)) (of_nat (n mod 128 ^ 5))) (base128 (n div 128 ^ 5)) ''varint overflow''"
      by (intro varint32_overflow) simp_all
    then show ?thesis
      by (intro varint32_long [where k = 1 and P = "\<lambda>f bs. rejects f bs ''varint overflow''", OF rejects_after_byte n(3) True]) simp_all
  next
    case False
    then show ?thesis using n(2) by (intro varint32_five) simp_all
  qed
  then have "rejects (pb_decode_varint32 e) (base128 n) ''varint overflow''"
    using n(2) by (intro varint32_begin [where P = "\<lambda>f bs. rejects f bs ''varint overflow''", OF rejects_after_byte n(3)]) simp_all
  then show ?thesis unfolding n_def .
qed

section \<open>Tags and skipped fields\<close>

text \<open>A wire value whose bytes a receiver accepts: a length is 32 bits wide.\<close>

fun wire_ok :: "wire_value \<Rightarrow> bool" where
  "wire_ok (Varint v) = True"
| "wire_ok (Fixed32 bs) = (length bs = 4)"
| "wire_ok (Fixed64 bs) = (length bs = 8)"
| "wire_ok (Delimited bs) = (length bs < 2 ^ 32)"

lemma reads_skip_varint: "reads (pb_skip_varint e) (base128 n) ()"
proof (induction n rule: base128.induct)
  case (1 n)
  have step: "pb_skip_varint e = (\<lambda>s m. and_read (pb_read e s m LocalBuffer 1)
      (\<lambda>bs s m. if hd bs AND 0x80 \<noteq> 0 then pb_skip_varint e s m else Some (Some (), s, m)))"
    by (intro ext, subst pb_skip_varint.simps) (auto simp: and_read_def split: option.splits)
  let ?g = "\<lambda>(bs :: byte list) s m. if hd bs AND 0x80 \<noteq> 0 then pb_skip_varint e s m else Some (Some (), s, m)"
  have one: "reads (\<lambda>s m. pb_read e s m LocalBuffer 1) [b] [b]" for b by (rule reads_local) simp
  show ?case
  proof (cases "n < 128")
    case True
    then have "(of_nat n :: byte) AND 0x80 = 0" using last_digit(2) [of n 0] by simp
    then have "reads (?g [of_nat n]) [] ()" by (simp add: reads_value)
    from reads_sequence [where g = ?g, OF one this] show ?thesis
      using True by (subst step) (simp add: base128_small)
  next
    case False
    let ?b = "of_nat (n mod 128 + 128) :: byte"
    have "?b AND 0x80 \<noteq> 0" using inner_digit(2) [of n 0] False by simp
    then have "?g [?b] = pb_skip_varint e" by (intro ext) (simp del: of_nat_add)
    then have "reads (?g [?b]) (base128 (n div 128)) ()" using 1 [OF False] by simp
    from reads_sequence [where g = ?g, OF one this] show ?thesis
      using False by (subst step, subst base128.simps) simp
  qed
qed

lemma reads_skip_string:
  assumes "length bs < 2 ^ 32"
  shows "reads (pb_skip_string e) (base128 (length bs) @ bs) ()"
proof -
  define n :: u32 where "n = of_nat (length bs)"
  have n: "unat n = length bs" using assms by (simp add: n_def unat_of_nat)
  then have "reads (\<lambda>s m. pb_read e s m Discard (ucast n)) bs []"
    by (intro reads_discard) (simp add: unat_ucast_up)
  from reads_sequence [where g = "\<lambda>n s m. and_read (pb_read e s m Discard (ucast n)) (\<lambda>_ s m. Some (Some (), s, m))",
      OF reads_varint32 [of e n] reads_map [OF this, of "\<lambda>_. ()"]] show ?thesis
    unfolding pb_skip_string_def n .
qed

lemmas PB_WT_defs = PB_WT_VARINT_def PB_WT_64BIT_def PB_WT_STRING_def PB_WT_32BIT_def

lemma reads_skip_field:
  assumes "wire_ok w"
  shows "reads (\<lambda>s m. pb_skip_field e s m (of_nat (wire_type w))) (payload w) ()"
proof (cases w)
  case (Varint v)
  then show ?thesis using reads_skip_varint [of e "unat v"] by (simp add: pb_skip_field_def PB_WT_defs)
next
  case (Fixed32 bs)
  with assms have "reads (\<lambda>s m. pb_read e s m Discard 4) bs []" by (intro reads_discard) simp
  from reads_map [OF this, of "\<lambda>_. ()"] Fixed32 show ?thesis
    by (simp add: pb_skip_field_def PB_WT_defs)
next
  case (Fixed64 bs)
  with assms have "reads (\<lambda>s m. pb_read e s m Discard 8) bs []" by (intro reads_discard) simp
  from reads_map [OF this, of "\<lambda>_. ()"] Fixed64 show ?thesis
    by (simp add: pb_skip_field_def PB_WT_defs)
next
  case (Delimited bs)
  then show ?thesis using reads_skip_string [of bs e] assms by (simp add: pb_skip_field_def PB_WT_defs)
qed

lemma reads_tag:
  assumes "w < 8" "0 < unat tag" "unat tag < 2 ^ 29" "holds s m (tag_bytes tag w)"
  shows "pb_decode_tag e s m = Some ((Some (of_nat w, tag), False), skipped s (length (tag_bytes tag w)), m)"
proof -
  define x :: u32 where "x = of_nat (8 * unat tag + w)"
  have x: "unat x = 8 * unat tag + w" using assms(1,3) by (simp add: x_def unat_of_nat del: of_nat_add)
  have "reads (pb_decode_varint32 e) (tag_bytes tag w) x"
    using reads_varint32 [of e x] unfolding x tag_bytes_def .
  from readsD [OF this assms(4)]
  obtain eof where r: "pb_decode_varint32_eof e s m = Some ((Some x, eof), skipped s (length (tag_bytes tag w)), m)"
    by (auto simp: pb_decode_varint32_def bind_eq_Some_conv)
  have "eof = False"
    using r by (auto simp: pb_decode_varint32_eof_def bind_eq_Some_conv split: option.splits if_splits)
  moreover have "x \<noteq> 0" using x assms(2) by auto
  moreover have "unat (x AND 7) = w"
  proof -
    have "x AND 7 = take_bit 3 x" by (simp add: take_bit_eq_mask mask_eq_exp_minus_1)
    then show ?thesis using x assms(1) by (simp only: unsigned_take_bit_eq) (simp add: take_bit_eq_mod)
  qed
  then have "(ucast (x AND 7) :: u64) = of_nat w" by (metis of_nat_unat)
  moreover have "drop_bit 3 x = tag"
    by (rule word_unat_eq_iff [THEN iffD2]) (use x assms(1) in \<open>simp add: drop_bit_eq_div unat_div\<close>)
  ultimately show ?thesis using r by (simp add: pb_decode_tag_def)
qed

section \<open>What the varint readers accept\<close>

text \<open>An environment in which no function of the application is called.\<close>

definition quiet_env :: decoder_env where
  "quiet_env = \<lparr>call_read = (\<lambda>f s m n. None), call_decode = (\<lambda>f s m pos arg. None),
     call_ext_decode = (\<lambda>f s m ext tag wt. None), pb_realloc = (\<lambda>m p n. None), pb_free = (\<lambda>m p. None),
     fixed_count_at = (\<lambda>n. 0x5000 + of_nat (4 * n)), value_buffer = 0x6000\<rparr>"

text \<open>
  C34. A 64-bit number is read back from the groups of seven bits that \<open>pb_encode_varint\<close> writes for
  it, and so is a 32-bit number by \<open>pb_decode_varint32\<close>; that reader also takes the ten bytes of a
  negative 32-bit number extended to 64 bits, and reports \<open>varint overflow\<close> for the bytes of any other
  number below \<open>2 ^ 63\<close> that does not fit in 32 bits.
\<close>
theorem pb_decode_varint_correct:
  "reads (pb_decode_varint e) (base128 (unat v)) v \<and>
   (unat v < 2 ^ 32 \<longrightarrow> reads (pb_decode_varint32 e) (base128 (unat v)) (ucast v)) \<and>
   (2 ^ 64 - 2 ^ 31 \<le> unat v \<longrightarrow> reads (pb_decode_varint32 e) (base128 (unat v)) (ucast v)) \<and>
   (2 ^ 32 \<le> unat v \<and> unat v < 2 ^ 63 \<longrightarrow>
      rejects (pb_decode_varint32 e) (base128 (unat v)) ''varint overflow'')"
proof (intro conjI impI)
  show "reads (pb_decode_varint e) (base128 (unat v)) v" by (rule reads_varint)
next
  assume "unat v < 2 ^ 32"
  then have "unat (ucast v :: u32) = unat v" by (simp add: unsigned_ucast_eq take_bit_nat_eq_self)
  then show "reads (pb_decode_varint32 e) (base128 (unat v)) (ucast v)" using reads_varint32 [of e "ucast v"] by simp
next
  assume "2 ^ 64 - 2 ^ 31 \<le> unat v"
  then show "reads (pb_decode_varint32 e) (base128 (unat v)) (ucast v)"
    by (intro reads_varint32_negative) (simp add: word_le_nat_alt)
next
  assume "2 ^ 32 \<le> unat v \<and> unat v < 2 ^ 63"
  then show "rejects (pb_decode_varint32 e) (base128 (unat v)) ''varint overflow''"
    by (intro rejects_varint32) (simp_all add: word_le_nat_alt word_less_nat_alt)
qed

theorem pb_decode_varint_correct_witness:
  "reads (pb_decode_varint32 quiet_env) (base128 300) 300 \<and>
   reads (pb_decode_varint32 quiet_env) (base128 0xFFFFFFFFFFFFFFFF) 0xFFFFFFFF \<and>
   rejects (pb_decode_varint32 quiet_env) (base128 (2 ^ 40)) ''varint overflow''"
proof (intro conjI)
  show "reads (pb_decode_varint32 quiet_env) (base128 300) 300" using pb_decode_varint_correct [of quiet_env "300"] by simp
  show "reads (pb_decode_varint32 quiet_env) (base128 0xFFFFFFFFFFFFFFFF) 0xFFFFFFFF"
  proof -
    have "(0xFFFFFFFFFFFFFFFF :: u32) = 0xFFFFFFFF" by (rule word_unat_eq_iff [THEN iffD2]) simp
    moreover have "reads (pb_decode_varint32 quiet_env) (base128 0xFFFFFFFFFFFFFFFF) (0xFFFFFFFFFFFFFFFF :: u32)"
      using pb_decode_varint_correct [of quiet_env "0xFFFFFFFFFFFFFFFF"] by simp
    ultimately show ?thesis by (simp only:)
  qed
  show "rejects (pb_decode_varint32 quiet_env) (base128 (2 ^ 40)) ''varint overflow''"
    using pb_decode_varint_correct [of quiet_env "2 ^ 40"] by simp
qed

text \<open>A byte that only says that more bytes follow leaves the value as it is.\<close>

lemma varint32_empty_group:
  "reads (varint32_loop e (bitpos + 7) res) bs v \<Longrightarrow> reads (varint32_loop e bitpos res) (0x80 # bs) v"
proof -
  assume r: "reads (varint32_loop e (bitpos + 7) res) bs v"
  have "varint32_step e bitpos res 0x80 = varint32_loop e (bitpos + 7) res"
    by (intro ext) (simp add: varint32_step_def)
  with r have "reads (varint32_step e bitpos res 0x80) bs v" by simp
  from reads_after_byte [where g = "varint32_step e bitpos res", OF this] show ?thesis
    by (simp only: varint32_loop_step)
qed

lemma varint32_empty_groups:
  "reads (varint32_loop e (bitpos + of_nat (7 * k)) res) bs v \<Longrightarrow>
   reads (varint32_loop e bitpos res) (replicate k 0x80 @ bs) v"
proof (induction k arbitrary: bitpos)
  case 0
  then show ?case by simp
next
  case (Suc k)
  then have "reads (varint32_loop e (bitpos + 7) res) (replicate k 0x80 @ bs) v"
    by (intro Suc.IH) (simp add: algebra_simps)
  from varint32_empty_group [OF this] show ?case by simp
qed

lemma varint64_empty_groups:
  "64 \<le> bitpos + 7 * k \<Longrightarrow> rejects (varint64_loop e bitpos res) (replicate k 0x80 @ bs) ''varint overflow''"
proof (induction k arbitrary: bitpos)
  case 0
  then show ?case by (intro rejects_at_once) (simp add: varint64_loop.simps)
next
  case (Suc k)
  show ?case
  proof (cases "64 \<le> bitpos")
    case True
    then show ?thesis by (intro rejects_at_once) (simp add: varint64_loop.simps)
  next
    case False
    let ?g = "\<lambda>(b :: byte) s m. let result = res OR push_bit bitpos (ucast (b AND 0x7F)) in
        if b AND 0x80 \<noteq> 0 then varint64_loop e (bitpos + 7) result s m else Some (Some result, s, m)"
    have step: "varint64_loop e bitpos res = (\<lambda>s m. and_read (pb_readbyte e s m) ?g)"
      using False by (intro ext, subst varint64_loop.simps) (auto simp: and_read_def split: option.splits)
    have "rejects (?g 0x80) (replicate k 0x80 @ bs) ''varint overflow''"
      using Suc.IH [of "bitpos + 7"] Suc.prems by simp
    from rejects_after_byte [where g = ?g, OF this] show ?thesis unfolding step by simp
  qed
qed

text \<open>
  The position of the next group in \<open>pb_decode_varint32\<close> is a \<open>uint_fast8_t\<close>, and it is not
  bounded while the groups are empty: after 37 bytes \<open>0x80\<close> it has wrapped to 3, and the byte \<open>0x01\<close>
  that follows, worth \<open>2 ^ 259\<close>, is accepted as 8. \<open>pb_decode_varint\<close> reports an overflow for the same
  bytes.
\<close>
theorem varint32_bit_position_wraps:
  "base128_value (replicate 37 0x80 @ [1]) = 2 ^ 259 \<and>
   reads (pb_decode_varint32 e) (replicate 37 0x80 @ [1]) 8 \<and>
   rejects (pb_decode_varint e) (replicate 37 0x80 @ [1]) ''varint overflow''"
proof (intro conjI)
  have "base128_value (replicate k 0x80 @ [1]) = 2 ^ (7 * k)" for k
    by (induction k) (simp_all add: power_add)
  from this [of 37] show "base128_value (replicate 37 0x80 @ [1]) = 2 ^ 259" by simp
  let ?g = "\<lambda>(b :: byte) s m. if b AND 0x80 = 0 then Some (Some (ucast b :: u32), s, m)
               else varint32_loop e 7 (ucast (b AND 0x7F)) s m"
  have "reads (varint32_step e 3 0 1) [] 8" by (simp add: reads_def varint32_step_def)
  from reads_after_byte [where g = "varint32_step e 3 0", OF this]
  moreover have "7 + of_nat (7 * 36) = (3 :: byte)" by simp
  ultimately have "reads (varint32_loop e (7 + of_nat (7 * 36)) 0) [1] 8" by (simp only: varint32_loop_step)
  from varint32_empty_groups [OF this] have "reads (?g 0x80) (replicate 36 0x80 @ [1]) 8" by simp
  from reads_after_byte [where g = ?g, OF this]
  have "reads (pb_decode_varint32 e) (0x80 # replicate 36 0x80 @ [1]) 8" by (simp only: varint32_first)
  moreover have "replicate 37 (0x80 :: byte) = 0x80 # replicate 36 0x80" by (simp add: numeral_eq_Suc)
  ultimately show "reads (pb_decode_varint32 e) (replicate 37 0x80 @ [1]) 8" by simp
  have "pb_decode_varint e = varint64_loop e 0 0" by (intro ext) (simp add: pb_decode_varint_def)
  then show "rejects (pb_decode_varint e) (replicate 37 0x80 @ [1]) ''varint overflow''"
    using varint64_empty_groups [of 0 37 e 0 "[1]"] by simp
qed

text \<open>
  C36. The header of a field is read back as its tag and wire type, and \<open>pb_skip_field\<close> leaves the
  stream at the end of the value, for every wire type and every value.
\<close>
theorem pb_skip_field_correct:
  assumes "wire_ok w" "0 < unat tag" "unat tag < 2 ^ 29" "holds s m (tag_bytes tag (wire_type w) @ payload w)"
  shows "\<exists>s1. pb_decode_tag e s m = Some ((Some (of_nat (wire_type w), tag), False), s1, m) \<and>
    pb_skip_field e s1 m (of_nat (wire_type w)) =
      Some (Some (), skipped s (length (tag_bytes tag (wire_type w) @ payload w)), m)"
proof -
  have lt: "wire_type w < 8" by (cases w) simp_all
  from assms(4) have h: "holds s m (tag_bytes tag (wire_type w))"
    "holds (skipped s (length (tag_bytes tag (wire_type w)))) m (payload w)"
    by (simp_all add: holds_append)
  show ?thesis
    using reads_tag [OF lt assms(2,3) h(1)] readsD [OF reads_skip_field [OF assms(1)] h(2)] by simp
qed

theorem pb_skip_field_correct_witness:
  "\<exists>s1. pb_decode_tag quiet_env (pb_istream_from_buffer 0x8000 4) (mem_of 0x8000 [0x12, 2, 65, 66]) =
      Some ((Some (2, 2), False), s1, mem_of 0x8000 [0x12, 2, 65, 66]) \<and>
    pb_skip_field quiet_env s1 (mem_of 0x8000 [0x12, 2, 65, 66]) 2 =
      Some (Some (), skipped (pb_istream_from_buffer 0x8000 4) 4, mem_of 0x8000 [0x12, 2, 65, 66])"
proof -
  have bs: "tag_bytes 2 (wire_type (Delimited [65, 66])) @ payload (Delimited [65, 66]) = [0x12, 2, 65, 66]"
    by (simp add: tag_bytes_def base128_small)
  have four: "length [0x12, 2, 65, 66 :: byte] = 4" by simp
  have "holds (pb_istream_from_buffer 0x8000 4) (mem_of 0x8000 [0x12, 2, 65, 66]) [0x12, 2, 65, 66]"
    by (simp add: holds_def pb_istream_from_buffer_def bytes_at_mem_of del: bytes_at.simps)
  then show ?thesis
    using pb_skip_field_correct [of "Delimited [65, 66]" 2 "pb_istream_from_buffer 0x8000 4"
        "mem_of 0x8000 [0x12, 2, 65, 66]" quiet_env] unfolding bs four
    by simp
qed

end
