(* ===== verification/Pb_Decode_Message.thy ===== *)
theory Pb_Decode_Message
  imports Pb_Decode
begin

text \<open>
  The decoder of whole messages, the rest of \<^verbatim>\<open>nanopb/pb_decode.c\<close>: default values, the release of
  what a message owns, the decoders of static, pointer and callback fields, extensions, and
  \<open>pb_decode\<close> with its variants.

  Functions that call each other through \<open>pb_decode\<close> take the callee as a parameter; the fuel of the
  functions that tie the knot bounds the depth of messages. A loop that a bad descriptor or list could
  keep from ending is a \<open>partial_function\<close>: not to end is \<open>None\<close>.
\<close>

section \<open>Default values\<close>

text \<open>
  A \<open>pb_extension_t\<close> holds \<open>type\<close>, \<open>dest\<close> and \<open>next\<close>, eight bytes each, and \<open>found\<close>; the third word of a
  \<open>pb_extension_type_t\<close> is \<open>arg\<close>.
\<close>

definition iter_from_extension :: "memory \<Rightarrow> addr \<Rightarrow> pb_field_iter option" where
  "iter_from_extension m ext =
     do { ty \<leftarrow> (load_le 8 m ext :: addr option);
          pos \<leftarrow> load_le 8 m (ty + 16);
          dest \<leftarrow> load_le 8 m (ext + 8);
          (_, iter) \<leftarrow> pb_field_iter_begin m pos dest;
          found \<leftarrow> ptr_add ext 24;
          f \<leftarrow> field_at m pos;
          data \<leftarrow> (if PB_ATYPE (field_type f) = PB_ATYPE_POINTER then ptr_add ext 8 else Some dest);
          Some (iter\<lparr>iter_pData := data, iter_pSize := found\<rparr>) }"

text \<open>The list of extensions of a message, with a function called at each.\<close>

partial_function (option) each_extension ::
    "(memory \<Rightarrow> pb_field_iter \<Rightarrow> memory option) \<Rightarrow> bool \<Rightarrow> memory \<Rightarrow> addr \<Rightarrow> memory option" where
  "each_extension act clear m ext =
     (if ext = 0 then Some m
      else do {
        m \<leftarrow> (if clear then do { found \<leftarrow> ptr_add ext 24; store_bytes m found [0] } else Some m);
        iter \<leftarrow> iter_from_extension m ext;
        m \<leftarrow> act m iter;
        nxt \<leftarrow> load_le 8 m (ext + 16);
        each_extension act clear m nxt })"

text \<open>The fields of a message, with a function called at each.\<close>

partial_function (option) each_field ::
    "(memory \<Rightarrow> pb_field_iter \<Rightarrow> memory option) \<Rightarrow> memory \<Rightarrow> pb_field_iter \<Rightarrow> memory option" where
  "each_field act m iter =
     do { m \<leftarrow> act m iter;
          (more, iter) \<leftarrow> pb_field_iter_next m iter;
          if more then each_field act m iter else Some m }"

definition zero_bytes :: "memory \<Rightarrow> addr \<Rightarrow> u32 \<Rightarrow> memory option" where
  "zero_bytes m p n = store_bytes m p (replicate (unat n) 0)"

text \<open>The value of a static field that is neither an array nor in a union.\<close>

definition init_data ::
    "(memory \<Rightarrow> addr \<Rightarrow> addr \<Rightarrow> memory option) \<Rightarrow> memory \<Rightarrow> pb_field \<Rightarrow> addr \<Rightarrow> memory option" where
  "init_data dfl m f pData =
     (if PB_LTYPE (field_type f) = PB_LTYPE_SUBMESSAGE then dfl m (field_ptr f) pData
      else if field_ptr f \<noteq> 0
      then do { bs \<leftarrow> load_bytes m (field_ptr f) (unat (data_size f)); store_bytes m pData bs }
      else zero_bytes m pData (data_size f))"

definition message_defaults ::
    "(memory \<Rightarrow> pb_field_iter \<Rightarrow> memory option) \<Rightarrow> memory \<Rightarrow> addr \<Rightarrow> addr \<Rightarrow> memory option" where
  "message_defaults act m descr dest =
     do { (nonempty, iter) \<leftarrow> pb_field_iter_begin m descr dest;
          if nonempty then each_field act m iter else Some m }"

fun pb_field_set_to_default :: "nat \<Rightarrow> memory \<Rightarrow> pb_field_iter \<Rightarrow> memory option" where
  "pb_field_set_to_default 0 m iter = None"
| "pb_field_set_to_default (Suc n) m iter =
     do { f \<leftarrow> field_at m (iter_pos iter);
          let ty = field_type f;
          if PB_LTYPE ty = PB_LTYPE_EXTENSION
          then do { ext \<leftarrow> load_le 8 m (iter_pData iter);
                    each_extension (pb_field_set_to_default n) True m ext }
          else if PB_ATYPE ty = PB_ATYPE_STATIC
          then
            if PB_HTYPE ty = PB_HTYPE_OPTIONAL \<and> iter_pSize iter \<noteq> iter_pData iter
            then do { m \<leftarrow> store_bytes m (iter_pSize iter) [0];
                      init_data (message_defaults (pb_field_set_to_default n)) m f (iter_pData iter) }
            else if PB_HTYPE ty = PB_HTYPE_REPEATED \<or> PB_HTYPE ty = PB_HTYPE_ONEOF
            then store_le 4 m (iter_pSize iter) (0 :: u32)
            else init_data (message_defaults (pb_field_set_to_default n)) m f (iter_pData iter)
          else if PB_ATYPE ty = PB_ATYPE_POINTER
          then do { m \<leftarrow> store_le 8 m (iter_pData iter) (0 :: addr);
                    if PB_HTYPE ty = PB_HTYPE_REPEATED \<or> PB_HTYPE ty = PB_HTYPE_ONEOF
                    then store_le 4 m (iter_pSize iter) (0 :: u32) else Some m }
          else Some m }"

definition pb_message_set_to_defaults :: "nat \<Rightarrow> memory \<Rightarrow> addr \<Rightarrow> addr \<Rightarrow> memory option" where
  "pb_message_set_to_defaults n m descr dest = message_defaults (pb_field_set_to_default n) m descr dest"

section \<open>Release\<close>

text \<open>The entries of an array of submessages; \<open>rel\<close> stands for \<open>pb_release\<close>.\<close>

fun release_items ::
    "nat \<Rightarrow> (memory \<Rightarrow> addr \<Rightarrow> addr \<Rightarrow> memory option) \<Rightarrow> memory \<Rightarrow> pb_field \<Rightarrow> addr \<Rightarrow> memory option" where
  "release_items 0 rel m f p = Some m"
| "release_items (Suc n) rel m f p =
     do { m \<leftarrow> rel m (field_ptr f) p; p \<leftarrow> ptr_add p (ucast (data_size f)); release_items n rel m f p }"

text \<open>The strings of an array of pointers.\<close>

fun free_items :: "nat \<Rightarrow> decoder_env \<Rightarrow> memory \<Rightarrow> addr \<Rightarrow> memory option" where
  "free_items 0 e m p = Some m"
| "free_items (Suc n) e m p =
     do { q \<leftarrow> load_le 8 m p; m \<leftarrow> pb_free e m q; m \<leftarrow> store_le 8 m p (0 :: addr);
          p \<leftarrow> ptr_add p 8; free_items n e m p }"

definition release_submessages ::
    "(memory \<Rightarrow> addr \<Rightarrow> addr \<Rightarrow> memory option) \<Rightarrow> memory \<Rightarrow> pb_field \<Rightarrow> pb_field_iter \<Rightarrow> memory option" where
  "release_submessages rel m f iter =
     (let ty = field_type f in
      do { pItem \<leftarrow> (if PB_ATYPE ty = PB_ATYPE_POINTER then load_le 8 m (iter_pData iter)
                    else Some (iter_pData iter));
           count \<leftarrow>
             (if PB_HTYPE ty = PB_HTYPE_REPEATED
              then do {
                count \<leftarrow> (if PB_ATYPE ty = PB_ATYPE_STATIC \<and> iter_pSize iter = iter_pData iter
                         then Some (array_size f) else load_le 4 m (iter_pSize iter));
                Some (if PB_ATYPE ty = PB_ATYPE_STATIC \<and> array_size f < count then array_size f else count) }
              else Some 1);
           if pItem \<noteq> 0 then release_items (unat count) rel m f pItem else Some m })"

definition release_pointer :: "decoder_env \<Rightarrow> memory \<Rightarrow> pb_field \<Rightarrow> pb_field_iter \<Rightarrow> memory option" where
  "release_pointer e m f iter =
     (let ty = field_type f in
      do { m \<leftarrow> (if PB_HTYPE ty = PB_HTYPE_REPEATED \<and>
                   (PB_LTYPE ty = PB_LTYPE_STRING \<or> PB_LTYPE ty = PB_LTYPE_BYTES)
                then do { p \<leftarrow> load_le 8 m (iter_pData iter);
                          count \<leftarrow> (load_le 4 m (iter_pSize iter) :: u32 option);
                          free_items (unat count) e m p }
                else Some m);
           m \<leftarrow> (if PB_HTYPE ty = PB_HTYPE_REPEATED then store_le 4 m (iter_pSize iter) (0 :: u32) else Some m);
           p \<leftarrow> load_le 8 m (iter_pData iter);
           m \<leftarrow> pb_free e m p;
           store_le 8 m (iter_pData iter) (0 :: addr) })"

definition release_message ::
    "(memory \<Rightarrow> pb_field_iter \<Rightarrow> memory option) \<Rightarrow> memory \<Rightarrow> addr \<Rightarrow> addr \<Rightarrow> memory option" where
  "release_message rel m descr dest =
     (if dest = 0 then Some m
      else do { (nonempty, iter) \<leftarrow> pb_field_iter_begin m descr dest;
                if nonempty then each_field rel m iter else Some m })"

fun pb_release_single_field :: "nat \<Rightarrow> decoder_env \<Rightarrow> memory \<Rightarrow> pb_field_iter \<Rightarrow> memory option" where
  "pb_release_single_field 0 e m iter = None"
| "pb_release_single_field (Suc n) e m iter =
     do { f \<leftarrow> field_at m (iter_pos iter);
          let ty = field_type f;
          other \<leftarrow> (if PB_HTYPE ty = PB_HTYPE_ONEOF
                    then do { which \<leftarrow> load_le 4 m (iter_pSize iter); Some (which \<noteq> field_tag f) }
                    else Some False);
          if other then Some m
          else do {
            m \<leftarrow> (if PB_LTYPE ty = PB_LTYPE_EXTENSION
                 then do { ext \<leftarrow> load_le 8 m (iter_pData iter);
                           each_extension (pb_release_single_field n e) False m ext }
                 else if PB_LTYPE ty = PB_LTYPE_SUBMESSAGE \<and> PB_ATYPE ty \<noteq> PB_ATYPE_CALLBACK
                 then release_submessages (release_message (pb_release_single_field n e)) m f iter
                 else Some m);
            if PB_ATYPE ty = PB_ATYPE_POINTER then release_pointer e m f iter else Some m } }"

definition pb_release :: "nat \<Rightarrow> decoder_env \<Rightarrow> memory \<Rightarrow> addr \<Rightarrow> addr \<Rightarrow> memory option" where
  "pb_release n e m descr dest = release_message (pb_release_single_field n e) m descr dest"

text \<open>The iterator is moved to the old field of the union and back.\<close>

definition pb_release_union_field ::
    "nat \<Rightarrow> decoder_env \<Rightarrow> istream \<Rightarrow> memory \<Rightarrow> pb_field_iter \<Rightarrow> pb_field_iter parsed" where
  "pb_release_union_field n e s m iter =
     do { old_tag \<leftarrow> load_le 4 m (iter_pSize iter);
          f \<leftarrow> field_at m (iter_pos iter);
          let new_tag = field_tag f;
          if old_tag = 0 \<or> old_tag = new_tag then Some (Some iter, s, m)
          else do {
            (found, iter) \<leftarrow> pb_field_iter_find m iter old_tag;
            if \<not> found then read_error s m ''invalid union tag''
            else do {
              m \<leftarrow> pb_release_single_field n e m iter;
              (found, iter) \<leftarrow> pb_field_iter_find m iter new_tag;
              if \<not> found then read_error s m ''iterator error''
              else do {
                f \<leftarrow> field_at m (iter_pos iter);
                m \<leftarrow> (if PB_ATYPE (field_type f) = PB_ATYPE_POINTER
                     then store_le 8 m (iter_pData iter) (0 :: addr) else Some m);
                Some (Some iter, s, m) } } } }"

section \<open>Values and submessages\<close>

text \<open>\<open>pb_decode\<close> when the flag is set, and \<open>pb_decode_noinit\<close> otherwise.\<close>

type_synonym message_decoder = "bool \<Rightarrow> istream \<Rightarrow> memory \<Rightarrow> addr \<Rightarrow> addr \<Rightarrow> unit parsed"

definition pb_dec_submessage ::
    "decoder_env \<Rightarrow> message_decoder \<Rightarrow> istream \<Rightarrow> memory \<Rightarrow> pb_field \<Rightarrow> addr \<Rightarrow> unit parsed" where
  "pb_dec_submessage e dec s m f dest =
     and_read (pb_make_string_substream e s m)
       (\<lambda>sub s m.
          if field_ptr f = 0 then read_error s m ''invalid field descriptor''
          else do {
            (r, sub, m) \<leftarrow> dec (PB_HTYPE (field_type f) = PB_HTYPE_REPEATED) sub m (field_ptr f) dest;
            and_read (pb_close_string_substream e s sub m) (\<lambda>_ s m. Some (r, s, m)) })"

datatype pb_decoder = DecBool | DecVarint | DecUvarint | DecSvarint | DecFixed32 | DecFixed64
  | DecBytes | DecString | DecSubmessage | DecNull | DecFixedLengthBytes

definition PB_DECODERS :: "pb_decoder list" where
  "PB_DECODERS = [DecBool, DecVarint, DecUvarint, DecSvarint, DecFixed32, DecFixed64, DecBytes,
                  DecString, DecSubmessage, DecNull, DecFixedLengthBytes]"

fun call_decoder ::
    "decoder_env \<Rightarrow> message_decoder \<Rightarrow> pb_decoder \<Rightarrow> istream \<Rightarrow> memory \<Rightarrow> pb_field \<Rightarrow> addr \<Rightarrow> unit parsed" where
  "call_decoder e dec DecBool s m f dest = pb_dec_bool e s m dest"
| "call_decoder e dec DecVarint s m f dest = pb_dec_varint e s m f dest"
| "call_decoder e dec DecUvarint s m f dest = pb_dec_uvarint e s m f dest"
| "call_decoder e dec DecSvarint s m f dest = pb_dec_svarint e s m f dest"
| "call_decoder e dec DecFixed32 s m f dest = pb_dec_fixed32 e s m dest"
| "call_decoder e dec DecFixed64 s m f dest = pb_dec_fixed64 e s m dest"
| "call_decoder e dec DecBytes s m f dest = pb_dec_bytes e s m f dest"
| "call_decoder e dec DecString s m f dest = pb_dec_string e s m f dest"
| "call_decoder e dec DecSubmessage s m f dest = pb_dec_submessage e dec s m f dest"
| "call_decoder e dec DecNull s m f dest = None"
| "call_decoder e dec DecFixedLengthBytes s m f dest = pb_dec_fixed_length_bytes e s m f dest"

definition decoder_of :: "pb_field \<Rightarrow> pb_decoder option" where
  "decoder_of f =
     (if unat (PB_LTYPE (field_type f)) < length PB_DECODERS
      then Some (PB_DECODERS ! unat (PB_LTYPE (field_type f))) else None)"

text \<open>The product of two 32-bit numbers is one: the place of an item wraps at 4 GB.\<close>

definition item_at :: "addr \<Rightarrow> pb_field \<Rightarrow> u32 \<Rightarrow> addr option" where
  "item_at base f i = ptr_add base (ucast (data_size f * i))"

section \<open>Static fields\<close>

partial_function (option) packed_static_loop ::
    "decoder_env \<Rightarrow> message_decoder \<Rightarrow> pb_decoder \<Rightarrow> istream \<Rightarrow> memory \<Rightarrow> pb_field \<Rightarrow> addr \<Rightarrow> addr \<Rightarrow>
     (bool \<times> istream \<times> memory) option" where
  "packed_static_loop e dec func sub m f pData pSize =
     (if is_bytes_left sub = 0 then Some (True, sub, m)
      else do {
        i \<leftarrow> load_le 4 m pSize;
        if array_size f \<le> i then Some (True, sub, m)
        else do {
          pItem \<leftarrow> item_at pData f i;
          (r, sub, m) \<leftarrow> call_decoder e dec func sub m f pItem;
          if r = None then Some (False, sub, m)
          else do {
            i \<leftarrow> load_le 4 m pSize;
            m \<leftarrow> store_le 4 m pSize (i + 1 :: u32);
            packed_static_loop e dec func sub m f pData pSize } } })"

definition decode_packed_static ::
    "decoder_env \<Rightarrow> message_decoder \<Rightarrow> pb_decoder \<Rightarrow> istream \<Rightarrow> memory \<Rightarrow> pb_field \<Rightarrow> pb_field_iter \<Rightarrow>
     unit parsed" where
  "decode_packed_static e dec func s m f iter =
     and_read (pb_make_string_substream e s m)
       (\<lambda>sub s m. do {
          (status, sub, m) \<leftarrow> packed_static_loop e dec func sub m f (iter_pData iter) (iter_pSize iter);
          if is_bytes_left sub \<noteq> 0 then read_error s m ''array overflow''
          else and_read (pb_close_string_substream e s sub m)
                 (\<lambda>_ s m. Some (if status then Some () else None, s, m)) })"

definition decode_static_field ::
    "nat \<Rightarrow> decoder_env \<Rightarrow> message_decoder \<Rightarrow> istream \<Rightarrow> memory \<Rightarrow> u64 \<Rightarrow> pb_field_iter \<Rightarrow> unit parsed" where
  "decode_static_field n e dec s m wire_type iter =
     do { f \<leftarrow> field_at m (iter_pos iter);
          func \<leftarrow> decoder_of f;
          let ty = field_type f;
          if PB_HTYPE ty = PB_HTYPE_REQUIRED then call_decoder e dec func s m f (iter_pData iter)
          else if PB_HTYPE ty = PB_HTYPE_OPTIONAL
          then do {
            m \<leftarrow> (if iter_pSize iter \<noteq> iter_pData iter then store_bytes m (iter_pSize iter) [1] else Some m);
            call_decoder e dec func s m f (iter_pData iter) }
          else if PB_HTYPE ty = PB_HTYPE_REPEATED
          then
            if wire_type = PB_WT_STRING \<and> PB_LTYPE ty \<le> PB_LTYPE_LAST_PACKABLE
            then decode_packed_static e dec func s m f iter
            else do {
              i \<leftarrow> load_le 4 m (iter_pSize iter);
              pItem \<leftarrow> item_at (iter_pData iter) f i;
              m \<leftarrow> store_le 4 m (iter_pSize iter) (i + 1 :: u32);
              if array_size f \<le> i then read_error s m ''array overflow''
              else call_decoder e dec func s m f pItem }
          else if PB_HTYPE ty = PB_HTYPE_ONEOF
          then do {
            m \<leftarrow> (if PB_LTYPE ty = PB_LTYPE_SUBMESSAGE
                 then do {
                   which \<leftarrow> load_le 4 m (iter_pSize iter);
                   if which \<noteq> field_tag f
                   then do { m \<leftarrow> zero_bytes m (iter_pData iter) (data_size f);
                             pb_message_set_to_defaults n m (field_ptr f) (iter_pData iter) }
                   else Some m }
                 else Some m);
            m \<leftarrow> store_le 4 m (iter_pSize iter) (field_tag f);
            call_decoder e dec func s m f (iter_pData iter) }
          else read_error s m ''invalid field type'' }"

section \<open>Pointer fields\<close>

definition initialize_pointer_field :: "nat \<Rightarrow> memory \<Rightarrow> pb_field \<Rightarrow> addr \<Rightarrow> memory option" where
  "initialize_pointer_field n m f pItem =
     (if PB_LTYPE (field_type f) = PB_LTYPE_STRING \<or> PB_LTYPE (field_type f) = PB_LTYPE_BYTES
      then store_le 8 m pItem (0 :: addr)
      else if PB_LTYPE (field_type f) = PB_LTYPE_SUBMESSAGE
      then do { m \<leftarrow> zero_bytes m pItem (data_size f); pb_message_set_to_defaults n m (field_ptr f) pItem }
      else Some m)"

text \<open>
  Storage for the entries of a packed array, a guess of how many are left; \<open>None\<close> in the inner option
  when the allocation fails.
\<close>

definition grow_packed ::
    "decoder_env \<Rightarrow> istream \<Rightarrow> memory \<Rightarrow> pb_field \<Rightarrow> addr \<Rightarrow> u32 \<Rightarrow> u64 \<Rightarrow> u64 parsed" where
  "grow_packed e sub m f pData i allocated =
     (if allocated < ucast i + 1
      then
        if data_size f = 0 then None
        else
          let remain = (is_bytes_left sub - 1) div ucast (data_size f) + 1;
              allocated = (if remain < ucast PB_SIZE_MAX - allocated then allocated + remain
                           else allocated + 1) in
          and_read (allocate_field e sub m pData (ucast (data_size f)) allocated)
            (\<lambda>_ sub m. Some (Some allocated, sub, m))
      else Some (Some allocated, sub, m))"

partial_function (option) packed_pointer_loop ::
    "nat \<Rightarrow> decoder_env \<Rightarrow> message_decoder \<Rightarrow> pb_decoder \<Rightarrow> istream \<Rightarrow> istream \<Rightarrow> memory \<Rightarrow>
     pb_field \<Rightarrow> addr \<Rightarrow> addr \<Rightarrow> u64 \<Rightarrow> (bool \<times> istream \<times> istream \<times> memory) option" where
  "packed_pointer_loop n e dec func s sub m f pData pSize allocated =
     (if is_bytes_left sub = 0 then Some (True, s, sub, m)
      else do {
        i \<leftarrow> load_le 4 m pSize;
        if i = PB_SIZE_MAX
        then Some (False, s\<lparr>is_errmsg := Some ''too many array entries''\<rparr>, sub, m)
        else do {
          (r, sub, m) \<leftarrow> grow_packed e sub m f pData i allocated;
          case r of None \<Rightarrow> Some (False, s, sub, m)
          | Some allocated \<Rightarrow> do {
              base \<leftarrow> load_le 8 m pData;
              i \<leftarrow> load_le 4 m pSize;
              pItem \<leftarrow> item_at base f i;
              if pItem = 0 then Some (False, s, sub, m)
              else do {
                m \<leftarrow> initialize_pointer_field n m f pItem;
                (r, sub, m) \<leftarrow> call_decoder e dec func sub m f pItem;
                if r = None then Some (False, s, sub, m)
                else do {
                  i \<leftarrow> load_le 4 m pSize;
                  m \<leftarrow> store_le 4 m pSize (i + 1 :: u32);
                  packed_pointer_loop n e dec func s sub m f pData pSize allocated } } } } })"

definition decode_packed_pointer ::
    "nat \<Rightarrow> decoder_env \<Rightarrow> message_decoder \<Rightarrow> pb_decoder \<Rightarrow> istream \<Rightarrow> memory \<Rightarrow> pb_field \<Rightarrow>
     pb_field_iter \<Rightarrow> unit parsed" where
  "decode_packed_pointer n e dec func s m f iter =
     do { allocated \<leftarrow> (load_le 4 m (iter_pSize iter) :: u32 option);
          and_read (pb_make_string_substream e s m)
            (\<lambda>sub s m. do {
               (status, s, sub, m) \<leftarrow>
                 packed_pointer_loop n e dec func s sub m f (iter_pData iter) (iter_pSize iter) (ucast allocated);
               and_read (pb_close_string_substream e s sub m)
                 (\<lambda>_ s m. Some (if status then Some () else None, s, m)) }) }"

text \<open>A field with at most one value.\<close>

definition decode_pointer_singular ::
    "nat \<Rightarrow> decoder_env \<Rightarrow> message_decoder \<Rightarrow> pb_decoder \<Rightarrow> istream \<Rightarrow> memory \<Rightarrow> pb_field \<Rightarrow>
     pb_field_iter \<Rightarrow> unit parsed" where
  "decode_pointer_singular n e dec func s m f iter =
     (let ty = field_type f in
      do { m \<leftarrow> (if PB_LTYPE ty = PB_LTYPE_SUBMESSAGE
                then do { p \<leftarrow> (load_le 8 m (iter_pData iter) :: addr option);
                          if p \<noteq> 0 then pb_release_single_field n e m iter else Some m }
                else Some m);
           m \<leftarrow> (if PB_HTYPE ty = PB_HTYPE_ONEOF then store_le 4 m (iter_pSize iter) (field_tag f) else Some m);
           if PB_LTYPE ty = PB_LTYPE_STRING \<or> PB_LTYPE ty = PB_LTYPE_BYTES
           then call_decoder e dec func s m f (iter_pData iter)
           else and_read (allocate_field e s m (iter_pData iter) (ucast (data_size f)) 1)
             (\<lambda>_ s m. do {
                p \<leftarrow> load_le 8 m (iter_pData iter);
                m \<leftarrow> initialize_pointer_field n m f p;
                p \<leftarrow> load_le 8 m (iter_pData iter);
                call_decoder e dec func s m f p }) })"

definition decode_pointer_field ::
    "nat \<Rightarrow> decoder_env \<Rightarrow> message_decoder \<Rightarrow> istream \<Rightarrow> memory \<Rightarrow> u64 \<Rightarrow> pb_field_iter \<Rightarrow> unit parsed" where
  "decode_pointer_field n e dec s m wire_type iter =
     do { f \<leftarrow> field_at m (iter_pos iter);
          func \<leftarrow> decoder_of f;
          let ty = field_type f;
          if PB_HTYPE ty = PB_HTYPE_REQUIRED \<or> PB_HTYPE ty = PB_HTYPE_OPTIONAL \<or> PB_HTYPE ty = PB_HTYPE_ONEOF
          then decode_pointer_singular n e dec func s m f iter
          else if PB_HTYPE ty = PB_HTYPE_REPEATED
          then
            if wire_type = PB_WT_STRING \<and> PB_LTYPE ty \<le> PB_LTYPE_LAST_PACKABLE
            then decode_packed_pointer n e dec func s m f iter
            else do {
              i \<leftarrow> load_le 4 m (iter_pSize iter);
              if i = PB_SIZE_MAX then read_error s m ''too many array entries''
              else
                and_read (allocate_field e s m (iter_pData iter) (ucast (data_size f)) (ucast (i + 1)))
                  (\<lambda>_ s m. do {
                     base \<leftarrow> load_le 8 m (iter_pData iter);
                     i \<leftarrow> load_le 4 m (iter_pSize iter);
                     pItem \<leftarrow> item_at base f i;
                     m \<leftarrow> store_le 4 m (iter_pSize iter) (i + 1 :: u32);
                     m \<leftarrow> initialize_pointer_field n m f pItem;
                     call_decoder e dec func s m f pItem }) }
          else read_error s m ''invalid field type'' }"

section \<open>Callback fields\<close>

text \<open>
  A \<open>pb_callback_t\<close> holds the function and the argument, whose address is passed on. The callback is
  called until it has read the whole substream.
\<close>

partial_function (option) callback_loop ::
    "decoder_env \<Rightarrow> addr \<Rightarrow> istream \<Rightarrow> memory \<Rightarrow> addr \<Rightarrow> addr \<Rightarrow> unit parsed" where
  "callback_loop e func sub m pos arg =
     do { (r, sub, m) \<leftarrow> call_decode e func sub m pos arg;
          if r = None then Some (None, sub, m)
          else if is_bytes_left sub \<noteq> 0 then callback_loop e func sub m pos arg
          else Some (Some (), sub, m) }"

definition decode_callback_field ::
    "decoder_env \<Rightarrow> istream \<Rightarrow> memory \<Rightarrow> u64 \<Rightarrow> pb_field_iter \<Rightarrow> unit parsed" where
  "decode_callback_field e s m wire_type iter =
     do { func \<leftarrow> (if iter_pData iter = 0 then Some 0 else load_le 8 m (iter_pData iter));
          if func = 0 then pb_skip_field e s m wire_type
          else do {
            arg \<leftarrow> ptr_add (iter_pData iter) 8;
            if wire_type = PB_WT_STRING
            then and_read (pb_make_string_substream e s m)
              (\<lambda>sub s m. do {
                 (r, sub, m) \<leftarrow> callback_loop e func sub m (iter_pos iter) arg;
                 if r = None then read_error s m ''callback failed''
                 else pb_close_string_substream e s sub m })
            else and_read (read_raw_value e s m wire_type 10)
              (\<lambda>bs s m. do {
                 m \<leftarrow> store_bytes m (value_buffer e) bs;
                 (r, _, m) \<leftarrow> call_decode e func
                   (pb_istream_from_buffer (value_buffer e) (of_nat (length bs))) m (iter_pos iter) arg;
                 Some (r, s, m) }) } }"

section \<open>Fields and extensions\<close>

definition decode_field ::
    "nat \<Rightarrow> decoder_env \<Rightarrow> message_decoder \<Rightarrow> istream \<Rightarrow> memory \<Rightarrow> u64 \<Rightarrow> pb_field_iter \<Rightarrow>
     pb_field_iter parsed" where
  "decode_field n e dec s m wire_type iter =
     do { f \<leftarrow> field_at m (iter_pos iter);
          and_read
            (if PB_HTYPE (field_type f) = PB_HTYPE_ONEOF then pb_release_union_field n e s m iter
             else Some (Some iter, s, m))
            (\<lambda>iter s m. do {
               f \<leftarrow> field_at m (iter_pos iter);
               and_read
                 (if PB_ATYPE (field_type f) = PB_ATYPE_STATIC
                  then decode_static_field n e dec s m wire_type iter
                  else if PB_ATYPE (field_type f) = PB_ATYPE_POINTER
                  then decode_pointer_field n e dec s m wire_type iter
                  else if PB_ATYPE (field_type f) = PB_ATYPE_CALLBACK
                  then decode_callback_field e s m wire_type iter
                  else read_error s m ''invalid field type'')
                 (\<lambda>_ s m. Some (Some iter, s, m)) }) }"

definition default_extension_decoder ::
    "nat \<Rightarrow> decoder_env \<Rightarrow> message_decoder \<Rightarrow> istream \<Rightarrow> memory \<Rightarrow> addr \<Rightarrow> u32 \<Rightarrow> u64 \<Rightarrow> unit parsed" where
  "default_extension_decoder n e dec s m ext tag wire_type =
     do { ty \<leftarrow> (load_le 8 m ext :: addr option);
          pos \<leftarrow> load_le 8 m (ty + 16);
          f \<leftarrow> field_at m pos;
          if field_tag f \<noteq> tag then Some (Some (), s, m)
          else do {
            iter \<leftarrow> iter_from_extension m ext;
            found \<leftarrow> ptr_add ext 24;
            m \<leftarrow> store_bytes m found [1];
            and_read (decode_field n e dec s m wire_type iter) (\<lambda>_ s m. Some (Some (), s, m)) } }"

partial_function (option) extension_decode_loop ::
    "nat \<Rightarrow> decoder_env \<Rightarrow> message_decoder \<Rightarrow> u64 \<Rightarrow> istream \<Rightarrow> memory \<Rightarrow> addr \<Rightarrow> u32 \<Rightarrow> u64 \<Rightarrow>
     unit parsed" where
  "extension_decode_loop n e dec pos s m ext tag wire_type =
     (if ext \<noteq> 0 \<and> pos = is_bytes_left s
      then do {
        ty \<leftarrow> (load_le 8 m ext :: addr option);
        func \<leftarrow> load_le 8 m ty;
        (r, s, m) \<leftarrow> (if func \<noteq> 0 then call_ext_decode e func s m ext tag wire_type
                      else default_extension_decoder n e dec s m ext tag wire_type);
        case r of None \<Rightarrow> Some (None, s, m)
        | Some _ \<Rightarrow> do {
            nxt \<leftarrow> load_le 8 m (ext + 16);
            extension_decode_loop n e dec pos s m nxt tag wire_type } }
      else Some (Some (), s, m))"

definition decode_extension ::
    "nat \<Rightarrow> decoder_env \<Rightarrow> message_decoder \<Rightarrow> istream \<Rightarrow> memory \<Rightarrow> u32 \<Rightarrow> u64 \<Rightarrow> pb_field_iter \<Rightarrow>
     unit parsed" where
  "decode_extension n e dec s m tag wire_type iter =
     do { ext \<leftarrow> load_le 8 m (iter_pData iter);
          extension_decode_loop n e dec (is_bytes_left s) s m ext tag wire_type }"

partial_function (option) find_extension_from ::
    "memory \<Rightarrow> addr \<Rightarrow> pb_field_iter \<Rightarrow> (bool \<times> pb_field_iter) option" where
  "find_extension_from m start iter =
     do { f \<leftarrow> field_at m (iter_pos iter);
          if PB_LTYPE (field_type f) = PB_LTYPE_EXTENSION then Some (True, iter)
          else do {
            (_, iter) \<leftarrow> pb_field_iter_next m iter;
            if iter_pos iter \<noteq> start then find_extension_from m start iter else Some (False, iter) } }"

definition find_extension_field :: "memory \<Rightarrow> pb_field_iter \<Rightarrow> (bool \<times> pb_field_iter) option" where
  "find_extension_field m iter = find_extension_from m (iter_pos iter) iter"

section \<open>Messages\<close>

definition PB_MAX_REQUIRED_FIELDS :: u32 where "PB_MAX_REQUIRED_FIELDS = 64"

text \<open>The locals of \<open>pb_decode_noinit\<close>; a null \<open>fixed_count_field\<close> is zero.\<close>

record decode_locals =
  dl_iter :: pb_field_iter
  fields_seen :: "u32 list"
  extension_range_start :: u32
  fixed_count_field :: addr

text \<open>A tag that no field has: the extensions are asked, then the data is skipped.\<close>

definition decode_unknown ::
    "nat \<Rightarrow> decoder_env \<Rightarrow> message_decoder \<Rightarrow> istream \<Rightarrow> memory \<Rightarrow> u32 \<Rightarrow> u64 \<Rightarrow> decode_locals \<Rightarrow>
     decode_locals parsed" where
  "decode_unknown n e dec s m tag wire_type l =
     (let skip = (\<lambda>l s m. and_read (pb_skip_field e s m wire_type) (\<lambda>_ s m. Some (Some l, s, m))) in
      if extension_range_start l \<le> tag
      then do {
        (found, iter) \<leftarrow> find_extension_field m (dl_iter l);
        start \<leftarrow> (if found then map_option field_tag (field_at m (iter_pos iter)) else Some (- 1));
        let l = l\<lparr>dl_iter := iter, extension_range_start := start\<rparr>;
        if extension_range_start l \<le> tag
        then let pos = is_bytes_left s in
          and_read (decode_extension n e dec s m tag wire_type iter)
            (\<lambda>_ s m. if pos \<noteq> is_bytes_left s then Some (Some l, s, m) else skip l s m)
        else skip l s m }
      else skip l s m)"

text \<open>A fixed-count array has no counter in the message: the local one takes its place.\<close>

definition count_fixed ::
    "addr \<Rightarrow> istream \<Rightarrow> memory \<Rightarrow> pb_field \<Rightarrow> decode_locals \<Rightarrow> decode_locals parsed" where
  "count_fixed counter s m f l =
     (let iter = dl_iter l in
      if PB_HTYPE (field_type f) = PB_HTYPE_REPEATED \<and> iter_pSize iter = iter_pData iter
      then
        and_read
          (if fixed_count_field l \<noteq> iter_pos iter
           then do {
             short \<leftarrow> (if fixed_count_field l \<noteq> 0
                      then do { g \<leftarrow> field_at m (fixed_count_field l);
                                c \<leftarrow> load_le 4 m counter;
                                Some (c \<noteq> array_size g) }
                      else Some False);
             if short then read_error s m ''wrong size for fixed count field''
             else do { m \<leftarrow> store_le 4 m counter (0 :: u32);
                       Some (Some (l\<lparr>fixed_count_field := iter_pos iter\<rparr>), s, m) } }
           else Some (Some l, s, m))
          (\<lambda>l s m. Some (Some (l\<lparr>dl_iter := iter\<lparr>iter_pSize := counter\<rparr>\<rparr>), s, m))
      else Some (Some l, s, m))"

definition mark_required :: "pb_field \<Rightarrow> decode_locals \<Rightarrow> decode_locals" where
  "mark_required f l =
     (let k = required_field_index (dl_iter l) in
      if PB_HTYPE (field_type f) = PB_HTYPE_REQUIRED \<and> k < PB_MAX_REQUIRED_FIELDS
      then let w = unat (drop_bit 5 k) in
           l\<lparr>fields_seen := (fields_seen l)[w := fields_seen l ! w OR push_bit (unat (k AND 31)) 1]\<rparr>
      else l)"

text \<open>One field of the input; \<open>None\<close> in the value stands for the end of the message.\<close>

definition decode_next ::
    "nat \<Rightarrow> decoder_env \<Rightarrow> message_decoder \<Rightarrow> addr \<Rightarrow> istream \<Rightarrow> memory \<Rightarrow> decode_locals \<Rightarrow>
     decode_locals option parsed" where
  "decode_next n e dec counter s m l =
     do { ((r, eof), s, m) \<leftarrow> pb_decode_tag e s m;
          case r of None \<Rightarrow> Some (if eof then Some None else None, s, m)
          | Some (wire_type, tag) \<Rightarrow> do {
              (found, iter) \<leftarrow> pb_field_iter_find m (dl_iter l) tag;
              let l = l\<lparr>dl_iter := iter\<rparr>;
              if \<not> found
              then and_read (decode_unknown n e dec s m tag wire_type l) (\<lambda>l s m. Some (Some (Some l), s, m))
              else do {
                f \<leftarrow> field_at m (iter_pos iter);
                and_read (count_fixed counter s m f l)
                  (\<lambda>l s m. let l = mark_required f l in
                    and_read (decode_field n e dec s m wire_type (dl_iter l))
                      (\<lambda>iter s m. Some (Some (Some (l\<lparr>dl_iter := iter\<rparr>)), s, m))) } } }"

partial_function (option) decode_fields_loop ::
    "nat \<Rightarrow> decoder_env \<Rightarrow> message_decoder \<Rightarrow> addr \<Rightarrow> istream \<Rightarrow> memory \<Rightarrow> decode_locals \<Rightarrow>
     decode_locals parsed" where
  "decode_fields_loop n e dec counter s m l =
     (if is_bytes_left s = 0 then Some (Some l, s, m)
      else do {
        (r, s, m) \<leftarrow> decode_next n e dec counter s m l;
        case r of None \<Rightarrow> Some (None, s, m)
        | Some None \<Rightarrow> Some (Some l, s, m)
        | Some (Some l) \<Rightarrow> decode_fields_loop n e dec counter s m l })"

text \<open>To the end of the fields, for the number of those required.\<close>

partial_function (option) count_required ::
    "memory \<Rightarrow> pb_field_iter \<Rightarrow> (u32 \<times> byte \<times> pb_field_iter) option" where
  "count_required m iter =
     do { f \<leftarrow> field_at m (iter_pos iter);
          let req_field_count = required_field_index iter;
          (more, iter) \<leftarrow> pb_field_iter_next m iter;
          if more then count_required m iter else Some (req_field_count, field_type f, iter) }"

definition all_seen :: "u32 list \<Rightarrow> u32 \<Rightarrow> bool" where
  "all_seen seen count \<longleftrightarrow>
     list_all (\<lambda>w. w = - 1) (take (unat (drop_bit 5 count)) seen) \<and>
     (count AND 31 \<noteq> 0 \<longrightarrow>
        seen ! unat (drop_bit 5 count) = drop_bit (unat (32 - (count AND 31))) (- 1))"

definition check_required :: "istream \<Rightarrow> memory \<Rightarrow> decode_locals \<Rightarrow> unit parsed" where
  "check_required s m l =
     do { (count, last_type, iter) \<leftarrow> count_required m (dl_iter l);
          f \<leftarrow> field_at m (iter_pos iter);
          let count = (if PB_HTYPE last_type = PB_HTYPE_REQUIRED \<and> field_tag f \<noteq> 0 then count + 1 else count);
          let count = (if PB_MAX_REQUIRED_FIELDS < count then PB_MAX_REQUIRED_FIELDS else count);
          if all_seen (fields_seen l) count then Some (Some (), s, m)
          else read_error s m ''missing required field'' }"

definition check_fixed_count :: "addr \<Rightarrow> istream \<Rightarrow> memory \<Rightarrow> decode_locals \<Rightarrow> unit parsed" where
  "check_fixed_count counter s m l =
     (if fixed_count_field l = 0 then Some (Some (), s, m)
      else do {
        g \<leftarrow> field_at m (fixed_count_field l);
        c \<leftarrow> load_le 4 m counter;
        if c \<noteq> array_size g then read_error s m ''wrong size for fixed count field''
        else Some (Some (), s, m) })"

text \<open>The body of \<open>pb_decode_noinit\<close>; \<open>dec\<close> decodes submessages.\<close>

definition decode_message ::
    "nat \<Rightarrow> decoder_env \<Rightarrow> message_decoder \<Rightarrow> addr \<Rightarrow> istream \<Rightarrow> memory \<Rightarrow> addr \<Rightarrow> addr \<Rightarrow> unit parsed" where
  "decode_message n e dec counter s m descr dest =
     do { m \<leftarrow> store_le 4 m counter (0 :: u32);
          (_, iter) \<leftarrow> pb_field_iter_begin m descr dest;
          and_read
            (decode_fields_loop n e dec counter s m
               \<lparr>dl_iter = iter, fields_seen = [0, 0], extension_range_start = 0, fixed_count_field = 0\<rparr>)
            (\<lambda>l s m. and_read (check_fixed_count counter s m l) (\<lambda>_ s m. check_required s m l)) }"

text \<open>\<open>pb_decode\<close> around a given \<open>pb_decode_noinit\<close>.\<close>

definition init_and_decode ::
    "nat \<Rightarrow> decoder_env \<Rightarrow> (istream \<Rightarrow> memory \<Rightarrow> addr \<Rightarrow> addr \<Rightarrow> unit parsed) \<Rightarrow>
     istream \<Rightarrow> memory \<Rightarrow> addr \<Rightarrow> addr \<Rightarrow> unit parsed" where
  "init_and_decode n e noinit s m descr dest =
     do { m \<leftarrow> pb_message_set_to_defaults n m descr dest;
          (r, s, m) \<leftarrow> noinit s m descr dest;
          m \<leftarrow> (if r = None then pb_release n e m descr dest else Some m);
          Some (r, s, m) }"

fun pb_decode_noinit ::
    "nat \<Rightarrow> decoder_env \<Rightarrow> istream \<Rightarrow> memory \<Rightarrow> addr \<Rightarrow> addr \<Rightarrow> unit parsed" where
  "pb_decode_noinit 0 e s m descr dest = None"
| "pb_decode_noinit (Suc n) e s m descr dest =
     decode_message n e
       (\<lambda>init s m descr dest.
          if init then init_and_decode n e (pb_decode_noinit n e) s m descr dest
          else pb_decode_noinit n e s m descr dest)
       (fixed_count_at e n) s m descr dest"

definition pb_decode ::
    "nat \<Rightarrow> decoder_env \<Rightarrow> istream \<Rightarrow> memory \<Rightarrow> addr \<Rightarrow> addr \<Rightarrow> unit parsed" where
  "pb_decode n e s m descr dest = init_and_decode n e (pb_decode_noinit n e) s m descr dest"

definition decode_delimited ::
    "decoder_env \<Rightarrow> (istream \<Rightarrow> memory \<Rightarrow> addr \<Rightarrow> addr \<Rightarrow> unit parsed) \<Rightarrow>
     istream \<Rightarrow> memory \<Rightarrow> addr \<Rightarrow> addr \<Rightarrow> unit parsed" where
  "decode_delimited e decode s m descr dest =
     and_read (pb_make_string_substream e s m)
       (\<lambda>sub s m. do {
          (r, sub, m) \<leftarrow> decode sub m descr dest;
          and_read (pb_close_string_substream e s sub m) (\<lambda>_ s m. Some (r, s, m)) })"

definition pb_decode_delimited_noinit ::
    "nat \<Rightarrow> decoder_env \<Rightarrow> istream \<Rightarrow> memory \<Rightarrow> addr \<Rightarrow> addr \<Rightarrow> unit parsed" where
  "pb_decode_delimited_noinit n e s m descr dest = decode_delimited e (pb_decode_noinit n e) s m descr dest"

definition pb_decode_delimited ::
    "nat \<Rightarrow> decoder_env \<Rightarrow> istream \<Rightarrow> memory \<Rightarrow> addr \<Rightarrow> addr \<Rightarrow> unit parsed" where
  "pb_decode_delimited n e s m descr dest = decode_delimited e (pb_decode n e) s m descr dest"

definition pb_decode_nullterminated ::
    "nat \<Rightarrow> decoder_env \<Rightarrow> istream \<Rightarrow> memory \<Rightarrow> addr \<Rightarrow> addr \<Rightarrow> unit parsed" where
  "pb_decode_nullterminated n e s m descr dest = pb_decode n e s m descr dest"

end
