(* ===== verification/Pb_Decode_Fields.thy ===== *)
theory Pb_Decode_Fields
  imports Pb_Decode_Values Pb_Decode_Message
begin

text \<open>
  What the decoder of \<^verbatim>\<open>nanopb/pb_decode.c\<close> leaves in the message: the bytes of each value, the round trip
  of a value through the wire format, and the fields of a message.
\<close>

section \<open>Writes\<close>

definition writable :: "memory \<Rightarrow> addr \<Rightarrow> nat \<Rightarrow> bool" where
  "writable m p n \<longleftrightarrow> unat p + n < 2 ^ 64 \<and> (\<forall>i < n. m (p + of_nat i) \<noteq> None)"

definition apart :: "addr \<Rightarrow> nat \<Rightarrow> addr \<Rightarrow> nat \<Rightarrow> bool" where
  "apart p j q k \<longleftrightarrow> unat p + j \<le> unat q \<or> unat q + k \<le> unat p"

lemma store_bytes_writable: "writable m p (length bs) \<Longrightarrow> store_bytes m p bs = Some (put m p bs)"
  unfolding writable_def by (blast intro: store_bytes_put)

lemma put_mapped: "m a \<noteq> None \<Longrightarrow> put m p bs a \<noteq> None"
  by (simp add: put_def)

lemma writable_put: "writable m p n \<Longrightarrow> writable (put m q bs) p n"
  by (simp add: writable_def put_mapped)

lemma writable_less: "writable m p n \<Longrightarrow> k \<le> n \<Longrightarrow> writable m p k"
  by (simp add: writable_def)

lemma writable_drop:
  assumes "writable m p n" "k \<le> n"
  shows "writable m (p + of_nat k) (n - k)"
  unfolding writable_def
proof (intro conjI allI impI)
  have u: "unat (p + of_nat k) = unat p + k" using assms by (intro unat_add_of_nat) (simp add: writable_def)
  then show "unat (p + of_nat k) + (n - k) < 2 ^ 64" using assms by (simp add: writable_def)
  fix i assume "i < n - k"
  then have "m (p + of_nat (k + i)) \<noteq> None" using assms unfolding writable_def by (auto simp del: of_nat_add)
  then show "m (p + of_nat k + of_nat i) \<noteq> None" by (simp add: add.assoc)
qed

lemma bytes_at_apart: "bytes_at m q xs \<Longrightarrow> apart q (length xs) p (length bs) \<Longrightarrow> bytes_at (put m p bs) q xs"
  by (erule bytes_at_local) (auto simp: apart_def put_def)

lemma bytes_at_put:
  assumes "unat p + length bs < 2 ^ 64"
  shows "bytes_at (put m p bs) p bs"
proof -
  have "bytes_at (mem_of p bs) p bs" by (rule bytes_at_mem_of [OF assms])
  then show ?thesis
  proof (rule bytes_at_local)
    fix a :: addr assume a: "unat p \<le> unat a" "unat a < unat p + length bs"
    then show "put m p bs a = mem_of p bs a"
      by (auto simp: put_def mem_of_def word_le_nat_alt unat_sub)
  qed
qed

lemma put_put_append:
  "unat p + (length xs + length ys) < 2 ^ 64 \<Longrightarrow>
   put (put m p xs) (p + of_nat (length xs)) ys = put m p (xs @ ys)"
  by (rule put_append) simp

lemma copy_loop_put:
  "bytes_at m src bs \<Longrightarrow> writable m dst (length bs) \<Longrightarrow> apart src (length bs) dst (length bs) \<Longrightarrow>
   copy_loop (length bs) m dst src = Some (put m dst bs)"
proof (induction bs arbitrary: m dst src)
  case Nil
  then show ?case by simp
next
  case (Cons b bs)
  have w: "writable m dst (length [b])" "writable m (dst + 1) (length bs)"
    using writable_less [OF Cons.prems(2), of 1] writable_drop [OF Cons.prems(2), of 1] by simp_all
  have dst: "unat (dst + 1) = unat dst + 1" "ptr_add dst 1 = Some (dst + 1)"
    using Cons.prems(2) unat_add_lt [of dst 1] by (simp_all add: writable_def ptr_add_def)
  have src: "m src = Some b" "bytes_at m (src + 1) bs" "unat (src + 1) = unat src + 1" "ptr_add src 1 = Some (src + 1)"
    using Cons.prems(1) unat_add_lt [of src 1] by (simp_all add: ptr_add_def)
  have "apart (src + 1) (length bs) dst (length [b])" "apart (src + 1) (length bs) (dst + 1) (length bs)"
    using Cons.prems(3) by (auto simp: apart_def dst(1) src(3))
  then have "copy_loop (length bs) (put m dst [b]) (dst + 1) (src + 1) = Some (put (put m dst [b]) (dst + 1) bs)"
    using bytes_at_apart [OF src(2)] writable_put [OF w(2)] by (intro Cons.IH)
  moreover have "put (put m dst [b]) (dst + 1) bs = put m dst (b # bs)"
    using put_put_append [of dst "[b]" bs m] Cons.prems(2) by (simp add: writable_def)
  ultimately show ?case
    using src dst store_bytes_writable [OF w(1)] by (simp del: store_bytes.simps)
qed

text \<open>A read that consumes \<open>bs\<close> and leaves \<open>vs\<close> at \<open>dest\<close>.\<close>

definition stores :: "(istream \<Rightarrow> memory \<Rightarrow> 'a parsed) \<Rightarrow> byte list \<Rightarrow> addr \<Rightarrow> byte list \<Rightarrow> 'a \<Rightarrow> bool" where
  "stores f bs dest vs v \<longleftrightarrow>
     (\<forall>s m. holds s m bs \<and> writable m dest (length vs) \<and> apart (is_state s) (length bs) dest (length vs) \<longrightarrow>
        f s m = Some (Some v, skipped s (length bs), put m dest vs))"

lemma storesD:
  "stores f bs dest vs v \<Longrightarrow> holds s m bs \<Longrightarrow> writable m dest (length vs) \<Longrightarrow>
   apart (is_state s) (length bs) dest (length vs) \<Longrightarrow> f s m = Some (Some v, skipped s (length bs), put m dest vs)"
  by (simp add: stores_def)

lemma stores_after:
  assumes "reads f xs v" "stores (g v) ys dest vs w"
  shows "stores (\<lambda>s m. and_read (f s m) g) (xs @ ys) dest vs w"
  unfolding stores_def
proof (intro allI impI, elim conjE)
  fix s m
  assume h: "holds s m (xs @ ys)" and w: "writable m dest (length vs)"
    and a: "apart (is_state s) (length (xs @ ys)) dest (length vs)"
  have h: "holds s m xs" "holds (skipped s (length xs)) m ys" using h by (simp_all add: holds_append)
  have "unat (is_state s) + length xs < 2 ^ 64" using h(1) bytes_at_end by (auto simp: holds_def)
  then have "unat (is_state (skipped s (length xs))) = unat (is_state s) + length xs"
    unfolding skipped_def by (simp add: unat_add_of_nat)
  then have "apart (is_state (skipped s (length xs))) (length ys) dest (length vs)"
    using a by (auto simp: apart_def)
  from storesD [OF assms(2) h(2) w this] readsD [OF assms(1) h(1)]
  show "and_read (f s m) g = Some (Some w, skipped s (length (xs @ ys)), put m dest vs)"
    by (simp add: and_read_def)
qed

lemma stores_value:
  assumes "\<And>s m. writable m dest (length vs) \<Longrightarrow> f s m = Some (Some v, s, put m dest vs)"
  shows "stores f [] dest vs v"
  using assms by (simp add: stores_def)

lemma stores_read:
  assumes "unat k = length bs"
  shows "stores (\<lambda>s m. pb_read e s m (Into dest) k) bs dest bs []"
  unfolding stores_def
proof (intro allI impI, elim conjE)
  fix s m
  assume h: "holds s m bs" and w: "writable m dest (length bs)" "apart (is_state s) (length bs) dest (length bs)"
  have k: "k = of_nat (length bs)" using assms by (metis of_nat_unat ucast_id)
  have "bytes_at m (is_state s) bs" using h by (simp add: holds_def)
  from copy_loop_put [OF this w]
  show "pb_read e s m (Into dest) k = Some (Some [], skipped s (length bs), put m dest bs)"
    using holds_ptr [OF h] h unfolding k
    by (cases "bs = []")
      (simp_all add: holds_def pb_read_def read_into_def stream_callback_def buf_read_def skipped_def)
qed
section \<open>The bytes of a value in the message\<close>

text \<open>A number that its low \<open>n\<close> bytes give back, with their sign or without.\<close>

definition fits_signed :: "u32 \<Rightarrow> u64 \<Rightarrow> bool" where
  "fits_signed n v \<longleftrightarrow>
     n = 8 \<or> n = 4 \<and> scast (ucast v :: u32) = v \<or> n = 2 \<and> scast (ucast v :: u16) = v \<or>
     n = 1 \<and> scast (ucast v :: byte) = v"

definition fits_unsigned :: "u32 \<Rightarrow> u64 \<Rightarrow> bool" where
  "fits_unsigned n v \<longleftrightarrow> n \<in> {1, 2, 4, 8} \<and> unat v < 2 ^ (8 * unat n)"

definition unzigzag :: "u64 \<Rightarrow> u64" where
  "unzigzag v = (if v AND 1 \<noteq> 0 then NOT (drop_bit 1 v) else drop_bit 1 v)"

fun stored_number :: "pb_field \<Rightarrow> wire_value \<Rightarrow> byte list option" where
  "stored_number f (Varint v) =
     (let t = PB_LTYPE (field_type f); n = data_size f in
      if t = PB_LTYPE_BOOL
      then if unat v < 2 ^ 32 \<or> 2 ^ 64 - 2 ^ 31 \<le> unat v
           then Some [if (ucast v :: u32) \<noteq> 0 then 1 else 0] else None
      else if t = PB_LTYPE_VARINT
      then let x = (if n = 8 then v else scast (ucast v :: u32)) in
           if fits_signed n x then Some (nat_bytes (unat n) (unat x)) else None
      else if t = PB_LTYPE_UVARINT
      then if fits_unsigned n v then Some (nat_bytes (unat n) (unat v)) else None
      else if t = PB_LTYPE_SVARINT
      then if fits_signed n (unzigzag v) then Some (nat_bytes (unat n) (unat (unzigzag v))) else None
      else None)"
| "stored_number f (Fixed32 bs) =
     (if PB_LTYPE (field_type f) = PB_LTYPE_FIXED32 \<and> length bs = 4 then Some bs else None)"
| "stored_number f (Fixed64 bs) =
     (if PB_LTYPE (field_type f) = PB_LTYPE_FIXED64 \<and> length bs = 8 then Some bs else None)"
| "stored_number f (Delimited bs) = None"

text \<open>The bytes of a string or byte array in a field of fixed size.\<close>

definition stored_bytes :: "pb_field \<Rightarrow> wire_value \<Rightarrow> byte list option" where
  "stored_bytes f w =
     (let t = PB_LTYPE (field_type f); n = unat (data_size f) in
      case w of
        Delimited bs \<Rightarrow>
          if t = PB_LTYPE_BYTES
          then if 4 + length bs \<le> n then Some (nat_bytes 4 (length bs) @ bs) else None
          else if t = PB_LTYPE_STRING then if length bs < n then Some (bs @ [0]) else None
          else if t = PB_LTYPE_FIXED_LENGTH_BYTES
          then if bs = [] then Some (replicate n 0) else if length bs = n then Some bs else None
          else None
      | _ \<Rightarrow> stored_number f w)"

lemma decoder_constants:
  "PB_DECODERS ! unat PB_LTYPE_BOOL = DecBool" "PB_DECODERS ! unat PB_LTYPE_VARINT = DecVarint"
  "PB_DECODERS ! unat PB_LTYPE_UVARINT = DecUvarint" "PB_DECODERS ! unat PB_LTYPE_SVARINT = DecSvarint"
  "PB_DECODERS ! unat PB_LTYPE_FIXED32 = DecFixed32" "PB_DECODERS ! unat PB_LTYPE_FIXED64 = DecFixed64"
  "PB_DECODERS ! unat PB_LTYPE_BYTES = DecBytes" "PB_DECODERS ! unat PB_LTYPE_STRING = DecString"
  "PB_DECODERS ! unat PB_LTYPE_SUBMESSAGE = DecSubmessage"
  "PB_DECODERS ! unat PB_LTYPE_FIXED_LENGTH_BYTES = DecFixedLengthBytes"
  by (simp_all add: ltype_constants PB_DECODERS_def)

lemma nat_bytes_mod: "nat_bytes n (x mod 256 ^ n) = nat_bytes n x"
proof (induction n arbitrary: x)
  case 0
  show ?case by simp
next
  case (Suc n)
  have "x mod 256 ^ Suc n mod 256 = x mod 256" by (simp add: mod_mod_cancel)
  moreover have "x mod 256 ^ Suc n div 256 = x div 256 mod 256 ^ n"
    using mod_mult2_eq [of x 256 "256 ^ n"] by simp
  ultimately show ?case using Suc.IH [of "x div 256"] by (simp only: nat_bytes.simps)
qed

lemma nat_bytes_ucast:
  fixes v :: u64
  assumes "LENGTH('a::len) = 8 * n" "n \<le> 8"
  shows "nat_bytes n (unat (ucast v :: 'a word)) = nat_bytes n (unat v)"
proof -
  have "(256 :: nat) ^ n = 2 ^ LENGTH('a)" unfolding assms(1) by (simp add: power_mult)
  moreover have "unat (ucast v :: 'a word) = unat v mod 2 ^ LENGTH('a)"
    by (simp add: unsigned_ucast_eq take_bit_eq_mod)
  ultimately show ?thesis using nat_bytes_mod [of n "unat v"] by simp
qed

lemma store_signed_put:
  assumes "fits_signed n v" "writable m p (unat n)"
  shows "store_signed m p n v = Some (Some (v, put m p (nat_bytes (unat n) (unat v))))"
proof -
  have st: "store_bytes m p (nat_bytes (unat n) x) = Some (put m p (nat_bytes (unat n) x))" for x
    using assms(2) by (intro store_bytes_writable) (simp add: length_nat_bytes)
  from assms(1) consider "n = 8" | "n = 4" "scast (ucast v :: u32) = v" | "n = 2" "scast (ucast v :: u16) = v"
    | "n = 1" "scast (ucast v :: byte) = v"
    unfolding fits_signed_def by blast
  then show ?thesis
  proof cases
    case 1
    then show ?thesis using st by (simp add: store_signed_def store_le_def del: nat_bytes_numeral)
  next
    case 2
    then show ?thesis using st nat_bytes_ucast [where 'a = 32 and n = 4, of v]
      by (simp add: store_signed_def store_le_def del: nat_bytes_numeral)
  next
    case 3
    then show ?thesis using st nat_bytes_ucast [where 'a = 16 and n = 2, of v]
      by (simp add: store_signed_def store_le_def del: nat_bytes_numeral)
  next
    case 4
    then show ?thesis using st nat_bytes_ucast [where 'a = 8 and n = 1, of v]
      by (simp add: store_signed_def store_le_def del: nat_bytes_numeral nat_bytes.simps)
  qed
qed

lemma ucast_down_up:
  fixes v :: u64
  assumes "unat v < 2 ^ LENGTH('a::len)" "LENGTH('a) \<le> 64"
  shows "ucast (ucast v :: 'a word) = v"
proof (rule word_unat_eq_iff [THEN iffD2])
  have "unat (ucast (ucast v :: 'a word) :: u64) = unat (ucast v :: 'a word)"
    using assms(2) by (intro unat_ucast_up) simp
  also have "\<dots> = unat v" using assms(1) by (simp add: unsigned_ucast_eq take_bit_nat_eq_self)
  finally show "unat (ucast (ucast v :: 'a word) :: u64) = unat v" .
qed

lemma store_unsigned_put:
  assumes "fits_unsigned n v" "writable m p (unat n)"
  shows "store_unsigned m p n v = Some (Some (v, put m p (nat_bytes (unat n) (unat v))))"
proof -
  have st: "store_bytes m p (nat_bytes (unat n) x) = Some (put m p (nat_bytes (unat n) x))" for x
    using assms(2) by (intro store_bytes_writable) (simp add: length_nat_bytes)
  have lt: "unat v < 2 ^ (8 * unat n)" using assms(1) by (simp add: fits_unsigned_def)
  from assms(1) consider "n = 8" | "n = 4" | "n = 2" | "n = 1"
    unfolding fits_unsigned_def by blast
  then show ?thesis
  proof cases
    case 1
    then show ?thesis using st by (simp add: store_unsigned_def store_le_def del: nat_bytes_numeral)
  next
    case 2
    then show ?thesis using st nat_bytes_ucast [where 'a = 32 and n = 4, of v] lt ucast_down_up [where 'a = 32, of v]
      by (simp add: store_unsigned_def store_le_def del: nat_bytes_numeral)
  next
    case 3
    then show ?thesis using st nat_bytes_ucast [where 'a = 16 and n = 2, of v] lt ucast_down_up [where 'a = 16, of v]
      by (simp add: store_unsigned_def store_le_def del: nat_bytes_numeral)
  next
    case 4
    then show ?thesis using st nat_bytes_ucast [where 'a = 8 and n = 1, of v] lt ucast_down_up [where 'a = 8, of v]
      by (simp add: store_unsigned_def store_le_def del: nat_bytes_numeral nat_bytes.simps)
  qed
qed

lemma nat_bytes_of_bytes_nat: "nat_bytes (length bs) (bytes_nat bs) = bs"
proof (induction bs)
  case Nil
  show ?case by simp
next
  case (Cons b bs)
  have b: "unat b < 256" using unsigned_less [of b] by simp
  then have "(of_nat (unat b) :: byte) = b" by (simp only: of_nat_unat ucast_id)
  then show ?case using Cons.IH b by simp
qed

lemma bytes_nat_snoc: "bytes_nat (xs @ [b]) = bytes_nat xs + 256 ^ length xs * unat b"
  by (induction xs) (simp_all add: algebra_simps)

lemma or_byte:
  "(of_nat (bytes_nat xs) :: 'a::len word) OR push_bit (8 * length xs) (ucast (b :: byte)) =
   of_nat (bytes_nat (xs @ [b]))"
proof -
  have "unat (of_nat (bytes_nat xs) :: 'a word) \<le> bytes_nat xs"
    using unat_add_of_nat_le [of 0 "bytes_nat xs"] by simp
  also have "\<dots> < 2 ^ (8 * length xs)" using bytes_nat_less [of xs] by (simp add: power_mult)
  finally have "(of_nat (bytes_nat xs) :: 'a word) OR push_bit (8 * length xs) (ucast b) =
      of_nat (bytes_nat xs) + push_bit (8 * length xs) (ucast b)" by (rule word_or_push_bit)
  moreover have "(push_bit (8 * length xs) (ucast b) :: 'a word) = of_nat (256 ^ length xs * unat b)"
    by (simp add: push_bit_eq_mult power_mult)
  ultimately show ?thesis by (simp add: bytes_nat_snoc)
qed

lemma store_le_bytes:
  assumes "length bs = n" "256 ^ n \<le> (2 :: nat) ^ LENGTH('a::len)" "writable m p n"
  shows "store_le n m p (of_nat (bytes_nat bs) :: 'a word) = Some (put m p bs)"
proof -
  have "bytes_nat bs < 2 ^ LENGTH('a)" using bytes_nat_less [of bs] assms(1,2) by simp
  then have "unat (of_nat (bytes_nat bs) :: 'a word) = bytes_nat bs" by (simp add: unat_of_nat)
  then show ?thesis
    using store_bytes_writable [of m p bs] assms nat_bytes_of_bytes_nat [of bs] by (simp add: store_le_def)
qed

text \<open>The bytes of a number put together, four or eight.\<close>

lemma or_bytes4:
  "(of_nat (bytes_nat [b0, b1, b2, b3]) :: 'a::len word) =
   ucast b0 OR push_bit 8 (ucast b1) OR push_bit 16 (ucast b2) OR push_bit 24 (ucast b3)"
proof -
  have "(of_nat (bytes_nat [b0]) :: 'a word) = ucast b0" by simp
  moreover note or_byte [where 'a = 'a, of "[b0]" b1, symmetric] or_byte [where 'a = 'a, of "[b0, b1]" b2, symmetric]
    or_byte [where 'a = 'a, of "[b0, b1, b2]" b3, symmetric]
  ultimately show ?thesis by (simp add: or.assoc del: bytes_nat.simps)
qed

lemma or_bytes8:
  "(of_nat (bytes_nat [b0, b1, b2, b3, b4, b5, b6, b7]) :: 'a::len word) =
   ucast b0 OR push_bit 8 (ucast b1) OR push_bit 16 (ucast b2) OR push_bit 24 (ucast b3) OR
   push_bit 32 (ucast b4) OR push_bit 40 (ucast b5) OR push_bit 48 (ucast b6) OR push_bit 56 (ucast b7)"
proof -
  note or_bytes4 [where 'a = 'a, of b0 b1 b2 b3]
  moreover note or_byte [where 'a = 'a, of "[b0, b1, b2, b3]" b4, symmetric] or_byte [where 'a = 'a, of "[b0, b1, b2, b3, b4]" b5, symmetric]
    or_byte [where 'a = 'a, of "[b0, b1, b2, b3, b4, b5]" b6, symmetric]
    or_byte [where 'a = 'a, of "[b0, b1, b2, b3, b4, b5, b6]" b7, symmetric]
  ultimately show ?thesis by (simp add: or.assoc del: bytes_nat.simps)
qed

lemma stores_fixed32:
  assumes "length bs = 4"
  shows "stores (\<lambda>s m. pb_decode_fixed32 e s m dest) bs dest bs ()"
proof -
  obtain b0 b1 b2 b3 where bs: "bs = [b0, b1, b2, b3]"
    using assms by (auto simp: numeral_eq_Suc length_Suc_conv)
  let ?g = "\<lambda>bs s m. do { m \<leftarrow> store_le 4 m dest
                 ((ucast (bs ! 0) :: u32) OR push_bit 8 (ucast (bs ! 1)) OR push_bit 16 (ucast (bs ! 2)) OR
                  push_bit 24 (ucast (bs ! 3)));
          Some (Some (), s, m) }"
  have "(of_nat (bytes_nat bs) :: u32) = ucast (bs ! 0) OR push_bit 8 (ucast (bs ! 1)) OR
      push_bit 16 (ucast (bs ! 2)) OR push_bit 24 (ucast (bs ! 3))"
    unfolding bs by (simp add: or_bytes4 del: bytes_nat.simps)
  then have "stores (?g bs) [] dest bs ()"
    using assms store_le_bytes [where 'a = 32, OF assms] by (intro stores_value) simp
  from stores_after [where g = ?g, OF reads_local [of 4 bs e] this] assms show ?thesis
    unfolding pb_decode_fixed32_def by simp
qed

lemma stores_fixed64:
  assumes "length bs = 8"
  shows "stores (\<lambda>s m. pb_decode_fixed64 e s m dest) bs dest bs ()"
proof -
  obtain b0 b1 b2 b3 b4 b5 b6 b7 where bs: "bs = [b0, b1, b2, b3, b4, b5, b6, b7]"
    using assms by (auto simp: numeral_eq_Suc length_Suc_conv)
  let ?g = "\<lambda>bs s m. do { m \<leftarrow> store_le 8 m dest
                 ((ucast (bs ! 0) :: u64) OR push_bit 8 (ucast (bs ! 1)) OR push_bit 16 (ucast (bs ! 2)) OR
                  push_bit 24 (ucast (bs ! 3)) OR push_bit 32 (ucast (bs ! 4)) OR push_bit 40 (ucast (bs ! 5)) OR
                  push_bit 48 (ucast (bs ! 6)) OR push_bit 56 (ucast (bs ! 7)));
          Some (Some (), s, m) }"
  have "(of_nat (bytes_nat bs) :: u64) = ucast (bs ! 0) OR push_bit 8 (ucast (bs ! 1)) OR
      push_bit 16 (ucast (bs ! 2)) OR push_bit 24 (ucast (bs ! 3)) OR push_bit 32 (ucast (bs ! 4)) OR
      push_bit 40 (ucast (bs ! 5)) OR push_bit 48 (ucast (bs ! 6)) OR push_bit 56 (ucast (bs ! 7))"
    unfolding bs by (simp add: or_bytes8 del: bytes_nat.simps)
  then have "stores (?g bs) [] dest bs ()"
    using assms store_le_bytes [where 'a = 64, OF assms] by (intro stores_value) simp
  from stores_after [where g = ?g, OF reads_local [of 8 bs e] this] assms show ?thesis
    unfolding pb_decode_fixed64_def by simp
qed

lemma stores_bool:
  assumes "unat (v :: u64) < 2 ^ 32 \<or> 2 ^ 64 - 2 ^ 31 \<le> unat v"
  shows "stores (\<lambda>s m. pb_dec_bool e s m dest) (base128 (unat v)) dest
    [if (ucast v :: u32) \<noteq> 0 then 1 else 0] ()"
proof -
  let ?g = "\<lambda>(v :: u32) s m. do { m \<leftarrow> store_bytes m dest [if v \<noteq> 0 then 1 else 0]; Some (Some (), s, m) }"
  have v: "reads (pb_decode_varint32 e) (base128 (unat v)) (ucast v)"
    using assms
  proof
    assume "unat v < 2 ^ 32"
    then have "unat (ucast v :: u32) = unat v" by (simp add: unsigned_ucast_eq take_bit_nat_eq_self)
    then show ?thesis using reads_varint32 [of e "ucast v"] by simp
  next
    assume "2 ^ 64 - 2 ^ 31 \<le> unat v"
    then show ?thesis by (intro reads_varint32_negative) (simp add: word_le_nat_alt)
  qed
  have "store_bytes m dest [b] = Some (put m dest [b])" if "writable m dest (length [b])" for m b
    by (rule store_bytes_writable [OF that])
  then have "stores (?g (ucast v)) [] dest [if (ucast v :: u32) \<noteq> 0 then 1 else 0] ()"
    by (intro stores_value) (simp del: store_bytes.simps)
  from stores_after [where g = ?g, OF v this] show ?thesis
    unfolding pb_dec_bool_def by simp
qed

lemma stores_clamped:
  assumes r: "reads f xs v"
    and st: "\<And>s m. writable m dest (length bs) \<Longrightarrow> g v s m = clamp_check s m x (Some (Some (x, put m dest bs)))"
  shows "stores (\<lambda>s m. and_read (f s m) g) xs dest bs ()"
proof -
  have "stores (g v) [] dest bs ()" by (rule stores_value) (simp add: st clamp_check_def)
  from stores_after [where g = g, OF r this] show ?thesis by simp
qed

lemma stores_varint:
  assumes "fits_signed (data_size f) x" "x = (if data_size f = 8 then v else scast (ucast v :: u32))"
  shows "stores (\<lambda>s m. pb_dec_varint e s m f dest) (base128 (unat v)) dest (nat_bytes (unat (data_size f)) (unat x)) ()"
  unfolding pb_dec_varint_def Let_def assms(2) [symmetric]
  by (rule stores_clamped [where x = x, OF reads_varint])
    (simp add: store_signed_put [OF assms(1)] length_nat_bytes assms(2) [symmetric])

lemma stores_uvarint:
  assumes "fits_unsigned (data_size f) v"
  shows "stores (\<lambda>s m. pb_dec_uvarint e s m f dest) (base128 (unat v)) dest (nat_bytes (unat (data_size f)) (unat v)) ()"
  unfolding pb_dec_uvarint_def
  by (rule stores_clamped [where x = v, OF reads_varint]) (simp add: store_unsigned_put [OF assms] length_nat_bytes)

lemma reads_svarint: "reads (pb_decode_svarint e) (base128 (unat v)) (unzigzag v)"
proof -
  have "pb_decode_svarint e = (\<lambda>s m. and_read (pb_decode_varint e s m) (\<lambda>v s m. Some (Some (unzigzag v), s, m)))"
    by (intro ext) (simp add: pb_decode_svarint_def unzigzag_def)
  then show ?thesis using reads_map [where g = unzigzag, OF reads_varint] by simp
qed

lemma stores_svarint:
  assumes "fits_signed (data_size f) (unzigzag v)"
  shows "stores (\<lambda>s m. pb_dec_svarint e s m f dest) (base128 (unat v)) dest
    (nat_bytes (unat (data_size f)) (unat (unzigzag v))) ()"
  unfolding pb_dec_svarint_def
  by (rule stores_clamped [where x = "unzigzag v", OF reads_svarint])
    (simp add: store_signed_put [OF assms] length_nat_bytes)

text \<open>The length in front of a string.\<close>

lemma stores_delimited:
  assumes len: "length bs < 2 ^ 32"
    and body: "stores (g (of_nat (length bs))) bs dest vs ()"
  shows "stores (\<lambda>s m. and_read (pb_decode_varint32 e s m) g) (base128 (length bs) @ bs) dest vs ()"
proof -
  have "unat (of_nat (length bs) :: u32) = length bs" using len by (simp add: unat_of_nat)
  then have "reads (pb_decode_varint32 e) (base128 (length bs)) (of_nat (length bs))"
    using reads_varint32 [of e "of_nat (length bs)"] by simp
  from stores_after [where g = g, OF this body] show ?thesis .
qed

lemma not_above_size_max: "\<not> PB_SIZE_MAX < x"
proof -
  have "unat x < 2 ^ 32" using unsigned_less [of x] by simp
  then show ?thesis by (simp add: PB_SIZE_MAX_def word_less_nat_alt)
qed

lemma stores_fixed_length:
  assumes "bs = [] \<and> vs = replicate (unat (data_size f)) 0 \<or> bs \<noteq> [] \<and> vs = bs \<and> length bs = unat (data_size f)"
  shows "stores (\<lambda>s m. pb_dec_fixed_length_bytes e s m f dest) (base128 (length bs) @ bs) dest vs ()"
proof -
  have n: "unat (data_size f) < 2 ^ 32" using unsigned_less [of "data_size f"] by simp
  show ?thesis
    unfolding pb_dec_fixed_length_bytes_def
  proof (rule stores_delimited)
    show "length bs < 2 ^ 32" using assms n by auto
    let ?g = "\<lambda>n s m. if PB_SIZE_MAX < n then read_error s m ''bytes overflow''
        else if n = 0 then do { m \<leftarrow> store_bytes m dest (replicate (unat (data_size f)) 0); Some (Some (), s, m) }
        else if n \<noteq> data_size f then read_error s m ''incorrect fixed length bytes size''
        else and_read (pb_read e s m (Into dest) (ucast (data_size f))) (\<lambda>_ s m. Some (Some (), s, m))"
    note max = not_above_size_max
    show "stores (?g (of_nat (length bs))) bs dest vs ()"
      using assms
    proof (elim disjE conjE)
      assume bs: "bs = []" "vs = replicate (unat (data_size f)) 0"
      then show ?thesis
        using store_bytes_writable [where bs = vs] max [of 0] by (simp add: stores_def)
    next
      assume bs: "bs \<noteq> []" "vs = bs" "length bs = unat (data_size f)"
      have eq: "of_nat (length bs) = data_size f" unfolding bs(3) by (simp add: of_nat_unat)
      have "data_size f \<noteq> 0" using bs by (metis unat_0 length_0_conv)
      moreover have "stores (\<lambda>s m. and_read (pb_read e s m (Into dest) (ucast (data_size f))) (\<lambda>_ s m. Some (Some (), s, m))) bs dest bs ()"
      proof -
        have "unat (ucast (data_size f) :: u64) = length bs" using bs(3) by (simp add: unat_ucast_up)
        from stores_read [OF this, of e dest] show ?thesis by (simp add: stores_def and_read_def)
      qed
      ultimately show ?thesis unfolding eq bs(2) using max [of "data_size f"] by simp
    qed
  qed
qed

text \<open>Two neighbouring parts, the first stored before the read of the second.\<close>

lemma stores_prefix:
  assumes f: "stores f bs (dest + of_nat (length pre)) vs ()"
    and g: "\<And>s m. writable m dest (length (pre @ vs)) \<Longrightarrow> g s m = f s (put m dest pre)"
  shows "stores g bs dest (pre @ vs) ()"
  unfolding stores_def
proof (intro allI impI, elim conjE)
  fix s m
  assume h: "holds s m bs" and w: "writable m dest (length (pre @ vs))"
    and a: "apart (is_state s) (length bs) dest (length (pre @ vs))"
  let ?q = "dest + of_nat (length pre)"
  have q: "unat ?q = unat dest + length pre" using w by (intro unat_add_of_nat) (simp add: writable_def)
  have "bytes_at (put m dest pre) (is_state s) bs"
    using h a by (intro bytes_at_apart) (auto simp: holds_def apart_def)
  then have "holds s (put m dest pre) bs" using h by (simp add: holds_def)
  moreover have "writable (put m dest pre) ?q (length vs)"
    using writable_put [OF writable_drop [OF w, of "length pre"]] by simp
  moreover have "apart (is_state s) (length bs) ?q (length vs)" using a q by (auto simp: apart_def)
  ultimately have "g s m = Some (Some (), skipped s (length bs), put (put m dest pre) ?q vs)"
    unfolding g [OF w] by (rule storesD [OF f])
  moreover have "put (put m dest pre) ?q vs = put m dest (pre @ vs)"
    using w by (intro put_put_append) (simp add: writable_def)
  ultimately show "g s m = Some (Some (), skipped s (length bs), put m dest (pre @ vs))" by simp
qed

lemma stores_bytes:
  assumes "PB_ATYPE (field_type f) = PB_ATYPE_STATIC" "4 + length bs \<le> unat (data_size f)"
  shows "stores (\<lambda>s m. pb_dec_bytes e s m f dest) (base128 (length bs) @ bs) dest (nat_bytes 4 (length bs) @ bs) ()"
proof -
  have n: "unat (data_size f) < 2 ^ 32" using unsigned_less [of "data_size f"] by simp
  define k :: u32 where "k = of_nat (length bs)"
  have k: "unat k = length bs" using n assms(2) by (simp add: k_def unat_of_nat)
  have alloc: "unat (ucast k + offsetof_bytes) = length bs + 4"
    using n assms(2) k by (intro trans [OF unat_add_lt]) (simp_all add: unat_ucast_up offsetof_bytes_def)
  have static: "PB_ATYPE (field_type f) \<noteq> PB_ATYPE_POINTER"
    using assms(1) by (simp add: PB_ATYPE_POINTER_def PB_ATYPE_STATIC_def)
  let ?f = "\<lambda>s m. and_read (pb_read e s m (Into (dest + of_nat (length (nat_bytes 4 (length bs))))) (ucast k))
      (\<lambda>_ s m. Some (Some (), s, m))"
  have len: "unat (ucast k :: u64) = length bs" using k by (simp add: unat_ucast_up)
  have body: "stores ?f bs (dest + of_nat (length (nat_bytes 4 (length bs)))) bs ()"
    using stores_read [OF len, of e] by (simp add: stores_def and_read_def)
  have "ucast k + offsetof_bytes \<ge> ucast k" "\<not> ucast (data_size f) < ucast k + offsetof_bytes"
    using alloc len assms(2) by (simp_all add: word_le_nat_alt word_less_nat_alt unat_ucast_up)
  then have "\<not> ucast k + offsetof_bytes < ucast k" by simp
  note conds = this \<open>\<not> ucast (data_size f) < _\<close> static not_above_size_max [of k]
  let ?g = "\<lambda>n s m. if PB_SIZE_MAX < n then read_error s m ''bytes overflow''
          else if ucast n + offsetof_bytes < ucast n then read_error s m ''size too large''
          else and_read
              (if PB_ATYPE (field_type f) = PB_ATYPE_POINTER
               then if is_bytes_left s < ucast n then read_error s m ''end-of-stream''
                    else and_read (allocate_field e s m dest (ucast n + offsetof_bytes) 1)
                           (\<lambda>_ s m. do { p \<leftarrow> load_le 8 m dest; Some (Some p, s, m) })
               else if ucast (data_size f) < ucast n + offsetof_bytes then read_error s m ''bytes overflow''
               else Some (Some dest, s, m))
              (\<lambda>bdest s m. do {
                 m \<leftarrow> store_le 4 m bdest n;
                 p \<leftarrow> ptr_add bdest offsetof_bytes;
                 and_read (pb_read e s m (Into p) (ucast n)) (\<lambda>_ s m. Some (Some (), s, m)) })"
  show ?thesis
    unfolding pb_dec_bytes_def Let_def
  proof (rule stores_delimited)
    show "length bs < 2 ^ 32" using n assms(2) by simp
    show "stores (?g (of_nat (length bs)))
        bs dest (nat_bytes 4 (length bs) @ bs) ()"
    proof (rule stores_prefix [OF body])
      fix s m assume w: "writable m dest (length (nat_bytes 4 (length bs) @ bs))"
      then have "writable m dest (length (nat_bytes 4 (length bs)))" by (rule writable_less) simp
      then have "store_le 4 m dest k = Some (put m dest (nat_bytes 4 (length bs)))"
        unfolding store_le_def k by (rule store_bytes_writable)
      moreover have "ptr_add dest offsetof_bytes = Some (dest + of_nat (length (nat_bytes 4 (length bs))))"
        using w by (simp add: writable_def length_nat_bytes ptr_add_def offsetof_bytes_def)
      ultimately show "?g (of_nat (length bs)) s m =
          ?f s (put m dest (nat_bytes 4 (length bs)))"
        using conds unfolding k_def [symmetric] by (simp add: and_read_def del: nat_bytes_numeral)
    qed
  qed
qed

lemma stores_suffix:
  assumes f: "stores f bs dest xs v" and g: "\<And>v s m. writable m dest (length (xs @ ys)) \<Longrightarrow>
      g v s m = Some (Some w, s, put m (dest + of_nat (length xs)) ys)"
  shows "stores (\<lambda>s m. and_read (f s m) g) bs dest (xs @ ys) w"
  unfolding stores_def
proof (intro allI impI, elim conjE)
  fix s m
  assume h: "holds s m bs" and w: "writable m dest (length (xs @ ys))"
    and a: "apart (is_state s) (length bs) dest (length (xs @ ys))"
  have "writable m dest (length xs)" "apart (is_state s) (length bs) dest (length xs)"
    using writable_less [OF w, of "length xs"] a by (auto simp: apart_def)
  from storesD [OF f h this] have "f s m = Some (Some v, skipped s (length bs), put m dest xs)" .
  moreover have "put (put m dest xs) (dest + of_nat (length xs)) ys = put m dest (xs @ ys)"
    using w by (intro put_put_append) (simp add: writable_def)
  ultimately show "and_read (f s m) g = Some (Some w, skipped s (length bs), put m dest (xs @ ys))"
    using g [OF writable_put [OF w], of v "skipped s (length bs)" dest xs] by (simp add: and_read_def)
qed

lemma stores_string:
  assumes "PB_ATYPE (field_type f) = PB_ATYPE_STATIC" "length bs < unat (data_size f)"
  shows "stores (\<lambda>s m. pb_dec_string e s m f dest) (base128 (length bs) @ bs) dest (bs @ [0]) ()"
proof -
  have n: "unat (data_size f) < 2 ^ 32" using unsigned_less [of "data_size f"] by simp
  define k :: u32 where "k = of_nat (length bs)"
  have k: "unat k = length bs" using n assms(2) by (simp add: k_def unat_of_nat)
  have "unat (k + 1) = length bs + 1"
    using n assms(2) k by (simp add: unat_word_ariths)
  then have alloc: "unat (ucast (k + 1) :: u64) = length bs + 1" by (simp add: unat_ucast_up)
  have len: "unat (ucast k :: u64) = length bs" using k by (simp add: unat_ucast_up)
  have static: "PB_ATYPE (field_type f) \<noteq> PB_ATYPE_POINTER"
    using assms(1) by (simp add: PB_ATYPE_POINTER_def PB_ATYPE_STATIC_def)
  have conds: "\<not> ucast (k + 1) < (ucast k :: u64)" "\<not> ucast (data_size f) < (ucast (k + 1) :: u64)"
    using alloc len assms(2) by (simp_all add: word_less_nat_alt unat_ucast_up)
  let ?g = "\<lambda>(n :: u32) s m. let alloc_size = ucast (n + 1) in
          if alloc_size < (ucast n :: u64) then read_error s m ''size too large''
          else
            and_read
              (if PB_ATYPE (field_type f) = PB_ATYPE_POINTER
               then if is_bytes_left s < ucast n then read_error s m ''end-of-stream''
                    else and_read (allocate_field e s m dest alloc_size 1)
                           (\<lambda>_ s m. do { p \<leftarrow> load_le 8 m dest; Some (Some p, s, m) })
               else if ucast (data_size f) < alloc_size then read_error s m ''string overflow''
               else Some (Some dest, s, m))
              (\<lambda>dest s m. do {
                 (r, s, m) \<leftarrow> pb_read e s m (Into dest) (ucast n);
                 q \<leftarrow> ptr_add dest (ucast n);
                 m \<leftarrow> store_bytes m q [0];
                 Some (map_option (\<lambda>_. ()) r, s, m) })"
  show ?thesis
    unfolding pb_dec_string_def
  proof (rule stores_delimited)
    show "length bs < 2 ^ 32" using n assms(2) by simp
    let ?h = "\<lambda>_ s m. do { q \<leftarrow> ptr_add dest (ucast k); m \<leftarrow> store_bytes m q [0]; Some (Some (), s, m) }"
    have "?h v s m = Some (Some (), s, put m (dest + of_nat (length bs)) [0])"
      if w: "writable m dest (length (bs @ [0 :: byte]))" for v :: "byte list" and s :: istream and m
    proof -
      have "ptr_add dest (ucast k) = Some (dest + of_nat (length bs))"
        using w len by (simp add: ptr_add_def writable_def) (metis len of_nat_unat ucast_id)
      moreover have "writable m (dest + of_nat (length bs)) (length [0 :: byte])"
        using writable_drop [OF w, of "length bs"] by simp
      ultimately show ?thesis using store_bytes_writable [where bs = "[0]"] by (simp del: store_bytes.simps)
    qed
    from stores_suffix [where g = ?h, OF stores_read [OF len, of e dest] this]
    have st: "stores (\<lambda>s m. and_read (pb_read e s m (Into dest) (ucast k)) ?h) bs dest (bs @ [0]) ()" .
    show "stores (?g (of_nat (length bs))) bs dest (bs @ [0]) ()"
      unfolding stores_def
    proof (intro allI impI, elim conjE)
      fix s m
      assume h: "holds s m bs" "writable m dest (length (bs @ [0]))" "apart (is_state s) (length bs) dest (length (bs @ [0]))"
      have "\<exists>vs s' m'. pb_read e s m (Into dest) (ucast k) = Some (Some vs, s', m')"
        using storesD [OF stores_read [OF len, of e dest] h(1)] h(2,3) writable_less [OF h(2), of "length bs"]
        by (auto simp: apart_def)
      then show "?g (of_nat (length bs)) s m = Some (Some (), skipped s (length bs), put m dest (bs @ [0]))"
        using storesD [OF st h] conds static unfolding k_def [symmetric] by (auto simp: and_read_def Let_def simp del: store_bytes.simps)
    qed
  qed
qed

text \<open>Every decoder of a value, against \<open>stored_bytes\<close>.\<close>

lemma stores_decoder:
  assumes "stored_bytes f w = Some bs" "PB_ATYPE (field_type f) = PB_ATYPE_STATIC"
  shows "stores (\<lambda>s m. call_decoder e dec (PB_DECODERS ! unat (PB_LTYPE (field_type f))) s m f dest) (payload w) dest bs ()"
proof (cases w)
  case (Varint v)
  let ?t = "PB_LTYPE (field_type f)"
  have "stored_number f (Varint v) = Some bs"
    using assms(1) Varint by (simp add: stored_bytes_def Let_def del: stored_number.simps)
  then consider
    "?t = PB_LTYPE_BOOL" "unat v < 2 ^ 32 \<or> 2 ^ 64 - 2 ^ 31 \<le> unat v" "bs = [if (ucast v :: u32) \<noteq> 0 then 1 else 0]"
  | x where "?t = PB_LTYPE_VARINT" "x = (if data_size f = 8 then v else scast (ucast v :: u32))"
      "fits_signed (data_size f) x" "bs = nat_bytes (unat (data_size f)) (unat x)"
  | "?t = PB_LTYPE_UVARINT" "fits_unsigned (data_size f) v" "bs = nat_bytes (unat (data_size f)) (unat v)"
  | "?t = PB_LTYPE_SVARINT" "fits_signed (data_size f) (unzigzag v)" "bs = nat_bytes (unat (data_size f)) (unat (unzigzag v))"
    unfolding stored_number.simps Let_def by (auto split: if_splits)
  then show ?thesis
  proof cases
    case 1
    then show ?thesis using stores_bool [of v e dest] Varint by (simp add: decoder_constants)
  next
    case 2
    then show ?thesis using stores_varint [OF 2(3,2), of e dest] Varint by (simp add: decoder_constants)
  next
    case 3
    then show ?thesis using stores_uvarint [of f v e dest] Varint by (simp add: decoder_constants)
  next
    case 4
    then show ?thesis using stores_svarint [of f v e dest] Varint by (simp add: decoder_constants)
  qed
next
  case (Fixed32 xs)
  with assms(1) have "PB_LTYPE (field_type f) = PB_LTYPE_FIXED32" "length xs = 4" "bs = xs"
    by (auto simp: stored_bytes_def split: if_splits)
  then show ?thesis using stores_fixed32 [of xs e dest] Fixed32 by (simp add: decoder_constants pb_dec_fixed32_def)
next
  case (Fixed64 xs)
  with assms(1) have "PB_LTYPE (field_type f) = PB_LTYPE_FIXED64" "length xs = 8" "bs = xs"
    by (auto simp: stored_bytes_def split: if_splits)
  then show ?thesis using stores_fixed64 [of xs e dest] Fixed64 by (simp add: decoder_constants pb_dec_fixed64_def)
next
  case (Delimited xs)
  let ?t = "PB_LTYPE (field_type f)"
  from assms(1) Delimited consider
    "?t = PB_LTYPE_BYTES" "4 + length xs \<le> unat (data_size f)" "bs = nat_bytes 4 (length xs) @ xs"
  | "?t = PB_LTYPE_STRING" "length xs < unat (data_size f)" "bs = xs @ [0]"
  | "?t = PB_LTYPE_FIXED_LENGTH_BYTES"
      "xs = [] \<and> bs = replicate (unat (data_size f)) 0 \<or> xs \<noteq> [] \<and> bs = xs \<and> length xs = unat (data_size f)"
    unfolding stored_bytes_def Let_def by (auto split: if_splits)
  then show ?thesis
  proof cases
    case 1
    then show ?thesis using stores_bytes [of f xs e dest] assms(2) Delimited by (simp add: decoder_constants)
  next
    case 2
    then show ?thesis using stores_string [of f xs e dest] assms(2) Delimited by (simp add: decoder_constants)
  next
    case 3
    then show ?thesis using stores_fixed_length [OF 3(2), of e dest] Delimited by (simp add: decoder_constants)
  qed
qed

section \<open>The round trip of a value\<close>

lemma unzigzag_zigzag: "unzigzag (zigzag v) = v"
proof -
  define k :: int where "k = (if sint v < 0 then - 2 * sint v - 1 else 2 * sint v)"
  have u: "uint (zigzag v) = k"
    using sint_bounds64 [of v] by (simp add: zigzag_def k_def unsigned_of_int take_bit_int_eq_self)
  have odd: "zigzag v AND 1 \<noteq> 0 \<longleftrightarrow> sint v < 0"
  proof -
    have "zigzag v AND 1 \<noteq> 0 \<longleftrightarrow> odd (uint (zigzag v))"
      using bit_uint_iff [of "zigzag v" 0] by (simp add: and_one_eq bit_0 odd_iff_mod_2_eq_one [symmetric])
    then show ?thesis unfolding u by (simp add: k_def)
  qed
  have drop: "drop_bit 1 (zigzag v) = of_int (k div 2)" by (simp add: drop_bit_eq_div word_div_def u)
  show ?thesis
  proof (cases "sint v < 0")
    case True
    then have "k div 2 = - sint v - 1" by (simp add: k_def)
    then show ?thesis using True odd drop by (simp add: unzigzag_def not_eq_complement)
  next
    case False
    then show ?thesis using odd drop by (simp add: unzigzag_def k_def)
  qed
qed

lemma load_le_stored:
  "bytes_at m p (nat_bytes n (unat v)) \<Longrightarrow> LENGTH('a::len) \<le> 8 * n \<Longrightarrow>
   load_le n m p = Some (ucast (v :: u64) :: 'a word)"
  using load_le_bytes [where ?'a = 'a, of m p "nat_bytes n (unat v)" n] of_nat_bytes_nat [where 'a = 'a, of n "unat v"]
  by (simp add: length_nat_bytes)

lemma load_signed_stored:
  assumes "fits_signed n v" "bytes_at m p (nat_bytes (unat n) (unat v))"
  shows "load_signed m p n = Some (Some v)"
proof -
  from assms(1) consider "n = 8" | "n = 4" "scast (ucast v :: u32) = v" | "n = 2" "scast (ucast v :: u16) = v"
    | "n = 1" "scast (ucast v :: byte) = v"
    unfolding fits_signed_def by blast
  then show ?thesis
  proof cases
    case 1
    then show ?thesis using assms(2) load_le_stored [where 'a = 64, of m p 8 v]
      by (simp add: load_signed_def del: nat_bytes_numeral load_bytes_numeral)
  next
    case 2
    then show ?thesis using assms(2) load_le_stored [where 'a = 32, of m p 4 v]
      by (simp add: load_signed_def del: nat_bytes_numeral load_bytes_numeral)
  next
    case 3
    then show ?thesis using assms(2) load_le_stored [where 'a = 16, of m p 2 v]
      by (simp add: load_signed_def del: nat_bytes_numeral load_bytes_numeral)
  next
    case 4
    then show ?thesis using assms(2) load_le_stored [where 'a = 8, of m p 1 v]
      by (simp add: load_signed_def del: nat_bytes.simps load_bytes.simps One_nat_def)
  qed
qed

lemma load_unsigned_stored:
  assumes "fits_unsigned n v" "bytes_at m p (nat_bytes (unat n) (unat v))"
  shows "load_unsigned m p n = Some (Some v)"
proof -
  have lt: "unat v < 2 ^ (8 * unat n)" using assms(1) by (simp add: fits_unsigned_def)
  from assms(1) consider "n = 8" | "n = 4" | "n = 2" | "n = 1"
    unfolding fits_unsigned_def by blast
  then show ?thesis
  proof cases
    case 1
    then show ?thesis using assms(2) load_le_stored [where 'a = 64, of m p 8 v]
      by (simp add: load_unsigned_def del: nat_bytes_numeral load_bytes_numeral)
  next
    case 2
    then show ?thesis using assms(2) load_le_stored [where 'a = 32, of m p 4 v] lt ucast_down_up [where 'a = 32, of v]
      by (simp add: load_unsigned_def del: nat_bytes_numeral load_bytes_numeral)
  next
    case 3
    then show ?thesis using assms(2) load_le_stored [where 'a = 16, of m p 2 v] lt ucast_down_up [where 'a = 16, of v]
      by (simp add: load_unsigned_def del: nat_bytes_numeral load_bytes_numeral)
  next
    case 4
    then show ?thesis using assms(2) load_le_stored [where 'a = 8, of m p 1 v] lt ucast_down_up [where 'a = 8, of v]
      by (simp add: load_unsigned_def del: nat_bytes.simps load_bytes.simps One_nat_def)
  qed
qed

lemma c_string_zero_free: "c_string k m p = Some cs \<Longrightarrow> 0 \<notin> set cs \<and> length cs \<le> k"
proof (induction k arbitrary: p cs)
  case 0
  then show ?case by simp
next
  case (Suc k)
  then show ?case by (fastforce simp: bind_eq_Some_conv split: if_splits)
qed

lemma c_string_stored: "bytes_at m p (cs @ [0]) \<Longrightarrow> 0 \<notin> set cs \<Longrightarrow> length cs < k \<Longrightarrow> c_string k m p = Some cs"
proof (induction cs arbitrary: p k)
  case Nil
  then obtain j where "k = Suc j" by (cases k) auto
  then show ?case using Nil by simp
next
  case (Cons c cs)
  then obtain j where k: "k = Suc j" by (cases k) auto
  have "ptr_add p 1 = Some (p + 1)" using Cons.prems(1) by (simp add: ptr_add_def)
  then show ?case using Cons.IH [of "p + 1" j] Cons.prems k by auto
qed

lemma scast_narrow:
  fixes w :: "'a::len word"
  assumes "LENGTH('a) \<le> 32"
  shows "scast (ucast (scast w :: u64) :: u32) = (scast w :: u64)"
proof -
  have "(ucast (scast w :: u64) :: u32) = scast w"
  proof (rule bit_word_eqI)
    fix n assume "n < LENGTH(32)"
    then show "bit (ucast (scast w :: u64) :: u32) n = bit (scast w :: u32) n"
      by (auto simp: bit_ucast_iff bit_signed_iff word_size)
  qed
  moreover have "scast (scast w :: u32) = (scast w :: u64)"
  proof (rule bit_word_eqI)
    fix n assume "n < LENGTH(64)"
    moreover have "min (LENGTH('a) - Suc 0) (min 31 n) = min (LENGTH('a) - Suc 0) n"
      using assms by (simp add: min.assoc [symmetric] min_absorb1)
    ultimately show "bit (scast (scast w :: u32) :: u64) n = bit (scast w :: u64) n"
      by (auto simp: bit_signed_iff word_size)
  qed
  ultimately show ?thesis by simp
qed

lemma load_signed_narrow:
  assumes "load_signed m p n = Some (Some x)" "n \<noteq> 8"
  shows "scast (ucast x :: u32) = x"
  using assms by (auto simp: load_signed_def scast_narrow split: if_splits)

lemma value_at_bytes:
  assumes ty: "PB_LTYPE (field_type f) = PB_LTYPE_BYTES" and q: "q \<noteq> 0"
    and at: "bytes_at m q (nat_bytes 4 (length xs) @ xs)" and len: "4 + length xs \<le> unat (data_size f)"
  shows "value_at sub m f q = Some (Delimited xs)"
proof -
  have n: "unat (data_size f) < 2 ^ 32" using unsigned_less [of "data_size f"] by simp
  define k :: u32 where "k = of_nat (length xs)"
  have k: "unat k = length xs" using n len by (simp add: k_def unat_of_nat)
  have parts: "bytes_at m q (nat_bytes 4 (unat k))" "bytes_at m (q + 4) xs"
    using at by (simp_all only: bytes_at_append length_nat_bytes k) simp
  have "load_le 4 m q = Some k"
    using load_le_bytes [where ?'a = 32, OF parts(1) length_nat_bytes] of_nat_bytes_nat [where 'a = 32, of 4 "unat k"]
    by (simp del: nat_bytes_numeral load_bytes_numeral)
  moreover have "ptr_add q 4 = Some (q + 4)"
    using bytes_at_end [OF parts(1)] by (simp add: ptr_add_def length_nat_bytes del: nat_bytes_numeral)
  moreover have "load_bytes m (q + 4) (unat k) = Some xs" using parts(2) k by (simp add: load_bytes_iff)
  moreover have "\<not> ucast (data_size f) - 4 < (ucast k :: u64)"
  proof -
    have "unat (ucast (data_size f) - 4 :: u64) = unat (data_size f) - 4"
      using len by (subst unat_sub) (simp_all add: word_le_nat_alt unat_ucast_up)
    then show ?thesis using len k by (simp add: word_less_nat_alt unat_ucast_up)
  qed
  ultimately show ?thesis
    using ty q by (simp add: value_at_def ltype_constants del: load_bytes_numeral)
qed

lemma value_at_string:
  assumes "PB_LTYPE (field_type f) = PB_LTYPE_STRING" "q \<noteq> 0" "PB_ATYPE (field_type f) = PB_ATYPE_STATIC"
    and "bytes_at m q (xs @ [0])" "0 \<notin> set xs" "length xs < unat (data_size f)"
  shows "value_at sub m f q = Some (Delimited xs)"
  using c_string_stored [OF assms(4-6)] assms(1-3)
  by (simp add: value_at_def ltype_constants string_limit_def PB_ATYPE_STATIC_def PB_ATYPE_POINTER_def)

text \<open>A value in memory, of a type that decides it alone, is there again after its bytes are stored.\<close>

lemma value_at_stored:
  assumes v: "value_at sub m f p = Some v" and st: "stored_bytes f v = Some bs"
    and at: "bytes_at m' q bs" and q: "q \<noteq> 0" and static: "PB_ATYPE (field_type f) = PB_ATYPE_STATIC"
  shows "value_at sub m' f q = Some v"
  using v
proof (cases rule: value_at_cases)
  case (bool b)
  with st at have "m' q = Some (if b = 0 then 0 else 1)"
    by (auto simp: stored_bytes_def ltype_constants split: if_splits)
  then show ?thesis using bool by (simp add: value_at_def)
next
  case (varint x)
  from varint st obtain y where y: "y = (if data_size f = 8 then x else scast (ucast x :: u32))"
    "fits_signed (data_size f) y" "bs = nat_bytes (unat (data_size f)) (unat y)"
    by (auto simp: stored_bytes_def ltype_constants Let_def split: if_splits)
  have "y = x" using load_signed_narrow [OF varint(2)] y(1) by auto
  then show ?thesis using load_signed_stored [OF y(2)] at y(3) varint
    by (simp add: value_at_def ltype_constants)
next
  case (uvarint x)
  then show ?thesis using st at load_unsigned_stored [of "data_size f" x m' q]
    by (auto simp: value_at_def stored_bytes_def ltype_constants Let_def split: if_splits)
next
  case (svarint x)
  then show ?thesis using st at load_signed_stored [of "data_size f" x m' q]
    by (auto simp: value_at_def stored_bytes_def ltype_constants Let_def unzigzag_zigzag split: if_splits)
next
  case (fixed32 xs)
  then show ?thesis using st at
    by (auto simp: value_at_def stored_bytes_def ltype_constants Let_def load_bytes_iff
        simp del: load_bytes_numeral split: if_splits)
next
  case (fixed64 xs)
  then show ?thesis using st at
    by (auto simp: value_at_def stored_bytes_def ltype_constants Let_def load_bytes_iff
        simp del: load_bytes_numeral split: if_splits)
next
  case no_bytes
  then show ?thesis using st at q value_at_bytes [of f q m' "[]" sub]
    by (auto simp: stored_bytes_def ltype_constants simp del: nat_bytes_numeral split: if_splits)
next
  case (bytes n r xs)
  then show ?thesis using st at q value_at_bytes [of f q m' xs sub]
    by (auto simp: stored_bytes_def ltype_constants simp del: nat_bytes_numeral load_bytes_numeral split: if_splits)
next
  case no_string
  then show ?thesis using st at q static value_at_string [of f q m' "[]" sub]
    by (auto simp: stored_bytes_def ltype_constants split: if_splits)
next
  case (string xs)
  then show ?thesis using st at q static c_string_zero_free [OF string(3)] value_at_string [of f q m' xs sub]
    by (auto simp: stored_bytes_def ltype_constants split: if_splits)
next
  case (submessage xs)
  then show ?thesis using st by (simp add: stored_bytes_def ltype_constants)
next
  case (fixed_length xs)
  then show ?thesis using st at
    by (auto simp: value_at_def stored_bytes_def ltype_constants Let_def load_bytes_iff
        simp del: load_bytes_numeral split: if_splits)
qed

text \<open>Which values of a static field can be stored back: all but a string that fills its array.\<close>

lemma ucast_scast:
  fixes w :: "'a::len word"
  assumes "LENGTH('a) \<le> 64"
  shows "ucast (scast w :: u64) = w"
proof (rule bit_word_eqI)
  fix n assume "n < LENGTH('a)"
  then show "bit (ucast (scast w :: u64) :: 'a word) n = bit w n"
    using assms by (auto simp: bit_ucast_iff bit_signed_iff word_size)
qed

lemma load_signed_fits: "load_signed m p n = Some (Some x) \<Longrightarrow> fits_signed n x"
  by (auto simp: load_signed_def fits_signed_def ucast_scast split: if_splits)

lemma load_unsigned_fits:
  assumes "load_unsigned m p n = Some (Some x)"
  shows "fits_unsigned n x"
proof -
  from assms consider "n = 8" | w where "n = 4" "x = ucast (w :: u32)" | w where "n = 2" "x = ucast (w :: u16)"
    | w where "n = 1" "x = ucast (w :: byte)"
    by (auto simp: load_unsigned_def split: if_splits)
  then show ?thesis
  proof cases
    case 1
    then show ?thesis using less_exp [of x] by (simp add: fits_unsigned_def)
  next
    case 2
    then show ?thesis using unsigned_less [of w] by (simp add: fits_unsigned_def unat_ucast_up)
  next
    case 3
    then show ?thesis using unsigned_less [of w] by (simp add: fits_unsigned_def unat_ucast_up)
  next
    case 4
    then show ?thesis using unsigned_less [of w] by (simp add: fits_unsigned_def unat_ucast_up)
  qed
qed

lemma stored_bytes_of_value:
  assumes v: "value_at sub m f p = Some v" and static: "PB_ATYPE (field_type f) = PB_ATYPE_STATIC" and p: "p \<noteq> 0"
    and ty: "PB_LTYPE (field_type f) \<noteq> PB_LTYPE_SUBMESSAGE"
    and bytes: "PB_LTYPE (field_type f) = PB_LTYPE_BYTES \<Longrightarrow> 4 \<le> unat (data_size f)"
    and string: "\<And>xs. PB_LTYPE (field_type f) = PB_LTYPE_STRING \<Longrightarrow> v = Delimited xs \<Longrightarrow> length xs \<noteq> unat (data_size f)"
  shows "stored_bytes f v \<noteq> None"
  using v
proof (cases rule: value_at_cases)
  case (bool b)
  then show ?thesis by (simp add: stored_bytes_def ltype_constants)
next
  case (varint x)
  then show ?thesis using load_signed_fits [OF varint(2)] load_signed_narrow [OF varint(2)]
    by (auto simp: stored_bytes_def ltype_constants Let_def)
next
  case (uvarint x)
  then show ?thesis using load_unsigned_fits [OF uvarint(2)] by (simp add: stored_bytes_def ltype_constants Let_def)
next
  case (svarint x)
  then show ?thesis using load_signed_fits [OF svarint(2)]
    by (simp add: stored_bytes_def ltype_constants Let_def unzigzag_zigzag)
next
  case (fixed32 xs)
  then show ?thesis by (simp add: stored_bytes_def load_bytes_iff del: load_bytes_numeral)
next
  case (fixed64 xs)
  then show ?thesis by (simp add: stored_bytes_def load_bytes_iff del: load_bytes_numeral)
next
  case (bytes n r xs)
  have size: "4 \<le> unat (data_size f)" using bytes(1) by (rule assms(5))
  have "unat (ucast (data_size f) - 4 :: u64) = unat (data_size f) - 4"
    using size by (subst unat_sub) (simp_all add: word_le_nat_alt unat_ucast_up)
  then have "unat n \<le> unat (data_size f) - 4"
    using bytes(4) static by (simp add: word_less_nat_alt unat_ucast_up)
  moreover have "length xs = unat n" using bytes(6) by (simp add: load_bytes_iff)
  ultimately show ?thesis using bytes size by (simp add: stored_bytes_def ltype_constants)
next
  case (string xs)
  have "length xs \<le> unat (data_size f)"
    using c_string_zero_free [OF string(3)] static
    by (simp add: string_limit_def PB_ATYPE_STATIC_def PB_ATYPE_POINTER_def)
  moreover have "length xs \<noteq> unat (data_size f)" using assms(6) string by blast
  ultimately show ?thesis using string by (simp add: stored_bytes_def ltype_constants)
next
  case (fixed_length xs)
  then show ?thesis by (simp add: stored_bytes_def ltype_constants load_bytes_iff Let_def)
qed (use p ty in auto)

lemma stored_bytes_length:
  assumes "stored_bytes f v = Some bs" "PB_LTYPE (field_type f) \<notin> {PB_LTYPE_BOOL, PB_LTYPE_FIXED32, PB_LTYPE_FIXED64}"
  shows "length bs \<le> unat (data_size f)"
  using assms
  by (cases v) (auto simp: stored_bytes_def Let_def length_nat_bytes simp del: nat_bytes_numeral split: if_splits)

text \<open>
  C37. The value of a static field that is no submessage, and no string that fills its array without a terminator,
  survives the wire: what the encoder writes for it, the decoder of the same type reads to its end, writes nothing
  but the bytes of the value, within the size of the field where the type does not fix it, and the encoder would now
  write the same. The string that fills its array is a defect: the encoder accepts it and the decoder does not.
\<close>

theorem pb_value_round_trip:
  assumes "value_at sub m f p = Some v" "PB_ATYPE (field_type f) = PB_ATYPE_STATIC" "p \<noteq> 0"
    and "PB_LTYPE (field_type f) \<noteq> PB_LTYPE_SUBMESSAGE"
    and "PB_LTYPE (field_type f) = PB_LTYPE_BYTES \<Longrightarrow> 4 \<le> unat (data_size f)"
    and "\<And>xs. PB_LTYPE (field_type f) = PB_LTYPE_STRING \<Longrightarrow> v = Delimited xs \<Longrightarrow> length xs \<noteq> unat (data_size f)"
  shows "\<exists>bs. stored_bytes f v = Some bs \<and>
    (PB_LTYPE (field_type f) \<notin> {PB_LTYPE_BOOL, PB_LTYPE_FIXED32, PB_LTYPE_FIXED64} \<longrightarrow>
       length bs \<le> unat (data_size f)) \<and>
    (\<forall>s m' dest. holds s m' (payload v) \<and> writable m' dest (length bs) \<and> dest \<noteq> 0 \<and>
        apart (is_state s) (length (payload v)) dest (length bs) \<longrightarrow>
      call_decoder e dec (PB_DECODERS ! unat (PB_LTYPE (field_type f))) s m' f dest =
        Some (Some (), skipped s (length (payload v)), put m' dest bs) \<and>
      value_at sub (put m' dest bs) f dest = Some v)"
proof -
  have "stored_bytes f v \<noteq> None"
    by (rule stored_bytes_of_value [OF assms(1-4)]) (erule assms(5), erule (1) assms(6))
  then obtain bs where bs: "stored_bytes f v = Some bs" by blast
  have again: "value_at sub (put m' dest bs) f dest = Some v"
    if "writable m' dest (length bs)" "dest \<noteq> 0" for m' dest
    using bytes_at_put [of dest bs m'] that by (intro value_at_stored [OF assms(1) bs _ _ assms(2)]) (simp_all add: writable_def)
  show ?thesis
  proof (intro exI [of _ bs] conjI allI impI)
    show "stored_bytes f v = Some bs" by (rule bs)
    show "length bs \<le> unat (data_size f)"
      if "PB_LTYPE (field_type f) \<notin> {PB_LTYPE_BOOL, PB_LTYPE_FIXED32, PB_LTYPE_FIXED64}"
      using bs that by (rule stored_bytes_length)
    fix s m' dest
    assume h: "holds s m' (payload v) \<and> writable m' dest (length bs) \<and> dest \<noteq> 0 \<and>
      apart (is_state s) (length (payload v)) dest (length bs)"
    then show "call_decoder e dec (PB_DECODERS ! unat (PB_LTYPE (field_type f))) s m' f dest =
        Some (Some (), skipped s (length (payload v)), put m' dest bs)"
      by (intro storesD [OF stores_decoder [OF bs assms(2)]]) simp_all
    show "value_at sub (put m' dest bs) f dest = Some v" using h by (intro again) simp_all
  qed
qed

definition name_field :: pb_field where
  "name_field = \<lparr>field_tag = 1, field_type = 0x07, data_offset = 0, size_offset = 0, data_size = 4,
     array_size = 0, field_ptr = 0\<rparr>"

lemma writable_mem_of:
  "unat base + length bs < 2 ^ 64 \<Longrightarrow> n \<le> length bs \<Longrightarrow> writable (mem_of base bs) base n"
  by (simp add: writable_def mem_of_lookup)

theorem pb_value_round_trip_witness:
  "call_decoder quiet_env (\<lambda>i s m d p. None) DecString (pb_istream_from_buffer 0x1004 3)
      (mem_of 0x1000 [7, 7, 7, 7, 2, 104, 105]) name_field 0x1000 =
    Some (Some (), skipped (pb_istream_from_buffer 0x1004 3) 3,
      put (mem_of 0x1000 [7, 7, 7, 7, 2, 104, 105]) 0x1000 [104, 105, 0])"
proof -
  let ?m = "mem_of 0x1000 [7, 7, 7, 7, 2, 104, 105]" and ?s = "pb_istream_from_buffer 0x1004 3"
  have ty: "PB_LTYPE (field_type name_field) = PB_LTYPE_STRING" "PB_ATYPE (field_type name_field) = PB_ATYPE_STATIC"
    "unat (data_size name_field) = 4"
    by (simp_all add: name_field_def PB_LTYPE_defs PB_ATYPE_defs)
  have "bytes_at (mem_of 0x2000 [104, 105, 0]) 0x2000 ([104, 105] @ [0])"
    using bytes_at_mem_of [of "0x2000" "[104, 105, 0]"] by simp
  then have v: "value_at (\<lambda>d p. None) (mem_of 0x2000 [104, 105, 0]) name_field 0x2000 = Some (Delimited [104, 105])"
    using ty by (intro value_at_string) auto
  have "bytes_at ?m 0x1000 ([7, 7, 7, 7] @ [2, 104, 105])"
    using bytes_at_mem_of [of "0x1000" "[7, 7, 7, 7, 2, 104, 105]"] by simp
  then have "bytes_at ?m 0x1004 [2, 104, 105]" unfolding bytes_at_append by (simp del: bytes_at.simps)
  moreover have pay: "payload (Delimited [104, 105]) = [2, 104, 105]" by (simp add: base128_small)
  ultimately have h: "holds ?s ?m (payload (Delimited [104, 105]))"
    by (simp add: holds_def pb_istream_from_buffer_def del: bytes_at.simps)
  have st: "stored_bytes name_field (Delimited [104, 105]) = Some [104, 105, 0]"
    using ty by (simp add: stored_bytes_def ltype_constants)
  have w: "writable ?m 0x1000 (length [104, 105, 0 :: byte])" by (rule writable_mem_of) simp_all
  have a: "apart (is_state ?s) (length (payload (Delimited [104, 105]))) 0x1000 (length [104, 105, 0 :: byte])"
    unfolding pay by (simp add: apart_def pb_istream_from_buffer_def)
  have "call_decoder quiet_env (\<lambda>i s m d p. None) (PB_DECODERS ! unat (PB_LTYPE (field_type name_field))) ?s ?m name_field 0x1000 =
    Some (Some (), skipped ?s (length (payload (Delimited [104, 105]))), put ?m 0x1000 [104, 105, 0])"
    using pb_value_round_trip [OF v ty(2), where e = quiet_env and dec = "\<lambda>i s m d p. None"] st h w a ty by (auto simp: ltype_constants)
  moreover have "length (payload (Delimited [104, 105])) = 3" unfolding pay by simp
  ultimately show ?thesis by (simp only: ty(1) decoder_constants)
qed

end
