(* ===== verification/Pb_Decode_Refinement.thy ===== *)
theory Pb_Decode_Refinement
  imports Pb_Decode_Fields
begin

text \<open>
  What \<open>pb_decode_noinit\<close> of \<^verbatim>\<open>nanopb/pb_decode.c\<close> does with the bytes of a message whose fields are
  static and singular: each field of the input is stored in its place, in order, unknown fields are
  skipped, and the required ones are counted.
\<close>

section \<open>Memory that a message does not own\<close>








section \<open>Messages of static singular fields\<close>






















section \<open>One field of the input\<close>








section \<open>Required fields\<close>





section \<open>All fields of the input\<close>

























end
