(* ===== verification/Uv_Heap.thy ===== *)
theory Uv_Heap
  imports Prelude
begin

text \<open>
  The binary heap of libuv, \<^verbatim>\<open>src/heap-inl.h\<close>: nodes linked by pointers to their children and their
  parent. A heap of \<open>n\<close> nodes is the list of their addresses, level by level; the node at position
  \<open>p\<close>, from 1, has its children at \<open>2 * p\<close> and \<open>2 * p + 1\<close>.
\<close>

section \<open>Nodes and pointers\<close>

record heap_node =
  node_left :: addr
  node_right :: addr
  node_parent :: addr

text \<open>The structure \<open>heap\<close>, with the memory that holds the nodes.\<close>

record heap =
  heap_root :: addr
  nelts :: u32
  nodes :: "addr \<rightharpoonup> heap_node"

definition node_at :: "heap \<Rightarrow> addr \<Rightarrow> heap_node option" where
  "node_at h a = (if a = 0 then None else nodes h a)"

definition set_node :: "heap \<Rightarrow> addr \<Rightarrow> heap_node \<Rightarrow> heap option" where
  "set_node h a n = do { _ \<leftarrow> node_at h a; Some (h\<lparr>nodes := (nodes h)(a \<mapsto> n)\<rparr>) }"

definition set_left :: "heap \<Rightarrow> addr \<Rightarrow> addr \<Rightarrow> heap option" where
  "set_left h a q = do { n \<leftarrow> node_at h a; set_node h a (n\<lparr>node_left := q\<rparr>) }"

definition set_right :: "heap \<Rightarrow> addr \<Rightarrow> addr \<Rightarrow> heap option" where
  "set_right h a q = do { n \<leftarrow> node_at h a; set_node h a (n\<lparr>node_right := q\<rparr>) }"

definition set_parent :: "heap \<Rightarrow> addr \<Rightarrow> addr \<Rightarrow> heap option" where
  "set_parent h a q = do { n \<leftarrow> node_at h a; set_node h a (n\<lparr>node_parent := q\<rparr>) }"

text \<open>A pointer to a link: \<open>&heap->min\<close>, \<open>&n->left\<close> or \<open>&n->right\<close>.\<close>

datatype link = MinLink | LeftLink addr | RightLink addr

fun read_link :: "heap \<Rightarrow> link \<Rightarrow> addr option" where
  "read_link h MinLink = Some (heap_root h)"
| "read_link h (LeftLink a) = map_option node_left (node_at h a)"
| "read_link h (RightLink a) = map_option node_right (node_at h a)"

fun write_link :: "heap \<Rightarrow> link \<Rightarrow> addr \<Rightarrow> heap option" where
  "write_link h MinLink q = Some (h\<lparr>heap_root := q\<rparr>)"
| "write_link h (LeftLink a) q = set_left h a q"
| "write_link h (RightLink a) q = set_right h a q"

section \<open>Operations\<close>

definition heap_init :: "heap \<Rightarrow> heap" where
  "heap_init h = h\<lparr>heap_root := 0, nelts := 0\<rparr>"

definition heap_min :: "heap \<Rightarrow> addr" where
  "heap_min h = heap_root h"

text \<open>The three groups of statements of \<open>heap_node_swap\<close>: the nodes, their neighbours, the link from above.\<close>

definition swap_nodes :: "heap \<Rightarrow> addr \<Rightarrow> addr \<Rightarrow> (heap \<times> addr) option" where
  "swap_nodes h parent child = do {
     t \<leftarrow> node_at h parent;
     n \<leftarrow> node_at h child;
     h \<leftarrow> set_node h parent n;
     h \<leftarrow> set_node h child t;
     h \<leftarrow> set_parent h parent child;
     c \<leftarrow> node_at h child;
     if node_left c = child
     then do { h \<leftarrow> set_left h child parent; c \<leftarrow> node_at h child; Some (h, node_right c) }
     else do { h \<leftarrow> set_right h child parent; c \<leftarrow> node_at h child; Some (h, node_left c) } }"

definition swap_neighbours :: "heap \<Rightarrow> addr \<Rightarrow> addr \<Rightarrow> addr \<Rightarrow> heap option" where
  "swap_neighbours h parent child sibling = do {
     h \<leftarrow> (if sibling \<noteq> 0 then set_parent h sibling child else Some h);
     p \<leftarrow> node_at h parent;
     h \<leftarrow> (if node_left p \<noteq> 0 then set_parent h (node_left p) parent else Some h);
     p \<leftarrow> node_at h parent;
     if node_right p \<noteq> 0 then set_parent h (node_right p) parent else Some h }"

definition replace_above :: "heap \<Rightarrow> addr \<Rightarrow> addr \<Rightarrow> addr \<Rightarrow> heap option" where
  "replace_above h up old new =
     (if up = 0 then Some (h\<lparr>heap_root := new\<rparr>)
      else do {
        g \<leftarrow> node_at h up;
        if node_left g = old then set_left h up new else set_right h up new })"

definition heap_node_swap :: "heap \<Rightarrow> addr \<Rightarrow> addr \<Rightarrow> heap option" where
  "heap_node_swap h parent child = do {
     (h, sibling) \<leftarrow> swap_nodes h parent child;
     h \<leftarrow> swap_neighbours h parent child sibling;
     c \<leftarrow> node_at h child;
     replace_above h (node_parent c) parent child }"

text \<open>The path from the root to position \<open>n\<close>, one bit for each level, the first in the lowest bit.\<close>

function path_loop :: "u32 \<Rightarrow> u32 \<Rightarrow> u32 \<Rightarrow> u32 \<times> u32" where
  "path_loop path k n =
     (if 2 \<le> n then path_loop (push_bit 1 path OR (n AND 1)) (k + 1) (n div 2) else (path, k))"
  by auto
termination
  by (relation "measure (\<lambda>(path, k, n). unat n)")
    (auto simp: word_le_nat_alt unat_div)

declare path_loop.simps [simp del]

definition next_link :: "heap \<Rightarrow> link \<Rightarrow> u32 \<Rightarrow> link option" where
  "next_link h l path = do {
     a \<leftarrow> read_link h l;
     if a = 0 then None else Some (if path AND 1 \<noteq> 0 then RightLink a else LeftLink a) }"

function insert_descend :: "heap \<Rightarrow> u32 \<Rightarrow> u32 \<Rightarrow> link \<Rightarrow> link \<Rightarrow> (link \<times> link) option" where
  "insert_descend h path k parent child =
     (if k = 0 then Some (parent, child)
      else do { l \<leftarrow> next_link h child path; insert_descend h (drop_bit 1 path) (k - 1) child l })"
  by auto
termination
  by (relation "measure (\<lambda>(h, path, k, parent, child). unat k)") (auto simp: unat_minus_one unat_gt_0)

function remove_descend :: "heap \<Rightarrow> u32 \<Rightarrow> u32 \<Rightarrow> link \<Rightarrow> link option" where
  "remove_descend h path k bottom =
     (if k = 0 then Some bottom
      else do { l \<leftarrow> next_link h bottom path; remove_descend h (drop_bit 1 path) (k - 1) l })"
  by auto
termination
  by (relation "measure (\<lambda>(h, path, k, bottom). unat k)") (auto simp: unat_minus_one unat_gt_0)

declare insert_descend.simps [simp del] remove_descend.simps [simp del]

type_synonym comparison = "addr \<Rightarrow> addr \<Rightarrow> bool option"

partial_function (option) sift_up :: "comparison \<Rightarrow> heap \<Rightarrow> addr \<Rightarrow> heap option" where
  "sift_up lt h a = do {
     n \<leftarrow> node_at h a;
     if node_parent n = 0 then Some h
     else do {
       b \<leftarrow> lt a (node_parent n);
       if b then do { h \<leftarrow> heap_node_swap h (node_parent n) a; sift_up lt h a } else Some h } }"

text \<open>\<open>heap_insert\<close> up to its last loop.\<close>

definition attach :: "heap \<Rightarrow> addr \<Rightarrow> heap option" where
  "attach h newnode = do {
     h \<leftarrow> set_node h newnode \<lparr>node_left = 0, node_right = 0, node_parent = 0\<rparr>;
     let (path, k) = path_loop 0 0 (1 + nelts h);
     (parent, child) \<leftarrow> insert_descend h path k MinLink MinLink;
     p \<leftarrow> read_link h parent;
     h \<leftarrow> set_parent h newnode p;
     h \<leftarrow> write_link h child newnode;
     Some (h\<lparr>nelts := nelts h + 1\<rparr>) }"

definition heap_insert :: "comparison \<Rightarrow> heap \<Rightarrow> addr \<Rightarrow> heap option" where
  "heap_insert lt h newnode = do { h \<leftarrow> attach h newnode; sift_up lt h newnode }"

definition smaller_child :: "comparison \<Rightarrow> addr \<Rightarrow> addr \<Rightarrow> addr option" where
  "smaller_child lt a smallest =
     (if a = 0 then Some smallest
      else do { b \<leftarrow> lt a smallest; Some (if b then a else smallest) })"

partial_function (option) sift_down :: "comparison \<Rightarrow> heap \<Rightarrow> addr \<Rightarrow> heap option" where
  "sift_down lt h child = do {
     n \<leftarrow> node_at h child;
     smallest \<leftarrow> smaller_child lt (node_left n) child;
     smallest \<leftarrow> smaller_child lt (node_right n) smallest;
     if smallest = child then Some h
     else do { h \<leftarrow> heap_node_swap h child smallest; sift_down lt h child } }"

definition replace_node :: "heap \<Rightarrow> addr \<Rightarrow> addr \<Rightarrow> heap option" where
  "replace_node h node child = do {
     n \<leftarrow> node_at h node;
     h \<leftarrow> set_node h child n;
     h \<leftarrow> (if node_left n \<noteq> 0 then set_parent h (node_left n) child else Some h);
     h \<leftarrow> (if node_right n \<noteq> 0 then set_parent h (node_right n) child else Some h);
     n \<leftarrow> node_at h node;
     replace_above h (node_parent n) node child }"

text \<open>\<open>heap_remove\<close> as far as it unlinks the last node.\<close>

definition detach :: "heap \<Rightarrow> (heap \<times> addr) option" where
  "detach h = do {
     let (path, k) = path_loop 0 0 (nelts h);
     bottom \<leftarrow> remove_descend h path k MinLink;
     let h = h\<lparr>nelts := nelts h - 1\<rparr>;
     child \<leftarrow> read_link h bottom;
     h \<leftarrow> write_link h bottom 0;
     Some (h, child) }"

definition heap_remove :: "comparison \<Rightarrow> heap \<Rightarrow> addr \<Rightarrow> heap option" where
  "heap_remove lt h node =
     (if nelts h = 0 then Some h
      else do {
        (h, child) \<leftarrow> detach h;
        if child = node
        then Some (if child = heap_root h then h\<lparr>heap_root := 0\<rparr> else h)
        else do {
          h \<leftarrow> replace_node h node child;
          h \<leftarrow> sift_down lt h child;
          sift_up lt h child } })"

definition heap_dequeue :: "comparison \<Rightarrow> heap \<Rightarrow> heap option" where
  "heap_dequeue lt h = heap_remove lt h (heap_root h)"

section \<open>The list of a heap\<close>

definition entry :: "addr list \<Rightarrow> nat \<Rightarrow> addr" where
  "entry xs p = (if 0 < p \<and> p \<le> length xs then xs ! (p - 1) else 0)"

definition links :: "addr list \<Rightarrow> nat \<Rightarrow> heap_node" where
  "links xs p =
     \<lparr>node_left = entry xs (2 * p), node_right = entry xs (2 * p + 1), node_parent = entry xs (p div 2)\<rparr>"

definition nodes_ok :: "addr list \<Rightarrow> bool" where
  "nodes_ok xs \<longleftrightarrow> distinct xs \<and> 0 \<notin> set xs"

definition linked :: "heap \<Rightarrow> addr list \<Rightarrow> bool" where
  "linked h xs \<longleftrightarrow> nodes_ok xs \<and> heap_root h = entry xs 1 \<and> nelts h = of_nat (length xs) \<and>
     (\<forall>p. 0 < p \<and> p \<le> length xs \<longrightarrow> nodes h (entry xs p) = Some (links xs p))"

text \<open>On the way from \<open>xs\<close> to \<open>ys\<close>: the nodes at the positions \<open>Q\<close> have their new links.\<close>

definition relinked :: "heap \<Rightarrow> addr list \<Rightarrow> addr list \<Rightarrow> nat set \<Rightarrow> bool" where
  "relinked h xs ys Q \<longleftrightarrow>
     (\<forall>q. 0 < q \<and> q \<le> length ys \<longrightarrow>
        nodes h (entry ys q) = Some (if q \<in> Q then links ys q else links xs q))"

lemma entry_mem: "0 < p \<Longrightarrow> p \<le> length xs \<Longrightarrow> entry xs p \<in> set xs"
  by (simp add: entry_def)

lemma mem_entry: "a \<in> set xs \<Longrightarrow> \<exists>p. 0 < p \<and> p \<le> length xs \<and> a = entry xs p"
  unfolding in_set_conv_nth entry_def by (metis Suc_leI diff_Suc_1 zero_less_Suc)

lemma entry_zero: "nodes_ok xs \<Longrightarrow> entry xs p = 0 \<longleftrightarrow> \<not> (0 < p \<and> p \<le> length xs)"
  unfolding nodes_ok_def by (metis entry_def entry_mem)

lemma entry_inj:
  assumes "nodes_ok xs" "0 < p" "p \<le> length xs"
  shows "entry xs p = entry xs q \<longleftrightarrow> p = q"
proof (cases "0 < q \<and> q \<le> length xs")
  case True
  then show ?thesis using assms by (auto simp: entry_def nodes_ok_def nth_eq_iff_index_eq)
next
  case False
  then have "entry xs q = 0" by (auto simp: entry_def)
  moreover have "entry xs p \<noteq> 0" using assms entry_zero by simp
  ultimately show ?thesis using False assms by auto
qed

lemma entry_update: "0 < i \<Longrightarrow> i \<le> length xs \<Longrightarrow> entry (xs[i - 1 := a]) q = (if q = i then a else entry xs q)"
  by (auto simp: entry_def nth_list_update)

lemma linked_node_at:
  "linked h xs \<Longrightarrow> 0 < p \<Longrightarrow> p \<le> length xs \<Longrightarrow> node_at h (entry xs p) = Some (links xs p)"
  by (simp add: linked_def node_at_def entry_zero)

lemma set_node_at:
  "node_at h a = Some n \<Longrightarrow> set_node h a n' = Some (h\<lparr>nodes := (nodes h)(a \<mapsto> n')\<rparr>)"
  by (simp add: set_node_def)

lemma relink_node:
  assumes "relinked h xs ys Q" "nodes_ok ys" "s \<notin> Q" "0 < s" "s \<le> length ys"
  shows "node_at h (entry ys s) = Some (links xs s)"
    and "relinked (h\<lparr>nodes := (nodes h)(entry ys s \<mapsto> links ys s)\<rparr>) xs ys (insert s Q)"
proof -
  show "node_at h (entry ys s) = Some (links xs s)"
    using assms entry_zero [OF assms(2)] by (simp add: node_at_def relinked_def)
  have "entry ys q = entry ys s \<longleftrightarrow> q = s" for q
    using entry_inj [OF assms(2,4,5)] by metis
  then show "relinked (h\<lparr>nodes := (nodes h)(entry ys s \<mapsto> links ys s)\<rparr>) xs ys (insert s Q)"
    using assms(1) by (simp add: relinked_def)
qed

lemma relink_parent:
  assumes r: "relinked h xs ys Q" "nodes_ok ys" "s \<notin> Q"
    and l: "links ys s = (links xs s)\<lparr>node_parent := v\<rparr>"
  shows "\<exists>N. (if entry ys s \<noteq> 0 then set_parent h (entry ys s) v else Some h) = Some (h\<lparr>nodes := N\<rparr>) \<and>
    relinked (h\<lparr>nodes := N\<rparr>) xs ys (insert s Q) \<and> (\<forall>a. a \<notin> set ys \<longrightarrow> N a = nodes h a)"
proof (cases "0 < s \<and> s \<le> length ys")
  case True
  note n = relink_node [OF r]
  have "set_parent h (entry ys s) v = Some (h\<lparr>nodes := (nodes h)(entry ys s \<mapsto> links ys s)\<rparr>)"
    using n(1) True by (simp add: set_parent_def set_node_at l)
  moreover have "entry ys s \<noteq> 0" using True entry_zero [OF r(2)] by simp
  ultimately show ?thesis using n(2) True entry_mem [of s ys] by fastforce
next
  case False
  then have "entry ys s = 0" by (auto simp: entry_def)
  moreover have "relinked h xs ys (insert s Q)"
    using r(1) False unfolding relinked_def by auto
  ultimately show ?thesis by (intro exI [of _ "nodes h"]) simp
qed

lemma relink_above:
  assumes r: "relinked h xs ys Q" "nodes_ok ys" "nodes_ok xs" "p div 2 \<notin> Q" "0 < p" "p \<le> length xs"
    and len: "length xs = length ys" and root: "heap_root h = entry xs 1"
    and same: "\<And>q. q \<noteq> p \<Longrightarrow> q \<noteq> 2 * p \<Longrightarrow> q \<noteq> 2 * p + 1 \<Longrightarrow> entry ys q = entry xs q"
  shows "\<exists>N. replace_above h (entry ys (p div 2)) (entry xs p) (entry ys p) =
      Some (h\<lparr>nodes := N, heap_root := entry ys 1\<rparr>) \<and>
    relinked (h\<lparr>nodes := N\<rparr>) xs ys (insert (p div 2) Q) \<and> (\<forall>a. a \<notin> set ys \<longrightarrow> N a = nodes h a)"
proof (cases "p = 1")
  case True
  then have "entry ys (p div 2) = 0" by (simp add: entry_def)
  moreover have "relinked h xs ys (insert (p div 2) Q)" using r(1) True by (simp add: relinked_def)
  ultimately show ?thesis using True by (intro exI [of _ "nodes h"]) (simp add: replace_above_def)
next
  case False
  let ?g = "p div 2"
  have g: "0 < ?g" "?g \<le> length ys" using False r(5,6) len by linarith+
  note n = relink_node [OF r(1,2,4) g]
  have g0: "entry ys ?g \<noteq> 0" using g entry_zero [OF r(2)] by simp
  have l: "links ys ?g = (if even p then (links xs ?g)\<lparr>node_left := entry ys p\<rparr> else (links xs ?g)\<lparr>node_right := entry ys p\<rparr>)"
    using same [of "?g div 2"] same [of "2 * ?g"] same [of "2 * ?g + 1"] r(5) False by (auto simp: links_def elim!: evenE oddE)
  have left: "node_left (links xs ?g) = entry xs p \<longleftrightarrow> even p"
    using entry_inj [OF r(3,5,6), of "2 * ?g"] by (auto simp: links_def) presburger
  have "replace_above h (entry ys ?g) (entry xs p) (entry ys p) =
    Some (h\<lparr>nodes := (nodes h)(entry ys ?g \<mapsto> links ys ?g)\<rparr>)"
    using n(1) g0 left l by (simp add: replace_above_def set_left_def set_right_def set_node_at)
  moreover have "h\<lparr>heap_root := entry ys 1\<rparr> = h" using root same [of 1] False r(5) by simp
  then have "h\<lparr>nodes := N, heap_root := entry ys 1\<rparr> = h\<lparr>nodes := N\<rparr>" for N
    by (cases h) simp
  ultimately show ?thesis using n(2) entry_mem [OF g]
    by (intro exI [of _ "(nodes h)(entry ys ?g \<mapsto> links ys ?g)"]) auto
qed

definition swap :: "addr list \<Rightarrow> nat \<Rightarrow> nat \<Rightarrow> addr list" where
  "swap xs p i = xs[p - 1 := entry xs i, i - 1 := entry xs p]"

lemma swap_length [simp]: "length (swap xs p i) = length xs"
  by (simp add: swap_def)

lemma swap_entry:
  assumes "0 < p" "p < i" "i \<le> length xs"
  shows "entry (swap xs p i) q = (if q = p then entry xs i else if q = i then entry xs p else entry xs q)"
  using assms entry_update [of i "xs[p - 1 := entry xs i]"] entry_update [of p xs] by (auto simp: swap_def)

lemma swap_set: "0 < p \<Longrightarrow> p < i \<Longrightarrow> i \<le> length xs \<Longrightarrow> set (swap xs p i) = set xs"
  using set_swap [of "p - 1" xs "i - 1"] by (simp add: swap_def entry_def)

lemma swap_nodes_ok: "0 < p \<Longrightarrow> p < i \<Longrightarrow> i \<le> length xs \<Longrightarrow> nodes_ok (swap xs p i) = nodes_ok xs"
  using distinct_swap [of "p - 1" xs "i - 1"] swap_set [of p i xs] by (simp add: nodes_ok_def swap_def entry_def)

lemma swap_nodes_linked:
  assumes l: "linked h xs" and i: "1 < i" "i \<le> length xs"
  defines "p \<equiv> i div 2" and "s \<equiv> (if even i then i + 1 else i - 1)"
  defines "ys \<equiv> swap xs p i"
  shows "\<exists>N. swap_nodes h (entry xs p) (entry xs i) = Some (h\<lparr>nodes := N\<rparr>, entry ys s) \<and>
    relinked (h\<lparr>nodes := N\<rparr>) xs ys {p, i} \<and> (\<forall>a. a \<notin> set xs \<longrightarrow> N a = nodes h a)"
proof -
  have p: "0 < p" "p < i" "p \<le> length xs" using i by (auto simp: p_def)
  have half: "i div 2 = p" by (simp add: p_def)
  have ok: "nodes_ok xs" "nodes_ok ys" using l swap_nodes_ok [OF p(1,2) i(2)] by (simp_all add: linked_def ys_def)
  note e = swap_entry [OF p(1,2) i(2), folded ys_def]
  let ?P = "entry xs p" and ?C = "entry xs i"
  have at: "node_at h ?P = Some (links xs p)" "node_at h ?C = Some (links xs i)"
    using linked_node_at [OF l] p i by simp_all
  have ne: "?P \<noteq> ?C" "?P \<noteq> 0" "?C \<noteq> 0" using entry_inj [OF ok(1)] entry_zero [OF ok(1)] p i by auto
  have left: "node_left (links xs p) = ?C \<longleftrightarrow> even i"
    using entry_inj [OF ok(1), of i "2 * p"] i by (auto simp: links_def p_def) presburger
  have P: "(links xs i)\<lparr>node_parent := ?C\<rparr> = links ys i"
    using p i half by (simp add: links_def e)
  have C: "(if even i then (links xs p)\<lparr>node_left := ?P\<rparr> else (links xs p)\<lparr>node_right := ?P\<rparr>) = links ys p"
    using p i by (auto simp: links_def e p_def elim!: evenE oddE)
  have S: "(if even i then node_right (links xs p) else node_left (links xs p)) = entry ys s"
    using p i by (auto simp: links_def e p_def s_def elim!: evenE oddE)
  let ?N = "(nodes h)(?P \<mapsto> links ys i, ?C \<mapsto> links ys p)"
  have "swap_nodes h ?P ?C = Some (h\<lparr>nodes := ?N\<rparr>, entry ys s)"
    using at ne left P C S
    by (auto simp: swap_nodes_def set_node_def set_parent_def set_left_def set_right_def node_at_def fun_upd_twist
        split: if_splits)
  moreover have "relinked (h\<lparr>nodes := ?N\<rparr>) xs ys {p, i}"
    unfolding relinked_def
  proof (intro allI impI)
    fix q assume q: "0 < q \<and> q \<le> length ys"
    have "nodes h (entry xs q) = Some (links xs q)" using l q by (simp add: linked_def ys_def)
    moreover have "entry xs q = ?P \<longleftrightarrow> q = p" "entry xs q = ?C \<longleftrightarrow> q = i"
      using entry_inj [OF ok(1), of q] q by (simp_all add: ys_def)
    ultimately show "nodes (h\<lparr>nodes := ?N\<rparr>) (entry ys q) = Some (if q \<in> {p, i} then links ys q else links xs q)"
      using ne p by (simp add: e)
  qed
  moreover have "\<forall>a. a \<notin> set xs \<longrightarrow> ?N a = nodes h a" using entry_mem [of p xs] entry_mem [of i xs] p i by auto
  ultimately show ?thesis by (intro exI [of _ ?N]) simp
qed

lemma relinked_node_at:
  assumes "relinked h xs ys Q" "nodes_ok ys" "q \<in> Q" "0 < q" "q \<le> length ys"
  shows "node_at h (entry ys q) = Some (links ys q)"
  using assms entry_zero [OF assms(2)] by (simp add: relinked_def node_at_def)

lemma swap_neighbours_linked:
  assumes r: "relinked h xs ys {p, i}" and ok: "nodes_ok xs" and i: "1 < i" "i \<le> length xs"
  assumes p: "p = i div 2" and s: "s = (if even i then i + 1 else i - 1)" and ys: "ys = swap xs p i"
  shows "\<exists>N. swap_neighbours h (entry xs p) (entry xs i) (entry ys s) = Some (h\<lparr>nodes := N\<rparr>) \<and>
    relinked (h\<lparr>nodes := N\<rparr>) xs ys {2 * i + 1, 2 * i, s, p, i} \<and> (\<forall>a. a \<notin> set xs \<longrightarrow> N a = nodes h a)"
proof -
  have pos: "i = 2 * p \<and> s = 2 * p + 1 \<or> i = 2 * p + 1 \<and> s = 2 * p" "0 < p" "p \<le> length xs"
    using i unfolding p s by presburger+
  then have p': "0 < p" "p < i" "p \<le> length xs" "i div 2 = p" "s div 2 = p" "s \<noteq> p" "s \<noteq> i" "s \<noteq> 0"
    "2 * i \<noteq> s" "2 * i + 1 \<noteq> s" "2 * s \<noteq> p" "2 * s \<noteq> i" "2 * s + 1 \<noteq> p" "2 * s + 1 \<noteq> i"
    by auto
  have ok': "nodes_ok ys" "set ys = set xs" "length ys = length xs"
    using ok swap_nodes_ok [OF p'(1,2) i(2)] swap_set [OF p'(1,2) i(2)] by (simp_all add: ys)
  note e = swap_entry [OF p'(1,2) i(2), folded ys]
  have P: "entry xs p = entry ys i" and C: "entry xs i = entry ys p" using p' by (simp_all add: e)
  have l: "links ys s = (links xs s)\<lparr>node_parent := entry ys p\<rparr>"
    "links ys (2 * i) = (links xs (2 * i))\<lparr>node_parent := entry ys i\<rparr>"
    "links ys (2 * i + 1) = (links xs (2 * i + 1))\<lparr>node_parent := entry ys i\<rparr>"
  proof -
    show "links ys s = (links xs s)\<lparr>node_parent := entry ys p\<rparr>"
      by (simp add: links_def e p'(5-7,11,12) p'(13,14) [simplified])
    show "links ys (2 * i) = (links xs (2 * i))\<lparr>node_parent := entry ys i\<rparr>"
      "links ys (2 * i + 1) = (links xs (2 * i + 1))\<lparr>node_parent := entry ys i\<rparr>"
      using p'(2) i(1) by (simp_all add: links_def e)
  qed
  have fresh: "s \<notin> {p, i}" "2 * i \<notin> {s, p, i}" "2 * i + 1 \<notin> {2 * i, s, p, i}"
    using p'(2,6,7,9,10) i(1) by simp_all
  obtain N1 where N1: "(if entry ys s \<noteq> 0 then set_parent h (entry ys s) (entry ys p) else Some h) = Some (h\<lparr>nodes := N1\<rparr>)"
      "relinked (h\<lparr>nodes := N1\<rparr>) xs ys {s, p, i}" "\<forall>a. a \<notin> set ys \<longrightarrow> N1 a = nodes h a"
    using relink_parent [OF r ok'(1) fresh(1) l(1)] by auto
  have at1: "node_at (h\<lparr>nodes := N1\<rparr>) (entry ys i) = Some (links ys i)"
    by (rule relinked_node_at [OF N1(2) ok'(1)]) (use i ok' in simp_all)
  obtain N2 where N2: "(if entry ys (2 * i) \<noteq> 0 then set_parent (h\<lparr>nodes := N1\<rparr>) (entry ys (2 * i)) (entry ys i)
        else Some (h\<lparr>nodes := N1\<rparr>)) = Some (h\<lparr>nodes := N2\<rparr>)"
      "relinked (h\<lparr>nodes := N2\<rparr>) xs ys {2 * i, s, p, i}" "\<forall>a. a \<notin> set ys \<longrightarrow> N2 a = N1 a"
    using relink_parent [OF N1(2) ok'(1) fresh(2) l(2)] by auto
  have at2: "node_at (h\<lparr>nodes := N2\<rparr>) (entry ys i) = Some (links ys i)"
    by (rule relinked_node_at [OF N2(2) ok'(1)]) (use i ok' in simp_all)
  obtain N3 where N3: "(if entry ys (2 * i + 1) \<noteq> 0 then set_parent (h\<lparr>nodes := N2\<rparr>) (entry ys (2 * i + 1)) (entry ys i)
        else Some (h\<lparr>nodes := N2\<rparr>)) = Some (h\<lparr>nodes := N3\<rparr>)"
      "relinked (h\<lparr>nodes := N3\<rparr>) xs ys {2 * i + 1, 2 * i, s, p, i}" "\<forall>a. a \<notin> set ys \<longrightarrow> N3 a = N2 a"
    using relink_parent [OF N2(2) ok'(1) fresh(3) l(3)] by auto
  have children: "node_left (links ys i) = entry ys (2 * i)" "node_right (links ys i) = entry ys (2 * i + 1)"
    by (simp_all add: links_def)
  have "swap_neighbours h (entry ys i) (entry ys p) (entry ys s) = Some (h\<lparr>nodes := N3\<rparr>)"
    unfolding swap_neighbours_def N1(1) bind.bind_lunit at1 children N2(1) at2 N3(1) ..
  then show ?thesis using N1(3) N2(3) N3(2,3) ok'(2) unfolding P C by auto
qed

lemma relinked_all:
  assumes r: "relinked h xs ys Q" and ok: "nodes_ok ys" and root: "heap_root h = entry ys 1"
    and n: "nelts h = of_nat (length ys)"
    and same: "\<And>q. q \<notin> Q \<Longrightarrow> 0 < q \<Longrightarrow> q \<le> length ys \<Longrightarrow> links ys q = links xs q"
  shows "linked h ys"
proof -
  have "nodes h (entry ys q) = Some (links ys q)" if "0 < q" "q \<le> length ys" for q
    using r same [of q] that by (cases "q \<in> Q") (simp_all add: relinked_def)
  then show ?thesis using ok root n by (simp add: linked_def)
qed

lemma half: "(q :: nat) div 2 = k \<longleftrightarrow> q = 2 * k \<or> q = 2 * k + 1"
  by presburger

lemma heap_node_swap_linked:
  assumes l: "linked h xs" and i: "1 < i" "i \<le> length xs"
  shows "\<exists>h'. heap_node_swap h (entry xs (i div 2)) (entry xs i) = Some h' \<and> linked h' (swap xs (i div 2) i) \<and>
    (\<forall>a. a \<notin> set xs \<longrightarrow> nodes h' a = nodes h a)"
proof -
  define p where "p = i div 2"
  define s where "s = (if even i then i + 1 else i - 1)"
  define ys where "ys = swap xs p i"
  have p: "0 < p" "p < i" "p \<le> length xs" "i = 2 * p \<or> i = 2 * p + 1" "s = 2 * p \<or> s = 2 * p + 1" "s \<noteq> i" "s \<noteq> 0"
    using i unfolding p_def s_def by (auto elim!: evenE oddE)
  have ok: "nodes_ok xs" "nodes_ok ys" "set ys = set xs" "length ys = length xs"
    using l swap_nodes_ok [OF p(1,2) i(2)] swap_set [OF p(1,2) i(2)] by (simp_all add: linked_def ys_def)
  note e = swap_entry [OF p(1,2) i(2), folded ys_def]
  obtain N1 where N1: "swap_nodes h (entry xs p) (entry xs i) = Some (h\<lparr>nodes := N1\<rparr>, entry ys s)"
      "relinked (h\<lparr>nodes := N1\<rparr>) xs ys {p, i}" "\<forall>a. a \<notin> set xs \<longrightarrow> N1 a = nodes h a"
    using swap_nodes_linked [OF l i, folded p_def s_def, folded ys_def] by blast
  obtain N2 where N2: "swap_neighbours (h\<lparr>nodes := N1\<rparr>) (entry xs p) (entry xs i) (entry ys s) = Some (h\<lparr>nodes := N2\<rparr>)"
      "relinked (h\<lparr>nodes := N2\<rparr>) xs ys {2 * i + 1, 2 * i, s, p, i}" "\<forall>a. a \<notin> set xs \<longrightarrow> N2 a = N1 a"
    using swap_neighbours_linked [OF N1(2) ok(1) i p_def s_def ys_def] by auto
  have root: "heap_root (h\<lparr>nodes := N2\<rparr>) = entry xs 1" "nelts h = of_nat (length ys)" using l ok by (simp_all add: linked_def)
  have same: "entry ys q = entry xs q" if "q \<noteq> p" "q \<noteq> 2 * p" "q \<noteq> 2 * p + 1" for q
    using that p(4) by (auto simp: e)
  have "p div 2 \<notin> {2 * i + 1, 2 * i, s, p, i}" using p by auto
  from relink_above [OF N2(2) ok(2,1) this p(1,3) ok(4) [symmetric] root(1) same]
  obtain N3 where N3: "replace_above (h\<lparr>nodes := N2\<rparr>) (entry ys (p div 2)) (entry xs p) (entry ys p) =
        Some (h\<lparr>nodes := N3, heap_root := entry ys 1\<rparr>)"
      "relinked (h\<lparr>nodes := N3\<rparr>) xs ys (insert (p div 2) {2 * i + 1, 2 * i, s, p, i})" "\<forall>a. a \<notin> set ys \<longrightarrow> N3 a = N2 a"
    by auto
  have C: "entry xs i = entry ys p" using p by (simp add: e)
  have at: "node_at (h\<lparr>nodes := N2\<rparr>) (entry ys p) = Some (links ys p)"
    by (rule relinked_node_at [OF N2(2) ok(2)]) (use p ok in simp_all)
  have up: "node_parent (links ys p) = entry ys (p div 2)" by (simp add: links_def)
  let ?h = "h\<lparr>nodes := N3, heap_root := entry ys 1\<rparr>"
  have "heap_node_swap h (entry xs p) (entry xs i) = Some ?h"
    unfolding heap_node_swap_def C N1(1) [unfolded C] bind.bind_lunit prod.case N2(1) [unfolded C] at up N3(1) ..
  moreover have "linked ?h ys"
  proof (rule relinked_all)
    show "relinked ?h xs ys (insert (p div 2) {2 * i + 1, 2 * i, s, p, i})" using N3(2) by (simp add: relinked_def)
    fix q assume "q \<notin> insert (p div 2) {2 * i + 1, 2 * i, s, p, i}" "0 < q"
    then have q: "q \<noteq> p div 2" "q \<noteq> p" "q \<noteq> i" "q \<noteq> s" "q \<noteq> 2 * i" "q \<noteq> 2 * i + 1" by blast+
    have "2 * q \<noteq> p" "2 * q + 1 \<noteq> p" using q(1) by auto
    moreover have "2 * q \<noteq> i" "2 * q + 1 \<noteq> i" using q(2) p(4) by presburger+
    moreover have "q div 2 \<noteq> p" using q(3,4) p(4,5,6) unfolding half by auto
    moreover have "q div 2 \<noteq> i" using q(5,6) unfolding half by simp
    ultimately show "links ys q = links xs q" by (simp add: links_def e)
  qed (use ok root in simp_all)
  moreover have "\<forall>a. a \<notin> set xs \<longrightarrow> nodes ?h a = nodes h a" using N1(3) N2(3) N3(3) ok(3) by simp
  ultimately show ?thesis unfolding p_def [symmetric] ys_def [symmetric] by blast
qed

section \<open>The way to a position\<close>

text \<open>The position that the bits of a path lead to from \<open>p\<close>.\<close>

fun steps :: "nat \<Rightarrow> u32 \<Rightarrow> nat \<Rightarrow> nat" where
  "steps 0 path p = p"
| "steps (Suc k) path p = steps k (drop_bit 1 path) (2 * p + of_bool (odd path))"

lemma steps_grow: "p \<le> steps k path p" "0 < k \<Longrightarrow> 2 * p \<le> steps k path p"
proof -
  show grow: "p \<le> steps k path p" for k path p
  proof (induction k arbitrary: path p)
    case 0
    then show ?case by simp
  next
    case (Suc k)
    have "p \<le> 2 * p + of_bool (odd path)" by simp
    also have "\<dots> \<le> steps (Suc k) path p" by (simp only: steps.simps) (rule Suc.IH)
    finally show ?case .
  qed
  assume "0 < k"
  then obtain j where "k = Suc j" by (cases k) auto
  then have "2 * p + of_bool (odd path) \<le> steps k path p" by (simp only: steps.simps) (rule grow)
  then show "2 * p \<le> steps k path p" by simp
qed

lemma path_loop_steps:
  assumes "path_loop path k n = (path', k')" "unat n * 2 ^ unat k < 2 ^ 32" "0 < unat n" "\<And>b. bit path b \<Longrightarrow> b < unat k"
  shows "steps (unat k') path' 1 = steps (unat k) path (unat n)"
  using assms
proof (induction path k n rule: path_loop.induct)
  case (1 path k n)
  show ?case
  proof (cases "2 \<le> n")
    case False
    then have "unat n = 1" using "1.prems"(3) by (simp add: word_le_nat_alt)
    then show ?thesis using "1.prems"(1) False by (simp add: path_loop.simps)
  next
    case True
    let ?path = "push_bit 1 path OR (n AND 1)"
    have n: "2 \<le> unat n" using True by (simp add: word_le_nat_alt)
    have "2 * 2 ^ unat k \<le> unat n * 2 ^ unat k" using n by (rule mult_right_mono) simp
    then have k31: "2 * 2 ^ unat k < (2 ^ 32 :: nat)" using "1.prems"(2) by linarith
    then have "(2 :: nat) ^ Suc (unat k) < 2 ^ 32" by simp
    then have k: "Suc (unat k) < 32" by (rule power_less_imp_less_exp [rotated]) simp
    have k1: "unat (k + 1) = Suc (unat k)" using k unat_add_lem [of k 1] by simp
    have half: "unat (n div 2) = unat n div 2" by (simp add: unat_div)
    have bits: "bit ?path b \<longleftrightarrow> (if b = 0 then odd n else b < 32 \<and> bit path (b - 1))" for b
    proof -
      have "bit ?path b \<longleftrightarrow> b < 32 \<and> (1 \<le> b \<and> bit path (b - 1) \<or> b = 0 \<and> bit n b)"
        unfolding bit_or_iff bit_push_bit_iff bit_and_iff bit_1_iff
        using bit_imp_le_length [of path "b - 1"] bit_imp_le_length [of n b] by auto
      then show ?thesis by (auto simp: bit_0)
    qed
    have low: "bit path b \<Longrightarrow> b < unat k" for b by (rule "1.prems"(4))
    have drop: "drop_bit 1 ?path = path"
    proof (rule bit_word_eqI)
      fix b
      have "bit (drop_bit 1 ?path) b \<longleftrightarrow> b < 31 \<and> bit path b" unfolding bit_drop_bit_eq comp_def bits by simp
      then show "bit (drop_bit 1 ?path) b \<longleftrightarrow> bit path b" using low [of b] k by auto
    qed
    have "odd (unat n) \<longleftrightarrow> odd n" unfolding bit_0 [symmetric] bit_unsigned_iff by simp
    moreover have "odd ?path \<longleftrightarrow> odd n" using bits [of 0] by (simp only: bit_0 refl if_True)
    ultimately have odd: "odd ?path \<longleftrightarrow> odd (unat n)" by simp
    have step: "steps (unat (k + 1)) ?path (unat (n div 2)) = steps (unat k) path (unat n)"
      unfolding k1 steps.simps drop half odd by simp
    have "steps (unat k') path' 1 = steps (unat (k + 1)) ?path (unat (n div 2))"
    proof (rule "1.IH")
      show "2 \<le> n" by (rule True)
      show "path_loop ?path (k + 1) (n div 2) = (path', k')"
        using "1.prems"(1) True by (subst (asm) path_loop.simps) simp
      show "unat (n div 2) * 2 ^ unat (k + 1) < 2 ^ 32"
      proof -
        have "unat n div 2 * 2 * 2 ^ unat k \<le> unat n * 2 ^ unat k" by (rule mult_right_mono) simp_all
        then have "unat (n div 2) * 2 ^ unat (k + 1) \<le> unat n * 2 ^ unat k" unfolding half k1 by simp
        then show ?thesis using "1.prems"(2) by (rule order.strict_trans1)
      qed
      show "0 < unat (n div 2)" using n unfolding half by simp
      show "b < unat (k + 1)" if "bit ?path b" for b
        using that low [of "b - 1"] unfolding k1 bits by (auto split: if_splits)
    qed
    then show ?thesis unfolding step .
  qed
qed

lemma path_to:
  assumes "path_loop 0 0 n = (path, k)" "0 < unat n"
  shows "steps (unat k) path 1 = unat n"
  using path_loop_steps [OF assms(1) _ assms(2)] unsigned_less [of n] by simp

definition link_of :: "addr list \<Rightarrow> nat \<Rightarrow> link" where
  "link_of xs p =
     (if p = 1 then MinLink
      else if even p then LeftLink (entry xs (p div 2)) else RightLink (entry xs (p div 2)))"

lemma read_link_of:
  assumes l: "linked h xs" and p: "0 < p" "p div 2 \<le> length xs"
  shows "read_link h (link_of xs p) = Some (entry xs p)"
proof (cases "p = 1")
  case True
  then show ?thesis using l by (simp add: link_of_def linked_def)
next
  case False
  have "0 < p div 2" using False p(1) by linarith
  then have "node_at h (entry xs (p div 2)) = Some (links xs (p div 2))" using linked_node_at [OF l] p(2) by simp
  moreover have "even p \<Longrightarrow> 2 * (p div 2) = p" "odd p \<Longrightarrow> 2 * (p div 2) + 1 = p" by simp_all
  ultimately show ?thesis using False by (simp add: link_of_def links_def)
qed

lemma next_link_of:
  assumes l: "linked h xs" and p: "0 < p" "p \<le> length xs"
  shows "next_link h (link_of xs p) path = Some (link_of xs (2 * p + of_bool (odd path)))"
proof -
  have "read_link h (link_of xs p) = Some (entry xs p)" using p by (intro read_link_of [OF l]) auto
  moreover have "entry xs p \<noteq> 0" using l p by (simp add: linked_def entry_zero)
  moreover have "path AND 1 \<noteq> 0 \<longleftrightarrow> odd path" by (simp add: and_one_eq mod_2_eq_odd)
  ultimately show ?thesis using p by (simp add: next_link_def link_of_def)
qed

lemma descend_linked:
  assumes l: "linked h xs"
  shows "0 < p \<Longrightarrow> steps (unat k) path p div 2 \<le> length xs \<Longrightarrow>
      remove_descend h path k (link_of xs p) = Some (link_of xs (steps (unat k) path p))"
    and "0 < p \<Longrightarrow> steps (unat k) path p div 2 \<le> length xs \<Longrightarrow>
      insert_descend h path k parent (link_of xs p) =
        Some (if k = 0 then parent else link_of xs (steps (unat k) path p div 2), link_of xs (steps (unat k) path p))"
proof -
  have "p \<le> length xs \<and> unat k = Suc (unat (k - 1)) \<and>
      steps (unat k) path p = steps (unat (k - 1)) (drop_bit 1 path) (2 * p + of_bool (odd path))"
    if "k \<noteq> 0" "0 < p" "steps (unat k) path p div 2 \<le> length xs" for k path p
  proof -
    have "0 < unat k" using that(1) by (simp add: unat_gt_0)
    then have "unat k = Suc (unat (k - 1))" using that(1) by (simp add: unat_minus_one)
    moreover have "2 * p \<le> steps (unat k) path p" by (rule steps_grow(2)) (fact \<open>0 < unat k\<close>)
    ultimately show ?thesis using that(3) by simp
  qed
  note step = this
  show "remove_descend h path k (link_of xs p) = Some (link_of xs (steps (unat k) path p))"
    if "0 < p" "steps (unat k) path p div 2 \<le> length xs"
    using that
  proof (induction "unat k" arbitrary: path k p)
    case 0
    then have "k = 0" by (simp add: unat_eq_0)
    then show ?case by (simp add: remove_descend.simps)
  next
    case (Suc j)
    have k: "k \<noteq> 0" using Suc.hyps(2) by auto
    note s = step [OF k Suc.prems]
    have "remove_descend h path k (link_of xs p) =
        remove_descend h (drop_bit 1 path) (k - 1) (link_of xs (2 * p + of_bool (odd path)))"
      using next_link_of [OF l Suc.prems(1)] s k by (subst remove_descend.simps) simp
    also have "\<dots> = Some (link_of xs (steps (unat (k - 1)) (drop_bit 1 path) (2 * p + of_bool (odd path))))"
      using s Suc.hyps(2) Suc.prems by (intro Suc.hyps(1)) simp_all
    finally show ?case using s by simp
  qed
  show "insert_descend h path k parent (link_of xs p) =
        Some (if k = 0 then parent else link_of xs (steps (unat k) path p div 2), link_of xs (steps (unat k) path p))"
    if "0 < p" "steps (unat k) path p div 2 \<le> length xs"
    using that
  proof (induction "unat k" arbitrary: path k p parent)
    case 0
    then have "k = 0" by (simp add: unat_eq_0)
    then show ?case by (simp add: insert_descend.simps)
  next
    case (Suc j)
    have k: "k \<noteq> 0" using Suc.hyps(2) by auto
    note s = step [OF k Suc.prems]
    let ?p = "2 * p + of_bool (odd path)"
    have "insert_descend h path k parent (link_of xs p) =
        insert_descend h (drop_bit 1 path) (k - 1) (link_of xs p) (link_of xs ?p)"
      using next_link_of [OF l Suc.prems(1)] s k by (subst insert_descend.simps) simp
    also have "\<dots> = Some (if k - 1 = 0 then link_of xs p else link_of xs (steps (unat (k - 1)) (drop_bit 1 path) ?p div 2),
        link_of xs (steps (unat (k - 1)) (drop_bit 1 path) ?p))"
      using s Suc.hyps(2) Suc.prems by (intro Suc.hyps(1)) simp_all
    finally have "insert_descend h path k parent (link_of xs p) =
      Some (if k - 1 = 0 then link_of xs p else link_of xs (steps (unat k) path p div 2), link_of xs (steps (unat k) path p))"
      using s by simp
    moreover have "steps (unat k) path p div 2 = p" if "k - 1 = 0"
    proof -
      have "steps (unat k) path p = ?p" using s that by simp
      then show ?thesis by simp
    qed
    ultimately show ?case using k by simp
  qed
qed

lemma write_link_of:
  assumes l: "linked h xs" and N: "0 < N" "N div 2 \<le> length xs" "length xs \<le> N"
    and e: "\<And>q. entry ys q = (if q = N then v else entry xs q)"
  shows "\<exists>M. write_link h (link_of xs N) v = Some (h\<lparr>nodes := M, heap_root := entry ys 1\<rparr>) \<and>
    (\<forall>q. 0 < q \<and> q < N \<and> q \<le> length xs \<longrightarrow> M (entry xs q) = Some (links ys q)) \<and>
    (\<forall>a. a \<notin> set xs \<or> a = entry xs N \<longrightarrow> M a = nodes h a)"
proof -
  have ok: "nodes_ok xs" and root: "heap_root h = entry xs 1" using l by (simp_all add: linked_def)
  have same: "links ys q = links xs q" if "0 < q" "q < N" "q \<noteq> N div 2" for q
  proof -
    have "2 * q \<noteq> N" "2 * q + 1 \<noteq> N" "q div 2 \<noteq> N" using that by auto
    then show ?thesis by (simp add: links_def e)
  qed
  have old: "nodes h (entry xs q) = Some (links xs q)" if "0 < q" "q \<le> length xs" for q
    using l that by (simp add: linked_def)
  show ?thesis
  proof (cases "N = 1")
    case True
    then have "write_link h (link_of xs N) v = Some (h\<lparr>nodes := nodes h, heap_root := entry ys 1\<rparr>)"
      by (simp add: link_of_def e)
    then show ?thesis using True by (intro exI [of _ "nodes h"]) simp
  next
    case False
    let ?g = "N div 2"
    have g: "0 < ?g" "?g < N" "?g \<noteq> N" using False N(1) by linarith+
    have at: "node_at h (entry xs ?g) = Some (links xs ?g)" by (rule linked_node_at [OF l g(1) N(2)])
    have new: "links ys ?g = (if even N then (links xs ?g)\<lparr>node_left := v\<rparr> else (links xs ?g)\<lparr>node_right := v\<rparr>)"
      using False N(1) by (auto simp: links_def e elim!: evenE oddE)
    let ?M = "(nodes h)(entry xs ?g \<mapsto> links ys ?g)"
    have "h\<lparr>nodes := ?M, heap_root := entry ys 1\<rparr> = h\<lparr>nodes := ?M\<rparr>" using False root by (cases h) (simp add: e)
    moreover have "write_link h (link_of xs N) v = Some (h\<lparr>nodes := ?M\<rparr>)"
      using False at new by (simp add: link_of_def set_left_def set_right_def set_node_at)
    moreover have "?M (entry xs q) = Some (links ys q)" if "0 < q \<and> q < N \<and> q \<le> length xs" for q
      using entry_inj [OF ok, of q ?g] old [of q] same [of q] that by auto
    moreover have "entry xs N \<noteq> entry xs ?g" using entry_inj [OF ok g(1) N(2), of N] g(2) by auto
    ultimately show ?thesis using entry_mem [OF g(1) N(2)] by (intro exI [of _ ?M]) auto
  qed
qed

lemma entry_append: "entry (xs @ [a]) q = (if q = Suc (length xs) then a else entry xs q)"
  by (auto simp: entry_def nth_append)

lemma entry_butlast: "xs \<noteq> [] \<Longrightarrow> entry (butlast xs) q = (if q = length xs then 0 else entry xs q)"
  by (auto simp: entry_def nth_butlast)

lemma linked_outside:
  assumes "linked h xs" "heap_root h' = heap_root h" "nelts h' = nelts h" "\<And>a. a \<in> set xs \<Longrightarrow> nodes h' a = nodes h a"
  shows "linked h' xs"
  using assms entry_mem [of _ xs] by (simp add: linked_def)

lemma attach_linked:
  assumes l: "linked h xs" and a: "a \<notin> set xs" "a \<noteq> 0" "nodes h a \<noteq> None" and n: "length xs < 2 ^ 32 - 1"
  shows "\<exists>h'. attach h a = Some h' \<and> linked h' (xs @ [a]) \<and>
    (\<forall>b. b \<notin> insert a (set xs) \<longrightarrow> nodes h' b = nodes h b)"
proof -
  let ?N = "Suc (length xs)"
  have N: "unat (1 + nelts h) = ?N"
    using l n unat_of_nat [of "length xs", where 'a = 32] unat_add_lem [of 1 "nelts h"] by (simp add: linked_def)
  obtain path k where path: "path_loop 0 0 (1 + nelts h) = (path, k)" by fastforce
  have steps: "steps (unat k) path 1 = ?N" using path_to [OF path] N by simp
  let ?h1 = "h\<lparr>nodes := (nodes h)(a \<mapsto> \<lparr>node_left = 0, node_right = 0, node_parent = 0\<rparr>)\<rparr>"
  let ?n2 = "\<lparr>node_left = 0, node_right = 0, node_parent = entry xs (?N div 2)\<rparr>"
  let ?h2 = "h\<lparr>nodes := (nodes h)(a \<mapsto> ?n2)\<rparr>"
  have l1: "linked ?h1 xs" and l2: "linked ?h2 xs" using a(1) by (auto intro: linked_outside [OF l])
  let ?up = "if k = 0 then MinLink else link_of xs (?N div 2)"
  have descend: "insert_descend ?h1 path k MinLink MinLink = Some (?up, link_of xs ?N)"
    using descend_linked(2) [OF l1, of 1 k path MinLink] steps by (simp add: link_of_def)
  have up: "read_link ?h1 ?up = Some (entry xs (?N div 2))"
  proof (cases "k = 0")
    case True
    then have "xs = []" using steps by simp
    then show ?thesis using True l by (simp add: linked_def entry_def)
  next
    case False
    then have "2 \<le> ?N" using steps_grow(2) [of "unat k" 1 path] steps by (simp add: unat_gt_0)
    then show ?thesis using False by (simp add: read_link_of [OF l1])
  qed
  have half: "?N div 2 \<le> length xs" by presburger
  obtain M where M: "write_link ?h2 (link_of xs ?N) a = Some (?h2\<lparr>nodes := M, heap_root := entry (xs @ [a]) 1\<rparr>)"
      "\<forall>q. 0 < q \<and> q < ?N \<and> q \<le> length xs \<longrightarrow> M (entry xs q) = Some (links (xs @ [a]) q)"
      "\<forall>b. b \<notin> set xs \<longrightarrow> M b = nodes ?h2 b"
    using write_link_of [OF l2 _ half _ entry_append [of xs a]] by auto
  let ?h = "h\<lparr>nodes := M, heap_root := entry (xs @ [a]) 1, nelts := nelts h + 1\<rparr>"
  have "set_node h a \<lparr>node_left = 0, node_right = 0, node_parent = 0\<rparr> = Some ?h1"
    using a by (auto simp: set_node_def node_at_def)
  moreover have "set_parent ?h1 a (entry xs (?N div 2)) = Some ?h2"
    using a(2) by (simp add: set_parent_def set_node_def node_at_def)
  ultimately have "attach h a = Some ?h"
    using path descend up M(1) by (simp add: attach_def)
  moreover have "linked ?h (xs @ [a])"
    unfolding linked_def
  proof (intro conjI allI impI)
    show "nodes_ok (xs @ [a])" using l a by (auto simp: linked_def nodes_ok_def)
    show "nelts ?h = of_nat (length (xs @ [a]))" using l by (simp add: linked_def)
    fix q assume q: "0 < q \<and> q \<le> length (xs @ [a])"
    have new: "links (xs @ [a]) ?N = ?n2" by (auto simp: links_def entry_append) (auto simp: entry_def)
    show "nodes ?h (entry (xs @ [a]) q) = Some (links (xs @ [a]) q)"
      using q M(2,3) a(1) new by (cases "q = ?N") (auto simp: entry_append)
  qed simp
  ultimately show ?thesis using M(3) by (intro exI [of _ ?h]) simp
qed

lemma read_link_nelts: "read_link (h\<lparr>nelts := k\<rparr>) l = read_link h l"
  by (cases l) (simp_all add: node_at_def)

lemma write_link_nelts:
  "write_link h l v = Some h' \<Longrightarrow> write_link (h\<lparr>nelts := k\<rparr>) l v = Some (h'\<lparr>nelts := k\<rparr>)"
  by (cases l) (auto simp: node_at_def set_left_def set_right_def set_node_def bind_eq_Some_conv split: if_splits)

lemma detach_linked:
  assumes l: "linked h xs" and n: "xs \<noteq> []" "length xs < 2 ^ 32"
  shows "\<exists>h'. detach h = Some (h', last xs) \<and> linked h' (butlast xs) \<and>
    (\<forall>b. b \<notin> set (butlast xs) \<longrightarrow> nodes h' b = nodes h b)"
proof -
  let ?N = "length xs"
  have N: "unat (nelts h) = ?N" using l n(2) by (simp add: linked_def unat_of_nat)
  obtain path k where path: "path_loop 0 0 (nelts h) = (path, k)" by fastforce
  have N0: "0 < ?N" using n(1) by simp
  have steps: "steps (unat k) path 1 = ?N" using path_to [OF path] N N0 by simp
  have down: "remove_descend h path k MinLink = Some (link_of xs ?N)"
    using descend_linked(1) [OF l, of 1 k path] steps by (simp add: link_of_def)
  have last: "entry xs ?N = last xs" using n(1) by (simp add: entry_def last_conv_nth)
  then have read: "read_link h (link_of xs ?N) = Some (last xs)" using read_link_of [OF l N0] by simp
  obtain M where M: "write_link h (link_of xs ?N) 0 = Some (h\<lparr>nodes := M, heap_root := entry (butlast xs) 1\<rparr>)"
      "\<forall>q. 0 < q \<and> q < ?N \<and> q \<le> length xs \<longrightarrow> M (entry xs q) = Some (links (butlast xs) q)"
      "\<forall>b. b \<notin> set xs \<or> b = entry xs ?N \<longrightarrow> M b = nodes h b"
    using write_link_of [OF l N0 _ _ entry_butlast [OF n(1)]] by auto
  let ?h = "h\<lparr>nodes := M, heap_root := entry (butlast xs) 1, nelts := nelts h - 1\<rparr>"
  have "detach h = Some (?h, last xs)"
    using path down read write_link_nelts [OF M(1)] by (simp add: detach_def read_link_nelts)
  moreover have "linked ?h (butlast xs)"
    unfolding linked_def
  proof (intro conjI allI impI)
    show "nodes_ok (butlast xs)" using l by (auto simp: linked_def nodes_ok_def distinct_butlast dest: in_set_butlastD)
    have "(of_nat ?N :: u32) = of_nat (Suc (?N - 1))" using N0 by simp
    then have "of_nat (?N - 1) = (of_nat ?N - 1 :: u32)" by simp
    then show "nelts ?h = of_nat (length (butlast xs))" using l by (simp add: linked_def)
    fix q assume q: "0 < q \<and> q \<le> length (butlast xs)"
    then have "0 < q" "q < ?N" using N0 unfolding length_butlast by linarith+
    then show "nodes ?h (entry (butlast xs) q) = Some (links (butlast xs) q)"
      using M(2) n(1) by (simp add: entry_butlast)
  qed simp
  moreover have "\<forall>b. b \<notin> set (butlast xs) \<longrightarrow> M b = nodes h b"
  proof -
    have "set xs = insert (last xs) (set (butlast xs))"
      by (subst append_butlast_last_id [OF n(1), symmetric], subst set_append) simp
    then show ?thesis using M(3) last by auto
  qed
  ultimately show ?thesis by (intro exI [of _ ?h]) simp
qed

lemma replace_node_linked:
  assumes l: "linked h xs" and i: "0 < i" "i \<le> length xs"
    and c: "c \<notin> set xs" "c \<noteq> 0" "nodes h c \<noteq> None"
  defines "ys \<equiv> xs[i - 1 := c]"
  shows "\<exists>h'. replace_node h (entry xs i) c = Some h' \<and> linked h' ys \<and>
    (\<forall>b. b \<notin> insert c (set xs) \<or> b = entry xs i \<longrightarrow> nodes h' b = nodes h b)"
proof -
  have ok: "nodes_ok xs" "nodes_ok ys" "length xs = length ys"
    using l c i set_update_subset_insert [of xs "i - 1" c]
    by (auto simp: linked_def nodes_ok_def ys_def intro: distinct_list_update)
  note e = entry_update [OF i, of c, folded ys_def]
  have c': "entry ys i = c" by (simp add: e)
  let ?h1 = "h\<lparr>nodes := (nodes h)(c \<mapsto> links xs i)\<rparr>"
  have ne: "i div 2 \<noteq> i" using i by simp
  then have li: "links ys i = links xs i" using i by (simp add: links_def e)
  have r1: "relinked ?h1 xs ys {i}"
    unfolding relinked_def
  proof (intro allI impI)
    fix q assume q: "0 < q \<and> q \<le> length ys"
    have "entry xs q \<noteq> c" using q c(1) entry_mem [of q xs] ok(3) by auto
    then show "nodes ?h1 (entry ys q) = Some (if q \<in> {i} then links ys q else links xs q)"
      using l q ok(3) li by (auto simp: e linked_def)
  qed
  have lq: "links ys (2 * i) = (links xs (2 * i))\<lparr>node_parent := c\<rparr>"
    "links ys (2 * i + 1) = (links xs (2 * i + 1))\<lparr>node_parent := c\<rparr>"
    using i by (simp_all add: links_def e)
  obtain N2 where N2: "(if entry ys (2 * i) \<noteq> 0 then set_parent ?h1 (entry ys (2 * i)) c else Some ?h1) = Some (h\<lparr>nodes := N2\<rparr>)"
      "relinked (h\<lparr>nodes := N2\<rparr>) xs ys {2 * i, i}" "\<forall>a. a \<notin> set ys \<longrightarrow> N2 a = nodes ?h1 a"
    using relink_parent [OF r1 ok(2) _ lq(1)] i by auto
  obtain N3 where N3: "(if entry ys (2 * i + 1) \<noteq> 0 then set_parent (h\<lparr>nodes := N2\<rparr>) (entry ys (2 * i + 1)) c
        else Some (h\<lparr>nodes := N2\<rparr>)) = Some (h\<lparr>nodes := N3\<rparr>)"
      "relinked (h\<lparr>nodes := N3\<rparr>) xs ys {2 * i + 1, 2 * i, i}" "\<forall>a. a \<notin> set ys \<longrightarrow> N3 a = N2 a"
    using relink_parent [OF N2(2) ok(2) _ lq(2)] i by auto
  have root: "heap_root (h\<lparr>nodes := N3\<rparr>) = entry xs 1" "nelts h = of_nat (length ys)" using l ok by (simp_all add: linked_def)
  have "i div 2 \<notin> {2 * i + 1, 2 * i, i}" using i by auto
  from relink_above [OF N3(2) ok(2,1) this i ok(3) root(1)]
  obtain N4 where N4: "replace_above (h\<lparr>nodes := N3\<rparr>) (entry ys (i div 2)) (entry xs i) c =
        Some (h\<lparr>nodes := N4, heap_root := entry ys 1\<rparr>)"
      "relinked (h\<lparr>nodes := N4\<rparr>) xs ys (insert (i div 2) {2 * i + 1, 2 * i, i})" "\<forall>a. a \<notin> set ys \<longrightarrow> N4 a = N3 a"
    by (auto simp: e)
  have ei: "entry ys (2 * i) = entry xs (2 * i)" "entry ys (2 * i + 1) = entry xs (2 * i + 1)"
    "entry ys (i div 2) = entry xs (i div 2)" using i ne by (simp_all add: e)
  have out: "entry xs i \<notin> set ys" "entry xs i \<noteq> c"
  proof -
    show "entry xs i \<noteq> c" using entry_mem [OF i] c(1) by auto
    show "entry xs i \<notin> set ys"
    proof
      assume "entry xs i \<in> set ys"
      then obtain q where "0 < q" "q \<le> length ys" "entry xs i = entry ys q" using mem_entry by blast
      then show False using entry_inj [OF ok(1) i, of q] \<open>entry xs i \<noteq> c\<close> by (cases "q = i") (simp_all add: e)
    qed
  qed
  have at: "node_at h (entry xs i) = Some (links xs i)" by (rule linked_node_at [OF l i])
  have at3: "node_at (h\<lparr>nodes := N3\<rparr>) (entry xs i) = Some (links xs i)"
    using at out N2(3) N3(3) unfolding node_at_def by (simp split: if_splits)
  have set_c: "set_node h c (links xs i) = Some ?h1" using c by (auto simp: set_node_def node_at_def)
  have links: "node_left (links xs i) = entry ys (2 * i)" "node_right (links xs i) = entry ys (2 * i + 1)"
    "node_parent (links xs i) = entry ys (i div 2)" unfolding ei by (simp_all add: links_def)
  have "replace_node h (entry xs i) c = Some (h\<lparr>nodes := N4, heap_root := entry ys 1\<rparr>)"
    unfolding replace_node_def at bind.bind_lunit set_c links N2(1) N3(1) at3 N4(1) ..
  moreover have "linked (h\<lparr>nodes := N4, heap_root := entry ys 1\<rparr>) ys"
  proof (rule relinked_all)
    show "relinked (h\<lparr>nodes := N4, heap_root := entry ys 1\<rparr>) xs ys (insert (i div 2) {2 * i + 1, 2 * i, i})"
      using N4(2) by (simp add: relinked_def)
    fix q assume "q \<notin> insert (i div 2) {2 * i + 1, 2 * i, i}" "0 < q"
    then have q: "q \<noteq> i div 2" "q \<noteq> 2 * i" "q \<noteq> 2 * i + 1" by blast+
    have "2 * q \<noteq> i" "2 * q + 1 \<noteq> i" using q(1) by auto
    moreover have "q div 2 \<noteq> i" using q(2,3) unfolding half by simp
    ultimately show "links ys q = links xs q" by (simp add: links_def e)
  qed (use ok root in simp_all)
  moreover have "\<forall>b. b \<notin> insert c (set xs) \<or> b = entry xs i \<longrightarrow> N4 b = nodes h b"
    using N2(3) N3(3) N4(3) out set_update_subset_insert [of xs "i - 1" c] unfolding ys_def by auto
  ultimately show ?thesis by (intro exI [of _ "h\<lparr>nodes := N4, heap_root := entry ys 1\<rparr>"]) simp
qed

section \<open>The order of the heap\<close>

definition below ::
    "(addr \<Rightarrow> addr \<Rightarrow> bool) \<Rightarrow> addr list \<Rightarrow> nat \<Rightarrow> nat \<Rightarrow> bool" where
  "below lt xs p q \<longleftrightarrow> \<not> lt (entry xs q) (entry xs p)"

definition ordered ::
    "(addr \<Rightarrow> addr \<Rightarrow> bool) \<Rightarrow> addr list \<Rightarrow> bool" where
  "ordered lt xs \<longleftrightarrow> (\<forall>q. 1 < q \<and> q \<le> length xs \<longrightarrow> below lt xs (q div 2) q)"

text \<open>In order but for the node at position \<open>i\<close>.\<close>

definition ordered_except ::
    "(addr \<Rightarrow> addr \<Rightarrow> bool) \<Rightarrow> addr list \<Rightarrow> nat \<Rightarrow> bool" where
  "ordered_except lt xs i \<longleftrightarrow>
     (\<forall>q. 1 < q \<and> q \<le> length xs \<longrightarrow>
        (q \<noteq> i \<and> q div 2 \<noteq> i \<longrightarrow> below lt xs (q div 2) q) \<and>
        (q div 2 = i \<and> 1 < i \<longrightarrow> below lt xs (i div 2) q))"

definition children_ok ::
    "(addr \<Rightarrow> addr \<Rightarrow> bool) \<Rightarrow> addr list \<Rightarrow> nat \<Rightarrow> bool" where
  "children_ok lt xs i \<longleftrightarrow> (\<forall>q. q div 2 = i \<and> q \<le> length xs \<longrightarrow> below lt xs i q)"

text \<open>What the heap relies on in the comparison of its client: not-less is a total preorder.\<close>

locale heap_order =
  fixes lt :: "addr \<Rightarrow> addr \<Rightarrow> bool"
  assumes asym: "lt a b \<Longrightarrow> \<not> lt b a"
    and not_less_trans: "\<not> lt b a \<Longrightarrow> \<not> lt c b \<Longrightarrow> \<not> lt c a"
begin

lemma irrefl: "\<not> lt a a"
  using asym by blast

lemma less_trans': "lt a b \<Longrightarrow> lt b c \<Longrightarrow> lt a c"
  using asym not_less_trans by blast

lemma below_trans: "below lt xs p q \<Longrightarrow> below lt xs q r \<Longrightarrow> below lt xs p r"
  unfolding below_def by (rule not_less_trans)

lemma ordered_except_ordered: "ordered lt xs \<Longrightarrow> ordered_except lt xs i"
proof -
  assume o: "ordered lt xs"
  have "below lt xs (i div 2) q" if "1 < q" "q \<le> length xs" "q div 2 = i" "1 < i" for q
  proof (rule below_trans)
    have "i \<le> length xs" using that by auto
    then show "below lt xs (i div 2) i" using o that by (simp add: ordered_def)
    show "below lt xs i q" using o that by (auto simp: ordered_def)
  qed
  then show ?thesis using o by (auto simp: ordered_def ordered_except_def)
qed

lemma ordered_at:
  assumes "ordered_except lt xs i" "children_ok lt xs i" "i = 1 \<or> below lt xs (i div 2) i"
  shows "ordered lt xs"
  unfolding ordered_def
proof (intro allI impI)
  fix q assume q: "1 < q \<and> q \<le> length xs"
  consider "q = i" | "q div 2 = i" | "q \<noteq> i" "q div 2 \<noteq> i" by blast
  then show "below lt xs (q div 2) q"
    using assms q by cases (auto simp: ordered_except_def children_ok_def)
qed

lemma move_up:
  assumes o: "ordered_except lt xs i" "children_ok lt xs i" and i: "1 < i" "i \<le> length xs"
    and less: "lt (entry xs i) (entry xs (i div 2))"
  defines "p \<equiv> i div 2"
  defines "ys \<equiv> swap xs p i"
  shows "ordered_except lt ys p \<and> children_ok lt ys p"
proof -
  have p: "0 < p" "p < i" "i div 2 = p" using i by (auto simp: p_def)
  note e = swap_entry [OF p(1,2) i(2), folded ys_def]
  have len: "length ys = length xs" by (simp add: ys_def)
  have up: "below lt xs p q" if "q div 2 = p" "q \<le> length xs" "q \<noteq> i" for q
    using o(1) that p(1,2) unfolding ordered_except_def by auto
  have pi: "\<not> lt (entry xs p) (entry xs i)" using asym [OF less] by (simp add: p_def)
  have "below lt ys (q div 2) q" if q: "1 < q" "q \<le> length ys" "q \<noteq> p" "q div 2 \<noteq> p" for q
  proof -
    have "q \<noteq> i" using q(4) p(3) by auto
    then show ?thesis using o(1) q i p len unfolding ordered_except_def below_def e by (cases "q div 2 = i") auto
  qed
  moreover have "below lt ys (p div 2) q" if q: "q \<le> length ys" "q div 2 = p" "1 < p" for q
  proof -
    have p2: "p div 2 \<noteq> p" "p div 2 \<noteq> i" using p by auto
    have pp: "below lt xs (p div 2) p" using o(1) that i p p2 unfolding ordered_except_def by auto
    show ?thesis
    proof (cases "q = i")
      case True
      then show ?thesis using pp p p2 by (simp add: below_def e)
    next
      case False
      have "q \<noteq> p" using q(2) p(1) by auto
      then show ?thesis using below_trans [OF pp up [OF q(2) _ False]] q(1) len p2 False by (simp add: below_def e)
    qed
  qed
  moreover have "below lt ys p q" if q: "q div 2 = p" "q \<le> length ys" for q
  proof (cases "q = i")
    case True
    then show ?thesis using pi p by (simp add: below_def e)
  next
    case False
    have "q \<noteq> p" using q(1) p(1) by auto
    then show ?thesis using up [OF q(1) _ False] q(2) len pi False not_less_trans by (auto simp: below_def e)
  qed
  ultimately show ?thesis by (auto simp: ordered_except_def children_ok_def)
qed

lemma move_down:
  assumes o: "ordered_except lt xs i" and i: "0 < i" "m \<le> length xs" "m div 2 = i"
    and least: "\<And>q. q div 2 = i \<Longrightarrow> q \<le> length xs \<Longrightarrow> below lt xs m q"
  defines "ys \<equiv> swap xs i m"
  shows "ordered_except lt ys m"
proof -
  have m: "i < m" "1 < m" using i by auto
  note e = swap_entry [OF i(1) m(1) i(2), folded ys_def]
  have len: "length ys = length xs" by (simp add: ys_def)
  have i2: "i div 2 \<noteq> i" "i div 2 \<noteq> m" using i m by auto
  have "below lt ys (q div 2) q" if q: "1 < q" "q \<le> length ys" "q \<noteq> m" "q div 2 \<noteq> m" for q
  proof -
    consider "q = i" | "q \<noteq> i" "q div 2 = i" | "q \<noteq> i" "q div 2 \<noteq> i" by blast
    then show ?thesis
    proof cases
      case 1
      then have "below lt xs (i div 2) m" using o i m q unfolding ordered_except_def by auto
      then show ?thesis using 1 i2 by (simp add: below_def e)
    next
      case 2
      then show ?thesis using least [of q] q len by (simp add: below_def e)
    next
      case 3
      then show ?thesis using o q len unfolding ordered_except_def by (simp add: below_def e)
    qed
  qed
  moreover have "below lt ys (m div 2) q" if q: "1 < q" "q \<le> length ys" "q div 2 = m" for q
  proof -
    have "q \<noteq> i" "q \<noteq> m" using q m by auto
    moreover from this have "below lt xs m q" using o q m len unfolding ordered_except_def by auto
    ultimately show ?thesis using i(3) by (simp add: below_def e)
  qed
  ultimately show ?thesis by (auto simp: ordered_except_def)
qed


lemma sift_up_linked:
  assumes "linked h xs" "ordered_except lt xs i" "children_ok lt xs i" "0 < i" "i \<le> length xs"
    and "\<And>a b. a \<in> set xs \<Longrightarrow> b \<in> set xs \<Longrightarrow> cmp a b = Some (lt a b)"
  shows "\<exists>h' ys. sift_up cmp h (entry xs i) = Some h' \<and> linked h' ys \<and> set ys = set xs \<and> length ys = length xs \<and>
    ordered lt ys \<and> (\<forall>a. a \<notin> set xs \<longrightarrow> nodes h' a = nodes h a)"
  using assms
proof (induction i arbitrary: h xs rule: less_induct)
  case (less i)
  let ?p = "i div 2"
  note at = linked_node_at [OF less.prems(1,4,5)]
  have up: "node_parent (links xs i) = entry xs ?p" by (simp add: links_def)
  show ?case
  proof (cases "i = 1")
    case True
    then have "sift_up cmp h (entry xs i) = Some h"
      using at up by (subst sift_up.simps) (simp add: entry_def)
    then show ?thesis using less.prems(1-3) ordered_at True by blast
  next
    case False
    have i: "1 < i" "0 < ?p" "?p \<le> length xs" "?p < i" using False less.prems(4,5) by auto
    have p0: "entry xs ?p \<noteq> 0" using less.prems(1) i by (simp add: linked_def entry_zero)
    have c: "cmp (entry xs i) (entry xs ?p) = Some (lt (entry xs i) (entry xs ?p))"
      using entry_mem [OF less.prems(4,5)] entry_mem [OF i(2,3)] by (rule less.prems(6))
    show ?thesis
    proof (cases "lt (entry xs i) (entry xs ?p)")
      case False
      then have "sift_up cmp h (entry xs i) = Some h"
        using at up p0 c by (subst sift_up.simps) simp
      moreover have "ordered lt xs" using ordered_at [OF less.prems(2,3)] False unfolding below_def by blast
      ultimately show ?thesis using less.prems(1) by blast
    next
      case True
      let ?ys = "swap xs ?p i"
      obtain h1 where h1: "heap_node_swap h (entry xs ?p) (entry xs i) = Some h1" "linked h1 ?ys"
          "\<forall>a. a \<notin> set xs \<longrightarrow> nodes h1 a = nodes h a"
        using heap_node_swap_linked [OF less.prems(1) i(1) less.prems(5)] by blast
      have same: "set ?ys = set xs" "length ?ys = length xs" "entry ?ys ?p = entry xs i"
        using swap_set [OF i(2,4) less.prems(5)] swap_entry [OF i(2,4) less.prems(5)] by simp_all
      have "sift_up cmp h (entry xs i) = sift_up cmp h1 (entry ?ys ?p)"
        using at up p0 c h1(1) True same(3) by (subst sift_up.simps) simp
      moreover have "\<exists>h' ys. sift_up cmp h1 (entry ?ys ?p) = Some h' \<and> linked h' ys \<and> set ys = set ?ys \<and>
          length ys = length ?ys \<and> ordered lt ys \<and> (\<forall>a. a \<notin> set ?ys \<longrightarrow> nodes h' a = nodes h1 a)"
        using move_up [OF less.prems(2,3) i(1) less.prems(5) True] i same less.prems(6)
        by (intro less.IH h1(2)) simp_all
      ultimately show ?thesis using h1(3) same by (auto simp del: swap_length)
    qed
  qed
qed

lemma smaller_child_entry:
  assumes "nodes_ok xs" "0 < m" "m \<le> length xs" "0 < c"
    and "\<And>a b. a \<in> set xs \<Longrightarrow> b \<in> set xs \<Longrightarrow> cmp a b = Some (lt a b)"
  shows "smaller_child cmp (entry xs c) (entry xs m) =
    Some (entry xs (if c \<le> length xs \<and> lt (entry xs c) (entry xs m) then c else m))"
  using assms entry_mem [of c xs] entry_mem [of m xs] by (auto simp: smaller_child_def entry_zero)

lemma sift_down_linked:
  assumes "linked h xs" "ordered_except lt xs i" "0 < i" "i \<le> length xs"
    and "\<And>a b. a \<in> set xs \<Longrightarrow> b \<in> set xs \<Longrightarrow> cmp a b = Some (lt a b)"
  shows "\<exists>h' ys j. sift_down cmp h (entry xs i) = Some h' \<and> linked h' ys \<and> set ys = set xs \<and> length ys = length xs \<and>
    entry ys j = entry xs i \<and> 0 < j \<and> j \<le> length ys \<and> ordered_except lt ys j \<and> children_ok lt ys j \<and>
    (\<forall>a. a \<notin> set xs \<longrightarrow> nodes h' a = nodes h a)"
  using assms
proof (induction "length xs - i" arbitrary: h xs i rule: less_induct)
  case less
  let ?l = "2 * i" and ?r = "2 * i + 1"
  define m1 where "m1 = (if ?l \<le> length xs \<and> lt (entry xs ?l) (entry xs i) then ?l else i)"
  define m where "m = (if ?r \<le> length xs \<and> lt (entry xs ?r) (entry xs m1) then ?r else m1)"
  have ok: "nodes_ok xs" using less.prems(1) by (simp add: linked_def)
  have m1: "0 < m1" "m1 \<le> length xs" using less.prems(3,4) by (simp_all add: m1_def)
  have m: "m \<le> length xs" "m = i \<or> m div 2 = i" "0 < m" using less.prems(3,4) m1 by (auto simp: m_def m1_def)
  have at: "node_at h (entry xs i) = Some (links xs i)" by (rule linked_node_at [OF less.prems(1,3,4)])
  have links: "node_left (links xs i) = entry xs ?l" "node_right (links xs i) = entry xs ?r" by (simp_all add: links_def)
  have small: "smaller_child cmp (entry xs ?l) (entry xs i) = Some (entry xs m1)"
    "smaller_child cmp (entry xs ?r) (entry xs m1) = Some (entry xs m)"
    using smaller_child_entry [OF ok less.prems(3,4) _ less.prems(5), of ?l]
      smaller_child_entry [OF ok m1 _ less.prems(5), of ?r] less.prems(3) by (simp_all add: m1_def m_def)
  have least: "below lt xs m q" if q: "q div 2 = i" "q \<le> length xs" for q
  proof -
    have "q = ?l \<or> q = ?r" using q(1) half [of q i] by simp
    then show ?thesis
      using q(2) unfolding below_def m_def m1_def
      by (auto simp: irrefl dest: asym less_trans')
  qed
  show ?case
  proof (cases "m = i")
    case True
    then have "sift_down cmp h (entry xs i) = Some h"
      using at links small by (subst sift_down.simps) simp
    moreover have "children_ok lt xs i" using least True by (simp add: children_ok_def)
    ultimately show ?thesis using less.prems(1-4) by blast
  next
    case False
    then have mi: "m div 2 = i" "i < m" "1 < m" using m less.prems(3) by auto
    let ?ys = "swap xs i m"
    obtain h1 where h1: "heap_node_swap h (entry xs i) (entry xs m) = Some h1" "linked h1 ?ys"
        "\<forall>a. a \<notin> set xs \<longrightarrow> nodes h1 a = nodes h a"
      using heap_node_swap_linked [OF less.prems(1) mi(3) m(1)] unfolding mi(1) by blast
    have same: "set ?ys = set xs" "length ?ys = length xs" "entry ?ys m = entry xs i"
      using swap_set [OF less.prems(3) mi(2) m(1)] swap_entry [OF less.prems(3) mi(2) m(1)] mi by simp_all
    have "entry xs m \<noteq> entry xs i" using entry_inj [OF ok m(3,1), of i] False by simp
    then have "sift_down cmp h (entry xs i) = sift_down cmp h1 (entry ?ys m)"
      using at links small h1(1) same(3) by (subst sift_down.simps) simp
    moreover have "\<exists>h' ys j. sift_down cmp h1 (entry ?ys m) = Some h' \<and> linked h' ys \<and> set ys = set ?ys \<and>
        length ys = length ?ys \<and> entry ys j = entry ?ys m \<and> 0 < j \<and> j \<le> length ys \<and> ordered_except lt ys j \<and>
        children_ok lt ys j \<and> (\<forall>a. a \<notin> set ?ys \<longrightarrow> nodes h' a = nodes h1 a)"
      using move_down [OF less.prems(2,3) m(1) mi(1) least] mi m same less.prems(5)
      by (intro less.hyps h1(2)) simp_all
    ultimately show ?thesis using h1(3) same by (auto simp del: swap_length)
  qed
qed

end

lemma entry_butlast_same: "q \<le> length (butlast xs) \<Longrightarrow> entry (butlast xs) q = entry xs q"
  by (auto simp: entry_def nth_butlast)

context heap_order begin

lemma ordered_butlast: "ordered lt xs \<Longrightarrow> ordered lt (butlast xs)"
  unfolding ordered_def below_def
proof (intro allI impI)
  fix q assume o: "\<forall>q. 1 < q \<and> q \<le> length xs \<longrightarrow> \<not> lt (entry xs q) (entry xs (q div 2))"
    and q: "1 < q \<and> q \<le> length (butlast xs)"
  have "entry (butlast xs) q = entry xs q" "entry (butlast xs) (q div 2) = entry xs (q div 2)"
    using q by (intro entry_butlast_same; simp)+
  moreover have "q \<le> length xs" using q unfolding length_butlast by linarith
  ultimately show "\<not> lt (entry (butlast xs) q) (entry (butlast xs) (q div 2))" using o q by simp
qed

lemma ordered_append: "ordered lt xs \<Longrightarrow> ordered_except lt (xs @ [a]) (Suc (length xs)) \<and> children_ok lt (xs @ [a]) (Suc (length xs))"
proof -
  assume o: "ordered lt xs"
  have big: "Suc (length xs) < q" if "q div 2 = Suc (length xs)" for q using that by auto
  have "below lt (xs @ [a]) (q div 2) q" if "1 < q" "q \<le> Suc (length xs)" "q \<noteq> Suc (length xs)" for q
    using o that by (auto simp: ordered_def below_def entry_append)
  then show ?thesis using big unfolding ordered_except_def children_ok_def by fastforce
qed

lemma ordered_except_update:
  assumes "ordered_except lt xs i" "0 < i" "i \<le> length xs"
    and ys: "ys = xs[i - 1 := c]"
  shows "ordered_except lt ys i"
proof -
  note e = entry_update [OF assms(2,3), of c, folded ys]
  have len: "length ys = length xs" by (simp add: ys)
  have ne: "i div 2 \<noteq> i" "\<And>q. q div 2 = i \<Longrightarrow> q \<noteq> i" using assms(2) by auto
  show ?thesis
    unfolding ordered_except_def
  proof (intro allI impI conjI)
    fix q assume q: "1 < q \<and> q \<le> length ys"
    show "below lt ys (q div 2) q" if "q \<noteq> i \<and> q div 2 \<noteq> i"
      using assms(1) q that len unfolding ordered_except_def below_def e by auto
    show "below lt ys (i div 2) q" if "q div 2 = i \<and> 1 < i"
    proof -
      have "q \<noteq> i" using ne(2) that by blast
      moreover have "below lt xs (i div 2) q" using assms(1) q that len unfolding ordered_except_def by simp
      ultimately show ?thesis using ne(1) unfolding below_def e by simp
    qed
  qed
qed

lemma ordered_min:
  assumes "ordered lt xs" "0 < q" "q \<le> length xs"
  shows "below lt xs 1 q"
  using assms(2,3)
proof (induction q rule: less_induct)
  case (less q)
  show ?case
  proof (cases "q = 1")
    case True
    then show ?thesis by (simp add: below_def irrefl)
  next
    case False
    then have "1 < q" "0 < q div 2" "q div 2 < q" "q div 2 \<le> length xs" using less.prems by auto
    then show ?thesis using below_trans less.IH [of "q div 2"] assms(1) less.prems unfolding ordered_def by blast
  qed
qed

lemma heap_min_least:
  assumes "linked h xs" "ordered lt xs" "a \<in> set xs"
  shows "heap_min h \<in> set xs" "\<not> lt a (heap_min h)"
proof -
  obtain q where q: "0 < q" "q \<le> length xs" "a = entry xs q" using mem_entry [OF assms(3)] by blast
  then show "heap_min h \<in> set xs" using assms(1) entry_mem [of 1 xs] by (simp add: heap_min_def linked_def)
  show "\<not> lt a (heap_min h)" using ordered_min [OF assms(2) q(1,2)] assms(1) q(3)
    by (simp add: heap_min_def linked_def below_def)
qed

lemma heap_insert_linked:
  assumes l: "linked h xs" "ordered lt xs" and a: "a \<notin> set xs" "a \<noteq> 0" "nodes h a \<noteq> None"
    and n: "length xs < 2 ^ 32 - 1"
    and cmp: "\<And>b c. b \<in> insert a (set xs) \<Longrightarrow> c \<in> insert a (set xs) \<Longrightarrow> cmp b c = Some (lt b c)"
  shows "\<exists>h' ys. heap_insert cmp h a = Some h' \<and> linked h' ys \<and> set ys = insert a (set xs) \<and>
    length ys = Suc (length xs) \<and> ordered lt ys \<and> (\<forall>b. b \<notin> set ys \<longrightarrow> nodes h' b = nodes h b)"
proof -
  let ?N = "Suc (length xs)"
  obtain h1 where h1: "attach h a = Some h1" "linked h1 (xs @ [a])"
      "\<forall>b. b \<notin> insert a (set xs) \<longrightarrow> nodes h1 b = nodes h b"
    using attach_linked [OF l(1) a n] by blast
  have e: "entry (xs @ [a]) ?N = a" by (simp add: entry_append)
  have "\<exists>h' ys. sift_up cmp h1 (entry (xs @ [a]) ?N) = Some h' \<and> linked h' ys \<and> set ys = set (xs @ [a]) \<and>
      length ys = length (xs @ [a]) \<and> ordered lt ys \<and> (\<forall>b. b \<notin> set (xs @ [a]) \<longrightarrow> nodes h' b = nodes h1 b)"
    using ordered_append [OF l(2), of a] cmp by (intro sift_up_linked h1(2)) auto
  then obtain h' ys where "sift_up cmp h1 a = Some h'" "linked h' ys" "set ys = set (xs @ [a])"
      "length ys = length (xs @ [a])" "ordered lt ys" "\<forall>b. b \<notin> set (xs @ [a]) \<longrightarrow> nodes h' b = nodes h1 b"
    unfolding e by blast
  then show ?thesis using h1(1,3) by (intro exI [of _ h'] exI [of _ ys]) (simp add: heap_insert_def)
qed

lemma heap_remove_linked:
  assumes l: "linked h xs" "ordered lt xs" and a: "a \<in> set xs" and n: "length xs < 2 ^ 32"
    and cmp: "\<And>b c. b \<in> set xs \<Longrightarrow> c \<in> set xs \<Longrightarrow> cmp b c = Some (lt b c)"
  shows "\<exists>h' ys. heap_remove cmp h a = Some h' \<and> linked h' ys \<and> set ys = set xs - {a} \<and>
    length ys = length xs - 1 \<and> ordered lt ys \<and> (\<forall>b. b \<notin> set xs \<longrightarrow> nodes h' b = nodes h b) \<and> nodes h' a \<noteq> None"
proof -
  have ne: "xs \<noteq> []" using a by auto
  let ?c = "last xs" and ?xs = "butlast xs"
  have xs: "xs = ?xs @ [?c]" using ne by simp
  have ok: "distinct xs" "0 \<notin> set xs" using l(1) by (simp_all add: linked_def nodes_ok_def)
  have c: "?c \<notin> set ?xs" "set xs = insert ?c (set ?xs)" "?c \<noteq> 0"
  proof -
    show "?c \<notin> set ?xs" using ok(1) by (subst (asm) xs) simp
    show "set xs = insert ?c (set ?xs)" by (subst xs) simp
    then show "?c \<noteq> 0" using ok(2) by auto
  qed
  have mapped: "nodes h b \<noteq> None" if b: "b \<in> set xs" for b
  proof -
    obtain q where "0 < q" "q \<le> length xs" "b = entry xs q" using mem_entry [OF b] by blast
    then show ?thesis using l(1) by (simp add: linked_def)
  qed
  have "0 < unat (nelts h)" using l(1) n ne by (simp add: linked_def unat_of_nat)
  then have n0: "nelts h \<noteq> 0" by auto
  obtain h1 where h1: "detach h = Some (h1, ?c)" "linked h1 ?xs" "\<forall>b. b \<notin> set ?xs \<longrightarrow> nodes h1 b = nodes h b"
    using detach_linked [OF l(1) ne n] by blast
  have o1: "ordered lt ?xs" by (rule ordered_butlast [OF l(2)])
  show ?thesis
  proof (cases "?c = a")
    case True
    have "heap_root h1 \<noteq> a"
    proof -
      have "heap_root h1 = entry ?xs 1" using h1(2) by (simp add: linked_def)
      moreover have "entry ?xs 1 = 0 \<or> entry ?xs 1 \<in> set ?xs"
        using entry_mem [of 1 ?xs] by (cases "1 \<le> length ?xs") (simp_all add: entry_def)
      ultimately show ?thesis using c True by auto
    qed
    then have "heap_remove cmp h a = Some h1" using n0 h1(1) True by (simp add: heap_remove_def)
    moreover have "set ?xs = set xs - {a}" using c True by auto
    moreover have "nodes h1 a \<noteq> None" using h1(3) c(1) mapped [OF a] True by simp
    moreover have "\<forall>b. b \<notin> set xs \<longrightarrow> nodes h1 b = nodes h b" using h1(3) c(2) by simp
    ultimately show ?thesis using h1(2) o1 by (intro exI [of _ h1] exI [of _ ?xs]) simp
  next
    case False
    then have "a \<in> set ?xs" using a c(2) by auto
    then obtain i where i: "0 < i" "i \<le> length ?xs" "a = entry ?xs i" using mem_entry by blast
    let ?ys = "?xs[i - 1 := ?c]"
    have "nodes h1 ?c \<noteq> None" using h1(3) c(1) mapped [of ?c] c(2) by simp
    note replaced = replace_node_linked [OF h1(2) i(1,2) c(1,3) this, folded i(3)]
    obtain h2 where h2: "replace_node h1 a ?c = Some h2" "linked h2 ?ys"
        "\<forall>b. b \<notin> insert ?c (set ?xs) \<or> b = a \<longrightarrow> nodes h2 b = nodes h1 b"
      using replaced by (elim exE conjE) (rule that)
    have ei: "entry ?ys i = ?c" using entry_update [OF i(1,2), of ?c i] by simp
    have set_ys: "set ?ys = set xs - {a}"
    proof -
      have "distinct ?xs" using ok(1) by (rule distinct_butlast)
      then have "set ?ys = insert ?c (set ?xs - {a})"
        using i by (simp add: set_update_distinct entry_def)
      then show ?thesis using c False by auto
    qed
    have len: "length ?ys = length xs - 1" by simp
    have o2: "ordered_except lt ?ys i"
      by (rule ordered_except_update [OF ordered_except_ordered [OF o1] i(1,2) refl])
    have "\<exists>h' zs j. sift_down cmp h2 (entry ?ys i) = Some h' \<and> linked h' zs \<and> set zs = set ?ys \<and> length zs = length ?ys \<and>
        entry zs j = entry ?ys i \<and> 0 < j \<and> j \<le> length zs \<and> ordered_except lt zs j \<and> children_ok lt zs j \<and>
        (\<forall>b. b \<notin> set ?ys \<longrightarrow> nodes h' b = nodes h2 b)"
      using i(1,2) cmp set_ys by (intro sift_down_linked h2(2) o2) auto
    then obtain h3 zs j where h3: "sift_down cmp h2 ?c = Some h3" "linked h3 zs" "set zs = set ?ys" "length zs = length ?ys"
        "entry zs j = ?c" "0 < j" "j \<le> length zs" "ordered_except lt zs j" "children_ok lt zs j"
        "\<forall>b. b \<notin> set ?ys \<longrightarrow> nodes h3 b = nodes h2 b"
      unfolding ei by blast
    have "\<exists>h' ys. sift_up cmp h3 (entry zs j) = Some h' \<and> linked h' ys \<and> set ys = set zs \<and> length ys = length zs \<and>
        ordered lt ys \<and> (\<forall>b. b \<notin> set zs \<longrightarrow> nodes h' b = nodes h3 b)"
      using cmp set_ys h3(3) by (intro sift_up_linked h3(2,6-9)) auto
    then obtain h4 ys where h4: "sift_up cmp h3 ?c = Some h4" "linked h4 ys" "set ys = set ?ys" "length ys = length ?ys"
        "ordered lt ys" "\<forall>b. b \<notin> set ?ys \<longrightarrow> nodes h4 b = nodes h3 b"
      unfolding h3(3,4,5) by blast
    have "heap_remove cmp h a = Some h4"
      using n0 h1(1) False h2(1) h3(1) h4(1) by (simp add: heap_remove_def)
    moreover have "nodes h4 b = nodes h b" if "b \<notin> set xs" for b
      using that h4(6) h3(10) h2(3) h1(3) set_ys c(2) by simp
    moreover have "nodes h4 a \<noteq> None"
    proof -
      have "nodes h1 a \<noteq> None" using h1(2) i by (simp add: linked_def)
      then show ?thesis using h4(6) h3(10) h2(3) set_ys by simp
    qed
    ultimately show ?thesis using h4(2-5) set_ys len by (intro exI [of _ h4] exI [of _ ys]) simp
  qed
qed

end

end
