(* ===== verification/Uv_Queue.thy ===== *)
theory Uv_Queue
  imports Prelude
begin

text \<open>
  The queues of libuv, \<^verbatim>\<open>src/queue.h\<close>: circular lists of nodes with a pointer to the next and to the
  previous node, one of which is the head. The macros write through pointers, so each is a sequence
  of writes to the memory of the nodes; \<open>ring Q h xs\<close> says that the nodes after \<open>h\<close> are \<open>xs\<close>.
\<close>

section \<open>Nodes and macros\<close>

record queue_node =
  queue_next :: addr
  queue_prev :: addr

type_synonym queues = "addr \<rightharpoonup> queue_node"

definition QUEUE_NEXT :: "queues \<Rightarrow> addr \<Rightarrow> addr option" where
  "QUEUE_NEXT Q q = map_option queue_next (Q q)"

definition QUEUE_PREV :: "queues \<Rightarrow> addr \<Rightarrow> addr option" where
  "QUEUE_PREV Q q = map_option queue_prev (Q q)"

definition set_next :: "queues \<Rightarrow> addr \<Rightarrow> addr \<Rightarrow> queues option" where
  "set_next Q q v = do { n \<leftarrow> Q q; Some (Q(q \<mapsto> n\<lparr>queue_next := v\<rparr>)) }"

definition set_prev :: "queues \<Rightarrow> addr \<Rightarrow> addr \<Rightarrow> queues option" where
  "set_prev Q q v = do { n \<leftarrow> Q q; Some (Q(q \<mapsto> n\<lparr>queue_prev := v\<rparr>)) }"

definition set_PREV_NEXT :: "queues \<Rightarrow> addr \<Rightarrow> addr \<Rightarrow> queues option" where
  "set_PREV_NEXT Q q v = do { p \<leftarrow> QUEUE_PREV Q q; set_next Q p v }"

definition set_NEXT_PREV :: "queues \<Rightarrow> addr \<Rightarrow> addr \<Rightarrow> queues option" where
  "set_NEXT_PREV Q q v = do { n \<leftarrow> QUEUE_NEXT Q q; set_prev Q n v }"

definition QUEUE_EMPTY :: "queues \<Rightarrow> addr \<Rightarrow> bool option" where
  "QUEUE_EMPTY Q q = do { n \<leftarrow> QUEUE_NEXT Q q; Some (q = n) }"

definition QUEUE_HEAD :: "queues \<Rightarrow> addr \<Rightarrow> addr option" where
  "QUEUE_HEAD Q q = QUEUE_NEXT Q q"

definition QUEUE_INIT :: "queues \<Rightarrow> addr \<Rightarrow> queues option" where
  "QUEUE_INIT Q q = do { Q \<leftarrow> set_next Q q q; set_prev Q q q }"

definition QUEUE_ADD :: "queues \<Rightarrow> addr \<Rightarrow> addr \<Rightarrow> queues option" where
  "QUEUE_ADD Q h n = do {
     v \<leftarrow> QUEUE_NEXT Q n;
     Q \<leftarrow> set_PREV_NEXT Q h v;
     v \<leftarrow> QUEUE_PREV Q h;
     Q \<leftarrow> set_NEXT_PREV Q n v;
     v \<leftarrow> QUEUE_PREV Q n;
     Q \<leftarrow> set_prev Q h v;
     set_PREV_NEXT Q h h }"

definition QUEUE_SPLIT :: "queues \<Rightarrow> addr \<Rightarrow> addr \<Rightarrow> addr \<Rightarrow> queues option" where
  "QUEUE_SPLIT Q h q n = do {
     v \<leftarrow> QUEUE_PREV Q h;
     Q \<leftarrow> set_prev Q n v;
     Q \<leftarrow> set_PREV_NEXT Q n n;
     Q \<leftarrow> set_next Q n q;
     v \<leftarrow> QUEUE_PREV Q q;
     Q \<leftarrow> set_prev Q h v;
     Q \<leftarrow> set_PREV_NEXT Q h h;
     set_prev Q q n }"

definition QUEUE_MOVE :: "queues \<Rightarrow> addr \<Rightarrow> addr \<Rightarrow> queues option" where
  "QUEUE_MOVE Q h n = do {
     b \<leftarrow> QUEUE_EMPTY Q h;
     if b then QUEUE_INIT Q n
     else do { q \<leftarrow> QUEUE_HEAD Q h; QUEUE_SPLIT Q h q n } }"

definition QUEUE_INSERT_HEAD :: "queues \<Rightarrow> addr \<Rightarrow> addr \<Rightarrow> queues option" where
  "QUEUE_INSERT_HEAD Q h q = do {
     v \<leftarrow> QUEUE_NEXT Q h;
     Q \<leftarrow> set_next Q q v;
     Q \<leftarrow> set_prev Q q h;
     Q \<leftarrow> set_NEXT_PREV Q q q;
     set_next Q h q }"

definition QUEUE_INSERT_TAIL :: "queues \<Rightarrow> addr \<Rightarrow> addr \<Rightarrow> queues option" where
  "QUEUE_INSERT_TAIL Q h q = do {
     Q \<leftarrow> set_next Q q h;
     v \<leftarrow> QUEUE_PREV Q h;
     Q \<leftarrow> set_prev Q q v;
     Q \<leftarrow> set_PREV_NEXT Q q q;
     set_prev Q h q }"

definition QUEUE_REMOVE :: "queues \<Rightarrow> addr \<Rightarrow> queues option" where
  "QUEUE_REMOVE Q q = do {
     v \<leftarrow> QUEUE_NEXT Q q;
     Q \<leftarrow> set_PREV_NEXT Q q v;
     v \<leftarrow> QUEUE_PREV Q q;
     set_NEXT_PREV Q q v }"

section \<open>Rings\<close>

text \<open>Along \<open>xs\<close> each node points to the one after it, and that one back.\<close>

fun chain :: "queues \<Rightarrow> addr list \<Rightarrow> bool" where
  "chain Q (a # b # xs) \<longleftrightarrow> QUEUE_NEXT Q a = Some b \<and> QUEUE_PREV Q b = Some a \<and> chain Q (b # xs)"
| "chain Q xs \<longleftrightarrow> True"

definition ring :: "queues \<Rightarrow> addr \<Rightarrow> addr list \<Rightarrow> bool" where
  "ring Q h xs \<longleftrightarrow> distinct (h # xs) \<and> chain Q (h # xs @ [h])"

lemma chain_append: "chain Q (xs @ a # ys) \<longleftrightarrow> chain Q (xs @ [a]) \<and> chain Q (a # ys)"
  by (induction Q xs rule: chain.induct) simp_all

lemma chain_cong:
  assumes "\<And>a. a \<in> set (butlast xs) \<Longrightarrow> QUEUE_NEXT Q' a = QUEUE_NEXT Q a"
    and "\<And>a. a \<in> set (tl xs) \<Longrightarrow> QUEUE_PREV Q' a = QUEUE_PREV Q a"
  shows "chain Q' xs \<longleftrightarrow> chain Q xs"
  using assms by (induction Q xs rule: chain.induct) auto

text \<open>A write as a change of the two pointers of a node.\<close>

lemma set_next_Some:
  assumes "Q q \<noteq> None"
  shows "\<exists>Q'. set_next Q q v = Some Q' \<and> QUEUE_NEXT Q' = (QUEUE_NEXT Q)(q \<mapsto> v) \<and> QUEUE_PREV Q' = QUEUE_PREV Q \<and>
    dom Q' = dom Q"
proof -
  obtain n where n: "Q q = Some n" using assms by auto
  let ?Q = "Q(q \<mapsto> n\<lparr>queue_next := v\<rparr>)"
  have "set_next Q q v = Some ?Q" using n by (simp add: set_next_def)
  moreover have "QUEUE_NEXT ?Q = (QUEUE_NEXT Q)(q \<mapsto> v)" "QUEUE_PREV ?Q = QUEUE_PREV Q"
    using n by (auto simp: QUEUE_NEXT_def QUEUE_PREV_def fun_eq_iff)
  moreover have "dom ?Q = dom Q" using n by auto
  ultimately show ?thesis by blast
qed

lemma set_prev_Some:
  assumes "Q q \<noteq> None"
  shows "\<exists>Q'. set_prev Q q v = Some Q' \<and> QUEUE_PREV Q' = (QUEUE_PREV Q)(q \<mapsto> v) \<and> QUEUE_NEXT Q' = QUEUE_NEXT Q \<and>
    dom Q' = dom Q"
proof -
  obtain n where n: "Q q = Some n" using assms by auto
  let ?Q = "Q(q \<mapsto> n\<lparr>queue_prev := v\<rparr>)"
  have "set_prev Q q v = Some ?Q" using n by (simp add: set_prev_def)
  moreover have "QUEUE_PREV ?Q = (QUEUE_PREV Q)(q \<mapsto> v)" "QUEUE_NEXT ?Q = QUEUE_NEXT Q"
    using n by (auto simp: QUEUE_NEXT_def QUEUE_PREV_def fun_eq_iff)
  moreover have "dom ?Q = dom Q" using n by auto
  ultimately show ?thesis by blast
qed

lemma dom_next: "q \<in> dom Q \<longleftrightarrow> QUEUE_NEXT Q q \<noteq> None"
  by (auto simp: QUEUE_NEXT_def)

lemma dom_prev: "q \<in> dom Q \<longleftrightarrow> QUEUE_PREV Q q \<noteq> None"
  by (auto simp: QUEUE_PREV_def)

lemma ring_last: "ring Q h xs \<Longrightarrow> QUEUE_PREV Q h = Some (last (h # xs))"
proof (cases xs rule: rev_cases)
  case Nil
  then show "ring Q h xs \<Longrightarrow> ?thesis" by (simp add: ring_def)
next
  case (snoc ys l)
  then show "ring Q h xs \<Longrightarrow> ?thesis" using chain_append [of Q "h # ys" l "[h]"] by (simp add: ring_def)
qed

lemma ring_first: "ring Q h xs \<Longrightarrow> QUEUE_NEXT Q h = Some (hd (xs @ [h]))"
  by (cases xs) (simp_all add: ring_def)

lemma QUEUE_EMPTY_ring: "ring Q h xs \<Longrightarrow> QUEUE_EMPTY Q h = Some (xs = [])"
  using ring_first [of Q h xs] by (cases xs) (auto simp: QUEUE_EMPTY_def ring_def)

lemma QUEUE_HEAD_ring: "ring Q h (q # xs) \<Longrightarrow> QUEUE_HEAD Q h = Some q"
  using ring_first [of Q h "q # xs"] by (simp add: QUEUE_HEAD_def)

lemma chain_mapped: "chain Q xs \<Longrightarrow> a \<in> set xs \<Longrightarrow> 1 < length xs \<Longrightarrow> Q a \<noteq> None"
proof (induction Q xs rule: chain.induct)
  case (1 Q b c xs)
  then have "Q b \<noteq> None" "Q c \<noteq> None" by (auto simp: QUEUE_NEXT_def QUEUE_PREV_def)
  then show ?case using 1 by (cases xs) auto
qed simp_all

lemma ring_mapped: "ring Q h xs \<Longrightarrow> a \<in> insert h (set xs) \<Longrightarrow> Q a \<noteq> None"
  using chain_mapped [of Q "h # xs @ [h]" a] by (auto simp: ring_def)

text \<open>What the nodes outside a ring have is kept.\<close>

definition kept :: "queues \<Rightarrow> queues \<Rightarrow> addr set \<Rightarrow> bool" where
  "kept Q Q' A \<longleftrightarrow> dom Q' = dom Q \<and> (\<forall>a. a \<notin> A \<longrightarrow> QUEUE_NEXT Q' a = QUEUE_NEXT Q a \<and> QUEUE_PREV Q' a = QUEUE_PREV Q a)"

lemma kept_chain: "kept Q Q' A \<Longrightarrow> set xs \<inter> A = {} \<Longrightarrow> chain Q' xs \<longleftrightarrow> chain Q xs"
proof (rule chain_cong)
  assume k: "kept Q Q' A" "set xs \<inter> A = {}"
  show "QUEUE_NEXT Q' a = QUEUE_NEXT Q a" if "a \<in> set (butlast xs)" for a
    using k in_set_butlastD [OF that] by (auto simp: kept_def)
  show "QUEUE_PREV Q' a = QUEUE_PREV Q a" if "a \<in> set (tl xs)" for a
    using k that by (cases xs) (auto simp: kept_def)
qed

lemma kept_ring: "kept Q Q' A \<Longrightarrow> insert h (set xs) \<inter> A = {} \<Longrightarrow> ring Q' h xs \<longleftrightarrow> ring Q h xs"
  using kept_chain [of Q Q' A "h # xs @ [h]"] by (simp add: ring_def)

section \<open>The macros on rings\<close>

lemma QUEUE_INIT_ring:
  assumes "Q q \<noteq> None"
  shows "\<exists>Q'. QUEUE_INIT Q q = Some Q' \<and> ring Q' q [] \<and> kept Q Q' {q}"
proof -
  obtain Q1 where Q1: "set_next Q q q = Some Q1" "QUEUE_NEXT Q1 = (QUEUE_NEXT Q)(q \<mapsto> q)" "QUEUE_PREV Q1 = QUEUE_PREV Q"
    "dom Q1 = dom Q" using set_next_Some [of Q q q] assms by blast
  have "Q1 q \<noteq> None" using assms Q1(4) by (auto simp: dom_def)
  then obtain Q2 where Q2: "set_prev Q1 q q = Some Q2" "QUEUE_PREV Q2 = (QUEUE_PREV Q1)(q \<mapsto> q)" "QUEUE_NEXT Q2 = QUEUE_NEXT Q1"
    "dom Q2 = dom Q1" using set_prev_Some [of Q1 q q] by blast
  then show ?thesis using Q1 by (auto simp: QUEUE_INIT_def ring_def kept_def)
qed

lemma QUEUE_INSERT_TAIL_ring:
  assumes r: "ring Q h xs" and q: "Q q \<noteq> None" "q \<notin> insert h (set xs)"
  shows "\<exists>Q'. QUEUE_INSERT_TAIL Q h q = Some Q' \<and> ring Q' h (xs @ [q]) \<and> kept Q Q' (insert q (insert h (set xs)))"
proof -
  let ?l = "last (h # xs)"
  have l: "?l \<in> insert h (set xs)" "QUEUE_PREV Q h = Some ?l" using last_in_set [of "h # xs"] ring_last [OF r] by simp_all
  then have ne: "?l \<noteq> q" using q(2) by auto
  have mapped: "q \<in> dom Q" "h \<in> dom Q" "?l \<in> dom Q" using q(1) ring_mapped [OF r] l(1) by auto
  obtain Q1 where Q1: "set_next Q q h = Some Q1" "QUEUE_NEXT Q1 = (QUEUE_NEXT Q)(q \<mapsto> h)" "QUEUE_PREV Q1 = QUEUE_PREV Q"
    "dom Q1 = dom Q" using set_next_Some [of Q q h] q(1) by blast
  have "Q1 q \<noteq> None" using mapped Q1(4) by auto
  then obtain Q2 where Q2: "set_prev Q1 q ?l = Some Q2" "QUEUE_PREV Q2 = (QUEUE_PREV Q1)(q \<mapsto> ?l)" "QUEUE_NEXT Q2 = QUEUE_NEXT Q1"
    "dom Q2 = dom Q1" using set_prev_Some [of Q1 q ?l] by blast
  have "Q2 ?l \<noteq> None" using mapped Q1(4) Q2(4) by auto
  then obtain Q3 where Q3: "set_next Q2 ?l q = Some Q3" "QUEUE_NEXT Q3 = (QUEUE_NEXT Q2)(?l \<mapsto> q)" "QUEUE_PREV Q3 = QUEUE_PREV Q2"
    "dom Q3 = dom Q2" using set_next_Some [of Q2 ?l q] by blast
  have "Q3 h \<noteq> None" using mapped Q1(4) Q2(4) Q3(4) by auto
  then obtain Q4 where Q4: "set_prev Q3 h q = Some Q4" "QUEUE_PREV Q4 = (QUEUE_PREV Q3)(h \<mapsto> q)" "QUEUE_NEXT Q4 = QUEUE_NEXT Q3"
    "dom Q4 = dom Q3" using set_prev_Some [of Q3 h q] by blast
  have run: "QUEUE_INSERT_TAIL Q h q = Some Q4"
    using Q1 Q2 Q3 Q4 l(2) by (simp add: QUEUE_INSERT_TAIL_def set_PREV_NEXT_def)
  have N: "QUEUE_NEXT Q4 = (QUEUE_NEXT Q)(q \<mapsto> h, ?l \<mapsto> q)" and P: "QUEUE_PREV Q4 = (QUEUE_PREV Q)(q \<mapsto> ?l, h \<mapsto> q)"
    using Q1 Q2 Q3 Q4 by simp_all
  let ?b = "butlast (h # xs)"
  have hx: "h # xs = ?b @ [?l]" by simp
  have d: "distinct (h # xs)" using r by (simp add: ring_def)
  have "chain Q (h # xs)" using r chain_append [of Q "?b" ?l "[h]"] hx unfolding ring_def by (metis append_Cons append.assoc append_Nil)
  moreover have "chain Q4 (h # xs) \<longleftrightarrow> chain Q (h # xs)"
  proof (rule chain_cong)
    fix a assume "a \<in> set (butlast (h # xs))"
    moreover from this have "a \<noteq> ?l" using d hx by (metis distinct_append disjoint_iff list.set_intros(1))
    moreover from calculation have "a \<noteq> q" using q(2) in_set_butlastD [of a "h # xs"] by auto
    ultimately show "QUEUE_NEXT Q4 a = QUEUE_NEXT Q a" by (simp add: N)
  next
    fix a assume "a \<in> set (tl (h # xs))"
    then have "a \<noteq> h" "a \<noteq> q" using d q(2) by auto
    then show "QUEUE_PREV Q4 a = QUEUE_PREV Q a" by (simp add: P)
  qed
  ultimately have "chain Q4 (?b @ ?l # [q, h])"
    using ne q(2) hx by (subst chain_append) (simp add: N P)
  then have "chain Q4 (h # (xs @ [q]) @ [h])" using hx by (metis append_Cons append.assoc append_Nil)
  moreover have "distinct (h # xs @ [q])" using d q(2) by auto
  moreover have "kept Q Q4 (insert q (insert h (set xs)))"
    using Q1 Q2 Q3 Q4 l(1) by (auto simp: kept_def N P)
  ultimately show ?thesis using run by (simp add: ring_def)
qed
lemma snoc_last:
  obtains us where "a # xs = us @ [last (a # xs)]"
proof
  show "a # xs = butlast (a # xs) @ [last (a # xs)]" by (rule append_butlast_last_id [symmetric]) simp
qed

lemma ring_split:
  assumes "ring Q h (xs @ q # ys)"
  shows "chain Q (h # xs)" "chain Q (q # ys)" "chain Q (ys @ [h])"
    "QUEUE_NEXT Q (last (h # xs)) = Some q" "QUEUE_PREV Q q = Some (last (h # xs))"
    "QUEUE_NEXT Q q = Some (hd (ys @ [h]))" "QUEUE_PREV Q (hd (ys @ [h])) = Some q"
    "QUEUE_NEXT Q (last (q # ys)) = Some h" "QUEUE_PREV Q h = Some (last (q # ys))"
proof -
  have c: "chain Q ((h # xs) @ q # ys @ [h])" using assms by (simp add: ring_def)
  have c1: "chain Q ((h # xs) @ [q])" and c2: "chain Q (q # ys @ [h])" using c chain_append [of Q "h # xs" q "ys @ [h]"] by simp_all
  obtain us where us: "h # xs = us @ [last (h # xs)]" by (rule snoc_last)
  define p where "p = last (h # xs)"
  have p: "h # xs = us @ [p]" using us by (simp only: p_def)
  have "chain Q (us @ p # [q])" using c1 unfolding p by simp
  then have "chain Q (us @ [p])" "chain Q [p, q]" using chain_append [of Q us p "[q]"] by simp_all
  then show "chain Q (h # xs)" "QUEUE_NEXT Q (last (h # xs)) = Some q" "QUEUE_PREV Q q = Some (last (h # xs))"
    unfolding p by simp_all
  obtain vs where vs: "q # ys = vs @ [last (q # ys)]" by (rule snoc_last)
  define l where "l = last (q # ys)"
  have l: "q # ys = vs @ [l]" using vs by (simp only: l_def)
  have "q # ys @ [h] = vs @ l # [h]" using arg_cong [OF l, of "\<lambda>zs. zs @ [h]"] by simp
  then have "chain Q (vs @ l # [h])" using c2 by (simp only:)
  then have "chain Q (vs @ [l])" "chain Q [l, h]" using chain_append [of Q vs l "[h]"] by simp_all
  then show "chain Q (q # ys)" "QUEUE_NEXT Q (last (q # ys)) = Some h" "QUEUE_PREV Q h = Some (last (q # ys))"
    unfolding l by simp_all
  show "chain Q (ys @ [h])" "QUEUE_NEXT Q q = Some (hd (ys @ [h]))" "QUEUE_PREV Q (hd (ys @ [h])) = Some q"
    using c2 by (cases ys; simp)+
qed

lemma chain_join:
  assumes "chain Q (a # xs)" "chain Q (b # ys)" "QUEUE_NEXT Q (last (a # xs)) = Some b" "QUEUE_PREV Q b = Some (last (a # xs))"
  shows "chain Q ((a # xs) @ b # ys)"
proof -
  obtain us where us: "a # xs = us @ [last (a # xs)]" by (rule snoc_last)
  define p where "p = last (a # xs)"
  have p: "a # xs = us @ [p]" using us by (simp only: p_def)
  then show ?thesis using assms unfolding p using chain_append [of Q us p "b # ys"] by simp
qed

lemma last_notin_butlast: "distinct xs \<Longrightarrow> xs \<noteq> [] \<Longrightarrow> last xs \<notin> set (butlast xs)"
  by (cases xs rule: rev_cases) simp_all

text \<open>A part of a ring is left as it is by writes to other nodes, to the link behind its last node and to
  the link before its first.\<close>

lemma chain_kept:
  assumes "chain Q (a # xs)" "distinct (a # xs)"
    and "\<And>b. b \<in> set (butlast (a # xs)) \<Longrightarrow> b \<noteq> last (a # xs) \<Longrightarrow> QUEUE_NEXT Q' b = QUEUE_NEXT Q b"
    and "\<And>b. b \<in> set xs \<Longrightarrow> b \<noteq> a \<Longrightarrow> QUEUE_PREV Q' b = QUEUE_PREV Q b"
  shows "chain Q' (a # xs)"
proof -
  have "chain Q' (a # xs) \<longleftrightarrow> chain Q (a # xs)"
  proof (rule chain_cong)
    fix b assume "b \<in> set (butlast (a # xs))"
    moreover from this have "b \<noteq> last (a # xs)" using last_notin_butlast [OF assms(2)] by auto
    ultimately show "QUEUE_NEXT Q' b = QUEUE_NEXT Q b" by (rule assms(3))
  next
    fix b assume "b \<in> set (tl (a # xs))"
    then show "QUEUE_PREV Q' b = QUEUE_PREV Q b" using assms(2) by (intro assms(4)) auto
  qed
  then show ?thesis using assms(1) by simp
qed

lemma QUEUE_REMOVE_ring:
  assumes r: "ring Q h (xs @ q # ys)"
  shows "\<exists>Q'. QUEUE_REMOVE Q q = Some Q' \<and> ring Q' h (xs @ ys) \<and> kept Q Q' (insert h (set (xs @ ys)))"
proof -
  let ?p = "last (h # xs)" and ?n = "hd (ys @ [h])"
  note s = ring_split [OF r]
  have p: "?p \<in> insert h (set xs)" "?n \<in> insert h (set ys)" using last_in_set [of "h # xs"] by (simp, cases ys) simp_all
  have d: "distinct (h # xs)" "distinct ys" "h \<notin> set ys" "set xs \<inter> set ys = {}" "q \<notin> insert h (set xs \<union> set ys)"
    using r by (auto simp: ring_def)
  have ne: "?p \<noteq> q" "?n \<noteq> q" using p d(5) by auto
  have mapped: "?p \<in> dom Q" "?n \<in> dom Q" using ring_mapped [OF r] p by auto
  obtain Q1 where Q1: "set_next Q ?p ?n = Some Q1" "QUEUE_NEXT Q1 = (QUEUE_NEXT Q)(?p \<mapsto> ?n)" "QUEUE_PREV Q1 = QUEUE_PREV Q"
    "dom Q1 = dom Q" using set_next_Some [of Q ?p ?n] mapped by blast
  obtain Q2 where Q2: "set_prev Q1 ?n ?p = Some Q2" "QUEUE_PREV Q2 = (QUEUE_PREV Q1)(?n \<mapsto> ?p)" "QUEUE_NEXT Q2 = QUEUE_NEXT Q1"
    "dom Q2 = dom Q1" using set_prev_Some [of Q1 ?n ?p] mapped Q1(4) by blast
  have run: "QUEUE_REMOVE Q q = Some Q2"
    using Q1 Q2 s(5,6) ne by (simp add: QUEUE_REMOVE_def set_PREV_NEXT_def set_NEXT_PREV_def)
  have N: "QUEUE_NEXT Q2 = (QUEUE_NEXT Q)(?p \<mapsto> ?n)" and P: "QUEUE_PREV Q2 = (QUEUE_PREV Q)(?n \<mapsto> ?p)"
    using Q1 Q2 by simp_all
  have "chain Q2 (h # xs)"
    using p(2) d by (intro chain_kept [OF s(1) d(1)]) (auto simp: N P)
  moreover have "chain Q2 (ys @ [h])"
  proof -
    have yh: "ys @ [h] = ?n # tl (ys @ [h])" by (cases ys) simp_all
    have "distinct (ys @ [h])" using d by simp
    then have dn: "distinct (?n # tl (ys @ [h]))" unfolding yh [symmetric] .
    have c: "chain Q (?n # tl (ys @ [h]))" using s(3) unfolding yh [symmetric] .
    have "chain Q2 (?n # tl (ys @ [h]))"
    proof (rule chain_kept [OF c dn])
      fix b assume "b \<in> set (butlast (?n # tl (ys @ [h])))"
      then have "b \<in> set ys" unfolding yh [symmetric] by simp
      then have "b \<noteq> ?p" using p(1) d by auto
      then show "QUEUE_NEXT Q2 b = QUEUE_NEXT Q b" by (simp add: N)
    qed (simp add: P)
    then show ?thesis unfolding yh [symmetric] .
  qed
  ultimately have "chain Q2 ((h # xs) @ ?n # tl (ys @ [h]))"
  proof (intro chain_join)
    show "chain Q2 (ys @ [h]) \<Longrightarrow> chain Q2 (?n # tl (ys @ [h]))" by (cases ys) simp_all
  qed (simp_all add: N P)
  then have "chain Q2 (h # (xs @ ys) @ [h])" by (cases ys) simp_all
  moreover have "kept Q Q2 (insert h (set (xs @ ys)))" using p Q1 Q2 by (auto simp: kept_def)
  ultimately show ?thesis using run d by (auto simp: ring_def)
qed

lemma ring_ends:
  assumes "ring Q h xs"
  shows "chain Q (h # xs)" "chain Q (xs @ [h])"
    "QUEUE_NEXT Q (last (h # xs)) = Some h" "QUEUE_PREV Q (hd (xs @ [h])) = Some h"
proof -
  have c: "chain Q (h # xs @ [h])" using assms by (simp add: ring_def)
  then show "chain Q (xs @ [h])" "QUEUE_PREV Q (hd (xs @ [h])) = Some h" by (cases xs; simp)+
  obtain us where us: "h # xs = us @ [last (h # xs)]" by (rule snoc_last)
  define l where "l = last (h # xs)"
  have l: "h # xs = us @ [l]" using us by (simp only: l_def)
  have "h # xs @ [h] = us @ l # [h]" using arg_cong [OF l, of "\<lambda>zs. zs @ [h]"] by simp
  then have "chain Q (us @ [l])" "chain Q [l, h]" using c chain_append [of Q us l "[h]"] by (simp_all only:)
  then show "chain Q (h # xs)" "QUEUE_NEXT Q (last (h # xs)) = Some h" unfolding l by simp_all
qed

lemma ring_chain:
  assumes "chain Q (h # xs)" "QUEUE_NEXT Q (last (h # xs)) = Some h" "QUEUE_PREV Q h = Some (last (h # xs))"
    "distinct (h # xs)"
  shows "ring Q h xs"
  using chain_join [of Q h xs h "[]"] assms by (simp add: ring_def)

lemma QUEUE_INSERT_HEAD_ring:
  assumes r: "ring Q h xs" and q: "Q q \<noteq> None" "q \<notin> insert h (set xs)"
  shows "\<exists>Q'. QUEUE_INSERT_HEAD Q h q = Some Q' \<and> ring Q' h (q # xs) \<and> kept Q Q' (insert q (insert h (set xs)))"
proof -
  let ?f = "hd (xs @ [h])"
  note e = ring_ends [OF r] ring_first [OF r]
  have f: "?f \<in> insert h (set xs)" by (cases xs) simp_all
  then have ne: "?f \<noteq> q" "q \<noteq> h" using q(2) by auto
  have d: "distinct (h # xs)" using r by (simp add: ring_def)
  have mapped: "q \<in> dom Q" "h \<in> dom Q" "?f \<in> dom Q" using q(1) ring_mapped [OF r] f by auto
  obtain Q1 where Q1: "set_next Q q ?f = Some Q1" "QUEUE_NEXT Q1 = (QUEUE_NEXT Q)(q \<mapsto> ?f)" "QUEUE_PREV Q1 = QUEUE_PREV Q"
    "dom Q1 = dom Q" using set_next_Some [of Q q ?f] mapped by blast
  obtain Q2 where Q2: "set_prev Q1 q h = Some Q2" "QUEUE_PREV Q2 = (QUEUE_PREV Q1)(q \<mapsto> h)" "QUEUE_NEXT Q2 = QUEUE_NEXT Q1"
    "dom Q2 = dom Q1" using set_prev_Some [of Q1 q h] mapped Q1(4) by blast
  obtain Q3 where Q3: "set_prev Q2 ?f q = Some Q3" "QUEUE_PREV Q3 = (QUEUE_PREV Q2)(?f \<mapsto> q)" "QUEUE_NEXT Q3 = QUEUE_NEXT Q2"
    "dom Q3 = dom Q2" using set_prev_Some [of Q2 ?f q] mapped Q1(4) Q2(4) by blast
  obtain Q4 where Q4: "set_next Q3 h q = Some Q4" "QUEUE_NEXT Q4 = (QUEUE_NEXT Q3)(h \<mapsto> q)" "QUEUE_PREV Q4 = QUEUE_PREV Q3"
    "dom Q4 = dom Q3" using set_next_Some [of Q3 h q] mapped Q1(4) Q2(4) Q3(4) by blast
  have run: "QUEUE_INSERT_HEAD Q h q = Some Q4"
    using Q1 Q2 Q3 Q4 e(5) by (simp add: QUEUE_INSERT_HEAD_def set_NEXT_PREV_def)
  have N: "QUEUE_NEXT Q4 = (QUEUE_NEXT Q)(q \<mapsto> ?f, h \<mapsto> q)" and P: "QUEUE_PREV Q4 = (QUEUE_PREV Q)(q \<mapsto> h, ?f \<mapsto> q)"
    using Q1 Q2 Q3 Q4 by simp_all
  have xh: "xs @ [h] = ?f # tl (xs @ [h])" by (cases xs) simp_all
  have dx: "distinct (?f # tl (xs @ [h]))" unfolding xh [symmetric] using d by simp
  have c: "chain Q (?f # tl (xs @ [h]))" using e(2) unfolding xh [symmetric] .
  have "chain Q4 (?f # tl (xs @ [h]))"
  proof (rule chain_kept [OF c dx])
    fix b assume "b \<in> set (butlast (?f # tl (xs @ [h])))"
    then have "b \<in> set xs" unfolding xh [symmetric] by simp
    then show "QUEUE_NEXT Q4 b = QUEUE_NEXT Q b" using q(2) d by (auto simp: N)
  next
    fix b assume "b \<in> set (tl (xs @ [h]))" "b \<noteq> ?f"
    moreover from this have "b \<in> insert h (set xs)" by (cases xs) auto
    ultimately show "QUEUE_PREV Q4 b = QUEUE_PREV Q b" using q(2) by (auto simp: P)
  qed
  moreover have "QUEUE_NEXT Q4 h = Some q" "QUEUE_PREV Q4 q = Some h" "QUEUE_NEXT Q4 q = Some ?f" "QUEUE_PREV Q4 ?f = Some q"
    using ne by (simp_all add: N P)
  ultimately have "chain Q4 (h # q # ?f # tl (xs @ [h]))" by (simp only: chain.simps)
  then have "chain Q4 (h # q # xs @ [h])" unfolding xh [symmetric] .
  moreover have "kept Q Q4 (insert q (insert h (set xs)))" using f Q1 Q2 Q3 Q4 by (auto simp: kept_def)
  ultimately show ?thesis using run d q(2) by (auto simp: ring_def)
qed

lemma QUEUE_SPLIT_ring:
  assumes r: "ring Q h (xs @ q # ys)" and n: "Q n \<noteq> None" "n \<notin> insert h (set (xs @ q # ys))"
  shows "\<exists>Q'. QUEUE_SPLIT Q h q n = Some Q' \<and> ring Q' h xs \<and> ring Q' n (q # ys) \<and>
    kept Q Q' (insert n (insert h (set (xs @ q # ys))))"
proof -
  let ?p = "last (h # xs)" and ?l = "last (q # ys)"
  note s = ring_split [OF r]
  have p: "?p \<in> insert h (set xs)" "?l \<in> insert q (set ys)"
    using last_in_set [of "h # xs"] last_in_set [of "q # ys"] by simp_all
  have d: "distinct (h # xs)" "distinct (q # ys)" "insert h (set xs) \<inter> insert q (set ys) = {}" using r by (auto simp: ring_def)
  have ne: "?p \<noteq> n" "?l \<noteq> n" "q \<noteq> n" "h \<noteq> n" "?p \<noteq> ?l" "?p \<noteq> q" "h \<noteq> q" "?l \<noteq> h" using p d(3) n(2) by auto
  have mapped: "?p \<in> dom Q" "?l \<in> dom Q" "n \<in> dom Q" "h \<in> dom Q" "q \<in> dom Q" using ring_mapped [OF r] p n(1) by auto
  obtain Q1 where Q1: "set_prev Q n ?l = Some Q1" "QUEUE_PREV Q1 = (QUEUE_PREV Q)(n \<mapsto> ?l)" "QUEUE_NEXT Q1 = QUEUE_NEXT Q"
    "dom Q1 = dom Q" using set_prev_Some [of Q n ?l] mapped by blast
  obtain Q2 where Q2: "set_next Q1 ?l n = Some Q2" "QUEUE_NEXT Q2 = (QUEUE_NEXT Q1)(?l \<mapsto> n)" "QUEUE_PREV Q2 = QUEUE_PREV Q1"
    "dom Q2 = dom Q1" using set_next_Some [of Q1 ?l n] mapped Q1(4) by blast
  obtain Q3 where Q3: "set_next Q2 n q = Some Q3" "QUEUE_NEXT Q3 = (QUEUE_NEXT Q2)(n \<mapsto> q)" "QUEUE_PREV Q3 = QUEUE_PREV Q2"
    "dom Q3 = dom Q2" using set_next_Some [of Q2 n q] mapped Q1(4) Q2(4) by blast
  obtain Q4 where Q4: "set_prev Q3 h ?p = Some Q4" "QUEUE_PREV Q4 = (QUEUE_PREV Q3)(h \<mapsto> ?p)" "QUEUE_NEXT Q4 = QUEUE_NEXT Q3"
    "dom Q4 = dom Q3" using set_prev_Some [of Q3 h ?p] mapped Q1(4) Q2(4) Q3(4) by blast
  obtain Q5 where Q5: "set_next Q4 ?p h = Some Q5" "QUEUE_NEXT Q5 = (QUEUE_NEXT Q4)(?p \<mapsto> h)" "QUEUE_PREV Q5 = QUEUE_PREV Q4"
    "dom Q5 = dom Q4" using set_next_Some [of Q4 ?p h] mapped Q1(4) Q2(4) Q3(4) Q4(4) by blast
  obtain Q6 where Q6: "set_prev Q5 q n = Some Q6" "QUEUE_PREV Q6 = (QUEUE_PREV Q5)(q \<mapsto> n)" "QUEUE_NEXT Q6 = QUEUE_NEXT Q5"
    "dom Q6 = dom Q5" using set_prev_Some [of Q5 q n] mapped Q1(4) Q2(4) Q3(4) Q4(4) Q5(4) by blast
  have reads: "QUEUE_PREV Q h = Some ?l" "QUEUE_PREV Q1 n = Some ?l" "QUEUE_PREV Q3 q = Some ?p" "QUEUE_PREV Q4 h = Some ?p"
    using s(5,9) ne Q1(2) Q2(3) Q3(3) Q4(2) by simp_all
  have run: "QUEUE_SPLIT Q h q n = Some Q6"
    unfolding QUEUE_SPLIT_def set_PREV_NEXT_def reads bind.bind_lunit Q1(1) Q2(1) Q3(1) Q4(1) Q5(1) Q6(1) ..
  have N: "QUEUE_NEXT Q6 = (QUEUE_NEXT Q)(?l \<mapsto> n, n \<mapsto> q, ?p \<mapsto> h)"
    and P: "QUEUE_PREV Q6 = (QUEUE_PREV Q)(n \<mapsto> ?l, h \<mapsto> ?p, q \<mapsto> n)"
    unfolding Q1(2,3) Q2(2,3) Q3(2,3) Q4(2,3) Q5(2,3) Q6(2,3) by simp_all
  have notin: "b \<noteq> n \<and> b \<noteq> ?l \<and> b \<noteq> q" if "b \<in> insert h (set xs)" for b
    using that d(3) n(2) p(2) by auto
  have notin': "b \<noteq> n \<and> b \<noteq> ?p \<and> b \<noteq> h" if "b \<in> insert q (set ys)" for b
    using that d(3) n(2) p(1) by auto
  have "chain Q6 (h # xs)"
  proof (rule chain_kept [OF s(1) d(1)])
    fix b assume "b \<in> set (butlast (h # xs))" "b \<noteq> ?p"
    then show "QUEUE_NEXT Q6 b = QUEUE_NEXT Q b" using notin [of b] in_set_butlastD [of b "h # xs"] by (simp add: N)
  next
    fix b assume "b \<in> set xs" "b \<noteq> h"
    then show "QUEUE_PREV Q6 b = QUEUE_PREV Q b" using notin [of b] by (simp add: P)
  qed
  then have "ring Q6 h xs" using d(1) ne by (intro ring_chain) (simp_all add: N P)
  moreover have "ring Q6 n (q # ys)"
  proof (rule ring_chain)
    have "chain Q6 (q # ys)"
    proof (rule chain_kept [OF s(2) d(2)])
      fix b assume "b \<in> set (butlast (q # ys))" "b \<noteq> ?l"
      then show "QUEUE_NEXT Q6 b = QUEUE_NEXT Q b" using notin' [of b] in_set_butlastD [of b "q # ys"] by (simp add: N)
    next
      fix b assume "b \<in> set ys" "b \<noteq> q"
      then show "QUEUE_PREV Q6 b = QUEUE_PREV Q b" using notin' [of b] by (simp add: P)
    qed
    then show "chain Q6 (n # q # ys)" using ne by (simp add: N P)
  qed (use ne d(2) n(2) in \<open>simp_all add: N P\<close>)
  moreover have "kept Q Q6 (insert n (insert h (set (xs @ q # ys))))"
    using p Q1(4) Q2(4) Q3(4) Q4(4) Q5(4) Q6(4) by (auto simp: kept_def N P)
  ultimately show ?thesis using run by blast
qed

lemma QUEUE_MOVE_ring:
  assumes r: "ring Q h xs" and n: "Q n \<noteq> None" "n \<notin> insert h (set xs)"
  shows "\<exists>Q'. QUEUE_MOVE Q h n = Some Q' \<and> ring Q' h [] \<and> ring Q' n xs \<and> kept Q Q' (insert n (insert h (set xs)))"
proof (cases xs)
  case Nil
  obtain Q' where Q': "QUEUE_INIT Q n = Some Q'" "ring Q' n []" "kept Q Q' {n}" using QUEUE_INIT_ring [of Q n] n(1) by blast
  have "ring Q' h []" using kept_ring [OF Q'(3), of h "[]"] r n(2) Nil by simp
  moreover have "kept Q Q' (insert n (insert h (set xs)))" using Q'(3) by (simp add: kept_def)
  ultimately show ?thesis using Q' QUEUE_EMPTY_ring [OF r] Nil by (simp add: QUEUE_MOVE_def)
next
  case (Cons q ys)
  have "ring Q h ([] @ q # ys)" "n \<notin> insert h (set ([] @ q # ys))" using r n(2) Cons by simp_all
  from QUEUE_SPLIT_ring [OF this(1) n(1) this(2)]
  show ?thesis using QUEUE_EMPTY_ring [OF r] QUEUE_HEAD_ring [of Q h q ys] r Cons by (simp add: QUEUE_MOVE_def)
qed

section \<open>Several rings\<close>

text \<open>Disjoint rings, by their heads, and nodes that are in none of them.\<close>

definition rings :: "queues \<Rightarrow> (addr \<rightharpoonup> addr list) \<Rightarrow> bool" where
  "rings Q R \<longleftrightarrow> (\<forall>h xs. R h = Some xs \<longrightarrow> ring Q h xs) \<and>
     (\<forall>h k xs ys. R h = Some xs \<longrightarrow> R k = Some ys \<longrightarrow> h \<noteq> k \<longrightarrow> insert h (set xs) \<inter> insert k (set ys) = {})"

definition outside :: "addr \<Rightarrow> (addr \<rightharpoonup> addr list) \<Rightarrow> bool" where
  "outside q R \<longleftrightarrow> (\<forall>h xs. R h = Some xs \<longrightarrow> q \<notin> insert h (set xs))"

lemma rings_update:
  assumes R: "rings Q R" "R h = Some xs" and k: "kept Q Q' A" "A \<subseteq> B \<union> insert h (set xs)" and B: "\<forall>b \<in> B. outside b R"
    and r: "ring Q' h ys" "set ys \<subseteq> B \<union> insert h (set xs)"
  shows "rings Q' (R(h \<mapsto> ys))"
proof -
  have dis: "insert g (set zs) \<inter> (B \<union> insert h (set xs)) = {}" if "R g = Some zs" "g \<noteq> h" for g zs
  proof -
    have "insert g (set zs) \<inter> insert h (set xs) = {}" using that R unfolding rings_def by blast
    moreover have "insert g (set zs) \<inter> B = {}" using that B unfolding outside_def by blast
    ultimately show ?thesis by blast
  qed
  have "ring Q' g zs" if g: "R g = Some zs" "g \<noteq> h" for g zs
  proof -
    have "insert g (set zs) \<inter> A = {}" using dis [OF g] k(2) by blast
    then have "ring Q' g zs \<longleftrightarrow> ring Q g zs" by (rule kept_ring [OF k(1)])
    then show ?thesis using R(1) g(1) by (simp add: rings_def)
  qed
  moreover have "insert g (set zs) \<inter> insert h (set ys) = {}" if "R g = Some zs" "g \<noteq> h" for g zs
    using dis [OF that] r(2) by blast
  moreover have "insert g (set zs) \<inter> insert f (set ws) = {}" if "R g = Some zs" "R f = Some ws" "g \<noteq> f" for f g zs ws
    using R(1) that by (simp add: rings_def)
  ultimately show ?thesis using r(1) by (auto simp: rings_def Int_commute split: if_splits)
qed

lemma rings_remove:
  assumes "rings Q R" "R h = Some (xs @ q # ys)"
  shows "\<exists>Q'. QUEUE_REMOVE Q q = Some Q' \<and> rings Q' (R(h \<mapsto> xs @ ys)) \<and> dom Q' = dom Q"
proof -
  have r: "ring Q h (xs @ q # ys)" using assms by (simp add: rings_def)
  obtain Q' where Q': "QUEUE_REMOVE Q q = Some Q'" "ring Q' h (xs @ ys)" "kept Q Q' (insert h (set (xs @ ys)))"
    using QUEUE_REMOVE_ring [OF r] by blast
  have "rings Q' (R(h \<mapsto> xs @ ys))" by (rule rings_update [OF assms Q'(3) _ _ Q'(2), where B = "{}"]) auto
  then show ?thesis using Q' by (auto simp: kept_def)
qed

lemma rings_insert_head:
  assumes "rings Q R" "R h = Some xs" "Q q \<noteq> None" "outside q R"
  shows "\<exists>Q'. QUEUE_INSERT_HEAD Q h q = Some Q' \<and> rings Q' (R(h \<mapsto> q # xs)) \<and> dom Q' = dom Q"
proof -
  have r: "ring Q h xs" "q \<notin> insert h (set xs)" using assms by (auto simp: rings_def outside_def)
  obtain Q' where Q': "QUEUE_INSERT_HEAD Q h q = Some Q'" "ring Q' h (q # xs)" "kept Q Q' (insert q (insert h (set xs)))"
    using QUEUE_INSERT_HEAD_ring [OF r(1) assms(3) r(2)] by blast
  have "rings Q' (R(h \<mapsto> q # xs))" by (rule rings_update [OF assms(1,2) Q'(3) _ _ Q'(2), where B = "{q}"]) (use assms(4) in auto)
  then show ?thesis using Q' by (auto simp: kept_def)
qed

lemma rings_insert_tail:
  assumes "rings Q R" "R h = Some xs" "Q q \<noteq> None" "outside q R"
  shows "\<exists>Q'. QUEUE_INSERT_TAIL Q h q = Some Q' \<and> rings Q' (R(h \<mapsto> xs @ [q])) \<and> dom Q' = dom Q"
proof -
  have r: "ring Q h xs" "q \<notin> insert h (set xs)" using assms by (auto simp: rings_def outside_def)
  obtain Q' where Q': "QUEUE_INSERT_TAIL Q h q = Some Q'" "ring Q' h (xs @ [q])" "kept Q Q' (insert q (insert h (set xs)))"
    using QUEUE_INSERT_TAIL_ring [OF r(1) assms(3) r(2)] by blast
  have "rings Q' (R(h \<mapsto> xs @ [q]))" by (rule rings_update [OF assms(1,2) Q'(3) _ _ Q'(2), where B = "{q}"]) (use assms(4) in auto)
  then show ?thesis using Q' by (auto simp: kept_def)
qed

lemma rings_move:
  assumes R: "rings Q R" "R h = Some xs" and n: "Q n \<noteq> None" "outside n R"
  shows "\<exists>Q'. QUEUE_MOVE Q h n = Some Q' \<and> rings Q' (R(h \<mapsto> [], n \<mapsto> xs)) \<and> dom Q' = dom Q"
proof -
  have r: "ring Q h xs" "n \<notin> insert h (set xs)" using assms by (auto simp: rings_def outside_def)
  obtain Q' where Q': "QUEUE_MOVE Q h n = Some Q'" "ring Q' h []" "ring Q' n xs" "kept Q Q' (insert n (insert h (set xs)))"
    using QUEUE_MOVE_ring [OF r(1) n(1) r(2)] by blast
  have other: "insert g (set zs) \<inter> insert n (insert h (set xs)) = {}" if "R g = Some zs" "g \<noteq> h" for g zs
  proof -
    have "insert g (set zs) \<inter> insert h (set xs) = {}" using that R unfolding rings_def by blast
    moreover have "n \<notin> insert g (set zs)" using that n(2) unfolding outside_def by blast
    ultimately show ?thesis by blast
  qed
  have "ring Q' g zs" if g: "R g = Some zs" "g \<noteq> h" for g zs
    using kept_ring [OF Q'(4) other [OF g]] R(1) g(1) by (simp add: rings_def)
  moreover have "insert g (set zs) \<inter> insert f (set ws) = {}" if "R g = Some zs" "R f = Some ws" "g \<noteq> f" for f g zs ws
    using R(1) that by (simp add: rings_def)
  moreover have "h \<notin> set xs" using r(1) by (simp add: ring_def)
  ultimately have "rings Q' (R(h \<mapsto> [], n \<mapsto> xs))"
    using Q'(2,3) r(2) other unfolding rings_def by (auto simp: Int_commute split: if_splits)
  then show ?thesis using Q' by (auto simp: kept_def)
qed

end
