(* ===== verification/Uv_Loop.thy ===== *)
theory Uv_Loop
  imports Uv_Heap Uv_Queue
begin

text \<open>
  The event loop of libuv: handles and their flags (\<^verbatim>\<open>src/uv-common.h\<close>, \<^verbatim>\<open>src/uv-common.c\<close>,
  \<^verbatim>\<open>src/unix/core.c\<close>) and timers (\<^verbatim>\<open>src/timer.c\<close>). A callback is a function of the state of the loop and of a user's state
  \<open>'u\<close>, which may use any operation of the loop.
\<close>

section \<open>Handles and the loop\<close>

datatype uv_handle_type =
    UV_UNKNOWN_HANDLE | UV_ASYNC | UV_CHECK | UV_FS_EVENT | UV_FS_POLL | UV_HANDLE | UV_IDLE | UV_NAMED_PIPE
  | UV_POLL | UV_PREPARE | UV_PROCESS | UV_STREAM | UV_TCP | UV_TIMER | UV_TTY | UV_UDP | UV_SIGNAL | UV_FILE

text \<open>\<open>uv_handle_t\<close> with what a timer or a watcher adds: its callback, and the times of a timer.\<close>

record uv_handle =
  handle_type :: uv_handle_type
  handle_flags :: u32
  handle_cb :: addr
  close_cb :: addr
  next_closing :: addr
  timeout :: u64
  timer_repeat :: u64
  start_id :: u64

text \<open>
  \<open>uv__io_t\<close>, the watcher of a file descriptor, and \<open>struct kevent\<close>, an event of the kernel or a change of what it
  watches.
\<close>

record uv__io =
  io_cb :: addr
  io_pevents :: u32
  io_events :: u32
  io_fd :: int
  rcount :: u32
  wcount :: u32

record kernel_event =
  ev_ident :: u64
  ev_filter :: int
  ev_flags :: "16 word"
  ev_fflags :: u32
  ev_data :: u64

text \<open>
  The loop with the memory of its handles and of its I/O watchers. \<open>handle_queue\<close>, \<open>pending_queue\<close>,
  \<open>watcher_queue\<close> and \<open>watchers_at\<close> are the addresses of the queue heads in the structure, \<open>signal_io_watcher\<close> that
  of the watcher in it. \<open>io_watchers\<close> is the array \<open>watchers\<close>, of \<open>nwatchers\<close> addresses indexed by file
  descriptor; the two entries the code appends to it for the events that are being dispatched, a pointer to the array
  and its size, are \<open>polled\<close>, with the contents of the array.
\<close>

record uv_loop =
  loop_time :: u64
  stop_flag :: u32
  active_handles :: u32
  active_reqs :: u32
  closing_handles :: addr
  timer_counter :: u64
  timer_heap :: heap
  handles :: "addr \<rightharpoonup> uv_handle"
  queues_of :: queues
  handle_queue :: addr
  pending_queue :: addr
  watchers_at :: "uv_handle_type \<Rightarrow> addr"
  loop_flags :: u64
  backend_fd :: int
  ios :: "addr \<rightharpoonup> uv__io"
  watcher_queue :: addr
  io_watchers :: "addr list"
  polled :: "kernel_event list option"
  nfds :: u32
  signal_io_watcher :: addr

text \<open>\<open>offsetof\<close> for the queue node of a handle, the heap node of a timer and the queue node of a watcher.\<close>

definition HANDLE_QUEUE :: addr where "HANDLE_QUEUE = 32"
definition HEAP_NODE :: addr where "HEAP_NODE = 104"
definition WATCHER_QUEUE :: addr where "WATCHER_QUEUE = 104"

definition UV_HANDLE_CLOSING :: u32 where "UV_HANDLE_CLOSING = 0x00000001"
definition UV_HANDLE_CLOSED :: u32 where "UV_HANDLE_CLOSED = 0x00000002"
definition UV_HANDLE_ACTIVE :: u32 where "UV_HANDLE_ACTIVE = 0x00000004"
definition UV_HANDLE_REF :: u32 where "UV_HANDLE_REF = 0x00000008"
definition UV_HANDLE_INTERNAL :: u32 where "UV_HANDLE_INTERNAL = 0x00000010"

definition UV_EINVAL :: int where "UV_EINVAL = - 22"

definition uv__is_active :: "uv_handle \<Rightarrow> bool" where
  "uv__is_active t \<longleftrightarrow> handle_flags t AND UV_HANDLE_ACTIVE \<noteq> 0"

definition uv__is_closing :: "uv_handle \<Rightarrow> bool" where
  "uv__is_closing t \<longleftrightarrow> handle_flags t AND (UV_HANDLE_CLOSING OR UV_HANDLE_CLOSED) \<noteq> 0"

definition uv__has_ref :: "uv_handle \<Rightarrow> bool" where
  "uv__has_ref t \<longleftrightarrow> handle_flags t AND UV_HANDLE_REF \<noteq> 0"

definition set_handle :: "uv_loop \<Rightarrow> addr \<Rightarrow> uv_handle \<Rightarrow> uv_loop" where
  "set_handle L h t = L\<lparr>handles := (handles L)(h \<mapsto> t)\<rparr>"

definition set_flags :: "uv_loop \<Rightarrow> addr \<Rightarrow> u32 \<Rightarrow> uv_loop option" where
  "set_flags L h fl = do { t \<leftarrow> handles L h; Some (set_handle L h (t\<lparr>handle_flags := fl\<rparr>)) }"

definition uv__active_handle_add :: "uv_loop \<Rightarrow> uv_loop" where
  "uv__active_handle_add L = L\<lparr>active_handles := active_handles L + 1\<rparr>"

definition uv__active_handle_rm :: "uv_loop \<Rightarrow> uv_loop" where
  "uv__active_handle_rm L = L\<lparr>active_handles := active_handles L - 1\<rparr>"

definition uv__handle_start :: "uv_loop \<Rightarrow> addr \<Rightarrow> uv_loop option" where
  "uv__handle_start L h = do {
     t \<leftarrow> handles L h;
     if uv__is_active t then Some L
     else do {
       L \<leftarrow> set_flags L h (handle_flags t OR UV_HANDLE_ACTIVE);
       Some (if uv__has_ref t then uv__active_handle_add L else L) } }"

definition uv__handle_stop :: "uv_loop \<Rightarrow> addr \<Rightarrow> uv_loop option" where
  "uv__handle_stop L h = do {
     t \<leftarrow> handles L h;
     if \<not> uv__is_active t then Some L
     else do {
       L \<leftarrow> set_flags L h (handle_flags t AND NOT UV_HANDLE_ACTIVE);
       Some (if uv__has_ref t then uv__active_handle_rm L else L) } }"

definition uv__handle_ref :: "uv_loop \<Rightarrow> addr \<Rightarrow> uv_loop option" where
  "uv__handle_ref L h = do {
     t \<leftarrow> handles L h;
     if uv__has_ref t then Some L
     else do {
       L \<leftarrow> set_flags L h (handle_flags t OR UV_HANDLE_REF);
       Some (if handle_flags t AND UV_HANDLE_CLOSING = 0 \<and> uv__is_active t then uv__active_handle_add L else L) } }"

definition uv__handle_unref :: "uv_loop \<Rightarrow> addr \<Rightarrow> uv_loop option" where
  "uv__handle_unref L h = do {
     t \<leftarrow> handles L h;
     if \<not> uv__has_ref t then Some L
     else do {
       L \<leftarrow> set_flags L h (handle_flags t AND NOT UV_HANDLE_REF);
       Some (if handle_flags t AND UV_HANDLE_CLOSING = 0 \<and> uv__is_active t then uv__active_handle_rm L else L) } }"

definition uv__handle_init :: "uv_loop \<Rightarrow> addr \<Rightarrow> uv_handle_type \<Rightarrow> uv_loop option" where
  "uv__handle_init L h ty = do {
     t \<leftarrow> handles L h;
     Q \<leftarrow> QUEUE_INSERT_TAIL (queues_of L) (handle_queue L) (h + HANDLE_QUEUE);
     Some (set_handle (L\<lparr>queues_of := Q\<rparr>) h
       (t\<lparr>handle_type := ty, handle_flags := UV_HANDLE_REF, next_closing := 0\<rparr>)) }"

section \<open>Timers\<close>

definition timer_less_than :: "(addr \<rightharpoonup> uv_handle) \<Rightarrow> comparison" where
  "timer_less_than H ha hb = do {
     a \<leftarrow> H (ha - HEAP_NODE);
     b \<leftarrow> H (hb - HEAP_NODE);
     Some
       (if timeout a < timeout b then True
        else if timeout b < timeout a then False
        else start_id a < start_id b) }"

definition uv_timer_init :: "uv_loop \<Rightarrow> addr \<Rightarrow> (int \<times> uv_loop) option" where
  "uv_timer_init L h = do {
     L \<leftarrow> uv__handle_init L h UV_TIMER;
     t \<leftarrow> handles L h;
     Some (0, set_handle L h (t\<lparr>handle_cb := 0, timer_repeat := 0\<rparr>)) }"

definition uv_timer_stop :: "uv_loop \<Rightarrow> addr \<Rightarrow> (int \<times> uv_loop) option" where
  "uv_timer_stop L h = do {
     t \<leftarrow> handles L h;
     if \<not> uv__is_active t then Some (0, L)
     else do {
       hp \<leftarrow> heap_remove (timer_less_than (handles L)) (timer_heap L) (h + HEAP_NODE);
       L \<leftarrow> uv__handle_stop (L\<lparr>timer_heap := hp\<rparr>) h;
       Some (0, L) } }"

definition uv_timer_start :: "uv_loop \<Rightarrow> addr \<Rightarrow> addr \<Rightarrow> u64 \<Rightarrow> u64 \<Rightarrow> (int \<times> uv_loop) option" where
  "uv_timer_start L h cb timeout_ms repeat_ms = do {
     t \<leftarrow> handles L h;
     if uv__is_closing t \<or> cb = 0 then Some (UV_EINVAL, L)
     else do {
       (_, L) \<leftarrow> (if uv__is_active t then uv_timer_stop L h else Some (0, L));
       let clamped_timeout = loop_time L + timeout_ms;
       let clamped_timeout = (if clamped_timeout < timeout_ms then - 1 else clamped_timeout);
       t \<leftarrow> handles L h;
       let L = set_handle L h (t\<lparr>handle_cb := cb, timeout := clamped_timeout, timer_repeat := repeat_ms,
                                start_id := timer_counter L\<rparr>);
       let L = L\<lparr>timer_counter := timer_counter L + 1\<rparr>;
       hp \<leftarrow> heap_insert (timer_less_than (handles L)) (timer_heap L) (h + HEAP_NODE);
       L \<leftarrow> uv__handle_start (L\<lparr>timer_heap := hp\<rparr>) h;
       Some (0, L) } }"

definition uv_timer_again :: "uv_loop \<Rightarrow> addr \<Rightarrow> (int \<times> uv_loop) option" where
  "uv_timer_again L h = do {
     t \<leftarrow> handles L h;
     if handle_cb t = 0 then Some (UV_EINVAL, L)
     else if timer_repeat t \<noteq> 0
     then do {
       (_, L) \<leftarrow> uv_timer_stop L h;
       t \<leftarrow> handles L h;
       (_, L) \<leftarrow> uv_timer_start L h (handle_cb t) (timer_repeat t) (timer_repeat t);
       Some (0, L) }
     else Some (0, L) }"

definition uv_timer_set_repeat :: "uv_loop \<Rightarrow> addr \<Rightarrow> u64 \<Rightarrow> uv_loop option" where
  "uv_timer_set_repeat L h repeat_ms = do { t \<leftarrow> handles L h; Some (set_handle L h (t\<lparr>timer_repeat := repeat_ms\<rparr>)) }"

definition uv_timer_get_repeat :: "uv_loop \<Rightarrow> addr \<Rightarrow> u64 option" where
  "uv_timer_get_repeat L h = map_option timer_repeat (handles L h)"

definition INT_MAX :: u64 where "INT_MAX = 0x7FFFFFFF"

definition uv__next_timeout :: "uv_loop \<Rightarrow> int option" where
  "uv__next_timeout L =
     (let heap_node = heap_min (timer_heap L) in
      if heap_node = 0 then Some (- 1)
      else do {
        t \<leftarrow> handles L (heap_node - HEAP_NODE);
        if timeout t \<le> loop_time L then Some 0
        else
          let diff = timeout t - loop_time L in
          Some (uint (if INT_MAX < diff then INT_MAX else diff)) })"

type_synonym 'u world = "uv_loop \<times> 'u"
type_synonym 'u callback = "addr \<Rightarrow> addr \<Rightarrow> 'u world \<Rightarrow> 'u world option"

partial_function (option) uv__run_timers :: "'u callback \<Rightarrow> 'u world \<Rightarrow> 'u world option" where
  "uv__run_timers call w = do {
     let (L, u) = w;
     let heap_node = heap_min (timer_heap L);
     if heap_node = 0 then Some w
     else do {
       let h = heap_node - HEAP_NODE;
       t \<leftarrow> handles L h;
       if loop_time L < timeout t then Some w
       else do {
         (_, L) \<leftarrow> uv_timer_stop L h;
         (_, L) \<leftarrow> uv_timer_again L h;
         t \<leftarrow> handles L h;
         w \<leftarrow> call (handle_cb t) h (L, u);
         uv__run_timers call w } } }"

definition uv__timer_close :: "uv_loop \<Rightarrow> addr \<Rightarrow> uv_loop option" where
  "uv__timer_close L h = map_option snd (uv_timer_stop L h)"

end
