(* ===== verification/Uv_Timers.thy ===== *)
theory Uv_Timers
  imports Uv_Loop
begin

text \<open>
  What the timers of \<^verbatim>\<open>src/timer.c\<close> do to the loop: the invariant that ties the heap, the flags of the
  handles and the count of active handles together, and the table of pending timers that the
  operations update.
\<close>

section \<open>The order of timers\<close>

definition timer_key :: "(addr \<rightharpoonup> uv_handle) \<Rightarrow> addr \<Rightarrow> u64 \<times> u64" where
  "timer_key H a = (case H (a - HEAP_NODE) of None \<Rightarrow> (0, 0) | Some t \<Rightarrow> (timeout t, start_id t))"

definition timer_lt :: "(addr \<rightharpoonup> uv_handle) \<Rightarrow> addr \<Rightarrow> addr \<Rightarrow> bool" where
  "timer_lt H a b \<longleftrightarrow>
     fst (timer_key H a) < fst (timer_key H b) \<or>
     fst (timer_key H a) = fst (timer_key H b) \<and> snd (timer_key H a) < snd (timer_key H b)"

interpretation timers: heap_order "timer_lt H" for H
  by unfold_locales (auto simp: timer_lt_def)

lemma timer_less_than_lt:
  "H (a - HEAP_NODE) \<noteq> None \<Longrightarrow> H (b - HEAP_NODE) \<noteq> None \<Longrightarrow> timer_less_than H a b = Some (timer_lt H a b)"
  by (auto simp: timer_less_than_def timer_lt_def timer_key_def)

lemma ordered_keys:
  assumes "ordered (timer_lt H) xs" "\<And>a. a \<in> set xs \<Longrightarrow> timer_key H' a = timer_key H a"
  shows "ordered (timer_lt H') xs"
  unfolding ordered_def below_def
proof (intro allI impI)
  fix q assume q: "1 < q \<and> q \<le> length xs"
  have "entry xs q \<in> set xs" "entry xs (q div 2) \<in> set xs" using q by (auto intro: entry_mem)
  then show "\<not> timer_lt H' (entry xs q) (entry xs (q div 2))"
    using assms q by (simp add: ordered_def below_def timer_lt_def)
qed

section \<open>The invariant of the loop\<close>

definition active_timers :: "uv_loop \<Rightarrow> addr set" where
  "active_timers L = {h. \<exists>t. handles L h = Some t \<and> handle_type t = UV_TIMER \<and> uv__is_active t}"

text \<open>The handles that keep the loop alive.\<close>

definition counted :: "uv_loop \<Rightarrow> addr set" where
  "counted L = {h. \<exists>t. handles L h = Some t \<and> uv__is_active t \<and> uv__has_ref t}"

definition heap_ok :: "uv_loop \<Rightarrow> bool" where
  "heap_ok L \<longleftrightarrow> (\<exists>xs. linked (timer_heap L) xs \<and> ordered (timer_lt (handles L)) xs \<and>
     set xs = (\<lambda>h. h + HEAP_NODE) ` active_timers L)"

definition timer_ok :: "uv_loop \<Rightarrow> addr \<Rightarrow> uv_handle \<Rightarrow> bool" where
  "timer_ok L h t \<longleftrightarrow> h + HEAP_NODE \<noteq> 0 \<and> nodes (timer_heap L) (h + HEAP_NODE) \<noteq> None \<and>
     (uv__is_active t \<longrightarrow> handle_cb t \<noteq> 0 \<and> \<not> uv__is_closing t \<and> start_id t < timer_counter L)"

definition loop_ok :: "uv_loop \<Rightarrow> bool" where
  "loop_ok L \<longleftrightarrow> finite (dom (handles L)) \<and> card (dom (handles L)) < 2 ^ 32 - 1 \<and> heap_ok L \<and>
     (\<forall>h t. handles L h = Some t \<and> handle_type t = UV_TIMER \<longrightarrow> timer_ok L h t) \<and>
     inj_on (\<lambda>h. map_option start_id (handles L h)) (active_timers L) \<and>
     active_handles L = of_nat (card (counted L))"

text \<open>
  What a timer is to its user: its callback, its interval, when it is due (the time, and its turn among
  timers of the same time), and whether it is being closed.
\<close>

record timer_state =
  action :: addr
  interval :: u64
  deadline :: "(u64 \<times> u64) option"
  closed :: bool

definition state_of :: "uv_handle \<Rightarrow> timer_state" where
  "state_of t =
     \<lparr>action = handle_cb t, interval = timer_repeat t,
      deadline = (if uv__is_active t then Some (timeout t, start_id t) else None), closed = uv__is_closing t\<rparr>"

definition timers_of :: "uv_loop \<Rightarrow> addr \<rightharpoonup> timer_state" where
  "timers_of L h =
     (case handles L h of None \<Rightarrow> None | Some t \<Rightarrow> if handle_type t = UV_TIMER then Some (state_of t) else None)"

lemma active_timers_dom: "active_timers L \<subseteq> dom (handles L)" "counted L \<subseteq> dom (handles L)"
  by (auto simp: active_timers_def counted_def)

lemma active_timers_deadline: "h \<in> active_timers L \<longleftrightarrow> (\<exists>s. timers_of L h = Some s \<and> deadline s \<noteq> None)"
  by (auto simp: timers_of_def active_timers_def state_of_def split: option.splits if_splits)

lemma active_flags:
  "uv__is_active (t\<lparr>handle_flags := f OR UV_HANDLE_ACTIVE\<rparr>)"
  "\<not> uv__is_active (t\<lparr>handle_flags := f AND NOT UV_HANDLE_ACTIVE\<rparr>)"
  "uv__has_ref (t\<lparr>handle_flags := handle_flags t OR UV_HANDLE_ACTIVE\<rparr>) = uv__has_ref t"
  "uv__has_ref (t\<lparr>handle_flags := handle_flags t AND NOT UV_HANDLE_ACTIVE\<rparr>) = uv__has_ref t"
  "uv__is_closing (t\<lparr>handle_flags := handle_flags t OR UV_HANDLE_ACTIVE\<rparr>) = uv__is_closing t"
  "uv__is_closing (t\<lparr>handle_flags := handle_flags t AND NOT UV_HANDLE_ACTIVE\<rparr>) = uv__is_closing t"
proof -
  have mask: "(x OR k) AND m = x AND m" "(x AND NOT k) AND m = x AND m" if "m AND k = 0" for x k m :: u32
  proof -
    have "\<not> (bit m b \<and> bit k b)" for b using that by (metis bit_0_eq bit_and_iff bot_apply bot_bool_def)
    then show "(x OR k) AND m = x AND m" "(x AND NOT k) AND m = x AND m"
      by (auto intro!: bit_word_eqI simp: bit_or_iff bit_and_iff bit_not_iff)
  qed
  have self: "(x OR k) AND k = k" "(x AND NOT k) AND k = 0" for x k :: u32
    by (rule bit_word_eqI; auto simp: bit_or_iff bit_and_iff bit_not_iff)+
  show "uv__is_active (t\<lparr>handle_flags := f OR UV_HANDLE_ACTIVE\<rparr>)"
    using self(1) [of f UV_HANDLE_ACTIVE] by (simp add: uv__is_active_def) (simp add: UV_HANDLE_ACTIVE_def)
  show "\<not> uv__is_active (t\<lparr>handle_flags := f AND NOT UV_HANDLE_ACTIVE\<rparr>)"
    using self(2) [of f UV_HANDLE_ACTIVE] by (simp add: uv__is_active_def)
  have m: "UV_HANDLE_REF AND UV_HANDLE_ACTIVE = 0" "(UV_HANDLE_CLOSING OR UV_HANDLE_CLOSED) AND UV_HANDLE_ACTIVE = 0"
    by (simp_all add: UV_HANDLE_REF_def UV_HANDLE_ACTIVE_def UV_HANDLE_CLOSING_def UV_HANDLE_CLOSED_def)
  show "uv__has_ref (t\<lparr>handle_flags := handle_flags t OR UV_HANDLE_ACTIVE\<rparr>) = uv__has_ref t"
    "uv__has_ref (t\<lparr>handle_flags := handle_flags t AND NOT UV_HANDLE_ACTIVE\<rparr>) = uv__has_ref t"
    by (simp_all add: uv__has_ref_def mask [OF m(1)])
  show "uv__is_closing (t\<lparr>handle_flags := handle_flags t OR UV_HANDLE_ACTIVE\<rparr>) = uv__is_closing t"
    "uv__is_closing (t\<lparr>handle_flags := handle_flags t AND NOT UV_HANDLE_ACTIVE\<rparr>) = uv__is_closing t"
    by (simp_all add: uv__is_closing_def mask [OF m(2)])
qed

lemma heap_okE:
  assumes "loop_ok L"
  obtains xs where "linked (timer_heap L) xs" "ordered (timer_lt (handles L)) xs"
    "set xs = (\<lambda>h. h + HEAP_NODE) ` active_timers L" "length xs < 2 ^ 32 - 1" "length xs = card (active_timers L)"
proof -
  obtain xs where xs: "linked (timer_heap L) xs" "ordered (timer_lt (handles L)) xs"
      "set xs = (\<lambda>h. h + HEAP_NODE) ` active_timers L"
    using assms unfolding loop_ok_def heap_ok_def by blast
  have "length xs = card (set xs)" using xs(1) by (simp add: linked_def nodes_ok_def distinct_card)
  also have "\<dots> = card (active_timers L)" unfolding xs(3) by (rule card_image) (simp add: inj_on_def)
  finally have len: "length xs = card (active_timers L)" .
  also have "\<dots> \<le> card (dom (handles L))"
    using assms active_timers_dom(1) by (intro card_mono) (simp_all add: loop_ok_def)
  also have "\<dots> < 2 ^ 32 - 1" using assms by (simp add: loop_ok_def)
  finally show thesis by (intro that [OF xs _ len])
qed

lemma in_nodes: "h + HEAP_NODE \<in> (\<lambda>h. h + HEAP_NODE) ` A \<longleftrightarrow> h \<in> A" for h :: addr
  by auto

lemma timer_compare:
  assumes "a \<in> (\<lambda>h. h + HEAP_NODE) ` A" "b \<in> (\<lambda>h. h + HEAP_NODE) ` A" "A \<subseteq> dom H"
  shows "timer_less_than H a b = Some (timer_lt H a b)"
  using assms by (intro timer_less_than_lt) auto

lemma timer_key_update: "a \<noteq> h + HEAP_NODE \<Longrightarrow> timer_key (H(h \<mapsto> t)) a = timer_key H a"
  by (auto simp: timer_key_def)

lemma u32_count_remove: "finite A \<Longrightarrow> h \<in> A \<Longrightarrow> of_nat (card (A - {h})) = (of_nat (card A) - 1 :: u32)"
  by (metis add_diff_cancel_left' card.remove of_nat_Suc)

lemma u32_count_insert: "finite A \<Longrightarrow> h \<notin> A \<Longrightarrow> of_nat (card (insert h A)) = (of_nat (card A) + 1 :: u32)"
  by (simp add: add.commute)

abbreviation deactivated :: "uv_handle \<Rightarrow> uv_handle" where
  "deactivated t \<equiv> t\<lparr>handle_flags := handle_flags t AND NOT UV_HANDLE_ACTIVE\<rparr>"

lemma uv_timer_stop_active:
  assumes ok: "loop_ok L" and h: "handles L h = Some t" "handle_type t = UV_TIMER" "uv__is_active t"
  shows "\<exists>hp n. uv_timer_stop L h =
      Some (0, L\<lparr>timer_heap := hp, handles := (handles L)(h \<mapsto> deactivated t), active_handles := n\<rparr>) \<and>
    loop_ok (L\<lparr>timer_heap := hp, handles := (handles L)(h \<mapsto> deactivated t), active_handles := n\<rparr>)"
proof -
  obtain xs where xs: "linked (timer_heap L) xs" "ordered (timer_lt (handles L)) xs"
    "set xs = (\<lambda>h. h + HEAP_NODE) ` active_timers L" "length xs < 2 ^ 32 - 1" by (rule heap_okE [OF ok])
  have ha: "h \<in> active_timers L" using h by (simp add: active_timers_def)
  have in_xs: "h + HEAP_NODE \<in> set xs" using ha by (simp add: xs(3))
  have cmp: "timer_less_than (handles L) a b = Some (timer_lt (handles L) a b)" if "a \<in> set xs" "b \<in> set xs" for a b
    using timer_compare that active_timers_dom(1) unfolding xs(3) by blast
  have "length xs < 2 ^ 32" using xs(4) by simp
  from timers.heap_remove_linked [OF xs(1,2) in_xs this cmp]
  obtain hp ys where hp: "heap_remove (timer_less_than (handles L)) (timer_heap L) (h + HEAP_NODE) = Some hp"
      "linked hp ys" "set ys = set xs - {h + HEAP_NODE}" "ordered (timer_lt (handles L)) ys"
      "\<forall>b. b \<notin> set xs \<longrightarrow> nodes hp b = nodes (timer_heap L) b" "nodes hp (h + HEAP_NODE) \<noteq> None" by blast
  let ?n = "if uv__has_ref t then active_handles L - 1 else active_handles L"
  let ?H = "(handles L)(h \<mapsto> deactivated t)"
  let ?L = "L\<lparr>timer_heap := hp, handles := ?H, active_handles := ?n\<rparr>"
  have "uv_timer_stop L h = Some (0, ?L)"
    using h hp(1) by (simp add: uv_timer_stop_def uv__handle_stop_def set_flags_def set_handle_def uv__active_handle_rm_def)
  moreover have "loop_ok ?L"
    unfolding loop_ok_def
  proof (intro conjI allI impI)
    have dom: "dom ?H = dom (handles L)" using h(1) by auto
    show "finite (dom (handles ?L))" "card (dom (handles ?L)) < 2 ^ 32 - 1" using ok dom by (simp_all add: loop_ok_def)
    have act: "active_timers ?L = active_timers L - {h}"
      by (auto simp: active_timers_def active_flags)
    have keys: "timer_key ?H a = timer_key (handles L) a" for a
      using h(1) by (auto simp: timer_key_def)
    have "set ys = (\<lambda>h. h + HEAP_NODE) ` active_timers ?L" unfolding hp(3) xs(3) act by auto
    moreover have "ordered (timer_lt ?H) ys" by (rule ordered_keys [OF hp(4) keys])
    ultimately show "heap_ok ?L" using hp(2) unfolding heap_ok_def by auto
    have mapped: "nodes hp b \<noteq> None" if "nodes (timer_heap L) b \<noteq> None" for b
    proof (cases "b \<in> set ys")
      case True
      then obtain q where "0 < q" "q \<le> length ys" "b = entry ys q" using mem_entry by blast
      then show ?thesis using hp(2) by (simp add: linked_def)
    next
      case False
      then show ?thesis using hp(3,5,6) that by (cases "b = h + HEAP_NODE") auto
    qed
    fix g s assume gs: "handles ?L g = Some s \<and> handle_type s = UV_TIMER"
    show "timer_ok ?L g s"
    proof (cases "g = h")
      case True
      then have "timer_ok L h t" using ok h by (simp add: loop_ok_def)
      then show ?thesis using True gs mapped by (auto simp: timer_ok_def active_flags)
    next
      case False
      then have "timer_ok L g s" using ok gs by (simp add: loop_ok_def)
      then show ?thesis using mapped by (simp add: timer_ok_def)
    qed
  next
    have act: "active_timers ?L = active_timers L - {h}"
      by (auto simp: active_timers_def active_flags)
    have "inj_on (\<lambda>g. map_option start_id (handles L g)) (active_timers L)" using ok by (simp add: loop_ok_def)
    then have "inj_on (\<lambda>g. map_option start_id (handles L g)) (active_timers L - {h})" by (rule inj_on_subset) blast
    then show "inj_on (\<lambda>h. map_option start_id (handles ?L h)) (active_timers ?L)"
      unfolding act by (rule inj_on_cong [THEN iffD1, rotated]) auto
    have cnt: "counted ?L = counted L - {h}" by (auto simp: counted_def active_flags)
    have fin: "finite (counted L)" by (rule finite_subset [OF active_timers_dom(2)]) (use ok in \<open>simp add: loop_ok_def\<close>)
    have n: "active_handles L = of_nat (card (counted L))" using ok by (simp add: loop_ok_def)
    show "active_handles ?L = of_nat (card (counted ?L))"
    proof (cases "uv__has_ref t")
      case True
      then have "h \<in> counted L" using h by (simp add: counted_def)
      then show ?thesis using True u32_count_remove [OF fin] n unfolding cnt by simp
    next
      case False
      then have "h \<notin> counted L" using h by (simp add: counted_def)
      then show ?thesis using False n unfolding cnt by simp
    qed
  qed
  ultimately show ?thesis by blast
qed
lemma timers_stop:
  "handle_type t = UV_TIMER \<Longrightarrow>
   timers_of (L\<lparr>timer_heap := hp, handles := (handles L)(h \<mapsto> deactivated t), active_handles := n\<rparr>) =
     (timers_of L)(h \<mapsto> (state_of t)\<lparr>deadline := None\<rparr>)"
  by (auto simp: timers_of_def state_of_def active_flags fun_eq_iff)

definition due_time :: "u64 \<Rightarrow> u64 \<Rightarrow> u64" where
  "due_time now delay = (if now + delay < delay then - 1 else now + delay)"

lemma unat_max64: "unat (- 1 :: u64) = 2 ^ 64 - 1"
proof -
  have "(- 1 :: u64) = 0xFFFFFFFFFFFFFFFF" by simp
  moreover have "unat (0xFFFFFFFFFFFFFFFF :: u64) = 2 ^ 64 - 1" by simp
  ultimately show ?thesis by (simp only:)
qed

lemma u64_less_succ: "c < - 1 \<Longrightarrow> c < c + 1" for c :: u64
proof -
  assume "c < - 1"
  then have "unat c + unat (1 :: u64) < 2 ^ 64" unfolding word_less_nat_alt unat_max64 by simp
  then have "unat (c + 1) = unat c + 1" using unat_add_lem [of c 1] by simp
  then show ?thesis by (simp add: word_less_nat_alt)
qed

lemma unat_due_time: "unat (due_time now delay) = min (unat now + unat delay) (2 ^ 64 - 1)"
proof (cases "unat now + unat delay < 2 ^ 64")
  case True
  then have "unat (now + delay) = unat now + unat delay" using unat_add_lem [of now delay] by simp
  then show ?thesis using True by (simp add: due_time_def word_less_nat_alt)
next
  case False
  have wrap: "x mod k = x - k" if "k \<le> x" "x < 2 * k" for x k :: nat
    using that by (simp add: le_mod_geq)
  have less: "unat now < 2 ^ 64" "unat delay < 2 ^ 64" using unsigned_less [of now] unsigned_less [of delay] by simp_all
  have "unat (now + delay) = (unat now + unat delay) mod 2 ^ 64" using unat_word_ariths(1) [of now delay] by simp
  also have "\<dots> = unat now + unat delay - 2 ^ 64" using False less by (intro wrap) linarith+
  finally have "unat (now + delay) = unat now + unat delay - 2 ^ 64" .
  then have "unat (now + delay) < unat delay" using less False by linarith
  then have "now + delay < delay" by (simp add: word_less_nat_alt)
  then show ?thesis using False by (simp add: due_time_def unat_max64)
qed

abbreviation set_timer :: "uv_loop \<Rightarrow> uv_handle \<Rightarrow> addr \<Rightarrow> u64 \<Rightarrow> u64 \<Rightarrow> uv_handle" where
  "set_timer L t cb delay rep \<equiv>
     t\<lparr>handle_cb := cb, timeout := due_time (loop_time L) delay, timer_repeat := rep, start_id := timer_counter L\<rparr>"

abbreviation activated :: "uv_handle \<Rightarrow> uv_handle" where
  "activated t \<equiv> t\<lparr>handle_flags := handle_flags t OR UV_HANDLE_ACTIVE\<rparr>"

lemma uv_timer_start_inactive:
  assumes ok: "loop_ok L" and h: "handles L h = Some t" "handle_type t = UV_TIMER" "\<not> uv__is_active t" "\<not> uv__is_closing t"
    and cb: "cb \<noteq> 0" and room: "timer_counter L < - 1"
    and t'_def: "t' = activated (set_timer L t cb delay rep)"
  shows "\<exists>hp n. uv_timer_start L h cb delay rep =
      Some (0, L\<lparr>timer_counter := timer_counter L + 1, timer_heap := hp, handles := (handles L)(h \<mapsto> t'), active_handles := n\<rparr>) \<and>
    loop_ok (L\<lparr>timer_counter := timer_counter L + 1, timer_heap := hp, handles := (handles L)(h \<mapsto> t'), active_handles := n\<rparr>)"
proof -
  obtain xs where xs: "linked (timer_heap L) xs" "ordered (timer_lt (handles L)) xs"
    "set xs = (\<lambda>h. h + HEAP_NODE) ` active_timers L" "length xs < 2 ^ 32 - 1" by (rule heap_okE [OF ok])
  have hn: "h \<notin> active_timers L" "h \<notin> counted L" using h by (simp_all add: active_timers_def counted_def)
  let ?a = "h + HEAP_NODE" and ?t = "set_timer L t cb delay rep"
  let ?H = "(handles L)(h \<mapsto> ?t)" and ?H' = "(handles L)(h \<mapsto> t')"
  have a: "?a \<notin> set xs" "?a \<noteq> 0" "nodes (timer_heap L) ?a \<noteq> None"
    using ok h hn(1) unfolding xs(3) in_nodes by (simp_all add: loop_ok_def timer_ok_def)
  have dom: "dom ?H = dom (handles L)" "dom ?H' = dom (handles L)" using h(1) by auto
  have o: "ordered (timer_lt ?H) xs"
    using a(1) by (intro ordered_keys [OF xs(2)] timer_key_update) auto
  have members: "insert ?a (set xs) = (\<lambda>h. h + HEAP_NODE) ` insert h (active_timers L)" by (simp add: xs(3))
  have cmp: "timer_less_than ?H b c = Some (timer_lt ?H b c)" if "b \<in> insert ?a (set xs)" "c \<in> insert ?a (set xs)" for b c
    using timer_compare [OF that [unfolded members], of ?H] active_timers_dom(1) [of L] h(1) dom(1) by auto
  from timers.heap_insert_linked [OF xs(1) o a xs(4) cmp]
  obtain hp ys where hp: "heap_insert (timer_less_than ?H) (timer_heap L) ?a = Some hp"
      "linked hp ys" "set ys = insert ?a (set xs)" "ordered (timer_lt ?H) ys"
      "\<forall>b. b \<notin> set ys \<longrightarrow> nodes hp b = nodes (timer_heap L) b" by blast
  let ?n = "if uv__has_ref t then active_handles L + 1 else active_handles L"
  let ?L = "L\<lparr>timer_counter := timer_counter L + 1, timer_heap := hp, handles := ?H', active_handles := ?n\<rparr>"
  have ref: "uv__has_ref ?t = uv__has_ref t" "\<not> uv__is_active ?t" using h(3) by (simp_all add: uv__has_ref_def uv__is_active_def)
  have "uv_timer_start L h cb delay rep = Some (0, ?L)"
    using h cb hp(1) ref
    by (simp add: uv_timer_start_def uv__handle_start_def set_flags_def set_handle_def uv__active_handle_add_def
        due_time_def t'_def Let_def)
  moreover have "loop_ok ?L"
    unfolding loop_ok_def
  proof (intro conjI allI impI)
    show "finite (dom (handles ?L))" "card (dom (handles ?L)) < 2 ^ 32 - 1" using ok dom(2) by (simp_all add: loop_ok_def)
    have t': "uv__is_active t'" "handle_type t' = UV_TIMER" "uv__has_ref t' = uv__has_ref t" "\<not> uv__is_closing t'"
      "start_id t' = timer_counter L" "handle_cb t' = cb"
    proof -
      have "uv__is_closing ?t = uv__is_closing t" by (simp add: uv__is_closing_def)
      then show "\<not> uv__is_closing t'" "uv__has_ref t' = uv__has_ref t"
        unfolding t'_def active_flags(3,5) using ref(1) h(4) by simp_all
      show "uv__is_active t'" unfolding t'_def by (rule active_flags(1))
    qed (use h(2) in \<open>simp_all add: t'_def\<close>)
    have act: "active_timers ?L = insert h (active_timers L)" using t'(1,2) by (auto simp: active_timers_def)
    have keys: "timer_key ?H' b = timer_key ?H b" for b by (simp add: timer_key_def t'_def)
    have "set ys = (\<lambda>h. h + HEAP_NODE) ` active_timers ?L" unfolding hp(3) xs(3) act by simp
    moreover have "ordered (timer_lt ?H') ys" by (rule ordered_keys [OF hp(4) keys])
    ultimately show "heap_ok ?L" using hp(2) unfolding heap_ok_def by auto
    have mapped: "nodes hp b \<noteq> None" if "nodes (timer_heap L) b \<noteq> None" for b
    proof (cases "b \<in> set ys")
      case True
      then obtain q where "0 < q" "q \<le> length ys" "b = entry ys q" using mem_entry by blast
      then show ?thesis using hp(2) by (simp add: linked_def)
    next
      case False
      then show ?thesis using hp(5) that by simp
    qed
    have next_id: "timer_counter L < timer_counter L + 1" using room by (rule u64_less_succ)
    show "timer_ok ?L g s" if gs: "handles ?L g = Some s \<and> handle_type s = UV_TIMER" for g s
    proof (cases "g = h")
      case True
      then show ?thesis using gs a mapped t' cb next_id by (simp add: timer_ok_def)
    next
      case False
      then have "timer_ok L g s" using ok gs by (simp add: loop_ok_def)
      then show ?thesis using mapped next_id by (auto simp: timer_ok_def)
    qed
    show "inj_on (\<lambda>h. map_option start_id (handles ?L h)) (active_timers ?L)"
      unfolding act
    proof (rule inj_on_insert [THEN iffD2], intro conjI)
      have "inj_on (\<lambda>g. map_option start_id (handles L g)) (active_timers L)" using ok by (simp add: loop_ok_def)
      then show "inj_on (\<lambda>h. map_option start_id (handles ?L h)) (active_timers L)"
        using hn(1) by (simp add: inj_on_def)
      have other: "map_option start_id (handles L g) \<noteq> Some (timer_counter L)" if g: "g \<in> active_timers L" for g
      proof -
        obtain s where s: "handles L g = Some s" "handle_type s = UV_TIMER" "uv__is_active s"
          using g by (auto simp: active_timers_def)
        then have "timer_ok L g s" using ok by (simp add: loop_ok_def)
        then show ?thesis using s by (auto simp: timer_ok_def)
      qed
      show "map_option start_id (handles ?L h) \<notin> (\<lambda>h. map_option start_id (handles ?L h)) ` (active_timers L - {h})"
      proof
        assume "map_option start_id (handles ?L h) \<in> (\<lambda>h. map_option start_id (handles ?L h)) ` (active_timers L - {h})"
        then obtain g where "g \<in> active_timers L" "g \<noteq> h" "map_option start_id (handles ?L h) = map_option start_id (handles ?L g)"
          by blast
        then show False using other [of g] t'(5) by simp
      qed
    qed
    have cnt: "counted ?L = (if uv__has_ref t then insert h (counted L) else counted L)"
      using t'(1,3) hn(2) by (auto simp: counted_def)
    have fin: "finite (counted L)" by (rule finite_subset [OF active_timers_dom(2)]) (use ok in \<open>simp add: loop_ok_def\<close>)
    have "active_handles L = of_nat (card (counted L))" using ok by (simp add: loop_ok_def)
    then show "active_handles ?L = of_nat (card (counted ?L))"
      using u32_count_insert [OF fin hn(2)] unfolding cnt by simp
  qed
  ultimately show ?thesis by blast
qed

text \<open>The operations on a handle, active or not, and the table of the pending timers.\<close>

lemma timers_start:
  assumes "handle_type t = UV_TIMER" "\<not> uv__is_closing t"
  shows "timers_of (L\<lparr>timer_counter := c, timer_heap := hp,
      handles := (handles L)(h \<mapsto> activated (set_timer L t cb delay rep)), active_handles := n\<rparr>) =
    (timers_of L)(h \<mapsto> \<lparr>action = cb, interval = rep,
      deadline = Some (due_time (loop_time L) delay, timer_counter L), closed = False\<rparr>)"
proof -
  have "uv__is_closing (activated (set_timer L t cb delay rep)) = uv__is_closing t"
    using active_flags(5) [of "set_timer L t cb delay rep"] by (simp add: uv__is_closing_def)
  then show ?thesis using assms by (auto simp: timers_of_def state_of_def active_flags fun_eq_iff)
qed

text \<open>What an operation on timers leaves as it is.\<close>

definition same_loop :: "uv_loop \<Rightarrow> uv_loop \<Rightarrow> bool" where
  "same_loop L L' \<longleftrightarrow> loop_time L' = loop_time L \<and> stop_flag L' = stop_flag L \<and> active_reqs L' = active_reqs L \<and>
     closing_handles L' = closing_handles L \<and> queues_of L' = queues_of L \<and>
     handle_queue L' = handle_queue L \<and> pending_queue L' = pending_queue L \<and> watchers_at L' = watchers_at L \<and>
     loop_flags L' = loop_flags L \<and> backend_fd L' = backend_fd L \<and> ios L' = ios L \<and> watcher_queue L' = watcher_queue L \<and>
     io_watchers L' = io_watchers L \<and> polled L' = polled L \<and> nfds L' = nfds L \<and> signal_io_watcher L' = signal_io_watcher L \<and>
     dom (handles L') = dom (handles L)"

lemma uv_timer_stop_ok:
  assumes ok: "loop_ok L" and h: "handles L h = Some t" "handle_type t = UV_TIMER"
  shows "\<exists>L'. uv_timer_stop L h = Some (0, L') \<and> loop_ok L' \<and> timers_of L' = (timers_of L)(h \<mapsto> (state_of t)\<lparr>deadline := None\<rparr>) \<and>
    same_loop L L' \<and> timer_counter L' = timer_counter L \<and> (\<forall>g. g \<noteq> h \<longrightarrow> handles L' g = handles L g) \<and>
    (\<exists>f. handles L' h = Some (t\<lparr>handle_flags := f\<rparr>) \<and> \<not> uv__is_active (t\<lparr>handle_flags := f\<rparr>) \<and>
      uv__is_closing (t\<lparr>handle_flags := f\<rparr>) = uv__is_closing t)"
proof (cases "uv__is_active t")
  case True
  obtain hp n where "uv_timer_stop L h =
      Some (0, L\<lparr>timer_heap := hp, handles := (handles L)(h \<mapsto> deactivated t), active_handles := n\<rparr>)"
    "loop_ok (L\<lparr>timer_heap := hp, handles := (handles L)(h \<mapsto> deactivated t), active_handles := n\<rparr>)"
    using uv_timer_stop_active [OF ok h True] by blast
  then show ?thesis using h
    by (intro exI [of _ "L\<lparr>timer_heap := hp, handles := (handles L)(h \<mapsto> deactivated t), active_handles := n\<rparr>"])
      (auto simp: timers_stop same_loop_def active_flags)
next
  case False
  have "uv_timer_stop L h = Some (0, L)" using h False by (simp add: uv_timer_stop_def)
  moreover have "timers_of L = (timers_of L)(h \<mapsto> (state_of t)\<lparr>deadline := None\<rparr>)"
    using h False by (auto simp: timers_of_def state_of_def fun_eq_iff)
  moreover have "t\<lparr>handle_flags := handle_flags t\<rparr> = t" by simp
  ultimately show ?thesis using ok h False
    by (intro exI [of _ L]) (auto simp: same_loop_def intro!: exI [of _ "handle_flags t"])
qed

lemma uv_timer_start_ok:
  assumes ok: "loop_ok L" and h: "handles L h = Some t" "handle_type t = UV_TIMER" "\<not> uv__is_closing t"
    and cb: "cb \<noteq> 0" and room: "timer_counter L < - 1"
  shows "\<exists>L'. uv_timer_start L h cb delay rep = Some (0, L') \<and> loop_ok L' \<and>
    timers_of L' = (timers_of L)(h \<mapsto> \<lparr>action = cb, interval = rep,
      deadline = Some (due_time (loop_time L) delay, timer_counter L), closed = False\<rparr>) \<and>
    same_loop L L' \<and> timer_counter L' = timer_counter L + 1 \<and> (\<forall>g. g \<noteq> h \<longrightarrow> handles L' g = handles L g)"
proof -
  obtain L1 f where L1: "uv_timer_stop L h = Some (0, L1)" "loop_ok L1" "timers_of L1 = (timers_of L)(h \<mapsto> (state_of t)\<lparr>deadline := None\<rparr>)" "same_loop L L1"
      "timer_counter L1 = timer_counter L" "\<forall>g. g \<noteq> h \<longrightarrow> handles L1 g = handles L g"
      "handles L1 h = Some (t\<lparr>handle_flags := f\<rparr>)" "\<not> uv__is_active (t\<lparr>handle_flags := f\<rparr>)"
      "uv__is_closing (t\<lparr>handle_flags := f\<rparr>) = uv__is_closing t"
    using uv_timer_stop_ok [OF ok h(1,2)] by blast
  let ?t = "t\<lparr>handle_flags := f\<rparr>"
  have t: "handle_type ?t = UV_TIMER" "\<not> uv__is_closing ?t" "timer_counter L1 < - 1" using h L1(5,9) room by simp_all
  obtain hp n where s: "uv_timer_start L1 h cb delay rep = Some (0, L1\<lparr>timer_counter := timer_counter L1 + 1, timer_heap := hp,
        handles := (handles L1)(h \<mapsto> activated (set_timer L1 ?t cb delay rep)), active_handles := n\<rparr>)"
      "loop_ok (L1\<lparr>timer_counter := timer_counter L1 + 1, timer_heap := hp,
        handles := (handles L1)(h \<mapsto> activated (set_timer L1 ?t cb delay rep)), active_handles := n\<rparr>)"
    using uv_timer_start_inactive [OF L1(2,7) t(1) L1(8) t(2) cb t(3) refl] by blast
  have "uv_timer_start L h cb delay rep = uv_timer_start L1 h cb delay rep"
  proof -
    have "uv_timer_stop L1 h = Some (0, L1)" using L1(7,8) by (simp add: uv_timer_stop_def)
    moreover have "L1 = L" if "\<not> uv__is_active t" using L1(1) h(1) that by (simp add: uv_timer_stop_def)
    ultimately show ?thesis using h L1(1,7,8) t cb
      by (cases "uv__is_active t") (simp_all add: uv_timer_start_def)
  qed
  moreover have "loop_time L1 = loop_time L" using L1(4) by (simp add: same_loop_def)
  ultimately show ?thesis using s L1(3-6) h(1) timers_start [OF t(1,2), where L = L1]
    by (intro exI [of _ "L1\<lparr>timer_counter := timer_counter L1 + 1, timer_heap := hp,
        handles := (handles L1)(h \<mapsto> activated (set_timer L1 ?t cb delay rep)), active_handles := n\<rparr>"])
      (auto simp: same_loop_def)
qed

lemma loop_ok_handle:
  assumes ok: "loop_ok L" and h: "handles L h = Some t"
    and t': "handle_flags t' = handle_flags t" "handle_type t' = handle_type t" "timeout t' = timeout t"
      "start_id t' = start_id t" "uv__is_active t \<longrightarrow> handle_cb t' = handle_cb t"
  shows "loop_ok (set_handle L h t')"
proof -
  let ?L = "set_handle L h t'"
  have flags: "uv__is_active t' = uv__is_active t" "uv__has_ref t' = uv__has_ref t" "uv__is_closing t' = uv__is_closing t"
    using t'(1) by (simp_all add: uv__is_active_def uv__has_ref_def uv__is_closing_def)
  have H: "handles ?L = (handles L)(h \<mapsto> t')" by (simp add: set_handle_def)
  have dom: "dom (handles ?L) = dom (handles L)" using h by (auto simp: H)
  have act: "active_timers ?L = active_timers L" "counted ?L = counted L"
    using h flags t'(2) by (auto simp: active_timers_def counted_def H)
  have keys: "timer_key (handles ?L) a = timer_key (handles L) a" for a
    using h t'(3,4) by (auto simp: timer_key_def H)
  have same: "timer_heap ?L = timer_heap L" "timer_counter ?L = timer_counter L" "active_handles ?L = active_handles L"
    by (simp_all add: set_handle_def)
  have "heap_ok ?L" using ok ordered_keys [OF _ keys] unfolding loop_ok_def heap_ok_def act same by blast
  moreover have "timer_ok ?L g s" if "handles ?L g = Some s" "handle_type s = UV_TIMER" for g s
  proof (cases "g = h")
    case True
    then have "s = t'" "timer_ok L h t" using that ok h t'(2) by (simp_all add: H loop_ok_def)
    then show ?thesis using True flags t'(4,5) unfolding timer_ok_def same by simp
  next
    case False
    then have "timer_ok L g s" using that ok by (simp add: H loop_ok_def)
    then show ?thesis unfolding timer_ok_def same .
  qed
  moreover have "inj_on (\<lambda>g. map_option start_id (handles ?L g)) (active_timers ?L)"
  proof -
    have "map_option start_id (handles ?L g) = map_option start_id (handles L g)" for g using h t'(4) by (auto simp: H)
    then show ?thesis using ok unfolding act by (simp add: loop_ok_def)
  qed
  ultimately show ?thesis using ok unfolding loop_ok_def dom act same by blast
qed

lemma uv_timer_again_ok:
  assumes ok: "loop_ok L" and h: "handles L h = Some t" "handle_type t = UV_TIMER" and room: "timer_counter L < - 1"
  shows "\<exists>L'. uv_timer_again L h = Some (if handle_cb t = 0 then UV_EINVAL else 0, L') \<and> loop_ok L' \<and> same_loop L L' \<and>
    timer_counter L \<le> timer_counter L' \<and> timer_counter L' \<le> timer_counter L + 1 \<and> (\<forall>g. g \<noteq> h \<longrightarrow> handles L' g = handles L g) \<and>
    (if handle_cb t = 0 \<or> timer_repeat t = 0 then L' = L
     else if uv__is_closing t
     then timer_counter L' = timer_counter L \<and> timers_of L' = (timers_of L)(h \<mapsto> (state_of t)\<lparr>deadline := None\<rparr>)
     else timer_counter L' = timer_counter L + 1 \<and>
       timers_of L' = (timers_of L)(h \<mapsto> \<lparr>action = handle_cb t, interval = timer_repeat t,
         deadline = Some (due_time (loop_time L) (timer_repeat t), timer_counter L), closed = False\<rparr>))"
proof -
  have le: "timer_counter L \<le> timer_counter L + 1" using u64_less_succ [OF room] by simp
  consider "handle_cb t = 0 \<or> timer_repeat t = 0" | "handle_cb t \<noteq> 0" "timer_repeat t \<noteq> 0" by blast
  then show ?thesis
  proof cases
    case 1
    then have "uv_timer_again L h = Some (if handle_cb t = 0 then UV_EINVAL else 0, L)"
      using h by (auto simp: uv_timer_again_def)
    then show ?thesis using 1 ok le by (intro exI [of _ L]) (simp add: same_loop_def)
  next
    case 2
    obtain L1 f where L1: "uv_timer_stop L h = Some (0, L1)" "loop_ok L1"
        "timers_of L1 = (timers_of L)(h \<mapsto> (state_of t)\<lparr>deadline := None\<rparr>)" "same_loop L L1"
        "timer_counter L1 = timer_counter L" "\<forall>g. g \<noteq> h \<longrightarrow> handles L1 g = handles L g"
        "handles L1 h = Some (t\<lparr>handle_flags := f\<rparr>)" "\<not> uv__is_active (t\<lparr>handle_flags := f\<rparr>)"
        "uv__is_closing (t\<lparr>handle_flags := f\<rparr>) = uv__is_closing t"
      using uv_timer_stop_ok [OF ok h] by blast
    let ?t = "t\<lparr>handle_flags := f\<rparr>"
    show ?thesis
    proof (cases "uv__is_closing t")
      case True
      have "uv_timer_start L1 h (handle_cb t) (timer_repeat t) (timer_repeat t) = Some (UV_EINVAL, L1)"
        using True L1(7,9) by (simp add: uv_timer_start_def)
      then have "uv_timer_again L h = Some (0, L1)" using h 2 L1(1,7) by (simp add: uv_timer_again_def)
      then show ?thesis using 2 True L1 le by (intro exI [of _ L1]) simp
    next
      case False
      have c: "handle_type ?t = UV_TIMER" "\<not> uv__is_closing ?t" "timer_counter L1 < - 1" using h(2) L1(5,9) False room by simp_all
      obtain L2 where L2: "uv_timer_start L1 h (handle_cb t) (timer_repeat t) (timer_repeat t) = Some (0, L2)" "loop_ok L2"
          "timers_of L2 = (timers_of L1)(h \<mapsto> \<lparr>action = handle_cb t, interval = timer_repeat t,
            deadline = Some (due_time (loop_time L1) (timer_repeat t), timer_counter L1), closed = False\<rparr>)"
          "same_loop L1 L2" "timer_counter L2 = timer_counter L1 + 1" "\<forall>g. g \<noteq> h \<longrightarrow> handles L2 g = handles L1 g"
        using uv_timer_start_ok [OF L1(2,7) c(1,2) 2(1) c(3)] by blast
      have "uv_timer_again L h = Some (0, L2)" using h 2 L1(1,7) L2(1) by (simp add: uv_timer_again_def)
      moreover have "same_loop L L2" "loop_time L1 = loop_time L" using L1(4) L2(4) by (simp_all add: same_loop_def)
      ultimately show ?thesis using 2 False L1 L2 le by (intro exI [of _ L2]) simp
    qed
  qed
qed

section \<open>The table of timers\<close>

record timer_table =
  now :: u64
  next_turn :: u64
  table :: "addr \<rightharpoonup> timer_state"

definition view :: "uv_loop \<Rightarrow> timer_table" where
  "view L = \<lparr>now = loop_time L, next_turn = timer_counter L, table = timers_of L\<rparr>"

datatype timer_op = Start addr addr u64 u64 | Stop addr | Again addr | SetRepeat addr u64

fun op_handle :: "timer_op \<Rightarrow> addr" where
  "op_handle (Start h cb delay rep) = h"
| "op_handle (Stop h) = h"
| "op_handle (Again h) = h"
| "op_handle (SetRepeat h rep) = h"

fun perform :: "uv_loop \<Rightarrow> timer_op \<Rightarrow> (int \<times> uv_loop) option" where
  "perform L (Start h cb delay rep) = uv_timer_start L h cb delay rep"
| "perform L (Stop h) = uv_timer_stop L h"
| "perform L (Again h) = uv_timer_again L h"
| "perform L (SetRepeat h rep) = map_option (Pair 0) (uv_timer_set_repeat L h rep)"

text \<open>A timer set to \<open>delay\<close> and \<open>rep\<close>: the next turn is its.\<close>

definition scheduled :: "timer_table \<Rightarrow> addr \<Rightarrow> addr \<Rightarrow> u64 \<Rightarrow> u64 \<Rightarrow> timer_table" where
  "scheduled T h cb delay rep =
     T\<lparr>next_turn := next_turn T + 1,
       table := (table T)(h \<mapsto> \<lparr>action = cb, interval = rep,
         deadline = Some (due_time (now T) delay, next_turn T), closed = False\<rparr>)\<rparr>"

definition cancelled :: "timer_table \<Rightarrow> addr \<Rightarrow> timer_state \<Rightarrow> timer_table" where
  "cancelled T h s = T\<lparr>table := (table T)(h \<mapsto> s\<lparr>deadline := None\<rparr>)\<rparr>"

fun specified :: "timer_table \<Rightarrow> timer_op \<Rightarrow> timer_state \<Rightarrow> int \<times> timer_table" where
  "specified T (Start h cb delay rep) s =
     (if closed s \<or> cb = 0 then (UV_EINVAL, T) else (0, scheduled T h cb delay rep))"
| "specified T (Stop h) s = (0, cancelled T h s)"
| "specified T (Again h) s =
     (if action s = 0 then (UV_EINVAL, T)
      else if interval s = 0 then (0, T)
      else (0, if closed s then cancelled T h s else scheduled T h (action s) (interval s) (interval s)))"
| "specified T (SetRepeat h rep) s = (0, T\<lparr>table := (table T)(h \<mapsto> s\<lparr>interval := rep\<rparr>)\<rparr>)"

lemma perform_specified:
  assumes ok: "loop_ok L" and s: "timers_of L (op_handle op) = Some s" and room: "timer_counter L < - 1"
  shows "\<exists>L'. perform L op = Some (fst (specified (view L) op s), L') \<and> loop_ok L' \<and>
    view L' = snd (specified (view L) op s) \<and> dom (timers_of L') = dom (timers_of L) \<and>
    timer_counter L' \<le> timer_counter L + 1"
proof -
  obtain t where t: "handles L (op_handle op) = Some t" "handle_type t = UV_TIMER" "s = state_of t"
    using s by (auto simp: timers_of_def split: option.splits if_splits)
  have fields: "action s = handle_cb t" "interval s = timer_repeat t" "closed s = uv__is_closing t"
    by (simp_all add: t(3) state_of_def)
  have le: "timer_counter L \<le> timer_counter L + 1" using u64_less_succ [OF room] by simp
  have dom: "dom ((timers_of L)(op_handle op \<mapsto> x)) = dom (timers_of L)" for x using s by auto
  show ?thesis
  proof (cases op)
    case (Start h cb delay rep)
    then have h: "handles L h = Some t" using t(1) by simp
    show ?thesis
    proof (cases "uv__is_closing t \<or> cb = 0")
      case True
      then have "uv_timer_start L h cb delay rep = Some (UV_EINVAL, L)" using h by (simp add: uv_timer_start_def)
      then show ?thesis using True ok Start fields le by simp
    next
      case False
      then show ?thesis
        using uv_timer_start_ok [OF ok h t(2) _ _ room, of cb delay rep] Start fields dom
        by (auto simp: view_def scheduled_def same_loop_def)
    qed
  next
    case (Stop h)
    then have h: "handles L h = Some t" using t(1) by simp
    show ?thesis
      using uv_timer_stop_ok [OF ok h t(2)] Stop dom t(3) le by (auto simp: view_def cancelled_def same_loop_def)
  next
    case (Again h)
    then have h: "handles L h = Some t" using t(1) by simp
    obtain L' where L': "uv_timer_again L h = Some (if handle_cb t = 0 then UV_EINVAL else 0, L')" "loop_ok L'" "same_loop L L'"
        "timer_counter L' \<le> timer_counter L + 1"
        "if handle_cb t = 0 \<or> timer_repeat t = 0 then L' = L
         else if uv__is_closing t
         then timer_counter L' = timer_counter L \<and> timers_of L' = (timers_of L)(h \<mapsto> (state_of t)\<lparr>deadline := None\<rparr>)
         else timer_counter L' = timer_counter L + 1 \<and>
           timers_of L' = (timers_of L)(h \<mapsto> \<lparr>action = handle_cb t, interval = timer_repeat t,
             deadline = Some (due_time (loop_time L) (timer_repeat t), timer_counter L), closed = False\<rparr>)"
      using uv_timer_again_ok [OF ok h t(2) room] by blast
    then show ?thesis
      using Again fields dom t(3) by (auto simp: view_def cancelled_def scheduled_def same_loop_def split: if_splits)
  next
    case (SetRepeat h rep)
    then have h: "handles L h = Some t" using t(1) by simp
    let ?L = "set_handle L h (t\<lparr>timer_repeat := rep\<rparr>)"
    have "uv_timer_set_repeat L h rep = Some ?L" using h by (simp add: uv_timer_set_repeat_def)
    moreover have "loop_ok ?L" by (rule loop_ok_handle [OF ok h]) simp_all
    moreover have "timers_of ?L = (timers_of L)(h \<mapsto> s\<lparr>interval := rep\<rparr>)"
      using t(2,3) by (auto simp: timers_of_def set_handle_def state_of_def uv__is_active_def uv__is_closing_def fun_eq_iff)
    moreover have "loop_time ?L = loop_time L" "timer_counter ?L = timer_counter L" by (simp_all add: set_handle_def)
    ultimately show ?thesis using SetRepeat dom le by (intro exI [of _ ?L]) (simp add: view_def)
  qed
qed

text \<open>A sequence of operations, with their results.\<close>

fun perform_all :: "uv_loop \<Rightarrow> timer_op list \<Rightarrow> (int list \<times> uv_loop) option" where
  "perform_all L [] = Some ([], L)"
| "perform_all L (op # ops) = do {
     (r, L) \<leftarrow> perform L op;
     (rs, L) \<leftarrow> perform_all L ops;
     Some (r # rs, L) }"

fun specified_all :: "timer_table \<Rightarrow> timer_op list \<Rightarrow> (int list \<times> timer_table) option" where
  "specified_all T [] = Some ([], T)"
| "specified_all T (op # ops) = do {
     s \<leftarrow> table T (op_handle op);
     let (r, T) = specified T op s;
     (rs, T) \<leftarrow> specified_all T ops;
     Some (r # rs, T) }"

lemma perform_all_specified:
  assumes "loop_ok L" "\<forall>op \<in> set ops. timers_of L (op_handle op) \<noteq> None"
    and "unat (timer_counter L) + length ops < 2 ^ 64"
  shows "\<exists>rs L'. perform_all L ops = Some (rs, L') \<and> loop_ok L' \<and> specified_all (view L) ops = Some (rs, view L') \<and>
    dom (timers_of L') = dom (timers_of L) \<and> unat (timer_counter L') \<le> unat (timer_counter L) + length ops"
  using assms
proof (induction ops arbitrary: L)
  case Nil
  then show ?case by simp
next
  case (Cons op ops)
  obtain s where s: "timers_of L (op_handle op) = Some s" using Cons.prems(2) by auto
  have room: "timer_counter L < - 1" using Cons.prems(3) by (simp add: word_less_nat_alt unat_max64)
  obtain L1 where L1: "perform L op = Some (fst (specified (view L) op s), L1)" "loop_ok L1"
      "view L1 = snd (specified (view L) op s)" "dom (timers_of L1) = dom (timers_of L)" "timer_counter L1 \<le> timer_counter L + 1"
    using perform_specified [OF Cons.prems(1) s room] by blast
  have "unat (timer_counter L + 1) = unat (timer_counter L) + 1"
    using Cons.prems(3) unat_add_lem [of "timer_counter L" 1] by simp
  then have c: "unat (timer_counter L1) \<le> unat (timer_counter L) + 1" using L1(5) by (simp add: word_le_nat_alt)
  then have "unat (timer_counter L1) + length ops < 2 ^ 64" using Cons.prems(3) by simp
  moreover have "\<forall>op \<in> set ops. timers_of L1 (op_handle op) \<noteq> None" using Cons.prems(2) L1(4) by (auto simp: domIff [symmetric])
  ultimately obtain rs L' where "perform_all L1 ops = Some (rs, L')" "loop_ok L'" "specified_all (view L1) ops = Some (rs, view L')"
      "dom (timers_of L') = dom (timers_of L1)" "unat (timer_counter L') \<le> unat (timer_counter L1) + length ops"
    using Cons.IH [OF L1(2)] by blast
  then show ?case
    using L1(1,3,4) s c by (intro exI [of _ "fst (specified (view L) op s) # rs"] exI [of _ L'])
      (simp add: view_def [of L] split_beta)
qed

text \<open>
  C39. Any sequence of \<open>uv_timer_start\<close>, \<open>uv_timer_stop\<close>, \<open>uv_timer_again\<close> and \<open>uv_timer_set_repeat\<close> on
  the timers of a loop, with arguments of every kind, does what the table of timers says, with the
  same results, and keeps the invariant: the heap is a linked complete binary tree in the order of
  the due times whose nodes are those of the active timers, and the count of active handles is right.
\<close>

theorem timer_operations_correct:
  assumes "loop_ok L" "\<forall>op \<in> set ops. timers_of L (op_handle op) \<noteq> None"
    and "unat (timer_counter L) + length ops < 2 ^ 64"
  shows "\<exists>rs L'. perform_all L ops = Some (rs, L') \<and> loop_ok L' \<and> specified_all (view L) ops = Some (rs, view L')"
  using perform_all_specified [OF assms] by blast

text \<open>Two timers that are not running, in an empty loop at time 1000.\<close>

definition idle_timer :: uv_handle where
  "idle_timer = \<lparr>handle_type = UV_TIMER, handle_flags = UV_HANDLE_REF, handle_cb = 0, close_cb = 0, next_closing = 0,
     timeout = 0, timer_repeat = 0, start_id = 0\<rparr>"

definition no_links :: heap_node where
  "no_links = \<lparr>node_left = 0, node_right = 0, node_parent = 0\<rparr>"

definition sample_loop :: uv_loop where
  "sample_loop = \<lparr>loop_time = 1000, stop_flag = 0, active_handles = 0, active_reqs = 0, closing_handles = 0,
     timer_counter = 0, timer_heap = \<lparr>heap_root = 0, nelts = 0, nodes = [0x1068 \<mapsto> no_links, 0x2068 \<mapsto> no_links]\<rparr>,
     handles = [0x1000 \<mapsto> idle_timer, 0x2000 \<mapsto> idle_timer], queues_of = Map.empty,
     handle_queue = 0x10, pending_queue = 0x50, watchers_at = (\<lambda>ty. 0), loop_flags = 0, backend_fd = 3, ios = Map.empty,
     watcher_queue = 0x60, io_watchers = [], polled = None, nfds = 0, signal_io_watcher = 0x300\<rparr>"

lemma idle_timer_inactive: "\<not> uv__is_active idle_timer" "\<not> uv__is_closing idle_timer" "handle_type idle_timer = UV_TIMER"
  by (simp_all add: uv__is_active_def uv__is_closing_def idle_timer_def UV_HANDLE_REF_def UV_HANDLE_ACTIVE_def
      UV_HANDLE_CLOSING_def UV_HANDLE_CLOSED_def)

lemma sample_handle: "handles sample_loop h = Some t \<Longrightarrow> t = idle_timer \<and> (h = 0x1000 \<or> h = 0x2000)"
  by (auto simp: sample_loop_def split: if_splits)

lemma sample_loop_ok: "loop_ok sample_loop"
proof -
  have none: "active_timers sample_loop = {}" "counted sample_loop = {}"
    using sample_handle idle_timer_inactive by (fastforce simp: active_timers_def counted_def)+
  have dom: "dom (handles sample_loop) = {0x2000, 0x1000}" by (auto simp: sample_loop_def)
  have "linked (timer_heap sample_loop) []" by (auto simp: linked_def nodes_ok_def sample_loop_def entry_def)
  then have "heap_ok sample_loop" unfolding heap_ok_def none by (intro exI [of _ "[]"]) (simp add: ordered_def)
  moreover have "timer_ok sample_loop h t" if "handles sample_loop h = Some t" for h t
    using sample_handle [OF that] idle_timer_inactive(1) by (auto simp: timer_ok_def sample_loop_def HEAP_NODE_def)
  moreover have "active_handles sample_loop = 0" by (simp add: sample_loop_def)
  ultimately show ?thesis unfolding loop_ok_def none dom by simp
qed

lemma sample_timers: "timers_of sample_loop h = (if h = 0x1000 \<or> h = 0x2000 then Some (state_of idle_timer) else None)"
  by (simp add: timers_of_def sample_loop_def idle_timer_inactive(3))

theorem timer_operations_correct_witness:
  "\<exists>L'. perform_all sample_loop [Start 0x1000 7 50 0, Start 0x2000 7 20 10, Start 0x1000 0 5 5, Again 0x2000, Stop 0x1000] =
      Some ([0, 0, - 22, 0, 0], L') \<and> loop_ok L' \<and>
    map_option deadline (timers_of L' 0x1000) = Some None \<and>
    map_option deadline (timers_of L' 0x2000) = Some (Some (1010, 2))"
proof -
  let ?ops = "[Start 0x1000 7 50 0, Start 0x2000 7 20 10, Start 0x1000 0 5 5, Again 0x2000, Stop 0x1000]"
  let ?T = "\<lparr>now = 1000, next_turn = 3, table = (timers_of sample_loop)
        (0x2000 \<mapsto> \<lparr>action = 7, interval = 10, deadline = Some (1010, 2), closed = False\<rparr>,
         0x1000 \<mapsto> \<lparr>action = 7, interval = 0, deadline = None, closed = False\<rparr>)\<rparr>"
  have counter: "timer_counter sample_loop = 0" by (simp add: sample_loop_def)
  have "\<forall>op \<in> set ?ops. timers_of sample_loop (op_handle op) \<noteq> None" by (simp add: sample_timers)
  then obtain rs L' where L': "perform_all sample_loop ?ops = Some (rs, L')" "loop_ok L'"
      "specified_all (view sample_loop) ?ops = Some (rs, view L')"
    using timer_operations_correct [OF sample_loop_ok, of ?ops] counter by auto
  have s: "view sample_loop = \<lparr>now = 1000, next_turn = 0, table = timers_of sample_loop\<rparr>"
    by (simp add: view_def sample_loop_def)
  have "closed (state_of idle_timer) = False" using idle_timer_inactive(2) by (simp add: state_of_def)
  then have "specified_all (view sample_loop) ?ops = Some ([0, 0, - 22, 0, 0], ?T)"
    unfolding s by (simp add: sample_timers scheduled_def cancelled_def due_time_def UV_EINVAL_def)
  then have rs: "rs = [0, 0, - 22, 0, 0]" "view L' = ?T" using L'(3) by simp_all
  have "timers_of L' = table ?T" using arg_cong [OF rs(2), of table] by (simp add: view_def)
  then show ?thesis using L'(1,2) rs(1) by (intro exI [of _ L']) simp
qed

text \<open>The times at which timers are due.\<close>

definition due_times :: "timer_table \<Rightarrow> u64 set" where
  "due_times T = {d. \<exists>h s n. table T h = Some s \<and> deadline s = Some (d, n)}"

lemma timers_deadline:
  "timers_of L h = Some s \<and> deadline s = Some (d, n) \<longleftrightarrow>
   (\<exists>t. handles L h = Some t \<and> h \<in> active_timers L \<and> s = state_of t \<and> d = timeout t \<and> n = start_id t)"
proof (cases "handles L h")
  case (Some t)
  then have "h \<in> active_timers L \<longleftrightarrow> handle_type t = UV_TIMER \<and> uv__is_active t" by (simp add: active_timers_def)
  moreover have "deadline (state_of t) = (if uv__is_active t then Some (timeout t, start_id t) else None)"
    by (simp add: state_of_def)
  ultimately show ?thesis using Some by (auto simp: timers_of_def)
qed (simp add: timers_of_def)

lemma due_times_active: "d \<in> due_times (view L) \<longleftrightarrow> (\<exists>h\<in>active_timers L. \<exists>t. handles L h = Some t \<and> timeout t = d)"
  unfolding due_times_def view_def by (simp add: timers_deadline) blast

text \<open>The node at the root is that of the first timer.\<close>

lemma first_timer:
  assumes ok: "loop_ok L"
  shows "heap_min (timer_heap L) = 0 \<longleftrightarrow> active_timers L = {}"
    and "active_timers L \<noteq> {} \<Longrightarrow> heap_min (timer_heap L) - HEAP_NODE \<in> active_timers L"
    and "g \<in> active_timers L \<Longrightarrow> \<not> timer_lt (handles L) (g + HEAP_NODE) (heap_min (timer_heap L))"
proof -
  obtain xs where xs: "linked (timer_heap L) xs" "ordered (timer_lt (handles L)) xs"
    "set xs = (\<lambda>h. h + HEAP_NODE) ` active_timers L" by (rule heap_okE [OF ok])
  have root: "heap_min (timer_heap L) = entry xs 1" using xs(1) by (simp add: heap_min_def linked_def)
  have nodes: "nodes_ok xs" using xs(1) by (simp add: linked_def)
  show z: "heap_min (timer_heap L) = 0 \<longleftrightarrow> active_timers L = {}"
    using entry_zero [OF nodes, of 1] xs(3) unfolding root by (cases xs) auto
  show "\<not> timer_lt (handles L) (g + HEAP_NODE) (heap_min (timer_heap L))" if "g \<in> active_timers L"
    using timers.heap_min_least(2) [OF xs(1,2), of "g + HEAP_NODE"] that xs(3) by simp
  show "heap_min (timer_heap L) - HEAP_NODE \<in> active_timers L" if ne: "active_timers L \<noteq> {}"
  proof -
    have "set xs \<noteq> {}" using ne xs(3) by simp
    then have "entry xs 1 \<in> set xs" by (intro entry_mem) (auto simp: Suc_le_eq)
    then have "heap_min (timer_heap L) \<in> (\<lambda>h. h + HEAP_NODE) ` active_timers L" unfolding root xs(3) .
    then show ?thesis by auto
  qed
qed

lemma finite_active: "loop_ok L \<Longrightarrow> finite (active_timers L)"
  by (rule finite_subset [OF active_timers_dom(1)]) (simp add: loop_ok_def)

text \<open>
  C35. \<open>uv__next_timeout\<close>, which bounds the time the loop may block, is \<open>- 1\<close> without timers, \<open>0\<close> if
  one is due, and else the time until the first one, in milliseconds, at most \<open>2 ^ 31 - 1\<close>.
\<close>

theorem uv__next_timeout_correct:
  assumes "loop_ok L"
  shows "uv__next_timeout L = Some
    (if due_times (view L) = {} then - 1
     else min (2 ^ 31 - 1) (max 0 (uint (Min (due_times (view L))) - uint (loop_time L))))"
proof (cases "active_timers L = {}")
  case True
  have "d \<notin> due_times (view L)" for d unfolding due_times_active True by simp
  then have "due_times (view L) = {}" by blast
  then show ?thesis using first_timer(1) [OF assms] True by (simp add: uv__next_timeout_def)
next
  case False
  let ?h = "heap_min (timer_heap L) - HEAP_NODE"
  have h: "?h \<in> active_timers L" "heap_min (timer_heap L) \<noteq> 0" using first_timer(1,2) [OF assms] False by auto
  then obtain t where t: "handles L ?h = Some t" "handle_type t = UV_TIMER" "uv__is_active t" by (auto simp: active_timers_def)
  have mem: "timeout t \<in> due_times (view L)" using h(1) t(1) by (auto simp: due_times_active)
  have "Min (due_times (view L)) = timeout t"
  proof (rule Min_eqI [OF _ _ mem])
    show "finite (due_times (view L))" by simp
    fix d assume "d \<in> due_times (view L)"
    then obtain g s where g: "g \<in> active_timers L" "handles L g = Some s" "d = timeout s" by (auto simp: due_times_active)
    then show "timeout t \<le> d"
      using first_timer(3) [OF assms g(1)] t(1) by (auto simp: timer_lt_def timer_key_def not_less)
  qed
  moreover have "due_times (view L) \<noteq> {}" using mem by auto
  moreover have "uv__next_timeout L = Some (min (2 ^ 31 - 1) (max 0 (uint (timeout t) - uint (loop_time L))))"
  proof (cases "timeout t \<le> loop_time L")
    case True
    then have "uint (timeout t) \<le> uint (loop_time L)" by (simp add: word_le_def)
    then show ?thesis using True h(2) t(1) by (simp add: uv__next_timeout_def Let_def)
  next
    case False
    then have "uint (timeout t - loop_time L) = uint (timeout t) - uint (loop_time L)" by (simp add: uint_sub_lem [THEN iffD1] word_le_def)
    moreover have "uint INT_MAX = 2 ^ 31 - 1" by (simp add: INT_MAX_def)
    ultimately show ?thesis
      using False h(2) t(1) by (auto simp: uv__next_timeout_def Let_def word_less_def word_le_def min_def max_def)
  qed
  ultimately show ?thesis by simp
qed

text \<open>What operations on timers leave as it is: the loop apart from its timers, other handles, types and references.\<close>

definition timer_frame :: "uv_loop \<Rightarrow> uv_loop \<Rightarrow> bool" where
  "timer_frame L L' \<longleftrightarrow> same_loop L L' \<and>
     (\<forall>h t t'. handles L h = Some t \<longrightarrow> handles L' h = Some t' \<longrightarrow>
        handle_type t' = handle_type t \<and> uv__has_ref t' = uv__has_ref t \<and> (handle_type t \<noteq> UV_TIMER \<longrightarrow> t' = t))"

lemma timer_frame_refl: "timer_frame L L"
  by (simp add: timer_frame_def same_loop_def)

lemma timer_frame_trans:
  assumes "timer_frame L L1" "timer_frame L1 L2"
  shows "timer_frame L L2"
proof -
  have "handle_type t' = handle_type t \<and> uv__has_ref t' = uv__has_ref t \<and> (handle_type t \<noteq> UV_TIMER \<longrightarrow> t' = t)"
    if "handles L h = Some t" "handles L2 h = Some t'" for h t t'
  proof -
    have "h \<in> dom (handles L1)" using assms(1) that(1) by (auto simp: timer_frame_def same_loop_def)
    then obtain s where "handles L1 h = Some s" by blast
    then show ?thesis using assms that unfolding timer_frame_def by metis
  qed
  moreover have "same_loop L L2" using assms by (simp add: timer_frame_def same_loop_def)
  ultimately show ?thesis unfolding timer_frame_def by blast
qed

lemma timer_frame_handle:
  assumes "handles L h = Some t" "handle_type t = UV_TIMER" "handle_type t' = UV_TIMER" "uv__has_ref t' = uv__has_ref t"
    and "same_loop (L\<lparr>handles := (handles L)(h \<mapsto> t')\<rparr>) L'" "handles L' = (handles L)(h \<mapsto> t')"
  shows "timer_frame L L'"
  using assms by (auto simp: timer_frame_def same_loop_def)

lemma is_timer_frame: "timer_frame L L' \<Longrightarrow> handles L h = Some t \<Longrightarrow> handle_type t = UV_TIMER \<Longrightarrow>
   \<exists>t'. handles L' h = Some t' \<and> handle_type t' = UV_TIMER"
  unfolding timer_frame_def same_loop_def by (metis domIff not_None_eq)

lemma uv_timer_stop_frame:
  assumes h: "handles L h = Some t" "handle_type t = UV_TIMER" and r: "uv_timer_stop L h = Some (r, L')"
  shows "timer_frame L L'"
proof (cases "uv__is_active t")
  case False
  then show ?thesis using h r by (simp add: uv_timer_stop_def timer_frame_refl)
next
  case True
  show ?thesis
    by (rule timer_frame_handle [OF h, of "deactivated t"])
      (use r h True in \<open>auto simp: uv_timer_stop_def uv__handle_stop_def set_flags_def set_handle_def uv__active_handle_rm_def
          active_flags same_loop_def split: bind_splits if_splits\<close>)
qed

lemma uv__handle_start_frame:
  assumes h: "handles L h = Some t" "handle_type t = UV_TIMER" and r: "uv__handle_start L h = Some L'"
  shows "timer_frame L L'"
proof (cases "uv__is_active t")
  case True
  then show ?thesis using h r by (simp add: uv__handle_start_def timer_frame_refl)
next
  case False
  show ?thesis
    by (rule timer_frame_handle [OF h, of "activated t"])
      (use r h False in \<open>auto simp: uv__handle_start_def set_flags_def set_handle_def uv__active_handle_add_def
          active_flags same_loop_def split: if_splits\<close>)
qed

lemma uv_timer_start_frame:
  assumes h: "handles L h = Some t" "handle_type t = UV_TIMER" and r: "uv_timer_start L h cb delay rep = Some (r, L')"
  shows "timer_frame L L'"
proof (cases "uv__is_closing t \<or> cb = 0")
  case True
  then show ?thesis using h r by (auto simp: uv_timer_start_def timer_frame_refl)
next
  case False
  then obtain r1 L1 where L1: "(if uv__is_active t then uv_timer_stop L h else Some (0, L)) = Some (r1, L1)"
    using r h by (auto simp: uv_timer_start_def split: bind_splits)
  have f: "timer_frame L L1"
    using L1 uv_timer_stop_frame [OF h, of r1 L1] timer_frame_refl by (auto split: if_splits)
  obtain s where s: "handles L1 h = Some s" "handle_type s = UV_TIMER" using is_timer_frame [OF f h] by blast
  define d where "d = (if loop_time L1 + delay < delay then - 1 else loop_time L1 + delay)"
  let ?s = "s\<lparr>handle_cb := cb, timeout := d, timer_repeat := rep, start_id := timer_counter L1\<rparr>"
  obtain hp where hp: "uv__handle_start (L1\<lparr>handles := (handles L1)(h \<mapsto> ?s), timer_counter := timer_counter L1 + 1, timer_heap := hp\<rparr>) h = Some L'"
    using r h False L1 s unfolding uv_timer_start_def d_def [symmetric]
    by (auto simp: Let_def set_handle_def d_def [symmetric] split: bind_splits)
  let ?L = "L1\<lparr>handles := (handles L1)(h \<mapsto> ?s), timer_counter := timer_counter L1 + 1, timer_heap := hp\<rparr>"
  have "timer_frame L1 ?L"
    by (rule timer_frame_handle [OF s, of ?s]) (use s in \<open>simp_all add: uv__has_ref_def same_loop_def\<close>)
  moreover have "timer_frame ?L L'" by (rule uv__handle_start_frame [OF _ _ hp, of ?s]) (simp_all add: s(2))
  ultimately show ?thesis using timer_frame_trans f by blast
qed

lemma uv_timer_again_frame:
  assumes h: "handles L h = Some t" "handle_type t = UV_TIMER" and r: "uv_timer_again L h = Some (r, L')"
  shows "timer_frame L L'"
proof (cases "handle_cb t = 0 \<or> timer_repeat t = 0")
  case True
  then show ?thesis using h r by (auto simp: uv_timer_again_def timer_frame_refl split: if_splits)
next
  case False
  then obtain r1 L1 s r2 where 1: "uv_timer_stop L h = Some (r1, L1)" "handles L1 h = Some s"
      "uv_timer_start L1 h (handle_cb s) (timer_repeat s) (timer_repeat s) = Some (r2, L')"
    using r h by (auto simp: uv_timer_again_def split: bind_splits)
  have f: "timer_frame L L1" by (rule uv_timer_stop_frame [OF h 1(1)])
  then have "handle_type s = UV_TIMER" using is_timer_frame [OF f h] 1(2) by auto
  then show ?thesis using uv_timer_start_frame [OF 1(2) _ 1(3)] timer_frame_trans [OF f] by blast
qed

lemma timers_of_handle: "timers_of L h \<noteq> None \<longleftrightarrow> (\<exists>t. handles L h = Some t \<and> handle_type t = UV_TIMER)"
  by (auto simp: timers_of_def split: option.splits)

lemma perform_frame:
  assumes "timers_of L (op_handle op) \<noteq> None" "perform L op = Some (r, L')"
  shows "timer_frame L L'"
proof -
  obtain t where t: "handles L (op_handle op) = Some t" "handle_type t = UV_TIMER" using assms(1) unfolding timers_of_handle by blast
  show ?thesis
  proof (cases op)
    case (SetRepeat h rep)
    show ?thesis
      by (rule timer_frame_handle [OF t, of "t\<lparr>timer_repeat := rep\<rparr>"])
        (use t assms(2) SetRepeat in \<open>auto simp: uv_timer_set_repeat_def set_handle_def uv__has_ref_def same_loop_def\<close>)
  qed (use t assms(2) uv_timer_start_frame uv_timer_stop_frame uv_timer_again_frame in \<open>auto\<close>)
qed

lemma perform_all_frame:
  "\<forall>op \<in> set ops. timers_of L (op_handle op) \<noteq> None \<Longrightarrow> perform_all L ops = Some (rs, L') \<Longrightarrow> timer_frame L L'"
proof (induction ops arbitrary: L rs)
  case Nil
  then show ?case by (simp add: timer_frame_refl)
next
  case (Cons op ops)
  then obtain r L1 rs1 where 1: "perform L op = Some (r, L1)" "perform_all L1 ops = Some (rs1, L')"
    by (auto split: bind_splits)
  have f: "timer_frame L L1" by (rule perform_frame [OF _ 1(1)]) (use Cons.prems(1) in simp)
  have "\<forall>op \<in> set ops. timers_of L1 (op_handle op) \<noteq> None"
    using Cons.prems(1) is_timer_frame [OF f] unfolding timers_of_handle by (meson list.set_intros(2))
  from Cons.IH [OF this 1(2)] show ?case by (rule timer_frame_trans [OF f])
qed

theorem uv__next_timeout_correct_witness:
  "\<exists>L1 rs. perform_all sample_loop [Start 0x1000 7 50 0, Start 0x2000 8 20 0] = Some (rs, L1) \<and> uv__next_timeout L1 = Some 20"
proof -
  let ?ops = "[Start 0x1000 7 50 0, Start 0x2000 8 20 0]"
  let ?T = "\<lparr>now = 1000, next_turn = 2, table = (timers_of sample_loop)
        (0x1000 \<mapsto> \<lparr>action = 7, interval = 0, deadline = Some (1050, 0), closed = False\<rparr>,
         0x2000 \<mapsto> \<lparr>action = 8, interval = 0, deadline = Some (1020, 1), closed = False\<rparr>)\<rparr>"
  have c0: "timer_counter sample_loop = 0" by (simp add: sample_loop_def)
  have known: "\<forall>op \<in> set ?ops. timers_of sample_loop (op_handle op) \<noteq> None" by (simp add: sample_timers)
  from perform_all_specified [OF sample_loop_ok this] c0 obtain rs L1 where
    1: "perform_all sample_loop ?ops = Some (rs, L1)" "loop_ok L1" "specified_all (view sample_loop) ?ops = Some (rs, view L1)" by auto
  have s: "view sample_loop = \<lparr>now = 1000, next_turn = 0, table = timers_of sample_loop\<rparr>"
    by (simp add: view_def sample_loop_def)
  have "closed (state_of idle_timer) = False" using idle_timer_inactive(2) by (simp add: state_of_def)
  then have "specified_all (view sample_loop) ?ops = Some ([0, 0], ?T)"
    unfolding s by (simp add: sample_timers scheduled_def due_time_def)
  then have v: "view L1 = ?T" using 1(3) by simp
  have none: "deadline (state_of idle_timer) = None" using idle_timer_inactive(1) by (simp add: state_of_def)
  have "d \<in> due_times (view L1) \<longleftrightarrow> d = 1050 \<or> d = 1020" for d
  proof
    assume "d \<in> due_times (view L1)"
    then show "d = 1050 \<or> d = 1020" unfolding v due_times_def by (auto simp: sample_timers none split: if_splits)
  next
    assume "d = 1050 \<or> d = 1020"
    then show "d \<in> due_times (view L1)"
    proof
      assume "d = 1050"
      then show ?thesis unfolding v due_times_def by (intro CollectI exI [of _ "0x1000"]) simp
    next
      assume "d = 1020"
      then show ?thesis unfolding v due_times_def by (intro CollectI exI [of _ "0x2000"]) simp
    qed
  qed
  then have times: "due_times (view L1) = {1050, 1020}" by blast
  have "loop_time L1 = 1000" using arg_cong [OF v, of now] by (simp add: view_def)
  then have "uv__next_timeout L1 = Some 20" using uv__next_timeout_correct [OF 1(2)] by (simp add: times min_def)
  then show ?thesis using 1(1) by blast
qed

end
