(* ===== verification/Uv_Run.thy ===== *)
theory Uv_Run
  imports Uv_Timers
begin

text \<open>
  \<open>uv__run_timers\<close> of \<^verbatim>\<open>src/timer.c\<close>: the loop returns, and what runs, in which order, with callbacks
  that operate on timers.
\<close>

section \<open>A pass over the timers\<close>

definition is_expired :: "timer_table \<Rightarrow> addr \<Rightarrow> bool" where
  "is_expired T h \<longleftrightarrow> (\<exists>s d n. table T h = Some s \<and> deadline s = Some (d, n) \<and> d \<le> now T)"

abbreviation expired :: "timer_table \<Rightarrow> addr set" where
  "expired T \<equiv> {h. is_expired T h}"

text \<open>The timers that are due run in the order of their times, and of their starts at the same time.\<close>

definition runs_before :: "timer_table \<Rightarrow> addr \<Rightarrow> addr \<Rightarrow> bool" where
  "runs_before T g h \<longleftrightarrow>
     (\<exists>r s c m d n. table T g = Some r \<and> table T h = Some s \<and> deadline r = Some (c, m) \<and> deadline s = Some (d, n) \<and>
        (c < d \<or> c = d \<and> m < n))"

definition first_expired :: "timer_table \<Rightarrow> addr \<Rightarrow> bool" where
  "first_expired T h \<longleftrightarrow> is_expired T h \<and> (\<forall>g. is_expired T g \<and> g \<noteq> h \<longrightarrow> runs_before T h g)"

text \<open>A timer that runs is over, or set again from now if it repeats.\<close>

definition fire :: "addr \<Rightarrow> timer_table \<Rightarrow> timer_table" where
  "fire h T = (case table T h of None \<Rightarrow> T | Some s \<Rightarrow>
     if interval s = 0 then cancelled T h s else scheduled T h (action s) (interval s) (interval s))"

definition action_of :: "timer_table \<Rightarrow> addr \<Rightarrow> addr" where
  "action_of T h = (case table T h of None \<Rightarrow> 0 | Some s \<Rightarrow> action s)"

text \<open>A callback that operates on timers.\<close>

type_synonym 'u program = "addr \<Rightarrow> addr \<Rightarrow> 'u \<Rightarrow> timer_op list \<times> 'u"

definition calls :: "'u program \<Rightarrow> 'u callback" where
  "calls prog cb h = (\<lambda>(L, u). case prog cb h u of (ops, u') \<Rightarrow> map_option (\<lambda>(rs, L'). (L', u')) (perform_all L ops))"

text \<open>
  A pass: the first of the timers that are due fires, then its callback operates on the timers, and so
  on until none is due.
\<close>

inductive passes :: "'u program \<Rightarrow> timer_table \<Rightarrow> 'u \<Rightarrow> addr list \<Rightarrow> timer_table \<Rightarrow> 'u \<Rightarrow> bool" for prog where
  pass_done: "expired T = {} \<Longrightarrow> passes prog T u [] T u"
| pass_fire: "first_expired T h \<Longrightarrow> prog (action_of T h) h u = (ops, u1) \<Longrightarrow>
    specified_all (fire h T) ops = Some (rs, T1) \<Longrightarrow> passes prog T1 u1 hs T2 u2 \<Longrightarrow> passes prog T u (h # hs) T2 u2"

text \<open>Operations that leave no timer due that was not.\<close>

fun never_due :: "timer_op \<Rightarrow> bool" where
  "never_due (Start h cb delay rep) \<longleftrightarrow> delay \<noteq> 0"
| "never_due op \<longleftrightarrow> True"

lemma due_time_later: "now' < - 1 \<Longrightarrow> delay \<noteq> 0 \<Longrightarrow> now' < due_time now' delay"
proof -
  assume a: "now' < - 1" "delay \<noteq> 0"
  have "unat now' < 2 ^ 64 - 1" using a(1) unfolding word_less_nat_alt unat_max64 .
  moreover have "0 < unat delay" using a(2) by (simp add: unat_gt_0)
  ultimately show ?thesis unfolding word_less_nat_alt unat_due_time by simp
qed

lemma expired_scheduled:
  "now T < - 1 \<Longrightarrow> delay \<noteq> 0 \<Longrightarrow> is_expired (scheduled T h cb delay rep) g \<longleftrightarrow> is_expired T g \<and> g \<noteq> h"
  using due_time_later [of "now T" delay] by (auto simp: is_expired_def scheduled_def split: if_splits)

lemma expired_cancelled: "is_expired (cancelled T h s) g \<longleftrightarrow> is_expired T g \<and> g \<noteq> h"
  by (auto simp: is_expired_def cancelled_def split: if_splits)

lemma now_ops: "now (scheduled T h cb delay rep) = now T" "now (cancelled T h s) = now T"
  by (simp_all add: scheduled_def cancelled_def)

lemma now_fire: "now (fire h T) = now T"
  by (simp add: fire_def now_ops split: option.splits)

lemma expired_fire: "now T < - 1 \<Longrightarrow> is_expired T h \<Longrightarrow> expired (fire h T) = expired T - {h}"
proof (intro set_eqI)
  fix g
  assume a: "now T < - 1" "is_expired T h"
  then obtain s where "table T h = Some s" by (auto simp: is_expired_def)
  then show "g \<in> expired (fire h T) \<longleftrightarrow> g \<in> expired T - {h}"
    using a by (simp add: fire_def expired_scheduled expired_cancelled)
qed

lemma expired_specified:
  assumes "now T < - 1" "never_due op" "table T (op_handle op) = Some s"
  shows "expired (snd (specified T op s)) \<subseteq> expired T" "now (snd (specified T op s)) = now T"
proof -
  have "is_expired T g" if g: "is_expired (snd (specified T op s)) g" for g
  proof (cases op)
    case (SetRepeat h rep)
    then show ?thesis using g assms(3) by (auto simp: is_expired_def split: if_splits)
  qed (use g assms in \<open>auto simp: expired_scheduled expired_cancelled split: if_splits\<close>)
  then show "expired (snd (specified T op s)) \<subseteq> expired T" by blast
  show "now (snd (specified T op s)) = now T" by (cases op) (simp_all add: now_ops)
qed

lemma expired_specified_all:
  "specified_all T ops = Some (rs, T') \<Longrightarrow> now T < - 1 \<Longrightarrow> (\<And>op. op \<in> set ops \<Longrightarrow> never_due op) \<Longrightarrow>
   expired T' \<subseteq> expired T \<and> now T' = now T"
proof (induction ops arbitrary: T rs)
  case (Cons op ops)
  obtain s rs' where s: "table T (op_handle op) = Some s" "specified_all (snd (specified T op s)) ops = Some (rs', T')"
    using Cons.prems(1) by (auto simp: split_beta split: bind_splits)
  have op: "expired (snd (specified T op s)) \<subseteq> expired T" "now (snd (specified T op s)) = now T"
    by (rule expired_specified [OF Cons.prems(2) _ s(1)], simp add: Cons.prems(3))+
  show ?case using Cons.IH [OF s(2)] op Cons.prems(2,3) by auto
qed simp

lemma stop_then_again:
  assumes ok: "loop_ok L" and h: "handles L h = Some t" "handle_type t = UV_TIMER" "uv__is_active t" and room: "timer_counter L < - 1"
  shows "\<exists>L1 L2 s. uv_timer_stop L h = Some (0, L1) \<and> uv_timer_again L1 h = Some (0, L2) \<and> loop_ok L2 \<and>
    view L2 = fire h (view L) \<and> dom (timers_of L2) = dom (timers_of L) \<and> timer_counter L2 \<le> timer_counter L + 1 \<and>
    handles L2 h = Some s \<and> handle_cb s = action_of (view L) h"
proof -
  have t: "timer_ok L h t" "timers_of L h = Some (state_of t)"
    using ok h by (simp_all add: loop_ok_def timers_of_def)
  then have cb: "handle_cb t \<noteq> 0" "\<not> uv__is_closing t" using h(3) by (simp_all add: timer_ok_def)
  obtain L1 f where L1: "uv_timer_stop L h = Some (0, L1)" "loop_ok L1"
      "timers_of L1 = (timers_of L)(h \<mapsto> (state_of t)\<lparr>deadline := None\<rparr>)" "same_loop L L1"
      "timer_counter L1 = timer_counter L" "handles L1 h = Some (t\<lparr>handle_flags := f\<rparr>)"
      "uv__is_closing (t\<lparr>handle_flags := f\<rparr>) = uv__is_closing t"
    using uv_timer_stop_ok [OF ok h(1,2)] by blast
  let ?t = "t\<lparr>handle_flags := f\<rparr>"
  have room1: "timer_counter L1 < - 1" and type: "handle_type ?t = UV_TIMER" using room L1(5) h(2) by simp_all
  obtain L2 where L2: "uv_timer_again L1 h = Some (0, L2)" "loop_ok L2" "same_loop L1 L2"
      "timer_counter L2 \<le> timer_counter L1 + 1"
      "if timer_repeat t = 0 then L2 = L1
       else timer_counter L2 = timer_counter L1 + 1 \<and>
         timers_of L2 = (timers_of L1)(h \<mapsto> \<lparr>action = handle_cb t, interval = timer_repeat t,
           deadline = Some (due_time (loop_time L1) (timer_repeat t), timer_counter L1), closed = False\<rparr>)"
    using uv_timer_again_ok [OF L1(2,6) type room1] cb L1(7) by auto
  have t2: "timers_of L2 = (if timer_repeat t = 0 then (timers_of L)(h \<mapsto> (state_of t)\<lparr>deadline := None\<rparr>)
      else (timers_of L)(h \<mapsto> \<lparr>action = handle_cb t, interval = timer_repeat t,
           deadline = Some (due_time (loop_time L1) (timer_repeat t), timer_counter L1), closed = False\<rparr>))"
    using L2(5) L1(3) by (simp split: if_splits)
  have "\<exists>s. handles L2 h = Some s \<and> handle_cb s = handle_cb t"
  proof -
    have "\<exists>x. timers_of L2 h = Some x \<and> action x = handle_cb t"
      unfolding t2 by (simp add: state_of_def)
    then show ?thesis by (auto simp: timers_of_def state_of_def split: option.splits if_splits)
  qed
  moreover have "view L2 = fire h (view L)"
  proof (cases "timer_repeat t = 0")
    case True
    then show ?thesis using t(2) L1(4,5) L2(3,5) t2
      by (simp add: view_def fire_def cancelled_def state_of_def same_loop_def)
  next
    case False
    then show ?thesis using t(2) L1(4,5) L2(3,5) t2
      by (simp add: view_def fire_def scheduled_def state_of_def same_loop_def)
  qed
  moreover have "dom (timers_of L2) = dom (timers_of L)" unfolding t2 using t(2) by auto
  moreover have "action_of (view L) h = handle_cb t" using t(2) by (simp add: action_of_def view_def state_of_def)
  ultimately show ?thesis using L1(1,5) L2(1,2,4) by auto
qed

text \<open>The root of the heap is the first timer that is due, if any is.\<close>

lemma is_expired_view: "is_expired (view L) h \<longleftrightarrow> h \<in> active_timers L \<and> (\<exists>t. handles L h = Some t \<and> timeout t \<le> loop_time L)"
proof -
  have "is_expired (view L) h \<longleftrightarrow> (\<exists>s d n. (timers_of L h = Some s \<and> deadline s = Some (d, n)) \<and> d \<le> loop_time L)"
    by (simp add: is_expired_def view_def)
  then show ?thesis unfolding timers_deadline by auto
qed

lemma runs_before_view:
  assumes "g \<in> active_timers L" "h \<in> active_timers L" "handles L g = Some r" "handles L h = Some s"
    and "timeout r < timeout s \<or> timeout r = timeout s \<and> start_id r < start_id s"
  shows "runs_before (view L) g h"
proof -
  have "timers_of L g = Some (state_of r) \<and> deadline (state_of r) = Some (timeout r, start_id r)"
    "timers_of L h = Some (state_of s) \<and> deadline (state_of s) = Some (timeout s, start_id s)"
    unfolding timers_deadline using assms(1-4) by simp_all
  then show ?thesis using assms(5) unfolding runs_before_def view_def by auto
qed

lemma nothing_expired:
  assumes ok: "loop_ok L"
    and "heap_min (timer_heap L) = 0 \<or> handles L (heap_min (timer_heap L) - HEAP_NODE) = Some t \<and> loop_time L < timeout t"
  shows "expired (view L) = {}"
proof -
  have False if g: "is_expired (view L) g" for g
  proof -
    obtain s where s: "g \<in> active_timers L" "handles L g = Some s" "timeout s \<le> loop_time L"
      using g unfolding is_expired_view by blast
    then have "heap_min (timer_heap L) \<noteq> 0" using first_timer(1) [OF ok] by blast
    then have t: "handles L (heap_min (timer_heap L) - HEAP_NODE) = Some t" "loop_time L < timeout t" using assms(2) by auto
    then have "\<not> timeout s < timeout t"
      using first_timer(3) [OF ok s(1)] s(2) by (auto simp: timer_lt_def timer_key_def)
    then show False using s(3) t(2) by simp
  qed
  then show ?thesis by blast
qed

lemma root_expired:
  assumes ok: "loop_ok L" and root: "heap_min (timer_heap L) \<noteq> 0"
    and t: "handles L (heap_min (timer_heap L) - HEAP_NODE) = Some t" "\<not> loop_time L < timeout t"
  shows "first_expired (view L) (heap_min (timer_heap L) - HEAP_NODE)"
proof -
  let ?h = "heap_min (timer_heap L) - HEAP_NODE"
  have h: "?h \<in> active_timers L" using first_timer(1,2) [OF ok] root by blast
  have "runs_before (view L) ?h g" if g: "is_expired (view L) g" "g \<noteq> ?h" for g
  proof -
    obtain s where s: "g \<in> active_timers L" "handles L g = Some s" using g(1) unfolding is_expired_view by blast
    have "inj_on (\<lambda>h. map_option start_id (handles L h)) (active_timers L)" using ok by (simp add: loop_ok_def)
    from inj_onD [OF this _ s(1) h] have "start_id s \<noteq> start_id t" using g(2) s(2) t(1) by auto
    moreover have "\<not> timer_lt (handles L) (g + HEAP_NODE) (heap_min (timer_heap L))" by (rule first_timer(3) [OF ok s(1)])
    ultimately have "timeout t < timeout s \<or> timeout t = timeout s \<and> start_id t < start_id s"
      using s(2) t(1) by (auto simp: timer_lt_def timer_key_def)
    then show ?thesis by (rule runs_before_view [OF h s(1) t(1) s(2)])
  qed
  moreover have "is_expired (view L) ?h" using h t unfolding is_expired_view by simp
  ultimately show ?thesis by (simp add: first_expired_def)
qed

lemma run_timers_passes:
  assumes "loop_ok L" "loop_time L < - 1" "dom (timers_of L) = D"
    and good: "\<And>cb h u op. op \<in> set (fst (prog cb h u)) \<Longrightarrow> op_handle op \<in> D \<and> never_due op"
    and bound: "\<And>cb h u. length (fst (prog cb h u)) \<le> k"
    and "unat (timer_counter L) + card (expired (view L)) * (k + 1) < 2 ^ 64"
  shows "\<exists>hs L' u'. uv__run_timers (calls prog) (L, u) = Some (L', u') \<and> loop_ok L' \<and> passes prog (view L) u hs (view L') u' \<and>
    expired (view L') = {} \<and> set hs \<subseteq> expired (view L) \<and> distinct hs \<and> timer_frame L L'"
  using assms(1-3,6)
proof (induction "card (expired (view L))" arbitrary: L u rule: less_induct)
  case less
  let ?a = "heap_min (timer_heap L)" let ?h = "?a - HEAP_NODE"
  have fin: "finite (expired (view L))"
    by (rule finite_subset [OF _ finite_active [OF less.prems(1)]]) (auto simp: is_expired_view)
  show ?case
  proof (cases "?a = 0 \<or> (\<exists>t. handles L ?h = Some t \<and> loop_time L < timeout t)")
    case True
    then have none: "expired (view L) = {}" using nothing_expired [OF less.prems(1)] by blast
    have "uv__run_timers (calls prog) (L, u) = Some (L, u)"
      using True by (subst uv__run_timers.simps) (auto simp: Let_def)
    then show ?thesis using none less.prems(1) pass_done [OF none, of prog u]
      by (intro exI [of _ "[]"] exI [of _ L] exI [of _ u]) (simp add: timer_frame_refl)
  next
    case False
    then have h: "?h \<in> active_timers L" "?a \<noteq> 0" using first_timer(1,2) [OF less.prems(1)] by auto
    then obtain t where t: "handles L ?h = Some t" "handle_type t = UV_TIMER" "uv__is_active t" "\<not> loop_time L < timeout t"
      using False by (auto simp: active_timers_def)
    have first: "first_expired (view L) ?h" by (rule root_expired [OF less.prems(1) h(2) t(1,4)])
    then have ex: "is_expired (view L) ?h" by (simp add: first_expired_def)
    then have "0 < card (expired (view L))" using fin by (auto simp: card_gt_0_iff)
    then have c0: "unat (timer_counter L) + 1 + k + (card (expired (view L)) - 1) * (k + 1) < 2 ^ 64"
      using less.prems(4) by (cases "card (expired (view L))") simp_all
    then have room: "timer_counter L < - 1" by (simp add: word_less_nat_alt unat_max64)
    obtain L1 L2 s where L2: "uv_timer_stop L ?h = Some (0, L1)" "uv_timer_again L1 ?h = Some (0, L2)" "loop_ok L2"
        "view L2 = fire ?h (view L)" "dom (timers_of L2) = dom (timers_of L)" "timer_counter L2 \<le> timer_counter L + 1"
        "handles L2 ?h = Some s" "handle_cb s = action_of (view L) ?h"
      using stop_then_again [OF less.prems(1) t(1-3) room] by blast
    obtain ops u1 where ops: "prog (handle_cb s) ?h u = (ops, u1)" by fastforce
    have opsD: "\<forall>op \<in> set ops. timers_of L2 (op_handle op) \<noteq> None" "\<And>op. op \<in> set ops \<Longrightarrow> never_due op" "length ops \<le> k"
      using good [where cb = "handle_cb s" and h = ?h and u = u] bound [of "handle_cb s" ?h u] ops less.prems(3) L2(5) by (auto simp: domIff [symmetric])
    have "unat (timer_counter L + 1) = unat (timer_counter L) + 1" using c0 unat_add_lem [of "timer_counter L" 1] by simp
    then have c2: "unat (timer_counter L2) \<le> unat (timer_counter L) + 1" using L2(6) by (simp add: word_le_nat_alt)
    then have "unat (timer_counter L2) + length ops < 2 ^ 64" using c0 opsD(3) by linarith
    then obtain rs L3 where L3: "perform_all L2 ops = Some (rs, L3)" "loop_ok L3"
        "specified_all (view L2) ops = Some (rs, view L3)" "dom (timers_of L3) = dom (timers_of L2)"
        "unat (timer_counter L3) \<le> unat (timer_counter L2) + length ops"
      using perform_all_specified [OF L2(3) opsD(1)] by blast
    have nowL: "now (view L) = loop_time L" "now (view L3) = loop_time L3" by (simp_all add: view_def)
    have fired: "expired (view L2) = expired (view L) - {?h}" "now (view L2) = loop_time L"
      using expired_fire [OF _ ex] less.prems(2) nowL by (simp_all add: L2(4) now_fire)
    then have sub: "expired (view L3) \<subseteq> expired (view L) - {?h}" "loop_time L3 = loop_time L"
      using expired_specified_all [OF L3(3) _ opsD(2)] less.prems(2) nowL by auto
    have le: "card (expired (view L3)) \<le> card (expired (view L)) - 1"
      using card_mono [OF _ sub(1)] fin ex by simp
    then have "card (expired (view L3)) < card (expired (view L))" using \<open>0 < card (expired (view L))\<close> by linarith
    moreover have "unat (timer_counter L3) + card (expired (view L3)) * (k + 1) < 2 ^ 64"
      using mult_le_mono1 [OF le, of "k + 1"] c0 c2 L3(5) opsD(3) by linarith
    ultimately obtain hs L' u' where IH: "uv__run_timers (calls prog) (L3, u1) = Some (L', u')" "loop_ok L'"
        "passes prog (view L3) u1 hs (view L') u'" "expired (view L') = {}" "set hs \<subseteq> expired (view L3)" "distinct hs"
        "timer_frame L3 L'"
      using less.hyps [of L3 u1] L3(2,4) L2(5) less.prems(2,3) sub(2) by auto
    have "uv__run_timers (calls prog) (L, u) = Some (L', u')"
      using h(2) t L2(1,2,7) ops L3(1) IH(1) by (subst uv__run_timers.simps) (simp add: calls_def)
    moreover have "timer_frame L L'"
    proof -
      have f1: "timer_frame L L1" by (rule uv_timer_stop_frame [OF t(1,2) L2(1)])
      obtain t1 where t1: "handles L1 ?h = Some t1" "handle_type t1 = UV_TIMER" using is_timer_frame [OF f1 t(1,2)] by blast
      have "timer_frame L1 L2" by (rule uv_timer_again_frame [OF t1 L2(2)])
      moreover have "timer_frame L2 L3" by (rule perform_all_frame [OF opsD(1) L3(1)])
      ultimately show ?thesis using f1 IH(7) timer_frame_trans by blast
    qed
    moreover have "passes prog (view L) u (?h # hs) (view L') u'"
      using pass_fire [OF first _ _ IH(3), of u ops rs] ops L2(4,8) L3(3) by simp
    moreover have "set (?h # hs) \<subseteq> expired (view L)" "distinct (?h # hs)" using IH(5,6) sub(1) ex by auto
    ultimately show ?thesis using IH(2,4) by blast
  qed
qed


text \<open>If the callbacks leave the timers alone, those that are due run once each, in the order of their times.\<close>

lemma runs_before_fire: "g \<noteq> h \<Longrightarrow> g' \<noteq> h \<Longrightarrow> runs_before (fire h T) g g' \<longleftrightarrow> runs_before T g g'"
proof -
  assume "g \<noteq> h" "g' \<noteq> h"
  moreover have "table (fire h T) g = table T g" if "g \<noteq> h" for g
    using that by (simp add: fire_def scheduled_def cancelled_def split: option.splits)
  ultimately show ?thesis by (simp add: runs_before_def)
qed

lemma passes_in_order:
  assumes "passes prog T u hs T' u'" "\<And>cb h u. fst (prog cb h u) = []" "now T < - 1"
  shows "set hs = expired T \<and> sorted_wrt (runs_before T) hs"
  using assms(1,3)
proof (induction rule: passes.induct)
  case (pass_done T u)
  then show ?case by simp
next
  case (pass_fire T h u ops u1 rs T1 hs T2 u2)
  have "ops = []" using assms(2) [of "action_of T h" h u] pass_fire.hyps(2) by simp
  then have T1: "T1 = fire h T" using pass_fire.hyps(3) by simp
  have h: "is_expired T h" using pass_fire.hyps(1) by (simp add: first_expired_def)
  have IH: "set hs = expired T - {h}" "sorted_wrt (runs_before (fire h T)) hs"
    using pass_fire.IH expired_fire [OF pass_fire.prems h] pass_fire.prems unfolding T1 by (simp_all add: now_fire)
  have "sorted_wrt (runs_before T) hs"
    by (rule sorted_wrt_mono_rel [OF _ IH(2)]) (use IH(1) in \<open>simp add: runs_before_fire\<close>)
  moreover have "\<forall>g \<in> set hs. runs_before T h g" using pass_fire.hyps(1) IH(1) by (simp add: first_expired_def)
  ultimately show ?case using IH(1) h by auto
qed

text \<open>
  C40. \<open>uv__run_timers\<close> returns if callbacks never start a timer with a delay of 0, and no callback
  does more than \<open>k\<close> operations (a callback that starts its timer with a delay of 0 keeps the pass going): every timer that was due at the start either runs, exactly once, or is put off by the
  callback of an earlier one; each timer that runs is the first that is due then, it is over or set again
  from now by its interval before its callback is called, and no timer is due at the end. Where
  callbacks leave the timers alone, all timers that are due run, in the order of the times, and of the
  starts for equal times.
\<close>

theorem uv__run_timers_correct:
  assumes "loop_ok L" "loop_time L < - 1"
    and "\<And>cb h u op. op \<in> set (fst (prog cb h u)) \<Longrightarrow> timers_of L (op_handle op) \<noteq> None \<and> never_due op"
    and "\<And>cb h u. length (fst (prog cb h u)) \<le> k"
    and "unat (timer_counter L) + card {h. is_expired (view L) h} * (k + 1) < 2 ^ 64"
  shows "\<exists>hs L' u'. uv__run_timers (calls prog) (L, u) = Some (L', u') \<and> loop_ok L' \<and>
    passes prog (view L) u hs (view L') u' \<and> (\<forall>h. \<not> is_expired (view L') h) \<and>
    distinct hs \<and> set hs \<subseteq> {h. is_expired (view L) h} \<and>
    ((\<forall>cb h u. fst (prog cb h u) = []) \<longrightarrow>
       set hs = {h. is_expired (view L) h} \<and> sorted_wrt (runs_before (view L)) hs)"
proof -
  have "\<exists>hs L' u'. uv__run_timers (calls prog) (L, u) = Some (L', u') \<and> loop_ok L' \<and>
      passes prog (view L) u hs (view L') u' \<and> expired (view L') = {} \<and> set hs \<subseteq> expired (view L) \<and> distinct hs \<and>
      timer_frame L L'"
    using assms(3) by (intro run_timers_passes [OF assms(1,2) refl _ assms(4,5)]) auto
  then obtain hs L' u' where r: "uv__run_timers (calls prog) (L, u) = Some (L', u')" "loop_ok L'"
      "passes prog (view L) u hs (view L') u'" "expired (view L') = {}" "set hs \<subseteq> expired (view L)" "distinct hs"
    by blast
  have "now (view L) < - 1" using assms(2) by (simp add: view_def)
  then have "(\<forall>cb h u. fst (prog cb h u) = []) \<longrightarrow> set hs = expired (view L) \<and> sorted_wrt (runs_before (view L)) hs"
    using passes_in_order [OF r(3)] by blast
  then show ?thesis using r by blast
qed


text \<open>Two timers that are due at once; the callback of the first puts the second off.\<close>

definition sample_program :: "addr list program" where
  "sample_program cb h u = (if cb = 7 then [Start 0x2000 8 5 0] else [], u @ [h])"

theorem uv__run_timers_correct_witness:
  "\<exists>L1 rs L' u'. perform_all sample_loop [Start 0x1000 7 0 10, Start 0x2000 8 0 0] = Some (rs, L1) \<and>
    is_expired (view L1) 0x1000 \<and> is_expired (view L1) 0x2000 \<and>
    uv__run_timers (calls sample_program) (L1, []) = Some (L', u') \<and> loop_ok L' \<and>
    \<not> is_expired (view L') 0x1000 \<and> \<not> is_expired (view L') 0x2000"
proof -
  let ?ops = "[Start 0x1000 7 0 10, Start 0x2000 8 0 0]"
  let ?T = "\<lparr>now = 1000, next_turn = 2, table = (timers_of sample_loop)
        (0x1000 \<mapsto> \<lparr>action = 7, interval = 10, deadline = Some (1000, 0), closed = False\<rparr>,
         0x2000 \<mapsto> \<lparr>action = 8, interval = 0, deadline = Some (1000, 1), closed = False\<rparr>)\<rparr>"
  have c0: "timer_counter sample_loop = 0" by (simp add: sample_loop_def)
  have "\<forall>op \<in> set ?ops. timers_of sample_loop (op_handle op) \<noteq> None" by (simp add: sample_timers)
  then obtain rs L1 where L1: "perform_all sample_loop ?ops = Some (rs, L1)" "loop_ok L1"
      "specified_all (view sample_loop) ?ops = Some (rs, view L1)" "dom (timers_of L1) = dom (timers_of sample_loop)"
      "unat (timer_counter L1) \<le> 2"
    using perform_all_specified [OF sample_loop_ok, of ?ops] c0 by auto
  have s: "view sample_loop = \<lparr>now = 1000, next_turn = 0, table = timers_of sample_loop\<rparr>"
    by (simp add: view_def sample_loop_def)
  have "closed (state_of idle_timer) = False" using idle_timer_inactive(2) by (simp add: state_of_def)
  then have "specified_all (view sample_loop) ?ops = Some ([0, 0], ?T)"
    unfolding s by (simp add: sample_timers scheduled_def due_time_def)
  then have v: "view L1 = ?T" using L1(3) by simp
  have time: "loop_time L1 = 1000" using arg_cong [OF v, of now] by (simp add: view_def)
  have "deadline (state_of idle_timer) = None" using idle_timer_inactive(1) by (simp add: state_of_def)
  then have ex: "is_expired (view L1) h \<longleftrightarrow> h \<in> {0x1000, 0x2000}" for h
    unfolding v is_expired_def by (auto simp: sample_timers split: if_splits)
  have set: "{h. is_expired (view L1) h} = {0x1000, 0x2000}" by (simp only: ex Collect_mem_eq)
  have "0x2000 \<in> dom (timers_of sample_loop)" by (simp add: domIff sample_timers)
  then have dom: "timers_of L1 0x2000 \<noteq> None" unfolding L1(4) [symmetric] by (simp add: domIff)
  have "loop_time L1 < - 1" unfolding time by (simp add: word_less_nat_alt unat_max64)
  moreover have "\<And>cb h u op. op \<in> set (fst (sample_program cb h u)) \<Longrightarrow> timers_of L1 (op_handle op) \<noteq> None \<and> never_due op"
    using dom by (auto simp: sample_program_def split: if_splits)
  moreover have "\<And>cb h u. length (fst (sample_program cb h u)) \<le> 1" by (simp add: sample_program_def)
  moreover have "unat (timer_counter L1) + card {h. is_expired (view L1) h} * (1 + 1) < 2 ^ 64"
    using L1(5) by (simp add: set)
  ultimately obtain hs L' u' where "uv__run_timers (calls sample_program) (L1, []) = Some (L', u')" "loop_ok L'"
      "\<forall>h. \<not> is_expired (view L') h"
    using uv__run_timers_correct [OF L1(2), where prog = sample_program and k = 1 and u = "[]"] by blast
  then show ?thesis using L1(1) ex by blast
qed

end
