(* ===== verification/Uv_Watchers.thy ===== *)
theory Uv_Watchers
  imports Uv_Timers "HOL-Library.Sublist"
begin

text \<open>
  The prepare, check and idle watchers of \<^verbatim>\<open>src/unix/loop-watcher.c\<close>, whose macro defines the same five
  functions for each of the three types, and \<open>uv_walk\<close> of \<^verbatim>\<open>src/uv-common.c\<close>. A pass moves the queue of the
  loop to a local queue, so callbacks may start and stop watchers.
\<close>

section \<open>Watchers\<close>

definition uv_watcher_init :: "uv_handle_type \<Rightarrow> uv_loop \<Rightarrow> addr \<Rightarrow> (int \<times> uv_loop) option" where
  "uv_watcher_init ty L h = do {
     L \<leftarrow> uv__handle_init L h ty;
     t \<leftarrow> handles L h;
     Some (0, set_handle L h (t\<lparr>handle_cb := 0\<rparr>)) }"

definition uv_watcher_start :: "uv_handle_type \<Rightarrow> uv_loop \<Rightarrow> addr \<Rightarrow> addr \<Rightarrow> (int \<times> uv_loop) option" where
  "uv_watcher_start ty L h cb = do {
     t \<leftarrow> handles L h;
     if uv__is_active t then Some (0, L)
     else if cb = 0 then Some (UV_EINVAL, L)
     else do {
       Q \<leftarrow> QUEUE_INSERT_HEAD (queues_of L) (watchers_at L ty) (h + WATCHER_QUEUE);
       let L = set_handle (L\<lparr>queues_of := Q\<rparr>) h (t\<lparr>handle_cb := cb\<rparr>);
       L \<leftarrow> uv__handle_start L h;
       Some (0, L) } }"

definition uv_watcher_stop :: "uv_loop \<Rightarrow> addr \<Rightarrow> (int \<times> uv_loop) option" where
  "uv_watcher_stop L h = do {
     t \<leftarrow> handles L h;
     if \<not> uv__is_active t then Some (0, L)
     else do {
       Q \<leftarrow> QUEUE_REMOVE (queues_of L) (h + WATCHER_QUEUE);
       L \<leftarrow> uv__handle_stop (L\<lparr>queues_of := Q\<rparr>) h;
       Some (0, L) } }"

definition uv__watcher_close :: "uv_loop \<Rightarrow> addr \<Rightarrow> uv_loop option" where
  "uv__watcher_close L h = map_option snd (uv_watcher_stop L h)"

text \<open>\<open>queue\<close> is the address of the local queue.\<close>

partial_function (option) watcher_loop :: "uv_handle_type \<Rightarrow> 'u callback \<Rightarrow> addr \<Rightarrow> 'u world \<Rightarrow> 'u world option" where
  "watcher_loop ty call queue w = do {
     let (L, u) = w;
     e \<leftarrow> QUEUE_EMPTY (queues_of L) queue;
     if e then Some w
     else do {
       q \<leftarrow> QUEUE_HEAD (queues_of L) queue;
       let h = q - WATCHER_QUEUE;
       Q \<leftarrow> QUEUE_REMOVE (queues_of L) q;
       Q \<leftarrow> QUEUE_INSERT_TAIL Q (watchers_at L ty) q;
       t \<leftarrow> handles L h;
       w \<leftarrow> call (handle_cb t) h (L\<lparr>queues_of := Q\<rparr>, u);
       watcher_loop ty call queue w } }"

definition uv__run_watchers :: "uv_handle_type \<Rightarrow> 'u callback \<Rightarrow> addr \<Rightarrow> 'u world \<Rightarrow> 'u world option" where
  "uv__run_watchers ty call queue = (\<lambda>(L, u). do {
     Q \<leftarrow> QUEUE_MOVE (queues_of L) (watchers_at L ty) queue;
     watcher_loop ty call queue (L\<lparr>queues_of := Q\<rparr>, u) })"

text \<open>\<open>uv_walk\<close> with \<open>cb\<close> for the callback and its argument.\<close>

partial_function (option) walk_loop :: "(addr \<Rightarrow> 'u world \<Rightarrow> 'u world option) \<Rightarrow> addr \<Rightarrow> 'u world \<Rightarrow> 'u world option" where
  "walk_loop cb queue w = do {
     let (L, u) = w;
     e \<leftarrow> QUEUE_EMPTY (queues_of L) queue;
     if e then Some w
     else do {
       q \<leftarrow> QUEUE_HEAD (queues_of L) queue;
       let h = q - HANDLE_QUEUE;
       Q \<leftarrow> QUEUE_REMOVE (queues_of L) q;
       Q \<leftarrow> QUEUE_INSERT_TAIL Q (handle_queue L) q;
       let L = L\<lparr>queues_of := Q\<rparr>;
       t \<leftarrow> handles L h;
       if handle_flags t AND UV_HANDLE_INTERNAL \<noteq> 0 then walk_loop cb queue (L, u)
       else do { w \<leftarrow> cb h (L, u); walk_loop cb queue w } } }"

definition uv_walk :: "(addr \<Rightarrow> 'u world \<Rightarrow> 'u world option) \<Rightarrow> addr \<Rightarrow> 'u world \<Rightarrow> 'u world option" where
  "uv_walk cb queue = (\<lambda>(L, u). do {
     Q \<leftarrow> QUEUE_MOVE (queues_of L) (handle_queue L) queue;
     walk_loop cb queue (L\<lparr>queues_of := Q\<rparr>, u) })"

section \<open>Handles that are not timers\<close>

text \<open>A change of a handle that is no timer keeps the invariant and the timers, if the count is adjusted.\<close>

lemma loop_ok_other:
  assumes ok: "loop_ok L" and h: "handles L h = Some t" "handle_type t \<noteq> UV_TIMER" "handle_type t' = handle_type t"
    and L': "L' = L\<lparr>handles := (handles L)(h \<mapsto> t'), active_handles := n, queues_of := Q\<rparr>" and n: "n = of_nat (card (counted L'))"
  shows "loop_ok L'" "view L' = view L"
proof -
  have act: "active_timers L' = active_timers L" using h by (auto simp: active_timers_def L')
  have dom: "dom (handles L') = dom (handles L)" using h(1) by (auto simp: L')
  have same: "handles L' g = handles L g" if "g \<in> active_timers L" for g using that h by (auto simp: L' active_timers_def)
  have key: "timer_key (handles L') a = timer_key (handles L) a" if "a \<in> (\<lambda>h. h + HEAP_NODE) ` active_timers L" for a
    using that same by (auto simp: timer_key_def)
  obtain xs where xs: "linked (timer_heap L) xs" "ordered (timer_lt (handles L)) xs"
    "set xs = (\<lambda>h. h + HEAP_NODE) ` active_timers L" by (rule heap_okE [OF ok])
  have "ordered (timer_lt (handles L')) xs" by (rule ordered_keys [OF xs(2)]) (simp add: key xs(3))
  then have "heap_ok L'" using xs(1,3) unfolding heap_ok_def act by (auto simp: L')
  moreover have "timer_ok L' g s" if "handles L' g = Some s" "handle_type s = UV_TIMER" for g s
  proof -
    have "handles L g = Some s" using that h by (auto simp: L' split: if_splits)
    then have "timer_ok L g s" using ok that(2) by (simp add: loop_ok_def)
    then show ?thesis by (simp add: timer_ok_def L')
  qed
  moreover have "inj_on (\<lambda>h. map_option start_id (handles L' h)) (active_timers L')"
    using ok same unfolding loop_ok_def act by (simp cong: inj_on_cong)
  moreover have "active_handles L' = of_nat (card (counted L'))" unfolding n [symmetric] by (simp add: L')
  ultimately show "loop_ok L'" using ok unfolding loop_ok_def dom by blast
  have "timers_of L' = timers_of L" using h by (auto simp: fun_eq_iff timers_of_def L')
  then show "view L' = view L" by (simp add: view_def L')
qed

lemma finite_counted: "loop_ok L \<Longrightarrow> finite (counted L)"
  by (rule finite_subset [OF active_timers_dom(2)]) (simp add: loop_ok_def)

lemma counted_update:
  assumes "finite (counted L)" "handles L h = Some t" "uv__is_active t' \<and> uv__has_ref t' \<longleftrightarrow> c"
    and "active_handles L = of_nat (card (counted L))" "counted L' = {g. \<exists>s. ((handles L)(h \<mapsto> t')) g = Some s \<and> uv__is_active s \<and> uv__has_ref s}"
  shows "of_nat (card (counted L')) =
    (if c then if h \<in> counted L then active_handles L else active_handles L + 1
     else if h \<in> counted L then active_handles L - 1 else active_handles L)"
proof -
  have "counted L' = (if c then insert h (counted L) else counted L - {h})"
    using assms(2,3,5) by (auto simp: counted_def split: if_splits)
  then show ?thesis using assms(1,4) u32_count_insert [OF assms(1), of h] u32_count_remove [OF assms(1), of h] by (auto simp: insert_absorb)
qed

lemma uv__handle_start_other:
  assumes ok: "loop_ok L" and h: "handles L h = Some t" "handle_type t \<noteq> UV_TIMER" "\<not> uv__is_active t"
  shows "\<exists>L'. uv__handle_start L h = Some L' \<and> loop_ok L' \<and> view L' = view L \<and> same_loop L L' \<and>
    handles L' = (handles L)(h \<mapsto> activated t)"
proof -
  let ?n = "if uv__has_ref t then active_handles L + 1 else active_handles L"
  let ?L = "L\<lparr>handles := (handles L)(h \<mapsto> activated t), active_handles := ?n, queues_of := queues_of L\<rparr>"
  have "h \<notin> counted L" using h by (simp add: counted_def)
  moreover have "of_nat (card (counted ?L)) = (if uv__has_ref t then if h \<in> counted L then active_handles L else active_handles L + 1
     else if h \<in> counted L then active_handles L - 1 else active_handles L)"
    by (rule counted_update [OF finite_counted [OF ok] h(1), of "activated t"])
      (use ok in \<open>auto simp: active_flags counted_def loop_ok_def\<close>)
  ultimately have n: "?n = of_nat (card (counted ?L))" by simp
  have "uv__handle_start L h = Some ?L"
    using h by (simp add: uv__handle_start_def set_flags_def set_handle_def uv__active_handle_add_def)
  moreover have "loop_ok ?L" "view ?L = view L" using loop_ok_other [OF ok h(1,2) _ refl n] by simp_all
  moreover have "same_loop L ?L" using h(1) by (auto simp: same_loop_def)
  ultimately show ?thesis by auto
qed

lemma uv__handle_stop_other:
  assumes ok: "loop_ok L" and h: "handles L h = Some t" "handle_type t \<noteq> UV_TIMER" "uv__is_active t"
  shows "\<exists>L'. uv__handle_stop L h = Some L' \<and> loop_ok L' \<and> view L' = view L \<and> same_loop L L' \<and>
    handles L' = (handles L)(h \<mapsto> deactivated t)"
proof -
  let ?n = "if uv__has_ref t then active_handles L - 1 else active_handles L"
  let ?L = "L\<lparr>handles := (handles L)(h \<mapsto> deactivated t), active_handles := ?n, queues_of := queues_of L\<rparr>"
  have "h \<in> counted L \<longleftrightarrow> uv__has_ref t" using h by (simp add: counted_def)
  moreover have "of_nat (card (counted ?L)) = (if False then if h \<in> counted L then active_handles L else active_handles L + 1
     else if h \<in> counted L then active_handles L - 1 else active_handles L)"
    by (rule counted_update [OF finite_counted [OF ok] h(1), of "deactivated t"])
      (use ok in \<open>auto simp: active_flags counted_def loop_ok_def\<close>)
  ultimately have n: "?n = of_nat (card (counted ?L))" by simp
  have "uv__handle_stop L h = Some ?L"
    using h by (simp add: uv__handle_stop_def set_flags_def set_handle_def uv__active_handle_rm_def)
  moreover have "loop_ok ?L" "view ?L = view L" using loop_ok_other [OF ok h(1,2) _ refl n] by simp_all
  moreover have "same_loop L ?L" using h(1) by (auto simp: same_loop_def)
  ultimately show ?thesis by auto
qed


section \<open>What the watchers do\<close>

definition watcher_types :: "uv_handle_type set" where
  "watcher_types = {UV_PREPARE, UV_CHECK, UV_IDLE}"

text \<open>
  The watchers that are started, by type, in the order of their queue; those a pass has yet to call; and
  the callback of each.
\<close>

record watchers =
  started :: "uv_handle_type \<Rightarrow> addr list"
  waiting :: "addr list"
  callback_of :: "addr \<Rightarrow> addr"

definition queue_nodes :: "addr list \<Rightarrow> addr list" where
  "queue_nodes hs = map (\<lambda>h. h + WATCHER_QUEUE) hs"

definition loop_rings :: "uv_loop \<Rightarrow> watchers \<Rightarrow> addr \<rightharpoonup> addr list" where
  "loop_rings L W =
     [watchers_at L UV_PREPARE \<mapsto> queue_nodes (started W UV_PREPARE), watchers_at L UV_CHECK \<mapsto> queue_nodes (started W UV_CHECK),
      watchers_at L UV_IDLE \<mapsto> queue_nodes (started W UV_IDLE)]"

text \<open>In a pass there is the local queue too.\<close>

definition all_rings :: "addr option \<Rightarrow> uv_loop \<Rightarrow> watchers \<Rightarrow> addr \<rightharpoonup> addr list" where
  "all_rings q L W = (case q of None \<Rightarrow> loop_rings L W | Some a \<Rightarrow> (loop_rings L W)(a \<mapsto> queue_nodes (waiting W)))"

definition kinds :: "uv_loop \<Rightarrow> addr \<rightharpoonup> uv_handle_type" where
  "kinds L h = (case handles L h of None \<Rightarrow> None | Some t \<Rightarrow> if handle_type t \<in> watcher_types then Some (handle_type t) else None)"

definition running :: "watchers \<Rightarrow> addr set" where
  "running W = set (waiting W) \<union> (\<Union>k. set (started W k))"

text \<open>
  The queues of the loop, and the local one \<open>q\<close> in a pass over watchers of type \<open>ty\<close>, are rings of the
  watchers, which are those that are active.
\<close>

definition watchers_ok :: "(addr \<times> uv_handle_type) option \<Rightarrow> uv_loop \<Rightarrow> watchers \<Rightarrow> bool" where
  "watchers_ok p L W \<longleftrightarrow>
     inj_on (watchers_at L) watcher_types \<and> (\<forall>q ty. p = Some (q, ty) \<longrightarrow> q \<notin> watchers_at L ` watcher_types) \<and>
     rings (queues_of L) (all_rings (map_option fst p) L W) \<and>
     (\<forall>k. \<forall>h \<in> set (started W k). kinds L h = Some k) \<and>
     (\<forall>h \<in> set (waiting W). kinds L h \<noteq> None \<and> kinds L h = map_option snd p) \<and>
     (\<forall>h t. handles L h = Some t \<and> handle_type t \<in> watcher_types \<longrightarrow>
        queues_of L (h + WATCHER_QUEUE) \<noteq> None \<and> h + WATCHER_QUEUE \<notin> dom (all_rings (map_option fst p) L W) \<and>
        (uv__is_active t \<longleftrightarrow> h \<in> running W) \<and> (uv__is_active t \<longrightarrow> handle_cb t = callback_of W h))"

datatype watcher_op = StartWatcher addr addr | StopWatcher addr

fun watcher :: "watcher_op \<Rightarrow> addr" where
  "watcher (StartWatcher h cb) = h"
| "watcher (StopWatcher h) = h"

fun watch :: "uv_loop \<Rightarrow> watcher_op \<Rightarrow> (int \<times> uv_loop) option" where
  "watch L (StartWatcher h cb) = do { t \<leftarrow> handles L h; uv_watcher_start (handle_type t) L h cb }"
| "watch L (StopWatcher h) = uv_watcher_stop L h"

text \<open>A watcher that is started goes to the front of the queue of its type, one that is stopped out of any queue.\<close>

definition list_first :: "watchers \<Rightarrow> uv_handle_type \<Rightarrow> addr \<Rightarrow> addr \<Rightarrow> watchers" where
  "list_first W k h cb =
     W\<lparr>started := (started W)(k := h # started W k), callback_of := (callback_of W)(h := cb)\<rparr>"

definition unlisted :: "watchers \<Rightarrow> addr \<Rightarrow> watchers" where
  "unlisted W h = W\<lparr>started := (\<lambda>k. remove1 h (started W k)), waiting := remove1 h (waiting W)\<rparr>"

fun watched :: "(addr \<rightharpoonup> uv_handle_type) \<Rightarrow> watchers \<Rightarrow> watcher_op \<Rightarrow> (int \<times> watchers) option" where
  "watched K W (StartWatcher h cb) = do {
     k \<leftarrow> K h;
     Some (if h \<in> running W then (0, W) else if cb = 0 then (UV_EINVAL, W) else (0, list_first W k h cb)) }"
| "watched K W (StopWatcher h) = do { _ \<leftarrow> K h; Some (0, unlisted W h) }"

lemma queue_nodes_mem: "a \<in> set (queue_nodes hs) \<longleftrightarrow> a - WATCHER_QUEUE \<in> set hs"
  by (auto simp: queue_nodes_def image_iff) (metis diff_add_cancel)

lemma queue_nodes_simps:
  "queue_nodes [] = []" "queue_nodes (h # hs) = (h + WATCHER_QUEUE) # queue_nodes hs" "queue_nodes (hs @ gs) = queue_nodes hs @ queue_nodes gs"
  by (simp_all add: queue_nodes_def)

lemma kindsD: "kinds L h = Some k \<longleftrightarrow> (\<exists>t. handles L h = Some t \<and> handle_type t = k \<and> k \<in> watcher_types)"
  by (auto simp: kinds_def split: option.splits)

lemma no_timer: "k \<in> watcher_types \<Longrightarrow> k \<noteq> UV_TIMER"
  by (auto simp: watcher_types_def)

lemma loop_rings_dom: "dom (loop_rings L W) = watchers_at L ` watcher_types"
  by (auto simp: loop_rings_def watcher_types_def)

lemma all_rings_dom: "dom (all_rings q L W) = watchers_at L ` watcher_types \<union> set_option q"
  using loop_rings_dom [of L W] by (cases q) (simp_all add: all_rings_def)

lemma loop_rings_at: "inj_on (watchers_at L) watcher_types \<Longrightarrow> k \<in> watcher_types \<Longrightarrow>
   loop_rings L W (watchers_at L k) = Some (queue_nodes (started W k))"
  by (auto simp: loop_rings_def watcher_types_def inj_on_def)

lemma loop_rings_upd: "inj_on (watchers_at L) watcher_types \<Longrightarrow> k \<in> watcher_types \<Longrightarrow>
   loop_rings L (W\<lparr>started := (started W)(k := hs)\<rparr>) = (loop_rings L W)(watchers_at L k \<mapsto> queue_nodes hs)"
  by (auto simp: loop_rings_def watcher_types_def inj_on_def fun_eq_iff)


lemma all_rings_at:
  assumes "watchers_ok p L W" "k \<in> watcher_types"
  shows "all_rings (map_option fst p) L W (watchers_at L k) = Some (queue_nodes (started W k))"
  using assms loop_rings_at [of L k W] by (cases p) (auto simp: watchers_ok_def all_rings_def)

lemma all_rings_upd:
  assumes "watchers_ok p L W" "k \<in> watcher_types" "watchers_at L' = watchers_at L"
  shows "all_rings (map_option fst p) L' (W\<lparr>started := (started W)(k := hs)\<rparr>) =
    (all_rings (map_option fst p) L W)(watchers_at L k \<mapsto> queue_nodes hs)"
proof -
  have r: "loop_rings L' W' = loop_rings L W'" for W' by (simp add: loop_rings_def assms(3))
  have inj: "inj_on (watchers_at L) watcher_types" using assms(1) by (simp add: watchers_ok_def)
  note u = loop_rings_upd [OF inj assms(2)]
  show ?thesis
  proof (cases p)
    case None
    then show ?thesis by (simp add: all_rings_def r u)
  next
    case (Some x)
    then have "fst x \<noteq> watchers_at L k" using assms(1,2) by (cases x) (auto simp: watchers_ok_def)
    then show ?thesis using Some by (simp add: all_rings_def r u fun_upd_twist)
  qed
qed

lemma all_rings_nodes:
  assumes "all_rings q L W a = Some xs" "x \<in> set xs"
  shows "x - WATCHER_QUEUE \<in> running W"
  using assms by (cases q) (auto simp: all_rings_def loop_rings_def running_def queue_nodes_mem split: if_splits)

lemma watcher_outside:
  assumes ok: "watchers_ok p L W" and h: "kinds L h = Some k" "h \<notin> running W"
  shows "outside (h + WATCHER_QUEUE) (all_rings (map_option fst p) L W)"
proof -
  obtain t where t: "handles L h = Some t" "handle_type t \<in> watcher_types" using h(1) unfolding kindsD by blast
  then have "h + WATCHER_QUEUE \<notin> dom (all_rings (map_option fst p) L W)" using ok by (simp add: watchers_ok_def)
  moreover have "h + WATCHER_QUEUE \<notin> set xs" if "all_rings (map_option fst p) L W a = Some xs" for a xs
    using all_rings_nodes [OF that, of "h + WATCHER_QUEUE"] h(2) by auto
  ultimately show ?thesis by (auto simp: outside_def)
qed

text \<open>What a change of one watcher and of the queues has to show.\<close>

lemma watchers_ok_update:
  assumes ok: "watchers_ok p L W" and h: "kinds L h = Some k"
    and L': "watchers_at L' = watchers_at L" "handles L' = (handles L)(h \<mapsto> t')" "handle_type t' = k" "dom (queues_of L') = dom (queues_of L)"
    and r: "rings (queues_of L') (all_rings (map_option fst p) L' W')"
    and s: "\<And>k. set (started W' k) \<subseteq> insert h (set (started W k))" "\<And>k'. h \<in> set (started W' k') \<Longrightarrow> k' = k"
      "set (waiting W') \<subseteq> set (waiting W)"
    and run: "running W' - {h} = running W - {h}" "uv__is_active t' \<longleftrightarrow> h \<in> running W'"
    and cb: "\<And>g. g \<noteq> h \<Longrightarrow> callback_of W' g = callback_of W g" "uv__is_active t' \<Longrightarrow> handle_cb t' = callback_of W' h"
  shows "watchers_ok p L' W' \<and> kinds L' = kinds L"
proof -
  obtain t where t: "handles L h = Some t" "handle_type t = k" "k \<in> watcher_types" using h unfolding kindsD by blast
  have kinds: "kinds L' = kinds L" using t L'(2,3) by (auto simp: kinds_def fun_eq_iff)
  have dom: "dom (all_rings (map_option fst p) L' W') = dom (all_rings (map_option fst p) L W)" by (simp add: all_rings_dom L'(1))
  have "watchers_ok p L' W'"
    unfolding watchers_ok_def
  proof (intro conjI allI ballI impI)
    show "inj_on (watchers_at L') watcher_types" using ok by (simp add: watchers_ok_def L'(1))
    show "q \<notin> watchers_at L' ` watcher_types" if "p = Some (q, ty)" for q ty
      using ok that by (simp add: watchers_ok_def L'(1))
    show "rings (queues_of L') (all_rings (map_option fst p) L' W')" by (rule r)
    show "kinds L' g = Some k'" if "g \<in> set (started W' k')" for g k'
    proof (cases "g = h")
      case True
      then show ?thesis using s(2) [of k'] that h kinds by simp
    next
      case False
      then have "g \<in> set (started W k')" using s(1) [of k'] that by auto
      then show ?thesis using ok kinds by (simp add: watchers_ok_def)
    qed
    show "kinds L' g \<noteq> None" "kinds L' g = map_option snd p" if "g \<in> set (waiting W')" for g
    proof -
      have "g \<in> set (waiting W)" using s(3) that by blast
      then have "kinds L g \<noteq> None \<and> kinds L g = map_option snd p" using ok unfolding watchers_ok_def by blast
      then show "kinds L' g \<noteq> None" "kinds L' g = map_option snd p" unfolding kinds by blast+
    qed
    fix g s assume gs: "handles L' g = Some s \<and> handle_type s \<in> watcher_types"
    then obtain s' where s': "handles L g = Some s'" "handle_type s' \<in> watcher_types"
      using L'(2,3) t by (cases "g = h") auto
    then have old: "queues_of L (g + WATCHER_QUEUE) \<noteq> None" "g + WATCHER_QUEUE \<notin> dom (all_rings (map_option fst p) L W)"
      "uv__is_active s' \<longleftrightarrow> g \<in> running W" "uv__is_active s' \<longrightarrow> handle_cb s' = callback_of W g"
      using ok unfolding watchers_ok_def by blast+
    have "g + WATCHER_QUEUE \<in> dom (queues_of L')" unfolding L'(4) using old(1) by blast
    then show "queues_of L' (g + WATCHER_QUEUE) \<noteq> None" by (simp add: domIff)
    show "g + WATCHER_QUEUE \<notin> dom (all_rings (map_option fst p) L' W')" unfolding dom by (rule old(2))
    have "uv__is_active s \<longleftrightarrow> g \<in> running W'" "uv__is_active s \<longrightarrow> handle_cb s = callback_of W' g"
      using gs old(3,4) s'(1) L'(2) run cb by (cases "g = h"; auto)+
    then show "uv__is_active s \<longleftrightarrow> g \<in> running W'" "uv__is_active s \<Longrightarrow> handle_cb s = callback_of W' g" by blast+
  qed
  then show ?thesis using kinds by blast
qed

lemma running_list_first: "running (list_first W k h cb) = insert h (running W)"
  by (auto simp: running_def list_first_def split: if_splits)

lemma all_rings_callback: "all_rings q L (W\<lparr>callback_of := f\<rparr>) = all_rings q L W"
  by (simp add: all_rings_def loop_rings_def split: option.splits)

lemma all_rings_same: "watchers_at L' = watchers_at L \<Longrightarrow> all_rings q L' W = all_rings q L W"
  by (simp add: all_rings_def loop_rings_def split: option.splits)

lemma watchers_okD:
  assumes "watchers_ok p L W"
  shows "rings (queues_of L) (all_rings (map_option fst p) L W)" "h \<in> set (started W k) \<Longrightarrow> kinds L h = Some k"
    "h \<in> set (waiting W) \<Longrightarrow> kinds L h \<noteq> None \<and> kinds L h = map_option snd p" "inj_on (watchers_at L) watcher_types"
    "p = Some (q, ty) \<Longrightarrow> q \<notin> watchers_at L ` watcher_types"
    "handles L h = Some t \<Longrightarrow> handle_type t \<in> watcher_types \<Longrightarrow> queues_of L (h + WATCHER_QUEUE) \<noteq> None"
    "handles L h = Some t \<Longrightarrow> handle_type t \<in> watcher_types \<Longrightarrow> uv__is_active t \<longleftrightarrow> h \<in> running W"
    "handles L h = Some t \<Longrightarrow> handle_type t \<in> watcher_types \<Longrightarrow> uv__is_active t \<Longrightarrow> handle_cb t = callback_of W h"
    "handles L h = Some t \<Longrightarrow> handle_type t \<in> watcher_types \<Longrightarrow> h + WATCHER_QUEUE \<notin> dom (all_rings (map_option fst p) L W)"
  using assms unfolding watchers_ok_def by blast+

text \<open>What \<open>watch\<close> does to the loop besides the watchers.\<close>

definition only_watchers :: "uv_loop \<Rightarrow> uv_loop \<Rightarrow> bool" where
  "only_watchers L L' \<longleftrightarrow> loop_ok L' \<and> view L' = view L \<and> kinds L' = kinds L \<and> watchers_at L' = watchers_at L \<and>
     dom (queues_of L') = dom (queues_of L)"

lemma uv_watcher_start_ok:
  assumes ok: "loop_ok L" "watchers_ok p L W" and h: "kinds L h = Some k" "h \<notin> running W" and cb: "cb \<noteq> 0"
  shows "\<exists>L'. uv_watcher_start k L h cb = Some (0, L') \<and> only_watchers L L' \<and> watchers_ok p L' (list_first W k h cb)"
proof -
  obtain t where t: "handles L h = Some t" "handle_type t = k" "k \<in> watcher_types" using h(1) unfolding kindsD by blast
  have inactive: "\<not> uv__is_active t" and mapped: "queues_of L (h + WATCHER_QUEUE) \<noteq> None"
    using watchers_okD(6,7) [OF ok(2) t(1)] t(2,3) h(2) by auto
  let ?R = "all_rings (map_option fst p) L W"
  from rings_insert_head [OF watchers_okD(1) [OF ok(2)] all_rings_at [OF ok(2) t(3)] mapped watcher_outside [OF ok(2) h]]
  obtain Q where Q: "QUEUE_INSERT_HEAD (queues_of L) (watchers_at L k) (h + WATCHER_QUEUE) = Some Q"
      "rings Q (?R(watchers_at L k \<mapsto> (h + WATCHER_QUEUE) # queue_nodes (started W k)))" "dom Q = dom (queues_of L)" by blast
  let ?t = "t\<lparr>handle_cb := cb\<rparr>"
  let ?L = "L\<lparr>handles := (handles L)(h \<mapsto> ?t), active_handles := active_handles L, queues_of := Q\<rparr>"
  have flags: "uv__is_active ?t = uv__is_active t" "uv__has_ref ?t = uv__has_ref t"
    by (simp_all add: uv__is_active_def uv__has_ref_def)
  then have cnt: "counted ?L = counted L" using t(1) by (auto simp: counted_def)
  have n: "active_handles L = of_nat (card (counted ?L))" unfolding cnt using ok(1) by (simp add: loop_ok_def)
  have L1: "loop_ok ?L" "view ?L = view L"
    using loop_ok_other [OF ok(1) t(1) _ _ refl n] t(2) no_timer [OF t(3)] by simp_all
  obtain L2 where L2: "uv__handle_start ?L h = Some L2" "loop_ok L2" "view L2 = view ?L" "same_loop ?L L2"
      "handles L2 = (handles ?L)(h \<mapsto> activated ?t)"
    using uv__handle_start_other [OF L1(1), of h ?t] t no_timer [OF t(3)] inactive flags(1) by auto
  have fields: "queues_of L2 = Q" "watchers_at L2 = watchers_at L" "handles L2 = (handles L)(h \<mapsto> activated ?t)"
    using L2(4,5) by (simp_all add: same_loop_def)
  have eq: "set_handle (L\<lparr>queues_of := Q\<rparr>) h ?t = ?L" by (intro uv_loop.equality) (simp_all add: set_handle_def)
  have run: "uv_watcher_start k L h cb = Some (0, L2)"
    using t(1) inactive cb Q(1) L2(1) by (simp add: uv_watcher_start_def eq del: uv_loop.simps)
  have rings: "rings (queues_of L2) (all_rings (map_option fst p) L2 (list_first W k h cb))"
    using Q(2) all_rings_upd [OF ok(2) t(3) fields(2), of "h # started W k"]
    by (simp add: fields(1) list_first_def all_rings_callback queue_nodes_simps)
  have "watchers_ok p L2 (list_first W k h cb) \<and> kinds L2 = kinds L"
  proof (rule watchers_ok_update [OF ok(2) h(1) fields(2,3) _ _ rings])
    show "handle_type (activated ?t) = k" by (simp add: t(2))
    show "dom (queues_of L2) = dom (queues_of L)" by (simp add: fields(1) Q(3))
    show "running (list_first W k h cb) - {h} = running W - {h}" "uv__is_active (activated ?t) \<longleftrightarrow> h \<in> running (list_first W k h cb)"
      unfolding running_list_first by (auto simp: active_flags(1))
    show "k' = k" if "h \<in> set (started (list_first W k h cb) k')" for k'
      using that h(2) by (auto simp: list_first_def running_def split: if_splits)
  qed (auto simp: list_first_def)
  then show ?thesis using run L1(2) L2(2,3) fields Q(3) by (auto simp: only_watchers_def)
qed

lemma remove1_split: "distinct (xs @ h # ys) \<Longrightarrow> remove1 h (xs @ h # ys) = xs @ ys"
  by (simp add: remove1_append)

lemma all_rings_waiting: "all_rings (Some q) L W = (loop_rings L W)(q \<mapsto> queue_nodes (waiting W))"
  by (simp add: all_rings_def)

lemma waiting_none: "watchers_ok None L W \<Longrightarrow> waiting W = []"
  using watchers_okD(3) [of None L W "hd (waiting W)"] by (cases "waiting W") auto

lemma ring_distinct: "ring Q h xs \<Longrightarrow> distinct xs"
  by (simp add: ring_def)

text \<open>A watcher is in one queue only.\<close>

lemma watcher_once:
  assumes ok: "watchers_ok p L W"
  shows "distinct (started W k)" "distinct (waiting W)" "h \<in> set (waiting W) \<Longrightarrow> h \<notin> set (started W k)"
proof -
  have nodes: "distinct hs" if "distinct (queue_nodes hs)" for hs using that by (simp add: queue_nodes_def distinct_map)
  have r: "ring (queues_of L) a xs" if "all_rings (map_option fst p) L W a = Some xs" for a xs
    using watchers_okD(1) [OF ok] that by (simp add: rings_def)
  have k: "k \<in> watcher_types" if "g \<in> set (started W k)" for g
    using watchers_okD(2) [OF ok that] unfolding kindsD by blast
  show "distinct (started W k)"
  proof (cases "k \<in> watcher_types")
    case True
    show ?thesis by (rule nodes [OF ring_distinct [OF r [OF all_rings_at [OF ok True]]]])
  next
    case False
    then show ?thesis using k by (cases "started W k") auto
  qed
  show "distinct (waiting W)"
  proof (cases p)
    case None
    then show ?thesis using ok waiting_none [of L W] by simp
  next
    case (Some x)
    show ?thesis by (rule nodes [OF ring_distinct [OF r [of "fst x"]]]) (simp add: Some all_rings_waiting)
  qed
  show "h \<notin> set (started W k)" if h: "h \<in> set (waiting W)"
  proof
    assume "h \<in> set (started W k)"
    then have "h + WATCHER_QUEUE \<in> set (queue_nodes (started W k))" "k \<in> watcher_types"
      using k by (auto simp: queue_nodes_mem)
    moreover obtain q ty where p: "p = Some (q, ty)" using h ok waiting_none [of L W] by (cases p) auto
    moreover have "h + WATCHER_QUEUE \<in> set (queue_nodes (waiting W))" using h by (simp add: queue_nodes_mem)
    moreover have "all_rings (map_option fst p) L W q = Some (queue_nodes (waiting W))" using p by (simp add: all_rings_waiting)
    moreover have "q \<noteq> watchers_at L k" using watchers_okD(5) [OF ok p] \<open>k \<in> watcher_types\<close> by auto
    ultimately show False
      using watchers_okD(1) [OF ok] all_rings_at [OF ok \<open>k \<in> watcher_types\<close>] unfolding rings_def by blast
  qed
qed

lemma unlisted_cases:
  assumes ok: "watchers_ok p L W" and h: "kinds L h = Some k" "h \<in> running W"
  obtains xs ys where "started W k = xs @ h # ys" "h \<notin> set (xs @ ys)" "unlisted W h = W\<lparr>started := (started W)(k := xs @ ys)\<rparr>"
  | xs ys q where "p = Some (q, k)" "waiting W = xs @ h # ys" "h \<notin> set (xs @ ys)" "unlisted W h = W\<lparr>waiting := xs @ ys\<rparr>"
proof -
  have other: "h \<notin> set (started W k')" if "k' \<noteq> k" for k' using watchers_okD(2) [OF ok, of h k'] h(1) that by auto
  have "h \<in> set (started W k) \<or> h \<in> set (waiting W)"
  proof (cases "h \<in> set (waiting W)")
    case False
    then obtain k' where "h \<in> set (started W k')" using h(2) by (auto simp: running_def)
    then show ?thesis using other [of k'] by auto
  qed simp
  then consider "h \<in> set (started W k)" | "h \<in> set (waiting W)" "h \<notin> set (started W k)" by blast
  then show thesis
  proof cases
    case 1
    then obtain xs ys where xs: "started W k = xs @ h # ys" using split_list by fast
    then have d: "distinct (xs @ h # ys)" using watcher_once(1) [OF ok, of k] by simp
    have "h \<notin> set (waiting W)" using watcher_once(3) [OF ok] 1 by blast
    then have "unlisted W h = W\<lparr>started := (started W)(k := xs @ ys)\<rparr>"
      using other remove1_split [OF d] xs by (auto simp: unlisted_def remove1_idem fun_eq_iff intro!: watchers.equality)
    then show thesis using that(1) [OF xs] d by auto
  next
    case 2
    then obtain xs ys where xs: "waiting W = xs @ h # ys" using split_list by fast
    then have d: "distinct (xs @ h # ys)" using watcher_once(2) [OF ok] by simp
    obtain q where p: "p = Some (q, k)" using watchers_okD(3) [OF ok 2(1)] h(1) by (cases p) auto
    have "h \<notin> set (started W k')" for k' using other 2(2) by (cases "k' = k") auto
    then have "unlisted W h = W\<lparr>waiting := xs @ ys\<rparr>"
      using remove1_split [OF d] xs by (simp add: unlisted_def remove1_idem)
    then show thesis using that(2) [OF p xs] d by auto
  qed
qed

lemma uv_watcher_stop_ok:
  assumes ok: "loop_ok L" "watchers_ok p L W" and h: "kinds L h = Some k"
  shows "\<exists>L'. uv_watcher_stop L h = Some (0, L') \<and> only_watchers L L' \<and> watchers_ok p L' (unlisted W h)"
proof -
  obtain t where t: "handles L h = Some t" "handle_type t = k" "k \<in> watcher_types" using h unfolding kindsD by blast
  have act: "uv__is_active t \<longleftrightarrow> h \<in> running W" using watchers_okD(7) [OF ok(2) t(1)] t(2,3) by simp
  show ?thesis
  proof (cases "h \<in> running W")
    case False
    then have "unlisted W h = W" by (auto simp: unlisted_def running_def remove1_idem)
    then show ?thesis using False act t(1) ok by (auto simp: uv_watcher_stop_def only_watchers_def)
  next
    case True
    let ?R = "all_rings (map_option fst p) L W"
    have "\<exists>Q. QUEUE_REMOVE (queues_of L) (h + WATCHER_QUEUE) = Some Q \<and> dom Q = dom (queues_of L) \<and>
        (\<forall>L'. watchers_at L' = watchers_at L \<longrightarrow> rings Q (all_rings (map_option fst p) L' (unlisted W h)))"
    proof (cases rule: unlisted_cases [OF ok(2) h True])
      case (1 xs ys)
      have "?R (watchers_at L k) = Some (queue_nodes xs @ (h + WATCHER_QUEUE) # queue_nodes ys)"
        using all_rings_at [OF ok(2) t(3)] 1(1) by (simp add: queue_nodes_simps)
      from rings_remove [OF watchers_okD(1) [OF ok(2)] this] show ?thesis
        using all_rings_upd [OF ok(2) t(3)] 1(3) by (auto simp: queue_nodes_simps)
    next
      case (2 xs ys q)
      have "?R q = Some (queue_nodes xs @ (h + WATCHER_QUEUE) # queue_nodes ys)"
        using 2(1,2) by (simp add: all_rings_waiting queue_nodes_simps)
      from rings_remove [OF watchers_okD(1) [OF ok(2)] this]
      obtain Q where Q: "QUEUE_REMOVE (queues_of L) (h + WATCHER_QUEUE) = Some Q" "dom Q = dom (queues_of L)"
        "rings Q (?R(q \<mapsto> queue_nodes xs @ queue_nodes ys))" by blast
      have "all_rings (map_option fst p) L' (unlisted W h) = ?R(q \<mapsto> queue_nodes xs @ queue_nodes ys)"
        if "watchers_at L' = watchers_at L" for L'
        using 2(1,4) that by (simp add: all_rings_waiting queue_nodes_simps loop_rings_def)
      then show ?thesis using Q by auto
    qed
    then obtain Q where Q: "QUEUE_REMOVE (queues_of L) (h + WATCHER_QUEUE) = Some Q" "dom Q = dom (queues_of L)"
      "\<And>L'. watchers_at L' = watchers_at L \<Longrightarrow> rings Q (all_rings (map_option fst p) L' (unlisted W h))" by blast
    let ?L = "L\<lparr>handles := (handles L)(h \<mapsto> t), active_handles := active_handles L, queues_of := Q\<rparr>"
    have cnt: "counted ?L = counted L" using t(1) by (auto simp: counted_def)
    have n: "active_handles L = of_nat (card (counted ?L))" unfolding cnt using ok(1) by (simp add: loop_ok_def)
    have L1: "loop_ok ?L" "view ?L = view L"
      using loop_ok_other [OF ok(1) t(1) _ _ refl n] t(2) no_timer [OF t(3)] by simp_all
    have eq: "L\<lparr>queues_of := Q\<rparr> = ?L" using t(1) by (simp add: fun_upd_idem)
    obtain L2 where L2: "uv__handle_stop ?L h = Some L2" "loop_ok L2" "view L2 = view ?L" "same_loop ?L L2"
        "handles L2 = (handles ?L)(h \<mapsto> deactivated t)"
      using uv__handle_stop_other [OF L1(1), of h t] t no_timer [OF t(3)] True act by auto
    have fields: "queues_of L2 = Q" "watchers_at L2 = watchers_at L" "handles L2 = (handles L)(h \<mapsto> deactivated t)"
      using L2(4,5) by (simp_all add: same_loop_def)
    have run: "uv_watcher_stop L h = Some (0, L2)"
      using t(1) act True Q(1) L2(1) by (simp add: uv_watcher_stop_def eq)
    have rings: "rings (queues_of L2) (all_rings (map_option fst p) L2 (unlisted W h))"
      unfolding fields(1) by (rule Q(3) [OF fields(2)])
    have gone: "h \<notin> running (unlisted W h)"
      using watcher_once(1,2) [OF ok(2)] by (auto simp: running_def unlisted_def)
    have "watchers_ok p L2 (unlisted W h) \<and> kinds L2 = kinds L"
    proof (rule watchers_ok_update [OF ok(2) h fields(2,3) _ _ rings])
      show "handle_type (deactivated t) = k" by (simp add: t(2))
      show "dom (queues_of L2) = dom (queues_of L)" by (simp add: fields(1) Q(2))
      show "set (started (unlisted W h) k') \<subseteq> insert h (set (started W k'))" for k'
        using set_remove1_subset [of h "started W k'"] by (auto simp: unlisted_def)
      show "set (waiting (unlisted W h)) \<subseteq> set (waiting W)" using set_remove1_subset [of h "waiting W"] by (auto simp: unlisted_def)
      show "k' = k" if "h \<in> set (started (unlisted W h) k')" for k' using gone that by (auto simp: running_def)
      show "running (unlisted W h) - {h} = running W - {h}" by (auto simp: running_def unlisted_def in_set_remove1)
      show "uv__is_active (deactivated t) \<longleftrightarrow> h \<in> running (unlisted W h)" using gone by (simp add: active_flags(2))
    qed (auto simp: unlisted_def active_flags(2))
    then show ?thesis using run L1(2) L2(2,3) fields Q(2) by (auto simp: only_watchers_def)
  qed
qed

section \<open>Operations of callbacks\<close>

fun watch_all :: "uv_loop \<Rightarrow> watcher_op list \<Rightarrow> (int list \<times> uv_loop) option" where
  "watch_all L [] = Some ([], L)"
| "watch_all L (op # ops) = do {
     (r, L) \<leftarrow> watch L op;
     (rs, L) \<leftarrow> watch_all L ops;
     Some (r # rs, L) }"

fun watched_all :: "(addr \<rightharpoonup> uv_handle_type) \<Rightarrow> watchers \<Rightarrow> watcher_op list \<Rightarrow> (int list \<times> watchers) option" where
  "watched_all K W [] = Some ([], W)"
| "watched_all K W (op # ops) = do {
     (r, W) \<leftarrow> watched K W op;
     (rs, W) \<leftarrow> watched_all K W ops;
     Some (r # rs, W) }"

lemma subseq_remove1: "subseq (remove1 h xs) xs"
  by (induction xs) auto

lemma only_watchers_trans: "only_watchers L L1 \<Longrightarrow> only_watchers L1 L2 \<Longrightarrow> only_watchers L L2"
  by (simp add: only_watchers_def)

lemma watch_specified:
  assumes ok: "loop_ok L" "watchers_ok p L W" and h: "kinds L (watcher op) \<noteq> None"
  shows "\<exists>r L' W'. watch L op = Some (r, L') \<and> watched (kinds L) W op = Some (r, W') \<and> only_watchers L L' \<and>
    watchers_ok p L' W' \<and> subseq (waiting W') (waiting W)"
proof (cases op)
  case (StartWatcher h cb)
  obtain k where k: "kinds L h = Some k" using h StartWatcher by auto
  then obtain t where t: "handles L h = Some t" "handle_type t = k" "k \<in> watcher_types" unfolding kindsD by blast
  have act: "uv__is_active t \<longleftrightarrow> h \<in> running W" using watchers_okD(7) [OF ok(2) t(1)] t(2,3) by simp
  have same: "only_watchers L L" using ok(1) by (simp add: only_watchers_def)
  consider "h \<in> running W" | "h \<notin> running W" "cb = 0" | "h \<notin> running W" "cb \<noteq> 0" by blast
  then show ?thesis
  proof cases
    case 1
    then show ?thesis using StartWatcher t act k ok same by (auto simp: uv_watcher_start_def)
  next
    case 2
    then show ?thesis using StartWatcher t act k ok same by (auto simp: uv_watcher_start_def)
  next
    case 3
    then show ?thesis using uv_watcher_start_ok [OF ok k 3] StartWatcher t k by (auto simp: list_first_def)
  qed
next
  case (StopWatcher h)
  then obtain k where "kinds L h = Some k" using h by auto
  then show ?thesis using uv_watcher_stop_ok [OF ok, of h k] StopWatcher
    by (auto simp: unlisted_def subseq_remove1)
qed

lemma watch_all_specified:
  assumes "loop_ok L" "watchers_ok p L W" "\<forall>op \<in> set ops. kinds L (watcher op) \<noteq> None"
  shows "\<exists>rs L' W'. watch_all L ops = Some (rs, L') \<and> watched_all (kinds L) W ops = Some (rs, W') \<and> only_watchers L L' \<and>
    watchers_ok p L' W' \<and> subseq (waiting W') (waiting W)"
  using assms
proof (induction ops arbitrary: L W)
  case Nil
  then show ?case by (simp add: only_watchers_def)
next
  case (Cons op ops)
  obtain r L1 W1 where 1: "watch L op = Some (r, L1)" "watched (kinds L) W op = Some (r, W1)" "only_watchers L L1"
      "watchers_ok p L1 W1" "subseq (waiting W1) (waiting W)"
    using watch_specified [OF Cons.prems(1,2), of op] Cons.prems(3) by auto
  have K: "kinds L1 = kinds L" "loop_ok L1" using 1(3) by (simp_all add: only_watchers_def)
  obtain rs L2 W2 where 2: "watch_all L1 ops = Some (rs, L2)" "watched_all (kinds L) W1 ops = Some (rs, W2)" "only_watchers L1 L2"
      "watchers_ok p L2 W2" "subseq (waiting W2) (waiting W1)"
    using Cons.IH [OF K(2) 1(4)] Cons.prems(3) K(1) by auto
  then show ?case using 1 only_watchers_trans [OF 1(3) 2(3)] subseq_order.order_trans [OF 2(5) 1(5)] by auto
qed

section \<open>A pass over the watchers\<close>

type_synonym 'u watcher_program = "addr \<Rightarrow> addr \<Rightarrow> 'u \<Rightarrow> watcher_op list \<times> 'u"

definition watcher_calls :: "'u watcher_program \<Rightarrow> 'u callback" where
  "watcher_calls prog cb h = (\<lambda>(L, u). case prog cb h u of (ops, u') \<Rightarrow> map_option (\<lambda>(rs, L'). (L', u')) (watch_all L ops))"

text \<open>A watcher that is called goes to the end of the queue of its type first.\<close>

definition next_called :: "uv_handle_type \<Rightarrow> addr \<Rightarrow> watchers \<Rightarrow> watchers" where
  "next_called ty h W = W\<lparr>waiting := remove1 h (waiting W), started := (started W)(ty := started W ty @ [h])\<rparr>"

inductive watch_pass :: "'u watcher_program \<Rightarrow> (addr \<rightharpoonup> uv_handle_type) \<Rightarrow> uv_handle_type \<Rightarrow>
    watchers \<Rightarrow> 'u \<Rightarrow> addr list \<Rightarrow> watchers \<Rightarrow> 'u \<Rightarrow> bool" for prog K ty where
  watch_done: "waiting W = [] \<Longrightarrow> watch_pass prog K ty W u [] W u"
| watch_call: "waiting W = h # ws \<Longrightarrow> prog (callback_of W h) h u = (ops, u1) \<Longrightarrow>
    watched_all K (next_called ty h W) ops = Some (rs, W1) \<Longrightarrow> watch_pass prog K ty W1 u1 hs W2 u2 \<Longrightarrow>
    watch_pass prog K ty W u (h # hs) W2 u2"

lemma watch_pass_passive:
  assumes "watch_pass prog K ty W u hs W' u'" "\<And>cb h u. fst (prog cb h u) = []"
  shows "hs = waiting W \<and> started W' = (started W)(ty := started W ty @ waiting W)"
  using assms(1)
proof (induction rule: watch_pass.induct)
  case (watch_done W u)
  then show ?case by simp
next
  case (watch_call W h ws u ops u1 rs W1 hs W2 u2)
  have "ops = []" using assms(2) [of "callback_of W h" h u] watch_call.hyps(2) by simp
  then have "W1 = next_called ty h W" using watch_call.hyps(3) by simp
  then show ?case using watch_call.IH watch_call.hyps(1) by (auto simp: next_called_def fun_eq_iff)
qed

lemma watcher_step:
  assumes ok: "loop_ok L" "watchers_ok (Some (q, ty)) L W" and w: "waiting W = h # ws"
  shows "\<exists>Q Q' t. QUEUE_EMPTY (queues_of L) q = Some False \<and> QUEUE_HEAD (queues_of L) q = Some (h + WATCHER_QUEUE) \<and>
    QUEUE_REMOVE (queues_of L) (h + WATCHER_QUEUE) = Some Q \<and> QUEUE_INSERT_TAIL Q (watchers_at L ty) (h + WATCHER_QUEUE) = Some Q' \<and>
    handles L h = Some t \<and> handle_cb t = callback_of W h \<and> only_watchers L (L\<lparr>queues_of := Q'\<rparr>) \<and>
    watchers_ok (Some (q, ty)) (L\<lparr>queues_of := Q'\<rparr>) (next_called ty h W)"
proof -
  let ?R = "all_rings (Some q) L W" and ?q = "h + WATCHER_QUEUE"
  have kind: "kinds L h = Some ty" using watchers_okD(3) [OF ok(2), of h] w by simp
  then obtain t where t: "handles L h = Some t" "handle_type t = ty" "ty \<in> watcher_types" unfolding kindsD by blast
  have h: "h \<in> running W" using w by (simp add: running_def)
  then have act: "uv__is_active t" "handle_cb t = callback_of W h" "queues_of L ?q \<noteq> None"
    using watchers_okD(6,7,8) [OF ok(2) t(1)] t(2,3) by simp_all
  have q: "?R q = Some (?q # queue_nodes ws)" using w by (simp add: all_rings_waiting queue_nodes_simps)
  have R: "rings (queues_of L) ?R" using watchers_okD(1) [OF ok(2)] by simp
  then have ring: "ring (queues_of L) q (?q # queue_nodes ws)" using q by (simp add: rings_def)
  let ?W = "W\<lparr>waiting := ws\<rparr>"
  have R1: "?R(q \<mapsto> queue_nodes ws) = all_rings (Some q) L ?W" by (simp add: all_rings_waiting loop_rings_def)
  have "?R q = Some ([] @ ?q # queue_nodes ws)" using q by simp
  from rings_remove [OF R this] obtain Q where Q: "QUEUE_REMOVE (queues_of L) ?q = Some Q" "rings Q (all_rings (Some q) L ?W)"
    "dom Q = dom (queues_of L)" unfolding R1 [symmetric] by auto
  have ne: "q \<noteq> watchers_at L ty" using watchers_okD(5) [OF ok(2), of q ty] t(3) by auto
  have at: "all_rings (Some q) L ?W (watchers_at L ty) = Some (queue_nodes (started W ty))"
    using all_rings_at [OF ok(2) t(3)] ne unfolding R1 [symmetric] by simp
  have "h \<notin> running ?W"
    using watcher_once [OF ok(2)] w by (auto simp: running_def)
  then have "?q \<notin> set xs" if "all_rings (Some q) L ?W a = Some xs" for a xs
    using all_rings_nodes [OF that, of ?q] by auto
  moreover have "?q \<notin> dom (all_rings (Some q) L W)" using watchers_okD(9) [OF ok(2) t(1)] t(2,3) by simp
  moreover from this have "?q \<notin> dom (all_rings (Some q) L ?W)" by (simp add: all_rings_dom)
  ultimately have out: "outside ?q (all_rings (Some q) L ?W)" unfolding outside_def by (auto simp: dom_def)
  have "Q ?q \<noteq> None" using act(3) Q(3) by (auto simp: dom_def)
  from rings_insert_tail [OF Q(2) at this out] obtain Q' where
    Q': "QUEUE_INSERT_TAIL Q (watchers_at L ty) ?q = Some Q'" "dom Q' = dom Q"
      "rings Q' ((all_rings (Some q) L ?W)(watchers_at L ty \<mapsto> queue_nodes (started W ty) @ [?q]))" by blast
  let ?L = "L\<lparr>queues_of := Q'\<rparr>"
  have "all_rings (Some q) ?L (next_called ty h W) = (all_rings (Some q) L ?W)(watchers_at L ty \<mapsto> queue_nodes (started W ty) @ [?q])"
  proof -
    have "loop_rings ?L (next_called ty h W) = (loop_rings L W)(watchers_at L ty \<mapsto> queue_nodes (started W ty) @ [?q])"
      using loop_rings_upd [OF watchers_okD(4) [OF ok(2)] t(3), of W "started W ty @ [h]"]
      by (simp add: next_called_def loop_rings_def queue_nodes_simps)
    then show ?thesis using ne w by (simp add: all_rings_waiting next_called_def loop_rings_def fun_upd_twist)
  qed
  then have r: "rings (queues_of ?L) (all_rings (map_option fst (Some (q, ty))) ?L (next_called ty h W))" using Q'(3) by simp
  have "watchers_ok (Some (q, ty)) ?L (next_called ty h W) \<and> kinds ?L = kinds L"
  proof (rule watchers_ok_update [OF ok(2) kind _ _ t(2) _ r])
    show "handles ?L = (handles L)(h \<mapsto> t)" using t(1) by (simp add: fun_upd_idem)
    show "dom (queues_of ?L) = dom (queues_of L)" using Q(3) Q'(2) by simp
    show "k' = ty" if "h \<in> set (started (next_called ty h W) k')" for k'
      using that watcher_once(3) [OF ok(2), of h k'] w by (auto simp: next_called_def split: if_splits)
    show "running (next_called ty h W) - {h} = running W - {h}" "uv__is_active t \<longleftrightarrow> h \<in> running (next_called ty h W)"
      using w act(1) by (auto simp: running_def next_called_def split: if_splits)
  qed (use w act(2) in \<open>auto simp: next_called_def\<close>)
  moreover have "loop_ok ?L" "view ?L = view L"
  proof -
    let ?M = "L\<lparr>handles := (handles L)(h \<mapsto> t), active_handles := active_handles L, queues_of := Q'\<rparr>"
    have cnt: "counted ?M = counted L" using t(1) by (auto simp: counted_def)
    have n: "active_handles L = of_nat (card (counted ?M))" unfolding cnt using ok(1) by (simp add: loop_ok_def)
    have "?M = ?L" using t(1) by (simp add: fun_upd_idem)
    moreover have "loop_ok ?M" "view ?M = view L"
      using loop_ok_other [OF ok(1) t(1) _ _ refl n] t(2) no_timer [OF t(3)] by simp_all
    ultimately show "loop_ok ?L" "view ?L = view L" by simp_all
  qed
  ultimately show ?thesis
    using QUEUE_EMPTY_ring [OF ring] QUEUE_HEAD_ring [OF ring] Q(1,3) Q'(1,2) t(1) act(2) by (auto simp: only_watchers_def)
qed


lemma watcher_loop_pass:
  assumes "loop_ok L" "watchers_ok (Some (q, ty)) L W" "kinds L = K"
    and good: "\<And>cb h u op. op \<in> set (fst (prog cb h u)) \<Longrightarrow> K (watcher op) \<noteq> None"
  shows "\<exists>hs L' W' u'. watcher_loop ty (watcher_calls prog) q (L, u) = Some (L', u') \<and> only_watchers L L' \<and>
    watchers_ok (Some (q, ty)) L' W' \<and> waiting W' = [] \<and> watch_pass prog K ty W u hs W' u' \<and> subseq hs (waiting W)"
  using assms(1-3)
proof (induction "length (waiting W)" arbitrary: L W u rule: less_induct)
  case less
  show ?case
  proof (cases "waiting W")
    case Nil
    have "all_rings (map_option fst (Some (q, ty))) L W q = Some []" using Nil by (simp add: all_rings_waiting queue_nodes_simps)
    then have "ring (queues_of L) q []" using watchers_okD(1) [OF less.prems(2)] unfolding rings_def by blast
    then have "watcher_loop ty (watcher_calls prog) q (L, u) = Some (L, u)"
      using QUEUE_EMPTY_ring [of "queues_of L" q "[]"] by (subst watcher_loop.simps) simp
    then show ?thesis using Nil less.prems(1,2) watch_done [OF Nil, of prog K ty u]
      by (intro exI [of _ "[]"] exI [of _ L] exI [of _ W] exI [of _ u]) (simp add: only_watchers_def)
  next
    case (Cons h ws)
    obtain Q Q' t where s: "QUEUE_EMPTY (queues_of L) q = Some False" "QUEUE_HEAD (queues_of L) q = Some (h + WATCHER_QUEUE)"
        "QUEUE_REMOVE (queues_of L) (h + WATCHER_QUEUE) = Some Q" "QUEUE_INSERT_TAIL Q (watchers_at L ty) (h + WATCHER_QUEUE) = Some Q'"
        "handles L h = Some t" "handle_cb t = callback_of W h" "only_watchers L (L\<lparr>queues_of := Q'\<rparr>)"
        "watchers_ok (Some (q, ty)) (L\<lparr>queues_of := Q'\<rparr>) (next_called ty h W)"
      using watcher_step [OF less.prems(1,2) Cons] by blast
    let ?L = "L\<lparr>queues_of := Q'\<rparr>"
    obtain ops u1 where ops: "prog (callback_of W h) h u = (ops, u1)" by fastforce
    have K: "loop_ok ?L" "kinds ?L = K" using s(7) less.prems(3) by (simp_all add: only_watchers_def)
    have "\<forall>op \<in> set ops. kinds ?L (watcher op) \<noteq> None" using good [of _ "callback_of W h" h u] ops unfolding K(2) by simp
    then obtain rs L1 W1 where 1: "watch_all ?L ops = Some (rs, L1)" "watched_all (kinds ?L) (next_called ty h W) ops = Some (rs, W1)"
        "only_watchers ?L L1" "watchers_ok (Some (q, ty)) L1 W1" "subseq (waiting W1) (waiting (next_called ty h W))"
      using watch_all_specified [OF K(1) s(8)] by blast
    have K1: "loop_ok L1" "kinds L1 = K" using 1(3) K(2) by (simp_all add: only_watchers_def)
    have sub: "subseq (waiting W1) ws" using 1(5) Cons by (simp add: next_called_def)
    then have "length (waiting W1) < length (waiting W)" using list_emb_length [OF sub] Cons by simp
    from less.hyps [OF this K1(1) 1(4) K1(2)] obtain hs L2 W2 u2 where 2:
      "watcher_loop ty (watcher_calls prog) q (L1, u1) = Some (L2, u2)" "only_watchers L1 L2"
      "watchers_ok (Some (q, ty)) L2 W2" "waiting W2 = []" "watch_pass prog K ty W1 u1 hs W2 u2" "subseq hs (waiting W1)" by blast
    have "watcher_loop ty (watcher_calls prog) q (L, u) = Some (L2, u2)"
      using s(1-6) ops 1(1) 2(1) by (subst watcher_loop.simps) (simp add: watcher_calls_def)
    moreover have "watch_pass prog K ty W u (h # hs) W2 u2"
      by (rule watch_call [OF Cons ops _ 2(5)]) (use 1(2) K(2) in simp)
    moreover have "subseq (h # hs) (waiting W)" using subseq_order.order_trans [OF 2(6) sub] Cons by simp
    moreover have "only_watchers L L2" using only_watchers_trans [OF s(7)] only_watchers_trans [OF 1(3) 2(2)] by blast
    ultimately show ?thesis using 2(3,4) by blast
  qed
qed

lemma loop_ok_queues: "loop_ok (L\<lparr>queues_of := Q\<rparr>) \<longleftrightarrow> loop_ok L" "view (L\<lparr>queues_of := Q\<rparr>) = view L"
  "kinds (L\<lparr>queues_of := Q\<rparr>) = kinds L"
proof -
  have a: "active_timers (L\<lparr>queues_of := Q\<rparr>) = active_timers L" "counted (L\<lparr>queues_of := Q\<rparr>) = counted L"
    by (simp_all add: active_timers_def counted_def)
  have "heap_ok (L\<lparr>queues_of := Q\<rparr>) \<longleftrightarrow> heap_ok L" by (simp add: heap_ok_def a)
  moreover have "timer_ok (L\<lparr>queues_of := Q\<rparr>) h t \<longleftrightarrow> timer_ok L h t" for h t by (simp add: timer_ok_def)
  ultimately show "loop_ok (L\<lparr>queues_of := Q\<rparr>) \<longleftrightarrow> loop_ok L" by (simp add: loop_ok_def a)
  show "view (L\<lparr>queues_of := Q\<rparr>) = view L" "kinds (L\<lparr>queues_of := Q\<rparr>) = kinds L"
    by (simp_all add: view_def timers_of_def kinds_def fun_eq_iff)
qed

text \<open>The local queue is a node of its own.\<close>

definition local_node :: "addr \<Rightarrow> uv_loop \<Rightarrow> bool" where
  "local_node q L \<longleftrightarrow> queues_of L q \<noteq> None \<and> q \<notin> watchers_at L ` watcher_types \<and> (\<forall>h. kinds L h \<noteq> None \<longrightarrow> h + WATCHER_QUEUE \<noteq> q)"

definition moved :: "uv_handle_type \<Rightarrow> watchers \<Rightarrow> watchers" where
  "moved ty W = W\<lparr>waiting := started W ty, started := (started W)(ty := [])\<rparr>"

lemma running_kinds: "watchers_ok p L W \<Longrightarrow> h \<in> running W \<Longrightarrow> kinds L h \<noteq> None"
  using watchers_okD(2,3) [of p L W h] by (auto simp: running_def)

lemma all_rings_None: "all_rings None L W = loop_rings L W"
  by (simp add: all_rings_def)

lemma moved_ok:
  assumes ok: "loop_ok L" "watchers_ok None L W" and q: "local_node q L" and ty: "ty \<in> watcher_types"
  shows "\<exists>Q. QUEUE_MOVE (queues_of L) (watchers_at L ty) q = Some Q \<and> watchers_ok (Some (q, ty)) (L\<lparr>queues_of := Q\<rparr>) (moved ty W) \<and>
    dom Q = dom (queues_of L)"
proof -
  note inj = watchers_okD(4) [OF ok(2)]
  have out: "outside q (loop_rings L W)"
  proof -
    have "q \<notin> set xs" if "loop_rings L W a = Some xs" for a xs
    proof
      assume "q \<in> set xs"
      then have "q - WATCHER_QUEUE \<in> running W" using all_rings_nodes [of None L W a xs q] that by (simp add: all_rings_None)
      then have "kinds L (q - WATCHER_QUEUE) \<noteq> None" by (rule running_kinds [OF ok(2)])
      then have "q - WATCHER_QUEUE + WATCHER_QUEUE \<noteq> q" using q unfolding local_node_def by blast
      then show False by simp
    qed
    moreover have "q \<notin> dom (loop_rings L W)" using q by (simp add: loop_rings_dom local_node_def)
    ultimately show ?thesis unfolding outside_def by (auto simp: dom_def)
  qed
  have R: "rings (queues_of L) (loop_rings L W)" using watchers_okD(1) [OF ok(2)] by (simp add: all_rings_None)
  have "queues_of L q \<noteq> None" using q by (simp add: local_node_def)
  from rings_move [OF R loop_rings_at [OF inj ty] this out] obtain Q where
    Q: "QUEUE_MOVE (queues_of L) (watchers_at L ty) q = Some Q" "dom Q = dom (queues_of L)"
      "rings Q ((loop_rings L W)(watchers_at L ty \<mapsto> [], q \<mapsto> queue_nodes (started W ty)))" by blast
  let ?L = "L\<lparr>queues_of := Q\<rparr>"
  have "all_rings (Some q) ?L (moved ty W) = (loop_rings L W)(watchers_at L ty \<mapsto> [], q \<mapsto> queue_nodes (started W ty))"
    using loop_rings_upd [OF inj ty, of W "[]"] by (simp add: all_rings_waiting moved_def loop_rings_def queue_nodes_simps)
  then have r: "rings Q (all_rings (Some q) ?L (moved ty W))" using Q(3) by simp
  have run: "running (moved ty W) = running W" using waiting_none [OF ok(2)] by (auto simp: running_def moved_def split: if_splits)
  have kinds: "kinds ?L = kinds L" by (simp add: kinds_def fun_eq_iff)
  have "watchers_ok (Some (q, ty)) ?L (moved ty W)"
    unfolding watchers_ok_def
  proof (intro conjI allI ballI impI)
    show "inj_on (watchers_at ?L) watcher_types" using inj by simp
    show "q' \<notin> watchers_at ?L ` watcher_types" if "Some (q, ty) = Some (q', ty')" for q' ty' using q that by (simp add: local_node_def)
    show "rings (queues_of ?L) (all_rings (map_option fst (Some (q, ty))) ?L (moved ty W))" using r by simp
    show "kinds ?L h = Some k" if "h \<in> set (started (moved ty W) k)" for h k
      using that watchers_okD(2) [OF ok(2), of h k] unfolding kinds by (auto simp: moved_def split: if_splits)
    show "kinds ?L h \<noteq> None" "kinds ?L h = map_option snd (Some (q, ty))" if "h \<in> set (waiting (moved ty W))" for h
      using that watchers_okD(2) [OF ok(2), of h ty] unfolding kinds by (auto simp: moved_def)
    fix h t assume t: "handles ?L h = Some t \<and> handle_type t \<in> watcher_types"
    then have h: "handles L h = Some t" "handle_type t \<in> watcher_types" by simp_all
    have "h + WATCHER_QUEUE \<in> dom Q" unfolding Q(2) using watchers_okD(6) [OF ok(2) h] by blast
    then show "queues_of ?L (h + WATCHER_QUEUE) \<noteq> None" by (simp add: domIff)
    have "kinds L h \<noteq> None" using h by (simp add: kinds_def)
    then have "h + WATCHER_QUEUE \<noteq> q" using q by (simp add: local_node_def)
    moreover note watchers_okD(9) [OF ok(2) h]
    ultimately show "h + WATCHER_QUEUE \<notin> dom (all_rings (map_option fst (Some (q, ty))) ?L (moved ty W))"
      by (simp add: all_rings_dom)
    show "uv__is_active t \<longleftrightarrow> h \<in> running (moved ty W)" unfolding run by (rule watchers_okD(7) [OF ok(2) h])
    show "handle_cb t = callback_of (moved ty W) h" if "uv__is_active t"
      using watchers_okD(8) [OF ok(2) h that] by (simp add: moved_def)
  qed
  then show ?thesis using Q(1,2) by blast
qed

lemma pass_over:
  assumes ok: "watchers_ok (Some (q, ty)) L W" "waiting W = []"
  shows "watchers_ok None L W"
proof -
  have none: "loop_rings L W q = None" using watchers_okD(5) [OF ok(1)] loop_rings_dom [of L W] by auto
  have r: "rings (queues_of L) ((loop_rings L W)(q \<mapsto> []))"
    using watchers_okD(1) [OF ok(1)] ok(2) by (simp add: all_rings_waiting queue_nodes_simps)
  have up: "((loop_rings L W)(q \<mapsto> [])) a = Some xs" if "loop_rings L W a = Some xs" for a xs using that none by auto
  have "rings (queues_of L) (loop_rings L W)"
    using r up unfolding rings_def by blast
  moreover have "dom (loop_rings L W) \<subseteq> dom (all_rings (Some q) L W)" unfolding all_rings_waiting by auto
  ultimately show ?thesis using ok unfolding watchers_ok_def by (simp add: all_rings_None) blast
qed


text \<open>
  C24. A pass over the prepare, check or idle watchers of a loop returns, whatever watchers the callbacks
  start and stop: it calls watchers that were started before it, each at most once and in the order of
  the queue, each after it is moved to the end of the queue, and none that an earlier callback has
  stopped or started anew. It keeps the queues, the flags and the count of active handles consistent and
  the timers as they are. If the callbacks leave the watchers alone, every one is called and the queue is
  as before.
\<close>

theorem uv__run_watchers_correct:
  assumes "loop_ok L" "watchers_ok None L W" "local_node q L" "ty \<in> watcher_types"
    and "\<And>cb h u op. op \<in> set (fst (prog cb h u)) \<Longrightarrow> kinds L (watcher op) \<noteq> None"
  shows "\<exists>hs L' W' u'. uv__run_watchers ty (watcher_calls prog) q (L, u) = Some (L', u') \<and>
    loop_ok L' \<and> watchers_ok None L' W' \<and> view L' = view L \<and>
    watch_pass prog (kinds L) ty (moved ty W) u hs W' u' \<and> subseq hs (started W ty) \<and>
    ((\<forall>cb h u. fst (prog cb h u) = []) \<longrightarrow> hs = started W ty \<and> started W' = started W)"
proof -
  obtain Q where Q: "QUEUE_MOVE (queues_of L) (watchers_at L ty) q = Some Q"
      "watchers_ok (Some (q, ty)) (L\<lparr>queues_of := Q\<rparr>) (moved ty W)"
    using moved_ok [OF assms(1-4)] by blast
  let ?L = "L\<lparr>queues_of := Q\<rparr>"
  have L: "kinds ?L = kinds L" "view ?L = view L" "loop_ok ?L"
    using assms(1) by (simp_all add: loop_ok_queues)
  obtain hs L' W' u' where r: "watcher_loop ty (watcher_calls prog) q (?L, u) = Some (L', u')" "only_watchers ?L L'"
      "watchers_ok (Some (q, ty)) L' W'" "waiting W' = []" "watch_pass prog (kinds L) ty (moved ty W) u hs W' u'"
      "subseq hs (waiting (moved ty W))"
    using watcher_loop_pass [OF L(3) Q(2) L(1), of prog u] assms(5) by blast
  have "(\<forall>cb h u. fst (prog cb h u) = []) \<longrightarrow> hs = started W ty \<and> started W' = started W"
    using watch_pass_passive [OF r(5)] by (auto simp: moved_def)
  then show ?thesis
    using r(1,2,5,6) Q(1) L(2) pass_over [OF r(3,4)] by (auto simp: uv__run_watchers_def only_watchers_def moved_def)
qed


text \<open>Two idle watchers; the callback of the one that is called first stops the other.\<close>

definition idle_watcher :: uv_handle where
  "idle_watcher = \<lparr>handle_type = UV_IDLE, handle_flags = UV_HANDLE_REF, handle_cb = 0, close_cb = 0, next_closing = 0,
     timeout = 0, timer_repeat = 0, start_id = 0\<rparr>"

definition own_node :: "addr \<Rightarrow> queue_node" where
  "own_node q = \<lparr>queue_next = q, queue_prev = q\<rparr>"

definition watcher_heads :: "uv_handle_type \<Rightarrow> addr" where
  "watcher_heads ty = (if ty = UV_PREPARE then 0x100 else if ty = UV_CHECK then 0x110 else 0x120)"

definition sample_idle_loop :: uv_loop where
  "sample_idle_loop = \<lparr>loop_time = 1000, stop_flag = 0, active_handles = 0, active_reqs = 0, closing_handles = 0,
     timer_counter = 0, timer_heap = \<lparr>heap_root = 0, nelts = 0, nodes = Map.empty\<rparr>,
     handles = [0x1000 \<mapsto> idle_watcher, 0x2000 \<mapsto> idle_watcher],
     queues_of = [0x100 \<mapsto> own_node 0x100, 0x110 \<mapsto> own_node 0x110, 0x120 \<mapsto> own_node 0x120, 0x1068 \<mapsto> own_node 0,
       0x2068 \<mapsto> own_node 0, 0x900 \<mapsto> own_node 0],
     handle_queue = 0x10, pending_queue = 0x50, watchers_at = watcher_heads, loop_flags = 0, backend_fd = 3, ios = Map.empty,
     watcher_queue = 0x60, io_watchers = [], polled = None, nfds = 0, signal_io_watcher = 0x300\<rparr>"

definition no_watchers :: watchers where
  "no_watchers = \<lparr>started = (\<lambda>k. []), waiting = [], callback_of = (\<lambda>h. 0)\<rparr>"

lemma idle_watcher_facts: "\<not> uv__is_active idle_watcher" "handle_type idle_watcher = UV_IDLE"
  by (simp_all add: uv__is_active_def idle_watcher_def UV_HANDLE_REF_def UV_HANDLE_ACTIVE_def)

lemma sample_idle_handle: "handles sample_idle_loop h = Some t \<longleftrightarrow> t = idle_watcher \<and> (h = 0x1000 \<or> h = 0x2000)"
  by (auto simp: sample_idle_loop_def split: if_splits)

lemma sample_idle_kinds: "kinds sample_idle_loop h = (if h = 0x1000 \<or> h = 0x2000 then Some UV_IDLE else None)"
  by (simp add: kinds_def sample_idle_loop_def idle_watcher_facts(2) watcher_types_def)

lemma sample_idle_ok: "loop_ok sample_idle_loop" "watchers_ok None sample_idle_loop no_watchers" "local_node 0x900 sample_idle_loop"
proof -
  let ?L = sample_idle_loop
  have none: "active_timers ?L = {}" "counted ?L = {}"
    using idle_watcher_facts(1) by (auto simp: active_timers_def counted_def sample_idle_handle)
  have dom: "dom (handles ?L) = {0x2000, 0x1000}" by (auto simp: sample_idle_loop_def)
  have "linked (timer_heap ?L) []" by (auto simp: linked_def nodes_ok_def sample_idle_loop_def entry_def)
  then have "heap_ok ?L" unfolding heap_ok_def none by (intro exI [of _ "[]"]) (simp add: ordered_def)
  moreover have "handle_type t \<noteq> UV_TIMER" if "handles ?L h = Some t" for h t
    using that idle_watcher_facts(2) by (auto simp: sample_idle_handle)
  moreover have "active_handles ?L = 0" by (simp add: sample_idle_loop_def)
  ultimately show "loop_ok ?L" unfolding loop_ok_def none dom by auto
  have heads: "watchers_at ?L = watcher_heads" by (simp add: sample_idle_loop_def)
  have img: "watcher_heads ` watcher_types = {0x100, 0x110, 0x120}" by (auto simp: watcher_heads_def watcher_types_def)
  have rings: "loop_rings ?L no_watchers = [0x100 \<mapsto> [], 0x110 \<mapsto> [], 0x120 \<mapsto> []]"
    by (simp add: loop_rings_def no_watchers_def heads watcher_heads_def queue_nodes_def)
  have "ring (queues_of ?L) h []" if "h \<in> {0x100, 0x110, 0x120}" for h
    using that by (auto simp: ring_def sample_idle_loop_def QUEUE_NEXT_def QUEUE_PREV_def own_node_def)
  then have "rings (queues_of ?L) (loop_rings ?L no_watchers)" unfolding rings rings_def by (auto split: if_splits)
  moreover have "inj_on watcher_heads watcher_types" by (auto simp: inj_on_def watcher_heads_def watcher_types_def)
  moreover have "queues_of ?L (h + WATCHER_QUEUE) \<noteq> None \<and> h + WATCHER_QUEUE \<notin> {0x100, 0x110, 0x120}"
    if "h = 0x1000 \<or> h = 0x2000" for h
    using that by (auto simp: sample_idle_loop_def WATCHER_QUEUE_def)
  moreover have "running no_watchers = {}" by (simp add: running_def no_watchers_def)
  ultimately show "watchers_ok None ?L no_watchers"
    using idle_watcher_facts(1) unfolding watchers_ok_def
    by (auto simp: all_rings_None sample_idle_handle loop_rings_dom heads img no_watchers_def)
  show "local_node 0x900 ?L"
    by (simp add: local_node_def heads img sample_idle_kinds WATCHER_QUEUE_def) (simp add: sample_idle_loop_def)
qed

definition stop_other :: "addr list watcher_program" where
  "stop_other cb h u = (if cb = 6 then [StopWatcher 0x1000] else [], u @ [h])"

theorem uv__run_watchers_correct_witness:
  "\<exists>L1 rs L' W' u' hs. watch_all sample_idle_loop [StartWatcher 0x1000 5, StartWatcher 0x2000 6] = Some (rs, L1) \<and>
    uv__run_watchers UV_IDLE (watcher_calls stop_other) 0x900 (L1, []) = Some (L', u') \<and> loop_ok L' \<and>
    watchers_ok None L' W' \<and> subseq hs [0x2000, 0x1000]"
proof -
  let ?ops = "[StartWatcher 0x1000 5, StartWatcher 0x2000 6]"
  have "\<forall>op \<in> set ?ops. kinds sample_idle_loop (watcher op) \<noteq> None" by (simp add: sample_idle_kinds)
  from watch_all_specified [OF sample_idle_ok(1,2) this]
  obtain rs L1 W1 where 1: "watch_all sample_idle_loop ?ops = Some (rs, L1)" "watched_all (kinds sample_idle_loop) no_watchers ?ops = Some (rs, W1)"
    "only_watchers sample_idle_loop L1" "watchers_ok None L1 W1" by blast
  have W1: "started W1 UV_IDLE = [0x2000, 0x1000]"
    using 1(2) by (auto simp: sample_idle_kinds running_def no_watchers_def list_first_def split: if_splits)
  have L1: "loop_ok L1" "kinds L1 = kinds sample_idle_loop" "watchers_at L1 = watchers_at sample_idle_loop"
    "dom (queues_of L1) = dom (queues_of sample_idle_loop)"
    using 1(3) by (simp_all add: only_watchers_def)
  then have node: "local_node 0x900 L1"
    using sample_idle_ok(3) by (simp add: local_node_def dom_def) (auto simp: set_eq_iff)
  have "\<And>cb h u op. op \<in> set (fst (stop_other cb h u)) \<Longrightarrow> kinds L1 (watcher op) \<noteq> None"
    by (auto simp: stop_other_def L1(2) sample_idle_kinds split: if_splits)
  moreover have "UV_IDLE \<in> watcher_types" by (simp add: watcher_types_def)
  ultimately obtain hs L' W' u' where "uv__run_watchers UV_IDLE (watcher_calls stop_other) 0x900 (L1, []) = Some (L', u')"
      "loop_ok L'" "watchers_ok None L' W'" "subseq hs (started W1 UV_IDLE)"
    using uv__run_watchers_correct [OF L1(1) 1(4) node, of UV_IDLE stop_other "[]"] by blast
  then show ?thesis using 1(1) W1 by auto
qed

end
