(* ===== verification/Uv_Poll.thy ===== *)
theory Uv_Poll
  imports Uv_Loop
begin

text \<open>
  Watchers of file descriptors (\<^verbatim>\<open>src/unix/core.c\<close>) and the wait for I/O (\<^verbatim>\<open>src/unix/kqueue.c\<close>). The system calls are
  parameters; a failed \<open>assert\<close> and \<open>abort\<close> are \<open>None\<close>.
\<close>

section \<open>Watchers of file descriptors\<close>

definition POLLIN :: u32 where "POLLIN = 0x0001"
definition UV__POLLPRI :: u32 where "UV__POLLPRI = 0x0002"
definition POLLOUT :: u32 where "POLLOUT = 0x0004"
definition POLLERR :: u32 where "POLLERR = 0x0008"
definition UV__POLLRDHUP :: u32 where "UV__POLLRDHUP = 0x2000"

text \<open>\<open>offsetof\<close> for the two queue nodes of a \<open>uv__io_t\<close>.\<close>

definition PENDING_QUEUE :: addr where "PENDING_QUEUE = 8"
definition IO_WATCHER_QUEUE :: addr where "IO_WATCHER_QUEUE = 24"

definition set_io :: "uv_loop \<Rightarrow> addr \<Rightarrow> uv__io \<Rightarrow> uv_loop" where
  "set_io L w io = L\<lparr>ios := (ios L)(w \<mapsto> io)\<rparr>"

definition next_power_of_two :: "u32 \<Rightarrow> u32" where
  "next_power_of_two val =
     (let val = val - 1;
          val = val OR drop_bit 1 val;
          val = val OR drop_bit 2 val;
          val = val OR drop_bit 4 val;
          val = val OR drop_bit 8 val;
          val = val OR drop_bit 16 val
      in val + 1)"

text \<open>\<open>uv__reallocf\<close> succeeds; the two entries after the array are \<open>polled\<close>, which stays.\<close>

definition maybe_resize :: "uv_loop \<Rightarrow> u32 \<Rightarrow> uv_loop" where
  "maybe_resize L len =
     (if len \<le> of_nat (length (io_watchers L)) then L
      else
        let nwatchers = next_power_of_two (len + 2) - 2 in
        L\<lparr>io_watchers := io_watchers L @ replicate (unat nwatchers - length (io_watchers L)) 0\<rparr>)"

definition uv__io_init :: "uv_loop \<Rightarrow> addr \<Rightarrow> addr \<Rightarrow> int \<Rightarrow> uv_loop option" where
  "uv__io_init L w cb fd =
     (if cb = 0 \<or> fd < - 1 then None
      else do {
        Q \<leftarrow> QUEUE_INIT (queues_of L) (w + PENDING_QUEUE);
        Q \<leftarrow> QUEUE_INIT Q (w + IO_WATCHER_QUEUE);
        Some (set_io (L\<lparr>queues_of := Q\<rparr>) w
          \<lparr>io_cb = cb, io_pevents = 0, io_events = 0, io_fd = fd, rcount = 0, wcount = 0\<rparr>) })"

definition events_valid :: "u32 \<Rightarrow> bool" where
  "events_valid events \<longleftrightarrow> events AND NOT (POLLIN OR POLLOUT OR UV__POLLRDHUP OR UV__POLLPRI) = 0 \<and> events \<noteq> 0"

definition uv__io_start :: "uv_loop \<Rightarrow> addr \<Rightarrow> u32 \<Rightarrow> uv_loop option" where
  "uv__io_start L w events = do {
     io \<leftarrow> ios L w;
     if \<not> events_valid events \<or> io_fd io < 0 \<or> \<not> io_fd io < 0x7FFFFFFF then None
     else do {
       let io = io\<lparr>io_pevents := io_pevents io OR events\<rparr>;
       let L = maybe_resize (set_io L w io) (word_of_int (io_fd io + 1));
       if io_events io = io_pevents io then Some L
       else do {
         e \<leftarrow> QUEUE_EMPTY (queues_of L) (w + IO_WATCHER_QUEUE);
         Q \<leftarrow> (if e then QUEUE_INSERT_TAIL (queues_of L) (watcher_queue L) (w + IO_WATCHER_QUEUE) else Some (queues_of L));
         let L = L\<lparr>queues_of := Q\<rparr>;
         let fd = nat (io_fd io);
         Some (if io_watchers L ! fd = 0 then L\<lparr>io_watchers := (io_watchers L)[fd := w], nfds := nfds L + 1\<rparr> else L) } } }"

definition uv__io_stop :: "uv_loop \<Rightarrow> addr \<Rightarrow> u32 \<Rightarrow> uv_loop option" where
  "uv__io_stop L w events = do {
     io \<leftarrow> ios L w;
     if \<not> events_valid events then None
     else if io_fd io = - 1 then Some L
     else if io_fd io < 0 then None
     else if int (length (io_watchers L)) \<le> io_fd io then Some L
     else do {
       let io = io\<lparr>io_pevents := io_pevents io AND NOT events\<rparr>;
       let L = set_io L w io;
       let fd = nat (io_fd io);
       if io_pevents io = 0
       then do {
         Q \<leftarrow> QUEUE_REMOVE (queues_of L) (w + IO_WATCHER_QUEUE);
         Q \<leftarrow> QUEUE_INIT Q (w + IO_WATCHER_QUEUE);
         let L = L\<lparr>queues_of := Q\<rparr>;
         if io_watchers L ! fd = 0 then Some L
         else if io_watchers L ! fd \<noteq> w \<or> nfds L = 0 then None
         else Some (set_io (L\<lparr>io_watchers := (io_watchers L)[fd := 0], nfds := nfds L - 1\<rparr>) w (io\<lparr>io_events := 0\<rparr>)) }
       else do {
         e \<leftarrow> QUEUE_EMPTY (queues_of L) (w + IO_WATCHER_QUEUE);
         Q \<leftarrow> (if e then QUEUE_INSERT_TAIL (queues_of L) (watcher_queue L) (w + IO_WATCHER_QUEUE) else Some (queues_of L));
         Some (L\<lparr>queues_of := Q\<rparr>) } } }"

text \<open>The conversion of \<open>ident\<close> to \<open>int\<close>.\<close>

definition int_of_ident :: "u64 \<Rightarrow> int" where
  "int_of_ident i = sint (ucast i :: 32 word)"

definition uv__platform_invalidate_fd :: "uv_loop \<Rightarrow> int \<Rightarrow> uv_loop option" where
  "uv__platform_invalidate_fd L fd =
     (if io_watchers L = [] \<or> fd < 0 then None
      else case polled L of
        None \<Rightarrow> Some L
      | Some events \<Rightarrow> Some (L\<lparr>polled := Some (List.map
          (\<lambda>ev. if int_of_ident (ev_ident ev) = fd then ev\<lparr>ev_ident := - 1\<rparr> else ev) events)\<rparr>))"

definition uv__io_close :: "uv_loop \<Rightarrow> addr \<Rightarrow> uv_loop option" where
  "uv__io_close L w = do {
     L \<leftarrow> uv__io_stop L w (POLLIN OR POLLOUT OR UV__POLLRDHUP OR UV__POLLPRI);
     Q \<leftarrow> QUEUE_REMOVE (queues_of L) (w + PENDING_QUEUE);
     let L = L\<lparr>queues_of := Q\<rparr>;
     io \<leftarrow> ios L w;
     if io_fd io \<noteq> - 1 then uv__platform_invalidate_fd L (io_fd io) else Some L }"

definition uv__io_feed :: "uv_loop \<Rightarrow> addr \<Rightarrow> uv_loop option" where
  "uv__io_feed L w = do {
     e \<leftarrow> QUEUE_EMPTY (queues_of L) (w + PENDING_QUEUE);
     Q \<leftarrow> (if e then QUEUE_INSERT_TAIL (queues_of L) (pending_queue L) (w + PENDING_QUEUE) else Some (queues_of L));
     Some (L\<lparr>queues_of := Q\<rparr>) }"

definition uv__io_active :: "uv__io \<Rightarrow> u32 \<Rightarrow> bool option" where
  "uv__io_active io events = (if events_valid events then Some (io_pevents io AND events \<noteq> 0) else None)"

definition uv__fd_exists :: "uv_loop \<Rightarrow> int \<Rightarrow> bool" where
  "uv__fd_exists L fd \<longleftrightarrow>
     uint (word_of_int fd :: u32) < int (length (io_watchers L)) \<and> io_watchers L ! unat (word_of_int fd :: u32) \<noteq> 0"

section \<open>The kernel\<close>

record timespec =
  tv_sec :: int
  tv_nsec :: int

text \<open>
  \<open>kevent fd changes n timeout\<close> makes the changes, waits for at most \<open>n\<close> events and returns an error number or
  the events; no timeout is a wait without an end. \<open>sigmask\<close> blocks \<open>SIGPROF\<close> or unblocks it. \<open>call_io\<close> calls the
  callback of an I/O watcher with the events; \<open>fs_event_cb\<close> is the address of \<open>uv__fs_event\<close>.
\<close>

record 'u kernel =
  hrtime :: "'u \<Rightarrow> u64 \<times> 'u"
  kevent :: "int \<Rightarrow> kernel_event list \<Rightarrow> nat \<Rightarrow> timespec option \<Rightarrow> 'u \<Rightarrow> (int + kernel_event list) \<times> 'u"
  sigmask :: "bool \<Rightarrow> 'u \<Rightarrow> 'u"
  call_io :: "addr \<Rightarrow> addr \<Rightarrow> u32 \<Rightarrow> 'u world \<Rightarrow> 'u world option"
  fs_event_cb :: addr

text \<open>\<open>uv__hrtime\<close>, in nanoseconds, reads the clock.\<close>

definition uv__update_time :: "('u \<Rightarrow> u64 \<times> 'u) \<Rightarrow> 'u world \<Rightarrow> 'u world" where
  "uv__update_time clk = (\<lambda>(L, u). case clk u of (n, u) \<Rightarrow> (L\<lparr>loop_time := n div 1000000\<rparr>, u))"

definition EVFILT_READ :: int where "EVFILT_READ = - 1"
definition EVFILT_WRITE :: int where "EVFILT_WRITE = - 2"
definition EVFILT_VNODE :: int where "EVFILT_VNODE = - 4"
definition EV_OOBAND :: int where "EV_OOBAND = 0x2000"

definition EV_ADD :: "16 word" where "EV_ADD = 0x0001"
definition EV_DELETE :: "16 word" where "EV_DELETE = 0x0002"
definition EV_ONESHOT :: "16 word" where "EV_ONESHOT = 0x0010"
definition EV_ERROR :: "16 word" where "EV_ERROR = 0x4000"
definition EV_EOF :: "16 word" where "EV_EOF = 0x8000"

definition NOTE_VNODE :: u32 where \<comment> \<open>\<open>NOTE_ATTRIB | NOTE_WRITE | NOTE_RENAME | NOTE_DELETE | NOTE_EXTEND | NOTE_REVOKE\<close>\<close>
  "NOTE_VNODE = 0x08 OR 0x02 OR 0x20 OR 0x01 OR 0x04 OR 0x40"

definition ENOENT :: int where "ENOENT = 2"
definition EINTR :: int where "EINTR = 4"
definition EBADF :: int where "EBADF = 9"

definition UV_LOOP_BLOCK_SIGPROF :: u64 where "UV_LOOP_BLOCK_SIGPROF = 1"

definition MAX_EVENTS :: nat where "MAX_EVENTS = 1024"

definition EV_SET :: "int \<Rightarrow> int \<Rightarrow> 16 word \<Rightarrow> u32 \<Rightarrow> kernel_event" where
  "EV_SET fd filt fl ffl = \<lparr>ev_ident = word_of_int fd, ev_filter = filt, ev_flags = fl, ev_fflags = ffl, ev_data = 0\<rparr>"

text \<open>A call of \<open>kevent\<close> that asks for no event; \<open>ignored\<close> are the errors that do not \<open>abort\<close>.\<close>

definition change_events :: "('u, 'z) kernel_scheme \<Rightarrow> int set \<Rightarrow> kernel_event list \<Rightarrow> 'u world \<Rightarrow> 'u world option" where
  "change_events K ignored evs = (\<lambda>(L, u).
     case kevent K (backend_fd L) evs 0 None u of
       (Inl e, u) \<Rightarrow> if e \<in> ignored then Some (L, u) else None
     | (Inr r, u) \<Rightarrow> if r = [] then Some (L, u) else None)"

definition uv__io_check_fd :: "('u, 'z) kernel_scheme \<Rightarrow> int \<Rightarrow> 'u world \<Rightarrow> (int \<times> 'u world) option" where
  "uv__io_check_fd K fd = (\<lambda>(L, u).
     case kevent K (backend_fd L) [EV_SET fd EVFILT_READ EV_ADD 0] 0 None u of
       (Inl e, u) \<Rightarrow> Some (- e, L, u)
     | (Inr _, u) \<Rightarrow> do {
         w \<leftarrow> change_events K {} [EV_SET fd EVFILT_READ EV_DELETE 0] (L, u);
         Some (0, w) })"

section \<open>Registering the watchers\<close>

text \<open>One more change, written when the array is full.\<close>

definition add_change :: "('u, 'z) kernel_scheme \<Rightarrow> kernel_event \<Rightarrow> kernel_event list \<times> 'u world \<Rightarrow>
    (kernel_event list \<times> 'u world) option" where
  "add_change K ev = (\<lambda>(evs, w).
     let evs = evs @ [ev] in
     if length evs = MAX_EVENTS then do { w \<leftarrow> change_events K {} evs w; Some ([], w) } else Some (evs, w))"

definition newly :: "uv__io \<Rightarrow> u32 \<Rightarrow> bool" where
  "newly io poll \<longleftrightarrow> io_events io AND poll = 0 \<and> io_pevents io AND poll \<noteq> 0"

definition register_watcher :: "('u, 'z) kernel_scheme \<Rightarrow> addr \<Rightarrow> kernel_event list \<times> 'u world \<Rightarrow>
    (kernel_event list \<times> 'u world) option" where
  "register_watcher K w = (\<lambda>(evs, L, u). do {
     io \<leftarrow> ios L w;
     let fd = io_fd io;
     if io_pevents io = 0 \<or> fd < 0 \<or> \<not> fd < int (length (io_watchers L)) then None
     else do {
       s \<leftarrow> (if newly io POLLIN
             then add_change K (if io_cb io = fs_event_cb K then EV_SET fd EVFILT_VNODE (EV_ADD OR EV_ONESHOT) NOTE_VNODE
                                else EV_SET fd EVFILT_READ EV_ADD 0) (evs, L, u)
             else Some (evs, L, u));
       s \<leftarrow> (if newly io POLLOUT then add_change K (EV_SET fd EVFILT_WRITE EV_ADD 0) s else Some s);
       s \<leftarrow> (if newly io UV__POLLPRI then add_change K (EV_SET fd EV_OOBAND EV_ADD 0) s else Some s);
       let (evs, L, u) = s;
       Some (evs, set_io L w (io\<lparr>io_events := io_pevents io\<rparr>), u) } })"

partial_function (option) register_loop :: "('u, 'z) kernel_scheme \<Rightarrow> kernel_event list \<times> 'u world \<Rightarrow>
    (kernel_event list \<times> 'u world) option" where
  "register_loop K s = do {
     let (evs, L, u) = s;
     e \<leftarrow> QUEUE_EMPTY (queues_of L) (watcher_queue L);
     if e then Some s
     else do {
       q \<leftarrow> QUEUE_HEAD (queues_of L) (watcher_queue L);
       Q \<leftarrow> QUEUE_REMOVE (queues_of L) q;
       Q \<leftarrow> QUEUE_INIT Q q;
       s \<leftarrow> register_watcher K (q - IO_WATCHER_QUEUE) (evs, L\<lparr>queues_of := Q\<rparr>, u);
       register_loop K s } }"

section \<open>Dispatching the events\<close>

text \<open>
  An event of the filter \<open>filt\<close> sets \<open>poll\<close> in \<open>revents\<close> and the count if the watcher asks for it, and is disarmed
  otherwise.
\<close>

definition poll_filter :: "('u, 'z) kernel_scheme \<Rightarrow> kernel_event \<Rightarrow> int \<Rightarrow> u32 \<Rightarrow> (u32 \<Rightarrow> uv__io \<Rightarrow> uv__io) \<Rightarrow> addr \<Rightarrow>
    u32 \<times> 'u world \<Rightarrow> (u32 \<times> 'u world) option" where
  "poll_filter K ev filt poll count w = (\<lambda>(revents, L, u).
     if ev_filter ev \<noteq> filt then Some (revents, L, u)
     else do {
       io \<leftarrow> ios L w;
       if io_pevents io AND poll \<noteq> 0
       then Some (revents OR poll, set_io L w (count (ucast (ev_data ev)) io), u)
       else do {
         v \<leftarrow> change_events K {ENOENT} [EV_SET (int_of_ident (ev_ident ev)) (ev_filter ev) EV_DELETE 0] (L, u);
         Some (revents, v) } })"

text \<open>The state of the loop over the events: whether the signal watcher has events, the count of events, the world.\<close>

definition poll_event :: "('u, 'z) kernel_scheme \<Rightarrow> nat \<Rightarrow> bool \<times> nat \<times> 'u world \<Rightarrow> (bool \<times> nat \<times> 'u world) option" where
  "poll_event K i = (\<lambda>(have_signals, nevents, L, u). do {
     evs \<leftarrow> polled L;
     if \<not> i < length evs then None
     else do {
       let ev = evs ! i;
       let fd = int_of_ident (ev_ident ev);
       if fd = - 1 then Some (have_signals, nevents, L, u)
       else if fd < 0 \<or> \<not> fd < int (length (io_watchers L)) then None
       else do {
         let w = io_watchers L ! nat fd;
         if w = 0
         then do {
           v \<leftarrow> change_events K {EBADF, ENOENT} [EV_SET fd (ev_filter ev) EV_DELETE 0] (L, u);
           Some (have_signals, nevents, v) }
         else do {
           io \<leftarrow> ios L w;
           if ev_filter ev = EVFILT_VNODE
           then if io_events io \<noteq> POLLIN \<or> io_pevents io \<noteq> POLLIN then None
                else do { v \<leftarrow> call_io K (io_cb io) w (ev_fflags ev) (L, u); Some (have_signals, nevents + 1, v) }
           else do {
             r \<leftarrow> poll_filter K ev EVFILT_READ POLLIN (\<lambda>n io. io\<lparr>rcount := n\<rparr>) w (0, L, u);
             r \<leftarrow> poll_filter K ev EV_OOBAND UV__POLLPRI (\<lambda>n io. io\<lparr>rcount := n\<rparr>) w r;
             (revents, v) \<leftarrow> poll_filter K ev EVFILT_WRITE POLLOUT (\<lambda>n io. io\<lparr>wcount := n\<rparr>) w r;
             let revents = (if ev_flags ev AND EV_ERROR \<noteq> 0 then revents OR POLLERR else revents);
             let revents = (if ev_flags ev AND EV_EOF \<noteq> 0 \<and> io_pevents io AND UV__POLLRDHUP \<noteq> 0
                            then revents OR UV__POLLRDHUP else revents);
             if revents = 0 then Some (have_signals, nevents, v)
             else if w = signal_io_watcher L then Some (True, nevents + 1, v)
             else do { v \<leftarrow> call_io K (io_cb io) w revents v; Some (have_signals, nevents + 1, v) } } } } } })"

primrec poll_events :: "('u, 'z) kernel_scheme \<Rightarrow> nat list \<Rightarrow> bool \<times> nat \<times> 'u world \<Rightarrow> (bool \<times> nat \<times> 'u world) option" where
  "poll_events K [] s = Some s"
| "poll_events K (i # is) s = do { s \<leftarrow> poll_event K i s; poll_events K is s }"

text \<open>The body of the wait for events that are not an error: the events, then the signals.\<close>

definition dispatch_events :: "('u, 'z) kernel_scheme \<Rightarrow> kernel_event list \<Rightarrow> 'u world \<Rightarrow> (bool \<times> nat \<times> 'u world) option" where
  "dispatch_events K evs = (\<lambda>(L, u).
     if io_watchers L = [] then None
     else do {
       (have_signals, nevents, w) \<leftarrow> poll_events K [0 ..< length evs] (False, 0, L\<lparr>polled := Some evs\<rparr>, u);
       w \<leftarrow> (if have_signals
             then do {
               io \<leftarrow> ios (fst w) (signal_io_watcher (fst w));
               call_io K (io_cb io) (signal_io_watcher (fst w)) POLLIN w }
             else Some w);
       let (L, u) = w;
       Some (have_signals, nevents, L\<lparr>polled := None\<rparr>, u) })"

section \<open>The wait\<close>

definition timespec_of :: "int \<Rightarrow> timespec option" where
  "timespec_of ms =
     (if ms = - 1 then None else Some \<lparr>tv_sec = ms div 1000, tv_nsec = ms mod 1000 * 1000000\<rparr>)"

text \<open>\<open>update_timeout\<close>: the rest of the timeout, or \<open>None\<close> when it is over.\<close>

definition update_timeout :: "u64 \<Rightarrow> u64 \<Rightarrow> int \<Rightarrow> int option" where
  "update_timeout base t ms =
     (let diff = t - base in if word_of_int ms \<le> diff then None else Some (ms - uint diff))"

definition wait_events :: "('u, 'z) kernel_scheme \<Rightarrow> bool \<Rightarrow> kernel_event list \<Rightarrow> int \<Rightarrow> 'u world \<Rightarrow>
    (int + kernel_event list) \<times> 'u world" where
  "wait_events K block changes ms = (\<lambda>(L, u).
     let u = (if block then sigmask K True u else u);
         (r, u) = kevent K (backend_fd L) changes MAX_EVENTS (timespec_of ms) u;
         u = (if block then sigmask K False u else u)
     in (r, uv__update_time (hrtime K) (L, u)))"

text \<open>
  One round of the wait, which ends it (\<open>Inl\<close>) or goes on with a count and a timeout (\<open>Inr\<close>). After \<open>count\<close> full
  arrays of events the wait ends as well.
\<close>

definition poll_rest :: "u64 \<Rightarrow> nat \<Rightarrow> int \<Rightarrow> 'u world \<Rightarrow> ('u world + nat \<times> int \<times> 'u world) option" where
  "poll_rest base count ms w =
     (if ms = 0 then Some (Inl w)
      else if ms = - 1 then Some (Inr (count, ms, w))
      else if \<not> 0 < ms then None
      else case update_timeout base (loop_time (fst w)) ms of
        None \<Rightarrow> Some (Inl w)
      | Some ms \<Rightarrow> Some (Inr (count, ms, w)))"

definition poll_round :: "('u, 'z) kernel_scheme \<Rightarrow> bool \<Rightarrow> u64 \<Rightarrow> kernel_event list \<Rightarrow> nat \<times> int \<times> 'u world \<Rightarrow>
    ('u world + nat \<times> int \<times> 'u world) option" where
  "poll_round K block base changes = (\<lambda>(count, ms, w).
     case wait_events K block changes ms w of
       (Inl e, w) \<Rightarrow> if e \<noteq> EINTR then None else poll_rest base count ms w
     | (Inr evs, w) \<Rightarrow>
         if evs = [] then (if ms = - 1 then None else Some (Inl w))
         else do {
           (have_signals, nevents, w) \<leftarrow> dispatch_events K evs w;
           if have_signals then Some (Inl w)
           else if nevents \<noteq> 0
           then Some (if length evs = MAX_EVENTS \<and> count - 1 \<noteq> 0 then Inr (count - 1, 0, w) else Inl w)
           else poll_rest base count ms w })"

partial_function (option) poll_loop :: "('u, 'z) kernel_scheme \<Rightarrow> bool \<Rightarrow> u64 \<Rightarrow> kernel_event list \<Rightarrow> nat \<times> int \<times> 'u world \<Rightarrow>
    'u world option" where
  "poll_loop K block base changes s = do {
     r \<leftarrow> poll_round K block base changes s;
     case r of Inl w \<Rightarrow> Some w | Inr s \<Rightarrow> poll_loop K block base [] s }"

definition uv__io_poll :: "('u, 'z) kernel_scheme \<Rightarrow> int \<Rightarrow> 'u world \<Rightarrow> 'u world option" where
  "uv__io_poll K ms = (\<lambda>(L, u).
     if nfds L = 0
     then do { e \<leftarrow> QUEUE_EMPTY (queues_of L) (watcher_queue L); if e then Some (L, u) else None }
     else do {
       (evs, L, u) \<leftarrow> register_loop K ([], L, u);
       if ms < - 1 then None
       else poll_loop K (loop_flags L AND UV_LOOP_BLOCK_SIGPROF \<noteq> 0) (loop_time L) evs (48, ms, L, u) })"

section \<open>Closed watchers and interrupted waits\<close>

text \<open>
  The events of a file descriptor that are waiting to be dispatched when its watcher is closed are skipped: no
  callback runs for them and nothing changes.
\<close>

lemma uv__io_stop_keeps: "uv__io_stop L w events = Some L' \<Longrightarrow> polled L' = polled L \<and> length (io_watchers L') = length (io_watchers L) \<and>
    map_option io_fd (ios L' w) = map_option io_fd (ios L w)"
  by (auto simp: uv__io_stop_def set_io_def Let_def split: bind_splits if_splits)

lemma int_of_ident_max: "int_of_ident (- 1) = - 1"
proof -
  have "ucast (- 1 :: u64) = (- 1 :: u32)" by (rule bit_word_eqI) (simp add: bit_simps)
  then show ?thesis by (simp add: int_of_ident_def)
qed

theorem closed_event_skipped:
  assumes close: "uv__io_close L w = Some L'" and io: "ios L w = Some io" "io_fd io \<noteq> - 1"
    and evs: "polled L = Some evs" "i < length evs" "int_of_ident (ev_ident (evs ! i)) = io_fd io"
  shows "poll_event K i (s, n, L', u) = Some (s, n, L', u)"
proof -
  obtain L1 Q where 1: "uv__io_stop L w (POLLIN OR POLLOUT OR UV__POLLRDHUP OR UV__POLLPRI) = Some L1"
      "uv__platform_invalidate_fd (L1\<lparr>queues_of := Q\<rparr>) (io_fd io) = Some L'"
    using close uv__io_stop_keeps io by (fastforce simp: uv__io_close_def Let_def split: bind_splits if_splits)
  then have "polled L1 = Some evs" using uv__io_stop_keeps [OF 1(1)] evs(1) by simp
  then have "polled L' = Some (List.map (\<lambda>ev. if int_of_ident (ev_ident ev) = io_fd io then ev\<lparr>ev_ident := - 1\<rparr> else ev) evs)"
    using 1(2) by (auto simp: uv__platform_invalidate_fd_def split: if_splits)
  then show ?thesis using evs(2,3) by (simp add: poll_event_def Let_def int_of_ident_max)
qed

text \<open>
  \<open>base\<close> stays the time of the start while the timeout shrinks, so the time before an interruption counts again at
  each later one: a wait of \<open>k\<close> interrupted after \<open>a\<close> milliseconds ends at an interruption from \<open>k - a\<close> on.
\<close>

theorem interrupted_wait_ends_early:
  assumes "0 \<le> a" "a < k" "k - a \<le> b" "b < k" "k \<le> 0x7FFFFFFF"
  shows "update_timeout base (base + word_of_int a) k = Some (k - a) \<and> update_timeout base (base + word_of_int b) (k - a) = None"
proof -
  have u: "uint (word_of_int j :: u64) = j" if "0 \<le> j" "j \<le> k" for j using assms(5) that by (simp add: uint_word_of_int)
  have a: "uint (word_of_int a :: u64) = a" and b: "uint (word_of_int b :: u64) = b" and k: "uint (word_of_int k :: u64) = k"
    and r: "uint (word_of_int (k - a) :: u64) = k - a"
    using assms by (auto intro!: u simp del: of_int_diff)
  have "\<not> word_of_int k \<le> (word_of_int a :: u64)" "word_of_int (k - a) \<le> (word_of_int b :: u64)"
    unfolding word_le_def a b k r using assms by simp_all
  then show ?thesis by (simp add: update_timeout_def Let_def a del: of_int_diff)
qed

section \<open>Registering ends, within the array of changes\<close>

definition accepts :: "('u, 'z) kernel_scheme \<Rightarrow> int \<Rightarrow> bool" where
  "accepts K fd \<longleftrightarrow> (\<forall>changes u. \<exists>u'. kevent K fd changes 0 None u = (Inr [], u'))"

lemma add_change_ok:
  assumes "accepts K (backend_fd L)" "length evs < MAX_EVENTS"
  shows "\<exists>evs' u'. add_change K ev (evs, L, u) = Some (evs', L, u') \<and> length evs' < MAX_EVENTS"
proof (cases "length (evs @ [ev]) = MAX_EVENTS")
  case True
  obtain u' where "kevent K (backend_fd L) (evs @ [ev]) 0 None u = (Inr [], u')" using assms(1) unfolding accepts_def by blast
  then show ?thesis using True by (simp add: add_change_def change_events_def MAX_EVENTS_def)
next
  case False
  then show ?thesis using assms(2) by (simp add: add_change_def)
qed

lemma register_watcher_ok:
  assumes K: "accepts K (backend_fd L)" and evs: "length evs < MAX_EVENTS"
    and io: "ios L w = Some io" "io_pevents io \<noteq> 0" "0 \<le> io_fd io" "io_fd io < int (length (io_watchers L))"
  shows "\<exists>evs' u'. register_watcher K w (evs, L, u) = Some (evs', set_io L w (io\<lparr>io_events := io_pevents io\<rparr>), u') \<and>
    length evs' < MAX_EVENTS"
proof -
  have step: "\<exists>evs' u'. (if b then add_change K ev (evs, L, u) else Some (evs, L, u)) = Some (evs', L, u') \<and> length evs' < MAX_EVENTS"
    if "length evs < MAX_EVENTS" for b ev evs u
    using add_change_ok [OF K that] that by (cases b) simp_all
  let ?e = "if io_cb io = fs_event_cb K then EV_SET (io_fd io) EVFILT_VNODE (EV_ADD OR EV_ONESHOT) NOTE_VNODE
    else EV_SET (io_fd io) EVFILT_READ EV_ADD 0"
  obtain evs1 u1 where 1: "(if newly io POLLIN then add_change K ?e (evs, L, u) else Some (evs, L, u)) = Some (evs1, L, u1)"
      "length evs1 < MAX_EVENTS" using step [OF evs] by blast
  obtain evs2 u2 where 2: "(if newly io POLLOUT then add_change K (EV_SET (io_fd io) EVFILT_WRITE EV_ADD 0) (evs1, L, u1)
      else Some (evs1, L, u1)) = Some (evs2, L, u2)" "length evs2 < MAX_EVENTS" using step [OF 1(2)] by blast
  obtain evs3 u3 where 3: "(if newly io UV__POLLPRI then add_change K (EV_SET (io_fd io) EV_OOBAND EV_ADD 0) (evs2, L, u2)
      else Some (evs2, L, u2)) = Some (evs3, L, u3)" "length evs3 < MAX_EVENTS" using step [OF 2(2)] by blast
  have "register_watcher K w (evs, L, u) = Some (evs3, set_io L w (io\<lparr>io_events := io_pevents io\<rparr>), u3)"
    unfolding register_watcher_def prod.case io(1) Option.bind.simps Let_def 1(1) 2(1) 3(1) using io(2-4) by simp
  then show ?thesis using 3(2) by blast
qed

text \<open>
  When the watchers \<open>ws\<close> wait in the queue, each with events it asks for and a file descriptor of the array, and the
  kernel accepts every change, the loop ends with the queue empty, and what each of them asks for is what it is
  registered for; the array of 1024 changes is never overrun.
\<close>

definition registered_all :: "addr list \<Rightarrow> uv_loop \<Rightarrow> uv_loop" where
  "registered_all ws L = L\<lparr>ios := (\<lambda>w. if w \<in> set ws then map_option (\<lambda>io. io\<lparr>io_events := io_pevents io\<rparr>) (ios L w) else ios L w)\<rparr>"

theorem register_loop_ends:
  assumes "accepts K (backend_fd L)" "length evs < MAX_EVENTS" "ring (queues_of L) (watcher_queue L) (map (\<lambda>w. w + IO_WATCHER_QUEUE) ws)"
    and "\<And>w. w \<in> set ws \<Longrightarrow> \<exists>io. ios L w = Some io \<and> io_pevents io \<noteq> 0 \<and> 0 \<le> io_fd io \<and> io_fd io < int (length (io_watchers L))"
  shows "\<exists>evs' Q' u'. register_loop K (evs, L, u) = Some (evs', (registered_all ws L)\<lparr>queues_of := Q'\<rparr>, u') \<and>
    length evs' < MAX_EVENTS \<and> ring Q' (watcher_queue L) [] \<and> dom Q' = dom (queues_of L)"
  using assms
proof (induction ws arbitrary: evs L u)
  case Nil
  have "register_loop K (evs, L, u) = Some (evs, L, u)"
    using QUEUE_EMPTY_ring [OF Nil.prems(3)] by (subst register_loop.simps) simp
  then show ?case using Nil.prems(2,3) by (intro exI [of _ evs] exI [of _ "queues_of L"] exI [of _ u]) (simp add: registered_all_def)
next
  case (Cons w ws)
  let ?n = "\<lambda>w. w + IO_WATCHER_QUEUE" and ?h = "watcher_queue L"
  have r: "ring (queues_of L) ?h ([] @ ?n w # map ?n ws)" using Cons.prems(3) by simp
  obtain Q1 where Q1: "QUEUE_REMOVE (queues_of L) (?n w) = Some Q1" "ring Q1 ?h (map ?n ws)"
      "kept (queues_of L) Q1 (insert ?h (set (map ?n ws)))" using QUEUE_REMOVE_ring [OF r] by auto
  have "queues_of L (?n w) \<noteq> None" using ring_mapped [OF r] by simp
  then have "Q1 (?n w) \<noteq> None" using Q1(3) by (auto simp: kept_def)
  then obtain Q2 where Q2: "QUEUE_INIT Q1 (?n w) = Some Q2" "kept Q1 Q2 {?n w}" using QUEUE_INIT_ring by blast
  have dist: "?n w \<notin> insert ?h (set (map ?n ws))" using r by (auto simp: ring_def)
  then have ring2: "ring Q2 ?h (map ?n ws)" using kept_ring [OF Q2(2), of ?h "map ?n ws"] Q1(2) by auto
  have notin: "w \<notin> set ws" using dist by auto
  obtain io where io: "ios L w = Some io" "io_pevents io \<noteq> 0" "0 \<le> io_fd io" "io_fd io < int (length (io_watchers L))"
    using Cons.prems(4) [of w] by auto
  let ?L2 = "L\<lparr>queues_of := Q2\<rparr>"
  obtain evs3 u3 where 3: "register_watcher K w (evs, ?L2, u) = Some (evs3, set_io ?L2 w (io\<lparr>io_events := io_pevents io\<rparr>), u3)"
      "length evs3 < MAX_EVENTS"
    using register_watcher_ok [of K ?L2 evs w io u] Cons.prems(1,2) io by auto
  let ?L3 = "set_io ?L2 w (io\<lparr>io_events := io_pevents io\<rparr>)"
  have "\<exists>evs' Q' u'. register_loop K (evs3, ?L3, u3) = Some (evs', (registered_all ws ?L3)\<lparr>queues_of := Q'\<rparr>, u') \<and>
      length evs' < MAX_EVENTS \<and> ring Q' (watcher_queue ?L3) [] \<and> dom Q' = dom (queues_of ?L3)"
  proof (rule Cons.IH)
    show "accepts K (backend_fd ?L3)" using Cons.prems(1) by (simp add: set_io_def)
    show "length evs3 < MAX_EVENTS" by (rule 3(2))
    show "ring (queues_of ?L3) (watcher_queue ?L3) (map ?n ws)" using ring2 by (simp add: set_io_def)
    show "\<exists>io. ios ?L3 v = Some io \<and> io_pevents io \<noteq> 0 \<and> 0 \<le> io_fd io \<and> io_fd io < int (length (io_watchers ?L3))"
      if "v \<in> set ws" for v using Cons.prems(4) [of v] that notin by (auto simp: set_io_def)
  qed
  then obtain evs' Q' u' where IH: "register_loop K (evs3, ?L3, u3) = Some (evs', (registered_all ws ?L3)\<lparr>queues_of := Q'\<rparr>, u')"
      "length evs' < MAX_EVENTS" "ring Q' ?h []" "dom Q' = dom Q2" by (auto simp: set_io_def)
  have "register_loop K (evs, L, u) = register_loop K (evs3, ?L3, u3)"
    using QUEUE_EMPTY_ring [OF Cons.prems(3)] QUEUE_HEAD_ring [OF Cons.prems(3) [unfolded list.map]] Q1(1) Q2(1) 3(1)
    by (subst register_loop.simps) simp
  moreover have "(registered_all ws ?L3)\<lparr>queues_of := Q'\<rparr> = (registered_all (w # ws) L)\<lparr>queues_of := Q'\<rparr>"
    using io(1) notin by (simp add: registered_all_def set_io_def fun_eq_iff)
  moreover have "dom Q' = dom (queues_of L)" using IH(4) Q1(3) Q2(2) by (simp add: kept_def)
  ultimately show ?case using IH(1-3) by (intro exI [of _ evs'] exI [of _ Q'] exI [of _ u']) simp
qed

end
