(* ===== verification/Uv_Core.thy ===== *)
theory Uv_Core
  imports Uv_Run Uv_Watchers Uv_Poll
begin

text \<open>
  The loop itself, \<^verbatim>\<open>src/unix/core.c\<close>: closing handles, the time the loop may block, and \<open>uv_run\<close>. The
  system calls are parameters, among them the clock and \<open>kevent\<close>; the state of the user has theirs.
\<close>

section \<open>Closing handles\<close>

text \<open>A failed \<open>assert\<close> is \<open>None\<close>.\<close>

definition uv__make_close_pending :: "uv_loop \<Rightarrow> addr \<Rightarrow> uv_loop option" where
  "uv__make_close_pending L h = do {
     t \<leftarrow> handles L h;
     if handle_flags t AND UV_HANDLE_CLOSING = 0 then None
     else if handle_flags t AND UV_HANDLE_CLOSED \<noteq> 0 then None
     else Some ((set_handle L h (t\<lparr>next_closing := closing_handles L\<rparr>))\<lparr>closing_handles := h\<rparr>) }"

text \<open>
  \<open>close_other\<close> is the function that closes a handle of one of the types not modelled here
  (\<open>uv__stream_close\<close>, \<open>uv__udp_close\<close>, \<open>uv__async_close\<close> and so on).
\<close>

definition uv_close :: "(uv_loop \<Rightarrow> addr \<Rightarrow> uv_loop option) \<Rightarrow> uv_loop \<Rightarrow> addr \<Rightarrow> addr \<Rightarrow> uv_loop option" where
  "uv_close close_other L h cb = do {
     t \<leftarrow> handles L h;
     if uv__is_closing t then None
     else do {
       let L = set_handle L h (t\<lparr>handle_flags := handle_flags t OR UV_HANDLE_CLOSING, close_cb := cb\<rparr>);
       let ty = handle_type t;
       if ty = UV_PREPARE \<or> ty = UV_CHECK \<or> ty = UV_IDLE
       then do { L \<leftarrow> uv__watcher_close L h; uv__make_close_pending L h }
       else if ty = UV_TIMER then do { L \<leftarrow> uv__timer_close L h; uv__make_close_pending L h }
       else if ty = UV_FS_POLL then close_other L h
       else if ty = UV_UNKNOWN_HANDLE \<or> ty = UV_HANDLE \<or> ty = UV_STREAM \<or> ty = UV_FILE then None
       else do { L \<leftarrow> close_other L h; uv__make_close_pending L h } } }"

text \<open>
  \<open>destroy\<close> is \<open>uv__stream_destroy\<close> or \<open>uv__udp_finish_close\<close>, and \<open>caught h\<close> whether the signal handle
  \<open>h\<close> has caught signals that are not dispatched.
\<close>

definition uv__finish_close ::
    "('u world \<Rightarrow> addr \<Rightarrow> 'u world option) \<Rightarrow> ('u world \<Rightarrow> addr \<Rightarrow> bool) \<Rightarrow> 'u callback \<Rightarrow> 'u world \<Rightarrow> addr \<Rightarrow> 'u world option" where
  "uv__finish_close destroy caught call w h = do {
     let (L, u) = w;
     t \<leftarrow> handles L h;
     if handle_flags t AND UV_HANDLE_CLOSING = 0 then None
     else if handle_flags t AND UV_HANDLE_CLOSED \<noteq> 0 then None
     else do {
       let L = set_handle L h (t\<lparr>handle_flags := handle_flags t OR UV_HANDLE_CLOSED\<rparr>);
       let ty = handle_type t;
       if ty = UV_SIGNAL \<and> caught (L, u) h
       then do {
         L \<leftarrow> set_flags L h ((handle_flags t OR UV_HANDLE_CLOSED) XOR UV_HANDLE_CLOSED);
         L \<leftarrow> uv__make_close_pending L h;
         Some (L, u) }
       else if ty = UV_UNKNOWN_HANDLE \<or> ty = UV_HANDLE \<or> ty = UV_STREAM \<or> ty = UV_FILE then None
       else do {
         (L, u) \<leftarrow> (if ty = UV_NAMED_PIPE \<or> ty = UV_TCP \<or> ty = UV_TTY \<or> ty = UV_UDP then destroy (L, u) h else Some (L, u));
         L \<leftarrow> uv__handle_unref L h;
         Q \<leftarrow> QUEUE_REMOVE (queues_of L) (h + HANDLE_QUEUE);
         let L = L\<lparr>queues_of := Q\<rparr>;
         t \<leftarrow> handles L h;
         if close_cb t \<noteq> 0 then call (close_cb t) h (L, u) else Some (L, u) } } }"

partial_function (option) closing_loop :: "('u world \<Rightarrow> addr \<Rightarrow> 'u world option) \<Rightarrow> addr \<Rightarrow> 'u world \<Rightarrow> 'u world option" where
  "closing_loop finish p w =
     (if p = 0 then Some w
      else do {
        t \<leftarrow> handles (fst w) p;
        let q = next_closing t;
        w \<leftarrow> finish w p;
        closing_loop finish q w })"

definition uv__run_closing_handles :: "('u world \<Rightarrow> addr \<Rightarrow> 'u world option) \<Rightarrow> 'u world \<Rightarrow> 'u world option" where
  "uv__run_closing_handles finish = (\<lambda>(L, u). closing_loop finish (closing_handles L) (L\<lparr>closing_handles := 0\<rparr>, u))"

section \<open>The loop\<close>

definition uv_backend_timeout :: "uv_loop \<Rightarrow> int option" where
  "uv_backend_timeout L =
     (if stop_flag L \<noteq> 0 then Some 0
      else if \<not> 0 < active_handles L \<and> \<not> 0 < active_reqs L then Some 0
      else do {
        e \<leftarrow> QUEUE_EMPTY (queues_of L) (watchers_at L UV_IDLE);
        if \<not> e then Some 0
        else do {
          e \<leftarrow> QUEUE_EMPTY (queues_of L) (pending_queue L);
          if \<not> e then Some 0
          else if closing_handles L \<noteq> 0 then Some 0
          else uv__next_timeout L } })"

definition uv__loop_alive :: "uv_loop \<Rightarrow> bool" where
  "uv__loop_alive L \<longleftrightarrow> 0 < active_handles L \<or> 0 < active_reqs L \<or> closing_handles L \<noteq> 0"

definition uv_stop :: "uv_loop \<Rightarrow> uv_loop" where
  "uv_stop L = L\<lparr>stop_flag := 1\<rparr>"

partial_function (option) pending_loop :: "(addr \<Rightarrow> addr \<Rightarrow> u32 \<Rightarrow> 'u world \<Rightarrow> 'u world option) \<Rightarrow> addr \<Rightarrow> 'u world \<Rightarrow> 'u world option" where
  "pending_loop io_call pq w = do {
     let (L, u) = w;
     e \<leftarrow> QUEUE_EMPTY (queues_of L) pq;
     if e then Some w
     else do {
       q \<leftarrow> QUEUE_HEAD (queues_of L) pq;
       Q \<leftarrow> QUEUE_REMOVE (queues_of L) q;
       Q \<leftarrow> QUEUE_INIT Q q;
       io \<leftarrow> ios L (q - PENDING_QUEUE);
       w \<leftarrow> io_call (io_cb io) (q - PENDING_QUEUE) POLLOUT (L\<lparr>queues_of := Q\<rparr>, u);
       pending_loop io_call pq w } }"

definition uv__run_pending :: "(addr \<Rightarrow> addr \<Rightarrow> u32 \<Rightarrow> 'u world \<Rightarrow> 'u world option) \<Rightarrow> addr \<Rightarrow> 'u world \<Rightarrow> (int \<times> 'u world) option" where
  "uv__run_pending io_call pq = (\<lambda>(L, u). do {
     e \<leftarrow> QUEUE_EMPTY (queues_of L) (pending_queue L);
     if e then Some (0, L, u)
     else do {
       Q \<leftarrow> QUEUE_MOVE (queues_of L) (pending_queue L) pq;
       w \<leftarrow> pending_loop io_call pq (L\<lparr>queues_of := Q\<rparr>, u);
       Some (1, w) } })"

datatype uv_run_mode = UV_RUN_DEFAULT | UV_RUN_ONCE | UV_RUN_NOWAIT

text \<open>
  What the loop runs in: the kernel, the callbacks of handles, the end of a close, and the address of the local
  queue of the function that is running.
\<close>

record 'u environment = "'u kernel" +
  call :: "'u callback"
  finish_close :: "'u world \<Rightarrow> addr \<Rightarrow> 'u world option"
  local_queue :: addr

definition run_once :: "'u environment \<Rightarrow> uv_run_mode \<Rightarrow> 'u world \<Rightarrow> 'u world option" where
  "run_once E mode w = do {
     w \<leftarrow> uv__run_timers (call E) (uv__update_time (hrtime E) w);
     (ran_pending, w) \<leftarrow> uv__run_pending (call_io E) (local_queue E) w;
     w \<leftarrow> uv__run_watchers UV_IDLE (call E) (local_queue E) w;
     w \<leftarrow> uv__run_watchers UV_PREPARE (call E) (local_queue E) w;
     timeout \<leftarrow> (if mode = UV_RUN_ONCE \<and> ran_pending = 0 \<or> mode = UV_RUN_DEFAULT
                 then uv_backend_timeout (fst w) else Some 0);
     w \<leftarrow> uv__io_poll E timeout w;
     w \<leftarrow> uv__run_watchers UV_CHECK (call E) (local_queue E) w;
     w \<leftarrow> uv__run_closing_handles (finish_close E) w;
     if mode = UV_RUN_ONCE then uv__run_timers (call E) (uv__update_time (hrtime E) w) else Some w }"

partial_function (option) run_loop :: "'u environment \<Rightarrow> uv_run_mode \<Rightarrow> bool \<Rightarrow> 'u world \<Rightarrow> (bool \<times> 'u world) option" where
  "run_loop E mode r w =
     (if r \<and> stop_flag (fst w) = 0
      then do {
        w \<leftarrow> run_once E mode w;
        let r = uv__loop_alive (fst w);
        if mode = UV_RUN_ONCE \<or> mode = UV_RUN_NOWAIT then Some (r, w) else run_loop E mode r w }
      else Some (r, w))"

definition uv_run :: "'u environment \<Rightarrow> uv_run_mode \<Rightarrow> 'u world \<Rightarrow> (bool \<times> 'u world) option" where
  "uv_run E mode w = do {
     let r = uv__loop_alive (fst w);
     let w = (if r then w else uv__update_time (hrtime E) w);
     (r, w) \<leftarrow> run_loop E mode r w;
     let (L, u) = w;
     Some (r, if stop_flag L \<noteq> 0 then L\<lparr>stop_flag := 0\<rparr> else L, u) }"

section \<open>Timers that do not repeat\<close>

text \<open>The clock and the log of the user; a callback changes the log only.\<close>

type_synonym ('c, 'v) logged = "'c \<times> 'v"

definition logs :: "(addr \<Rightarrow> addr \<Rightarrow> 'v \<Rightarrow> 'v) \<Rightarrow> ('c \<times> 'v) program" where
  "logs f cb h u = ([], fst u, f cb h (snd u))"

definition one_shots :: "timer_table \<Rightarrow> bool" where
  "one_shots T \<longleftrightarrow> (\<forall>h s. table T h = Some s \<and> deadline s \<noteq> None \<longrightarrow> interval s = 0)"

text \<open>The table after the timers of \<open>A\<close> have run, at the time \<open>t\<close>.\<close>

definition over :: "addr set \<Rightarrow> timer_table \<Rightarrow> timer_table" where
  "over A T = T\<lparr>table := (\<lambda>h. if h \<in> A then map_option (\<lambda>s. s\<lparr>deadline := None\<rparr>) (table T h) else table T h)\<rparr>"

definition log_of :: "(addr \<Rightarrow> addr \<Rightarrow> 'v \<Rightarrow> 'v) \<Rightarrow> timer_table \<Rightarrow> addr list \<Rightarrow> 'v \<Rightarrow> 'v" where
  "log_of f T hs = fold (\<lambda>h. f (action_of T h) h) hs"

lemma over_facts: "one_shots T \<Longrightarrow> one_shots (over A T)" "action_of (over A T) h = action_of T h" "now (over A T) = now T"
  "over A (over B T) = over (A \<union> B) T" "over {} T = T"
  by (auto simp: one_shots_def over_def action_of_def fun_eq_iff option.map_comp comp_def split: option.splits if_splits)

lemma log_of_over: "log_of f (over A T) hs = log_of f T hs"
  by (simp add: log_of_def over_facts(2))

lemma fire_one_shot: "one_shots T \<Longrightarrow> is_expired T h \<Longrightarrow> fire h T = over {h} T"
proof -
  assume a: "one_shots T" "is_expired T h"
  then obtain s where s: "table T h = Some s" "deadline s \<noteq> None" by (auto simp: is_expired_def)
  then have "interval s = 0" using a(1) by (simp add: one_shots_def)
  then show ?thesis using s(1) by (auto simp: fire_def over_def cancelled_def fun_eq_iff)
qed

lemma passes_one_shots:
  assumes "passes (logs f) T u hs T' u'" "one_shots T"
  shows "T' = over (set hs) T \<and> u' = (fst u, log_of f T hs (snd u))"
  using assms
proof (induction rule: passes.induct)
  case (pass_done T u)
  then show ?case by (simp add: over_facts log_of_def)
next
  case (pass_fire T h u ops u1 rs T1 hs T2 u2)
  have "ops = []" "u1 = (fst u, f (action_of T h) h (snd u))" using pass_fire.hyps(2) by (simp_all add: logs_def)
  moreover have "T1 = over {h} T"
    using pass_fire.hyps(1,3) \<open>ops = []\<close> fire_one_shot [OF pass_fire.prems] by (simp add: first_expired_def)
  ultimately show ?case
    using pass_fire.IH over_facts(1) [OF pass_fire.prems] by (simp add: over_facts(2,4) log_of_def)
qed

section \<open>An iteration with timers only\<close>

text \<open>
  A loop that nothing keeps alive but timers, with empty queues. It watches a file descriptor, as every loop
  does for \<open>uv_async_send\<close>.
\<close>

definition timers_only :: "addr \<Rightarrow> uv_loop \<Rightarrow> bool" where
  "timers_only q L \<longleftrightarrow> loop_ok L \<and> stop_flag L = 0 \<and> active_reqs L = 0 \<and> closing_handles L = 0 \<and>
     (\<forall>h t. handles L h = Some t \<longrightarrow> (if handle_type t = UV_TIMER then uv__has_ref t else \<not> (uv__is_active t \<and> uv__has_ref t))) \<and>
     queues_of L q \<noteq> None \<and> nfds L \<noteq> 0 \<and>
     (\<forall>a \<in> insert (watcher_queue L) (insert (pending_queue L) (watchers_at L ` watcher_types)).
        a \<noteq> q \<and> ring (queues_of L) a [])"

lemma timers_only_frame:
  assumes q: "timers_only q L" and L': "loop_ok L'" "timer_frame L L'"
  shows "timers_only q L'"
proof -
  have "if handle_type t' = UV_TIMER then uv__has_ref t' else \<not> (uv__is_active t' \<and> uv__has_ref t')"
    if h: "handles L' h = Some t'" for h t'
  proof -
    have "h \<in> dom (handles L)" using L'(2) h by (auto simp: timer_frame_def same_loop_def)
    then obtain t where t: "handles L h = Some t" by blast
    have "handle_type t' = handle_type t \<and> uv__has_ref t' = uv__has_ref t \<and> (handle_type t \<noteq> UV_TIMER \<longrightarrow> t' = t)"
      using L'(2) h t unfolding timer_frame_def by blast
    moreover have "if handle_type t = UV_TIMER then uv__has_ref t else \<not> (uv__is_active t \<and> uv__has_ref t)"
      using q t unfolding timers_only_def by blast
    ultimately show ?thesis by (auto split: if_splits)
  qed
  then show ?thesis using q L' by (simp add: timers_only_def timer_frame_def same_loop_def)
qed

lemma timers_only_counted: "timers_only q L \<Longrightarrow> counted L = active_timers L"
  by (auto simp: timers_only_def counted_def active_timers_def split: if_splits)

lemma timers_only_alive: "timers_only q L \<Longrightarrow> uv__loop_alive L \<longleftrightarrow> active_timers L \<noteq> {}"
proof -
  assume q: "timers_only q L"
  have "card (active_timers L) \<le> card (dom (handles L))"
    using q active_timers_dom(1) by (intro card_mono) (simp_all add: timers_only_def loop_ok_def)
  then have c: "card (active_timers L) < 2 ^ 32" using q by (simp add: timers_only_def loop_ok_def)
  have "active_handles L = of_nat (card (active_timers L))"
    using q timers_only_counted [OF q] by (simp add: timers_only_def loop_ok_def)
  then have "unat (active_handles L) = card (active_timers L)" using c by (simp add: unat_of_nat)
  then have "0 < active_handles L \<longleftrightarrow> 0 < card (active_timers L)" by (simp add: word_less_nat_alt)
  moreover have "finite (active_timers L)" using q finite_active by (simp add: timers_only_def)
  ultimately show ?thesis using q by (simp add: uv__loop_alive_def timers_only_def card_gt_0_iff)
qed

text \<open>A pass over an empty queue of watchers only writes to the local queue.\<close>

lemma no_watchers_pass:
  assumes q: "timers_only q L" and ty: "ty \<in> watcher_types"
  shows "\<exists>Q. uv__run_watchers ty c q (L, u) = Some (L\<lparr>queues_of := Q\<rparr>, u) \<and> timers_only q (L\<lparr>queues_of := Q\<rparr>)"
proof -
  let ?h = "watchers_at L ty"
  have h: "?h \<noteq> q" "ring (queues_of L) ?h []" "queues_of L q \<noteq> None" using q ty by (simp_all add: timers_only_def)
  then have "q \<notin> insert ?h (set [])" by simp
  from QUEUE_MOVE_ring [OF h(2,3) this] obtain Q where
    Q: "QUEUE_MOVE (queues_of L) ?h q = Some Q" "ring Q ?h []" "ring Q q []" "kept (queues_of L) Q {q, ?h}" by auto
  let ?L = "L\<lparr>queues_of := Q\<rparr>"
  have "watcher_loop ty c q (?L, u) = Some (?L, u)"
    using QUEUE_EMPTY_ring [OF Q(3)] by (subst watcher_loop.simps) simp
  then have "uv__run_watchers ty c q (L, u) = Some (?L, u)" using Q(1) by (simp add: uv__run_watchers_def)
  moreover have "timers_only q ?L"
  proof -
    have "a \<noteq> q \<and> ring Q a []" if "a \<in> insert (watcher_queue L) (insert (pending_queue L) (watchers_at L ` watcher_types))" for a
    proof -
      have a: "a \<noteq> q" "ring (queues_of L) a []" using q that unfolding timers_only_def by blast+
      then show ?thesis using kept_ring [OF Q(4), of a "[]"] Q(2) by (cases "a = ?h") auto
    qed
    moreover have "Q q \<noteq> None" using Q(4) h(3) by (auto simp: kept_def)
    moreover have "loop_ok ?L" using q by (simp add: timers_only_def loop_ok_queues)
    ultimately show ?thesis using q unfolding timers_only_def by simp
  qed
  ultimately show ?thesis by blast
qed

section \<open>The clock and the kernel\<close>

text \<open>\<open>clk\<close> reads the clock in nanoseconds.\<close>

definition reading :: "('c \<Rightarrow> u64 \<times> 'c) \<Rightarrow> 'c \<Rightarrow> u64" where
  "reading clk c = fst (clk c) div 1000000"

definition milliseconds :: "timespec \<Rightarrow> nat" where
  "milliseconds s = nat (tv_sec s * 1000 + tv_nsec s div 1000000)"

type_synonym 'c waiting_call = "int \<Rightarrow> kernel_event list \<Rightarrow> nat \<Rightarrow> timespec option \<Rightarrow> 'c \<Rightarrow> (int + kernel_event list) \<times> 'c"

text \<open>
  A kernel without I/O: the clock never goes back, and a wait with a timeout either lasts as long as the timeout (as
  far as the clock goes, \<open>M\<close>) and gives no events, or is interrupted by a signal, \<open>signals c\<close> of which are to come.
\<close>

definition steady :: "('c \<Rightarrow> u64 \<times> 'c) \<Rightarrow> (bool \<Rightarrow> 'c \<Rightarrow> 'c) \<Rightarrow> 'c waiting_call \<Rightarrow> ('c \<Rightarrow> nat) \<Rightarrow> nat \<Rightarrow> bool" where
  "steady clk msk wait signals M \<longleftrightarrow>
     (\<forall>c. reading clk c \<le> reading clk (snd (clk c)) \<and> signals (snd (clk c)) \<le> signals c) \<and>
     (\<forall>b c. reading clk c \<le> reading clk (msk b c) \<and> signals (msk b c) \<le> signals c) \<and>
     (\<forall>fd changes n s c. reading clk c \<le> reading clk (snd (wait fd changes n (Some s) c)) \<and>
        (case wait fd changes n (Some s) c of
           (Inl e, c') \<Rightarrow> e = EINTR \<and> signals c' < signals c
         | (Inr evs, c') \<Rightarrow> evs = [] \<and> min (unat (reading clk c) + milliseconds s) M \<le> unat (reading clk c')))"

definition clock_of :: "('c \<Rightarrow> u64 \<times> 'c) \<Rightarrow> 'c \<times> 'v \<Rightarrow> u64 \<times> 'c \<times> 'v" where
  "clock_of clk u = (fst (clk (fst u)), snd (clk (fst u)), snd u)"

definition wait_of :: "'c waiting_call \<Rightarrow> ('c \<times> 'v) waiting_call" where
  "wait_of wait fd changes n s u = (let (r, c) = wait fd changes n s (fst u) in (r, c, snd u))"

text \<open>
  An environment with this clock and kernel, whose callbacks of timers only write to the log.
\<close>

definition timer_environment ::
    "('c \<Rightarrow> u64 \<times> 'c) \<Rightarrow> (bool \<Rightarrow> 'c \<Rightarrow> 'c) \<Rightarrow> 'c waiting_call \<Rightarrow> (addr \<Rightarrow> addr \<Rightarrow> 'v \<Rightarrow> 'v) \<Rightarrow> addr \<Rightarrow> ('c \<times> 'v) environment \<Rightarrow> bool" where
  "timer_environment clk msk wait f q E \<longleftrightarrow>
     hrtime E = clock_of clk \<and> sigmask E = (\<lambda>b u. (msk b (fst u), snd u)) \<and> kevent E = wait_of wait \<and>
     call E = calls (logs f) \<and> local_queue E = q"

lemma update_time: "uv__update_time (clock_of clk) (L, c, v) = (L\<lparr>loop_time := reading clk c\<rparr>, snd (clk c), v)"
  by (simp add: uv__update_time_def clock_of_def reading_def)

lemma reading_less: "reading clk c < - 1"
proof -
  have "unat (reading clk c) = unat (fst (clk c)) div 1000000" by (simp add: reading_def unat_div_distrib)
  also have "\<dots> < 2 ^ 64 - 1"
  proof -
    have "unat (fst (clk c)) < 2 ^ 64" using unsigned_less [of "fst (clk c)"] by simp
    then show ?thesis by simp
  qed
  finally show ?thesis unfolding word_less_nat_alt unat_max64 .
qed

lemma loop_ok_time: "loop_ok (L\<lparr>loop_time := t\<rparr>) \<longleftrightarrow> loop_ok L" "view (L\<lparr>loop_time := t\<rparr>) = (view L)\<lparr>now := t\<rparr>"
  "active_timers (L\<lparr>loop_time := t\<rparr>) = active_timers L"
proof -
  show a: "active_timers (L\<lparr>loop_time := t\<rparr>) = active_timers L" by (simp add: active_timers_def)
  have "counted (L\<lparr>loop_time := t\<rparr>) = counted L" by (simp add: counted_def)
  moreover have "heap_ok (L\<lparr>loop_time := t\<rparr>) \<longleftrightarrow> heap_ok L" by (simp add: heap_ok_def a)
  moreover have "timer_ok (L\<lparr>loop_time := t\<rparr>) h s \<longleftrightarrow> timer_ok L h s" for h s by (simp add: timer_ok_def)
  ultimately show "loop_ok (L\<lparr>loop_time := t\<rparr>) \<longleftrightarrow> loop_ok L" by (simp add: loop_ok_def a)
  show "view (L\<lparr>loop_time := t\<rparr>) = (view L)\<lparr>now := t\<rparr>" by (simp add: view_def timers_of_def fun_eq_iff)
qed

lemma timers_only_time: "timers_only q (L\<lparr>loop_time := t\<rparr>) \<longleftrightarrow> timers_only q L"
  unfolding timers_only_def loop_ok_time(1) by simp

lemma now_facts: "one_shots (T\<lparr>now := t\<rparr>) \<longleftrightarrow> one_shots T" "runs_before (T\<lparr>now := t\<rparr>) = runs_before T"
  "action_of (T\<lparr>now := t\<rparr>) = action_of T" "over A (T\<lparr>now := t\<rparr>) = (over A T)\<lparr>now := t\<rparr>"
  by (simp_all add: one_shots_def runs_before_def action_of_def over_def fun_eq_iff)

lemma log_of_now: "log_of f (T\<lparr>now := t\<rparr>) = log_of f T"
  by (simp add: log_of_def now_facts fun_eq_iff)

lemma active_view: "h \<in> active_timers L \<longleftrightarrow> (\<exists>s. table (view L) h = Some s \<and> deadline s \<noteq> None)"
  by (simp add: active_timers_deadline view_def)

lemma active_over: "view L' = (over A (view L))\<lparr>now := t\<rparr> \<Longrightarrow> active_timers L' = active_timers L - A"
  by (auto simp: active_view over_def split: if_splits)

text \<open>A loop with timers, none of which is due, blocks for at least a millisecond.\<close>

lemma next_timeout_positive:
  assumes ok: "loop_ok L" and none: "expired (view L) = {}" and act: "active_timers L \<noteq> {}"
  shows "\<exists>k. uv__next_timeout L = Some k \<and> 1 \<le> k \<and> k \<le> 0x7FFFFFFF"
proof -
  let ?a = "heap_min (timer_heap L)" let ?h = "?a - HEAP_NODE"
  have h: "?h \<in> active_timers L" "?a \<noteq> 0" using first_timer(1,2) [OF ok] act by auto
  then obtain t where t: "handles L ?h = Some t" by (auto simp: active_timers_def)
  have "\<not> is_expired (view L) ?h" using none by blast
  then have late: "\<not> timeout t \<le> loop_time L" using h(1) t unfolding is_expired_view by auto
  then have "timeout t - loop_time L \<noteq> 0" by auto
  then have "0 < timeout t - loop_time L" by (auto simp: word_gt_0)
  then have "0 < uint (timeout t - loop_time L)" unfolding word_less_def by simp
  then have "1 \<le> uint (if INT_MAX < timeout t - loop_time L then INT_MAX else timeout t - loop_time L)"
    by (simp add: INT_MAX_def)
  moreover have "uint (if INT_MAX < timeout t - loop_time L then INT_MAX else timeout t - loop_time L) \<le> uint INT_MAX"
    unfolding word_le_def [symmetric] by (simp add: not_less)
  ultimately show ?thesis using h(2) t late by (simp add: uv__next_timeout_def Let_def INT_MAX_def)
qed

lemma backend_timeout:
  assumes q: "timers_only q L" and none: "expired (view L) = {}"
  shows "\<exists>k. uv_backend_timeout L = Some k \<and> 0 \<le> k \<and> k \<le> 0x7FFFFFFF \<and> (active_timers L \<noteq> {} \<longrightarrow> 1 \<le> k)"
proof (cases "active_timers L = {}")
  case True
  then have "\<not> uv__loop_alive L" using timers_only_alive [OF q] by simp
  then show ?thesis using True by (simp add: uv_backend_timeout_def uv__loop_alive_def)
next
  case False
  then have "uv__loop_alive L" using timers_only_alive [OF q] by simp
  moreover have "QUEUE_EMPTY (queues_of L) a = Some True" if "a \<in> insert (watcher_queue L) (insert (pending_queue L) (watchers_at L ` watcher_types))" for a
    using q that QUEUE_EMPTY_ring [of "queues_of L" a "[]"] by (auto simp: timers_only_def)
  moreover have "watchers_at L UV_IDLE \<in> watchers_at L ` watcher_types" by (simp add: watcher_types_def)
  moreover have "loop_ok L" using q by (simp add: timers_only_def)
  ultimately show ?thesis
    using next_timeout_positive [OF _ none False] q
    by (auto simp: uv_backend_timeout_def uv__loop_alive_def timers_only_def)
qed


lemma runs_before_over: "g \<notin> A \<Longrightarrow> h \<notin> A \<Longrightarrow> runs_before (over A T) g h \<longleftrightarrow> runs_before T g h"
  by (simp add: runs_before_def over_def)

lemma runs_before_distinct: "sorted_wrt (runs_before T) hs \<Longrightarrow> distinct hs"
  by (induction hs) (auto simp: runs_before_def)

lemma run_timers_one_shots:
  assumes ok: "timers_only q L" "one_shots (view L)" and c: "loop_time L < - 1" "unat (timer_counter L) + 2 ^ 32 < 2 ^ 64"
  shows "\<exists>hs L'. uv__run_timers (calls (logs f)) (L, c, v) = Some (L', c, log_of f (view L) hs v) \<and> timers_only q L' \<and>
    view L' = over (set hs) (view L) \<and> set hs = expired (view L) \<and> sorted_wrt (runs_before (view L)) hs \<and>
    expired (view L') = {} \<and> loop_time L' = loop_time L"
proof -
  have L: "loop_ok L" using ok(1) by (simp add: timers_only_def)
  have "card (expired (view L)) \<le> card (dom (handles L))"
    using L by (intro card_mono) (auto simp: loop_ok_def is_expired_view)
  then have "unat (timer_counter L) + card (expired (view L)) * (0 + 1) < 2 ^ 64" using L c(2) by (simp add: loop_ok_def)
  then have "\<exists>hs L' u'. uv__run_timers (calls (logs f)) (L, c, v) = Some (L', u') \<and> loop_ok L' \<and>
      passes (logs f) (view L) (c, v) hs (view L') u' \<and> expired (view L') = {} \<and> set hs \<subseteq> expired (view L) \<and>
      distinct hs \<and> timer_frame L L'"
    by (intro run_timers_passes [where k = 0, OF L c(1) refl]) (simp_all add: logs_def)
  then obtain hs L' u' where r: "uv__run_timers (calls (logs f)) (L, c, v) = Some (L', u')" "loop_ok L'"
      "passes (logs f) (view L) (c, v) hs (view L') u'" "expired (view L') = {}" "timer_frame L L'" by blast
  have "now (view L) < - 1" using c(1) by (simp add: view_def)
  then have o: "set hs = expired (view L) \<and> sorted_wrt (runs_before (view L)) hs"
    using passes_in_order [OF r(3)] by (simp add: logs_def)
  have "view L' = over (set hs) (view L) \<and> u' = (c, log_of f (view L) hs v)" using passes_one_shots [OF r(3) ok(2)] by simp
  moreover have "timers_only q L'" by (rule timers_only_frame [OF ok(1) r(2,5)])
  moreover have "loop_time L' = loop_time L" using r(5) by (simp add: timer_frame_def same_loop_def)
  ultimately show ?thesis using r(1,4) o by blast
qed

section \<open>The wait with timers only\<close>

lemma timespec_of_wait: "0 \<le> k \<Longrightarrow> \<exists>s. timespec_of k = Some s \<and> milliseconds s = nat k"
  by (simp add: timespec_of_def milliseconds_def)

lemma steady_wait:
  assumes "steady clk msk wait signals M" "wait fd changes n (Some s) c = (r, c')"
  shows "reading clk c \<le> reading clk c' \<and> (case r of Inl e \<Rightarrow> e = EINTR \<and> signals c' < signals c
    | Inr evs \<Rightarrow> evs = [] \<and> min (unat (reading clk c) + milliseconds s) M \<le> unat (reading clk c'))"
proof -
  have "\<forall>fd changes n s c. reading clk c \<le> reading clk (snd (wait fd changes n (Some s) c)) \<and>
      (case wait fd changes n (Some s) c of
         (Inl e, c') \<Rightarrow> e = EINTR \<and> signals c' < signals c
       | (Inr evs, c') \<Rightarrow> evs = [] \<and> min (unat (reading clk c) + milliseconds s) M \<le> unat (reading clk c'))"
    using assms(1) unfolding steady_def by (elim conjE) assumption
  from this [rule_format, of c fd changes n s] show ?thesis unfolding assms(2) by (simp split: sum.splits)
qed

lemma wait_steady:
  assumes E: "timer_environment clk msk wait f q E" and s: "steady clk msk wait signals M" and k: "0 \<le> k"
  shows "\<exists>r c'. wait_events E block changes k (L, c, v) = (r, L\<lparr>loop_time := reading clk c'\<rparr>, snd (clk c'), v) \<and>
    reading clk c \<le> reading clk c' \<and>
    (case r of Inl e \<Rightarrow> e = EINTR \<and> signals c' < signals c
     | Inr evs \<Rightarrow> evs = [] \<and> min (unat (reading clk c) + nat k) M \<le> unat (reading clk c'))"
proof -
  let ?c1 = "if block then msk True c else c"
  obtain ts where ts: "timespec_of k = Some ts" "milliseconds ts = nat k" using timespec_of_wait [OF k] by blast
  obtain r c2 where w: "wait (backend_fd L) changes MAX_EVENTS (Some ts) ?c1 = (r, c2)" by (cases "wait (backend_fd L) changes MAX_EVENTS (Some ts) ?c1")
  let ?c3 = "if block then msk False c2 else c2"
  have "wait_events E block changes k (L, c, v) = (r, L\<lparr>loop_time := reading clk ?c3\<rparr>, snd (clk ?c3), v)"
    using E w ts(1)
    by (cases block) (simp_all add: wait_events_def timer_environment_def wait_of_def uv__update_time_def clock_of_def reading_def)
  moreover have 1: "reading clk c \<le> reading clk ?c1 \<and> signals ?c1 \<le> signals c" and
    3: "reading clk c2 \<le> reading clk ?c3 \<and> signals ?c3 \<le> signals c2"
    using s by (simp_all add: steady_def)
  moreover have 2: "reading clk ?c1 \<le> reading clk c2" "case r of Inl e \<Rightarrow> e = EINTR \<and> signals c2 < signals ?c1
      | Inr evs \<Rightarrow> evs = [] \<and> min (unat (reading clk ?c1) + nat k) M \<le> unat (reading clk c2)"
    using steady_wait [OF s w] unfolding ts(2) by simp_all
  have le: "reading clk c \<le> reading clk ?c3" using 1 2(1) 3 by (meson order_trans)
  have "case r of Inl e \<Rightarrow> e = EINTR \<and> signals ?c3 < signals c
     | Inr evs \<Rightarrow> evs = [] \<and> min (unat (reading clk c) + nat k) M \<le> unat (reading clk ?c3)"
  proof (cases r)
    case (Inl e)
    then show ?thesis using 1 2(2) 3 by (auto simp del: if_split)
  next
    case (Inr evs)
    have "unat (reading clk c) \<le> unat (reading clk ?c1)" "unat (reading clk c2) \<le> unat (reading clk ?c3)"
      using 1 3 by (simp_all add: word_le_nat_alt)
    then show ?thesis using 2(2) Inr by (auto simp del: if_split)
  qed
  then show ?thesis using calculation(1) le by blast
qed

text \<open>The wait ends at a later time, by the end of the timeout or because interruptions have used it up.\<close>

lemma poll_loop_steady:
  assumes E: "timer_environment clk msk wait f q E" and s: "steady clk msk wait signals M"
    and "0 \<le> k" "k \<le> 0x7FFFFFFF" "base \<le> reading clk c"
  shows "\<exists>t c'. poll_loop E block base changes (n, k, L, c, v) = Some (L\<lparr>loop_time := t\<rparr>, c', v) \<and>
    t \<le> reading clk c' \<and> base \<le> t \<and> (1 \<le> k \<longrightarrow> min (unat base + 1) M \<le> unat t)"
  using assms(3-)
proof (induction "signals c" arbitrary: c k L changes rule: less_induct)
  case less
  obtain r c' where w: "wait_events E block changes k (L, c, v) = (r, L\<lparr>loop_time := reading clk c'\<rparr>, snd (clk c'), v)"
      "reading clk c \<le> reading clk c'"
      "case r of Inl e \<Rightarrow> e = EINTR \<and> signals c' < signals c
       | Inr evs \<Rightarrow> evs = [] \<and> min (unat (reading clk c) + nat k) M \<le> unat (reading clk c')"
    using wait_steady [OF E s less.prems(1), of block changes L c v] by blast
  let ?t = "reading clk c'" and ?d = "snd (clk c')"
  have t: "base \<le> ?t" using less.prems(3) w(2) by (rule order_trans)
  have d: "?t \<le> reading clk ?d" "signals ?d \<le> signals c'" using s by (simp_all add: steady_def)
  show ?case
  proof (cases r)
    case (Inr evs)
    have "poll_loop E block base changes (n, k, L, c, v) = Some (L\<lparr>loop_time := ?t\<rparr>, ?d, v)"
      using w(1,3) Inr less.prems(1) by (subst poll_loop.simps) (simp add: poll_round_def)
    moreover have "min (unat base + 1) M \<le> unat ?t" if "1 \<le> k"
    proof -
      have "unat base \<le> unat (reading clk c)" using less.prems(3) by (simp add: word_le_nat_alt)
      then have "min (unat base + 1) M \<le> min (unat (reading clk c) + nat k) M" using that by (intro min.mono) auto
      also have "\<dots> \<le> unat ?t" using w(3) Inr by simp
      finally show ?thesis .
    qed
    ultimately show ?thesis using d(1) t by (intro exI [of _ ?t] exI [of _ ?d]) simp
  next
    case (Inl e)
    then have e: "e = EINTR" "signals ?d < signals c" using w(3) d(2) by simp_all
    have round: "poll_round E block base changes (n, k, L, c, v) = poll_rest base n k (L\<lparr>loop_time := ?t\<rparr>, ?d, v)"
      using w(1) Inl e(1) by (simp add: poll_round_def)
    show ?thesis
    proof (cases "k = 0")
      case True
      then have "poll_loop E block base changes (n, k, L, c, v) = Some (L\<lparr>loop_time := ?t\<rparr>, ?d, v)"
        by (subst poll_loop.simps) (simp add: round [unfolded True] poll_rest_def)
      then show ?thesis using d(1) t True by (intro exI [of _ ?t] exI [of _ ?d]) simp
    next
      case False
      then have k: "0 < k" "k \<noteq> - 1" using less.prems(1) by simp_all
      have "uint (word_of_int k :: u64) = k" using less.prems(1,2) by (simp add: uint_word_of_int)
      then have cmp: "word_of_int k \<le> ?t - base \<longleftrightarrow> k \<le> uint (?t - base)" by (simp add: word_le_def)
      show ?thesis
      proof (cases "k \<le> uint (?t - base)")
        case True
        then have "poll_loop E block base changes (n, k, L, c, v) = Some (L\<lparr>loop_time := ?t\<rparr>, ?d, v)"
          using k by (subst poll_loop.simps) (simp add: round poll_rest_def update_timeout_def cmp Let_def)
        moreover have "?t \<noteq> base" using True k(1) by auto
        then have "unat base + 1 \<le> unat ?t" using t by (metis Suc_eq_plus1 Suc_leI order_le_less word_less_nat_alt)
        then have "min (unat base + 1) M \<le> unat ?t" by simp
        ultimately show ?thesis using d(1) t by (intro exI [of _ ?t] exI [of _ ?d]) simp
      next
        case False
        let ?k = "k - uint (?t - base)"
        have go: "poll_loop E block base changes (n, k, L, c, v) = poll_loop E block base [] (n, ?k, L\<lparr>loop_time := ?t\<rparr>, ?d, v)"
          using False k by (subst poll_loop.simps) (simp add: round poll_rest_def update_timeout_def cmp Let_def)
        have "0 \<le> uint (?t - base)" by simp
        then have "0 \<le> ?k" "1 \<le> ?k" "?k \<le> 0x7FFFFFFF" using False less.prems(2) by linarith+
        moreover have "base \<le> reading clk ?d" using t d(1) by (rule order_trans)
        ultimately obtain t' c'' where
            "poll_loop E block base [] (n, ?k, L\<lparr>loop_time := ?t\<rparr>, ?d, v) = Some (L\<lparr>loop_time := ?t, loop_time := t'\<rparr>, c'', v)"
            "t' \<le> reading clk c''" "base \<le> t'" "min (unat base + 1) M \<le> unat t'"
          using less.hyps [OF e(2), of ?k "[]" "L\<lparr>loop_time := ?t\<rparr>"] by auto
        then show ?thesis unfolding go by (intro exI [of _ t'] exI [of _ c'']) simp
      qed
    qed
  qed
qed

lemma poll_steady:
  assumes E: "timer_environment clk msk wait f q E" and s: "steady clk msk wait signals M" and L: "timers_only q L"
    and k: "0 \<le> k" "k \<le> 0x7FFFFFFF" "loop_time L \<le> reading clk c"
  shows "\<exists>t c'. uv__io_poll E k (L, c, v) = Some (L\<lparr>loop_time := t\<rparr>, c', v) \<and>
    t \<le> reading clk c' \<and> (1 \<le> k \<longrightarrow> min (unat (loop_time L) + 1) M \<le> unat t)"
proof -
  have "QUEUE_EMPTY (queues_of L) (watcher_queue L) = Some True"
    using L QUEUE_EMPTY_ring [of "queues_of L" "watcher_queue L" "[]"] by (simp add: timers_only_def)
  then have "register_loop E ([], L, c, v) = Some ([], L, c, v)" by (subst register_loop.simps) simp
  moreover have "nfds L \<noteq> 0" using L by (simp add: timers_only_def)
  ultimately show ?thesis
    using poll_loop_steady [OF E s k, of "loop_flags L AND UV_LOOP_BLOCK_SIGPROF \<noteq> 0" "[]" 48 L v] k(1)
    by (auto simp: uv__io_poll_def)
qed

lemma run_once_timers:
  fixes clk :: "'c \<Rightarrow> u64 \<times> 'c" and f :: "addr \<Rightarrow> addr \<Rightarrow> 'v \<Rightarrow> 'v"
  assumes E: "timer_environment clk msk wait f q E" and s: "steady clk msk wait signals M"
    and ok: "timers_only q L" "one_shots (view L)" and c: "unat (timer_counter L) + 2 ^ 32 < 2 ^ 64"
  shows "\<exists>hs L' c'. run_once E UV_RUN_DEFAULT (L, c, v) = Some (L', c', log_of f (view L) hs v) \<and>
    timers_only q L' \<and> view L' = (over (set hs) (view L))\<lparr>now := loop_time L'\<rparr> \<and>
    set hs = expired ((view L)\<lparr>now := reading clk c\<rparr>) \<and> sorted_wrt (runs_before (view L)) hs \<and>
    loop_time L' \<le> reading clk c' \<and>
    (active_timers L' \<noteq> {} \<longrightarrow> min (unat (reading clk c) + 1) M \<le> unat (loop_time L'))"
proof -
  let ?t = "reading clk c"
  let ?L = "L\<lparr>loop_time := ?t\<rparr>" and ?c = "snd (clk c)"
  have a: "timers_only q ?L" "one_shots (view ?L)" using ok by (simp_all add: timers_only_time loop_ok_time now_facts)
  have b: "loop_time ?L < - 1" "unat (timer_counter ?L) + 2 ^ 32 < 2 ^ 64" using c reading_less by simp_all
  obtain hs L1 where L1: "uv__run_timers (calls (logs f)) (?L, ?c, v) = Some (L1, ?c, log_of f (view ?L) hs v)"
      "timers_only q L1" "view L1 = over (set hs) (view ?L)" "set hs = expired (view ?L)" "sorted_wrt (runs_before (view ?L)) hs"
      "expired (view L1) = {}" "loop_time L1 = loop_time ?L"
    using run_timers_one_shots [OF a b, of f ?c v] by blast
  let ?v = "log_of f (view L) hs v"
  have pending: "uv__run_pending io q (L1, u) = Some (0, L1, u)" for io and u :: "'c \<times> 'v"
    using L1(2) QUEUE_EMPTY_ring [of "queues_of L1" "pending_queue L1" "[]"] by (simp add: uv__run_pending_def timers_only_def)
  have types: "UV_IDLE \<in> watcher_types" "UV_PREPARE \<in> watcher_types" "UV_CHECK \<in> watcher_types" by (simp_all add: watcher_types_def)
  let ?call = "calls (logs f) :: ('c \<times> 'v) callback"
  obtain Q2 where Q2: "uv__run_watchers UV_IDLE ?call q (L1, ?c, ?v) = Some (L1\<lparr>queues_of := Q2\<rparr>, ?c, ?v)" "timers_only q (L1\<lparr>queues_of := Q2\<rparr>)"
    using no_watchers_pass [OF L1(2) types(1), of ?call "(?c, ?v)"] by (elim exE conjE) (rule that)
  let ?L2 = "L1\<lparr>queues_of := Q2\<rparr>"
  obtain Q3 where Q3: "uv__run_watchers UV_PREPARE ?call q (?L2, ?c, ?v) = Some (?L2\<lparr>queues_of := Q3\<rparr>, ?c, ?v)" "timers_only q (?L2\<lparr>queues_of := Q3\<rparr>)"
    using no_watchers_pass [OF Q2(2) types(2), of ?call "(?c, ?v)"] by (elim exE conjE) (rule that)
  let ?L3 = "L1\<lparr>queues_of := Q3\<rparr>"
  have L3: "timers_only q ?L3" "expired (view ?L3) = {}" using Q3(2) L1(6) by (simp_all add: loop_ok_queues)
  obtain k where k: "uv_backend_timeout ?L3 = Some k" "0 \<le> k" "k \<le> 0x7FFFFFFF" "active_timers ?L3 \<noteq> {} \<longrightarrow> 1 \<le> k"
    using backend_timeout [OF L3] by blast
  have "loop_time ?L3 = ?t" using L1(7) by simp
  moreover have "?t \<le> reading clk ?c" using s by (simp add: steady_def)
  ultimately obtain t4 c4 where poll: "uv__io_poll E k (?L3, ?c, ?v) = Some (?L3\<lparr>loop_time := t4\<rparr>, c4, ?v)"
      "t4 \<le> reading clk c4" "1 \<le> k \<longrightarrow> min (unat ?t + 1) M \<le> unat t4"
    using poll_steady [OF E s L3(1) k(2,3), of ?c ?v] by auto
  let ?L4 = "?L3\<lparr>loop_time := t4\<rparr>"
  have L4: "timers_only q ?L4" using L3(1) by (simp add: timers_only_time)
  obtain Q5 where Q5: "uv__run_watchers UV_CHECK ?call q (?L4, c4, ?v) = Some (?L4\<lparr>queues_of := Q5\<rparr>, c4, ?v)"
      "timers_only q (?L4\<lparr>queues_of := Q5\<rparr>)"
    using no_watchers_pass [OF L4 types(3), of ?call "(c4, ?v)"] by (elim exE conjE) (rule that)
  let ?L5 = "?L4\<lparr>queues_of := Q5\<rparr>"
  have "closing_handles ?L5 = 0" using Q5(2) by (simp add: timers_only_def)
  then have "?L5\<lparr>closing_handles := 0\<rparr> = ?L5" by simp
  then have closing: "uv__run_closing_handles fin (?L5, u) = Some (?L5, u)" for fin :: "('c \<times> 'v) world \<Rightarrow> addr \<Rightarrow> ('c \<times> 'v) world option" and u
    using \<open>closing_handles ?L5 = 0\<close> unfolding uv__run_closing_handles_def by (subst closing_loop.simps) simp
  have "hrtime E = clock_of clk" "call E = ?call" "local_queue E = q" using E by (simp_all add: timer_environment_def)
  then have "run_once E UV_RUN_DEFAULT (L, c, v) = Some (?L5, c4, ?v)"
    using L1(1) Q2(1) Q3(1) k(1) poll(1) Q5(1) closing
    by (simp add: run_once_def update_time pending loop_ok_time(2) log_of_now)
  moreover have v5: "view ?L5 = (over (set hs) (view L))\<lparr>now := t4\<rparr>"
  proof -
    have "view ?L5 = (view L1)\<lparr>now := t4\<rparr>" by (simp add: loop_ok_queues loop_ok_time)
    then show ?thesis using L1(3) by (simp add: loop_ok_time now_facts)
  qed
  moreover have "min (unat ?t + 1) M \<le> unat t4" if "active_timers ?L5 \<noteq> {}"
  proof -
    have "active_timers ?L3 = active_timers ?L5" by (simp add: active_timers_def)
    then show ?thesis using poll(3) k(4) that by simp
  qed
  ultimately show ?thesis
    using Q5(2) L1(4,5) poll(2) by (intro exI [of _ hs] exI [of _ ?L5] exI [of _ c4]) (simp add: loop_ok_time now_facts)
qed


section \<open>The loop returns\<close>

lemma view_counter: "view L' = (over A (view L))\<lparr>now := t\<rparr> \<Longrightarrow> timer_counter L' = timer_counter L"
  using arg_cong [of "view L'" _ next_turn] by (simp add: view_def over_def)

lemma run_loop_timers:
  fixes clk :: "'c \<Rightarrow> u64 \<times> 'c" and f :: "addr \<Rightarrow> addr \<Rightarrow> 'v \<Rightarrow> 'v"
  assumes E: "timer_environment clk msk wait f q E" and s: "steady clk msk wait signals M" and "timers_only q L" "one_shots (view L)" "loop_time L \<le> reading clk c"
    and "unat (timer_counter L) + 2 ^ 32 < 2 ^ 64"
    and "\<And>h s d n. table (view L) h = Some s \<Longrightarrow> deadline s = Some (d, n) \<Longrightarrow> unat d \<le> M"
  shows "\<exists>hs L' c'. run_loop E UV_RUN_DEFAULT (active_timers L \<noteq> {}) (L, c, v) =
      Some (False, L', c', log_of f (view L) hs v) \<and>
    set hs = active_timers L \<and> sorted_wrt (runs_before (view L)) hs \<and> timers_only q L' \<and> active_timers L' = {}"
  using assms(3-)
proof (induction "(card (active_timers L), M - unat (loop_time L))" arbitrary: L c v rule: wf_induct_rule [OF wf_lex_prod [OF wf_less_than wf_less_than], case_names less])
  case less
  show ?case
  proof (cases "active_timers L = {}")
    case True
    have "run_loop E UV_RUN_DEFAULT False (L, c, v) = Some (False, L, c, v)" by (subst run_loop.simps) simp
    then show ?thesis using True less.prems(1)
      by (intro exI [of _ "[]"] exI [of _ L] exI [of _ c]) (simp add: log_of_def)
  next
    case False
    obtain hs L1 c1 where 1: "run_once E UV_RUN_DEFAULT (L, c, v) = Some (L1, c1, log_of f (view L) hs v)"
        "timers_only q L1" "view L1 = (over (set hs) (view L))\<lparr>now := loop_time L1\<rparr>"
        "set hs = expired ((view L)\<lparr>now := reading clk c\<rparr>)" "sorted_wrt (runs_before (view L)) hs"
        "loop_time L1 \<le> reading clk c1"
        "active_timers L1 \<noteq> {} \<longrightarrow> min (unat (reading clk c) + 1) M \<le> unat (loop_time L1)"
      using run_once_timers [OF E s less.prems(1,2,4), of c v] by (elim exE conjE) (rule that)
    let ?v1 = "log_of f (view L) hs v"
    have act: "active_timers L1 = active_timers L - set hs" by (rule active_over [OF 1(3)])
    have exp: "h \<in> set hs \<longleftrightarrow> (\<exists>s d n. table (view L) h = Some s \<and> deadline s = Some (d, n) \<and> d \<le> reading clk c)" for h
      unfolding 1(4) by (simp add: is_expired_def)
    have sub: "set hs \<subseteq> active_timers L" 
    proof
      fix h assume "h \<in> set hs"
      then show "h \<in> active_timers L" unfolding exp active_view by auto
    qed
    have fin: "finite (active_timers L)" using less.prems(1) finite_active by (simp add: timers_only_def)
    have less1: "((card (active_timers L1), M - unat (loop_time L1)) , card (active_timers L), M - unat (loop_time L)) \<in> less_than <*lex*> less_than"
      if "active_timers L1 \<noteq> {}"
    proof (cases "set hs = {}")
      case False
      then obtain h where "h \<in> set hs" by (metis ex_in_conv)
      then have "active_timers L - set hs \<subset> active_timers L" using sub by blast
      then have "card (active_timers L1) < card (active_timers L)" unfolding act by (rule psubset_card_mono [OF fin])
      then show ?thesis by simp
    next
      case True
      obtain g where "g \<in> active_timers L" using \<open>active_timers L \<noteq> {}\<close> by (metis ex_in_conv)
      then obtain h s d n where h: "table (view L) h = Some s" "deadline s = Some (d, n)" unfolding active_view by auto
      then have "\<not> d \<le> reading clk c" using exp [of h] True by auto
      then have "unat (reading clk c) < M" using less.prems(5) [OF h] by (simp add: word_le_nat_alt)
      moreover have "unat (loop_time L) \<le> unat (reading clk c)" using less.prems(3) by (simp add: word_le_nat_alt)
      ultimately have "unat (loop_time L) < unat (loop_time L1)" "unat (loop_time L) < M" using 1(7) that by (simp_all add: min_def split: if_splits)
      then have "M - unat (loop_time L1) < M - unat (loop_time L)" by linarith
      then show ?thesis using True by (simp add: act)
    qed
    have os: "one_shots (view L1)" unfolding 1(3) now_facts by (rule over_facts(1) [OF less.prems(2)])
    have counter: "unat (timer_counter L1) + 2 ^ 32 < 2 ^ 64" using less.prems(4) view_counter [OF 1(3)] by simp
    have bound: "unat d \<le> M" if "table (view L1) h = Some s" "deadline s = Some (d, n)" for h s d n
      using that less.prems(5) [of h] unfolding 1(3) by (auto simp: over_def split: if_splits)
    have "\<exists>gs L2 c2. run_loop E UV_RUN_DEFAULT (active_timers L1 \<noteq> {}) (L1, c1, ?v1) = Some (False, L2, c2, log_of f (view L1) gs ?v1) \<and>
        set gs = active_timers L1 \<and> sorted_wrt (runs_before (view L1)) gs \<and> timers_only q L2 \<and> active_timers L2 = {}"
    proof (cases "active_timers L1 = {}")
      case True
      have "run_loop E UV_RUN_DEFAULT False (L1, c1, ?v1) = Some (False, L1, c1, ?v1)" by (subst run_loop.simps) simp
      then show ?thesis using True 1(2)
        by (intro exI [of _ "[]"] exI [of _ L1] exI [of _ c1]) (simp add: log_of_def)
    next
      case False
      show ?thesis by (rule less.hyps [OF less1 [OF False] 1(2) os 1(6) counter bound])
    qed
    then obtain gs L2 c2 where 2: "run_loop E UV_RUN_DEFAULT (active_timers L1 \<noteq> {}) (L1, c1, ?v1) = Some (False, L2, c2, log_of f (view L1) gs ?v1)"
        "set gs = active_timers L1" "sorted_wrt (runs_before (view L1)) gs" "timers_only q L2" "active_timers L2 = {}" by blast
    have "stop_flag L = 0" using less.prems(1) by (simp add: timers_only_def)
    then have "run_loop E UV_RUN_DEFAULT True (L, c, v) = Some (False, L2, c2, log_of f (view L1) gs ?v1)"
      using 1(1) 2(1) timers_only_alive [OF 1(2)] by (subst run_loop.simps) (simp add: Let_def)
    moreover have "log_of f (view L1) gs ?v1 = log_of f (view L) (hs @ gs) v"
      by (simp add: 1(3) log_of_now log_of_over) (simp add: log_of_def)
    moreover have "set (hs @ gs) = active_timers L" using 2(2) act sub by auto
    moreover have "sorted_wrt (runs_before (view L)) (hs @ gs)"
    proof -
      have "sorted_wrt (runs_before (view L)) gs"
        by (rule sorted_wrt_mono_rel [OF _ 2(3)]) (use 2(2) act in \<open>simp add: 1(3) now_facts runs_before_over\<close>)
      moreover have "runs_before (view L) g h" if g: "g \<in> set hs" and gs: "h \<in> set gs" for g h
      proof -
        have h: "h \<in> active_timers L" "h \<notin> set hs" using gs 2(2) act by auto
        then obtain s d n where s: "table (view L) h = Some s" "deadline s = Some (d, n)" unfolding active_view by auto
        then have "\<not> d \<le> reading clk c" using h(2) exp [of h] by auto
        moreover obtain r c' m where "table (view L) g = Some r" "deadline r = Some (c', m)" "c' \<le> reading clk c"
          using g unfolding exp by blast
        ultimately show ?thesis using s unfolding runs_before_def by (meson not_le le_less_trans)
      qed
      ultimately show ?thesis using 1(5) by (simp add: sorted_wrt_append)
    qed
    ultimately show ?thesis using False 2(4,5) by auto
  qed
qed

text \<open>
  C16. \<open>uv_run\<close> ends. Suppose that nothing keeps the loop alive but one-shot timers, all of them referenced, that its
  queues are empty, and that it watches a file descriptor; that no event of a file descriptor arrives, the clock never
  goes back, a wait lasts as long as asked unless one of finitely many signals interrupts it, and the callbacks only
  write to a log. Then the default mode returns \<open>0\<close> after every timer that was running has run exactly once, in the
  order of the due times and for equal times in the order of the starts, and no timer is running then.
\<close>

theorem uv_run_timers:
  assumes "timer_environment clk msk wait f q E" "steady clk msk wait signals M"
    and "timers_only q L" "one_shots (view L)" "loop_time L \<le> reading clk c"
    and "unat (timer_counter L) + 2 ^ 32 < 2 ^ 64"
    and "\<And>h s d n. table (view L) h = Some s \<Longrightarrow> deadline s = Some (d, n) \<Longrightarrow> unat d \<le> M"
  shows "\<exists>hs L' c'. uv_run E UV_RUN_DEFAULT (L, c, v) = Some (False, L', c', log_of f (view L) hs v) \<and>
    set hs = active_timers L \<and> distinct hs \<and> sorted_wrt (runs_before (view L)) hs \<and>
    loop_ok L' \<and> active_timers L' = {}"
proof (cases "active_timers L = {}")
  case True
  let ?L = "L\<lparr>loop_time := reading clk c\<rparr>"
  have r: "run_loop E UV_RUN_DEFAULT False (?L, snd (clk c), v) = Some (False, ?L, snd (clk c), v)"
    by (subst run_loop.simps) simp
  have "timers_only q ?L" "active_timers ?L = {}" using assms(3) True by (simp_all add: timers_only_time loop_ok_time)
  then show ?thesis using True r timers_only_alive [OF assms(3)] assms(1)
    by (intro exI [of _ "[]"] exI [of _ ?L] exI [of _ "snd (clk c)"])
      (simp add: uv_run_def timer_environment_def update_time timers_only_def log_of_def)
next
  case False
  have "\<exists>hs L' c'. run_loop E UV_RUN_DEFAULT (active_timers L \<noteq> {}) (L, c, v) =
      Some (False, L', c', log_of f (view L) hs v) \<and> set hs = active_timers L \<and> sorted_wrt (runs_before (view L)) hs \<and>
      timers_only q L' \<and> active_timers L' = {}"
    by (rule run_loop_timers [OF assms(1-6)]) (rule assms(7))
  then obtain hs L' c' where r: "run_loop E UV_RUN_DEFAULT (active_timers L \<noteq> {}) (L, c, v) =
      Some (False, L', c', log_of f (view L) hs v)" "set hs = active_timers L" "sorted_wrt (runs_before (view L)) hs"
      "timers_only q L'" "active_timers L' = {}" by blast
  have "uv_run E UV_RUN_DEFAULT (L, c, v) = Some (False, L', c', log_of f (view L) hs v)"
    using r(1,4) False timers_only_alive [OF assms(3)] by (simp add: uv_run_def timers_only_def)
  moreover have "loop_ok L'" using r(4) by (simp add: timers_only_def)
  ultimately show ?thesis using r(2,3,5) runs_before_distinct [OF r(3)] by blast
qed


text \<open>
  Two one-shot timers, and a kernel whose state is the time in milliseconds, up to \<open>10 ^ 12\<close>, and the number of
  signals that are to come, each of which interrupts a wait after a millisecond.
\<close>

definition sample_clock :: "nat \<times> nat \<Rightarrow> u64 \<times> nat \<times> nat" where
  "sample_clock c = (of_nat (min (fst c) (10 ^ 12)) * 1000000, c)"

definition sample_wait :: "(nat \<times> nat) waiting_call" where
  "sample_wait fd changes n s c =
     (if 0 < snd c then (Inl EINTR, fst c + 1, snd c - 1)
      else (Inr [], fst c + (case s of None \<Rightarrow> 0 | Some s \<Rightarrow> milliseconds s), 0))"

lemma sample_reading: "unat (reading sample_clock c) = min (fst c) (10 ^ 12)"
proof -
  have le: "min (fst c) (10 ^ 12) \<le> 10 ^ 12" by simp
  define m where "m = min (fst c) (10 ^ 12)"
  have "unat (of_nat m * 1000000 :: u64) = m * 1000000"
    using le unfolding m_def [symmetric] by (simp add: unat_word_ariths unat_of_nat)
  then show ?thesis unfolding reading_def sample_clock_def m_def [symmetric] by (simp add: unat_div_distrib)
qed

lemma sample_steady: "steady sample_clock (\<lambda>b c. c) sample_wait snd (10 ^ 12)"
  unfolding steady_def word_le_nat_alt sample_reading by (auto simp: sample_clock_def sample_wait_def min_def)

definition sample_environment :: "(addr \<Rightarrow> addr \<Rightarrow> 'v \<Rightarrow> 'v) \<Rightarrow> ((nat \<times> nat) \<times> 'v) environment" where
  "sample_environment f =
     \<lparr>hrtime = clock_of sample_clock, kevent = wait_of sample_wait, sigmask = (\<lambda>b u. (fst u, snd u)),
      call_io = (\<lambda>cb w ev. Some), fs_event_cb = 1, call = calls (logs f), finish_close = (\<lambda>w h. Some w), local_queue = 0x900\<rparr>"

definition sample_timer_loop :: uv_loop where
  "sample_timer_loop = sample_loop\<lparr>queues_of := [0x50 \<mapsto> own_node 0x50, 0x100 \<mapsto> own_node 0x100, 0x110 \<mapsto> own_node 0x110,
       0x120 \<mapsto> own_node 0x120, 0x60 \<mapsto> own_node 0x60, 0x900 \<mapsto> own_node 0], watchers_at := watcher_heads,
     ios := [0x310 \<mapsto> \<lparr>io_cb = 9, io_pevents = POLLIN, io_events = POLLIN, io_fd = 4, rcount = 0, wcount = 0\<rparr>],
     io_watchers := [0, 0, 0, 0, 0x310, 0], nfds := 1\<rparr>"

lemma sample_timer_loop_only: "timers_only 0x900 sample_timer_loop" "view sample_timer_loop = view sample_loop"
proof -
  let ?L = sample_timer_loop
  have h: "handles ?L = handles sample_loop" by (simp add: sample_timer_loop_def)
  have a: "active_timers ?L = active_timers sample_loop" "counted ?L = counted sample_loop"
    by (simp_all add: active_timers_def counted_def h)
  have "heap_ok ?L \<longleftrightarrow> heap_ok sample_loop" by (simp add: heap_ok_def a h) (simp add: sample_timer_loop_def)
  moreover have "timer_ok ?L h t \<longleftrightarrow> timer_ok sample_loop h t" for h t by (simp add: timer_ok_def sample_timer_loop_def)
  ultimately have ok: "loop_ok ?L" using sample_loop_ok unfolding loop_ok_def a h by (simp add: sample_timer_loop_def)
  have heads: "watchers_at ?L = watcher_heads" "pending_queue ?L = 0x50" "watcher_queue ?L = 0x60" "nfds ?L = 1"
    by (simp_all add: sample_timer_loop_def sample_loop_def)
  have img: "watcher_heads ` watcher_types = {0x100, 0x110, 0x120}" by (auto simp: watcher_heads_def watcher_types_def)
  have "ring (queues_of ?L) b []" if "b \<in> {0x60, 0x50, 0x100, 0x110, 0x120}" for b
    using that by (auto simp: ring_def sample_timer_loop_def QUEUE_NEXT_def QUEUE_PREV_def own_node_def)
  moreover have "if handle_type t = UV_TIMER then uv__has_ref t else \<not> (uv__is_active t \<and> uv__has_ref t)" if "handles ?L h = Some t" for h t
    using sample_handle [of h t] that idle_timer_inactive(3)
    by (auto simp: h uv__has_ref_def idle_timer_def UV_HANDLE_REF_def)
  moreover have "queues_of ?L 0x900 \<noteq> None" "stop_flag ?L = 0" "active_reqs ?L = 0" "closing_handles ?L = 0"
    by (simp_all add: sample_timer_loop_def sample_loop_def)
  ultimately show "timers_only 0x900 ?L" using ok unfolding timers_only_def heads img by auto
  show "view ?L = view sample_loop" by (simp add: view_def timers_of_def h fun_eq_iff) (simp add: sample_timer_loop_def)
qed


theorem uv_run_timers_witness:
  "\<exists>L1 rs L' c'. perform_all sample_timer_loop [Start 0x1000 7 50 0, Start 0x2000 8 20 0] = Some (rs, L1) \<and>
    uv_run (sample_environment (\<lambda>cb h v. v @ [(cb, h)])) UV_RUN_DEFAULT (L1, (1000, 2), []) =
      Some (False, L', c', [(8, 0x2000), (7, 0x1000)]) \<and> active_timers L' = {}"
proof -
  let ?ops = "[Start 0x1000 7 50 0, Start 0x2000 8 20 0]" and ?f = "\<lambda>cb h v. v @ [(cb, h)]"
  let ?T = "\<lparr>now = 1000, next_turn = 2, table = (timers_of sample_loop)
        (0x1000 \<mapsto> \<lparr>action = 7, interval = 0, deadline = Some (1050, 0), closed = False\<rparr>,
         0x2000 \<mapsto> \<lparr>action = 8, interval = 0, deadline = Some (1020, 1), closed = False\<rparr>)\<rparr>"
  have ok: "loop_ok sample_timer_loop" and v0: "view sample_timer_loop = view sample_loop"
    using sample_timer_loop_only by (simp_all add: timers_only_def)
  have c0: "timer_counter sample_timer_loop = 0" by (simp add: sample_timer_loop_def sample_loop_def)
  have "timers_of sample_timer_loop = timers_of sample_loop" using arg_cong [OF v0, of table] by (simp add: view_def)
  then have known: "\<forall>op \<in> set ?ops. timers_of sample_timer_loop (op_handle op) \<noteq> None" by (simp add: sample_timers)
  from perform_all_specified [OF ok this] c0 obtain rs L1 where
    1: "perform_all sample_timer_loop ?ops = Some (rs, L1)" "loop_ok L1" "specified_all (view sample_timer_loop) ?ops = Some (rs, view L1)"
      "unat (timer_counter L1) \<le> 2" by auto
  have s: "view sample_timer_loop = \<lparr>now = 1000, next_turn = 0, table = timers_of sample_loop\<rparr>"
    unfolding v0 by (simp add: view_def sample_loop_def)
  have "closed (state_of idle_timer) = False" using idle_timer_inactive(2) by (simp add: state_of_def)
  then have "specified_all (view sample_timer_loop) ?ops = Some ([0, 0], ?T)"
    unfolding s by (simp add: sample_timers scheduled_def due_time_def)
  then have v: "view L1 = ?T" using 1(3) by simp
  have "deadline (state_of idle_timer) = None" using idle_timer_inactive(1) by (simp add: state_of_def)
  then have d: "table (view L1) h = Some s \<and> deadline s = Some e \<longleftrightarrow>
      h = 0x2000 \<and> e = (1020, 1) \<and> s = \<lparr>action = 8, interval = 0, deadline = Some (1020, 1), closed = False\<rparr> \<or>
      h = 0x1000 \<and> e = (1050, 0) \<and> s = \<lparr>action = 7, interval = 0, deadline = Some (1050, 0), closed = False\<rparr>" for h s e
    unfolding v by (auto simp: sample_timers split: if_splits)
  have dD: "h = 0x2000 \<and> e = (1020, 1) \<and> interval s = 0 \<or> h = 0x1000 \<and> e = (1050, 0) \<and> interval s = 0"
    if "table (view L1) h = Some s" "deadline s = Some e" for h s e
    using conjI [OF that] unfolding d by auto
  have env: "timer_environment sample_clock (\<lambda>b c. c) sample_wait ?f 0x900 (sample_environment ?f)"
    by (simp add: timer_environment_def sample_environment_def)
  have only: "timers_only 0x900 L1"
    by (rule timers_only_frame [OF sample_timer_loop_only(1) 1(2) perform_all_frame [OF known 1(1)]])
  have shots: "one_shots (view L1)" unfolding one_shots_def
  proof (intro allI impI)
    fix h s assume "table (view L1) h = Some s \<and> deadline s \<noteq> None"
    then obtain e where "table (view L1) h = Some s" "deadline s = Some e" by blast
    then show "interval s = 0" using dD by blast
  qed
  have "loop_time L1 = 1000" using arg_cong [OF v, of now] by (simp add: view_def)
  then have time: "loop_time L1 \<le> reading sample_clock (1000, 2)" by (simp add: word_le_nat_alt sample_reading)
  have count: "unat (timer_counter L1) + 2 ^ 32 < 2 ^ 64" using 1(4) by simp
  have bound: "unat d \<le> 10 ^ 12" if "table (view L1) h = Some s" "deadline s = Some (d, n)" for h s d n
    using dD [OF that] by auto
  have "\<exists>hs L' c'. uv_run (sample_environment ?f) UV_RUN_DEFAULT (L1, (1000, 2), []) =
      Some (False, L', c', log_of ?f (view L1) hs []) \<and> set hs = active_timers L1 \<and> distinct hs \<and>
      sorted_wrt (runs_before (view L1)) hs \<and> loop_ok L' \<and> active_timers L' = {}"
    by (rule uv_run_timers [OF env sample_steady only shots time count]) (rule bound; assumption)
  then obtain hs L' c' where r: "uv_run (sample_environment ?f) UV_RUN_DEFAULT (L1, (1000, 2), []) =
      Some (False, L', c', log_of ?f (view L1) hs [])" "set hs = active_timers L1" "distinct hs"
      "sorted_wrt (runs_before (view L1)) hs" "active_timers L' = {}" by blast
  have "h \<in> active_timers L1 \<longleftrightarrow> h = 0x2000 \<or> h = 0x1000" for h
  proof -
    have "h \<in> active_timers L1 \<longleftrightarrow> (\<exists>s e. table (view L1) h = Some s \<and> deadline s = Some e)" unfolding active_view by blast
    then show ?thesis unfolding d by auto
  qed
  then have hs: "set hs = {0x2000, 0x1000}" using r(2) by blast
  then have "length hs = 2" using distinct_card [OF r(3)] by simp
  then obtain a b where ab: "hs = [a, b]" by (auto simp: length_Suc_conv numeral_2_eq_2)
  have "\<not> runs_before (view L1) 0x1000 0x2000"
  proof
    assume "runs_before (view L1) 0x1000 0x2000"
    then obtain r s c m d' n where "table (view L1) 0x1000 = Some r" "deadline r = Some (c, m)"
        "table (view L1) 0x2000 = Some s" "deadline s = Some (d', n)" "c < d' \<or> c = d' \<and> m < n"
      unfolding runs_before_def by blast
    then show False using dD [of "0x1000" r "(c, m)"] dD [of "0x2000" s "(d', n)"] by simp
  qed
  then have "hs = [0x2000, 0x1000]"
    using r(4) hs unfolding ab by (auto simp: doubleton_eq_iff)
  moreover have "action_of (view L1) 0x2000 = 8" "action_of (view L1) 0x1000 = 7" unfolding v by (simp_all add: action_of_def)
  ultimately show ?thesis using 1(1) r(1,5) by (simp add: log_of_def)
qed

end
