(* ===== verification/Uv_Inet.thy ===== *)
theory Uv_Inet
  imports Uv_Loop "HOL-Library.Char_ord"
begin

text \<open>
  Network addresses as text: \<^verbatim>\<open>src/inet.c\<close> and the bounded copy of \<^verbatim>\<open>src/strscpy.c\<close>. A C string is the list
  of its characters before the terminator, a buffer a list of characters; \<open>None\<close> is a write or a read
  outside an array. The error numbers are those of the platform, iOS.
\<close>

section \<open>Bounded copies\<close>

definition UV_E2BIG :: int where "UV_E2BIG = - 7"
definition UV_ENOSPC :: int where "UV_ENOSPC = - 28"
definition UV_EAFNOSUPPORT :: int where "UV_EAFNOSUPPORT = - 47"
definition AF_INET :: int where "AF_INET = 2"
definition AF_INET6 :: int where "AF_INET6 = 30"
definition SSIZE_MAX :: nat where "SSIZE_MAX = 2 ^ 63 - 1"

abbreviation NUL :: char where "NUL \<equiv> CHR 0x00"

text \<open>The character of a C string at \<open>i\<close>, its terminator included.\<close>

definition char_at :: "string \<Rightarrow> nat \<Rightarrow> char option" where
  "char_at s i = (if i < length s then Some (s ! i) else if i = length s then Some NUL else None)"

definition put_char :: "char list \<Rightarrow> nat \<Rightarrow> char \<Rightarrow> char list option" where
  "put_char d i c = (if i < length d then Some (d[i := c]) else None)"

function strscpy_loop :: "char list \<Rightarrow> string \<Rightarrow> nat \<Rightarrow> nat \<Rightarrow> (int \<times> char list) option" where
  "strscpy_loop d s n i =
     (if i < n
      then do {
        c \<leftarrow> char_at s i;
        d \<leftarrow> put_char d i c;
        if c = NUL then Some (if SSIZE_MAX < i then UV_E2BIG else int i, d) else strscpy_loop d s n (i + 1) }
      else if i = 0 then Some (0, d)
      else do { d \<leftarrow> put_char d (i - 1) NUL; Some (UV_E2BIG, d) })"
  by pat_completeness auto
termination by (relation "measure (\<lambda>(d, s, n, i). n - i)") auto

definition uv__strscpy :: "char list \<Rightarrow> string \<Rightarrow> nat \<Rightarrow> (int \<times> char list) option" where
  "uv__strscpy d s n = strscpy_loop d s n 0"

section \<open>From addresses to text\<close>

definition digit_char :: "nat \<Rightarrow> char" where
  "digit_char k = ''0123456789abcdef'' ! k"

text \<open>The conversions \<open>%u\<close> and \<open>%x\<close>.\<close>

fun decimal :: "nat \<Rightarrow> string" where
  "decimal n = (if n < 10 then [digit_char n] else decimal (n div 10) @ [digit_char (n mod 10)])"

fun hexadecimal :: "nat \<Rightarrow> string" where
  "hexadecimal n = (if n < 16 then [digit_char n] else hexadecimal (n div 16) @ [digit_char (n mod 16)])"

declare decimal.simps [simp del] hexadecimal.simps [simp del]

definition UV__INET_ADDRSTRLEN :: nat where "UV__INET_ADDRSTRLEN = 16"
definition UV__INET6_ADDRSTRLEN :: nat where "UV__INET6_ADDRSTRLEN = 46"

definition dotted :: "byte list \<Rightarrow> string" where
  "dotted src = decimal (unat (src ! 0)) @ ''.'' @ decimal (unat (src ! 1)) @ ''.'' @
     decimal (unat (src ! 2)) @ ''.'' @ decimal (unat (src ! 3))"

text \<open>\<open>snprintf\<close> returns the length of the text and writes as much of it as fits.\<close>

definition inet_ntop4 :: "byte list \<Rightarrow> char list \<Rightarrow> nat \<Rightarrow> (int \<times> char list) option" where
  "inet_ntop4 src dst sz =
     (let l = length (dotted src);
          tmp = take (UV__INET_ADDRSTRLEN - 1) (dotted src) in
      if l \<le> 0 \<or> sz \<le> l then Some (UV_ENOSPC, dst)
      else do { (_, dst) \<leftarrow> uv__strscpy dst tmp sz; Some (0, dst) })"

text \<open>A run of zero words: its base, \<open>- 1\<close> for none, and its length.\<close>

type_synonym zero_run = "int \<times> int"

definition better_run :: "zero_run \<Rightarrow> zero_run \<Rightarrow> zero_run" where
  "better_run best cur = (if fst best = - 1 \<or> snd best < snd cur then cur else best)"

fun scan_words :: "u32 list \<Rightarrow> int \<Rightarrow> zero_run \<Rightarrow> zero_run \<Rightarrow> zero_run \<times> zero_run" where
  "scan_words [] i best cur = (best, cur)"
| "scan_words (w # ws) i best cur =
     (if w = 0
      then if fst cur = - 1 then scan_words ws (i + 1) best (i, 1)
           else scan_words ws (i + 1) best (fst cur, snd cur + 1)
      else if fst cur \<noteq> - 1 then scan_words ws (i + 1) (better_run best cur) (- 1, snd cur)
      else scan_words ws (i + 1) best cur)"

definition best_run :: "u32 list \<Rightarrow> zero_run" where
  "best_run words =
     (let (best, cur) = scan_words words 0 (- 1, 0) (- 1, 0);
          best = (if fst cur \<noteq> - 1 then better_run best cur else best) in
      if fst best \<noteq> - 1 \<and> snd best < 2 then (- 1, snd best) else best)"

definition words_of :: "byte list \<Rightarrow> u32 list" where
  "words_of src = map (\<lambda>i. push_bit 8 (ucast (src ! (2 * i))) OR ucast (src ! (2 * i + 1))) [0..<8]"

text \<open>\<open>*tp++ = c\<close> and \<open>tp += sprintf(tp, ...)\<close> on the local buffer.\<close>

definition emit :: "string \<Rightarrow> char \<Rightarrow> string option" where
  "emit tmp c = (if length tmp < UV__INET6_ADDRSTRLEN then Some (tmp @ [c]) else None)"

definition emit_text :: "string \<Rightarrow> string \<Rightarrow> string option" where
  "emit_text tmp s = (if length tmp + length s < UV__INET6_ADDRSTRLEN then Some (tmp @ s) else None)"

function format_loop :: "byte list \<Rightarrow> u32 list \<Rightarrow> zero_run \<Rightarrow> nat \<Rightarrow> string \<Rightarrow> (int + string) option" where
  "format_loop src words best i tmp =
     (if 8 \<le> i then Some (Inr tmp)
      else if fst best \<noteq> - 1 \<and> fst best \<le> int i \<and> int i < fst best + snd best
      then do {
        tmp \<leftarrow> (if int i = fst best then emit tmp CHR '':'' else Some tmp);
        format_loop src words best (i + 1) tmp }
      else do {
        tmp \<leftarrow> (if i \<noteq> 0 then emit tmp CHR '':'' else Some tmp);
        if i = 6 \<and> fst best = 0 \<and>
           (snd best = 6 \<or> snd best = 7 \<and> words ! 7 \<noteq> 0x0001 \<or> snd best = 5 \<and> words ! 5 = 0xffff)
        then do {
          (err, d) \<leftarrow> inet_ntop4 (drop 12 src) (replicate (UV__INET6_ADDRSTRLEN - length tmp) NUL)
                        (UV__INET6_ADDRSTRLEN - length tmp);
          if err \<noteq> 0 then Some (Inl err) else Some (Inr (tmp @ takeWhile (\<lambda>c. c \<noteq> NUL) d)) }
        else do {
          tmp \<leftarrow> emit_text tmp (hexadecimal (unat (words ! i)));
          format_loop src words best (i + 1) tmp } })"
  by pat_completeness auto
termination by (relation "measure (\<lambda>(src, words, best, i, tmp). 8 - i)") auto

definition inet_ntop6 :: "byte list \<Rightarrow> char list \<Rightarrow> nat \<Rightarrow> (int \<times> char list) option" where
  "inet_ntop6 src dst sz = do {
     let words = words_of src;
     let best = best_run words;
     r \<leftarrow> format_loop src words best 0 [];
     case r of
       Inl err \<Rightarrow> Some (err, dst)
     | Inr tmp \<Rightarrow> do {
         tmp \<leftarrow> (if fst best \<noteq> - 1 \<and> fst best + snd best = 8 then emit tmp CHR '':'' else Some tmp);
         _ \<leftarrow> emit tmp NUL;
         (e, dst) \<leftarrow> uv__strscpy dst tmp sz;
         Some (if UV_E2BIG = e then UV_ENOSPC else 0, dst) } }"

definition uv_inet_ntop :: "int \<Rightarrow> byte list \<Rightarrow> char list \<Rightarrow> nat \<Rightarrow> (int \<times> char list) option" where
  "uv_inet_ntop af src dst sz =
     (if af = AF_INET then inet_ntop4 src dst sz
      else if af = AF_INET6 then inet_ntop6 src dst sz
      else Some (UV_EAFNOSUPPORT, dst))"

section \<open>From text to addresses\<close>

text \<open>\<open>strchr\<close> in a table of digits, as an index; the character is never the terminator here.\<close>

definition index_of :: "string \<Rightarrow> char \<Rightarrow> nat option" where
  "index_of digits ch = (if ch \<in> set digits then Some (length (takeWhile (\<lambda>c. c \<noteq> ch) digits)) else None)"

definition get_byte :: "byte list \<Rightarrow> nat \<Rightarrow> byte option" where
  "get_byte tmp i = (if i < length tmp then Some (tmp ! i) else None)"

definition put_byte :: "byte list \<Rightarrow> nat \<Rightarrow> byte \<Rightarrow> byte list option" where
  "put_byte tmp i b = (if i < length tmp then Some (tmp[i := b]) else None)"

fun pton4_loop :: "string \<Rightarrow> byte list \<Rightarrow> nat \<Rightarrow> bool \<Rightarrow> nat \<Rightarrow> (int + byte list) option" where
  "pton4_loop [] tmp tp saw_digit octets = Some (if octets < 4 then Inl UV_EINVAL else Inr tmp)"
| "pton4_loop (ch # src) tmp tp saw_digit octets =
     (case index_of ''0123456789'' ch of
        Some k \<Rightarrow> do {
          b \<leftarrow> get_byte tmp tp;
          let nw = unat b * 10 + k;
          if saw_digit \<and> b = 0 then Some (Inl UV_EINVAL)
          else if 255 < nw then Some (Inl UV_EINVAL)
          else do {
            tmp \<leftarrow> put_byte tmp tp (of_nat nw);
            if \<not> saw_digit
            then if 4 < octets + 1 then Some (Inl UV_EINVAL) else pton4_loop src tmp tp True (octets + 1)
            else pton4_loop src tmp tp saw_digit octets } }
      | None \<Rightarrow>
          if ch = CHR ''.'' \<and> saw_digit
          then if octets = 4 then Some (Inl UV_EINVAL)
               else do { tmp \<leftarrow> put_byte tmp (tp + 1) 0; pton4_loop src tmp (tp + 1) False octets }
          else Some (Inl UV_EINVAL))"

definition inet_pton4 :: "string \<Rightarrow> (int + byte list) option" where
  "inet_pton4 src = pton4_loop src [0, 0, 0, 0] 0 False 0"

definition xdigit :: "char \<Rightarrow> nat option" where
  "xdigit ch = (case index_of ''0123456789abcdef'' ch of Some k \<Rightarrow> Some k | None \<Rightarrow> index_of ''0123456789ABCDEF'' ch)"

text \<open>The locals of \<open>inet_pton6\<close> after its loop; \<open>colonp\<close> is an index into \<open>tmp\<close>.\<close>

record pton6_locals =
  p6_tmp :: "byte list"
  p6_tp :: nat
  p6_colonp :: "nat option"
  p6_seen :: nat
  p6_val :: u32

definition store_word :: "byte list \<Rightarrow> nat \<Rightarrow> u32 \<Rightarrow> byte list option" where
  "store_word tmp tp val = do {
     tmp \<leftarrow> put_byte tmp tp (ucast (drop_bit 8 val));
     put_byte tmp (tp + 1) (ucast val) }"

fun pton6_loop :: "string \<Rightarrow> string \<Rightarrow> pton6_locals \<Rightarrow> (int + pton6_locals) option" where
  "pton6_loop [] curtok l = Some (Inr l)"
| "pton6_loop (ch # src) curtok l =
     (case xdigit ch of
        Some k \<Rightarrow>
          if 4 < p6_seen l + 1 then Some (Inl UV_EINVAL)
          else pton6_loop src curtok (l\<lparr>p6_val := push_bit 4 (p6_val l) OR of_nat k, p6_seen := p6_seen l + 1\<rparr>)
      | None \<Rightarrow>
          if ch = CHR '':''
          then if p6_seen l = 0
               then if p6_colonp l \<noteq> None then Some (Inl UV_EINVAL)
                    else pton6_loop src src (l\<lparr>p6_colonp := Some (p6_tp l)\<rparr>)
               else if src = [] then Some (Inl UV_EINVAL)
               else if 16 < p6_tp l + 2 then Some (Inl UV_EINVAL)
               else do {
                 tmp \<leftarrow> store_word (p6_tmp l) (p6_tp l) (p6_val l);
                 pton6_loop src src (l\<lparr>p6_tmp := tmp, p6_tp := p6_tp l + 2, p6_seen := 0, p6_val := 0\<rparr>) }
          else if ch = CHR ''.'' \<and> p6_tp l + 4 \<le> 16
          then do {
            r \<leftarrow> inet_pton4 curtok;
            case r of
              Inl err \<Rightarrow> Some (Inl UV_EINVAL)
            | Inr bs \<Rightarrow> Some (Inr (l\<lparr>p6_tmp := take (p6_tp l) (p6_tmp l) @ bs @ drop (p6_tp l + 4) (p6_tmp l),
                                    p6_tp := p6_tp l + 4, p6_seen := 0\<rparr>)) }
          else Some (Inl UV_EINVAL))"

text \<open>The bytes behind the \<open>::\<close> move to the end; \<open>c\<close> is \<open>colonp\<close>.\<close>

function shift_loop :: "byte list \<Rightarrow> nat \<Rightarrow> nat \<Rightarrow> nat \<Rightarrow> byte list option" where
  "shift_loop tmp c n i =
     (if i \<le> n
      then do {
        b \<leftarrow> get_byte tmp (c + n - i);
        tmp \<leftarrow> put_byte tmp (16 - i) b;
        tmp \<leftarrow> put_byte tmp (c + n - i) 0;
        shift_loop tmp c n (i + 1) }
      else Some tmp)"
  by pat_completeness auto
termination by (relation "measure (\<lambda>(tmp, c, n, i). Suc n - i)") auto

definition pton6_finish :: "pton6_locals \<Rightarrow> (int + byte list) option" where
  "pton6_finish l =
     (if p6_seen l \<noteq> 0 \<and> 16 < p6_tp l + 2 then Some (Inl UV_EINVAL)
      else do {
        (tmp, tp) \<leftarrow>
          (if p6_seen l \<noteq> 0
           then do { tmp \<leftarrow> store_word (p6_tmp l) (p6_tp l) (p6_val l); Some (tmp, p6_tp l + 2) }
           else Some (p6_tmp l, p6_tp l));
        case p6_colonp l of
          None \<Rightarrow> Some (if tp \<noteq> 16 then Inl UV_EINVAL else Inr tmp)
        | Some c \<Rightarrow>
            if tp = 16 then Some (Inl UV_EINVAL)
            else do { tmp \<leftarrow> shift_loop tmp c (tp - c) 1; Some (Inr tmp) } })"

definition inet_pton6 :: "string \<Rightarrow> (int + byte list) option" where
  "inet_pton6 src =
     (let start = (case src of CHR '':'' # s \<Rightarrow> s | _ \<Rightarrow> src) in
      if src \<noteq> [] \<and> hd src = CHR '':'' \<and> (start = [] \<or> hd start \<noteq> CHR '':'') then Some (Inl UV_EINVAL)
      else do {
        r \<leftarrow> pton6_loop start start \<lparr>p6_tmp = replicate 16 0, p6_tp = 0, p6_colonp = None, p6_seen = 0, p6_val = 0\<rparr>;
        case r of Inl err \<Rightarrow> Some (Inl err) | Inr l \<Rightarrow> pton6_finish l })"

text \<open>A zone after \<open>%\<close> is cut off, in a buffer of its own. The pointers are not null.\<close>

definition uv_inet_pton :: "int \<Rightarrow> string \<Rightarrow> (int + byte list) option" where
  "uv_inet_pton af src =
     (if af = AF_INET then inet_pton4 src
      else if af = AF_INET6
      then if CHR ''%'' \<in> set src
           then let s = takeWhile (\<lambda>c. c \<noteq> CHR ''%'') src in
                if UV__INET6_ADDRSTRLEN - 1 < length s then Some (Inl UV_EINVAL) else inet_pton6 s
           else inet_pton6 src
      else Some (Inl UV_EAFNOSUPPORT))"

section \<open>IPv4 addresses\<close>

lemma less_10: "k < 10 \<longleftrightarrow> k = 0 \<or> k = 1 \<or> k = 2 \<or> k = 3 \<or> k = 4 \<or> k = 5 \<or> k = 6 \<or> k = 7 \<or> k = 8 \<or> k = (9 :: nat)"
  by (simp add: numeral_eq_Suc less_Suc_eq)

lemma digit_index: "k < 10 \<Longrightarrow> index_of ''0123456789'' (digit_char k) = Some k"
  unfolding less_10 by (elim disjE) (simp_all add: index_of_def digit_char_def)

lemma index_digit: "index_of ''0123456789'' ch = Some k \<Longrightarrow> k < 10 \<and> ch = digit_char k"
  by (auto simp: index_of_def digit_char_def split: if_splits)

lemma decimal_digit: "k < 10 \<Longrightarrow> decimal k = [digit_char k]"
  by (simp add: decimal.simps)

lemma decimal_append: "0 < n \<Longrightarrow> k < 10 \<Longrightarrow> decimal (n * 10 + k) = decimal n @ [digit_char k]"
  by (subst decimal.simps) simp

lemma no_digit_dot: "index_of ''0123456789'' CHR ''.'' = None"
  by (simp add: index_of_def)

definition octet_text :: "byte \<Rightarrow> string" where
  "octet_text b = decimal (unat b)"

text \<open>What is read when \<open>tp\<close> octets are over, and with \<open>saw\<close> a part of the next.\<close>

definition read_text :: "byte list \<Rightarrow> nat \<Rightarrow> bool \<Rightarrow> string" where
  "read_text tmp tp saw = concat (map (\<lambda>b. octet_text b @ ''.'') (take tp tmp)) @ (if saw then octet_text (tmp ! tp) else [])"

lemma read_text_all: "length tmp = 4 \<Longrightarrow> read_text tmp 3 True = dotted tmp"
  by (auto simp: read_text_def dotted_def octet_text_def length_Suc_conv numeral_eq_Suc)

definition add_digit :: "byte \<Rightarrow> nat \<Rightarrow> byte" where
  "add_digit b k = of_nat (unat b * 10 + k)"

lemma unat_add_digit: "unat b * 10 + k < 256 \<Longrightarrow> unat (add_digit b k) = unat b * 10 + k"
proof -
  assume "unat b * 10 + k < 256"
  moreover define m where "m = unat b * 10 + k"
  ultimately show ?thesis unfolding add_digit_def m_def [symmetric] by (simp add: unat_of_nat)
qed

lemma pton4_digit:
  assumes "index_of ''0123456789'' ch = Some k" "tp < length tmp"
  shows "pton4_loop (ch # s) tmp tp saw octets =
    (if saw \<and> tmp ! tp = 0 \<or> 255 < unat (tmp ! tp) * 10 + k then Some (Inl UV_EINVAL)
     else if saw then pton4_loop s (tmp[tp := add_digit (tmp ! tp) k]) tp True octets
     else if 4 < octets + 1 then Some (Inl UV_EINVAL)
     else pton4_loop s (tmp[tp := add_digit (tmp ! tp) k]) tp True (octets + 1))"
  using assms by (simp add: get_byte_def put_byte_def Let_def add_digit_def)

definition pton4_result :: "string \<Rightarrow> (int + byte list) \<Rightarrow> bool" where
  "pton4_result t r \<longleftrightarrow> (case r of Inl e \<Rightarrow> e = UV_EINVAL | Inr bs \<Rightarrow> length bs = 4 \<and> t = dotted bs)"

lemma pton4_sound:
  assumes "length tmp = 4" "tp < 4" "octets = tp + (if saw then 1 else 0)" "\<not> saw \<Longrightarrow> tmp ! tp = 0"
  shows "\<exists>r. pton4_loop s tmp tp saw octets = Some r \<and> pton4_result (read_text tmp tp saw @ s) r"
  using assms
proof (induction s arbitrary: tmp tp saw octets)
  case Nil
  then show ?case
  proof (cases "octets < 4")
    case False
    then have "saw" "tp = 3" using Nil.prems(2,3) by (auto split: if_splits)
    then show ?thesis using False Nil.prems(1) read_text_all by (simp add: pton4_result_def)
  qed (simp add: pton4_result_def)
next
  case (Cons ch s)
  show ?case
  proof (cases "index_of ''0123456789'' ch")
    case None
    show ?thesis
    proof (cases "ch = CHR ''.'' \<and> saw \<and> octets \<noteq> 4")
      case False
      then show ?thesis using None Cons.prems by (auto simp: pton4_result_def)
    next
      case True
      let ?tmp = "tmp[Suc tp := 0]"
      have tp: "Suc tp < 4" "octets = Suc tp" using Cons.prems(2,3) True by simp_all
      have "read_text ?tmp (Suc tp) False = read_text tmp tp saw @ [ch]"
        using True tp(1) Cons.prems(1) by (simp add: read_text_def take_Suc_conv_app_nth octet_text_def)
      moreover have "\<exists>r. pton4_loop s ?tmp (Suc tp) False octets = Some r \<and> pton4_result (read_text ?tmp (Suc tp) False @ s) r"
        by (rule Cons.IH) (use tp Cons.prems(1) in simp_all)
      ultimately show ?thesis using None True tp Cons.prems(1) by (simp add: put_byte_def)
    qed
  next
    case (Some k)
    then have k: "k < 10" "ch = digit_char k" using index_digit by blast+
    let ?tmp = "tmp[tp := add_digit (tmp ! tp) k]"
    show ?thesis
    proof (cases "saw \<and> tmp ! tp = 0 \<or> 255 < unat (tmp ! tp) * 10 + k")
      case True
      then show ?thesis using pton4_digit [OF Some, of tp tmp] Cons.prems(1,2) by (simp add: pton4_result_def)
    next
      case False
      have nw: "unat (add_digit (tmp ! tp) k) = unat (tmp ! tp) * 10 + k" using False by (intro unat_add_digit) simp
      have read_eq: "read_text ?tmp tp True = read_text tmp tp saw @ [ch]"
      proof (cases saw)
        case True
        then have "0 < unat (tmp ! tp)" using False by (simp add: unat_gt_0)
        then show ?thesis using True k nw Cons.prems(1,2) by (simp add: read_text_def octet_text_def decimal_append)
      next
        case nosaw: False
        then show ?thesis using k nw Cons.prems(1,2,4) by (simp add: read_text_def octet_text_def decimal_digit)
      qed
      have "\<exists>r. pton4_loop s ?tmp tp True (tp + 1) = Some r \<and> pton4_result (read_text ?tmp tp True @ s) r"
        by (rule Cons.IH) (use Cons.prems(1,2) in simp_all)
      then show ?thesis
        using pton4_digit [OF Some, of tp tmp] False Cons.prems(1-3) read_eq by (cases saw) simp_all
    qed
  qed
qed

lemma pton4_octet:
  assumes "length tmp = 4" "tp < 4" "octets < 4" "tmp ! tp = 0"
  shows "pton4_loop (octet_text b @ s) tmp tp False octets = pton4_loop s (tmp[tp := b]) tp True (octets + 1)"
proof -
  have b: "unat b < 256" using unsigned_less [of b] by simp
  have first: "pton4_loop (digit_char k # s) tmp tp False octets = pton4_loop s (tmp[tp := c]) tp True (octets + 1)"
    if "k < 10" "unat c = k" for k c s
  proof -
    have "add_digit (tmp ! tp) k = c" using that unat_add_digit [of 0 k] unfolding assms(4) by (simp add: word_unat_eq_iff)
    then show ?thesis using pton4_digit [OF digit_index [OF that(1)], of tp tmp s False octets] assms that(1) by simp
  qed
  have more: "pton4_loop (digit_char k # s) (tmp[tp := d]) tp True (octets + 1) = pton4_loop s (tmp[tp := c]) tp True (octets + 1)"
    if "k < 10" "0 < unat d" "unat c = unat d * 10 + k" "unat c < 256" for k c d s
  proof -
    have "add_digit d k = c" using that unat_add_digit [of d k] by (simp add: word_unat_eq_iff)
    moreover have "d \<noteq> 0" using that(2) by auto
    ultimately show ?thesis
      using pton4_digit [OF digit_index [OF that(1)], of tp "tmp[tp := d]" s True "octets + 1"] assms(1,2) that(3,4) by simp
  qed
  have bt: "unat (of_nat n :: byte) = n" if "n < 256" for n using that by (simp add: unat_of_nat)
  consider "unat b < 10" | "10 \<le> unat b" "unat b < 100" | "100 \<le> unat b" by linarith
  then show ?thesis
  proof cases
    case 1
    then show ?thesis using first [of "unat b" b s] by (simp add: octet_text_def decimal_digit)
  next
    case 2
    let ?x = "unat b div 10" and ?y = "unat b mod 10"
    have n: "unat b = ?x * 10 + ?y" "0 < ?x" "?x < 10" "?y < 10" using 2 by simp_all
    have "octet_text b = decimal (?x * 10 + ?y)" using n(1) by (simp add: octet_text_def)
    also have "\<dots> = [digit_char ?x, digit_char ?y]" unfolding decimal_append [OF n(2,4)] decimal_digit [OF n(3)] by simp
    finally have read_eq: "octet_text b = [digit_char ?x, digit_char ?y]" .
    have u: "unat (of_nat ?x :: byte) = ?x" using n by (intro bt) simp
    show ?thesis
      unfolding read_eq using first [OF n(3) u, of "digit_char ?y # s"] more [of ?y "of_nat ?x" b s] n b u by simp
  next
    case 3
    let ?x = "unat b div 100" and ?y = "unat b div 10 mod 10" and ?z = "unat b mod 10" and ?w = "unat b div 10"
    have "?w div 10 = ?x" using div_mult2_eq [of "unat b" 10 10] by simp
    then have w: "?w = ?x * 10 + ?y" using div_mult_mod_eq [of ?w 10] by simp
    have n: "unat b = ?w * 10 + ?z" "?w = ?x * 10 + ?y" "0 < ?x" "0 < ?w" "?x < 10" "?y < 10" "?z < 10"
      using 3 b w by auto
    have "octet_text b = decimal (?w * 10 + ?z)" using n(1) by (simp add: octet_text_def)
    also have "\<dots> = decimal ?w @ [digit_char ?z]" by (rule decimal_append [OF n(4,7)])
    also have "decimal ?w = decimal (?x * 10 + ?y)" using n(2) by simp
    also have "\<dots> = [digit_char ?x, digit_char ?y]" unfolding decimal_append [OF n(3,6)] decimal_digit [OF n(5)] by simp
    finally have read_eq: "octet_text b = [digit_char ?x, digit_char ?y, digit_char ?z]" by simp
    have w256: "?w < 256" using b by (rule le_less_trans [OF div_le_dividend])
    then have u: "unat (of_nat ?x :: byte) = ?x" "unat (of_nat ?w :: byte) = ?w" using n b by (intro bt; simp)+
    have "pton4_loop (octet_text b @ s) tmp tp False octets =
        pton4_loop (digit_char ?y # digit_char ?z # s) (tmp[tp := of_nat ?x]) tp True (octets + 1)"
      unfolding read_eq using first [OF n(5) u(1)] by simp
    also have "\<dots> = pton4_loop (digit_char ?z # s) (tmp[tp := of_nat ?w]) tp True (octets + 1)"
      by (rule more) (use n u b w256 in simp_all)
    also have "\<dots> = pton4_loop s (tmp[tp := b]) tp True (octets + 1)"
      by (rule more) (use n u b in simp_all)
    finally show ?thesis .
  qed
qed


lemma pton4_complete: "length bs = 4 \<Longrightarrow> inet_pton4 (dotted bs) = Some (Inr bs)"
proof -
  assume "length bs = 4"
  then obtain a b c d where bs: "bs = [a, b, c, d]" by (auto simp: length_Suc_conv numeral_eq_Suc)
  have dot: "pton4_loop (CHR ''.'' # s) tmp tp True octets = pton4_loop s (tmp[tp + 1 := 0]) (tp + 1) False octets"
    if "octets < 4" "tp + 1 < length tmp" for s tmp tp octets
    using that by (simp add: no_digit_dot put_byte_def)
  have start: "inet_pton4 (dotted bs) = pton4_loop (octet_text a @ CHR ''.'' # octet_text b @ CHR ''.'' # octet_text c @ CHR ''.'' # octet_text d @ [])
      [0, 0, 0, 0] 0 False 0"
    by (simp add: inet_pton4_def dotted_def bs octet_text_def numeral_eq_Suc)
  have 1: "pton4_loop (octet_text a @ CHR ''.'' # s) [0, 0, 0, 0] 0 False 0 = pton4_loop s [a, 0, 0, 0] 1 False 1" for s
    using pton4_octet [of "[0, 0, 0, 0]" 0 0 a "CHR ''.'' # s"] dot [of 1 0 "[a, 0, 0, 0]" s] by (simp del: pton4_loop.simps)
  have 2: "pton4_loop (octet_text b @ CHR ''.'' # s) [a, 0, 0, 0] 1 False 1 = pton4_loop s [a, b, 0, 0] 2 False 2" for s
    using pton4_octet [of "[a, 0, 0, 0]" 1 1 b "CHR ''.'' # s"] dot [of 2 1 "[a, b, 0, 0]" s]
    by (simp del: pton4_loop.simps add: numeral_eq_Suc)
  have 3: "pton4_loop (octet_text c @ CHR ''.'' # s) [a, b, 0, 0] 2 False 2 = pton4_loop s [a, b, c, 0] 3 False 3" for s
    using pton4_octet [of "[a, b, 0, 0]" 2 2 c "CHR ''.'' # s"] dot [of 3 2 "[a, b, c, 0]" s]
    by (simp del: pton4_loop.simps add: numeral_eq_Suc)
  have 4: "pton4_loop (octet_text d @ []) [a, b, c, 0] 3 False 3 = pton4_loop [] [a, b, c, d] 3 True 4"
    using pton4_octet [of "[a, b, c, 0]" 3 3 d "[]"] by (simp del: pton4_loop.simps append_Nil2 add: numeral_eq_Suc)
  show ?thesis unfolding start 1 2 3 4 by (simp add: bs)
qed

text \<open>
  C8. \<open>inet_pton4\<close> accepts exactly the texts that \<open>inet_ntop4\<close> writes: four decimal numbers up to 255
  without leading zeros, with dots between them, and nothing before or after. It returns their bytes, and
  \<open>UV_EINVAL\<close> for any other text. On no text does it leave its buffer of four bytes.
\<close>

theorem inet_pton4_exact:
  "(inet_pton4 s = Some (Inr bs) \<longleftrightarrow> length bs = 4 \<and> s = dotted bs) \<and>
   (inet_pton4 s = Some (Inl UV_EINVAL) \<longleftrightarrow> (\<nexists>bs. length bs = 4 \<and> s = dotted bs))"
proof -
  obtain r where r: "inet_pton4 s = Some r" "pton4_result s r"
    using pton4_sound [of "[0, 0, 0, 0]" 0 0 False s] by (auto simp: inet_pton4_def read_text_def)
  have "inet_pton4 s = Some (Inr bs) \<longleftrightarrow> length bs = 4 \<and> s = dotted bs"
    using r pton4_complete [of bs] by (auto simp: pton4_result_def)
  moreover have "inet_pton4 s = Some (Inl UV_EINVAL) \<longleftrightarrow> (\<nexists>bs. length bs = 4 \<and> s = dotted bs)"
    using r pton4_complete by (cases r) (auto simp: pton4_result_def)
  ultimately show ?thesis ..
qed

section \<open>Copies\<close>

definition c_string :: "char list \<Rightarrow> string" where
  "c_string d = takeWhile (\<lambda>c. c \<noteq> NUL) d"

lemma strscpy_loop_copies:
  assumes "NUL \<notin> set s" "length s < n" "n \<le> length d" "length s \<le> SSIZE_MAX" "i \<le> length s"
  shows "strscpy_loop (take i s @ drop i d) s n i = Some (int (length s), s @ NUL # drop (Suc (length s)) d)"
  using assms(5)
proof (induction "length s - i" arbitrary: i)
  case 0
  then have i: "i = length s" by simp
  have "strscpy_loop (s @ drop (length s) d) s n (length s) = Some (int (length s), (s @ drop (length s) d)[length s := NUL])"
    using assms by (subst strscpy_loop.simps) (simp add: char_at_def put_char_def)
  moreover have "drop (length s) d = d ! length s # drop (Suc (length s)) d"
    using assms(2,3) by (intro Cons_nth_drop_Suc [symmetric]) simp
  ultimately show ?case by (simp add: i list_update_append)
next
  case (Suc k)
  then have i: "i < length s" by simp
  have ne: "s ! i \<noteq> NUL" using assms(1) i by (metis nth_mem)
  have len: "length (take i s) = i" using i by simp
  have d: "drop i d = d ! i # drop (Suc i) d" using assms(2,3) i by (intro Cons_nth_drop_Suc [symmetric]) simp
  have "(take i s @ drop i d)[i := s ! i] = take (Suc i) s @ drop (Suc i) d"
    using i by (simp add: d list_update_append take_Suc_conv_app_nth)
  then have "strscpy_loop (take i s @ drop i d) s n i = strscpy_loop (take (Suc i) s @ drop (Suc i) d) s n (Suc i)"
    using assms(2,3) i ne by (subst strscpy_loop.simps) (simp add: char_at_def put_char_def)
  then show ?case using Suc by simp
qed

lemma strscpy_copies:
  assumes "NUL \<notin> set s" "length s < n" "n \<le> length d" "length s \<le> SSIZE_MAX"
  shows "\<exists>d'. uv__strscpy d s n = Some (int (length s), d') \<and> c_string d' = s"
proof -
  have "uv__strscpy d s n = Some (int (length s), s @ NUL # drop (Suc (length s)) d)"
    using strscpy_loop_copies [OF assms, of 0] by (simp add: uv__strscpy_def)
  moreover have "c_string (s @ NUL # drop (Suc (length s)) d) = s"
    using assms(1) by (auto simp: c_string_def takeWhile_append)
  ultimately show ?thesis by blast
qed

lemma digit_char_facts: "k < 16 \<Longrightarrow> digit_char k \<noteq> NUL \<and> digit_char k \<noteq> CHR ''%'' \<and> xdigit (digit_char k) = Some k"
proof -
  assume "k < 16"
  then have "k \<in> {0, 1, 2, 3, 4, 5, 6, 7, 8, 9, 10, 11, 12, 13, 14, 15}" by (simp add: numeral_eq_Suc less_Suc_eq)
  then show ?thesis by (elim insertE; simp add: digit_char_def xdigit_def index_of_def)
qed

lemma hexadecimal_digits: "c \<in> set (hexadecimal n) \<Longrightarrow> \<exists>k < 16. c = digit_char k"
proof (induction n rule: hexadecimal.induct)
  case (1 n)
  show ?case
  proof (cases "n < 16 \<or> c \<notin> set (hexadecimal (n div 16))")
    case True
    then have "c = digit_char (n mod 16)" using "1.prems" by (subst (asm) (2) hexadecimal.simps) (auto split: if_splits)
    then show ?thesis by (intro exI [of _ "n mod 16"]) simp
  next
    case False
    then show ?thesis using "1.IH" by simp
  qed
qed

lemma decimal_digits: "c \<in> set (decimal n) \<Longrightarrow> \<exists>k < 10. c = digit_char k"
proof (induction n rule: decimal.induct)
  case (1 n)
  show ?case
  proof (cases "n < 10 \<or> c \<notin> set (decimal (n div 10))")
    case True
    then have "c = digit_char (n mod 10)" using "1.prems" by (subst (asm) (2) decimal.simps) (auto split: if_splits)
    then show ?thesis by (intro exI [of _ "n mod 10"]) simp
  next
    case False
    then show ?thesis using "1.IH" by simp
  qed
qed

lemma hexadecimal_length: "n < 16 ^ Suc k \<Longrightarrow> length (hexadecimal n) \<le> Suc k"
proof (induction k arbitrary: n)
  case 0
  then show ?case by (simp add: hexadecimal.simps)
next
  case (Suc k)
  have "n div 16 < 16 ^ Suc k" using Suc.prems by (simp add: less_mult_imp_div_less mult.commute)
  then show ?case using Suc.IH [of "n div 16"] by (subst hexadecimal.simps) simp
qed

lemma hexadecimal_nonempty: "hexadecimal n \<noteq> []"
  by (subst hexadecimal.simps) simp

lemma decimal_length: "n < 10 ^ Suc k \<Longrightarrow> length (decimal n) \<le> Suc k"
proof (induction k arbitrary: n)
  case 0
  then show ?case by (simp add: decimal.simps)
next
  case (Suc k)
  have "n div 10 < 10 ^ Suc k" using Suc.prems by (simp add: less_mult_imp_div_less mult.commute)
  then show ?case using Suc.IH [of "n div 10"] by (subst decimal.simps) simp
qed

lemma decimal_nonempty: "decimal n \<noteq> []"
  by (subst decimal.simps) simp

lemma octet_text_facts: "0 < length (octet_text b)" "length (octet_text b) \<le> 3" "c \<in> set (octet_text b) \<Longrightarrow> \<exists>k < 10. c = digit_char k"
proof -
  have "unat b < 256" using unsigned_less [of b] by simp
  then have "unat b < 10 ^ Suc 2" by simp
  then show "length (octet_text b) \<le> 3" using decimal_length [of "unat b" 2] by (simp add: octet_text_def)
  show "0 < length (octet_text b)" by (simp add: octet_text_def decimal_nonempty)
  show "\<exists>k < 10. c = digit_char k" if "c \<in> set (octet_text b)" using that decimal_digits by (simp add: octet_text_def)
qed

lemma dotted_octets: "dotted bs = octet_text (bs ! 0) @ CHR ''.'' # octet_text (bs ! 1) @ CHR ''.'' # octet_text (bs ! 2) @ CHR ''.'' # octet_text (bs ! 3)"
  by (simp add: dotted_def octet_text_def)

lemma dotted_facts: "length (dotted bs) \<le> 15" "0 < length (dotted bs)" "NUL \<notin> set (dotted bs)" "CHR ''%'' \<notin> set (dotted bs)"
proof -
  show "length (dotted bs) \<le> 15" using octet_text_facts(2) [of "bs ! 0"] octet_text_facts(2) [of "bs ! 1"]
      octet_text_facts(2) [of "bs ! 2"] octet_text_facts(2) [of "bs ! 3"] by (simp add: dotted_octets)
  show "0 < length (dotted bs)" by (simp add: dotted_octets)
  have "c \<noteq> NUL \<and> c \<noteq> CHR ''%''" if c: "c \<in> set (octet_text b)" for b c
  proof -
    obtain k where "k < 10" "c = digit_char k" using octet_text_facts(3) [OF c] by blast
    then show ?thesis using digit_char_facts [of k] by simp
  qed
  then show "NUL \<notin> set (dotted bs)" "CHR ''%'' \<notin> set (dotted bs)" unfolding dotted_octets by auto
qed

lemma ntop4_text:
  assumes "16 \<le> sz" "sz \<le> length d"
  shows "\<exists>d'. inet_ntop4 src d sz = Some (0, d') \<and> c_string d' = dotted src"
proof -
  have t: "take 15 (dotted src) = dotted src" using dotted_facts(1) by simp
  have "length (dotted src) < sz" "length (dotted src) \<le> SSIZE_MAX" using dotted_facts(1) [of src] assms by (simp_all add: SSIZE_MAX_def)
  then show ?thesis
    using strscpy_copies [OF dotted_facts(3), of src sz d] assms dotted_facts(2) [of src]
    by (auto simp: inet_ntop4_def t Let_def UV__INET_ADDRSTRLEN_def)
qed

section \<open>Reading IPv6 addresses\<close>

lemma hex_digit_step: "k < 16 \<Longrightarrow> push_bit 4 (v :: u32) OR of_nat k = v * 16 + of_nat k"
proof -
  assume k: "k < 16"
  then have "unat (of_nat k :: u32) < 2 ^ 4" by (simp add: unat_of_nat)
  then have "(of_nat k :: u32) OR push_bit 4 v = of_nat k + push_bit 4 v" by (intro word_or_push_bit) simp_all
  then show ?thesis by (simp add: or.commute push_bit_eq_mult)
qed

lemma pton6_digit:
  assumes "k < 16" "p6_seen l < 4"
  shows "pton6_loop (digit_char k # s) curtok l = pton6_loop s curtok (l\<lparr>p6_val := p6_val l * 16 + of_nat k, p6_seen := p6_seen l + 1\<rparr>)"
  using assms digit_char_facts [OF assms(1)] by (simp add: hex_digit_step)

lemma pton6_hexadecimal:
  assumes "length (hexadecimal n) \<le> 4" "p6_seen l = 0" "p6_val l = 0"
  shows "pton6_loop (hexadecimal n @ s) curtok l = pton6_loop s curtok (l\<lparr>p6_val := of_nat n, p6_seen := length (hexadecimal n)\<rparr>)"
  using assms(1)
proof (induction n arbitrary: s rule: hexadecimal.induct)
  case (1 n)
  show ?case
  proof (cases "n < 16")
    case True
    then have "hexadecimal n = [digit_char n]" by (simp add: hexadecimal.simps)
    then show ?thesis using pton6_digit [OF True, of l s curtok] assms(2,3) by simp
  next
    case False
    let ?d = "digit_char (n mod 16)"
    have h: "hexadecimal n = hexadecimal (n div 16) @ [?d]" using False by (subst hexadecimal.simps) simp
    then have len: "length (hexadecimal (n div 16)) < 4" using "1.prems" by simp
    let ?l = "l\<lparr>p6_val := of_nat (n div 16), p6_seen := length (hexadecimal (n div 16))\<rparr>"
    have "pton6_loop (hexadecimal n @ s) curtok l = pton6_loop (?d # s) curtok ?l"
      using "1.IH" [OF False, of "?d # s"] len h by (simp del: pton6_loop.simps)
    also have "\<dots> = pton6_loop s curtok (?l\<lparr>p6_val := of_nat (n div 16) * 16 + of_nat (n mod 16), p6_seen := length (hexadecimal n)\<rparr>)"
      using pton6_digit [of "n mod 16" ?l s curtok] len h by (simp del: pton6_loop.simps)
    also have "of_nat (n div 16) * 16 + of_nat (n mod 16) = (of_nat (n div 16 * 16 + n mod 16) :: u32)" by (simp only: of_nat_add of_nat_mult of_nat_numeral)
    finally show ?thesis by simp
  qed
qed

definition word_text :: "u32 \<Rightarrow> string" where
  "word_text w = hexadecimal (unat w)"

definition word_bytes :: "u32 list \<Rightarrow> byte list" where
  "word_bytes ws = concat (map (\<lambda>w. [ucast (drop_bit 8 w), ucast w]) ws)"

lemma word_text_length: "w < 2 ^ 16 \<Longrightarrow> length (word_text w) \<le> 4" "word_text w \<noteq> []"
proof -
  assume "w < 2 ^ 16"
  then have "unat w < 16 ^ Suc 3" by (simp add: word_less_nat_alt)
  then show "length (word_text w) \<le> 4" using hexadecimal_length [of "unat w" 3] by (simp add: word_text_def)
qed (simp add: word_text_def hexadecimal_nonempty)

text \<open>The locals when the bytes \<open>bs\<close> are read.\<close>

definition locals_at :: "byte list \<Rightarrow> nat option \<Rightarrow> pton6_locals" where
  "locals_at bs c = \<lparr>p6_tmp = bs @ replicate (16 - length bs) 0, p6_tp = length bs, p6_colonp = c, p6_seen = 0, p6_val = 0\<rparr>"

lemma pton6_word:
  assumes "w < 2 ^ 16"
  shows "pton6_loop (word_text w @ s) curtok (locals_at bs c) =
    pton6_loop s curtok ((locals_at bs c)\<lparr>p6_val := w, p6_seen := length (word_text w)\<rparr>)"
  using pton6_hexadecimal [of "unat w" "locals_at bs c" s curtok] word_text_length(1) [OF assms]
  by (simp add: word_text_def locals_at_def)

lemma store_word_at:
  assumes "length bs + 2 \<le> 16"
  shows "store_word (bs @ replicate (16 - length bs) 0) (length bs) w =
    Some ((bs @ word_bytes [w]) @ replicate (16 - length (bs @ word_bytes [w])) 0)"
proof -
  have "16 - length bs = Suc (Suc (16 - (length bs + 2)))" using assms by simp
  then have "replicate (16 - length bs) (0 :: byte) = 0 # 0 # replicate (16 - (length bs + 2)) 0" by simp
  then show ?thesis using assms by (simp add: store_word_def put_byte_def list_update_append word_bytes_def)
qed

lemma colon_no_digit: "xdigit CHR '':'' = None" "xdigit CHR ''.'' = None"
  by (simp_all add: xdigit_def index_of_def)

lemma pton6_word_colon:
  assumes "w < 2 ^ 16" "length bs + 2 \<le> 16" "s \<noteq> []"
  shows "pton6_loop (word_text w @ CHR '':'' # s) curtok (locals_at bs c) = pton6_loop s s (locals_at (bs @ word_bytes [w]) c)"
proof -
  let ?l = "(locals_at bs c)\<lparr>p6_val := w, p6_seen := length (word_text w)\<rparr>"
  have "p6_seen ?l \<noteq> 0" using word_text_length(2) [of w] by simp
  moreover have "store_word (p6_tmp ?l) (p6_tp ?l) (p6_val ?l) = Some (p6_tmp (locals_at (bs @ word_bytes [w]) c))"
    using store_word_at [OF assms(2)] by (simp add: locals_at_def)
  ultimately have "pton6_loop (CHR '':'' # s) curtok ?l = pton6_loop s s
      (?l\<lparr>p6_tmp := p6_tmp (locals_at (bs @ word_bytes [w]) c), p6_tp := p6_tp ?l + 2, p6_seen := 0, p6_val := 0\<rparr>)"
    using assms(2,3) by (simp add: colon_no_digit) (simp add: locals_at_def)
  also have "\<dots> = pton6_loop s s (locals_at (bs @ word_bytes [w]) c)" by (simp add: locals_at_def word_bytes_def)
  finally show ?thesis by (simp only: pton6_word [OF assms(1)])
qed

lemma word_bytes_simps: "word_bytes [] = []" "word_bytes (w # ws) = word_bytes [w] @ word_bytes ws"
  "word_bytes (us @ ws) = word_bytes us @ word_bytes ws" "length (word_bytes ws) = 2 * length ws"
proof -
  show "length (word_bytes ws) = 2 * length ws" by (induction ws) (simp_all add: word_bytes_def)
qed (simp_all add: word_bytes_def)

lemma pton6_words_colon:
  assumes "\<forall>w \<in> set ws. w < 2 ^ 16" "length bs + 2 * length ws \<le> 16" "s \<noteq> []"
  shows "pton6_loop (concat (map (\<lambda>w. word_text w @ '':'') ws) @ s) curtok (locals_at bs c) =
    pton6_loop s (if ws = [] then curtok else s) (locals_at (bs @ word_bytes ws) c)"
  using assms(1,2)
proof (induction ws arbitrary: bs curtok)
  case Nil
  then show ?case by (simp add: word_bytes_simps(1))
next
  case (Cons w ws)
  let ?s = "concat (map (\<lambda>w. word_text w @ '':'') ws) @ s"
  have "pton6_loop (concat (map (\<lambda>w. word_text w @ '':'') (w # ws)) @ s) curtok (locals_at bs c) =
      pton6_loop (word_text w @ CHR '':'' # ?s) curtok (locals_at bs c)" by (simp del: pton6_loop.simps)
  also have "\<dots> = pton6_loop ?s ?s (locals_at (bs @ word_bytes [w]) c)"
    using Cons.prems assms(3) by (intro pton6_word_colon) simp_all
  also have "\<dots> = pton6_loop s (if ws = [] then ?s else s) (locals_at ((bs @ word_bytes [w]) @ word_bytes ws) c)"
    by (rule Cons.IH) (use Cons.prems in \<open>simp_all add: word_bytes_simps(4)\<close>)
  finally show ?case using word_text_length(2) by (simp add: word_bytes_simps(2) [of w ws] del: pton6_loop.simps)
qed

text \<open>Words with colons between them.\<close>

fun words_text :: "u32 list \<Rightarrow> string" where
  "words_text [] = []"
| "words_text [w] = word_text w"
| "words_text (w # ws) = word_text w @ CHR '':'' # words_text ws"

lemma words_text_nonempty: "ws \<noteq> [] \<Longrightarrow> words_text ws \<noteq> []"
  using word_text_length(2) by (cases ws rule: words_text.cases) simp_all

lemma finish_word:
  assumes "length bs + 2 \<le> 16" "w < 2 ^ 16"
  shows "pton6_finish ((locals_at bs c)\<lparr>p6_val := w, p6_seen := length (word_text w)\<rparr>) = pton6_finish (locals_at (bs @ word_bytes [w]) c)"
  using store_word_at [OF assms(1), of w] assms(1) word_text_length(2) [of w]
  by (simp add: pton6_finish_def locals_at_def word_bytes_simps(4))

definition finished :: "(int + pton6_locals) option \<Rightarrow> (int + byte list) option" where
  "finished r = do { r \<leftarrow> r; case r of Inl err \<Rightarrow> Some (Inl err) | Inr l \<Rightarrow> pton6_finish l }"

lemma pton6_words:
  assumes "\<forall>w \<in> set ws. w < 2 ^ 16" "length bs + 2 * length ws \<le> 16"
  shows "finished (pton6_loop (words_text ws) curtok (locals_at bs c)) = pton6_finish (locals_at (bs @ word_bytes ws) c)"
  using assms
proof (induction ws arbitrary: bs curtok rule: words_text.induct)
  case 1
  then show ?case by (simp add: finished_def word_bytes_simps(1))
next
  case (2 w)
  have "pton6_loop (word_text w @ []) curtok (locals_at bs c) = Some (Inr ((locals_at bs c)\<lparr>p6_val := w, p6_seen := length (word_text w)\<rparr>))"
    using pton6_word [of w "[]" curtok bs c] 2 by simp
  then show ?case using finish_word [of bs w c] 2 by (simp add: finished_def)
next
  case (3 w v ws)
  have "pton6_loop (word_text w @ CHR '':'' # words_text (v # ws)) curtok (locals_at bs c) =
      pton6_loop (words_text (v # ws)) (words_text (v # ws)) (locals_at (bs @ word_bytes [w]) c)"
    using "3.prems" words_text_nonempty by (intro pton6_word_colon) simp_all
  then show ?case using "3.IH" [of "bs @ word_bytes [w]"] "3.prems" by (simp add: word_bytes_simps(2) [of w "v # ws"] word_bytes_simps(4))
qed

section \<open>The compressed form\<close>

lemma pton6_digits:
  assumes "\<forall>c \<in> set t. \<exists>k < 16. c = digit_char k" "length t + p6_seen l \<le> 4"
  shows "\<exists>v. pton6_loop (t @ s) curtok l = pton6_loop s curtok (l\<lparr>p6_val := v, p6_seen := p6_seen l + length t\<rparr>)"
  using assms
proof (induction t arbitrary: l)
  case Nil
  show ?case by (intro exI [of _ "p6_val l"]) simp
next
  case (Cons c t)
  obtain k where k: "k < 16" "c = digit_char k" using Cons.prems(1) by auto
  let ?l = "l\<lparr>p6_val := p6_val l * 16 + of_nat k, p6_seen := p6_seen l + 1\<rparr>"
  obtain v where "pton6_loop (t @ s) curtok ?l = pton6_loop s curtok (?l\<lparr>p6_val := v, p6_seen := p6_seen ?l + length t\<rparr>)"
    using Cons.IH [of ?l] Cons.prems by auto
  moreover have "pton6_loop ((c # t) @ s) curtok l = pton6_loop (t @ s) curtok ?l"
    using pton6_digit [OF k(1), of l "t @ s" curtok] Cons.prems(2) k(2) by (simp del: pton6_loop.simps)
  ultimately show ?case by (intro exI [of _ v]) (simp del: pton6_loop.simps)
qed

text \<open>The bytes of an embedded IPv4 address are stored as they are.\<close>

lemma octet_hex_digits: "\<forall>c \<in> set (octet_text b). \<exists>k < 16. c = digit_char k"
proof
  fix c assume "c \<in> set (octet_text b)"
  from octet_text_facts(3) [OF this] obtain k where "k < 10" "c = digit_char k" by blast
  then show "\<exists>k < 16. c = digit_char k" by (intro exI [of _ k]) simp
qed

lemma pton6_dot:
  assumes "inet_pton4 curtok = Some (Inr v4)" "p6_tp l + 4 \<le> 16"
  shows "pton6_loop (CHR ''.'' # s) curtok l =
    Some (Inr (l\<lparr>p6_tmp := take (p6_tp l) (p6_tmp l) @ v4 @ drop (p6_tp l + 4) (p6_tmp l), p6_tp := p6_tp l + 4, p6_seen := 0\<rparr>))"
  using assms by (simp add: colon_no_digit)

lemma pton6_dotted:
  assumes "length v4 = 4" "length bs + 4 \<le> 16"
  shows "finished (pton6_loop (dotted v4) (dotted v4) (locals_at bs c)) = pton6_finish (locals_at (bs @ v4) c)"
proof -
  obtain rest where d: "dotted v4 = octet_text (v4 ! 0) @ CHR ''.'' # rest" by (metis dotted_octets)
  have "length (octet_text (v4 ! 0)) + p6_seen (locals_at bs c) \<le> 4"
    using octet_text_facts(2) [of "v4 ! 0"] by (simp add: locals_at_def)
  from pton6_digits [OF octet_hex_digits this, of "CHR ''.'' # rest" "dotted v4"]
  obtain v n where v: "pton6_loop (dotted v4) (dotted v4) (locals_at bs c) =
      pton6_loop (CHR ''.'' # rest) (dotted v4) ((locals_at bs c)\<lparr>p6_val := v, p6_seen := n\<rparr>)"
    unfolding d by blast
  have "pton6_loop (dotted v4) (dotted v4) (locals_at bs c) = Some (Inr ((locals_at (bs @ v4) c)\<lparr>p6_val := v\<rparr>))"
    unfolding v using assms by (subst pton6_dot [OF pton4_complete [OF assms(1)]]) (simp_all add: locals_at_def)
  then show ?thesis by (simp add: finished_def pton6_finish_def locals_at_def)
qed

lemma shift_loop_moves:
  assumes "length pre + length as + Suc g + length moved = 16" "c = length pre" "n = length as + length moved" "i = Suc (length moved)"
  shows "shift_loop (pre @ as @ replicate (Suc g) 0 @ moved) c n i = Some (pre @ replicate (Suc g) 0 @ as @ moved)"
  using assms
proof (induction as arbitrary: moved i rule: rev_induct)
  case Nil
  then show ?case by (subst shift_loop.simps) simp
next
  case (snoc b as)
  let ?tmp = "pre @ (as @ [b]) @ replicate (Suc g) 0 @ moved"
  have at: "c + n - i = length (pre @ as)" "16 - i = length (pre @ as @ [b] @ replicate g 0)" using snoc.prems by simp_all
  have shape: "?tmp = (pre @ as) @ b # (replicate g 0 @ 0 # moved)" by (simp add: replicate_append_same [symmetric])
  have "get_byte ?tmp (c + n - i) = Some b" unfolding at shape get_byte_def by (simp add: nth_append)
  moreover have "put_byte ?tmp (16 - i) b = Some ((pre @ as) @ b # (replicate g 0 @ b # moved))"
    unfolding at shape put_byte_def by (simp add: list_update_append)
  moreover have "put_byte ((pre @ as) @ b # (replicate g 0 @ b # moved)) (c + n - i) 0 =
      Some (pre @ as @ replicate (Suc g) 0 @ (b # moved))"
    unfolding at put_byte_def by (simp add: list_update_append)
  moreover have "shift_loop (pre @ as @ replicate (Suc g) 0 @ (b # moved)) c n (i + 1) = Some (pre @ replicate (Suc g) 0 @ as @ (b # moved))"
    using snoc.prems by (intro snoc.IH) simp_all
  moreover have "i \<le> n" using snoc.prems by simp
  ultimately show ?case by (subst shift_loop.simps) (simp del: shift_loop.simps)
qed

lemma finish_compressed:
  assumes "length pre + length suf + Suc g = 16"
  shows "pton6_finish (locals_at (pre @ suf) (Some (length pre))) = Some (Inr (pre @ replicate (Suc g) 0 @ suf))"
proof -
  have "shift_loop (pre @ suf @ replicate (Suc g) 0 @ []) (length pre) (length suf) 1 = Some (pre @ replicate (Suc g) 0 @ suf @ [])"
    using assms by (intro shift_loop_moves) simp_all
  moreover have "16 - (length pre + length suf) = Suc g" using assms by simp
  ultimately show ?thesis using assms by (simp add: pton6_finish_def locals_at_def)
qed

lemma start_text: "c \<noteq> CHR '':'' \<Longrightarrow> (case c # s of CHR '':'' # s \<Rightarrow> s | _ \<Rightarrow> c # s) = c # s"
  by (auto split: char.splits bool.splits)

lemma digit_no_colon: "k < 16 \<Longrightarrow> digit_char k \<noteq> CHR '':'' \<and> digit_char k \<noteq> CHR ''.''"
  using digit_char_facts [of k] colon_no_digit by (intro conjI notI) simp_all

lemma inet_pton6_digit:
  assumes "s \<noteq> []" "hd s \<noteq> CHR '':''"
  shows "inet_pton6 s = finished (pton6_loop s s (locals_at [] None))"
proof -
  obtain c r where s: "s = c # r" "c \<noteq> CHR '':''" using assms by (cases s) simp_all
  show ?thesis unfolding inet_pton6_def s(1) start_text [OF s(2)] finished_def locals_at_def Let_def using s(2) by (simp del: pton6_loop.simps)
qed

lemma word_text_hd: "word_text w = c # r \<Longrightarrow> c \<noteq> CHR '':''"
  using hexadecimal_digits [of c "unat w"] digit_no_colon by (auto simp: word_text_def)

text \<open>The words before a \<open>::\<close>, with its first colon.\<close>

definition head_text :: "u32 list \<Rightarrow> string" where
  "head_text ws = (if ws = [] then '':'' else concat (map (\<lambda>w. word_text w @ '':'') ws))"

lemma locals_colon:
  "pton6_loop (CHR '':'' # t) curtok (locals_at bs None) = pton6_loop t t (locals_at bs (Some (length bs)))"
  by (simp add: colon_no_digit locals_at_def)

lemma pton6_compressed:
  assumes "\<forall>w \<in> set ws. w < 2 ^ 16" "2 * length ws \<le> 16"
  shows "inet_pton6 (head_text ws @ CHR '':'' # t) = finished (pton6_loop t t (locals_at (word_bytes ws) (Some (length (word_bytes ws)))))"
proof (cases ws)
  case Nil
  have "inet_pton6 (head_text ws @ CHR '':'' # t) = finished (pton6_loop (CHR '':'' # t) (CHR '':'' # t) (locals_at [] None))"
    unfolding Nil by (simp add: head_text_def inet_pton6_def finished_def locals_at_def Let_def del: pton6_loop.simps)
  then show ?thesis unfolding Nil locals_colon by (simp add: word_bytes_simps(1))
next
  case (Cons w vs)
  let ?s = "concat (map (\<lambda>w. word_text w @ '':'') ws) @ CHR '':'' # t"
  obtain c r where c: "word_text w = c # r" using word_text_length(2) by (cases "word_text w") auto
  have s: "?s \<noteq> []" "hd ?s \<noteq> CHR '':''" using word_text_hd [OF c] by (simp_all add: Cons c)
  have "pton6_loop ?s ?s (locals_at [] None) = pton6_loop (CHR '':'' # t) (CHR '':'' # t) (locals_at (word_bytes ws) None)"
    using pton6_words_colon [OF assms(1), of "[]" "CHR '':'' # t" ?s None] assms(2) by (simp add: Cons del: pton6_loop.simps)
  then show ?thesis using inet_pton6_digit [OF s] by (simp add: head_text_def Cons locals_colon del: pton6_loop.simps)
qed

lemma pton6_two_parts:
  assumes "\<forall>w \<in> set (us @ vs). w < 2 ^ 16" "length us + length vs + Suc g = 8"
  shows "inet_pton6 (head_text us @ CHR '':'' # words_text vs) = Some (Inr (word_bytes (us @ replicate (Suc g) 0 @ vs)))"
proof -
  have zeros: "word_bytes (replicate k 0) = replicate (2 * k) 0" for k by (induction k) (simp_all add: word_bytes_def)
  have "inet_pton6 (head_text us @ CHR '':'' # words_text vs) =
      pton6_finish (locals_at (word_bytes us @ word_bytes vs) (Some (length (word_bytes us))))"
    using assms by (subst pton6_compressed) (simp_all add: pton6_words word_bytes_simps(4) del: pton6_loop.simps)
  also have "\<dots> = Some (Inr (word_bytes us @ replicate (Suc (2 * g + 1)) 0 @ word_bytes vs))"
    using assms(2) by (intro finish_compressed) (simp add: word_bytes_simps(4))
  also have "replicate (Suc (2 * g + 1)) 0 = word_bytes (replicate (Suc g) 0)" unfolding zeros by simp
  finally show ?thesis by (simp only: word_bytes_simps(3))
qed

lemma pton6_eight_words:
  assumes "\<forall>w \<in> set ws. w < 2 ^ 16" "length ws = 8"
  shows "inet_pton6 (words_text ws) = Some (Inr (word_bytes ws))"
proof -
  obtain w v us where ws: "ws = w # v # us" using assms(2) by (auto simp: length_Suc_conv numeral_eq_Suc)
  obtain c r where c: "word_text w = c # r" using word_text_length(2) by (cases "word_text w") auto
  have "inet_pton6 (words_text ws) = finished (pton6_loop (words_text ws) (words_text ws) (locals_at [] None))"
    using word_text_hd [OF c] by (intro inet_pton6_digit) (simp_all add: ws c)
  also have "\<dots> = pton6_finish (locals_at ([] @ word_bytes ws) None)" using assms by (intro pton6_words) simp_all
  finally show ?thesis using assms(2) by (simp add: pton6_finish_def locals_at_def word_bytes_simps(4))
qed

text \<open>An IPv4 address in the last four bytes, behind \<open>::\<close> or \<open>::ffff:\<close>.\<close>

lemma pton6_embedded:
  assumes "length v4 = 4"
  shows "inet_pton6 (CHR '':'' # CHR '':'' # dotted v4) = Some (Inr (replicate 12 0 @ v4))" (is ?A)
    "inet_pton6 (CHR '':'' # CHR '':'' # word_text 0xffff @ CHR '':'' # dotted v4) = Some (Inr (replicate 10 0 @ word_bytes [0xffff] @ v4))" (is ?B)
proof -
  have colons: "inet_pton6 (CHR '':'' # CHR '':'' # t) = finished (pton6_loop t t (locals_at [] (Some 0)))" for t
    using pton6_compressed [of "[]" t] by (simp add: head_text_def word_bytes_simps(1) del: pton6_loop.simps)
  have "pton6_finish (locals_at v4 (Some 0)) = Some (Inr (replicate 12 0 @ v4))"
    using assms finish_compressed [of "[]" v4 11] by simp
  then show ?A using pton6_dotted [OF assms, of "[]" "Some 0"] by (simp add: colons del: pton6_loop.simps)
  let ?f = "word_bytes [0xffff]"
  have "dotted v4 \<noteq> []" using dotted_facts(2) [of v4] by auto
  then have "pton6_loop (word_text 0xffff @ CHR '':'' # dotted v4) (word_text 0xffff @ CHR '':'' # dotted v4) (locals_at [] (Some 0)) =
      pton6_loop (dotted v4) (dotted v4) (locals_at ?f (Some 0))"
    by (subst pton6_word_colon) simp_all
  moreover have "finished (pton6_loop (dotted v4) (dotted v4) (locals_at ?f (Some 0))) = pton6_finish (locals_at (?f @ v4) (Some 0))"
    by (intro pton6_dotted assms) (simp add: word_bytes_simps(4))
  moreover have "pton6_finish (locals_at (?f @ v4) (Some 0)) = Some (Inr (replicate 10 0 @ ?f @ v4))"
    using assms finish_compressed [of "[]" "?f @ v4" 9] by (simp add: word_bytes_simps(4))
  ultimately show ?B by (simp add: colons del: pton6_loop.simps)
qed

section \<open>Writing IPv6 addresses\<close>

text \<open>A run of zero words below \<open>n\<close>.\<close>

definition zero_run_at :: "u32 list \<Rightarrow> int \<Rightarrow> zero_run \<Rightarrow> bool" where
  "zero_run_at words n r \<longleftrightarrow> fst r = - 1 \<or>
     0 \<le> fst r \<and> 1 \<le> snd r \<and> fst r + snd r \<le> n \<and> (\<forall>k. fst r \<le> int k \<and> int k < fst r + snd r \<longrightarrow> words ! k = 0)"

lemma better_run_cases: "better_run best cur \<in> {best, cur}"
  by (simp add: better_run_def)

lemma zero_run_at_mono: "zero_run_at words n r \<Longrightarrow> n \<le> m \<Longrightarrow> zero_run_at words m r"
  by (auto simp: zero_run_at_def)

lemma scan_words_runs:
  assumes "words = us @ ws" "zero_run_at words (int (length us)) best" "zero_run_at words (int (length us)) cur"
    "fst cur \<noteq> - 1 \<Longrightarrow> fst cur + snd cur = int (length us)" "scan_words ws (int (length us)) best cur = (best', cur')"
  shows "zero_run_at words (int (length words)) best' \<and> zero_run_at words (int (length words)) cur'"
  using assms
proof (induction ws arbitrary: us best cur)
  case Nil
  then show ?case by simp
next
  case (Cons w ws)
  let ?i = "length us" and ?us = "us @ [w]"
  have step: "zero_run_at words (int (length words)) best' \<and> zero_run_at words (int (length words)) cur'"
    if "zero_run_at words (int ?i + 1) b" "zero_run_at words (int ?i + 1) c" "fst c \<noteq> - 1 \<Longrightarrow> fst c + snd c = int ?i + 1"
      "scan_words ws (int ?i + 1) b c = (best', cur')" for b c
  proof (rule Cons.IH [of ?us b c])
    have i1: "int (length ?us) = int ?i + 1" by simp
    show "words = ?us @ ws" using Cons.prems(1) by simp
    show "zero_run_at words (int (length ?us)) b" "zero_run_at words (int (length ?us)) c" unfolding i1 by (fact that)+
    show "fst c + snd c = int (length ?us)" if "fst c \<noteq> - 1" unfolding i1 using \<open>fst c \<noteq> - 1 \<Longrightarrow> _\<close> that .
    show "scan_words ws (int (length ?us)) b c = (best', cur')" unfolding i1 by (fact that(4))
  qed
  have w: "w = words ! ?i" using Cons.prems(1) by simp
  have grow: "zero_run_at words (int ?i + 1) best" "zero_run_at words (int ?i + 1) cur"
    using Cons.prems(2,3) zero_run_at_mono by auto
  show ?case
  proof (cases "w = 0"; cases "fst cur = - 1")
    assume z: "w = 0" "fst cur = - 1"
    then have "zero_run_at words (int ?i + 1) (int ?i, 1)" using w by (auto simp: zero_run_at_def)
    then show ?thesis using z Cons.prems(5) by (intro step [OF grow(1)]) simp_all
  next
    assume z: "w = 0" "fst cur \<noteq> - 1"
    have "words ! k = 0" if "fst cur \<le> int k" "int k < fst cur + (snd cur + 1)" for k
    proof (cases "k = ?i")
      case False
      then have "int k < fst cur + snd cur" using that Cons.prems(4) z(2) by simp
      then show ?thesis using that Cons.prems(3) z(2) by (simp add: zero_run_at_def)
    qed (use z w in simp)
    then have "zero_run_at words (int ?i + 1) (fst cur, snd cur + 1)"
      using z(2) Cons.prems(3,4) by (auto simp: zero_run_at_def)
    then show ?thesis using z Cons.prems(4,5) by (intro step [OF grow(1)]) simp_all
  next
    assume z: "w \<noteq> 0" "fst cur = - 1"
    then show ?thesis using Cons.prems(5) by (intro step [OF grow]) simp_all
  next
    assume z: "w \<noteq> 0" "fst cur \<noteq> - 1"
    have "zero_run_at words (int ?i + 1) (better_run best cur)" using grow by (simp add: better_run_def)
    moreover have "zero_run_at words (int ?i + 1) (- 1, snd cur)" by (simp add: zero_run_at_def)
    ultimately show ?thesis using z Cons.prems(5) by (intro step [of "better_run best cur" "(- 1, snd cur)"]) simp_all
  qed
qed

lemma best_run_zero:
  assumes "length words = 8" "best_run words = (b, l)" "b \<noteq> - 1"
  obtains n m where "b = int n" "l = int m" "2 \<le> m" "n + m \<le> 8" "\<forall>k. n \<le> k \<and> k < n + m \<longrightarrow> words ! k = 0"
proof -
  obtain best cur where scan: "scan_words words 0 (- 1, 0) (- 1, 0) = (best, cur)" by (cases "scan_words words 0 (- 1, 0) (- 1, 0)")
  have "zero_run_at words 8 best \<and> zero_run_at words 8 cur"
    using scan_words_runs [of words "[]" words "(- 1, 0)" "(- 1, 0)" best cur] scan assms(1) by (simp add: zero_run_at_def)
  then have "zero_run_at words 8 (if fst cur \<noteq> - 1 then better_run best cur else best)" by (simp add: better_run_def)
  moreover have "2 \<le> l" "(if fst cur \<noteq> - 1 then better_run best cur else best) = (b, l)"
    using assms(2,3) scan by (auto simp: best_run_def Let_def split: if_splits)
  ultimately have r: "0 \<le> b" "2 \<le> l" "b + l \<le> 8" "\<forall>k. b \<le> int k \<and> int k < b + l \<longrightarrow> words ! k = 0"
    using assms(3) by (simp_all add: zero_run_at_def)
  show ?thesis
  proof (rule that)
    show "b = int (nat b)" "l = int (nat l)" "2 \<le> nat l" "nat b + nat l \<le> 8" using r(1-3) by simp_all
    show "\<forall>k. nat b \<le> k \<and> k < nat b + nat l \<longrightarrow> words ! k = 0"
    proof (intro allI impI)
      fix k assume "nat b \<le> k \<and> k < nat b + nat l"
      then have "b \<le> int k" "int k < b + l" using r(1,2) by linarith+
      then show "words ! k = 0" using r(4) by simp
    qed
  qed
qed

declare format_loop.simps [simp del]

text \<open>The words from \<open>i\<close> to \<open>j\<close>, each with a colon before it except the first of all.\<close>

definition segment_text :: "u32 list \<Rightarrow> nat \<Rightarrow> nat \<Rightarrow> string" where
  "segment_text words i j = concat (map (\<lambda>k. (if k = 0 then [] else '':'') @ word_text (words ! k)) [i..<j])"

definition in_run :: "zero_run \<Rightarrow> nat \<Rightarrow> bool" where
  "in_run best i \<longleftrightarrow> fst best \<noteq> - 1 \<and> fst best \<le> int i \<and> int i < fst best + snd best"

definition v4_tail :: "u32 list \<Rightarrow> zero_run \<Rightarrow> bool" where
  "v4_tail words best \<longleftrightarrow> fst best = 0 \<and> (snd best = 6 \<or> snd best = 7 \<and> words ! 7 \<noteq> 0x0001 \<or> snd best = 5 \<and> words ! 5 = 0xffff)"

lemma format_loop_word:
  assumes "i < 8" "\<not> in_run best i" "\<not> (i = 6 \<and> v4_tail words best)" "words ! i < 2 ^ 16" "length tmp \<le> 5 * i"
  shows "format_loop src words best i tmp = format_loop src words best (i + 1) (tmp @ (if i = 0 then [] else '':'') @ word_text (words ! i))
    \<and> length (tmp @ (if i = 0 then [] else '':'') @ word_text (words ! i)) \<le> 5 * (i + 1)"
proof -
  let ?p = "if i = 0 then [] else '':''" and ?t = "word_text (words ! i)"
  have len: "length ?t \<le> 4" using word_text_length(1) [OF assms(4)] .
  have colon: "(if i \<noteq> 0 then emit tmp CHR '':'' else Some tmp) = Some (tmp @ ?p)"
    using assms(1,5) by (simp add: emit_def UV__INET6_ADDRSTRLEN_def)
  have digits: "emit_text (tmp @ ?p) (hexadecimal (unat (words ! i))) = Some (tmp @ ?p @ ?t)"
    using assms(1,5) len by (cases "i = 0") (simp_all add: emit_text_def UV__INET6_ADDRSTRLEN_def word_text_def)
  have "format_loop src words best i tmp = format_loop src words best (i + 1) (tmp @ ?p @ ?t)"
    using assms(1-3) unfolding in_run_def v4_tail_def by (subst format_loop.simps) (simp only: colon digits bind.bind_lunit if_False simp_thms not_less [symmetric])
  moreover have "length (tmp @ ?p @ ?t) \<le> 5 * (i + 1)" using assms(5) len by (cases "i = 0") simp_all
  ultimately show ?thesis ..
qed

lemma format_segment:
  assumes "i \<le> j" "j \<le> 8" "\<forall>k. i \<le> k \<and> k < j \<longrightarrow> \<not> in_run best k \<and> \<not> (k = 6 \<and> v4_tail words best)"
    "\<forall>k < 8. words ! k < 2 ^ 16" "length tmp \<le> 5 * i"
  shows "format_loop src words best i tmp = format_loop src words best j (tmp @ segment_text words i j) \<and>
    length (tmp @ segment_text words i j) \<le> 5 * j"
  using assms(1-3)
proof (induction j rule: dec_induct)
  case base
  then show ?case using assms(5) by (simp add: segment_text_def)
next
  case (step j)
  let ?tmp = "tmp @ segment_text words i j"
  have IH: "format_loop src words best i tmp = format_loop src words best j ?tmp" "length ?tmp \<le> 5 * j"
    using step.IH step.prems by simp_all
  have s: "segment_text words i (Suc j) = segment_text words i j @ (if j = 0 then [] else '':'') @ word_text (words ! j)"
    using step.hyps(1) by (simp add: segment_text_def)
  have "\<not> in_run best j \<and> \<not> (j = 6 \<and> v4_tail words best)" using spec [OF step.prems(2), of j] step.hyps by simp
  then have "j < 8" "\<not> in_run best j" "\<not> (j = 6 \<and> v4_tail words best)" "words ! j < 2 ^ 16" using step.prems(1) assms(4) by simp_all
  from format_loop_word [OF this IH(2), of src] show ?case unfolding IH(1) s by simp
qed

lemma format_run_rest:
  assumes "n < i" "i \<le> n + m" "n + m \<le> 8"
  shows "format_loop src words (int n, int m) i tmp = format_loop src words (int n, int m) (n + m) tmp"
  using assms(2,1)
proof (induction i rule: inc_induct)
  case (step i)
  have "format_loop src words (int n, int m) i tmp = format_loop src words (int n, int m) (i + 1) tmp"
    using step.hyps step.prems assms(3) by (subst format_loop.simps) simp
  then show ?case using step.IH step.prems by simp
qed simp

lemma format_run:
  assumes "1 \<le> m" "n + m \<le> 8" "length tmp < 46"
  shows "format_loop src words (int n, int m) n tmp = format_loop src words (int n, int m) (n + m) (tmp @ '':'')"
proof -
  have "format_loop src words (int n, int m) n tmp = format_loop src words (int n, int m) (n + 1) (tmp @ '':'')"
    using assms by (subst format_loop.simps) (simp add: emit_def UV__INET6_ADDRSTRLEN_def)
  then show ?thesis using format_run_rest [of n "n + 1" m src words "tmp @ '':''"] assms by simp
qed

text \<open>The embedded IPv4 address ends the text.\<close>

lemma format_v4:
  assumes "v4_tail words best" "\<not> in_run best 6" "length tmp \<le> 20"
  shows "format_loop src words best 6 tmp = Some (Inr (tmp @ '':'' @ dotted (drop 12 src)))"
proof -
  have "16 \<le> 46 - length (tmp @ '':'')" using assms(3) by simp
  from ntop4_text [OF this, of "replicate (46 - length (tmp @ '':'')) NUL" "drop 12 src"]
  obtain d' where d': "inet_ntop4 (drop 12 src) (replicate (46 - length (tmp @ '':'')) NUL) (46 - length (tmp @ '':'')) = Some (0, d')"
    "c_string d' = dotted (drop 12 src)" by auto
  then show ?thesis using assms
    by (subst format_loop.simps) (simp add: in_run_def v4_tail_def emit_def UV__INET6_ADDRSTRLEN_def c_string_def)
qed

lemma format_end: "format_loop src words best 8 tmp = Some (Inr tmp)"
  by (subst format_loop.simps) simp

lemma words_text_snoc: "words_text (ws @ [w]) = (if ws = [] then [] else words_text ws @ '':'') @ word_text w"
  by (induction ws rule: words_text.induct) simp_all

lemma head_words_text: "ws \<noteq> [] \<Longrightarrow> head_text ws = words_text ws @ '':''"
  unfolding head_text_def by (induction ws rule: words_text.induct) simp_all

lemma tail_words_text: "vs \<noteq> [] \<Longrightarrow> concat (map (\<lambda>w. '':'' @ word_text w) vs) = CHR '':'' # words_text vs"
  by (induction vs rule: words_text.induct) simp_all

lemma segment_from_start: "j \<le> length words \<Longrightarrow> segment_text words 0 j = words_text (take j words)"
proof (induction j)
  case (Suc j)
  then have "segment_text words 0 (Suc j) = words_text (take j words) @ (if j = 0 then [] else '':'') @ word_text (words ! j)"
    by (simp add: segment_text_def)
  moreover have "words \<noteq> []" using Suc.prems by auto
  ultimately show ?case using Suc.prems words_text_snoc [of "take j words" "words ! j"] by (simp add: take_Suc_conv_app_nth)
qed (simp add: segment_text_def)

lemma segment_to_end:
  assumes "0 < i" "i < length words"
  shows "segment_text words i (length words) = CHR '':'' # words_text (drop i words)"
proof -
  have "drop i words = map (\<lambda>k. words ! k) [i..<length words]" by (rule nth_equalityI) simp_all
  then have d: "concat (map (\<lambda>w. '':'' @ word_text w) (drop i words)) = concat (map (\<lambda>k. '':'' @ word_text (words ! k)) [i..<length words])"
    by (simp add: comp_def)
  also have "\<dots> = segment_text words i (length words)" unfolding segment_text_def
    using assms(1) by (intro arg_cong [where f = concat] map_cong) simp_all
  finally show ?thesis using tail_words_text [of "drop i words"] assms(2) by simp
qed

definition plain :: "string \<Rightarrow> bool" where
  "plain s \<longleftrightarrow> NUL \<notin> set s \<and> CHR ''%'' \<notin> set s"

lemma plain_append: "plain (s @ t) \<longleftrightarrow> plain s \<and> plain t" "plain [] " "plain '':''"
    "plain (CHR '':'' # s) \<longleftrightarrow> plain s"
  by (auto simp: plain_def)

lemma plain_word: "plain (word_text w)"
proof -
  have "c \<noteq> NUL \<and> c \<noteq> CHR ''%''" if c: "c \<in> set (word_text w)" for c
  proof -
    obtain k where "k < 16" "c = digit_char k" using hexadecimal_digits [OF c [unfolded word_text_def]] by blast
    then show ?thesis using digit_char_facts [of k] by simp
  qed
  then show ?thesis by (auto simp: plain_def)
qed

lemma plain_concat: "(\<And>k. plain (f k)) \<Longrightarrow> plain (concat (map f ks))"
  by (induction ks) (simp_all add: plain_append)

lemma plain_segment: "plain (segment_text words i j)"
  unfolding segment_text_def by (intro plain_concat) (simp add: plain_append plain_word)

definition join_bytes :: "byte \<Rightarrow> byte \<Rightarrow> u32" where
  "join_bytes a b = push_bit 8 (ucast a) OR ucast b"

lemma join_bytes: "ucast (drop_bit 8 (join_bytes a b)) = a" "ucast (join_bytes a b) = b" "join_bytes a b < 2 ^ 16"
proof -
  show "ucast (drop_bit 8 (join_bytes a b)) = a" "ucast (join_bytes a b) = b"
    unfolding join_bytes_def by (rule bit_word_eqI; auto simp: bit_simps dest: bit_imp_le_length)+
  have top: "n < 16" if "bit (join_bytes a b) n" for n
  proof -
    have "bit a (n - 8) \<or> bit b n" using that by (auto simp: join_bytes_def bit_simps)
    then have "n - 8 < 8 \<or> n < 8" using bit_imp_le_length [of a "n - 8"] bit_imp_le_length [of b n] by auto
    then show ?thesis by auto
  qed
  have "take_bit 16 (join_bytes a b) = join_bytes a b"
    by (rule bit_word_eqI) (auto simp: bit_take_bit_iff dest: top)
  moreover have "take_bit 16 (join_bytes a b) < 2 ^ 16"
    unfolding word_less_nat_alt unsigned_take_bit_eq using take_bit_nat_less_exp [of 16 "unat (join_bytes a b)"] by simp
  ultimately show "join_bytes a b < 2 ^ 16" by simp
qed

lemma words_of_facts:
  assumes "length src = 16"
  shows "word_bytes (words_of src) = src" "length (words_of src) = 8" "\<forall>w \<in> set (words_of src). w < 2 ^ 16"
proof -
  have "words_of src = map (\<lambda>i. join_bytes (src ! (2 * i)) (src ! (2 * i + 1))) [0..<8]" by (simp add: words_of_def join_bytes_def)
  moreover have "[0..<8] = [0, 1, 2, 3, 4, 5, 6, 7]" by (simp add: upt_rec)
  moreover obtain a0 a1 a2 a3 a4 a5 a6 a7 a8 a9 b0 b1 b2 b3 b4 b5 where
    "src = [a0, a1, a2, a3, a4, a5, a6, a7, a8, a9, b0, b1, b2, b3, b4, b5]"
    using assms by (auto simp: length_Suc_conv numeral_eq_Suc)
  ultimately show "word_bytes (words_of src) = src" "length (words_of src) = 8" "\<forall>w \<in> set (words_of src). w < 2 ^ 16"
    by (simp_all add: word_bytes_def join_bytes join_bytes(3) [simplified])
qed

section \<open>Round trips\<close>

definition writes :: "byte list \<Rightarrow> zero_run \<Rightarrow> string \<Rightarrow> bool" where
  "writes src best t \<longleftrightarrow> (\<exists>tmp. format_loop src (words_of src) best 0 [] = Some (Inr tmp) \<and>
     t = tmp @ (if fst best \<noteq> - 1 \<and> fst best + snd best = 8 then '':'' else []) \<and>
     length t \<le> 45 \<and> plain t \<and> inet_pton6 t = Some (Inr src))"

lemma writes_words:
  assumes "length src = 16"
  shows "writes src (- 1, l) (words_text (words_of src))"
proof -
  note w = words_of_facts [OF assms]
  have lt: "\<forall>k < 8. words_of src ! k < 2 ^ 16" using w(2,3) by simp
  have text_eq: "segment_text (words_of src) 0 8 = words_text (words_of src)"
    using segment_from_start [of 8 "words_of src"] w(2) by simp
  have "format_loop src (words_of src) (- 1, l) 0 [] = Some (Inr (words_text (words_of src))) \<and> length (words_text (words_of src)) \<le> 40"
    using format_segment [of 0 8 "(- 1, l)" "words_of src" "[]" src] lt text_eq by (simp add: in_run_def v4_tail_def format_end)
  moreover have "plain (words_text (words_of src))" using plain_segment [of "words_of src" 0 8] unfolding text_eq .
  moreover have "inet_pton6 (words_text (words_of src)) = Some (Inr src)" using pton6_eight_words [OF w(3,2)] w(1) by simp
  ultimately show ?thesis by (auto simp: writes_def)
qed

lemma split_run:
  assumes "length words = 8" "n + m \<le> 8" "\<forall>k. n \<le> k \<and> k < n + m \<longrightarrow> words ! k = (0 :: u32)"
  shows "words = take n words @ replicate m 0 @ drop (n + m) words"
proof -
  have "take m (drop n words) = replicate m 0" using assms by (intro nth_equalityI) simp_all
  then show ?thesis by (metis append_take_drop_id drop_drop add.commute)
qed

lemma writes_run:
  assumes "length src = 16" "2 \<le> m" "n + m \<le> 8" "\<forall>k. n \<le> k \<and> k < n + m \<longrightarrow> words_of src ! k = 0"
    "\<not> (v4_tail (words_of src) (int n, int m) \<and> \<not> in_run (int n, int m) 6)"
  shows "writes src (int n, int m) (head_text (take n (words_of src)) @ CHR '':'' # words_text (drop (n + m) (words_of src)))"
proof -
  note w = words_of_facts [OF assms(1)]
  let ?words = "words_of src" and ?best = "(int n, int m)"
  let ?us = "take n ?words" and ?vs = "drop (n + m) ?words"
  have lt: "\<forall>k < 8. ?words ! k < 2 ^ 16" using w(2,3) by simp
  have n: "n < 8" using assms(2,3) by simp
  have first: "format_loop src ?words ?best 0 [] = format_loop src ?words ?best n (segment_text ?words 0 n)"
    "length (segment_text ?words 0 n) \<le> 5 * n"
    using format_segment [of 0 n ?best ?words "[]" src] lt n by (simp_all add: in_run_def v4_tail_def)
  let ?head = "segment_text ?words 0 n @ '':''"
  have head: "?head = head_text ?us"
    using segment_from_start [of n ?words] head_words_text [of ?us] w(2) n by (cases "n = 0") (auto simp: segment_text_def head_text_def)
  have run: "format_loop src ?words ?best 0 [] = format_loop src ?words ?best (n + m) ?head"
    using first format_run [of m n "segment_text ?words 0 n" src ?words] assms(2,3) by simp
  have "\<forall>k. n + m \<le> k \<and> k < 8 \<longrightarrow> \<not> in_run ?best k \<and> \<not> (k = 6 \<and> v4_tail ?words ?best)"
    using assms(5) by (auto simp: in_run_def)
  then have rest: "format_loop src ?words ?best 0 [] = Some (Inr (?head @ segment_text ?words (n + m) 8))"
    "length (?head @ segment_text ?words (n + m) 8) \<le> 40"
    using run format_segment [of "n + m" 8 ?best ?words ?head src] lt assms(2,3) first(2) by (simp_all add: format_end)
  let ?final = "if int n + int m = 8 then '':'' else []"
  have tail: "segment_text ?words (n + m) 8 @ ?final = CHR '':'' # words_text ?vs"
    using segment_to_end [of "n + m" ?words] w(2) assms(2,3) by (cases "n + m = 8") (auto simp: segment_text_def)
  have text_eq: "(?head @ segment_text ?words (n + m) 8) @ ?final = head_text ?us @ CHR '':'' # words_text ?vs"
    using head tail by simp
  have "plain ((?head @ segment_text ?words (n + m) 8) @ ?final)" by (simp add: plain_append plain_segment)
  moreover have "length ((?head @ segment_text ?words (n + m) 8) @ ?final) \<le> 45" using rest(2) by simp
  moreover have "inet_pton6 (head_text ?us @ CHR '':'' # words_text ?vs) = Some (Inr src)"
  proof -
    obtain g where g: "m = Suc g" using assms(2) by (cases m) auto
    have split: "?words = ?us @ replicate (Suc g) 0 @ ?vs" using split_run [OF w(2) assms(3,4)] unfolding g .
    have "\<forall>x \<in> set (?us @ ?vs). x < 2 ^ 16" using w(3) by (auto dest: in_set_takeD in_set_dropD)
    moreover have "length ?us + length ?vs + Suc g = 8" using w(2) assms(3) g by simp
    ultimately show ?thesis using pton6_two_parts [of ?us ?vs g] split w(1) by simp
  qed
  ultimately show ?thesis unfolding writes_def text_eq using rest(1) text_eq
    by (intro exI [of _ "?head @ segment_text ?words (n + m) 8"]) simp
qed

lemma plain_dotted: "plain (dotted bs)"
  using dotted_facts(3,4) by (simp add: plain_def)

lemma zero_bytes: "word_bytes (replicate k 0) = replicate (2 * k) 0"
  by (induction k) (simp_all add: word_bytes_def)

lemma writes_embedded:
  assumes "length src = 16" "2 \<le> m" "n + m \<le> 8" "\<forall>k. n \<le> k \<and> k < n + m \<longrightarrow> words_of src ! k = 0"
    "v4_tail (words_of src) (int n, int m)" "\<not> in_run (int n, int m) 6"
  shows "\<exists>t. writes src (int n, int m) t"
proof -
  note w = words_of_facts [OF assms(1)]
  let ?words = "words_of src" and ?v4 = "drop 12 src"
  have nm: "n = 0" "m = 6 \<or> m = 5 \<and> ?words ! 5 = 0xffff" using assms(5,6) by (auto simp: v4_tail_def in_run_def)
  have run: "format_loop src ?words (0, int m) 0 [] = format_loop src ?words (0, int m) m '':''"
    using format_run [of m 0 "[]" src ?words] assms(2,3) nm(1) by simp
  have tail: "format_loop src ?words (0, int m) 6 tmp = Some (Inr (tmp @ '':'' @ dotted ?v4))" if "length tmp \<le> 20" for tmp
    using format_v4 [OF assms(5,6), of tmp src] that nm(1) by simp
  have v4: "length ?v4 = 4" using assms(1) by simp
  have split: "?words = replicate m 0 @ drop m ?words" using split_run [OF w(2) assms(3,4)] nm(1) by simp
  have "word_bytes ?words = replicate (2 * m) 0 @ word_bytes (drop m ?words)"
    by (subst split) (simp only: word_bytes_simps(3) zero_bytes)
  then have src: "src = replicate (2 * m) 0 @ word_bytes (drop m ?words)" using w(1) by simp
  show ?thesis
  proof (cases "m = 6")
    case True
    have "src = replicate 12 0 @ drop 12 src" using arg_cong [OF src, of "drop 12"] src True by simp
    then have "inet_pton6 ('':'' @ '':'' @ dotted ?v4) = Some (Inr src)" using pton6_embedded(1) [OF v4] by simp
    moreover have "plain ('':'' @ '':'' @ dotted ?v4)" by (simp add: plain_append plain_dotted)
    moreover have "length (dotted ?v4) \<le> 15" by (rule dotted_facts)
    ultimately have "writes src (int n, int m) ('':'' @ '':'' @ dotted ?v4)"
      using run tail [of "'':''"] True nm(1) by (simp add: writes_def)
    then show ?thesis by blast
  next
    case False
    then have m: "m = 5" "?words ! 5 = 0xffff" using nm(2) by simp_all
    let ?f = "word_text 0xffff"
    have "drop 5 ?words = 0xffff # drop 6 ?words" using Cons_nth_drop_Suc [of 5 ?words] w(2) m(2) by simp
    then have bytes: "src = replicate 10 0 @ word_bytes [0xffff] @ word_bytes (drop 6 ?words)"
      using src m(1) word_bytes_simps(2) [of "0xffff" "drop 6 ?words"] by simp
    have "drop 12 src = word_bytes (drop 6 ?words)" by (subst bytes) (simp add: word_bytes_simps(4))
    then have "src = replicate 10 0 @ word_bytes [0xffff] @ ?v4" using bytes by simp
    then have readback: "inet_pton6 ('':'' @ '':'' @ ?f @ '':'' @ dotted ?v4) = Some (Inr src)"
      using pton6_embedded(2) [OF v4] by simp
    have "format_loop src ?words (0, 5) 5 '':'' = format_loop src ?words (0, 5) 6 ('':'' @ '':'' @ ?f)"
      using format_loop_word [of 5 "(0, 5)" ?words "'':''" src] m(2) by (simp add: in_run_def)
    then have "format_loop src ?words (0, 5) 0 [] = Some (Inr (('':'' @ '':'' @ ?f) @ '':'' @ dotted ?v4))"
      using run tail [of "'':'' @ '':'' @ ?f"] word_text_length(1) [of "0xffff"] m(1) by simp
    moreover have "plain ('':'' @ '':'' @ ?f @ '':'' @ dotted ?v4)" by (simp add: plain_append plain_dotted plain_word)
    moreover have "length (dotted ?v4) \<le> 15" "length ?f \<le> 4" using dotted_facts(1) word_text_length(1) [of "0xffff"] by simp_all
    ultimately have "writes src (int n, int m) ('':'' @ '':'' @ ?f @ '':'' @ dotted ?v4)"
      using readback m(1) nm(1) by (simp add: writes_def)
    then show ?thesis by blast
  qed
qed

lemma writes_best:
  assumes "length src = 16"
  shows "\<exists>t. writes src (best_run (words_of src)) t"
proof -
  obtain b l where best: "best_run (words_of src) = (b, l)" by (cases "best_run (words_of src)")
  show ?thesis
  proof (cases "b = - 1")
    case True
    then show ?thesis using writes_words [OF assms] best by auto
  next
    case False
    then obtain n m where nm: "b = int n" "l = int m" "2 \<le> m" "n + m \<le> 8" "\<forall>k. n \<le> k \<and> k < n + m \<longrightarrow> words_of src ! k = 0"
      using best_run_zero [OF words_of_facts(2) [OF assms] best] by blast
    show ?thesis unfolding best nm(1,2)
      using writes_run [OF assms nm(3,4,5)] writes_embedded [OF assms nm(3,4,5)] by blast
  qed
qed

text \<open>C19. An address that is written is read back: for IPv4 with a buffer of 16 characters or more and for
  IPv6 with one of 46, \<open>uv_inet_ntop\<close> succeeds, without a write outside its own buffer or the caller's, and
  \<open>uv_inet_pton\<close> on its text gives the same bytes. This covers every shape of an IPv6 text: eight words, the
  longest run of zeros as \<open>::\<close>, at either end too, and the embedded IPv4 addresses.\<close>

theorem uv_inet_round_trip:
  assumes "af = AF_INET \<and> length src = 4 \<and> 16 \<le> sz \<or> af = AF_INET6 \<and> length src = 16 \<and> 46 \<le> sz" "sz \<le> length d"
  shows "\<exists>d'. uv_inet_ntop af src d sz = Some (0, d') \<and> uv_inet_pton af (c_string d') = Some (Inr src)"
  using assms(1)
proof
  assume a: "af = AF_INET \<and> length src = 4 \<and> 16 \<le> sz"
  then show ?thesis using ntop4_text [of sz d src] assms(2) pton4_complete [of src]
    by (auto simp: uv_inet_ntop_def uv_inet_pton_def)
next
  assume a: "af = AF_INET6 \<and> length src = 16 \<and> 46 \<le> sz"
  then have src: "length src = 16" by simp
  let ?best = "best_run (words_of src)"
  obtain t where "writes src ?best t" using writes_best [OF src] by blast
  then obtain tmp where tmp: "format_loop src (words_of src) ?best 0 [] = Some (Inr tmp)"
      "t = tmp @ (if fst ?best \<noteq> - 1 \<and> fst ?best + snd ?best = 8 then '':'' else [])"
    and t: "length t \<le> 45" "plain t" "inet_pton6 t = Some (Inr src)" by (auto simp: writes_def)
  have close_eq: "(if fst ?best \<noteq> - 1 \<and> fst ?best + snd ?best = 8 then emit tmp CHR '':'' else Some tmp) = Some t"
    using t(1) unfolding tmp(2) by (simp add: emit_def UV__INET6_ADDRSTRLEN_def split: if_splits)
  have "NUL \<notin> set t" "length t < sz" "length t \<le> SSIZE_MAX" using t a by (simp_all add: plain_def SSIZE_MAX_def)
  then obtain d' where d': "uv__strscpy d t sz = Some (int (length t), d')" "c_string d' = t"
    using strscpy_copies [of t sz d] assms(2) by blast
  have "inet_ntop6 src d sz = Some (0, d')"
    using tmp(1) close_eq d'(1) t(1) by (simp add: inet_ntop6_def emit_def UV__INET6_ADDRSTRLEN_def UV_E2BIG_def)
  then show ?thesis using a t d'(2)
    by (simp add: uv_inet_ntop_def uv_inet_pton_def AF_INET_def AF_INET6_def plain_def)
qed

theorem uv_inet_round_trip_witness:
  "\<exists>d'. uv_inet_ntop AF_INET6 (replicate 10 0 @ [0xff, 0xff, 192, 0, 2, 1]) (replicate 46 NUL) 46 = Some (0, d') \<and>
     uv_inet_pton AF_INET6 (c_string d') = Some (Inr (replicate 10 0 @ [0xff, 0xff, 192, 0, 2, 1]))"
  using uv_inet_round_trip [of AF_INET6 "replicate 10 0 @ [0xff, 0xff, 192, 0, 2, 1]" 46 "replicate 46 NUL"] by simp

end
