(* ===== verification/Spec2Isabelle.thy ===== *)
theory Spec2Isabelle
  imports Prelude Data_Parsing Thread_State Expression_Machine Dwarf_Records Dwarf_Instructions
    Compact_Unwind Unwind Pb_Common Pb_Encode Pb_Encode_Bounds Pb_Wire Pb_Decode Pb_Decode_Values
    Pb_Decode_Message Pb_Decode_Fields Pb_Decode_Refinement Uv_Heap Uv_Queue Uv_Loop Uv_Timers Uv_Run Uv_Watchers Uv_Poll
    Uv_Core Uv_Inet
begin

text \<open>
  A model of C code in the iOS pods of the GottaGo application (\<^verbatim>\<open>src/ios/Pods\<close>): the stack unwinder
  of FirebaseCrashlytics (\<^verbatim>\<open>FirebaseCrashlytics/Crashlytics/Crashlytics\<close>), which runs in the crash
  handler of the application and walks the stacks of its threads; nanopb (\<^verbatim>\<open>nanopb\<close>), which encodes and decodes
  the protocol-buffer messages of the Firebase libraries; and from libuv (\<^verbatim>\<open>Libuv-gRPC\<close>), on which gRPC runs, the
  event loop with its timers, watchers and wait for I/O, and the reader and writer of IP addresses.

  \<^bold>\<open>How the parts interact.\<close> \<open>FIRCLSProcessRecordThread\<close> takes a thread's registers and calls
  \<open>FIRCLSUnwindNextFrame\<close> until it reports \<open>false\<close>. Each step looks up the image of the program
  counter in the image table, searches the compact unwind section of the image for the encoding of
  the function, and executes it: the frame is undone through the link register, through the frame
  pointer, or by a DWARF call frame program from the image's \<open>eh_frame\<close> section. The records of that
  section are parsed, their instructions interpreted, and the caller's registers computed, where a
  rule may be an expression for a small stack machine. If all of it fails, the frame pointer is used.

  In nanopb, \<open>pb_encode\<close> walks the descriptors of a message with the iterator of \<^verbatim>\<open>pb_common.c\<close>, and for
  each field reads the structure at the iterator's data pointer and writes a tag and a value to a
  stream, by the encoder that \<open>PB_ENCODERS\<close> has for the type. A submessage is encoded twice, first to a
  sizing stream for its length. The stream is a buffer, a sizing stream, or a user's function. \<open>pb_decode\<close> reads
  tags from a stream, finds the field of a tag with the same iterator, starting from the field found last, and calls
  the decoder that \<open>PB_DECODERS\<close> has for the type; it keeps the required fields it has seen in a bit array, and
  the fields of pointer type take their memory from an allocator.

  In libuv, \<open>uv_run\<close> repeats an iteration of phases over one loop structure: \<open>uv__run_timers\<close> takes the timers that are
  due from a binary heap, \<open>uv__run_pending\<close> and \<open>uv__run_idle\<close>, \<open>uv__run_prepare\<close> and \<open>uv__run_check\<close> go over linked
  queues, \<open>uv__io_poll\<close> gives the watched file descriptors to \<open>kevent\<close>, waits until the next timer at most and
  dispatches the events, and \<open>uv__run_closing_handles\<close> ends the handles that are being closed. In every phase
  callbacks may change the same heap and queues.

  \<^bold>\<open>Theories.\<close>
  \<^item> \<open>Prelude\<close>: machine words, byte memory, C operations that may be undefined, their lemmas.
  \<^item> \<open>Data_Parsing\<close>: \<^verbatim>\<open>FIRCLSDataParsing.c\<close>, the readers of integers, LEB128 numbers and encoded
    pointers; locales \<open>cursor_reader\<close> and \<open>bounded_reader\<close>, interpreted for every reader.
  \<^item> \<open>Thread_State\<close>: \<^verbatim>\<open>FIRCLSThreadState.c\<close> and the register part of \<^verbatim>\<open>FIRCLSUnwind_arm.c\<close>; the
    locale \<open>register_file\<close>, interpreted for the ARM64 context.
  \<^item> \<open>Expression_Machine\<close>: \<^verbatim>\<open>FIRCLSDwarfExpressionMachine.c\<close> and the evaluator of
    \<^verbatim>\<open>FIRCLSDwarfUnwind.c\<close>.
  \<^item> \<open>Dwarf_Records\<close> and \<open>Dwarf_Instructions\<close>: \<^verbatim>\<open>FIRCLSDwarfUnwind.c\<close>, the parsing of CIE and FDE
    records and the interpreter of call frame instructions.
  \<^item> \<open>Compact_Unwind\<close>: \<^verbatim>\<open>FIRCLSCompactUnwind.c\<close>, the two-level lookup.
  \<^item> \<open>Unwind\<close>: \<^verbatim>\<open>FIRCLSUnwind.c\<close>, the image table of \<^verbatim>\<open>FIRCLSBinaryImage.m\<close> and the recording loop
    of \<^verbatim>\<open>FIRCLSProcess.c\<close>; the locale \<open>counted_step\<close>, interpreted for \<open>FIRCLSUnwindNextFrame\<close>.
  \<^item> \<open>Pb_Common\<close>: \<^verbatim>\<open>nanopb/pb.h\<close> and \<^verbatim>\<open>pb_common.c\<close>, the descriptors in memory and their iterator.
  \<^item> \<open>Pb_Encode\<close>: \<^verbatim>\<open>nanopb/pb_encode.c\<close>, every function; the locale \<open>encoder_property\<close>, which carries a
    property from the ways steps are composed to whole messages.
  \<^item> \<open>Pb_Encode_Bounds\<close>: the interpretations of that locale, for the bytes a step may change and for
    the number of bytes two runs count.
  \<^item> \<open>Pb_Wire\<close>: the wire format, the content of a structure, and the refinement between the two.
  \<^item> \<open>Pb_Decode\<close>, \<open>Pb_Decode_Values\<close>, \<open>Pb_Decode_Message\<close>: \<^verbatim>\<open>nanopb/pb_decode.c\<close>, the streams and numbers, their
    properties, and the decoding and release of fields and messages.
  \<^item> \<open>Pb_Decode_Fields\<close> and \<open>Pb_Decode_Refinement\<close>: round trips of the values, and the loop over a message
    against a description of what its records store.
  \<^item> \<open>Uv_Heap\<close> and \<open>Uv_Queue\<close>: \<^verbatim>\<open>src/heap-inl.h\<close>, with the locale \<open>heap_order\<close> for the comparison the heap relies on,
    and \<^verbatim>\<open>src/queue.h\<close>.
  \<^item> \<open>Uv_Loop\<close>, \<open>Uv_Timers\<close> and \<open>Uv_Run\<close>: the loop structure, the flags and counts of \<^verbatim>\<open>src/uv-common.h\<close>, and
    \<^verbatim>\<open>src/timer.c\<close>; the invariant \<open>loop_ok\<close>, the interpretation of \<open>heap_order\<close> on the comparison of timers, the table
    of timers the operations refine, and the pass over the timers that are due.
  \<^item> \<open>Uv_Watchers\<close>: \<^verbatim>\<open>src/unix/loop-watcher.c\<close> and \<open>uv_walk\<close>.
  \<^item> \<open>Uv_Poll\<close>: the watchers of file descriptors of \<^verbatim>\<open>src/unix/core.c\<close>, and \<open>uv__io_poll\<close> of \<^verbatim>\<open>src/unix/kqueue.c\<close>.
  \<^item> \<open>Uv_Core\<close>: \<^verbatim>\<open>src/unix/core.c\<close>, closing handles and \<open>uv_run\<close>.
  \<^item> \<open>Uv_Inet\<close>: \<^verbatim>\<open>src/inet.c\<close> and \<^verbatim>\<open>src/strscpy.c\<close>.

  \<^bold>\<open>Conventions.\<close> \<open>None\<close> is an execution whose behaviour C does not define (a read of unmapped memory,
  pointer arithmetic that leaves the address space, a signed overflow); inside \<open>Some\<close>, the result the
  code reports is a \<open>bool\<close> with the updated state or, as \<open>'a outcome\<close>, \<open>None\<close> for \<open>false\<close>. Pointers and
  \<open>uintptr_t\<close> are 64-bit words. The configuration is a 64-bit ARM device; code the preprocessor leaves
  out there is not modelled. Logging is left out, except where evaluating its arguments has an effect. A failed
  \<open>assert\<close> and an \<open>abort\<close> are \<open>None\<close> as well. What is not under \<^verbatim>\<open>src/\<close> is an argument of the definitions:
  the functions of callback fields and streams, the allocator, the comparison of the heap, the callbacks of handles,
  the clock and the system calls of the loop. One record \<open>uv_handle\<close> has the fields of a timer and of a watcher.

  \<^bold>\<open>What the lemmas show.\<close> Crashlytics: round trips of the readers and of whole call frame sections (C1, C2, C3,
  C7); the expression machine and the call frame interpreter against the meaning the DWARF standard
  gives, in the scope of the code (C4, C9), and their memory safety on arbitrary bytes (C5, C11); the registers they
  compute (C12), and their agreement with the frame pointer (C13); the searches against a table of functions (C14,
  C15, C17) and the stack scan (C25); the image table as a registry (C18); the invariant of a walk, its bound of
  \<open>FIRCLSUnwindMaxFrames\<close> steps, and the trace it records (C20 to C23).
  nanopb: the iterator against the layout of the structure (C26, C27); the number formats (C28,
  C29), the bytes of a whole message (C30), the bounds of the buffer on every message (C31) and the
  exactness of the size computed in advance (C32); the readers of numbers (C34), skipping a field (C36), the round
  trip of a value (C37), and the decoding of a whole message (C38).
  libuv: the timers against a table with their due times (C35, C39, C40), a pass over the watchers (C24), the end of
  the loop when every timer has run (C16), and IPv4 and IPv6 addresses (C8, C19).

  C6, C10 and C33 state defects of the code, and so do some lemmas of the theories: \<open>fde_augmentation_overrun\<close>,
  \<open>def_cfa_keeps_expression\<close>, \<open>last_function_not_found\<close>, \<open>reload_unload_stays_loaded\<close>, \<open>recursion_count_forgotten\<close>
  and \<open>interrupted_wait_ends_early\<close>. Where a property holds only short of a defect, its text says so.

  \<^bold>\<open>Termination.\<close> Loops over bytes advance a cursor, the walk counts frames up to 100000, and the
  binary search shrinks its interval, so these are total functions. Only the stack scan can loop
  without end (its \<open>end\<close> argument may lie at the top of the address space); it is a partial function
  and C25 shows that it returns on a range that does not reach there. \<open>pb_encode\<close> has fuel, for the depth
  of submessages and the length of the extension lists, which the data could make cyclic: a fuel of
  one more than the depth of the message type is enough, and C30 has it as the fuel of the content. \<open>pb_decode\<close> has
  fuel for the same reason, and one more than the depth is enough in C38.
  The walk over the descriptors is a partial function that C26 and C30 show to return. The loops of libuv that
  callbacks may keep going for ever are partial functions: C24, C40 and C16 show that they return, with callbacks of
  boundedly many operations, and for \<open>uv_run\<close> by the time to the last due timer, which every wait makes shorter.

  \<^bold>\<open>Not modelled.\<close> Mach calls, signal handling, files and the JSON writer; the x86 and 32-bit ARM
  unwinders, which are compiled out; of libuv the sockets, files, processes, signals, threads and file-system events,
  and \<^verbatim>\<open>idna.c\<close>; BoringSSL; the Objective-C, C++ and Dart parts of the application.
\<close>

text \<open>
  C13. The two unwinders agree. A CIE and an FDE of a standard frame, as a compiler writes them,
  parsed and executed past the prologue of the function, give the caller's registers that
  \<open>FIRCLSUnwindWithFramePointer\<close> reads from the frame record, provided the stack pointer and the
  return address change. The only difference is that the DWARF unwinder also sets the link register.
\<close>

theorem dwarf_agrees_with_frame_pointer:
  assumes section_at: "bytes_at m base (frame_bytes base 1 1 (- 8) 30 (cfi_program [CfiDefCfa 31 0])
      start extent 0 (cfi_program standard_frame))" and base: "base \<noteq> 0"
    and fde_ok: "fde_ok 20 (base + 20) start extent 0 (cfi_program standard_frame)"
    and pc: "4 < sint (FIRCLSThreadContextGetPC registers - start)"
    and read: "FIRCLSReadMemory m (FIRCLSThreadContextGetFramePointer registers) 16 \<noteq> None"
    and result: "FIRCLSUnwindWithFramePointer m registers False = (ok, caller)"
    and sp: "FIRCLSThreadContextGetStackPointer registers \<noteq> FIRCLSThreadContextGetStackPointer caller"
    and lr: "FIRCLSThreadContextGetLinkRegister registers \<noteq> FIRCLSThreadContextGetPC caller"
  shows "\<exists>cfi. FIRCLSDwarfParseCFIFromFDERecordOffset m base 20 = Some (Some cfi) \<and> ok \<and>
    FIRCLSDwarfUnwindComputeRegisters m cfi registers = Some (Some (caller\<lparr>ss_lr := ss_pc caller\<rparr>))"
proof -
  let ?enc = "DW_EH_PE_pcrel OR DW_EH_PE_sdata4" and ?fp = "FIRCLSThreadContextGetFramePointer registers"
  let ?instrs = "cfi_program [CfiDefCfa 31 0]"
  have cie_ok: "cie_ok 1 1 (- 8) 30 ?instrs"
    by (simp add: cie_ok_def cfi_program_def uleb128.simps)
  have k: "20 = length (cie_bytes 1 1 (- 8) 30 ?enc ?instrs)"
    by (simp add: cie_bytes_def cie_header_def return_register_bytes_def uleb128.simps sleb128_short
        cfi_program_def)
  let ?cfi = "\<lparr>cfi_cie = cie_of base 1 1 (- 8) 30 ?enc ?instrs,
    cfi_fde = fde_of 20 (base + 20) start extent 0 (cfi_program standard_frame)\<rparr>"
  have parse: "FIRCLSDwarfParseCFIFromFDERecordOffset m base 20 = Some (Some ?cfi)"
    using frame_parse [OF section_at base cie_ok k] fde_ok by simp
  have at: "bytes_at m base (cie_bytes 1 1 (- 8) 30 ?enc ?instrs)"
    and fde_at: "bytes_at m (base + 20) (fde_bytes 20 (base + 20) start extent 0 (cfi_program standard_frame))"
    using section_at k [symmetric] by (simp_all add: frame_bytes_def Let_def bytes_at_append)
  from read obtain bs where bs: "FIRCLSReadMemory m ?fp 16 = Some bs" by blast
  then have caller: "ok" "caller = registers\<lparr>ss_pc := of_nat (bytes_nat (drop 8 bs)),
      ss_fp := of_nat (bytes_nat (take 8 bs)), ss_sp := ?fp + 16\<rparr>"
    using result by (simp_all add: FIRCLSUnwindWithFramePointer_def context_accessors
        FIRCLSUnwindStackPointerFromFramePointer_def)
  have assign: "FIRCLSDwarfUnwindAssignRegisters m standard_state registers (?fp + 16) =
      Some (Some (caller\<lparr>ss_lr := ss_pc caller\<rparr>))"
    using sp lr by (intro standard_assign [OF bs]) (simp_all add: caller context_accessors)
  have "FIRCLSDwarfUnwindComputeRegisters m ?cfi registers = Some (Some (caller\<lparr>ss_lr := ss_pc caller\<rparr>))"
    by (rule standard_compute [OF _ _ _ at fde_payload_at [OF fde_at] pc assign])
       (simp_all add: fde_of_def standard_frame_bytes)
  with parse caller(1) show ?thesis by blast
qed

text \<open>A section at 4096 and, after its 45 bytes, a frame record.\<close>

definition sample_section :: "byte list" where
  "sample_section = frame_bytes 4096 1 1 (- 8) 30 (cfi_program [CfiDefCfa 31 0]) 16384 64 0
     (cfi_program standard_frame)"

definition sample_frame :: "byte list" where
  "sample_frame = [0, 0x30, 0, 0, 0, 0, 0, 0, 0, 0x50, 0, 0, 0, 0, 0, 0]"

theorem dwarf_agrees_with_frame_pointer_witness:
  "\<exists>cfi. FIRCLSDwarfParseCFIFromFDERecordOffset (mem_of 4096 (sample_section @ sample_frame)) 4096 20 =
      Some (Some cfi) \<and>
    (\<exists>caller. FIRCLSDwarfUnwindComputeRegisters (mem_of 4096 (sample_section @ sample_frame)) cfi
        (sample_callee\<lparr>ss_fp := 4141\<rparr>) = Some (Some caller) \<and>
      ss_fp caller = 0x3000 \<and> ss_pc caller = 0x5000 \<and> ss_sp caller = 4157)"
proof -
  let ?r = "sample_callee\<lparr>ss_fp := 4141\<rparr>"
  define m where "m = mem_of 4096 (sample_section @ sample_frame)"
  have init: "cfi_program [CfiDefCfa 31 0] = [0x0C, 31, 0]"
    by (simp add: cfi_program_def uleb128.simps DW_CFA_defs)
  have len: "length sample_section = 45"
    by (simp add: sample_section_def frame_bytes_def cie_bytes_def cie_header_def init
        return_register_bytes_def fde_bytes_def fde_header_def standard_frame_bytes uleb128.simps
        sleb128_short)
  have all: "bytes_at m 4096 (sample_section @ sample_frame)"
    unfolding m_def by (rule bytes_at_mem_of) (simp add: len sample_frame_def)
  then have sec: "bytes_at m 4096 sample_section" and fr: "bytes_at m 4141 sample_frame"
    using bytes_at_append [of m 4096 sample_section sample_frame] by (simp_all add: len)
  have fp: "FIRCLSThreadContextGetFramePointer ?r = 4141"
    by (simp add: context_accessors CLS_PTRAUTH_STRIP_def)
  have "load_bytes m 4141 16 = Some sample_frame"
    unfolding load_bytes_iff using fr by (simp add: sample_frame_def)
  then have read: "FIRCLSReadMemory m 4141 16 = Some sample_frame"
    by (simp add: FIRCLSReadMemory_def FIRCLSIsValidPointer_def del: load_bytes_numeral)
  let ?caller = "?r\<lparr>ss_pc := 0x5000, ss_fp := 0x3000, ss_sp := 4157\<rparr>"
  have result: "FIRCLSUnwindWithFramePointer m ?r False = (True, ?caller)"
    using read by (simp add: FIRCLSUnwindWithFramePointer_def fp
        FIRCLSUnwindStackPointerFromFramePointer_def sample_frame_def)
       (simp add: context_accessors FIRCLSUnwindStackPointerFromFramePointer_def)
  have ok: "fde_ok 20 (4096 + 20) 16384 64 0 (cfi_program standard_frame)"
    by (simp add: fde_ok_def standard_frame_bytes CLS_INVALID_ADDRESS_def)
  from dwarf_agrees_with_frame_pointer [OF sec [unfolded sample_section_def] _ ok _ _ result] read
  show ?thesis
    unfolding m_def [symmetric] by (simp add: fp) (force simp: context_accessors CLS_PTRAUTH_STRIP_def sample_callee_def)
qed

end
